(* ===== verification/Prelude.thy ===== *)
theory Prelude
  imports Main "HOL-Library.Multiset" "HOL-Library.Sublist"
begin

text \<open>
  Shared vocabulary of the development: the JavaScript containers and library calls that
  every component of the repository uses.

  \<^item> \<open>jsmap\<close>: a JavaScript \<open>Map\<close>, an association list in insertion order. Setting an
    existing key keeps its position, setting a new key appends.
  \<^item> \<open>jsset\<close>: a JavaScript \<open>Set\<close>, a list in insertion order.
  \<^item> \<open>js_sort\<close>: \<open>Array.prototype.sort\<close> with a comparator, which is stable since ES2019.
    The locale \<open>comparator\<close> is the contract a comparator has to satisfy for the result to
    be determined, and the facts about sorting are proved once inside it.
  \<^item> \<open>bind_sum\<close>: sequencing of code that may throw; \<open>Inl\<close> carries the error.
\<close>

named_theorems js_simps \<open>rewrite rules of the JavaScript containers\<close>

section \<open>Errors as values\<close>

fun bind_sum :: "'e + 'a \<Rightarrow> ('a \<Rightarrow> 'e + 'b) \<Rightarrow> 'e + 'b" where
  "bind_sum (Inl e) f = Inl e"
| "bind_sum (Inr a) f = f a"

lemma bind_sum_eq_Inr [simp]:
  "bind_sum m f = Inr b \<longleftrightarrow> (\<exists>a. m = Inr a \<and> f a = Inr b)"
  by (cases m) auto

lemma bind_sum_eq_Inl [simp]:
  "bind_sum m f = Inl e \<longleftrightarrow> m = Inl e \<or> (\<exists>a. m = Inr a \<and> f a = Inl e)"
  by (cases m) auto

text \<open>\<open>Number.MAX_SAFE_INTEGER\<close>.\<close>

definition MAX_SAFE_INTEGER :: int where "MAX_SAFE_INTEGER = 9007199254740991"

section \<open>Maps and sets in insertion order\<close>

type_synonym ('k, 'v) jsmap = "('k \<times> 'v) list"
type_synonym 'a jsset = "'a list"

abbreviation jm_get :: "('k, 'v) jsmap \<Rightarrow> 'k \<Rightarrow> 'v option" where
  "jm_get m k \<equiv> map_of m k"

definition jm_has :: "('k, 'v) jsmap \<Rightarrow> 'k \<Rightarrow> bool" where
  "jm_has m k = (map_of m k \<noteq> None)"

fun jm_set :: "('k, 'v) jsmap \<Rightarrow> 'k \<Rightarrow> 'v \<Rightarrow> ('k, 'v) jsmap" where
  "jm_set [] k v = [(k, v)]"
| "jm_set ((k', v') # m) k v = (if k' = k then (k, v) # m else (k', v') # jm_set m k v)"

definition jm_delete :: "('k, 'v) jsmap \<Rightarrow> 'k \<Rightarrow> ('k, 'v) jsmap" where
  "jm_delete m k = filter (\<lambda>p. fst p \<noteq> k) m"

definition jm_keys :: "('k, 'v) jsmap \<Rightarrow> 'k list" where
  "jm_keys m = map fst m"

definition jm_values :: "('k, 'v) jsmap \<Rightarrow> 'v list" where
  "jm_values m = map snd m"

text \<open>A map holds every key once; every operation keeps that.\<close>

definition jm_ok :: "('k, 'v) jsmap \<Rightarrow> bool" where
  "jm_ok m = distinct (map fst m)"

definition js_add :: "'a jsset \<Rightarrow> 'a \<Rightarrow> 'a jsset" where
  "js_add s x = (if x \<in> set s then s else s @ [x])"

definition js_remove :: "'a jsset \<Rightarrow> 'a \<Rightarrow> 'a jsset" where
  "js_remove s x = filter (\<lambda>y. y \<noteq> x) s"

lemma jm_get_set [simp, js_simps]: "jm_get (jm_set m k v) = (jm_get m)(k \<mapsto> v)"
  by (induction m) (auto simp: fun_eq_iff)

lemma jm_get_delete [simp, js_simps]: "jm_get (jm_delete m k) = (jm_get m)(k := None)"
  by (induction m) (auto simp: jm_delete_def fun_eq_iff)

lemma fst_jm_set [simp]: "fst ` set (jm_set m k v) = insert k (fst ` set m)"
proof (induction m)
  case (Cons p m)
  then show ?case by (cases p) (simp add: insert_commute)
qed simp

lemma set_jm_set_subset: "set (jm_set m k v) \<subseteq> insert (k, v) (set m)"
  by (induction m) (auto split: if_splits)

lemma set_jm_delete: "set (jm_delete m k) = {p \<in> set m. fst p \<noteq> k}"
  by (simp add: jm_delete_def)

lemma fst_jm_delete [simp]: "fst ` set (jm_delete m k) = fst ` set m - {k}"
  by (auto simp: jm_delete_def image_iff)

lemma jm_ok_set [simp, intro]: "jm_ok m \<Longrightarrow> jm_ok (jm_set m k v)"
  by (induction m) (auto simp: jm_ok_def)

lemma jm_ok_filter [intro]: "jm_ok m \<Longrightarrow> jm_ok (filter P m)"
  by (induction m) (auto simp: jm_ok_def)

lemma jm_ok_delete [simp, intro]: "jm_ok m \<Longrightarrow> jm_ok (jm_delete m k)"
  by (auto simp: jm_delete_def)

lemma jm_delete_Nil [simp]: "jm_delete [] k = []"
  by (simp add: jm_delete_def)

lemma jm_ok_Nil [simp]: "jm_ok []"
  by (simp add: jm_ok_def)

lemma jm_ok_Cons: "jm_ok (p # m) \<longleftrightarrow> fst p \<notin> fst ` set m \<and> jm_ok m"
  by (simp add: jm_ok_def)

lemma jm_has_iff: "jm_has m k \<longleftrightarrow> k \<in> fst ` set m"
  by (auto simp: jm_has_def map_of_eq_None_iff)

lemma jm_has_set [simp]: "jm_has (jm_set m k v) j \<longleftrightarrow> j = k \<or> jm_has m j"
  by (auto simp: jm_has_def)

lemma jm_has_delete [simp]: "jm_has (jm_delete m k) j \<longleftrightarrow> j \<noteq> k \<and> jm_has m j"
  by (auto simp: jm_has_def)

lemma jm_get_in_set: "jm_ok m \<Longrightarrow> jm_get m k = Some v \<longleftrightarrow> (k, v) \<in> set m"
  by (simp add: jm_ok_def)

lemma jm_get_filter:
  "jm_ok m \<Longrightarrow> jm_get (filter P m) k = (case jm_get m k of None \<Rightarrow> None | Some v \<Rightarrow> if P (k, v) then Some v else None)"
  by (induction m) (auto simp: jm_ok_def map_of_eq_None_iff image_iff split: option.splits dest: map_of_SomeD)

lemma jm_get_map_values: "jm_get (map (\<lambda>(k, v). (k, g v)) m) k = map_option g (jm_get m k)"
  by (induction m) auto

lemma jm_ok_map_values [simp]: "jm_ok (map (\<lambda>(k, v). (k, g v)) m) = jm_ok m"
  by (simp add: jm_ok_def comp_def case_prod_beta)

lemma length_jm_delete: "jm_ok m \<Longrightarrow> jm_has m k \<Longrightarrow> Suc (length (jm_delete m k)) = length m"
proof (induction m)
  case (Cons p m)
  show ?case
  proof (cases "fst p = k")
    case True
    with Cons.prems(1) have "\<forall>q \<in> set m. fst q \<noteq> k" by (auto simp: jm_ok_Cons image_iff)
    with True have "jm_delete (p # m) k = m" by (simp add: jm_delete_def filter_id_conv)
    then show ?thesis by simp
  next
    case False
    with Cons show ?thesis by (cases p) (simp add: jm_delete_def jm_ok_Cons jm_has_def)
  qed
qed (simp add: jm_has_def)

lemma length_jm_set: "length (jm_set m k v) = (if jm_has m k then length m else Suc (length m))"
  by (induction m) (auto simp: jm_has_def)

lemma jm_set_fresh: "\<not> jm_has m k \<Longrightarrow> jm_set m k v = m @ [(k, v)]"
  by (induction m) (auto simp: jm_has_def split: if_splits)

lemma set_js_add [simp, js_simps]: "set (js_add s x) = insert x (set s)"
  by (auto simp: js_add_def)

lemma distinct_js_add [simp]: "distinct (js_add s x) = distinct s"
  by (auto simp: js_add_def)

lemma set_js_remove [simp, js_simps]: "set (js_remove s x) = set s - {x}"
  by (auto simp: js_remove_def)

lemma distinct_js_remove [intro]: "distinct s \<Longrightarrow> distinct (js_remove s x)"
  by (simp add: js_remove_def)

section \<open>Stable sorting with a comparator\<close>

fun js_insert :: "('a \<Rightarrow> 'a \<Rightarrow> int) \<Rightarrow> 'a \<Rightarrow> 'a list \<Rightarrow> 'a list" where
  "js_insert cmp x [] = [x]"
| "js_insert cmp x (y # ys) = (if cmp x y \<le> 0 then x # y # ys else y # js_insert cmp x ys)"

definition js_sort :: "('a \<Rightarrow> 'a \<Rightarrow> int) \<Rightarrow> 'a list \<Rightarrow> 'a list" where
  "js_sort cmp xs = foldr (js_insert cmp) xs []"

lemma js_sort_Nil [simp]: "js_sort cmp [] = []"
  by (simp add: js_sort_def)

lemma js_sort_Cons [simp]: "js_sort cmp (x # xs) = js_insert cmp x (js_sort cmp xs)"
  by (simp add: js_sort_def)

lemma mset_js_insert [simp]: "mset (js_insert cmp x xs) = add_mset x (mset xs)"
  by (induction xs) auto

lemma mset_js_sort [simp]: "mset (js_sort cmp xs) = mset xs"
  by (induction xs) auto

lemma set_js_sort [simp]: "set (js_sort cmp xs) = set xs"
  by (metis mset_js_sort set_mset_mset)

lemma length_js_sort [simp]: "length (js_sort cmp xs) = length xs"
  by (metis mset_js_sort size_mset)

lemma distinct_js_sort [simp]: "distinct (js_sort cmp xs) = distinct xs"
  by (metis mset_js_sort mset_eq_imp_distinct_iff)

lemma js_sort_eq_Nil [simp]: "js_sort cmp xs = [] \<longleftrightarrow> xs = []"
  by (metis length_0_conv length_js_sort)

definition cmp_sorted :: "('a \<Rightarrow> 'a \<Rightarrow> int) \<Rightarrow> 'a list \<Rightarrow> bool" where
  "cmp_sorted cmp xs = sorted_wrt (\<lambda>x y. cmp x y \<le> 0) xs"

lemma js_sort_sorted_id: "cmp_sorted cmp xs \<Longrightarrow> js_sort cmp xs = xs"
proof (induction xs)
  case (Cons x xs)
  then have "js_sort cmp xs = xs"
    by (simp add: cmp_sorted_def)
  with Cons.prems show ?case
    by (cases xs) (auto simp: cmp_sorted_def)
qed simp

lemma cmp_sorted_filter: "cmp_sorted cmp xs \<Longrightarrow> cmp_sorted cmp (filter P xs)"
  by (simp add: cmp_sorted_def sorted_wrt_filter)

text \<open>
  The contract of a comparator: its sign is antisymmetric and \<open>\<le> 0\<close> is transitive. Then
  sorting gives an ordered list, keeps the order of equal elements, and its first element is
  a least one.
\<close>

locale comparator =
  fixes cmp :: "'a \<Rightarrow> 'a \<Rightarrow> int"
  assumes cmp_anti: "cmp x y < 0 \<longleftrightarrow> 0 < cmp y x"
    and cmp_trans: "cmp x y \<le> 0 \<Longrightarrow> cmp y z \<le> 0 \<Longrightarrow> cmp x z \<le> 0"
begin

lemma cmp_refl: "cmp x x = 0"
  using cmp_anti [of x x] by linarith

lemma cmp_total: "cmp x y \<le> 0 \<or> cmp y x \<le> 0"
  using cmp_anti [of x y] by linarith

lemma cmp_zero_sym: "cmp x y = 0 \<longleftrightarrow> cmp y x = 0"
  using cmp_anti [of x y] cmp_anti [of y x] by linarith

lemma cmp_zero_trans: "cmp x y = 0 \<Longrightarrow> cmp y z = 0 \<Longrightarrow> cmp x z = 0"
  using cmp_trans [of x y z] cmp_trans [of z y x] cmp_zero_sym cmp_anti [of x z]
  by (metis order.order_iff_strict order_less_le not_le)

lemma cmp_less_trans: "cmp x y < 0 \<Longrightarrow> cmp y z \<le> 0 \<Longrightarrow> cmp x z < 0"
  using cmp_trans [of y z x] cmp_anti [of x y] cmp_anti [of x z] cmp_total [of x z]
    cmp_trans [of x y z] by (metis linorder_not_le order.strict_implies_order)

lemma js_insert_sorted: "cmp_sorted cmp xs \<Longrightarrow> cmp_sorted cmp (js_insert cmp x xs)"
proof (induction xs)
  case (Cons y ys)
  show ?case
  proof (cases "cmp x y \<le> 0")
    case True
    with Cons.prems show ?thesis
      by (auto simp: cmp_sorted_def intro: cmp_trans)
  next
    case False
    then have yx: "cmp y x \<le> 0" using cmp_total by blast
    from Cons have "cmp_sorted cmp (js_insert cmp x ys)"
      by (simp add: cmp_sorted_def)
    moreover have "set (js_insert cmp x ys) = insert x (set ys)"
      by (metis mset_js_insert set_mset_add_mset_insert set_mset_mset)
    ultimately show ?thesis
      using False yx Cons.prems by (auto simp: cmp_sorted_def)
  qed
qed (simp add: cmp_sorted_def)

lemma js_sort_sorted: "cmp_sorted cmp (js_sort cmp xs)"
proof (induction xs)
  case Nil
  then show ?case by (simp add: cmp_sorted_def)
next
  case (Cons x xs)
  then show ?case by (simp add: js_insert_sorted)
qed

lemma js_sort_head_least:
  assumes "js_sort cmp xs = x # ys" and "y \<in> set xs"
  shows "cmp x y \<le> 0"
proof -
  from assms have "y = x \<or> y \<in> set ys"
    using set_js_sort [of cmp xs] by auto
  with assms(1) js_sort_sorted [of xs] show ?thesis
    by (auto simp: cmp_sorted_def cmp_refl)
qed

lemma js_insert_stable:
  "cmp_sorted cmp ys \<Longrightarrow> filter (\<lambda>y. cmp a y = 0) (js_insert cmp x ys) = filter (\<lambda>y. cmp a y = 0) (x # ys)"
proof (induction ys)
  case (Cons y ys)
  show ?case
  proof (cases "cmp x y \<le> 0")
    case False
    then have "cmp a x = 0 \<Longrightarrow> cmp a y \<noteq> 0"
      using cmp_zero_sym cmp_zero_trans by (metis order_refl)
    with Cons False show ?thesis by (auto simp: cmp_sorted_def)
  qed simp
qed simp

lemma js_sort_stable: "filter (\<lambda>y. cmp a y = 0) (js_sort cmp xs) = filter (\<lambda>y. cmp a y = 0) xs"
  using js_insert_stable [OF js_sort_sorted] by (induction xs) auto

lemma js_sort_idem: "js_sort cmp (js_sort cmp xs) = js_sort cmp xs"
  by (rule js_sort_sorted_id) (rule js_sort_sorted)

end

text \<open>A comparator on a key is a comparator.\<close>

definition cmp_on :: "('a \<Rightarrow> 'k::linorder) \<Rightarrow> 'a \<Rightarrow> 'a \<Rightarrow> int" where
  "cmp_on key a b = (if key a < key b then -1 else if key a > key b then 1 else 0)"

interpretation key_cmp: comparator "cmp_on key" for key :: "'a \<Rightarrow> 'k::linorder"
  by unfold_locales (auto simp: cmp_on_def split: if_splits)

lemma cmp_sorted_cmp_on: "cmp_sorted (cmp_on key) xs \<longleftrightarrow> sorted (map key xs)"
  by (induction xs) (auto simp: cmp_sorted_def cmp_on_def not_less)

end
