(* ===== verification/Cache.thy ===== *)
theory Cache
  imports Prelude
begin

text \<open>
  The FIFO cache of \<open>packages/utils/cache/src/index.ts\<close>, used by the entry index and by the
  trimmer of the log. A key is deleted lazily: \<open>del\<close> only marks it, and the marked key leaves
  the list when \<open>trim\<close> reaches it. Reads of the wall clock (\<open>+new Date()\<close>) are arguments.

  Shown here: \<open>trim\<close> terminates and never throws on a reachable cache, every operation keeps
  the representation invariant, what a \<open>get\<close> returns after an \<open>add\<close> or a \<open>del\<close>, and the
  capacity bound under the condition the size bookkeeping needs. The bookkeeping loses a key
  that is added again after a \<open>del\<close>: the last section shows the bound failing.
\<close>

section \<open>State\<close>

record 'v cacheData =
  cd_value :: "'v option"
  cd_time :: int
  cd_size :: int

record ('k, 'v) cache =
  cache_map :: "('k, 'v cacheData) jsmap"
  cache_deleted :: "'k jsset"
  cache_list :: "'k list"
  currentSize :: int
  cache_max :: int
  cache_ttl :: "int option"

datatype cache_error = Expecting_max_gt_0 | Cache_value_not_found

section \<open>Operations\<close>

definition cache_clear :: "('k, 'v) cache \<Rightarrow> ('k, 'v) cache" where
  "cache_clear c = c\<lparr>cache_map := [], cache_deleted := [], cache_list := [], currentSize := 0\<rparr>"

definition new_Cache :: "int \<Rightarrow> int option \<Rightarrow> cache_error + ('k, 'v) cache" where
  "new_Cache mx ttl =
     (if mx \<le> 0 then Inl Expecting_max_gt_0
      else Inr \<lparr>cache_map = [], cache_deleted = [], cache_list = [], currentSize = 0,
                cache_max = mx, cache_ttl = ttl\<rparr>)"

definition out_of_date :: "('k, 'v) cache \<Rightarrow> 'v cacheData \<Rightarrow> int \<Rightarrow> bool" where
  "out_of_date c d time =
     (case cache_ttl c of None \<Rightarrow> False | Some ttl \<Rightarrow> cd_time d < time - ttl)"

text \<open>One round of the loop of \<open>trim\<close> that evicts the head \<open>k\<close> with data \<open>d\<close>.\<close>

definition evict_head :: "('k, 'v) cache \<Rightarrow> 'k \<Rightarrow> 'v cacheData \<Rightarrow> ('k, 'v) cache" where
  "evict_head c k d =
     c\<lparr>cache_list := tl (cache_list c),
       cache_map := jm_delete (cache_map c) k,
       cache_deleted := js_remove (cache_deleted c) k,
       currentSize := (if k \<in> set (cache_deleted c) then currentSize c
                       else currentSize c - cd_size d)\<rparr>"

function cache_trim :: "int \<Rightarrow> ('k, 'v) cache \<Rightarrow> cache_error + ('k, 'v) cache" where
  "cache_trim time c =
     (case cache_list c of
        [] \<Rightarrow> Inr c
      | k # _ \<Rightarrow>
          (case jm_get (cache_map c) k of
             None \<Rightarrow> Inl Cache_value_not_found
           | Some d \<Rightarrow>
               if out_of_date c d time \<or> currentSize c > cache_max c
               then cache_trim time (evict_head c k d)
               else Inr c))"
  by pat_completeness auto
termination
  by (relation "measure (\<lambda>(time, c). length (cache_list c))") (auto simp: evict_head_def)

declare cache_trim.simps [simp del]

definition cache_has :: "int \<Rightarrow> ('k, 'v) cache \<Rightarrow> 'k \<Rightarrow> cache_error + bool \<times> ('k, 'v) cache" where
  "cache_has now c k = bind_sum (cache_trim now c) (\<lambda>c'.
     Inr (if k \<in> set (cache_deleted c') then False else jm_has (cache_map c') k, c'))"

text \<open>\<open>None\<close> is \<open>undefined\<close>, \<open>Some None\<close> is \<open>null\<close>.\<close>

definition cache_get ::
  "int \<Rightarrow> ('k, 'v) cache \<Rightarrow> 'k \<Rightarrow> cache_error + 'v option option \<times> ('k, 'v) cache" where
  "cache_get now c k = bind_sum (cache_trim now c) (\<lambda>c'.
     Inr (if k \<in> set (cache_deleted c') then None
          else map_option cd_value (jm_get (cache_map c') k), c'))"

definition cache_del :: "('k, 'v) cache \<Rightarrow> 'k \<Rightarrow> 'v cacheData option \<times> ('k, 'v) cache" where
  "cache_del c k =
     (case jm_get (cache_map c) k of
        Some d \<Rightarrow>
          if k \<notin> set (cache_deleted c)
          then (Some d, c\<lparr>cache_deleted := js_add (cache_deleted c) k,
                          currentSize := currentSize c - cd_size d\<rparr>)
          else (None, c)
      | None \<Rightarrow> (None, c))"

text \<open>The state of \<open>add\<close> before its final \<open>trim\<close>.\<close>

definition add_entry ::
  "int \<Rightarrow> ('k, 'v) cache \<Rightarrow> 'k \<Rightarrow> 'v option \<Rightarrow> int \<Rightarrow> ('k, 'v) cache" where
  "add_entry now c k v sz =
     (let c1 = c\<lparr>cache_deleted := js_remove (cache_deleted c) k\<rparr>;
          c2 = (if \<not> jm_has (cache_map c1) k
                then c1\<lparr>cache_list := cache_list c1 @ [k], currentSize := currentSize c1 + sz\<rparr>
                else c1)
      in c2\<lparr>cache_map := jm_set (cache_map c2) k \<lparr>cd_value = v, cd_time = now, cd_size = sz\<rparr>\<rparr>)"

definition cache_add ::
  "int \<Rightarrow> ('k, 'v) cache \<Rightarrow> 'k \<Rightarrow> 'v option \<Rightarrow> int \<Rightarrow> cache_error + ('k, 'v) cache" where
  "cache_add now c k v sz = cache_trim now (add_entry now c k v sz)"

definition cache_size :: "('k, 'v) cache \<Rightarrow> int" where
  "cache_size c = currentSize c"

section \<open>Representation invariant\<close>

text \<open>The list holds the keys of the map, once each, and only keys of the map are marked.\<close>

definition cache_inv :: "('k, 'v) cache \<Rightarrow> bool" where
  "cache_inv c \<longleftrightarrow> jm_ok (cache_map c) \<and> distinct (cache_list c) \<and>
     set (cache_list c) = fst ` set (cache_map c) \<and>
     distinct (cache_deleted c) \<and> set (cache_deleted c) \<subseteq> set (cache_list c) \<and> 0 < cache_max c"

lemma cache_inv_new: "new_Cache mx ttl = Inr c \<Longrightarrow> cache_inv c"
  by (auto simp: new_Cache_def cache_inv_def split: if_splits)

lemma cache_inv_clear: "cache_inv c \<Longrightarrow> cache_inv (cache_clear c)"
  by (simp add: cache_inv_def cache_clear_def)

lemma cache_inv_key: "cache_inv c \<Longrightarrow> k \<in> set (cache_list c) \<longleftrightarrow> (\<exists>d. jm_get (cache_map c) k = Some d)"
  using jm_has_iff [of "cache_map c" k] by (simp add: cache_inv_def jm_has_def)

lemma cache_inv_head_found:
  "cache_inv c \<Longrightarrow> cache_list c = k # ks \<Longrightarrow> \<exists>d. jm_get (cache_map c) k = Some d"
  using cache_inv_key [of c k] by simp

lemma cache_inv_evict:
  "cache_inv c \<Longrightarrow> cache_list c = k # ks \<Longrightarrow> cache_inv (evict_head c k d)"
  by (auto simp: cache_inv_def evict_head_def)

lemma cache_inv_del: "cache_inv c \<Longrightarrow> cache_inv (snd (cache_del c k))"
  by (auto simp: cache_inv_def cache_del_def image_iff split: option.splits)
    (metis fst_conv map_of_SomeD)

lemma cache_inv_add_entry: "cache_inv c \<Longrightarrow> cache_inv (add_entry now c k v sz)"
  by (auto simp: cache_inv_def add_entry_def Let_def jm_has_iff)

lemma evict_head_sel [simp]:
  "cache_list (evict_head c k d) = tl (cache_list c)"
  "cache_map (evict_head c k d) = jm_delete (cache_map c) k"
  "cache_deleted (evict_head c k d) = js_remove (cache_deleted c) k"
  "currentSize (evict_head c k d) =
     (if k \<in> set (cache_deleted c) then currentSize c else currentSize c - cd_size d)"
  "cache_max (evict_head c k d) = cache_max c"
  "cache_ttl (evict_head c k d) = cache_ttl c"
  by (simp_all add: evict_head_def)

text \<open>Induction over the rounds of \<open>trim\<close> from a cache that satisfies the invariant.\<close>

lemma cache_trim_rule:
  assumes inv: "cache_inv c"
    and base: "\<And>c. cache_inv c \<Longrightarrow> cache_list c = [] \<Longrightarrow> P c (Inr c)"
    and stop: "\<And>c k ks d. cache_inv c \<Longrightarrow> cache_list c = k # ks \<Longrightarrow>
        jm_get (cache_map c) k = Some d \<Longrightarrow> \<not> out_of_date c d time \<Longrightarrow>
        currentSize c \<le> cache_max c \<Longrightarrow> P c (Inr c)"
    and step: "\<And>c k ks d r. cache_inv c \<Longrightarrow> cache_list c = k # ks \<Longrightarrow>
        jm_get (cache_map c) k = Some d \<Longrightarrow>
        out_of_date c d time \<or> currentSize c > cache_max c \<Longrightarrow>
        P (evict_head c k d) r \<Longrightarrow> P c r"
  shows "P c (cache_trim time c)"
  using inv
proof (induction "length (cache_list c)" arbitrary: c rule: less_induct)
  case less
  show ?case
  proof (cases "cache_list c")
    case Nil
    with base [OF less.prems Nil] show ?thesis by (simp add: cache_trim.simps [of time c])
  next
    case (Cons k ks)
    then obtain d where d: "jm_get (cache_map c) k = Some d"
      using cache_inv_head_found [OF less.prems Cons] by auto
    show ?thesis
    proof (cases "out_of_date c d time \<or> currentSize c > cache_max c")
      case True
      have "P (evict_head c k d) (cache_trim time (evict_head c k d))"
        by (rule less.hyps) (simp_all add: Cons cache_inv_evict [OF less.prems Cons])
      then have "P c (cache_trim time (evict_head c k d))"
        by (rule step [OF less.prems Cons d True])
      with Cons d True show ?thesis
        by (simp add: cache_trim.simps [of time c])
    next
      case False
      with stop [OF less.prems Cons d] Cons d show ?thesis
        by (simp add: cache_trim.simps [of time c] not_less)
    qed
  qed
qed

lemma cache_trim_ok:
  assumes "cache_inv c"
  shows "\<exists>c'. cache_trim time c = Inr c' \<and> cache_inv c' \<and> suffix (cache_list c') (cache_list c) \<and>
    (cache_list c' = [] \<or> currentSize c' \<le> cache_max c)"
  using assms
proof (rule cache_trim_rule [where P = "\<lambda>c r. \<exists>c'. r = Inr c' \<and> cache_inv c' \<and>
    suffix (cache_list c') (cache_list c) \<and> (cache_list c' = [] \<or> currentSize c' \<le> cache_max c)"])
  fix c :: "('a, 'b) cache" and k ks d and r :: "cache_error + ('a, 'b) cache"
  assume "cache_list c = k # ks"
    and "\<exists>c'. r = Inr c' \<and> cache_inv c' \<and> suffix (cache_list c') (cache_list (evict_head c k d)) \<and>
      (cache_list c' = [] \<or> currentSize c' \<le> cache_max (evict_head c k d))"
  then show "\<exists>c'. r = Inr c' \<and> cache_inv c' \<and> suffix (cache_list c') (cache_list c) \<and>
      (cache_list c' = [] \<or> currentSize c' \<le> cache_max c)"
    by (auto simp: suffix_Cons)
qed auto

section \<open>What an operation does to a key\<close>

text \<open>The value a live key has: present in the map and not marked.\<close>

definition cache_live :: "('k, 'v) cache \<Rightarrow> 'k \<Rightarrow> 'v option option" where
  "cache_live c k = (if k \<in> set (cache_deleted c) then None
                     else map_option cd_value (jm_get (cache_map c) k))"

lemma cache_live_del: "cache_live (snd (cache_del c k)) = (cache_live c)(k := None)"
  by (auto simp: cache_live_def cache_del_def fun_eq_iff split: option.splits)

lemma cache_live_add_entry: "cache_live (add_entry now c k v sz) = (cache_live c)(k \<mapsto> v)"
  by (auto simp: cache_live_def add_entry_def Let_def fun_eq_iff)

text \<open>\<open>trim\<close> forgets keys, it never changes the value of one.\<close>

lemma cache_live_evict:
  "cache_live (evict_head c k d) = (cache_live c)(k := None)"
  by (auto simp: cache_live_def evict_head_def fun_eq_iff)

lemma cache_live_trim:
  assumes "cache_inv c" and "cache_trim time c = Inr c'"
  shows "cache_live c' \<subseteq>\<^sub>m cache_live c"
proof -
  have "\<forall>c'. cache_trim time c = Inr c' \<longrightarrow> cache_live c' \<subseteq>\<^sub>m cache_live c"
    using assms(1)
  proof (rule cache_trim_rule [where P = "\<lambda>c r. \<forall>c'. r = Inr c' \<longrightarrow> cache_live c' \<subseteq>\<^sub>m cache_live c"])
    fix c :: "('a, 'b) cache" and k d and r :: "cache_error + ('a, 'b) cache"
    assume "\<forall>c'. r = Inr c' \<longrightarrow> cache_live c' \<subseteq>\<^sub>m cache_live (evict_head c k d)"
    moreover have "cache_live (evict_head c k d) \<subseteq>\<^sub>m cache_live c"
      by (auto simp: cache_live_evict map_le_def)
    ultimately show "\<forall>c'. r = Inr c' \<longrightarrow> cache_live c' \<subseteq>\<^sub>m cache_live c"
      using map_le_trans by blast
  qed auto
  with assms(2) show ?thesis by simp
qed

section \<open>Size bookkeeping\<close>

lemma sum_list_update_key:
  "distinct xs \<Longrightarrow> k \<in> set xs \<Longrightarrow>
   (\<Sum>j \<leftarrow> xs. if j = k then v else f j) = (\<Sum>j \<leftarrow> xs. f j) - f k + (v :: int)"
proof (induction xs)
  case (Cons x xs)
  have "k \<notin> set xs \<Longrightarrow> (\<Sum>j \<leftarrow> xs. if j = k then v else f j) = (\<Sum>j \<leftarrow> xs. f j)"
    by (rule arg_cong [of _ _ sum_list]) (auto intro!: map_cong)
  with Cons show ?case by auto
qed simp

text \<open>The size of the live keys, which \<open>currentSize\<close> is meant to be.\<close>

definition key_size :: "('k, 'v) cache \<Rightarrow> 'k \<Rightarrow> int" where
  "key_size c k = (if k \<in> set (cache_deleted c) then 0
                   else case jm_get (cache_map c) k of None \<Rightarrow> 0 | Some d \<Rightarrow> cd_size d)"

definition live_size :: "('k, 'v) cache \<Rightarrow> int" where
  "live_size c = (\<Sum>k \<leftarrow> cache_list c. key_size c k)"

definition size_ok :: "('k, 'v) cache \<Rightarrow> bool" where
  "size_ok c \<longleftrightarrow> currentSize c = live_size c \<and> (\<forall>(k, d) \<in> set (cache_map c). 0 \<le> cd_size d)"

lemma size_ok_new: "new_Cache mx ttl = Inr c \<Longrightarrow> size_ok c"
  by (auto simp: new_Cache_def size_ok_def live_size_def split: if_splits)

lemma key_size_nonneg: "size_ok c \<Longrightarrow> 0 \<le> key_size c k"
  by (auto simp: size_ok_def key_size_def split: option.splits dest!: map_of_SomeD)

lemma live_size_evict:
  assumes "cache_inv c" and "cache_list c = k # ks"
  shows "live_size (evict_head c k d) = live_size c - key_size c k"
proof -
  have "k \<notin> set ks" using assms by (auto simp: cache_inv_def)
  then have "map (key_size (evict_head c k d)) ks = map (key_size c) ks"
    by (auto simp: key_size_def)
  with assms(2) show ?thesis by (simp add: live_size_def cong: map_cong)
qed

lemma size_ok_evict:
  assumes "cache_inv c" and "cache_list c = k # ks" and "jm_get (cache_map c) k = Some d"
    and "size_ok c"
  shows "size_ok (evict_head c k d)"
  using live_size_evict [OF assms(1,2), of d] assms
  by (auto simp: size_ok_def key_size_def set_jm_delete)

lemma size_ok_trim:
  assumes "cache_inv c" and "size_ok c" and "cache_trim time c = Inr c'"
  shows "size_ok c' \<and> cache_max c' = cache_max c \<and> cache_ttl c' = cache_ttl c"
proof -
  let ?P = "\<lambda>c r. size_ok c \<longrightarrow> (\<forall>c'. r = Inr c' \<longrightarrow>
      size_ok c' \<and> cache_max c' = cache_max c \<and> cache_ttl c' = cache_ttl c)"
  have "?P c (cache_trim time c)" using assms(1)
  proof (rule cache_trim_rule [where P = ?P])
    fix c :: "('a, 'b) cache" and k ks d and r :: "cache_error + ('a, 'b) cache"
    assume "cache_inv c" "cache_list c = k # ks" "jm_get (cache_map c) k = Some d"
      and "?P (evict_head c k d) r"
    then show "?P c r"
      using size_ok_evict [of c k ks d] evict_head_sel(5,6) [of c k d] by metis
  qed auto
  with assms show ?thesis by simp
qed

lemma size_ok_del:
  assumes "cache_inv c" and "size_ok c"
  shows "size_ok (snd (cache_del c k))"
proof (cases "jm_get (cache_map c) k = None \<or> k \<in> set (cache_deleted c)")
  case True
  with assms show ?thesis by (auto simp: cache_del_def split: option.splits)
next
  case False
  then obtain d where d: "jm_get (cache_map c) k = Some d" and live: "k \<notin> set (cache_deleted c)"
    by auto
  let ?c' = "snd (cache_del c k)"
  have k: "k \<in> set (cache_list c)"
    using cache_inv_key [OF assms(1)] d by simp
  have "key_size ?c' = (key_size c)(k := 0)"
    using d live by (auto simp: key_size_def cache_del_def fun_eq_iff)
  then have "live_size ?c' = (\<Sum>j \<leftarrow> cache_list c. if j = k then 0 else key_size c j)"
    using d live by (simp add: live_size_def cache_del_def fun_upd_def)
  also have "\<dots> = live_size c - key_size c k"
    using sum_list_update_key [OF _ k, of 0 "key_size c"] assms(1)
    by (simp add: live_size_def cache_inv_def)
  finally show ?thesis
    using d live assms(2) by (simp add: size_ok_def cache_del_def key_size_def)
qed

text \<open>
  The bookkeeping of \<open>add\<close> is right for a key the map does not hold, and for a live key that is
  added again with the size it had.
\<close>

definition add_regular :: "('k, 'v) cache \<Rightarrow> 'k \<Rightarrow> int \<Rightarrow> bool" where
  "add_regular c k sz \<longleftrightarrow>
     (case jm_get (cache_map c) k of
        None \<Rightarrow> True | Some d \<Rightarrow> k \<notin> set (cache_deleted c) \<and> cd_size d = sz)"

lemma add_entry_fresh_size:
  assumes "cache_inv c" and "jm_get (cache_map c) k = None"
  shows "live_size (add_entry now c k v sz) = live_size c + sz"
proof -
  let ?c' = "add_entry now c k v sz"
  from assms have k: "k \<notin> set (cache_list c)" and list: "cache_list ?c' = cache_list c @ [k]"
    by (auto simp: cache_inv_def add_entry_def Let_def jm_has_def map_of_eq_None_iff)
  have "key_size ?c' j = key_size c j" if "j \<in> set (cache_list c)" for j
    using that k by (auto simp: key_size_def add_entry_def Let_def)
  moreover have "key_size ?c' k = sz"
    by (simp add: key_size_def add_entry_def Let_def)
  ultimately show ?thesis by (simp add: live_size_def list cong: map_cong)
qed

lemma size_ok_add_entry:
  assumes "cache_inv c" and "size_ok c" and "0 \<le> sz" and "add_regular c k sz"
  shows "size_ok (add_entry now c k v sz)"
proof (cases "jm_get (cache_map c) k")
  case None
  then have "currentSize (add_entry now c k v sz) = currentSize c + sz"
    by (simp add: add_entry_def Let_def jm_has_def)
  moreover have "set (cache_map (add_entry now c k v sz)) \<subseteq>
      insert (k, \<lparr>cd_value = v, cd_time = now, cd_size = sz\<rparr>) (set (cache_map c))"
    using None by (simp add: add_entry_def Let_def jm_set_fresh jm_has_def)
  ultimately show ?thesis
    using add_entry_fresh_size [OF assms(1) None, of now v sz] assms(2,3)
    by (fastforce simp: size_ok_def)
next
  case (Some d)
  with assms(4) have live: "k \<notin> set (cache_deleted c)" "cd_size d = sz"
    by (auto simp: add_regular_def)
  with Some have "key_size (add_entry now c k v sz) = key_size c"
    by (auto simp: key_size_def add_entry_def Let_def jm_has_def fun_eq_iff)
  moreover have "cache_list (add_entry now c k v sz) = cache_list c"
    and "currentSize (add_entry now c k v sz) = currentSize c"
    using Some by (simp_all add: add_entry_def Let_def jm_has_def)
  moreover have "0 \<le> cd_size e" if "(j, e) \<in> set (cache_map (add_entry now c k v sz))" for j e
  proof -
    have "jm_get (cache_map (add_entry now c k v sz)) j = Some e"
      using that cache_inv_add_entry [OF assms(1)] by (simp add: cache_inv_def jm_get_in_set)
    then show ?thesis
      using assms(2,3) by (auto simp: add_entry_def Let_def jm_has_def size_ok_def
        split: if_splits dest!: map_of_SomeD)
  qed
  ultimately show ?thesis using assms(2) by (auto simp: size_ok_def live_size_def)
qed

lemma cache_trim_keeps:
  assumes "cache_inv c" and "size_ok c" and "jm_get (cache_map c) k = Some d"
    and "k \<notin> set (cache_deleted c)" and "\<not> out_of_date c d time"
    and "currentSize c \<le> cache_max c \<or> last (cache_list c) = k \<and> cd_size d \<le> cache_max c"
    and "cache_trim time c = Inr c'"
  shows "jm_get (cache_map c') k = Some d \<and> k \<notin> set (cache_deleted c')"
proof -
  let ?Q = "\<lambda>c. size_ok c \<and> jm_get (cache_map c) k = Some d \<and> k \<notin> set (cache_deleted c) \<and>
      \<not> out_of_date c d time \<and>
      (currentSize c \<le> cache_max c \<or> last (cache_list c) = k \<and> cd_size d \<le> cache_max c)"
  let ?P = "\<lambda>c r. ?Q c \<longrightarrow> (\<forall>c'. r = Inr c' \<longrightarrow>
      jm_get (cache_map c') k = Some d \<and> k \<notin> set (cache_deleted c'))"
  have "?P c (cache_trim time c)" using assms(1)
  proof (rule cache_trim_rule [where P = ?P])
    fix c :: "('a, 'b) cache" and h ks e and r :: "cache_error + ('a, 'b) cache"
    assume inv: "cache_inv c" and list: "cache_list c = h # ks" and e: "jm_get (cache_map c) h = Some e"
      and evict: "out_of_date c e time \<or> currentSize c > cache_max c"
      and IH: "?P (evict_head c h e) r"
    show "?P c r"
    proof
      assume Q: "?Q c"
      have "h \<noteq> k"
      proof
        assume "h = k"
        with Q e evict have "last (h # ks) = h" "cd_size d \<le> cache_max c" "cache_max c < currentSize c"
          by (auto simp: list)
        moreover from this(1) inv have "ks = []"
          by (auto simp: cache_inv_def list split: if_splits)
        ultimately show False
          using Q \<open>h = k\<close> by (simp add: size_ok_def live_size_def key_size_def list)
      qed
      moreover have "k \<in> set (cache_list c)"
        using cache_inv_key [OF inv] Q by simp
      ultimately have "?Q (evict_head c h e)"
        using Q size_ok_evict [OF inv list e] key_size_nonneg [of c h] e
        by (auto simp: out_of_date_def key_size_def list)
      with IH show "\<forall>c'. r = Inr c' \<longrightarrow> jm_get (cache_map c') k = Some d \<and> k \<notin> set (cache_deleted c')"
        by blast
    qed
  qed auto
  with assms show ?thesis by blast
qed

section \<open>Properties\<close>

text \<open>Total correctness of \<open>add\<close>: on a cache whose size bookkeeping is right, adding a key
  that is new, or a live key with its old size, returns (the loop of \<open>trim\<close> ends and the
  \<open>Cache value not found\<close> branch is not reached), keeps both invariants, and the size of the
  live keys is at most \<open>max\<close> afterwards.\<close>

theorem cache_add_bounded:
  assumes "cache_inv c" and "size_ok c" and "0 \<le> sz" and "add_regular c k sz"
  shows "\<exists>c'. cache_add now c k v sz = Inr c' \<and> cache_inv c' \<and> size_ok c' \<and> live_size c' \<le> cache_max c"
proof -
  let ?e = "add_entry now c k v sz"
  have inv: "cache_inv ?e" and sok: "size_ok ?e"
    using assms by (simp_all add: cache_inv_add_entry size_ok_add_entry)
  have mx: "cache_max ?e = cache_max c" by (simp add: add_entry_def Let_def)
  obtain c' where c': "cache_trim now ?e = Inr c'" "cache_inv c'"
      "cache_list c' = [] \<or> currentSize c' \<le> cache_max c"
    using cache_trim_ok [OF inv, of now] mx by auto
  moreover have "size_ok c'" using size_ok_trim [OF inv sok c'(1)] by simp
  moreover have "live_size c' \<le> cache_max c"
    using c'(3) \<open>size_ok c'\<close> assms(1) by (auto simp: size_ok_def live_size_def cache_inv_def)
  ultimately show ?thesis by (auto simp: cache_add_def)
qed

definition cache_ex :: "(nat, nat) cache" where
  "cache_ex = \<lparr>cache_map = [(1, \<lparr>cd_value = Some 10, cd_time = 0, cd_size = 1\<rparr>)], cache_deleted = [],
     cache_list = [1], currentSize = 1, cache_max = 1, cache_ttl = Some 5\<rparr>"

lemma cache_ex_ok: "cache_inv cache_ex" "size_ok cache_ex" "add_regular cache_ex 2 1"
  by (auto simp: cache_ex_def cache_inv_def size_ok_def live_size_def key_size_def add_regular_def jm_ok_def)

theorem cache_add_bounded_witness:
  "\<exists>c'. cache_add 3 cache_ex 2 (Some 20) 1 = Inr c' \<and> cache_inv c' \<and> size_ok c' \<and>
     live_size c' \<le> cache_max cache_ex"
  by (rule cache_add_bounded [OF cache_ex_ok(1,2) _ cache_ex_ok(3)]) simp

text \<open>Lookup after insert: in a cache whose bookkeeping is right and that is within its
  capacity, \<open>get\<close> at the time of the \<open>add\<close> returns the value just added, whatever was evicted to
  make room for it.\<close>

theorem cache_get_add:
  assumes "cache_inv c" and "size_ok c" and "currentSize c \<le> cache_max c"
    and "0 \<le> sz" and "sz \<le> cache_max c" and "add_regular c k sz"
    and "\<And>ttl. cache_ttl c = Some ttl \<Longrightarrow> 0 \<le> ttl"
  shows "\<exists>c1 c2. cache_add now c k v sz = Inr c1 \<and> cache_get now c1 k = Inr (Some v, c2)"
proof -
  let ?e = "add_entry now c k v sz"
  let ?d = "\<lparr>cd_value = v, cd_time = now, cd_size = sz\<rparr>"
  have inv: "cache_inv ?e" and sok: "size_ok ?e"
    using assms by (simp_all add: cache_inv_add_entry size_ok_add_entry)
  have d: "jm_get (cache_map ?e) k = Some ?d" "k \<notin> set (cache_deleted ?e)"
    and sel: "cache_max ?e = cache_max c" "cache_ttl ?e = cache_ttl c"
    by (simp_all add: add_entry_def Let_def)
  have fresh: "\<not> out_of_date ?e ?d now"
    using assms(7) by (force simp: out_of_date_def sel split: option.splits)
  have room: "currentSize ?e \<le> cache_max ?e \<or> last (cache_list ?e) = k \<and> cd_size ?d \<le> cache_max ?e"
    using assms(3,5) by (auto simp: add_entry_def Let_def)
  obtain c1 where c1: "cache_trim now ?e = Inr c1" "cache_inv c1"
      "cache_list c1 = [] \<or> currentSize c1 \<le> cache_max c"
    using cache_trim_ok [OF inv, of now] sel by auto
  have k1: "jm_get (cache_map c1) k = Some ?d" "k \<notin> set (cache_deleted c1)"
    using cache_trim_keeps [OF inv sok d fresh room c1(1)] by auto
  have s1: "size_ok c1" "cache_max c1 = cache_max c" "cache_ttl c1 = cache_ttl c"
    using size_ok_trim [OF inv sok c1(1)] sel by auto
  have "cache_list c1 \<noteq> []"
    using k1(1) cache_inv_key [OF c1(2), of k] by auto
  then have room1: "currentSize c1 \<le> cache_max c1 \<or> last (cache_list c1) = k \<and> cd_size ?d \<le> cache_max c1"
    using c1(3) s1 by simp
  have fresh1: "\<not> out_of_date c1 ?d now"
    using fresh s1(3) sel(2) by (simp add: out_of_date_def)
  obtain c2 where c2: "cache_trim now c1 = Inr c2"
    using cache_trim_ok [OF c1(2), of now] by auto
  show ?thesis
    using c1(1) c2 cache_trim_keeps [OF c1(2) s1(1) k1 fresh1 room1 c2]
    by (auto simp: cache_add_def cache_get_def)
qed

theorem cache_get_add_witness:
  "\<exists>c1 c2. cache_add 3 cache_ex 2 (Some 20) 1 = Inr c1 \<and> cache_get 3 c1 2 = Inr (Some (Some 20), c2)"
  by (rule cache_get_add [OF cache_ex_ok(1,2) _ _ _ cache_ex_ok(3)]) (simp_all add: cache_ex_def)

text \<open>A key that is deleted and added again is not counted: \<open>add\<close> finds it in the map, where
  the lazy deletion left it, and does not add its size back. After \<open>add a; del a; add a\<close> the key
  is live and \<open>size\<close> is 0, and a cache with \<open>max = 1\<close> then holds two live keys.\<close>

theorem cache_readd_not_counted:
  "\<exists>c0 c1 c2 c3 c4. new_Cache 1 None = Inr c0 \<and>
     cache_add 0 c0 (1::nat) (Some (10::nat)) 1 = Inr c1 \<and> c2 = snd (cache_del c1 1) \<and>
     cache_add 0 c2 1 (Some 10) 1 = Inr c3 \<and> cache_size c3 = 0 \<and> cache_live c3 1 = Some (Some 10) \<and>
     cache_add 0 c3 2 (Some 20) 1 = Inr c4 \<and>
     cache_live c4 1 = Some (Some 10) \<and> cache_live c4 2 = Some (Some 20) \<and> live_size c4 = 2"
  by (simp add: new_Cache_def cache_add_def add_entry_def cache_trim.simps cache_del_def js_add_def
    js_remove_def jm_has_def out_of_date_def cache_size_def cache_live_def live_size_def key_size_def Let_def)

end
