(* ===== verification/Clock.thy ===== *)
theory Clock
  imports Prelude "HOL-Library.Char_ord"
begin

text \<open>
  The hybrid logical clock of \<open>packages/log/src/clock.ts\<close>: \<open>Timestamp\<close>, \<open>HLC\<close> and
  \<open>LamportClock\<close>. BigInts are \<open>int\<close>; the result of \<open>this.wallTime()\<close> is an argument of the
  operation that reads it. The three error classes are values, and the messages they format
  are left out.

  Shown here: \<open>Timestamp.compare\<close> is a linear order, \<open>update\<close> returns a timestamp above both
  its argument and everything the clock issued before, its components stay within u64 and u32,
  which condition raises which error, and that the readings of one clock increase strictly.
\<close>

section \<open>Timestamps\<close>

datatype timestamp = Timestamp (wallTime: int) (logical: int)

definition Timestamp_compare :: "timestamp \<Rightarrow> timestamp \<Rightarrow> int" where
  "Timestamp_compare a b =
     (if wallTime a > wallTime b then 1
      else if wallTime a < wallTime b then -1
      else if logical a > logical b then 1
      else if logical a < logical b then -1
      else 0)"

definition Timestamp_bigger :: "timestamp \<Rightarrow> timestamp \<Rightarrow> timestamp" where
  "Timestamp_bigger a b = (if Timestamp_compare a b = -1 then b else a)"

definition Timestamp_smaller :: "timestamp \<Rightarrow> timestamp \<Rightarrow> timestamp" where
  "Timestamp_smaller a b = (if Timestamp_compare a b = 1 then b else a)"

text \<open>The order \<open>compare\<close> decides, as the library's linear order.\<close>

instantiation timestamp :: linorder
begin

definition less_timestamp :: "timestamp \<Rightarrow> timestamp \<Rightarrow> bool" where
  "less_timestamp a b = (Timestamp_compare a b < 0)"

definition less_eq_timestamp :: "timestamp \<Rightarrow> timestamp \<Rightarrow> bool" where
  "less_eq_timestamp a b = (Timestamp_compare a b \<le> 0)"

instance
  by standard (auto simp: less_timestamp_def less_eq_timestamp_def Timestamp_compare_def
    intro: timestamp.expand split: if_splits)

end

lemma timestamp_less_iff:
  "a < b \<longleftrightarrow> wallTime a < wallTime b \<or> wallTime a = wallTime b \<and> logical a < logical b"
  by (auto simp: less_timestamp_def Timestamp_compare_def)

lemma Timestamp_compare_cmp: "Timestamp_compare a b = cmp_on id a b"
  by (auto simp: cmp_on_def timestamp_less_iff Timestamp_compare_def)

lemma Timestamp_compare_sign:
  "Timestamp_compare a b < 0 \<longleftrightarrow> a < b" "Timestamp_compare a b = 0 \<longleftrightarrow> a = b"
  "Timestamp_compare a b > 0 \<longleftrightarrow> b < a" "0 \<le> Timestamp_compare a b \<longleftrightarrow> b \<le> a"
  by (auto simp: Timestamp_compare_cmp cmp_on_def)

lemma Timestamp_bigger_max: "Timestamp_bigger a b = max b a"
  by (auto simp: Timestamp_bigger_def Timestamp_compare_cmp cmp_on_def max_def)

lemma Timestamp_smaller_min: "Timestamp_smaller a b = min b a"
  by (auto simp: Timestamp_smaller_def Timestamp_compare_cmp cmp_on_def min_def)

interpretation ts_cmp: comparator Timestamp_compare
  by unfold_locales (auto simp: Timestamp_compare_cmp cmp_on_def split: if_splits)

section \<open>The hybrid logical clock\<close>

definition UINT64_MAX :: int where "UINT64_MAX = 18446744073709551615"
definition UINT32_MAX :: int where "UINT32_MAX = 4294967295"

record hlc =
  maxOffset :: int
  wallTimeUpperBound :: int
  toleratedForwardClockJump :: int
  hlc_last :: timestamp

datatype clock_error =
    ForwardJumpError int int
  | ClockOffsetError int int
  | WallTimeOverflowError int int

definition new_HLC :: "int \<Rightarrow> int \<Rightarrow> int \<Rightarrow> int \<Rightarrow> timestamp option \<Rightarrow> hlc" where
  "new_HLC wt mOff upper tol last0 =
     (let last1 = Timestamp wt 0
      in \<lparr>maxOffset = mOff, wallTimeUpperBound = upper, toleratedForwardClockJump = tol,
          hlc_last = (case last0 of None \<Rightarrow> last1 | Some l \<Rightarrow> Timestamp_bigger l last1)\<rparr>)"

definition validateOffset :: "hlc \<Rightarrow> int \<Rightarrow> clock_error + unit" where
  "validateOffset h offset =
     (if toleratedForwardClockJump h > 0 \<and> - offset > toleratedForwardClockJump h
      then Inl (ForwardJumpError (- offset) (toleratedForwardClockJump h))
      else if maxOffset h > 0 \<and> offset > maxOffset h
      then Inl (ClockOffsetError offset (maxOffset h))
      else Inr ())"

definition maxWallTime :: "hlc \<Rightarrow> int" where
  "maxWallTime h = (if wallTimeUpperBound h > 0 then wallTimeUpperBound h else UINT64_MAX)"

definition next_timestamp :: "timestamp \<Rightarrow> int \<Rightarrow> timestamp" where
  "next_timestamp lst wt =
     (if wallTime lst - wt < 0 then Timestamp wt 0
      else if logical lst + 1 > UINT32_MAX then Timestamp (wallTime lst + 1) 0
      else Timestamp (wallTime lst) (logical lst + 1))"

definition HLC_update :: "hlc \<Rightarrow> int \<Rightarrow> timestamp \<Rightarrow> clock_error + timestamp \<times> hlc" where
  "HLC_update h wt other =
     (let lst = Timestamp_bigger other (hlc_last h)
      in bind_sum (validateOffset h (wallTime lst - wt)) (\<lambda>_.
           let t = next_timestamp lst wt
           in if wallTime t > maxWallTime h
              then Inl (WallTimeOverflowError (wallTime t) (maxWallTime h))
              else Inr (t, h\<lparr>hlc_last := t\<rparr>)))"

definition HLC_now :: "hlc \<Rightarrow> int \<Rightarrow> clock_error + timestamp \<times> hlc" where
  "HLC_now h wt = HLC_update h wt (hlc_last h)"

text \<open>A run of the clock: each event is a local reading or the receipt of a timestamp, with the
  wall time read then. An event that throws leaves the clock as it was.\<close>

datatype hlc_event = Now int | Receive int timestamp

fun hlc_step :: "hlc \<Rightarrow> hlc_event \<Rightarrow> clock_error + timestamp \<times> hlc" where
  "hlc_step h (Now wt) = HLC_now h wt"
| "hlc_step h (Receive wt t) = HLC_update h wt t"

fun hlc_run :: "hlc \<Rightarrow> hlc_event list \<Rightarrow> timestamp list \<times> hlc" where
  "hlc_run h [] = ([], h)"
| "hlc_run h (e # es) =
     (case hlc_step h e of
        Inl _ \<Rightarrow> hlc_run h es
      | Inr (t, h') \<Rightarrow> (case hlc_run h' es of (ts, h'') \<Rightarrow> (t # ts, h'')))"

section \<open>Lamport clocks\<close>

record lamportClock =
  lc_id :: "nat list"
  lc_timestamp :: timestamp

text \<open>\<open>compare\<close> and \<open>equals\<close> of the package uint8arrays are the arguments \<open>cmpBytes\<close> and
  \<open>eqBytes\<close>.\<close>

definition LamportClock_equals ::
  "(nat list \<Rightarrow> nat list \<Rightarrow> bool) \<Rightarrow> lamportClock \<Rightarrow> lamportClock \<Rightarrow> bool" where
  "LamportClock_equals eqBytes a b \<longleftrightarrow>
     eqBytes (lc_id a) (lc_id b) \<and> Timestamp_compare (lc_timestamp a) (lc_timestamp b) = 0"

definition LamportClock_compare ::
  "(nat list \<Rightarrow> nat list \<Rightarrow> int) \<Rightarrow> lamportClock \<Rightarrow> lamportClock \<Rightarrow> int" where
  "LamportClock_compare cmpBytes a b =
     (let t = Timestamp_compare (lc_timestamp a) (lc_timestamp b)
      in if t \<noteq> 0 then t else cmpBytes (lc_id a) (lc_id b))"

text \<open>\<open>advance\<close> builds a fresh clock, feeds it the timestamp and reads it: three readings of the
  wall time.\<close>

definition LamportClock_advance :: "int \<Rightarrow> int \<Rightarrow> int \<Rightarrow> lamportClock \<Rightarrow> clock_error + lamportClock" where
  "LamportClock_advance w0 w1 w2 c =
     bind_sum (HLC_update (new_HLC w0 0 0 0 None) w1 (lc_timestamp c)) (\<lambda>(_, h).
     bind_sum (HLC_now h w2) (\<lambda>(t, _). Inr \<lparr>lc_id = lc_id c, lc_timestamp = t\<rparr>))"

section \<open>Lemmas\<close>

lemma next_timestamp_greater: "lst < next_timestamp lst wt"
  by (auto simp: next_timestamp_def timestamp_less_iff)

lemma HLC_update_Inr:
  "HLC_update h wt other = Inr (t, h') \<Longrightarrow>
     t = next_timestamp (max (hlc_last h) other) wt \<and> h' = h\<lparr>hlc_last := t\<rparr> \<and> wallTime t \<le> maxWallTime h"
  by (auto simp: HLC_update_def Let_def Timestamp_bigger_max split: if_splits)

lemma HLC_update_greater:
  "HLC_update h wt other = Inr (t, h') \<Longrightarrow> other < t \<and> hlc_last h < t \<and> hlc_last h' = t"
  using next_timestamp_greater [of "max (hlc_last h) other" wt] by (auto dest!: HLC_update_Inr)

lemma hlc_step_greater: "hlc_step h e = Inr (t, h') \<Longrightarrow> hlc_last h < t \<and> hlc_last h' = t"
  by (cases e) (auto simp: HLC_now_def dest: HLC_update_greater)

lemma hlc_run_greater: "hlc_run h es = (ts, h') \<Longrightarrow> t \<in> set ts \<Longrightarrow> hlc_last h < t"
proof (induction es arbitrary: h ts h')
  case (Cons e es)
  then show ?case
    by (fastforce split: sum.splits prod.splits dest: hlc_step_greater)
qed auto

lemma LamportClock_comparator:
  assumes "comparator cmpBytes"
  shows "comparator (LamportClock_compare cmpBytes)"
proof
  fix x y z
  show "LamportClock_compare cmpBytes x y < 0 \<longleftrightarrow> 0 < LamportClock_compare cmpBytes y x"
    using comparator.cmp_anti [OF assms]
    by (auto simp: LamportClock_compare_def Let_def Timestamp_compare_cmp cmp_on_def)
  assume "LamportClock_compare cmpBytes x y \<le> 0" "LamportClock_compare cmpBytes y z \<le> 0"
  then show "LamportClock_compare cmpBytes x z \<le> 0"
    using comparator.cmp_trans [OF assms, of "lc_id x" "lc_id y" "lc_id z"]
    by (auto simp: LamportClock_compare_def Let_def Timestamp_compare_cmp cmp_on_def split: if_splits)
qed

section \<open>Properties\<close>

text \<open>A successful \<open>update\<close> returns a timestamp that is after the received one and after
  every timestamp the clock holds, at least the wall time read, and whose components fit the
  u64 and u32 fields it is serialised to, when the logical components it starts from do.\<close>

theorem HLC_update_sound:
  assumes "HLC_update h wt other = Inr (t, h')"
    and "0 \<le> logical other" "logical other \<le> UINT32_MAX"
    and "0 \<le> logical (hlc_last h)" "logical (hlc_last h) \<le> UINT32_MAX"
    and "wallTimeUpperBound h \<le> UINT64_MAX"
  shows "other < t \<and> hlc_last h < t \<and> hlc_last h' = t \<and> wt \<le> wallTime t \<and>
    wallTime t \<le> UINT64_MAX \<and> 0 \<le> logical t \<and> logical t \<le> UINT32_MAX"
proof -
  let ?m = "max (hlc_last h) other"
  have t: "t = next_timestamp ?m wt" and le: "wallTime t \<le> maxWallTime h"
    using HLC_update_Inr [OF assms(1)] by auto
  have "0 \<le> logical ?m" "logical ?m \<le> UINT32_MAX"
    using assms by (auto simp: max_def)
  then have "0 \<le> logical t" "logical t \<le> UINT32_MAX" "wt \<le> wallTime t"
    by (auto simp: t next_timestamp_def UINT32_MAX_def split: if_splits)
  moreover have "maxWallTime h \<le> UINT64_MAX"
    using assms(6) by (simp add: maxWallTime_def)
  ultimately show ?thesis
    using HLC_update_greater [OF assms(1)] le by auto
qed

theorem HLC_update_sound_witness:
  "let h = new_HLC 7 0 0 0 None; t = Timestamp 9 4294967295 in
     HLC_update h 8 t = Inr (Timestamp 10 0, h\<lparr>hlc_last := Timestamp 10 0\<rparr>) \<and> t < Timestamp 10 0"
proof -
  let ?h = "new_HLC 7 0 0 0 None" and ?t = "Timestamp 9 4294967295" and ?r = "Timestamp 10 0"
  have u: "HLC_update ?h 8 ?t = Inr (?r, ?h\<lparr>hlc_last := ?r\<rparr>)"
    by code_simp
  show ?thesis
    using HLC_update_sound [OF u] u by (simp add: new_HLC_def UINT32_MAX_def UINT64_MAX_def)
qed

text \<open>(C31) Whatever the wall clock reads (it may stand still or go backwards), and whatever
  timestamps arrive in between, the timestamps one clock issues increase strictly.\<close>

theorem hlc_run_strictly_increasing:
  "sorted_wrt (<) (hlc_last h # fst (hlc_run h es))"
proof (induction es arbitrary: h)
  case (Cons e es)
  show ?case
  proof (cases "hlc_step h e")
    case (Inl err)
    with Cons [of h] show ?thesis by simp
  next
    case (Inr r)
    then obtain t h' where r: "hlc_step h e = Inr (t, h')" by (cases r) auto
    have "hlc_last h < t" "hlc_last h' = t" using hlc_step_greater [OF r] by auto
    with Cons [of h'] r show ?thesis
      by (fastforce split: prod.splits)
  qed
qed simp

text \<open>The errors of \<open>update\<close>, exactly: a forward jump of the wall clock beyond the tolerance,
  a received time too far ahead, or a wall time past its bound, checked in this order.\<close>

theorem HLC_update_errors:
  "HLC_update h wt other = Inl e \<longleftrightarrow>
     (let lst = max (hlc_last h) other; offset = wallTime lst - wt; t = next_timestamp lst wt in
        if 0 < toleratedForwardClockJump h \<and> toleratedForwardClockJump h < - offset
        then e = ForwardJumpError (- offset) (toleratedForwardClockJump h)
        else if 0 < maxOffset h \<and> maxOffset h < offset
        then e = ClockOffsetError offset (maxOffset h)
        else maxWallTime h < wallTime t \<and> e = WallTimeOverflowError (wallTime t) (maxWallTime h))"
  by (auto simp: HLC_update_def validateOffset_def Let_def Timestamp_bigger_max split: if_splits)

text \<open>\<open>LamportClock.advance\<close> keeps the identity and returns a later clock: it compares above
  the clock it was called on, for every comparison of identities.\<close>

theorem LamportClock_advance_later:
  assumes "LamportClock_advance w0 w1 w2 c = Inr c'"
  shows "lc_id c' = lc_id c \<and> lc_timestamp c < lc_timestamp c' \<and>
    LamportClock_compare cmpBytes c c' < 0 \<and> \<not> LamportClock_equals eqBytes c c'"
proof -
  obtain t1 h t2 h2 where u: "HLC_update (new_HLC w0 0 0 0 None) w1 (lc_timestamp c) = Inr (t1, h)"
    and n: "HLC_now h w2 = Inr (t2, h2)" and c': "c' = \<lparr>lc_id = lc_id c, lc_timestamp = t2\<rparr>"
    using assms by (auto simp: LamportClock_advance_def split: prod.splits)
  have "lc_timestamp c < t1" "hlc_last h = t1" using HLC_update_greater [OF u] by auto
  moreover have "hlc_last h < t2" using n HLC_update_greater by (auto simp: HLC_now_def)
  ultimately have "lc_timestamp c < t2" by simp
  then show ?thesis
    using c' Timestamp_compare_sign [of "lc_timestamp c" t2]
    by (auto simp: LamportClock_compare_def LamportClock_equals_def Let_def)
qed

theorem LamportClock_advance_later_witness:
  "\<exists>c'. LamportClock_advance 3 2 1 \<lparr>lc_id = [1], lc_timestamp = Timestamp 5 2\<rparr> = Inr c' \<and>
     Timestamp 5 2 < lc_timestamp c'"
proof -
  let ?c = "\<lparr>lc_id = [1], lc_timestamp = Timestamp 5 2\<rparr>"
  let ?c' = "\<lparr>lc_id = [1], lc_timestamp = Timestamp 5 4\<rparr>"
  have a: "LamportClock_advance 3 2 1 ?c = Inr ?c'"
    by code_simp
  show ?thesis
    using a LamportClock_advance_later [OF a] by (intro exI [of _ ?c']) simp
qed

end
