(* ===== verification/Segments.thy ===== *)
theory Segments
  imports Prelude
begin

text \<open>
  Replication ranges of \<open>packages/programs/data/shared-log/src/ranges.ts\<close> and the integers of
  \<open>integers.ts\<close>: how an offset and a width on the ring become one or two segments, membership,
  overlap, segment arithmetic, merging and ring distance.

  Numbers and BigInts are \<open>int\<close>. The coordinates of a range are the integers its u32 or u64
  fields hold, on which \<open>Math.round\<close>, \<open>Number\<close> and \<open>BigInt\<close> are the identity; the class of a
  range object (u32 or u64) is its field \<open>r_res\<close>.
\<close>

section \<open>Integers\<close>

datatype resolution = U32 | U64

definition MAX_U32 :: int where "MAX_U32 = 4294967295"
definition MAX_U64 :: int where "MAX_U64 = 18446744073709551615"
definition HALF_MAX_U32 :: int where "HALF_MAX_U32 = 2147483647"
definition HALF_MAX_U64 :: int where "HALF_MAX_U64 = 9223372036854775807"

fun maxValue :: "resolution \<Rightarrow> int" where
  "maxValue U32 = MAX_U32"
| "maxValue U64 = MAX_U64"

lemma maxValue_pos [simp]: "0 < maxValue res"
  by (cases res) (simp_all add: MAX_U32_def MAX_U64_def)

text \<open>The remainder operator \<open>%\<close> has the sign of the dividend.\<close>

definition js_mod :: "int \<Rightarrow> int \<Rightarrow> int" where
  "js_mod a b = sgn a * (\<bar>a\<bar> mod \<bar>b\<bar>)"

lemma js_mod_nonneg [simp]: "0 \<le> a \<Longrightarrow> 0 < b \<Longrightarrow> js_mod a b = a mod b"
  by (auto simp: js_mod_def sgn_if)

definition getEvenlySpacedU64 :: "int \<Rightarrow> nat \<Rightarrow> int list" where
  "getEvenlySpacedU64 start n =
     map (\<lambda>i. js_mod (start + (int i * MAX_U64) div int n) MAX_U64) [0..<n]"

definition divRoundU64 :: "int \<Rightarrow> int \<Rightarrow> int" where
  "divRoundU64 a b = sgn a * sgn b * (\<bar>a\<bar> div \<bar>b\<bar>)"

section \<open>Ranges\<close>

datatype ReplicationIntent = NonStrict | Strict

type_synonym segment = "int \<times> int"

record range =
  r_res :: resolution
  r_id :: "nat list"
  r_hash :: string
  r_timestamp :: int
  start1 :: int
  end1 :: int
  start2 :: int
  end2 :: int
  width :: int
  mode :: ReplicationIntent

record rangeMessage =
  m_id :: "nat list"
  m_timestamp :: int
  m_offset :: int
  m_factor :: int
  m_mode :: ReplicationIntent

datatype range_error =
    Segment_coordinate_out_of_bounds
  | No_segments_to_merge
  | Segments_have_different_publicKeyHash
  | Merged_index_out_of_range

definition js_min :: "int \<Rightarrow> int \<Rightarrow> int" where
  "js_min a b = (if a < b then a else b)"

definition getSegmentsFromOffsetAndRange :: "int \<Rightarrow> int \<Rightarrow> int \<Rightarrow> int \<Rightarrow> segment \<times> segment" where
  "getSegmentsFromOffsetAndRange offset factor zero mx =
     (let start1 = offset;
          end1Unscaled = offset + factor;
          end1 = js_min end1Unscaled mx
      in ((start1, end1),
          if end1Unscaled > mx
          then (zero, js_mod (if factor \<noteq> mx then offset + factor else offset) mx)
          else (start1, end1)))"

text \<open>\<open>false\<close> for the leaders is \<open>None\<close>; a leader is its hash and whether it intersects.\<close>

definition shouldAssigneToRangeBoundary :: "(string, bool) jsmap option \<Rightarrow> nat \<Rightarrow> bool" where
  "shouldAssigneToRangeBoundary leaders minReplicas =
     (case leaders of
        None \<Rightarrow> True
      | Some ls \<Rightarrow> length ls < minReplicas \<or> list_ex (\<lambda>(_, intersecting). \<not> intersecting) ls)"

text \<open>The coordinates \<open>transform\<close> computes: \<open>(start1, end1, start2, end2, width)\<close>.\<close>

definition transformU32 :: "int \<Rightarrow> int \<Rightarrow> range_error + (int \<times> int \<times> int \<times> int \<times> int)" where
  "transformU32 offset wid =
     (let (s1, e1) = fst (getSegmentsFromOffsetAndRange offset wid 0 MAX_U32);
          (s2, e2) = snd (getSegmentsFromOffsetAndRange offset wid 0 MAX_U32);
          w = e1 - s1 + (if e2 < e1 then e2 - s2 else 0)
      in if s1 > MAX_U32 \<or> e1 > MAX_U32 \<or> s2 > MAX_U32 \<or> e2 > MAX_U32 \<or> w > MAX_U32 \<or> w < 0
         then Inl Segment_coordinate_out_of_bounds
         else Inr (s1, e1, s2, e2, w))"

definition transformU64 :: "int \<Rightarrow> int \<Rightarrow> range_error + (int \<times> int \<times> int \<times> int \<times> int)" where
  "transformU64 offset wid =
     (let (s1, e1) = fst (getSegmentsFromOffsetAndRange offset wid 0 MAX_U64);
          (s2, e2) = snd (getSegmentsFromOffsetAndRange offset wid 0 MAX_U64);
          w = e1 - s1 + (if e2 < e1 then e2 - s2 else 0)
      in if s1 > MAX_U64 \<or> e1 > MAX_U64 \<or> s2 > MAX_U64 \<or> e2 > MAX_U64 \<or> w > MAX_U64 \<or> w < 0
         then Inl Segment_coordinate_out_of_bounds
         else Inr (s1, e1, s2, e2, w))"

fun transform :: "resolution \<Rightarrow> int \<Rightarrow> int \<Rightarrow> range_error + (int \<times> int \<times> int \<times> int \<times> int)" where
  "transform U32 = transformU32"
| "transform U64 = transformU64"

definition make_range ::
  "resolution \<Rightarrow> nat list \<Rightarrow> string \<Rightarrow> int \<Rightarrow> int \<Rightarrow> ReplicationIntent option \<Rightarrow> int option \<Rightarrow> range_error + range" where
  "make_range res rid publicKeyHash offset wid md ts =
     bind_sum (transform res offset wid) (\<lambda>(s1, e1, s2, e2, w).
       Inr \<lparr>r_res = res, r_id = rid, r_hash = publicKeyHash,
            r_timestamp = (case ts of None \<Rightarrow> 0 | Some t \<Rightarrow> t),
            start1 = s1, end1 = e1, start2 = s2, end2 = e2, width = w,
            mode = (case md of None \<Rightarrow> NonStrict | Some m \<Rightarrow> m)\<rparr>)"

definition new_RangeU32 ::
  "nat list \<Rightarrow> string \<Rightarrow> int \<Rightarrow> int \<Rightarrow> ReplicationIntent option \<Rightarrow> int option \<Rightarrow> range_error + range" where
  "new_RangeU32 = make_range U32"

definition new_RangeU64 ::
  "nat list \<Rightarrow> string \<Rightarrow> int \<Rightarrow> int \<Rightarrow> ReplicationIntent option \<Rightarrow> int option \<Rightarrow> range_error + range" where
  "new_RangeU64 = make_range U64"

definition contains :: "range \<Rightarrow> int \<Rightarrow> bool" where
  "contains r point \<longleftrightarrow>
     (point \<ge> start1 r \<and> point < end1 r) \<or> (point \<ge> start2 r \<and> point < end2 r)"

definition overlaps_one :: "range \<Rightarrow> range \<Rightarrow> bool" where
  "overlaps_one r other \<longleftrightarrow>
     contains r (start1 other) \<or> contains r (start2 other) \<or>
     contains r (end1 other - 1) \<or> contains r (end2 other - 1)"

definition overlaps :: "range \<Rightarrow> range \<Rightarrow> bool \<Rightarrow> bool" where
  "overlaps r other checkOther =
     (if overlaps_one r other then True
      else if checkOther then overlaps_one other r
      else False)"

definition wrapped :: "range \<Rightarrow> bool" where
  "wrapped r = (end2 r < end1 r)"

definition equalRange :: "range \<Rightarrow> range \<Rightarrow> bool" where
  "equalRange a b \<longleftrightarrow> r_hash a = r_hash b \<and> start1 a = start1 b \<and> end1 a = end1 b \<and>
     start2 a = start2 b \<and> end2 a = end2 b"

definition equals_range :: "range \<Rightarrow> range \<Rightarrow> bool" where
  "equals_range a b \<longleftrightarrow> r_id a = r_id b \<and> r_hash a = r_hash b \<and> r_timestamp a = r_timestamp b \<and>
     mode a = mode b \<and> start1 a = start1 b \<and> end1 a = end1 b \<and> start2 a = start2 b \<and>
     end2 a = end2 b \<and> width a = width b"

definition toReplicationRange :: "range \<Rightarrow> rangeMessage" where
  "toReplicationRange r = \<lparr>m_id = r_id r, m_timestamp = r_timestamp r, m_offset = start1 r,
     m_factor = width r, m_mode = mode r\<rparr>"

definition toReplicationRangeIndexable :: "resolution \<Rightarrow> rangeMessage \<Rightarrow> string \<Rightarrow> range_error + range" where
  "toReplicationRangeIndexable res m keyHash =
     make_range res (m_id m) keyHash (m_offset m) (m_factor m) (Some (m_mode m)) (Some (m_timestamp m))"

section \<open>Segment arithmetic\<close>

definition toSegmentsBigInt :: "range \<Rightarrow> segment list" where
  "toSegmentsBigInt r =
     (start1 r, end1 r) #
     (if start2 r \<noteq> start1 r \<and> start2 r \<noteq> end2 r then [(start2 r, end2 r)] else [])"

definition subtractBigIntSegment :: "int \<Rightarrow> int \<Rightarrow> int \<Rightarrow> int \<Rightarrow> segment list" where
  "subtractBigIntSegment aStart aEnd bStart bEnd =
     (if bEnd \<le> aStart \<or> bStart \<ge> aEnd then [(aStart, aEnd)]
      else if bStart \<le> aStart \<and> bEnd \<ge> aEnd then []
      else (if bStart > aStart then [(aStart, bStart)] else []) @
           (if bEnd < aEnd then [(bEnd, aEnd)] else []))"

definition segment_cmp :: "segment \<Rightarrow> segment \<Rightarrow> int" where
  "segment_cmp a b = (if fst a < fst b then -1 else if fst a > fst b then 1 else 0)"

fun merge_loop :: "segment \<Rightarrow> segment list \<Rightarrow> segment list" where
  "merge_loop current [] = [current]"
| "merge_loop current (next # rest) =
     (if snd current \<ge> fst next
      then merge_loop (fst current, if snd current > snd next then snd current else snd next) rest
      else current # merge_loop next rest)"

definition mergeBigIntSegments :: "segment list \<Rightarrow> segment list" where
  "mergeBigIntSegments segments =
     (if length segments < 2 then segments
      else case js_sort segment_cmp segments of
             [] \<Rightarrow> []
           | current # rest \<Rightarrow> merge_loop current rest)"

text \<open>The pairing loop of \<open>buildRangesFromBigIntSegments\<close>, on the sorted segments: every field
  but the four coordinates is copied from the template.\<close>

fun build_pairs :: "range \<Rightarrow> segment list \<Rightarrow> range list" where
  "build_pairs t [] = []"
| "build_pairs t [(s1, e1)] = [t\<lparr>start1 := s1, end1 := e1, start2 := s1, end2 := e1\<rparr>]"
| "build_pairs t ((s1, e1) # (s2, e2) # rest) =
     t\<lparr>start1 := s1, end1 := e1, start2 := s2, end2 := e2\<rparr> # build_pairs t rest"

definition buildRangesFromBigIntSegments :: "segment list \<Rightarrow> range \<Rightarrow> range list" where
  "buildRangesFromBigIntSegments segments t = build_pairs t (js_sort segment_cmp segments)"

text \<open>What is left of \<open>seg\<close> after subtracting every segment of \<open>bs\<close> in turn, and the leftovers of
  every segment of a range, as the nested loops of \<open>symmetricDifferenceRanges\<close> build them.\<close>

definition leftover :: "segment \<Rightarrow> segment list \<Rightarrow> segment list" where
  "leftover seg bs =
     fold (\<lambda>(bStart, bEnd) lo. concat (map (\<lambda>(s, e). subtractBigIntSegment s e bStart bEnd) lo)) bs [seg]"

definition subtract_all :: "segment list \<Rightarrow> segment list \<Rightarrow> segment list" where
  "subtract_all as bs = concat (map (\<lambda>seg. leftover seg bs) as)"

definition symmetricDifferenceRanges :: "range \<Rightarrow> range \<Rightarrow> range list \<times> range list" where
  "symmetricDifferenceRanges rangeA rangeB =
     (let segmentsA = toSegmentsBigInt rangeA;
          segmentsB = toSegmentsBigInt rangeB;
          validA = filter (\<lambda>(s, e). s < e) (subtract_all segmentsA segmentsB);
          validB = filter (\<lambda>(s, e). s < e) (subtract_all segmentsB segmentsA)
      in (buildRangesFromBigIntSegments (mergeBigIntSegments validA) rangeA,
          buildRangesFromBigIntSegments (mergeBigIntSegments validB) rangeB))"

section \<open>Lemmas: coordinates of a range\<close>

definition range_transform :: "int \<Rightarrow> int \<Rightarrow> int \<Rightarrow> range_error + (int \<times> int \<times> int \<times> int \<times> int)" where
  "range_transform mx offset wid =
     (let (s1, e1) = fst (getSegmentsFromOffsetAndRange offset wid 0 mx);
          (s2, e2) = snd (getSegmentsFromOffsetAndRange offset wid 0 mx);
          w = e1 - s1 + (if e2 < e1 then e2 - s2 else 0)
      in if s1 > mx \<or> e1 > mx \<or> s2 > mx \<or> e2 > mx \<or> w > mx \<or> w < 0
         then Inl Segment_coordinate_out_of_bounds
         else Inr (s1, e1, s2, e2, w))"

lemma transform_eq: "transform res = range_transform (maxValue res)"
  by (cases res) (simp_all add: fun_eq_iff transformU32_def transformU64_def range_transform_def)

lemma range_transform_flat:
  assumes "0 \<le> wid" and "offset + wid \<le> mx"
  shows "range_transform mx offset wid = Inr (offset, offset + wid, offset, offset + wid, wid) \<or> mx < wid"
  using assms by (auto simp: range_transform_def getSegmentsFromOffsetAndRange_def js_min_def Let_def)

lemma range_transform_wrap:
  assumes "0 \<le> offset" and "offset \<le> mx" and "wid \<le> mx" and "mx < offset + wid" and "0 < mx"
    and "offset < mx \<or> wid < mx"
  shows "range_transform mx offset wid = Inr (offset, mx, 0, offset + wid - mx, wid)"
proof -
  have "(if wid \<noteq> mx then offset + wid else offset) mod mx = offset + wid - mx"
  proof (cases "wid = mx")
    case True
    with assms show ?thesis by simp
  next
    case False
    have "(offset + wid) mod mx = (offset + wid - mx) mod mx"
      by simp
    also have "\<dots> = offset + wid - mx"
      using False assms by (intro mod_pos_pos_trivial) auto
    finally show ?thesis using False by simp
  qed
  with assms show ?thesis
    by (auto simp: range_transform_def getSegmentsFromOffsetAndRange_def js_min_def Let_def)
qed

text \<open>A well-formed range: what the constructor produces on the ring \<open>[0, maxValue)\<close>, for an offset
  below the maximum or a width below it.\<close>

definition range_ok :: "range \<Rightarrow> bool" where
  "range_ok r \<longleftrightarrow> 0 \<le> start1 r \<and> start1 r \<le> end1 r \<and> end1 r \<le> maxValue (r_res r) \<and>
     0 \<le> width r \<and> width r \<le> maxValue (r_res r) \<and>
     (start1 r < maxValue (r_res r) \<or> width r < maxValue (r_res r)) \<and>
     (start2 r = start1 r \<and> end2 r = end1 r \<and> width r = end1 r - start1 r \<or>
      start2 r = 0 \<and> end1 r = maxValue (r_res r) \<and> 0 < end2 r \<and> end2 r \<le> start1 r \<and>
        width r = end1 r - start1 r + end2 r)"

lemma make_range_eq:
  assumes "0 \<le> offset" and "offset \<le> maxValue res" and "0 \<le> wid" and "wid \<le> maxValue res"
    and "offset < maxValue res \<or> wid < maxValue res"
  shows "make_range res rid hsh offset wid md ts =
    Inr \<lparr>r_res = res, r_id = rid, r_hash = hsh, r_timestamp = (case ts of None \<Rightarrow> 0 | Some t \<Rightarrow> t),
      start1 = offset, end1 = min (offset + wid) (maxValue res),
      start2 = (if offset + wid \<le> maxValue res then offset else 0),
      end2 = (if offset + wid \<le> maxValue res then offset + wid else offset + wid - maxValue res),
      width = wid, mode = (case md of None \<Rightarrow> NonStrict | Some m \<Rightarrow> m)\<rparr>"
proof (cases "offset + wid \<le> maxValue res")
  case True
  with range_transform_flat [of wid offset "maxValue res"] assms show ?thesis
    by (auto simp: make_range_def transform_eq)
next
  case False
  with range_transform_wrap [of offset "maxValue res" wid] assms show ?thesis
    by (auto simp: make_range_def transform_eq)
qed

lemma make_range_ok:
  assumes "make_range res rid hsh offset wid md ts = Inr r"
    and "0 \<le> offset" and "offset \<le> maxValue res" and "0 \<le> wid" and "wid \<le> maxValue res"
    and "offset < maxValue res \<or> wid < maxValue res"
  shows "range_ok r"
proof (cases "offset + wid \<le> maxValue res")
  case True
  with assms make_range_eq [OF assms(2-6), of rid hsh md ts] show ?thesis
    by (auto simp: range_ok_def)
next
  case False
  with assms make_range_eq [OF assms(2-6), of rid hsh md ts] show ?thesis
    by (auto simp: range_ok_def)
qed

text \<open>The other coordinates follow from offset and width.\<close>

lemma range_ok_coords:
  assumes "range_ok r"
  shows "end1 r = min (start1 r + width r) (maxValue (r_res r)) \<and>
    start2 r = (if start1 r + width r \<le> maxValue (r_res r) then start1 r else 0) \<and>
    end2 r = (if start1 r + width r \<le> maxValue (r_res r) then start1 r + width r
              else start1 r + width r - maxValue (r_res r))"
  using assms unfolding range_ok_def by (elim conjE disjE) auto

lemma range_ok_contains_bounds:
  "range_ok r \<Longrightarrow> contains r p \<Longrightarrow> 0 \<le> p \<and> p < maxValue (r_res r)"
  by (auto simp: range_ok_def contains_def)

lemma range_ok_ring:
  assumes "range_ok r" and "0 \<le> p" and "p < maxValue (r_res r)"
  shows "contains r p \<longleftrightarrow> (p - start1 r) mod maxValue (r_res r) < width r"
proof (cases "start1 r \<le> p")
  case True
  then have "(p - start1 r) mod maxValue (r_res r) = p - start1 r"
    using assms by (simp add: range_ok_def)
  with True assms show ?thesis by (auto simp: range_ok_def contains_def)
next
  case False
  have "(p - start1 r) mod maxValue (r_res r) = (p - start1 r + maxValue (r_res r)) mod maxValue (r_res r)"
    by simp
  also have "\<dots> = p - start1 r + maxValue (r_res r)"
    using False assms by (intro mod_pos_pos_trivial) (auto simp: range_ok_def)
  finally show ?thesis using False assms by (auto simp: range_ok_def contains_def)
qed

text \<open>Two intersecting half-open segments: one of them holds the start of the other.\<close>

lemma common_point_overlaps:
  assumes "contains a p" and "contains b p"
  shows "overlaps a b True"
proof -
  have start: "contains a s' \<or> contains b s"
    if "s \<le> p" "p < e" "s' \<le> p" "p < e'" "{s..<e} \<subseteq> {q. contains a q}" "{s'..<e'} \<subseteq> {q. contains b q}"
    for s e s' e'
  proof (cases "s \<le> s'")
    case True
    with that have "s' \<in> {s..<e}" by simp
    with that(5) show ?thesis by blast
  next
    case False
    with that have "s \<in> {s'..<e'}" by simp
    with that(6) show ?thesis by blast
  qed
  have sub: "{start1 r..<end1 r} \<subseteq> {q. contains r q}" "{start2 r..<end2 r} \<subseteq> {q. contains r q}" for r
    by (auto simp: contains_def)
  have "contains a (start1 b) \<or> contains a (start2 b) \<or> contains b (start1 a) \<or> contains b (start2 a)"
    using assms start sub unfolding contains_def [of a p] contains_def [of b p] by meson
  then show ?thesis unfolding overlaps_def overlaps_one_def by auto
qed

section \<open>Lemmas: segment arithmetic\<close>

text \<open>The points of a list of half-open segments.\<close>

definition seg_points :: "segment list \<Rightarrow> int set" where
  "seg_points segs = (\<Union>(s, e) \<in> set segs. {s..<e})"

lemma seg_points_Nil [simp]: "seg_points [] = {}"
  by (simp add: seg_points_def)

lemma seg_points_Cons [simp]: "seg_points ((s, e) # segs) = {s..<e} \<union> seg_points segs"
  by (simp add: seg_points_def)

lemma seg_points_append [simp]: "seg_points (xs @ ys) = seg_points xs \<union> seg_points ys"
  by (auto simp: seg_points_def)

lemma seg_points_sort [simp]: "seg_points (js_sort cmp segs) = seg_points segs"
  by (simp add: seg_points_def)

lemma seg_points_filter: "seg_points (filter (\<lambda>(s, e). s < e) segs) = seg_points segs"
  by (induction segs) (auto simp: seg_points_def)

lemma subtract_points:
  "seg_points (subtractBigIntSegment aS aE bS bE) = {aS..<aE} - {bS..<bE}"
  by (auto simp: subtractBigIntSegment_def)

lemma subtract_step_points:
  "seg_points (concat (map (\<lambda>(s, e). subtractBigIntSegment s e bS bE) lo)) = seg_points lo - {bS..<bE}"
proof (induction lo)
  case (Cons x lo)
  then show ?case by (cases x) (simp add: subtract_points Un_Diff)
qed simp

lemma leftover_points: "seg_points (leftover seg bs) = {fst seg..<snd seg} - seg_points bs"
proof -
  have "seg_points (fold (\<lambda>(bS, bE) lo. concat (map (\<lambda>(s, e). subtractBigIntSegment s e bS bE) lo)) bs lo)
      = seg_points lo - seg_points bs" for lo
    by (induction bs arbitrary: lo) (auto simp: subtract_step_points)
  from this [of "[seg]"] show ?thesis
    by (cases seg) (simp add: leftover_def)
qed

lemma subtract_all_points: "seg_points (subtract_all as bs) = seg_points as - seg_points bs"
  by (induction as) (auto simp: subtract_all_def leftover_points)

lemma segment_cmp_on: "segment_cmp = cmp_on fst"
  by (auto simp: fun_eq_iff segment_cmp_def cmp_on_def)

interpretation seg_sort: comparator segment_cmp
  by (simp add: segment_cmp_on key_cmp.comparator_axioms)

lemma merge_loop_spec:
  assumes "fst c < snd c" and "\<forall>s \<in> set rest. fst s < snd s"
    and "sorted (map fst (c # rest))"
  shows "seg_points (merge_loop c rest) = seg_points (c # rest) \<and>
    (\<forall>s \<in> set (merge_loop c rest). fst s < snd s \<and> fst c \<le> fst s) \<and>
    sorted_wrt (\<lambda>a b. snd a < fst b) (merge_loop c rest)"
  using assms
proof (induction c rest rule: merge_loop.induct)
  case (1 c)
  then show ?case by simp
next
  case (2 c n rest)
  show ?case
  proof (cases "snd c \<ge> fst n")
    case True
    let ?c = "(fst c, if snd c > snd n then snd c else snd n)"
    have le: "fst c \<le> fst n" "fst c < snd c" "fst n < snd n" using 2(3-5) by auto
    have pts: "seg_points (?c # rest) = seg_points (c # n # rest)"
      using True le by (cases c; cases n) auto
    have "fst ?c < snd ?c" "sorted (map fst (?c # rest))" "\<forall>s \<in> set rest. fst s < snd s"
      using 2(3-5) by auto
    from 2(1) [OF True this(1,3,2)] show ?thesis
      using True pts by simp
  next
    case False
    have pre: "fst n < snd n" "\<forall>s \<in> set rest. fst s < snd s" "sorted (map fst (n # rest))"
      using 2(3-5) by auto
    note IH0 = 2(2) [OF False pre]
    have IH: "seg_points (merge_loop n rest) = seg_points (n # rest)"
      "\<forall>s \<in> set (merge_loop n rest). fst s < snd s \<and> fst n \<le> fst s"
      "sorted_wrt (\<lambda>a b. snd a < fst b) (merge_loop n rest)"
      using IH0 by blast+
    obtain cs ce where c: "c = (cs, ce)" by (cases c)
    have ml: "merge_loop c (n # rest) = c # merge_loop n rest" using False by simp
    have "seg_points (merge_loop c (n # rest)) = seg_points (c # n # rest)"
      unfolding ml by (simp add: c IH(1))
    moreover have "\<forall>s \<in> set (merge_loop n rest). snd c < fst s"
      using IH(2) False by auto
    ultimately show ?thesis using IH(2,3) 2(3-5) unfolding ml by auto
  qed
qed

lemma mergeBigIntSegments_spec:
  assumes "\<forall>s \<in> set segs. fst s < snd s"
  shows "seg_points (mergeBigIntSegments segs) = seg_points segs \<and>
    (\<forall>s \<in> set (mergeBigIntSegments segs). fst s < snd s) \<and>
    sorted_wrt (\<lambda>a b. snd a < fst b) (mergeBigIntSegments segs)"
proof (cases "length segs < 2")
  case True
  then have "segs = [] \<or> (\<exists>x. segs = [x])"
    by (cases segs) auto
  with True assms show ?thesis by (auto simp: mergeBigIntSegments_def)
next
  case False
  then have "js_sort segment_cmp segs \<noteq> []" by auto
  then obtain c rest where cr: "js_sort segment_cmp segs = c # rest"
    by (cases "js_sort segment_cmp segs") auto
  have mem: "set (c # rest) = set segs"
    using set_js_sort [of segment_cmp segs] cr by simp
  have "sorted (map fst (c # rest))"
    using seg_sort.js_sort_sorted [of segs] cr by (simp add: segment_cmp_on cmp_sorted_cmp_on)
  then have "seg_points (merge_loop c rest) = seg_points (c # rest)"
    "\<forall>s \<in> set (merge_loop c rest). fst s < snd s"
    "sorted_wrt (\<lambda>a b. snd a < fst b) (merge_loop c rest)"
    using merge_loop_spec [of c rest] assms mem by auto
  moreover have "seg_points (c # rest) = seg_points segs"
    using seg_points_sort [of segment_cmp segs] cr by simp
  ultimately show ?thesis using False cr by (simp add: mergeBigIntSegments_def)
qed

lemma build_pairs_points: "{p. \<exists>r \<in> set (build_pairs t segs). contains r p} = seg_points segs"
  by (induction t segs rule: build_pairs.induct) (auto simp: contains_def)

lemma build_pairs_fields:
  "r \<in> set (build_pairs t segs) \<Longrightarrow> r_res r = r_res t \<and> r_id r = r_id t \<and> r_hash r = r_hash t \<and>
     r_timestamp r = r_timestamp t \<and> mode r = mode t \<and> width r = width t"
  by (induction t segs rule: build_pairs.induct) auto

lemma buildRanges_points:
  "{p. \<exists>r \<in> set (buildRangesFromBigIntSegments segs t). contains r p} = seg_points segs"
  by (simp add: buildRangesFromBigIntSegments_def build_pairs_points)

lemma toSegments_points: "range_ok r \<Longrightarrow> seg_points (toSegmentsBigInt r) = {p. contains r p}"
  by (auto simp: toSegmentsBigInt_def range_ok_def contains_def)

lemma merged_difference_points:
  "seg_points (mergeBigIntSegments (filter (\<lambda>(s, e). s < e) (subtract_all as bs)))
     = seg_points as - seg_points bs"
proof -
  have "\<forall>s \<in> set (filter (\<lambda>(s, e). s < e) (subtract_all as bs)). fst s < snd s"
    by auto
  from mergeBigIntSegments_spec [OF this] show ?thesis
    by (simp add: seg_points_filter subtract_all_points)
qed

lemma symmetricDifference_points:
  assumes "range_ok a" and "range_ok b" and "symmetricDifferenceRanges a b = (fromA, fromB)"
  shows "(\<exists>r \<in> set fromA. contains r p) \<longleftrightarrow> contains a p \<and> \<not> contains b p"
    and "(\<exists>r \<in> set fromB. contains r p) \<longleftrightarrow> contains b p \<and> \<not> contains a p"
    and "r \<in> set fromA \<Longrightarrow> r_id r = r_id a \<and> r_hash r = r_hash a \<and> r_timestamp r = r_timestamp a \<and> mode r = mode a"
    and "r \<in> set fromB \<Longrightarrow> r_id r = r_id b \<and> r_hash r = r_hash b \<and> r_timestamp r = r_timestamp b \<and> mode r = mode b"
proof -
  let ?m = "\<lambda>x y. mergeBigIntSegments (filter (\<lambda>(s, e). s < e) (subtract_all (toSegmentsBigInt x) (toSegmentsBigInt y)))"
  have A: "fromA = buildRangesFromBigIntSegments (?m a b) a"
    and B: "fromB = buildRangesFromBigIntSegments (?m b a) b"
    using assms(3) by (simp_all add: symmetricDifferenceRanges_def Let_def)
  have "{p. \<exists>r \<in> set fromA. contains r p} = {p. contains a p} - {p. contains b p}"
    "{p. \<exists>r \<in> set fromB. contains r p} = {p. contains b p} - {p. contains a p}"
    unfolding A B using assms(1,2)
    by (simp_all add: buildRanges_points merged_difference_points toSegments_points)
  then show "(\<exists>r \<in> set fromA. contains r p) \<longleftrightarrow> contains a p \<and> \<not> contains b p"
    "(\<exists>r \<in> set fromB. contains r p) \<longleftrightarrow> contains b p \<and> \<not> contains a p"
    by (simp_all add: set_eq_iff)
  show "r \<in> set fromA \<Longrightarrow> r_id r = r_id a \<and> r_hash r = r_hash a \<and> r_timestamp r = r_timestamp a \<and> mode r = mode a"
    "r \<in> set fromB \<Longrightarrow> r_id r = r_id b \<and> r_hash r = r_hash b \<and> r_timestamp r = r_timestamp b \<and> mode r = mode b"
    using build_pairs_fields unfolding A B buildRangesFromBigIntSegments_def by blast+
qed

section \<open>Properties\<close>

text \<open>A range is the arc it is asked to be: for an offset on the ring and a width up to the
  whole ring the constructor returns, the width it recomputes from the segments is the width
  given, and \<open>contains\<close> holds exactly for the points of the ring less than \<open>width\<close> steps above the
  offset, also where the arc wraps around.\<close>

theorem make_range_arc:
  assumes "0 \<le> offset" and "offset < maxValue res" and "0 \<le> wid" and "wid \<le> maxValue res"
  shows "\<exists>r. make_range res rid hsh offset wid md ts = Inr r \<and> range_ok r \<and> width r = wid \<and>
    (wrapped r \<longleftrightarrow> maxValue res < offset + wid) \<and>
    (\<forall>p. contains r p \<longleftrightarrow> 0 \<le> p \<and> p < maxValue res \<and> (p - offset) mod maxValue res < wid)"
proof -
  have off: "offset \<le> maxValue res" "offset < maxValue res \<or> wid < maxValue res"
    using assms by auto
  obtain r where r: "make_range res rid hsh offset wid md ts = Inr r"
    and sel: "r_res r = res" "start1 r = offset" "width r = wid"
      "wrapped r \<longleftrightarrow> maxValue res < offset + wid"
    using make_range_eq [OF assms(1) off(1) assms(3,4) off(2), of rid hsh md ts] assms
    by (auto simp: wrapped_def)
  have ok: "range_ok r"
    by (rule make_range_ok [OF r assms(1) off(1) assms(3,4) off(2)])
  have "contains r p \<longleftrightarrow> 0 \<le> p \<and> p < maxValue res \<and> (p - offset) mod maxValue res < wid" for p
    using range_ok_contains_bounds [OF ok] range_ok_ring [OF ok] sel by auto
  with r ok sel show ?thesis by blast
qed

theorem make_range_arc_witness:
  "\<exists>r. make_range U32 [1] ''a'' 4294967290 10 None None = Inr r \<and> wrapped r \<and> contains r 4"
  using make_range_arc [of 4294967290 U32 10 "[1]" "''a''" None None]
  by (auto simp: MAX_U32_def)

lemma range_wire:
  assumes "range_ok r"
  shows "toReplicationRangeIndexable (r_res r) (toReplicationRange r) (r_hash r) = Inr r"
proof -
  have a: "0 \<le> start1 r" "start1 r \<le> maxValue (r_res r)" "0 \<le> width r" "width r \<le> maxValue (r_res r)"
    "start1 r < maxValue (r_res r) \<or> width r < maxValue (r_res r)"
    using assms by (auto simp: range_ok_def)
  have "toReplicationRangeIndexable (r_res r) (toReplicationRange r) (r_hash r) =
    make_range (r_res r) (r_id r) (r_hash r) (start1 r) (width r) (Some (mode r)) (Some (r_timestamp r))"
    by (simp add: toReplicationRangeIndexable_def toReplicationRange_def)
  also have "\<dots> = Inr r"
    unfolding make_range_eq [OF a] using range_ok_coords [OF assms]
    by (intro arg_cong [of _ _ Inr] range.equality) simp_all
  finally show ?thesis .
qed


definition range_ex :: range where
  "range_ex = \<lparr>r_res = U32, r_id = [1], r_hash = ''a'', r_timestamp = 7, start1 = 4294967290,
     end1 = 4294967295, start2 = 0, end2 = 5, width = 10, mode = Strict\<rparr>"

lemma range_ex_ok: "range_ok range_ex"
  by (simp add: range_ex_def range_ok_def MAX_U32_def)


text \<open>(C10) Symmetric difference: the ranges returned for A together contain exactly the points of A
  that are not in B, and those for B the points of B not in A; each keeps the owner, id,
  timestamp and mode of the range it comes from.\<close>

theorem symmetricDifferenceRanges_points:
  assumes "range_ok a" and "range_ok b" and "symmetricDifferenceRanges a b = (fromA, fromB)"
  shows "(\<forall>p. (\<exists>r \<in> set fromA. contains r p) \<longleftrightarrow> contains a p \<and> \<not> contains b p) \<and>
    (\<forall>p. (\<exists>r \<in> set fromB. contains r p) \<longleftrightarrow> contains b p \<and> \<not> contains a p) \<and>
    (\<forall>r \<in> set fromA. r_id r = r_id a \<and> r_hash r = r_hash a \<and> r_timestamp r = r_timestamp a \<and> mode r = mode a) \<and>
    (\<forall>r \<in> set fromB. r_id r = r_id b \<and> r_hash r = r_hash b \<and> r_timestamp r = r_timestamp b \<and> mode r = mode b)"
  using symmetricDifference_points [OF assms] by blast

theorem symmetricDifferenceRanges_points_witness:
  "let b = range_ex\<lparr>start1 := 2, end1 := 8, start2 := 2, end2 := 8, width := 6\<rparr> in
     \<exists>r \<in> set (fst (symmetricDifferenceRanges range_ex b)). contains r 1"
proof -
  let ?b = "range_ex\<lparr>start1 := 2, end1 := 8, start2 := 2, end2 := 8, width := 6\<rparr>"
  have b: "range_ok ?b" by (simp add: range_ex_def range_ok_def MAX_U32_def)
  have c: "contains range_ex 1" "\<not> contains ?b 1" by (simp_all add: contains_def range_ex_def)
  show ?thesis
    using symmetricDifferenceRanges_points [OF range_ex_ok b prod.collapse [symmetric]] c
    unfolding Let_def by blast
qed

text \<open>\<open>overlaps\<close> misses nothing: two ranges with a common point overlap. It answers exactly when
  neither has an empty segment, as for every range of positive width that does not end at the
  origin of the ring.\<close>

theorem overlaps_iff_common_point:
  assumes "range_ok a" and "range_ok b"
  shows "((\<exists>p. contains a p \<and> contains b p) \<longrightarrow> overlaps a b True) \<and>
    (start1 a < end1 a \<and> start1 b < end1 b \<longrightarrow>
       (overlaps a b True \<longleftrightarrow> (\<exists>p. contains a p \<and> contains b p)))"
proof (intro conjI impI)
  assume "\<exists>p. contains a p \<and> contains b p"
  then show "overlaps a b True" by (auto intro: common_point_overlaps)
next
  assume ne: "start1 a < end1 a \<and> start1 b < end1 b"
  have own: "contains r (start1 r) \<and> contains r (start2 r) \<and> contains r (end1 r - 1) \<and> contains r (end2 r - 1)"
    if "range_ok r" "start1 r < end1 r" for r
    using that by (auto simp: range_ok_def contains_def)
  show "overlaps a b True \<longleftrightarrow> (\<exists>p. contains a p \<and> contains b p)"
  proof
    assume "overlaps a b True"
    then have "overlaps_one a b \<or> overlaps_one b a" by (simp add: overlaps_def split: if_splits)
    with own [OF assms(1)] own [OF assms(2)] ne show "\<exists>p. contains a p \<and> contains b p"
      unfolding overlaps_one_def by blast
  next
    assume "\<exists>p. contains a p \<and> contains b p"
    then show "overlaps a b True" by (auto intro: common_point_overlaps)
  qed
qed

theorem overlaps_iff_common_point_witness:
  "overlaps range_ex range_ex True \<and> (\<exists>p. contains range_ex p \<and> contains range_ex p)"
proof -
  have "contains range_ex 1" by (simp add: contains_def range_ex_def)
  with overlaps_iff_common_point [OF range_ex_ok range_ex_ok] show ?thesis by blast
qed

text \<open>The largest coordinate belongs to no range: \<open>contains\<close> is half open and segments end at
  \<open>maxValue\<close>, so even a range of full width does not contain \<open>maxValue\<close>, a value that
  \<open>denormalize\<close> and \<open>bytesToNumber\<close> can return.\<close>

theorem maxValue_in_no_range:
  "make_range res rid hsh offset wid md ts = Inr r \<longrightarrow> \<not> contains r (maxValue res)"
  by (auto simp: make_range_def transform_eq range_transform_def Let_def contains_def split: if_splits prod.splits)

theorem maxValue_in_no_range_witness:
  "\<exists>r. make_range U32 [1] ''a'' 0 4294967295 None None = Inr r \<and> width r = maxValue U32 \<and>
     contains r 4294967294 \<and> \<not> contains r (maxValue U32)"
proof -
  have "0 \<le> (0::int)" "0 \<le> maxValue U32" "0 \<le> (4294967295::int)" "4294967295 \<le> maxValue U32"
    "0 < maxValue U32 \<or> 4294967295 < maxValue U32"
    by (simp_all add: MAX_U32_def)
  from make_range_eq [OF this, of "[1]" "''a''" None None]
  obtain r where r: "make_range U32 [1] ''a'' 0 4294967295 None None = Inr r"
      "width r = maxValue U32" "contains r 4294967294"
    by (auto simp: MAX_U32_def contains_def)
  with maxValue_in_no_range [of U32 "[1]" "''a''" 0 4294967295 None None r] show ?thesis by blast
qed

end
