(* ===== verification/Routes.thy ===== *)
theory Routes
  imports Prelude
begin

text \<open>
  The routing table of \<open>packages/transport/stream/src/routes.ts\<close>: for every origin and target the
  neighbours a message can be sent through, ordered by distance. The state of a \<open>Routes\<close> object
  is the record \<open>routes\<close>; the cleanups that \<open>add\<close> schedules with \<open>delay\<close> are its field
  \<open>rt_scheduled\<close>, and the wall clock is an argument.

  Shown here: the invariant of the table over every sequence of operations (lists are non-empty
  and ordered by distance, a direct neighbour of this node has distance -1), what \<open>add\<close>, \<open>remove\<close>
  and \<open>getFanout\<close> promise their callers, when \<open>getPrunable\<close> is right, and three behaviours that
  differ from what the comments of the code say.
\<close>

section \<open>State\<close>

record relayInfo =
  ri_session :: int
  ri_hash :: string
  ri_expireAt :: "int option"
  ri_distance :: int

record routeInfo =
  remoteSession :: int
  rt_session :: int
  rt_list :: "relayInfo list"

record routes =
  rt_me :: string
  rt_routes :: "(string, (string, routeInfo) jsmap) jsmap"
  rt_remoteInfo :: "(string, int option) jsmap"
  rt_retention :: int
  rt_scheduled :: "(string \<times> string) list"

datatype add_result = New | Updated | Restart

definition MAX_ROUTE_DISTANCE :: int where "MAX_ROUTE_DISTANCE = MAX_SAFE_INTEGER - 1"

definition new_Routes :: "string \<Rightarrow> int option \<Rightarrow> routes" where
  "new_Routes me retention = \<lparr>rt_me = me, rt_routes = [], rt_remoteInfo = [],
     rt_retention = (case retention of None \<Rightarrow> 10 * 1000 | Some p \<Rightarrow> p), rt_scheduled = []\<rparr>"

text \<open>Whether \<open>expireAt\<close> is truthy, and \<open>x || -1\<close> on a number.\<close>

fun expires :: "int option \<Rightarrow> bool" where
  "expires None = False"
| "expires (Some t) = (t \<noteq> 0)"

definition or_minus_one :: "int \<Rightarrow> int" where
  "or_minus_one x = (if x = 0 then -1 else x)"

definition route_cmp :: "relayInfo \<Rightarrow> relayInfo \<Rightarrow> int" where
  "route_cmp a b =
     (if ri_distance a = ri_distance b then
        (if expires (ri_expireAt a) \<and> \<not> expires (ri_expireAt b) then 1
         else if \<not> expires (ri_expireAt a) \<and> expires (ri_expireAt b) then -1
         else 0)
      else ri_distance a - ri_distance b)"

definition sortRoutes :: "relayInfo list \<Rightarrow> relayInfo list" where
  "sortRoutes = js_sort route_cmp"

interpretation route_sort: comparator route_cmp
  by unfold_locales (auto simp: route_cmp_def split: if_splits)

section \<open>Operations\<close>

definition routes_clear :: "routes \<Rightarrow> routes" where
  "routes_clear s = s\<lparr>rt_routes := []\<rparr>"

definition findNeighbor :: "routes \<Rightarrow> string \<Rightarrow> string \<Rightarrow> routeInfo option" where
  "findNeighbor s from target =
     (case jm_get (rt_routes s) from of None \<Rightarrow> None | Some m \<Rightarrow> jm_get m target)"

definition expired :: "int \<Rightarrow> relayInfo \<Rightarrow> bool" where
  "expired now r = (case ri_expireAt r of None \<Rightarrow> False | Some t \<Rightarrow> t < now)"

definition cleanup :: "int \<Rightarrow> routes \<Rightarrow> string \<Rightarrow> string \<Rightarrow> routes" where
  "cleanup now s from to =
     (case jm_get (rt_routes s) from of
        None \<Rightarrow> s
      | Some fromMap \<Rightarrow>
          (case jm_get fromMap to of
             None \<Rightarrow> s
           | Some info \<Rightarrow>
               let keepRoutes = filter (\<lambda>r. \<not> expired now r) (rt_list info)
               in if length keepRoutes > 0
                  then s\<lparr>rt_routes := jm_set (rt_routes s) from
                           (jm_set fromMap to (info\<lparr>rt_list := keepRoutes\<rparr>))\<rparr>
                  else let fromMap' = jm_delete fromMap to
                       in if length fromMap' = 1
                          then s\<lparr>rt_routes := jm_delete (rt_routes s) from\<rparr>
                          else s\<lparr>rt_routes := jm_set (rt_routes s) from fromMap'\<rparr>))"

text \<open>The two loops of \<open>add\<close>: marking the routes of an older session, and looking for a route
  through the neighbour. The second one returns \<open>Inl\<close> the list when it ends \<open>add\<close> early, with
  whether it is sorted again, and \<open>Inr\<close> whether the neighbour was found otherwise.\<close>

definition mark_old :: "int \<Rightarrow> relayInfo list \<Rightarrow> relayInfo list" where
  "mark_old expireAt rs =
     map (\<lambda>r. if expires (ri_expireAt r) then r else r\<lparr>ri_expireAt := Some expireAt\<rparr>) rs"

fun update_route :: "bool \<Rightarrow> string \<Rightarrow> int \<Rightarrow> int \<Rightarrow> relayInfo list \<Rightarrow> (bool \<times> relayInfo list) + bool" where
  "update_route isNewSession neighbour distance session [] = Inr False"
| "update_route isNewSession neighbour distance session (r # rs) =
     (if ri_hash r = neighbour then
        if isNewSession \<and> ri_distance r > distance then
          Inl (True, r\<lparr>ri_distance := distance, ri_session := session, ri_expireAt := None\<rparr> # rs)
        else if isNewSession \<and> ri_distance r = distance then
          Inl (False, r\<lparr>ri_session := session, ri_expireAt := None\<rparr> # rs)
        else Inr True
      else case update_route isNewSession neighbour distance session rs of
             Inl (resort, rs') \<Rightarrow> Inl (resort, r # rs')
           | Inr exist \<Rightarrow> Inr exist)"

text \<open>The new list and the result of \<open>add\<close>, from the list after marking.\<close>

definition add_to_list ::
  "int \<Rightarrow> bool \<Rightarrow> bool \<Rightarrow> bool \<Rightarrow> string \<Rightarrow> int \<Rightarrow> int \<Rightarrow> relayInfo list \<Rightarrow> add_result \<times> relayInfo list" where
  "add_to_list expireAt isNewSession isOldSession isNewRemoteSession neighbour distance session rs =
     (let upd = (if isNewRemoteSession then Restart else Updated)
      in case update_route isNewSession neighbour distance session rs of
           Inl (resort, rs') \<Rightarrow> (upd, if resort then sortRoutes rs' else rs')
         | Inr exist \<Rightarrow>
             (if exist then upd else New,
              if \<not> exist \<or> isNewSession
              then sortRoutes (rs @ [\<lparr>ri_session = session, ri_hash = neighbour,
                     ri_expireAt = (if isOldSession then Some expireAt else None), ri_distance = distance\<rparr>])
              else rs))"

definition routes_add ::
  "int \<Rightarrow> routes \<Rightarrow> string \<Rightarrow> string \<Rightarrow> string \<Rightarrow> int \<Rightarrow> int \<Rightarrow> int \<Rightarrow> add_result \<times> routes" where
  "routes_add now s from neighbour target distance session remSession =
     (let fromMap = (case jm_get (rt_routes s) from of None \<Rightarrow> [] | Some m \<Rightarrow> m);
          routeDidExist = jm_get fromMap target;
          isNewSession = (case routeDidExist of None \<Rightarrow> True | Some p \<Rightarrow> session > rt_session p);
          isOldSession = (case routeDidExist of None \<Rightarrow> False | Some p \<Rightarrow> session < rt_session p);
          prev = (case routeDidExist of
                    None \<Rightarrow> \<lparr>remoteSession = remSession, rt_session = session, rt_list = []\<rparr>
                  | Some p \<Rightarrow> p);
          dist = (if neighbour = target \<and> from = rt_me s then -1 else distance);
          isNewRemoteSession = (case routeDidExist of
                    None \<Rightarrow> False | Some p \<Rightarrow> remSession > or_minus_one (remoteSession p));
          remSession' = (case routeDidExist of
                    None \<Rightarrow> remoteSession prev | Some p \<Rightarrow> max remSession (or_minus_one (remoteSession p)));
          expireAt = now + rt_retention s;
          list1 = (if isNewSession then mark_old expireAt (rt_list prev) else rt_list prev);
          schedule = (if isNewSession
                      then dist \<noteq> -1 \<and> list_ex (\<lambda>r. \<not> expires (ri_expireAt r)) (rt_list prev)
                      else isOldSession);
          (result, list2) = add_to_list expireAt isNewSession isOldSession isNewRemoteSession
                              neighbour dist session list1
      in (result,
          s\<lparr>rt_routes := jm_set (rt_routes s) from (jm_set fromMap target
               \<lparr>remoteSession = remSession', rt_session = max session (rt_session prev), rt_list = list2\<rparr>),
            rt_scheduled := (if schedule then rt_scheduled s @ [(from, target)] else rt_scheduled s)\<rparr>))"

definition isReachable :: "routes \<Rightarrow> string \<Rightarrow> string \<Rightarrow> int \<Rightarrow> bool" where
  "isReachable s from target maxDistance =
     (case findNeighbor s from target of
        None \<Rightarrow> False
      | Some info \<Rightarrow>
          (case jm_get (rt_remoteInfo s) target of
             None \<Rightarrow> False
           | Some None \<Rightarrow> False
           | Some (Some session) \<Rightarrow>
               if remoteSession info < session then False
               else (case rt_list info of [] \<Rightarrow> MAX_SAFE_INTEGER | r # _ \<Rightarrow> ri_distance r) \<le> maxDistance))"

definition drop_hash :: "string \<Rightarrow> routeInfo \<Rightarrow> routeInfo" where
  "drop_hash h info = info\<lparr>rt_list := filter (\<lambda>x. ri_hash x \<noteq> h) (rt_list info)\<rparr>"

text \<open>The inner loop of \<open>remove\<close> and of \<open>removeNeighbour\<close>: the neighbour is dropped from every list
  and a target whose list becomes empty is deleted.\<close>

definition drop_neighbour :: "string \<Rightarrow> (string, routeInfo) jsmap \<Rightarrow> (string, routeInfo) jsmap" where
  "drop_neighbour h fromMap =
     filter (\<lambda>(_, info). rt_list info \<noteq> []) (map (\<lambda>(remote, info). (remote, drop_hash h info)) fromMap)"

definition routes_remove :: "routes \<Rightarrow> string \<Rightarrow> string list \<times> routes" where
  "routes_remove s target =
     (let rs1 = jm_delete (rt_routes s) target;
          stripped = map (\<lambda>(k, fromMap). (k, drop_neighbour target (jm_delete fromMap target))) rs1;
          mine = (case jm_get rs1 (rt_me s) of None \<Rightarrow> [] | Some m \<Rightarrow> m);
          targetRemoved = jm_has mine target;
          emptied = map fst (filter (\<lambda>(_, info). rt_list (drop_hash target info) = []) (jm_delete mine target));
          maybeUnreachable = (if targetRemoved then js_add emptied target else emptied);
          s' = s\<lparr>rt_routes := filter (\<lambda>(_, fromMap). fromMap \<noteq> []) stripped,
                 rt_remoteInfo := jm_delete (rt_remoteInfo s) target\<rparr>
      in (filter (\<lambda>x. \<not> isReachable s' (rt_me s) x MAX_ROUTE_DISTANCE) maybeUnreachable, s'))"

definition removeNeighbour :: "routes \<Rightarrow> string \<Rightarrow> routes" where
  "removeNeighbour s neighbour =
     s\<lparr>rt_routes := map (\<lambda>(k, fromMap). (k, drop_neighbour neighbour fromMap))
                       (jm_delete (rt_routes s) neighbour)\<rparr>"

definition hasTarget :: "routes \<Rightarrow> string \<Rightarrow> bool" where
  "hasTarget s target = list_ex (\<lambda>(_, v). jm_has v target) (rt_routes s)"

definition updateSession :: "routes \<Rightarrow> string \<Rightarrow> int option \<Rightarrow> bool \<times> routes" where
  "updateSession s remote session =
     (case session of
        None \<Rightarrow> (False, s\<lparr>rt_remoteInfo := jm_delete (rt_remoteInfo s) remote\<rparr>)
      | Some ses \<Rightarrow>
          (case jm_get (rt_remoteInfo s) remote of
             Some known \<Rightarrow>
               if known = Some (-1) then (False, s)
               else if ses = -1 then
                 (False, s\<lparr>rt_remoteInfo := jm_set (rt_remoteInfo s) remote (Some (-1))\<rparr>)
               else if ses > (case known of None \<Rightarrow> -1 | Some k \<Rightarrow> or_minus_one k) then
                 (True, s\<lparr>rt_remoteInfo := jm_set (rt_remoteInfo s) remote (Some ses)\<rparr>)
               else (False, s)
           | None \<Rightarrow> (True, s\<lparr>rt_remoteInfo := jm_set (rt_remoteInfo s) remote (Some ses)\<rparr>)))"

definition getSession :: "routes \<Rightarrow> string \<Rightarrow> int option" where
  "getSession s remote = (case jm_get (rt_remoteInfo s) remote of None \<Rightarrow> None | Some ses \<Rightarrow> ses)"

definition isUpToDate :: "routes \<Rightarrow> string \<Rightarrow> routeInfo \<Rightarrow> bool" where
  "isUpToDate s target route =
     (case jm_get (rt_remoteInfo s) target of
        Some (Some session) \<Rightarrow> remoteSession route \<ge> session
      | _ \<Rightarrow> False)"

definition getDependent :: "routes \<Rightarrow> string \<Rightarrow> string list" where
  "getDependent s peer =
     map fst (filter (\<lambda>(k, fromMap). k \<noteq> rt_me s \<and>
        (jm_has fromMap peer \<or>
         list_ex (\<lambda>(_, through). list_ex (\<lambda>n. ri_hash n = peer) (rt_list through)) fromMap))
      (rt_routes s))"

definition routes_count :: "routes \<Rightarrow> string \<Rightarrow> nat" where
  "routes_count s from =
     (case jm_get (rt_routes s) from of
        None \<Rightarrow> 0
      | Some m \<Rightarrow> length (fold (\<lambda>(k, v) st. fold (\<lambda>peer st. js_add st (ri_hash peer)) (rt_list v) (js_add st k)) m []))"

definition countAll :: "routes \<Rightarrow> nat" where
  "countAll s = sum_list (map (\<lambda>(_, m). sum_list (map (\<lambda>(_, v). length (rt_list v)) m)) (rt_routes s))"

type_synonym fanout = "(string, (string, int) jsmap) jsmap"

definition fan_add :: "fanout \<Rightarrow> string \<Rightarrow> string \<Rightarrow> int \<Rightarrow> fanout" where
  "fan_add F n to session =
     jm_set F n (jm_set (case jm_get F n of None \<Rightarrow> [] | Some m \<Rightarrow> m) to session)"

text \<open>The loop of \<open>getFanout\<close> over the neighbours of one target; the result is \<open>foundClosest\<close> and
  the map so far.\<close>

fun fanout_list :: "bool \<Rightarrow> int \<Rightarrow> int \<Rightarrow> string \<Rightarrow> relayInfo list \<Rightarrow> int \<Rightarrow> int \<Rightarrow> bool \<Rightarrow> fanout \<Rightarrow> bool \<times> fanout" where
  "fanout_list relaying redundancy nsession to [] foundPath added foundClosest F = (foundClosest, F)"
| "fanout_list relaying redundancy nsession to (r # rs) foundPath added foundClosest F =
     (if expires (ri_expireAt r) \<and> \<not> relaying \<and> foundPath = ri_distance r
      then fanout_list relaying redundancy nsession to rs foundPath added foundClosest F
      else
        let foundPath' = (if expires (ri_expireAt r) then foundPath else ri_distance r)
        in if ri_distance r \<ge> redundancy then (foundClosest, F)
           else
             let F' = fan_add F (ri_hash r) to (ri_session r);
                 closest = (ri_distance r \<le> 0 \<and> ri_session r \<le> nsession);
                 foundClosest' = (foundClosest \<or> closest)
             in if closest \<and> ri_distance r = -1 then (foundClosest', F')
                else if \<not> expires (ri_expireAt r) then
                  if added + 1 \<ge> redundancy then (foundClosest', F')
                  else fanout_list relaying redundancy nsession to rs foundPath' (added + 1) foundClosest' F'
                else fanout_list relaying redundancy nsession to rs foundPath' added foundClosest' F')"

fun fanout_tos :: "routes \<Rightarrow> string \<Rightarrow> int \<Rightarrow> string list \<Rightarrow> fanout \<Rightarrow> fanout option" where
  "fanout_tos s from redundancy [] F = Some F"
| "fanout_tos s from redundancy (to # tos) F =
     (if to = rt_me s \<or> from = to then fanout_tos s from redundancy tos F
      else case findNeighbor s from to of
             None \<Rightarrow> None
           | Some neighbour \<Rightarrow>
               let (foundClosest, F') = fanout_list (from \<noteq> rt_me s) redundancy (rt_session neighbour) to
                                          (rt_list neighbour) (-2) 0 False F
               in if \<not> foundClosest \<and> from = rt_me s then None
                  else fanout_tos s from redundancy tos F')"

definition getFanout :: "routes \<Rightarrow> string \<Rightarrow> string list \<Rightarrow> int \<Rightarrow> fanout option" where
  "getFanout s from tos redundancy =
     (if length tos = 0 then None else fanout_tos s from redundancy tos [])"

definition getPrunable :: "routes \<Rightarrow> string list \<Rightarrow> string list" where
  "getPrunable s neighbours =
     (case jm_get (rt_routes s) (rt_me s) of
        None \<Rightarrow> []
      | Some m \<Rightarrow>
          filter (\<lambda>candidate. \<not> list_ex (\<lambda>(target, info). target \<noteq> candidate \<and>
             length (rt_list info) = 1 \<and> ri_hash (hd (rt_list info)) = candidate) m) neighbours)"

section \<open>The table as a state machine\<close>

inductive routes_step :: "routes \<Rightarrow> routes \<Rightarrow> bool" where
  step_add: "routes_step s (snd (routes_add now s from neighbour target distance session remSession))"
| step_cleanup: "rt_scheduled s = pre @ (from, to) # post \<Longrightarrow>
    routes_step s (cleanup now (s\<lparr>rt_scheduled := pre @ post\<rparr>) from to)"
| step_abort: "routes_step s (s\<lparr>rt_scheduled := []\<rparr>)"
| step_remove: "routes_step s (snd (routes_remove s target))"
| step_removeNeighbour: "routes_step s (removeNeighbour s neighbour)"
| step_updateSession: "routes_step s (snd (updateSession s remote ses))"
| step_clear: "routes_step s (routes_clear s)"

inductive_cases routes_stepE: "routes_step s s'"

text \<open>The invariant: maps hold a key once; the list of a target is non-empty and ordered by distance,
  and a direct neighbour of this node has distance -1.\<close>

definition info_ok :: "bool \<Rightarrow> string \<Rightarrow> routeInfo \<Rightarrow> bool" where
  "info_ok mine target info \<longleftrightarrow> rt_list info \<noteq> [] \<and> sorted (map ri_distance (rt_list info)) \<and>
     (mine \<longrightarrow> (\<forall>r \<in> set (rt_list info). ri_hash r = target \<longrightarrow> ri_distance r = -1))"

definition targets_ok :: "bool \<Rightarrow> (string, routeInfo) jsmap \<Rightarrow> bool" where
  "targets_ok mine m \<longleftrightarrow> jm_ok m \<and> (\<forall>(t, info) \<in> set m. info_ok mine t info)"

definition routes_ok :: "routes \<Rightarrow> bool" where
  "routes_ok s \<longleftrightarrow> jm_ok (rt_routes s) \<and> (\<forall>(f, m) \<in> set (rt_routes s). targets_ok (f = rt_me s) m)"

lemma targets_ok_set: "targets_ok mine m \<Longrightarrow> info_ok mine t info \<Longrightarrow> targets_ok mine (jm_set m t info)"
  using set_jm_set_subset [of m t info] by (auto simp: targets_ok_def)

lemma targets_ok_delete: "targets_ok mine m \<Longrightarrow> targets_ok mine (jm_delete m t)"
  by (auto simp: targets_ok_def set_jm_delete)

lemma targets_ok_Nil [simp]: "targets_ok mine []"
  by (simp add: targets_ok_def)

lemma routes_ok_set:
  assumes "routes_ok s" and "targets_ok (f = rt_me s) m"
  shows "routes_ok (s\<lparr>rt_routes := jm_set (rt_routes s) f m\<rparr>)"
  using assms set_jm_set_subset [of "rt_routes s" f m] by (auto simp: routes_ok_def)

lemma routes_ok_delete: "routes_ok s \<Longrightarrow> routes_ok (s\<lparr>rt_routes := jm_delete (rt_routes s) f\<rparr>)"
  by (auto simp: routes_ok_def set_jm_delete)

lemma routes_ok_get: "routes_ok s \<Longrightarrow> jm_get (rt_routes s) f = Some m \<Longrightarrow> targets_ok (f = rt_me s) m"
  by (auto simp: routes_ok_def dest: map_of_SomeD)

lemma targets_ok_get: "targets_ok mine m \<Longrightarrow> jm_get m t = Some info \<Longrightarrow> info_ok mine t info"
  by (auto simp: targets_ok_def dest: map_of_SomeD)

lemma routes_ok_find:
  "routes_ok s \<Longrightarrow> findNeighbor s f t = Some info \<Longrightarrow> info_ok (f = rt_me s) t info"
  by (auto simp: findNeighbor_def split: option.splits intro: routes_ok_get targets_ok_get)

text \<open>Fields that do not matter to the invariant.\<close>

lemma routes_ok_other [simp]:
  "routes_ok (s\<lparr>rt_scheduled := x\<rparr>) = routes_ok s"
  "routes_ok (s\<lparr>rt_remoteInfo := y\<rparr>) = routes_ok s"
  "routes_ok (s\<lparr>rt_routes := []\<rparr>)"
  by (simp_all add: routes_ok_def)

lemma sorted_distance_filter: "sorted (map ri_distance rs) \<Longrightarrow> sorted (map ri_distance (filter P rs))"
  by (induction rs) auto

lemma sorted_sortRoutes: "sorted (map ri_distance (sortRoutes rs))"
proof -
  have "sorted_wrt (\<lambda>x y. ri_distance x \<le> ri_distance y) (js_sort route_cmp rs)"
    using route_sort.js_sort_sorted [of rs] unfolding cmp_sorted_def
    by (rule sorted_wrt_mono_rel [rotated]) (auto simp: route_cmp_def split: if_splits)
  then show ?thesis by (simp add: sortRoutes_def sorted_map)
qed

lemma set_sortRoutes [simp]: "set (sortRoutes rs) = set rs"
  by (simp add: sortRoutes_def)

lemma info_ok_filter:
  "info_ok mine t info \<Longrightarrow> filter P (rt_list info) \<noteq> [] \<Longrightarrow> info_ok mine t (info\<lparr>rt_list := filter P (rt_list info)\<rparr>)"
  by (simp add: info_ok_def sorted_distance_filter)

lemma mark_old_sel [simp]:
  "map ri_distance (mark_old e rs) = map ri_distance rs"
  "map ri_hash (mark_old e rs) = map ri_hash rs"
  by (simp_all add: mark_old_def)

section \<open>The list that add builds\<close>

text \<open>What the loop over the list does: it ends early only with the neighbour in the list at the new
  distance, and it reports a neighbour exactly when the list has one.\<close>

lemma update_route_Inl:
  "update_route isNew nb d ses rs = Inl (resort, rs') \<Longrightarrow>
     nb \<in> ri_hash ` set rs \<and> map ri_hash rs' = map ri_hash rs \<and>
     (\<exists>r \<in> set rs'. ri_hash r = nb \<and> ri_distance r = d \<and> ri_session r = ses \<and> ri_expireAt r = None) \<and>
     (\<forall>r \<in> set rs'. r \<in> set rs \<or> ri_hash r = nb \<and> ri_distance r = d) \<and>
     (\<not> resort \<longrightarrow> map ri_distance rs' = map ri_distance rs)"
proof (induction rs arbitrary: rs')
  case (Cons r rs)
  show ?case
  proof (cases "ri_hash r = nb")
    case True
    with Cons.prems show ?thesis by (auto split: if_splits)
  next
    case False
    with Cons.prems obtain rs'' where "update_route isNew nb d ses rs = Inl (resort, rs'')" "rs' = r # rs''"
      by (auto split: sum.splits)
    with Cons.IH [of rs''] show ?thesis by auto
  qed
qed simp

lemma update_route_Inr:
  "update_route isNew nb d ses rs = Inr exist \<Longrightarrow> exist \<longleftrightarrow> nb \<in> ri_hash ` set rs"
  by (induction rs) (auto split: if_splits sum.splits)

text \<open>The contract of one \<open>add\<close> on the list: ordered as before, the neighbour is in it, nothing but
  routes through the neighbour at the new distance is new.\<close>

lemma add_to_list_spec:
  assumes "add_to_list e isNew isOld isRem nb d ses rs = (res, rs')" and "sorted (map ri_distance rs)"
  shows "sorted (map ri_distance rs') \<and> nb \<in> ri_hash ` set rs' \<and>
    (res = New \<longleftrightarrow> nb \<notin> ri_hash ` set rs) \<and>
    (\<forall>r \<in> set rs'. r \<in> set rs \<or> ri_hash r = nb \<and> ri_distance r = d) \<and>
    ri_hash ` set rs' = insert nb (ri_hash ` set rs)"
proof (cases "update_route isNew nb d ses rs")
  case (Inl p)
  obtain resort l where p: "p = (resort, l)" by (cases p)
  have rs': "rs' = (if resort then sortRoutes l else l)" and res: "res \<noteq> New"
    using assms(1) Inl p by (auto simp: add_to_list_def Let_def split: if_splits)
  have u: "nb \<in> ri_hash ` set rs" "map ri_hash l = map ri_hash rs"
    "\<forall>r \<in> set l. r \<in> set rs \<or> ri_hash r = nb \<and> ri_distance r = d"
    "\<not> resort \<Longrightarrow> map ri_distance l = map ri_distance rs"
    using update_route_Inl [OF Inl [unfolded p]] by auto
  have "ri_hash ` set rs' = ri_hash ` set rs"
    using u(2) rs' by (metis list.set_map set_sortRoutes)
  moreover have "sorted (map ri_distance rs')"
    using u(4) rs' assms(2) sorted_sortRoutes by auto
  moreover have "set rs' = set l" by (simp add: rs')
  ultimately show ?thesis using u(1,3) res by (simp add: insert_absorb)
next
  case (Inr exist)
  let ?r = "\<lparr>ri_session = ses, ri_hash = nb, ri_expireAt = (if isOld then Some e else None), ri_distance = d\<rparr>"
  have ex: "exist \<longleftrightarrow> nb \<in> ri_hash ` set rs" by (rule update_route_Inr [OF Inr])
  have res: "res = New \<longleftrightarrow> \<not> exist"
    and rs': "rs' = (if \<not> exist \<or> isNew then sortRoutes (rs @ [?r]) else rs)"
    using assms(1) Inr by (auto simp: add_to_list_def Let_def split: if_splits)
  show ?thesis
  proof (cases "\<not> exist \<or> isNew")
    case True
    then have "set rs' = insert ?r (set rs)" "sorted (map ri_distance rs')"
      using rs' sorted_sortRoutes by auto
    then show ?thesis using res ex by (simp add: insert_commute)
  next
    case False
    then show ?thesis using rs' res ex assms(2) by (simp add: insert_absorb)
  qed
qed

section \<open>Every operation keeps the invariant\<close>

lemma routes_add_cases:
  assumes "routes_add now s from nb tgt d ses rses = (res, s')"
  obtains isNew isOld isRem list2 rem' ses' sched where
    "add_to_list (now + rt_retention s) isNew isOld isRem nb (if nb = tgt \<and> from = rt_me s then -1 else d) ses
       ((if isNew then mark_old (now + rt_retention s) else id)
          (case findNeighbor s from tgt of None \<Rightarrow> [] | Some p \<Rightarrow> rt_list p)) = (res, list2)"
    and "s' = s\<lparr>rt_routes := jm_set (rt_routes s) from
           (jm_set (case jm_get (rt_routes s) from of None \<Rightarrow> [] | Some m \<Rightarrow> m) tgt
             \<lparr>remoteSession = rem', rt_session = ses', rt_list = list2\<rparr>), rt_scheduled := sched\<rparr>"
    and "ses \<le> ses'" and "rses \<le> rem'"
    and "\<And>p. findNeighbor s from tgt = Some p \<Longrightarrow> rt_session p \<le> ses'"
proof -
  define fm where "fm = (case jm_get (rt_routes s) from of None \<Rightarrow> [] | Some m \<Rightarrow> m)"
  have f: "findNeighbor s from tgt = jm_get fm tgt"
    by (simp add: findNeighbor_def fm_def split: option.splits)
  show thesis
  proof (cases "jm_get fm tgt")
    case None
    with assms f show ?thesis
      unfolding routes_add_def Let_def fm_def [symmetric]
      by (auto simp: mark_old_def fm_def [symmetric] split: prod.splits intro!: that [where isNew = True and isOld = False and isRem = False and sched = "rt_scheduled s"] routes.equality)
  next
    case (Some p)
    with assms f show ?thesis
      unfolding routes_add_def Let_def fm_def [symmetric]
      by (auto simp: fm_def [symmetric] split: prod.splits
          intro!: that [where isNew = "ses > rt_session p" and isOld = "ses < rt_session p" and
            isRem = "rses > or_minus_one (remoteSession p)"])
  qed
qed

lemma add_find:
  assumes "jm_get (rt_routes s') = (jm_get (rt_routes s))(f := Some m)"
    and "\<And>t'. t' \<noteq> t \<Longrightarrow> jm_get m t' = (case jm_get (rt_routes s) f of None \<Rightarrow> None | Some m \<Rightarrow> jm_get m t')"
    and "jm_get m t = Some info"
  shows "findNeighbor s' f' t' = (if f' = f \<and> t' = t then Some info else findNeighbor s f' t')"
  using assms by (auto simp: findNeighbor_def)

lemma routes_add_ok:
  assumes "routes_ok s" and add: "routes_add now s from nb tgt d ses rses = (res, s')"
  shows "routes_ok s'"
  using add
proof (rule routes_add_cases)
  fix isNew isOld isRem list2 rem' ses' sched
  let ?prev = "case findNeighbor s from tgt of None \<Rightarrow> [] | Some p \<Rightarrow> rt_list p"
  let ?l1 = "(if isNew then mark_old (now + rt_retention s) else id) ?prev"
  let ?d = "if nb = tgt \<and> from = rt_me s then -1 else d"
  let ?m = "case jm_get (rt_routes s) from of None \<Rightarrow> [] | Some m \<Rightarrow> m"
  assume l2: "add_to_list (now + rt_retention s) isNew isOld isRem nb ?d ses ?l1 = (res, list2)"
    and s': "s' = s\<lparr>rt_routes := jm_set (rt_routes s) from (jm_set ?m tgt
             \<lparr>remoteSession = rem', rt_session = ses', rt_list = list2\<rparr>), rt_scheduled := sched\<rparr>"
  have prev: "sorted (map ri_distance ?prev)"
    "from = rt_me s \<Longrightarrow> \<forall>r \<in> set ?prev. ri_hash r = tgt \<longrightarrow> ri_distance r = -1"
    using routes_ok_find [OF assms(1), of "from" tgt]
    by (cases "findNeighbor s from tgt"; simp add: info_ok_def)+
  have l1: "sorted (map ri_distance ?l1)"
    "from = rt_me s \<Longrightarrow> \<forall>r \<in> set ?l1. ri_hash r = tgt \<longrightarrow> ri_distance r = -1"
    using prev by (cases isNew; simp; fastforce simp: mark_old_def)+
  have "info_ok (from = rt_me s) tgt \<lparr>remoteSession = rem', rt_session = ses', rt_list = list2\<rparr>"
    using add_to_list_spec [OF l2 l1(1)] l1(2) by (auto simp: info_ok_def)
  moreover have "targets_ok (from = rt_me s) ?m"
    using routes_ok_get [OF assms(1)] by (auto split: option.splits)
  ultimately have "targets_ok (from = rt_me s) (jm_set ?m tgt \<lparr>remoteSession = rem', rt_session = ses', rt_list = list2\<rparr>)"
    by (intro targets_ok_set)
  then show "routes_ok s'" unfolding s' routes_ok_other by (rule routes_ok_set [OF assms(1)])
qed

lemma cleanup_ok: "routes_ok s \<Longrightarrow> routes_ok (cleanup now s from to)"
  unfolding cleanup_def Let_def
  by (auto split: option.splits intro!: routes_ok_set routes_ok_delete targets_ok_set targets_ok_delete
      info_ok_filter intro: routes_ok_get targets_ok_get simp: filter_empty_conv)

lemma drop_neighbour_ok: "targets_ok mine m \<Longrightarrow> targets_ok mine (drop_neighbour h m)"
  unfolding drop_neighbour_def drop_hash_def targets_ok_def
  by (auto simp: comp_def case_prod_beta jm_ok_def filter_map intro!: info_ok_filter distinct_filter
      intro: distinct_map_filter)

lemma strip_ok:
  assumes "routes_ok s" and "\<And>mine m. targets_ok mine m \<Longrightarrow> targets_ok mine (g m)"
  shows "routes_ok (s\<lparr>rt_routes := map (\<lambda>(k, m). (k, g m)) (rt_routes s)\<rparr>)"
  using assms by (auto simp: routes_ok_def jm_ok_def comp_def case_prod_beta)

lemma routes_remove_ok: "routes_ok s \<Longrightarrow> routes_ok (snd (routes_remove s target))"
proof -
  assume "routes_ok s"
  from strip_ok [OF routes_ok_delete [OF this, of target], of "\<lambda>m. drop_neighbour target (jm_delete m target)"]
  have "routes_ok (s\<lparr>rt_routes := map (\<lambda>(k, m). (k, drop_neighbour target (jm_delete m target))) (jm_delete (rt_routes s) target)\<rparr>)"
    by (simp add: drop_neighbour_ok targets_ok_delete)
  then show ?thesis by (auto simp: routes_remove_def Let_def routes_ok_def)
qed

lemma removeNeighbour_ok: "routes_ok s \<Longrightarrow> routes_ok (removeNeighbour s nb)"
  using strip_ok [OF routes_ok_delete, of s "drop_neighbour nb" nb]
  by (simp add: removeNeighbour_def drop_neighbour_ok)

lemma updateSession_ok: "routes_ok s \<Longrightarrow> routes_ok (snd (updateSession s remote ses))"
  by (simp add: updateSession_def split: option.splits)

lemma routes_step_ok: "routes_step s s' \<Longrightarrow> routes_ok s \<Longrightarrow> routes_ok s'"
  by (induction rule: routes_step.induct)
    (auto simp: routes_clear_def intro: routes_add_ok [OF _ surjective_pairing] cleanup_ok routes_remove_ok
      removeNeighbour_ok updateSession_ok)

section \<open>Fanout\<close>

definition fan :: "fanout \<Rightarrow> string \<Rightarrow> string \<Rightarrow> bool" where
  "fan F n to = (case jm_get F n of None \<Rightarrow> False | Some m \<Rightarrow> jm_has m to)"

lemma fan_Nil [simp]: "\<not> fan [] n to"
  by (simp add: fan_def)

lemma fan_fan_add [simp]: "fan (fan_add F n to ses) n' to' = (n' = n \<and> to' = to \<or> fan F n' to')"
  by (auto simp: fan_def fan_add_def jm_has_def split: option.splits)

text \<open>A target is sent through routes of its list closer than the redundancy, what was in the map
  stays, and \<open>foundClosest\<close> means that a route of distance at most 0 was used.\<close>

lemma fanout_list_spec:
  assumes "fanout_list relaying redundancy nses to rs fp added fc F = (fc', F')"
  shows "(\<forall>n t. fan F' n t \<longrightarrow> fan F n t \<or>
            t = to \<and> (\<exists>r \<in> set rs. ri_hash r = n \<and> ri_distance r < redundancy)) \<and>
    (\<forall>n t. fan F n t \<longrightarrow> fan F' n t) \<and>
    (fc' \<longrightarrow> fc \<or> (\<exists>r \<in> set rs. ri_distance r \<le> 0 \<and> fan F' (ri_hash r) to))"
  using assms
proof (induction rs arbitrary: fp added fc F)
  case (Cons r rs)
  show ?case
  proof (cases "expires (ri_expireAt r) \<and> \<not> relaying \<and> fp = ri_distance r")
    case True
    with Cons.prems have "fanout_list relaying redundancy nses to rs fp added fc F = (fc', F')" by simp
    from Cons.IH [OF this] show ?thesis by auto
  next
    case skip: False
    show ?thesis
    proof (cases "ri_distance r \<ge> redundancy")
      case True
      with skip Cons.prems show ?thesis by auto
    next
      case False
      let ?F = "fan_add F (ri_hash r) to (ri_session r)"
      let ?fc = "fc \<or> ri_distance r \<le> 0 \<and> ri_session r \<le> nses"
      consider "fc' = ?fc" "F' = ?F"
        | fp' added' where "fanout_list relaying redundancy nses to rs fp' added' ?fc ?F = (fc', F')"
        using Cons.prems skip False
        by (simp only: fanout_list.simps Let_def if_False) (metis prod.inject)
      then show ?thesis
      proof cases
        case 1
        with False show ?thesis by auto
      next
        case 2
        from Cons.IH [OF this] False show ?thesis
          by auto
      qed
    qed
  qed
qed simp

lemma fanout_tos_spec:
  assumes "fanout_tos s from redundancy tos F = Some F'"
  shows "(\<forall>n t. fan F' n t \<longrightarrow> fan F n t \<or>
       t \<in> set tos \<and> t \<noteq> rt_me s \<and> t \<noteq> from \<and>
       (\<exists>info. findNeighbor s from t = Some info \<and>
          (\<exists>r \<in> set (rt_list info). ri_hash r = n \<and> ri_distance r < redundancy))) \<and>
    (\<forall>n t. fan F n t \<longrightarrow> fan F' n t) \<and>
    (from = rt_me s \<longrightarrow> (\<forall>t \<in> set tos. t \<noteq> rt_me s \<longrightarrow>
       (\<exists>info. findNeighbor s from t = Some info \<and>
          (\<exists>r \<in> set (rt_list info). ri_distance r \<le> 0 \<and> fan F' (ri_hash r) t))))"
  using assms
proof (induction tos arbitrary: F)
  case (Cons to tos)
  show ?case
  proof (cases "to = rt_me s \<or> from = to")
    case True
    with Cons.prems have "fanout_tos s from redundancy tos F = Some F'" by simp
    from Cons.IH [OF this] True show ?thesis by fastforce
  next
    case False
    with Cons.prems obtain info fc F1 where info: "findNeighbor s from to = Some info"
      and l: "fanout_list (from \<noteq> rt_me s) redundancy (rt_session info) to (rt_list info) (-2) 0 False F = (fc, F1)"
      and fc: "from = rt_me s \<Longrightarrow> fc"
      and rest: "fanout_tos s from redundancy tos F1 = Some F'"
      by (auto split: option.splits prod.splits if_splits)
    note L = fanout_list_spec [OF l] and R = Cons.IH [OF rest]
    have a: "\<forall>n t. fan F' n t \<longrightarrow> fan F n t \<or>
       t \<in> set (to # tos) \<and> t \<noteq> rt_me s \<and> t \<noteq> from \<and>
       (\<exists>info. findNeighbor s from t = Some info \<and>
          (\<exists>r \<in> set (rt_list info). ri_hash r = n \<and> ri_distance r < redundancy))"
    proof (intro allI impI)
      fix n t assume "fan F' n t"
      then consider "fan F1 n t" | "t \<in> set tos" "t \<noteq> rt_me s" "t \<noteq> from"
          "\<exists>info. findNeighbor s from t = Some info \<and> (\<exists>r \<in> set (rt_list info). ri_hash r = n \<and> ri_distance r < redundancy)"
        using R by blast
      then show "fan F n t \<or> t \<in> set (to # tos) \<and> t \<noteq> rt_me s \<and> t \<noteq> from \<and>
       (\<exists>info. findNeighbor s from t = Some info \<and>
          (\<exists>r \<in> set (rt_list info). ri_hash r = n \<and> ri_distance r < redundancy))"
      proof cases
        case 1
        with L info False show ?thesis by (metis list.set_intros(1))
      next
        case 2
        then show ?thesis by simp
      qed
    qed
    have b: "\<forall>n t. fan F n t \<longrightarrow> fan F' n t" using L R by blast
    have c: "from = rt_me s \<longrightarrow> (\<exists>r \<in> set (rt_list info). ri_distance r \<le> 0 \<and> fan F' (ri_hash r) to)"
      using L R fc by blast
    show ?thesis using a b c R info by auto
  qed
qed simp

section \<open>Removal\<close>

lemma drop_neighbour_get:
  "jm_ok m \<Longrightarrow> jm_get (drop_neighbour h m) t =
     (case jm_get m t of None \<Rightarrow> None
      | Some info \<Rightarrow> if rt_list (drop_hash h info) = [] then None else Some (drop_hash h info))"
  by (auto simp: drop_neighbour_def jm_get_filter jm_get_map_values split: option.splits)

lemma routes_ok_jm:
  "routes_ok s \<Longrightarrow> jm_ok (rt_routes s)"
  "routes_ok s \<Longrightarrow> jm_get (rt_routes s) f = Some m \<Longrightarrow> jm_ok m"
  using routes_ok_get by (auto simp: routes_ok_def targets_ok_def)

lemma find_remove:
  assumes "routes_ok s"
  shows "findNeighbor (snd (routes_remove s target)) f t =
    (if f = target \<or> t = target then None
     else case findNeighbor s f t of None \<Rightarrow> None
          | Some info \<Rightarrow> if rt_list (drop_hash target info) = [] then None else Some (drop_hash target info))"
proof -
  have "findNeighbor (snd (routes_remove s target)) f t = (if f = target then None else
     case jm_get (rt_routes s) f of None \<Rightarrow> None | Some m \<Rightarrow> jm_get (drop_neighbour target (jm_delete m target)) t)"
    using routes_ok_jm(1) [OF assms]
    by (auto simp: findNeighbor_def routes_remove_def Let_def jm_get_filter jm_get_map_values split: option.splits)
  then show ?thesis
    using routes_ok_jm(2) [OF assms] by (auto simp: findNeighbor_def drop_neighbour_get split: option.splits)
qed

lemma find_removeNeighbour:
  assumes "routes_ok s"
  shows "findNeighbor (removeNeighbour s nb) f t =
    (if f = nb then None
     else case findNeighbor s f t of None \<Rightarrow> None
          | Some info \<Rightarrow> if rt_list (drop_hash nb info) = [] then None else Some (drop_hash nb info))"
  using routes_ok_jm [OF assms]
  by (auto simp: findNeighbor_def removeNeighbour_def jm_get_map_values drop_neighbour_get split: option.splits)

text \<open>The targets \<open>remove\<close> reports before filtering are those this node loses its route to.\<close>

lemma remove_reported:
  assumes "routes_ok s" and "target \<noteq> rt_me s"
  shows "set (fst (routes_remove s target)) =
    {x. findNeighbor s (rt_me s) x \<noteq> None \<and> findNeighbor (snd (routes_remove s target)) (rt_me s) x = None}"
proof (cases "jm_get (rt_routes s) (rt_me s)")
  case None
  with assms show ?thesis by (simp add: routes_remove_def findNeighbor_def Let_def jm_has_def)
next
  case (Some m)
  have m: "jm_ok m" using routes_ok_jm [OF assms(1)] Some by blast
  let ?s' = "snd (routes_remove s target)"
  have e: "x \<in> fst ` set (filter (\<lambda>(_, info). rt_list (drop_hash target info) = []) (jm_delete m target)) \<longleftrightarrow>
    x \<noteq> target \<and> (\<exists>info. jm_get m x = Some info \<and> rt_list (drop_hash target info) = [])" for x
    using jm_get_in_set [OF m] by (force simp: set_jm_delete)
  have me: "findNeighbor s (rt_me s) = jm_get m" using Some by (simp add: findNeighbor_def fun_eq_iff)
  have gone: "\<not> isReachable ?s' (rt_me s) x D" if "findNeighbor ?s' (rt_me s) x = None" for x D
    using that by (simp add: isReachable_def)
  have lost: "findNeighbor s (rt_me s) x \<noteq> None \<and> findNeighbor ?s' (rt_me s) x = None \<longleftrightarrow>
    (x = target \<and> jm_has m target \<or> x \<noteq> target \<and> (\<exists>info. jm_get m x = Some info \<and> rt_list (drop_hash target info) = []))" for x
    using assms(2) by (cases "jm_get m x") (auto simp: find_remove [OF assms(1)] me jm_has_def)
  have "set (fst (routes_remove s target)) = {x. \<not> isReachable ?s' (rt_me s) x MAX_ROUTE_DISTANCE \<and>
     (x = target \<and> jm_has m target \<or> x \<noteq> target \<and> (\<exists>info. jm_get m x = Some info \<and> rt_list (drop_hash target info) = []))}"
    using Some assms(2) e by (auto simp: routes_remove_def Let_def)
  also have "\<dots> = {x. findNeighbor s (rt_me s) x \<noteq> None \<and> findNeighbor ?s' (rt_me s) x = None}"
  proof (rule Collect_cong)
    fix x
    show "(\<not> isReachable ?s' (rt_me s) x MAX_ROUTE_DISTANCE \<and>
      (x = target \<and> jm_has m target \<or> x \<noteq> target \<and> (\<exists>info. jm_get m x = Some info \<and> rt_list (drop_hash target info) = []))) =
      (findNeighbor s (rt_me s) x \<noteq> None \<and> findNeighbor ?s' (rt_me s) x = None)"
      using lost [of x] gone [of x MAX_ROUTE_DISTANCE] by argo
  qed
  finally show ?thesis .
qed

section \<open>Properties\<close>

text \<open>(C24) In every state a table reaches, by additions, scheduled or aborted cleanups, removals and
  session updates in any order, the list of every target is non-empty and ordered by distance, as
  \<open>getFanout\<close> and \<open>isReachable\<close> rely on, and this node's routes to its own neighbours have distance -1.\<close>

theorem routes_invariant:
  assumes "routes_step\<^sup>*\<^sup>* (new_Routes me ret) s" and "findNeighbor s from target = Some info"
  shows "rt_list info \<noteq> [] \<and> sorted (map ri_distance (rt_list info)) \<and>
    (from = rt_me s \<longrightarrow> (\<forall>r \<in> set (rt_list info). ri_hash r = target \<longrightarrow> ri_distance r = -1))"
proof -
  have "routes_ok s"
    using assms(1)
  proof (induction rule: rtranclp_induct)
    case base
    then show ?case by (simp add: new_Routes_def routes_ok_def)
  next
    case (step y z)
    then show ?case by (simp add: routes_step_ok)
  qed
  from routes_ok_find [OF this assms(2)] show ?thesis by (simp add: info_ok_def)
qed

definition routes_ex :: routes where
  "routes_ex = (let s0 = new_Routes ''a'' None;
     s1 = snd (routes_add 0 s0 ''a'' ''b'' ''b'' 5 1 1);
     s2 = snd (routes_add 0 s1 ''a'' ''b'' ''c'' 0 1 1)
   in snd (updateSession s2 ''c'' (Some 1)))"

lemma routes_ex_reachable: "routes_step\<^sup>*\<^sup>* (new_Routes ''a'' None) routes_ex"
  unfolding routes_ex_def Let_def
  by (rule rtranclp.rtrancl_into_rtrancl, rule rtranclp.rtrancl_into_rtrancl,
      rule rtranclp.rtrancl_into_rtrancl, rule rtranclp.rtrancl_refl, rule step_add, rule step_add,
      rule step_updateSession)

lemma routes_ex_ok: "routes_ok routes_ex"
proof -
  have "routes_ok (new_Routes ''a'' None)" by (simp add: new_Routes_def routes_ok_def)
  with routes_ex_reachable show ?thesis
    by (induction rule: rtranclp_induct) (auto intro: routes_step_ok)
qed

lemma routes_ex_find:
  "findNeighbor routes_ex ''a'' ''b'' = Some \<lparr>remoteSession = 1, rt_session = 1,
     rt_list = [\<lparr>ri_session = 1, ri_hash = ''b'', ri_expireAt = None, ri_distance = -1\<rparr>]\<rparr>"
  "findNeighbor routes_ex ''a'' ''c'' = Some \<lparr>remoteSession = 1, rt_session = 1,
     rt_list = [\<lparr>ri_session = 1, ri_hash = ''b'', ri_expireAt = None, ri_distance = 0\<rparr>]\<rparr>"
  by code_simp+

theorem routes_invariant_witness:
  "\<exists>info. findNeighbor routes_ex ''a'' ''b'' = Some info \<and> sorted (map ri_distance (rt_list info)) \<and>
     rt_list info \<noteq> []"
  using routes_invariant [OF routes_ex_reachable routes_ex_find(1)] routes_ex_find(1) by blast

text \<open>(C27) The fanout of a message: every neighbour it names for a target is a route of the table to
  that target closer than the redundancy, never towards this node or back to the sender, and for
  a message of this node every other target is sent through a route of distance at most 0.\<close>

theorem getFanout_covers:
  assumes "getFanout s from tos redundancy = Some F"
  shows "(\<forall>n t. fan F n t \<longrightarrow> t \<in> set tos \<and> t \<noteq> rt_me s \<and> t \<noteq> from \<and>
      (\<exists>info. findNeighbor s from t = Some info \<and>
         (\<exists>r \<in> set (rt_list info). ri_hash r = n \<and> ri_distance r < redundancy))) \<and>
    (from = rt_me s \<longrightarrow> (\<forall>t \<in> set tos. t \<noteq> rt_me s \<longrightarrow>
      (\<exists>info. findNeighbor s from t = Some info \<and>
         (\<exists>r \<in> set (rt_list info). ri_distance r \<le> 0 \<and> fan F (ri_hash r) t))))"
  using assms fanout_tos_spec [of s "from" redundancy tos "[]" F]
  by (simp add: getFanout_def split: if_splits)

theorem getFanout_covers_witness:
  "\<exists>F. getFanout routes_ex ''a'' [''c''] 2 = Some F \<and>
     (\<exists>r :: relayInfo. ri_distance r \<le> 0 \<and> fan F (ri_hash r) ''c'')"
proof -
  have F: "getFanout routes_ex ''a'' [''c''] 2 = Some [(''b'', [(''c'', 1)])]" by code_simp
  have me: "rt_me routes_ex = ''a''" by code_simp
  have "\<exists>info. findNeighbor routes_ex ''a'' ''c'' = Some info \<and>
      (\<exists>r \<in> set (rt_list info). ri_distance r \<le> 0 \<and> fan [(''b'', [(''c'', 1)])] (ri_hash r) ''c'')"
    using getFanout_covers [OF F, THEN conjunct2] me by simp
  with F show ?thesis by blast
qed

text \<open>\<open>add\<close> records the route: the neighbour is in the list of the target (which grew by it and by
  nothing else), sessions only advance, \<open>new\<close> is answered exactly when there was no route through
  this neighbour, every other pair of origin and target is untouched, and a direct neighbour of
  this node comes first.\<close>

theorem routes_add_effect:
  assumes "routes_ok s" and "routes_add now s from nb tgt d ses rses = (res, s')"
  shows "\<exists>info. findNeighbor s' from tgt = Some info \<and>
    (let old = (case findNeighbor s from tgt of None \<Rightarrow> [] | Some p \<Rightarrow> rt_list p) in
      ri_hash ` set (rt_list info) = insert nb (ri_hash ` set old) \<and>
      (res = New \<longleftrightarrow> nb \<notin> ri_hash ` set old) \<and>
      (from = rt_me s \<and> nb = tgt \<and> (\<forall>r \<in> set (rt_list info). -1 \<le> ri_distance r) \<longrightarrow>
         ri_distance (hd (rt_list info)) = -1)) \<and>
    ses \<le> rt_session info \<and> rses \<le> remoteSession info \<and>
    (\<forall>p. findNeighbor s from tgt = Some p \<longrightarrow> rt_session p \<le> rt_session info) \<and>
    (\<forall>f t. (f, t) \<noteq> (from, tgt) \<longrightarrow> findNeighbor s' f t = findNeighbor s f t)"
  using assms(2)
proof (rule routes_add_cases)
  fix isNew isOld isRem list2 rem' ses' sched
  let ?prev = "case findNeighbor s from tgt of None \<Rightarrow> [] | Some p \<Rightarrow> rt_list p"
  let ?l1 = "(if isNew then mark_old (now + rt_retention s) else id) ?prev"
  let ?m = "case jm_get (rt_routes s) from of None \<Rightarrow> [] | Some m \<Rightarrow> m"
  let ?info = "\<lparr>remoteSession = rem', rt_session = ses', rt_list = list2\<rparr>"
  assume l2: "add_to_list (now + rt_retention s) isNew isOld isRem nb
      (if nb = tgt \<and> from = rt_me s then -1 else d) ses ?l1 = (res, list2)"
    and s': "s' = s\<lparr>rt_routes := jm_set (rt_routes s) from (jm_set ?m tgt ?info), rt_scheduled := sched\<rparr>"
    and le: "ses \<le> ses'" "rses \<le> rem'" "\<And>p. findNeighbor s from tgt = Some p \<Longrightarrow> rt_session p \<le> ses'"
  have find: "findNeighbor s' f t = (if f = from \<and> t = tgt then Some ?info else findNeighbor s f t)" for f t
    by (rule add_find [of _ _ _ "jm_set ?m tgt ?info"]) (auto simp: s' split: option.splits)
  have "map ri_hash ?l1 = map ri_hash ?prev" "map ri_distance ?l1 = map ri_distance ?prev" by simp_all
  then have h: "ri_hash ` set ?l1 = ri_hash ` set ?prev" by (metis list.set_map)
  have "sorted (map ri_distance ?prev)"
    using routes_ok_find [OF assms(1)] by (simp add: info_ok_def split: option.split)
  then have spec: "nb \<in> ri_hash ` set list2" "res = New \<longleftrightarrow> nb \<notin> ri_hash ` set ?prev"
     "ri_hash ` set list2 = insert nb (ri_hash ` set ?prev)"
    using add_to_list_spec [OF l2] unfolding h by simp_all
  have ok: "info_ok (from = rt_me s') tgt ?info"
    using routes_ok_find [OF routes_add_ok [OF assms], of "from" tgt ?info] find by simp
  have hd1: "ri_distance (hd list2) = -1"
    if dir: "from = rt_me s" "nb = tgt" "\<forall>r \<in> set list2. -1 \<le> ri_distance r"
  proof -
    have me: "rt_me s' = rt_me s" by (simp add: s')
    obtain r where "r \<in> set list2" "ri_distance r = -1"
      using spec(1) ok dir(1,2) by (auto simp: info_ok_def me)
    moreover have "\<forall>r \<in> set list2. ri_distance (hd list2) \<le> ri_distance r" "list2 \<noteq> []"
      using ok by (auto simp: info_ok_def neq_Nil_conv)
    ultimately show ?thesis using dir(3) by (metis hd_in_set order_antisym)
  qed
  show ?thesis
    using find [of "from" tgt] find spec(2,3) hd1 le by (intro exI [of _ ?info]) (simp add: Let_def)
qed

theorem routes_add_effect_witness:
  "let (res, s') = routes_add 7 routes_ex ''a'' ''c'' ''c'' 3 2 2 in
     res = New \<and> (\<exists>info. findNeighbor s' ''a'' ''c'' = Some info \<and> ''c'' \<in> ri_hash ` set (rt_list info))"
proof -
  have f: "fst (routes_add 7 routes_ex ''a'' ''c'' ''c'' 3 2 2) = New" by code_simp
  show ?thesis
    using routes_add_effect [OF routes_ex_ok surjective_pairing, of 7 "''a''" "''c''" "''c''" 3 2 2] f
    by (auto simp: Let_def case_prod_beta)
qed

text \<open>After \<open>remove\<close> nothing of the table mentions the peer: it is no origin, no target and no
  neighbour. The result lists exactly the targets this node had a route to and has none now, and
  every peer that was reachable from this node and no longer is, is in it.\<close>

theorem routes_remove_effect:
  assumes "routes_ok s" and "target \<noteq> rt_me s"
    and "\<forall>t info. findNeighbor s (rt_me s) t = Some info \<longrightarrow>
           (\<forall>r \<in> set (rt_list info). ri_distance r \<le> MAX_ROUTE_DISTANCE)"
    and "routes_remove s target = (unreachable, s')"
  shows "(\<forall>f t info. findNeighbor s' f t = Some info \<longrightarrow>
      f \<noteq> target \<and> t \<noteq> target \<and> (\<forall>r \<in> set (rt_list info). ri_hash r \<noteq> target)) \<and>
    set unreachable = {x. findNeighbor s (rt_me s) x \<noteq> None \<and> findNeighbor s' (rt_me s) x = None} \<and>
    (\<forall>x. isReachable s (rt_me s) x MAX_ROUTE_DISTANCE \<and> \<not> isReachable s' (rt_me s) x MAX_ROUTE_DISTANCE \<longrightarrow>
      x \<in> set unreachable)"
proof -
  have s': "snd (routes_remove s target) = s'" and u: "fst (routes_remove s target) = unreachable"
    using assms(4) by simp_all
  note find = find_remove [OF assms(1), of target, unfolded s']
  note rep = remove_reported [OF assms(1,2), unfolded s' u]
  have rem: "rt_remoteInfo s' = jm_delete (rt_remoteInfo s) target"
    by (simp add: s' [symmetric] routes_remove_def Let_def)
  have "isReachable s' (rt_me s) x MAX_ROUTE_DISTANCE"
    if r: "isReachable s (rt_me s) x MAX_ROUTE_DISTANCE" and x: "findNeighbor s' (rt_me s) x \<noteq> None" for x
  proof -
    obtain info' where info': "findNeighbor s' (rt_me s) x = Some info'" using x by blast
    then obtain info where info: "findNeighbor s (rt_me s) x = Some info" "x \<noteq> target"
        "info' = drop_hash target info" "rt_list info' \<noteq> []"
      by (auto simp: find split: option.splits if_splits)
    then have "ri_distance (hd (rt_list info')) \<le> MAX_ROUTE_DISTANCE"
      using assms(3) list.set_sel(1) [of "rt_list info'"] by (auto simp: drop_hash_def)
    with r info info' show ?thesis
      by (auto simp: isReachable_def rem drop_hash_def split: option.splits if_splits list.splits)
  qed
  moreover have "findNeighbor s (rt_me s) x \<noteq> None" if "isReachable s (rt_me s) x D" for x D
    using that by (auto simp: isReachable_def split: option.splits)
  ultimately have "\<forall>x. isReachable s (rt_me s) x MAX_ROUTE_DISTANCE \<and>
      \<not> isReachable s' (rt_me s) x MAX_ROUTE_DISTANCE \<longrightarrow> x \<in> set unreachable"
    unfolding rep by blast
  moreover have "f \<noteq> target \<and> t \<noteq> target \<and> (\<forall>r \<in> set (rt_list info). ri_hash r \<noteq> target)"
    if "findNeighbor s' f t = Some info" for f t info
    using that by (auto simp: find drop_hash_def split: option.splits if_splits)
  ultimately show ?thesis using rep by blast
qed

lemma routes_ex_routes:
  "rt_me routes_ex = ''a''"
  "rt_routes routes_ex = [(''a'', [
     (''b'', \<lparr>remoteSession = 1, rt_session = 1,
        rt_list = [\<lparr>ri_session = 1, ri_hash = ''b'', ri_expireAt = None, ri_distance = -1\<rparr>]\<rparr>),
     (''c'', \<lparr>remoteSession = 1, rt_session = 1,
        rt_list = [\<lparr>ri_session = 1, ri_hash = ''b'', ri_expireAt = None, ri_distance = 0\<rparr>]\<rparr>)])]"
  by code_simp+

theorem routes_remove_effect_witness:
  "\<exists>un s'. routes_remove routes_ex ''b'' = (un, s') \<and> ''c'' \<in> set un \<and>
     isReachable routes_ex ''a'' ''c'' MAX_ROUTE_DISTANCE \<and> \<not> isReachable s' ''a'' ''c'' MAX_ROUTE_DISTANCE"
proof -
  obtain un s' where r: "routes_remove routes_ex ''b'' = (un, s')" by (cases "routes_remove routes_ex ''b''")
  have d: "\<forall>t info. findNeighbor routes_ex (rt_me routes_ex) t = Some info \<longrightarrow>
      (\<forall>x \<in> set (rt_list info). ri_distance x \<le> MAX_ROUTE_DISTANCE)"
    by (auto simp: findNeighbor_def routes_ex_routes MAX_ROUTE_DISTANCE_def MAX_SAFE_INTEGER_def split: if_splits)
  have me: "''b'' \<noteq> rt_me routes_ex" by (simp add: routes_ex_routes)
  have reach: "isReachable routes_ex ''a'' ''c'' MAX_ROUTE_DISTANCE" by code_simp
  have "\<not> isReachable (snd (routes_remove routes_ex ''b'')) ''a'' ''c'' MAX_ROUTE_DISTANCE" by code_simp
  then have unreach: "\<not> isReachable s' ''a'' ''c'' MAX_ROUTE_DISTANCE" by (simp add: r)
  from routes_remove_effect [OF routes_ex_ok me d r, unfolded routes_ex_routes(1)] reach unreach
  have "''c'' \<in> set un" by blast
  with r reach unreach show ?thesis by blast
qed

text \<open>Pruning is safe while no list names a neighbour twice: after dropping a neighbour that
  \<open>getPrunable\<close> returned, this node still has a route to every other target it had one to.\<close>

theorem getPrunable_safe:
  assumes "routes_ok s" and "candidate \<in> set (getPrunable s neighbours)" and "candidate \<noteq> rt_me s"
    and "\<forall>t info. findNeighbor s (rt_me s) t = Some info \<longrightarrow> distinct (map ri_hash (rt_list info))"
    and "findNeighbor s (rt_me s) t \<noteq> None" and "t \<noteq> candidate"
  shows "findNeighbor (removeNeighbour s candidate) (rt_me s) t \<noteq> None"
proof -
  obtain m info where m: "jm_get (rt_routes s) (rt_me s) = Some m" and info: "jm_get m t = Some info"
    using assms(5) by (auto simp: findNeighbor_def split: option.splits)
  have find: "findNeighbor s (rt_me s) t = Some info" using m info by (simp add: findNeighbor_def)
  have ne: "rt_list info \<noteq> []" using routes_ok_find [OF assms(1) find] by (simp add: info_ok_def)
  have single: "\<not> (length (rt_list info) = 1 \<and> ri_hash (hd (rt_list info)) = candidate)"
    using assms(2,6) m map_of_SomeD [OF info] by (fastforce simp: getPrunable_def list_ex_iff)
  have "rt_list (drop_hash candidate info) \<noteq> []"
  proof
    assume "rt_list (drop_hash candidate info) = []"
    then have all: "\<forall>r \<in> set (rt_list info). ri_hash r = candidate"
      by (simp add: drop_hash_def filter_empty_conv)
    have "set (map ri_hash (rt_list info)) \<subseteq> {candidate}" using all by auto
    then have "card (set (map ri_hash (rt_list info))) \<le> 1"
      using card_mono [of "{candidate}"] by fastforce
    then have "length (rt_list info) \<le> 1"
      using assms(4) find distinct_card [of "map ri_hash (rt_list info)"] by auto
    then have "length (rt_list info) = 1" using ne by (cases "rt_list info") auto
    with single all ne show False by simp
  qed
  with find assms(1,3) show ?thesis by (simp add: find_removeNeighbour)
qed

definition routes_ex2 :: routes where
  "routes_ex2 = snd (routes_add 0 routes_ex ''a'' ''d'' ''c'' 1 1 1)"

lemma routes_ex2_ok: "routes_ok routes_ex2"
  unfolding routes_ex2_def by (rule routes_add_ok [OF routes_ex_ok surjective_pairing])

lemma routes_ex2_routes:
  "rt_me routes_ex2 = ''a''"
  "rt_routes routes_ex2 = [(''a'', [
     (''b'', \<lparr>remoteSession = 1, rt_session = 1,
        rt_list = [\<lparr>ri_session = 1, ri_hash = ''b'', ri_expireAt = None, ri_distance = -1\<rparr>]\<rparr>),
     (''c'', \<lparr>remoteSession = 1, rt_session = 1,
        rt_list = [\<lparr>ri_session = 1, ri_hash = ''b'', ri_expireAt = None, ri_distance = 0\<rparr>,
                   \<lparr>ri_session = 1, ri_hash = ''d'', ri_expireAt = None, ri_distance = 1\<rparr>]\<rparr>)])]"
  by code_simp+

theorem getPrunable_safe_witness:
  "''b'' \<in> set (getPrunable routes_ex2 [''b'']) \<and> findNeighbor (removeNeighbour routes_ex2 ''b'') ''a'' ''c'' \<noteq> None"
proof -
  have p: "''b'' \<in> set (getPrunable routes_ex2 [''b''])" by code_simp
  have d: "\<forall>t info. findNeighbor routes_ex2 (rt_me routes_ex2) t = Some info \<longrightarrow> distinct (map ri_hash (rt_list info))"
    by (auto simp: findNeighbor_def routes_ex2_routes split: if_splits)
  have "findNeighbor (removeNeighbour routes_ex2 ''b'') (rt_me routes_ex2) ''c'' \<noteq> None"
    by (rule getPrunable_safe [OF routes_ex2_ok p _ d])
      (simp_all add: findNeighbor_def routes_ex2_routes)
  with p show ?thesis by (simp add: routes_ex2_routes)
qed

text \<open>Where a list does name a neighbour twice, \<open>getPrunable\<close> returns the only neighbour through
  which a target can be reached. The list gets there by a route announced in a later session at a
  longer distance: \<open>add\<close> keeps the old route and appends one with the same neighbour.\<close>

theorem getPrunable_duplicate_route:
  "let s = snd (routes_add 0 routes_ex ''a'' ''b'' ''c'' 1 2 1) in
     ''b'' \<in> set (getPrunable s [''b'']) \<and> findNeighbor s ''a'' ''c'' \<noteq> None \<and>
     findNeighbor (removeNeighbour s ''b'') ''a'' ''c'' = None"
  by code_simp

text \<open>Cleaning up the expired routes of one target can delete the valid routes to another one: the
  map of an origin is dropped when one target is left in it (\<open>size === 1\<close>) instead of none. Here
  the only route left to \<open>x\<close> has expired, the route to \<open>y\<close> never does, and the scheduled cleanup of
  \<open>x\<close> removes both.\<close>

theorem cleanup_drops_valid_route:
  "let s1 = snd (routes_add 0 (new_Routes ''a'' None) ''f'' ''n'' ''y'' 1 1 1);
       s2 = snd (routes_add 0 s1 ''f'' ''n'' ''x'' 1 1 1);
       s3 = snd (routes_add 0 s2 ''f'' ''m'' ''x'' 1 2 1);
       s4 = removeNeighbour s3 ''m'';
       s5 = cleanup 10100 (s4\<lparr>rt_scheduled := []\<rparr>) ''f'' ''x''
   in rt_scheduled s4 = [(''f'', ''x'')] \<and>
      map_option (\<lambda>i. map ri_expireAt (rt_list i)) (findNeighbor s4 ''f'' ''y'') = Some [None] \<and>
      findNeighbor s5 ''f'' ''y'' = None"
  by code_simp

text \<open>The order that \<open>sortRoutes\<close> promises, routes without expiry first at one distance, is lost
  when a route is confirmed at the distance it had: \<open>add\<close> clears its expiry without sorting. Then
  \<open>getFanout\<close> meets the expired route first and also sends on the old path, though a current one of
  the same distance exists; on the sorted list it does not.\<close>

theorem confirmed_route_not_resorted:
  "let s1 = snd (routes_add 0 (new_Routes ''a'' None) ''a'' ''b'' ''c'' 0 1 1);
       s2 = snd (routes_add 0 s1 ''a'' ''d'' ''c'' 0 1 1);
       s3 = snd (routes_add 0 s2 ''a'' ''d'' ''c'' 0 2 1);
       l = (case findNeighbor s3 ''a'' ''c'' of None \<Rightarrow> [] | Some i \<Rightarrow> rt_list i)
   in map ri_hash l = [''b'', ''d''] \<and> map ri_hash (sortRoutes l) = [''d'', ''b''] \<and>
      map_option jm_keys (getFanout s3 ''a'' [''c''] 1) = Some [''b'', ''d''] \<and>
      jm_keys (snd (fanout_list False 1 2 ''c'' (sortRoutes l) (-2) 0 False [])) = [''d'']"
  by code_simp

text \<open>A peer that announces a later session is unreachable until a route of that session arrives:
  after \<open>updateSession\<close> accepts the session, a target is reachable exactly through a route whose
  remote session is as late.\<close>

theorem updateSession_outdates_routes:
  assumes "updateSession s remote (Some ses) = (True, s')"
  shows "getSession s' remote = Some ses \<and>
    (isReachable s' from remote D \<longleftrightarrow>
       (\<exists>info. findNeighbor s from remote = Some info \<and> ses \<le> remoteSession info \<and>
          (case rt_list info of [] \<Rightarrow> MAX_SAFE_INTEGER | r # _ \<Rightarrow> ri_distance r) \<le> D)) \<and>
    (\<forall>other. other \<noteq> remote \<longrightarrow> isReachable s' from other D = isReachable s from other D)"
proof -
  have s': "s' = s\<lparr>rt_remoteInfo := jm_set (rt_remoteInfo s) remote (Some ses)\<rparr>"
    using assms by (auto simp: updateSession_def split: option.splits if_splits)
  have find: "findNeighbor s' f t = findNeighbor s f t" for f t by (simp add: s' findNeighbor_def)
  have rem: "jm_get (rt_remoteInfo s') = (jm_get (rt_remoteInfo s))(remote \<mapsto> Some ses)" by (simp add: s' fun_eq_iff)
  show ?thesis
    by (cases "findNeighbor s from remote") (auto simp: isReachable_def find getSession_def rem split: option.splits)
qed

theorem updateSession_outdates_routes_witness:
  "let s' = snd (updateSession routes_ex ''c'' (Some 2)) in
     isReachable routes_ex ''a'' ''c'' 5 \<and> \<not> isReachable s' ''a'' ''c'' 5"
proof -
  have "fst (updateSession routes_ex ''c'' (Some 2)) = True" by code_simp
  then have u: "updateSession routes_ex ''c'' (Some 2) = (True, snd (updateSession routes_ex ''c'' (Some 2)))"
    by (metis prod.collapse)
  have r: "isReachable routes_ex ''a'' ''c'' 5" by code_simp
  show ?thesis
    using updateSession_outdates_routes [OF u, of "''a''" 5] r routes_ex_find(2) by (simp add: Let_def)
qed

end
