(* ===== verification/PushableLanes.thy ===== *)
theory PushableLanes
  imports Prelude
begin

text \<open>
  The priority queue in front of every outgoing stream,
  \<open>packages/transport/stream/src/pushable-lanes.ts\<close>: values are pushed into lanes, lane 0 drains
  before lane 1, and an asynchronous iterator takes them out. The queue class of the package
  \<open>fast-fifo\<close> that \<open>Uint8ArrayFifo\<close> extends is the argument \<open>Q\<close> of the definitions; what the code
  relies on is the locale \<open>fifo\<close>.

  The iterator is modelled as the state of its closure: the buffer, the flag \<open>ended\<close> and the
  pending call of \<open>next\<close> (the closure stored in \<open>onNext\<close>). A call returns the new state and the
  promises it settles. \<open>onEmpty\<close>, which only awaits a promise, is not modelled.

  Shown here: the size accounting, the order in which values are delivered, that no value is lost
  or delivered twice, and what \<open>end\<close> does with the values still buffered.
\<close>

section \<open>The queue underneath\<close>

record ('q, 'x) fifo_ops =
  q_new :: 'q
  q_push :: "'q \<Rightarrow> 'x \<Rightarrow> 'q"
  q_shift :: "'q \<Rightarrow> 'x option \<times> 'q"
  q_isEmpty :: "'q \<Rightarrow> bool"

locale fifo =
  fixes Q :: "('q, 'x) fifo_ops" and q_list :: "'q \<Rightarrow> 'x list"
  assumes list_new [simp]: "q_list (q_new Q) = []"
    and list_push [simp]: "q_list (q_push Q q x) = q_list q @ [x]"
    and shift_empty: "q_list q = [] \<Longrightarrow> q_shift Q q = (None, q)"
    and shift_head: "q_list q = x # xs \<Longrightarrow> \<exists>q'. q_shift Q q = (Some x, q') \<and> q_list q' = xs"
    and list_isEmpty [simp]: "q_isEmpty Q q \<longleftrightarrow> q_list q = []"

section \<open>State\<close>

text \<open>A value is its bytes; \<open>Next\<close> holds a value, an error or the end marker.\<close>

datatype 'e next_item = NValue "nat list" | NDone | NError 'e

record 'q lane_fifo =
  lf_queue :: 'q
  lf_size :: int

datatype 'q buffer = PriorityQueue "'q lane_fifo list" | Single "'q lane_fifo"

datatype 'e next_result = Value "nat list" | Done | Reject 'e

datatype lane_error = TypeError

record 'q pushable =
  p_buffer :: "'q buffer"
  p_onNext :: "nat option"
  p_ended :: bool

section \<open>Uint8ArrayFifo and Uint8arrayPriorityQueue\<close>

fun value_size :: "'e next_item \<Rightarrow> int" where
  "value_size (NValue v) = int (length v)"
| "value_size _ = 0"

definition new_lane :: "('q, 'e next_item) fifo_ops \<Rightarrow> 'q lane_fifo" where
  "new_lane Q = \<lparr>lf_queue = q_new Q, lf_size = 0\<rparr>"

definition fifo_push :: "('q, 'e next_item) fifo_ops \<Rightarrow> 'q lane_fifo \<Rightarrow> 'e next_item \<Rightarrow> 'q lane_fifo" where
  "fifo_push Q l val = \<lparr>lf_queue = q_push Q (lf_queue l) val, lf_size = lf_size l + value_size val\<rparr>"

definition fifo_shift ::
  "('q, 'e next_item) fifo_ops \<Rightarrow> 'q lane_fifo \<Rightarrow> 'e next_item option \<times> 'q lane_fifo" where
  "fifo_shift Q l =
     (let (shifted, q) = q_shift Q (lf_queue l)
      in (shifted, \<lparr>lf_queue = q,
            lf_size = lf_size l - (case shifted of None \<Rightarrow> 0 | Some x \<Rightarrow> value_size x)\<rparr>))"

definition new_lanes :: "('q, 'e next_item) fifo_ops \<Rightarrow> nat \<Rightarrow> 'q lane_fifo list" where
  "new_lanes Q n = replicate n (new_lane Q)"

definition lanes_size :: "'q lane_fifo list \<Rightarrow> int" where
  "lanes_size ls = fold (\<lambda>l acc. acc + lf_size l) ls 0"

definition lanes_push ::
  "('q, 'e next_item) fifo_ops \<Rightarrow> 'q lane_fifo list \<Rightarrow> 'e next_item \<Rightarrow> nat \<Rightarrow> lane_error + 'q lane_fifo list" where
  "lanes_push Q ls val lane =
     (if lane < length ls then Inr (ls[lane := fifo_push Q (ls ! lane) val]) else Inl TypeError)"

fun lanes_shift ::
  "('q, 'e next_item) fifo_ops \<Rightarrow> 'q lane_fifo list \<Rightarrow> 'e next_item option \<times> 'q lane_fifo list" where
  "lanes_shift Q [] = (None, [])"
| "lanes_shift Q (l # ls) =
     (let (element, l') = fifo_shift Q l
      in case element of
           Some x \<Rightarrow> (Some x, l' # ls)
         | None \<Rightarrow> (let (r, ls') = lanes_shift Q ls in (r, l' # ls')))"

definition lanes_isEmpty :: "('q, 'e next_item) fifo_ops \<Rightarrow> 'q lane_fifo list \<Rightarrow> bool" where
  "lanes_isEmpty Q ls = (\<not> list_ex (\<lambda>l. \<not> q_isEmpty Q (lf_queue l)) ls)"

text \<open>The variable \<open>buffer\<close> holds either class; the single queue ignores the lane.\<close>

fun buffer_push ::
  "('q, 'e next_item) fifo_ops \<Rightarrow> 'q buffer \<Rightarrow> 'e next_item \<Rightarrow> nat \<Rightarrow> lane_error + 'q buffer" where
  "buffer_push Q (PriorityQueue ls) val lane = bind_sum (lanes_push Q ls val lane) (\<lambda>ls'. Inr (PriorityQueue ls'))"
| "buffer_push Q (Single l) val lane = Inr (Single (fifo_push Q l val))"

fun buffer_shift :: "('q, 'e next_item) fifo_ops \<Rightarrow> 'q buffer \<Rightarrow> 'e next_item option \<times> 'q buffer" where
  "buffer_shift Q (PriorityQueue ls) = (let (r, ls') = lanes_shift Q ls in (r, PriorityQueue ls'))"
| "buffer_shift Q (Single l) = (let (r, l') = fifo_shift Q l in (r, Single l'))"

fun buffer_isEmpty :: "('q, 'e next_item) fifo_ops \<Rightarrow> 'q buffer \<Rightarrow> bool" where
  "buffer_isEmpty Q (PriorityQueue ls) = lanes_isEmpty Q ls"
| "buffer_isEmpty Q (Single l) = q_isEmpty Q (lf_queue l)"

fun buffer_size :: "'q buffer \<Rightarrow> int" where
  "buffer_size (PriorityQueue ls) = lanes_size ls"
| "buffer_size (Single l) = lf_size l"

section \<open>The iterator\<close>

definition new_pushable :: "('q, 'e next_item) fifo_ops \<Rightarrow> nat option \<Rightarrow> 'q pushable" where
  "new_pushable Q lanes =
     \<lparr>p_buffer = PriorityQueue (new_lanes Q (case lanes of None \<Rightarrow> 1 | Some n \<Rightarrow> if n = 0 then 1 else n)),
      p_onNext = None, p_ended = False\<rparr>"

definition getNext :: "('q, 'e next_item) fifo_ops \<Rightarrow> 'q buffer \<Rightarrow> 'e next_result \<times> 'q buffer" where
  "getNext Q b =
     (let (nxt, b') = buffer_shift Q b
      in (case nxt of None \<Rightarrow> Done | Some NDone \<Rightarrow> Done | Some (NError e) \<Rightarrow> Reject e | Some (NValue v) \<Rightarrow> Value v, b'))"

text \<open>\<open>next()\<close>, as the call number \<open>i\<close>: it settles at once or becomes the pending call.\<close>

definition waitNext ::
  "('q, 'e next_item) fifo_ops \<Rightarrow> nat \<Rightarrow> 'q pushable \<Rightarrow> (nat \<times> 'e next_result) list \<times> 'q pushable" where
  "waitNext Q i s =
     (if \<not> buffer_isEmpty Q (p_buffer s) then
        (let (r, b) = getNext Q (p_buffer s) in ([(i, r)], s\<lparr>p_buffer := b\<rparr>))
      else if p_ended s then ([(i, Done)], s)
      else ([], s\<lparr>p_onNext := Some i\<rparr>))"

text \<open>A throw leaves the state it reached: a lane out of range fails after \<open>onNext\<close> was cleared.\<close>

definition bufferNext ::
  "('q, 'e next_item) fifo_ops \<Rightarrow> 'q pushable \<Rightarrow> 'e next_item \<Rightarrow> nat \<Rightarrow>
     (lane_error + (nat \<times> 'e next_result) list) \<times> 'q pushable" where
  "bufferNext Q s nxt lane =
     (case p_onNext s of
        Some i \<Rightarrow>
          (case buffer_push Q (p_buffer s) nxt lane of
             Inl e \<Rightarrow> (Inl e, s\<lparr>p_onNext := None\<rparr>)
           | Inr b \<Rightarrow> (let (r, b') = getNext Q b in (Inr [(i, r)], s\<lparr>p_onNext := None, p_buffer := b'\<rparr>)))
      | None \<Rightarrow>
          (case buffer_push Q (p_buffer s) nxt lane of
             Inl e \<Rightarrow> (Inl e, s)
           | Inr b \<Rightarrow> (Inr [], s\<lparr>p_buffer := b\<rparr>)))"

definition bufferError ::
  "('q, 'e next_item) fifo_ops \<Rightarrow> 'q pushable \<Rightarrow> 'e \<Rightarrow> (lane_error + (nat \<times> 'e next_result) list) \<times> 'q pushable" where
  "bufferError Q s err = bufferNext Q (s\<lparr>p_buffer := Single (new_lane Q)\<rparr>) (NError err) 0"

definition pushable_push ::
  "('q, 'e next_item) fifo_ops \<Rightarrow> 'q pushable \<Rightarrow> nat list \<Rightarrow> nat option \<Rightarrow>
     (lane_error + (nat \<times> 'e next_result) list) \<times> 'q pushable" where
  "pushable_push Q s value lane =
     (if p_ended s then (Inr [], s)
      else bufferNext Q s (NValue value) (case lane of None \<Rightarrow> 0 | Some l \<Rightarrow> l))"

definition pushable_end ::
  "('q, 'e next_item) fifo_ops \<Rightarrow> 'q pushable \<Rightarrow> 'e option \<Rightarrow>
     (lane_error + (nat \<times> 'e next_result) list) \<times> 'q pushable" where
  "pushable_end Q s err =
     (if p_ended s then (Inr [], s)
      else let s' = s\<lparr>p_ended := True\<rparr>
           in case err of Some e \<Rightarrow> bufferError Q s' e | None \<Rightarrow> bufferNext Q s' NDone 0)"

definition pushable_return ::
  "('q, 'e next_item) fifo_ops \<Rightarrow> 'q pushable \<Rightarrow> (lane_error + (nat \<times> 'e next_result) list) \<times> 'q pushable" where
  "pushable_return Q s = pushable_end Q (s\<lparr>p_buffer := Single (new_lane Q)\<rparr>) None"

definition pushable_throw ::
  "('q, 'e next_item) fifo_ops \<Rightarrow> 'q pushable \<Rightarrow> 'e \<Rightarrow> (lane_error + (nat \<times> 'e next_result) list) \<times> 'q pushable" where
  "pushable_throw Q s err = pushable_end Q s (Some err)"

definition readableLength :: "'q pushable \<Rightarrow> int" where
  "readableLength s = buffer_size (p_buffer s)"

definition getReadableLength :: "'q pushable \<Rightarrow> nat option \<Rightarrow> lane_error + int" where
  "getReadableLength s lane =
     (case lane of
        None \<Rightarrow> Inr (buffer_size (p_buffer s))
      | Some i \<Rightarrow>
          (case p_buffer s of
             PriorityQueue ls \<Rightarrow> if i < length ls then Inr (lf_size (ls ! i)) else Inl TypeError
           | Single l \<Rightarrow> Inr (lf_size l)))"

text \<open>The wrapper that is returned when \<open>onEnd\<close> is given: \<open>end\<close>, \<open>return\<close> and \<open>throw\<close> call it once. The
  state is the pushable, whether the callback is still set, and the arguments it was called with.\<close>

record ('q, 'e) ending =
  e_pushable :: "'q pushable"
  e_onEnd :: bool
  e_called :: "'e option list"

definition call_onEnd :: "('q, 'e) ending \<Rightarrow> 'e option \<Rightarrow> ('q, 'e) ending" where
  "call_onEnd w err = (if e_onEnd w then w\<lparr>e_onEnd := False, e_called := e_called w @ [err]\<rparr> else w)"

definition ending_end ::
  "('q, 'e next_item) fifo_ops \<Rightarrow> ('q, 'e) ending \<Rightarrow> 'e option \<Rightarrow>
     (lane_error + (nat \<times> 'e next_result) list) \<times> ('q, 'e) ending" where
  "ending_end Q w err =
     (let (r, s) = pushable_end Q (e_pushable w) err; w' = w\<lparr>e_pushable := s\<rparr>
      in case r of Inl e \<Rightarrow> (Inl e, w') | Inr out \<Rightarrow> (Inr out, call_onEnd w' err))"

definition ending_return ::
  "('q, 'e next_item) fifo_ops \<Rightarrow> ('q, 'e) ending \<Rightarrow> (lane_error + (nat \<times> 'e next_result) list) \<times> ('q, 'e) ending" where
  "ending_return Q w =
     (let (r, s) = pushable_return Q (e_pushable w); w' = w\<lparr>e_pushable := s\<rparr>
      in case r of Inl e \<Rightarrow> (Inl e, w') | Inr out \<Rightarrow> (Inr out, call_onEnd w' None))"

definition ending_throw ::
  "('q, 'e next_item) fifo_ops \<Rightarrow> ('q, 'e) ending \<Rightarrow> 'e \<Rightarrow>
     (lane_error + (nat \<times> 'e next_result) list) \<times> ('q, 'e) ending" where
  "ending_throw Q w err =
     (let (r, s) = pushable_throw Q (e_pushable w) err; w' = w\<lparr>e_pushable := s\<rparr>
      in case r of Inl e \<Rightarrow> (Inl e, w') | Inr out \<Rightarrow> (Inr out, call_onEnd w' (Some err)))"

section \<open>Runs\<close>

datatype lane_op = OpPush "nat list" nat | OpNext nat

fun values_of :: "(nat \<times> 'e next_result) list \<Rightarrow> nat list list" where
  "values_of [] = []"
| "values_of ((_, Value v) # rs) = v # values_of rs"
| "values_of (_ # rs) = values_of rs"

fun lane_step :: "('q, 'e next_item) fifo_ops \<Rightarrow> 'q pushable \<Rightarrow> lane_op \<Rightarrow> nat list list \<times> 'q pushable" where
  "lane_step Q s (OpPush v l) =
     (case pushable_push Q s v (Some l) of (Inl _, s') \<Rightarrow> ([], s') | (Inr out, s') \<Rightarrow> (values_of out, s'))"
| "lane_step Q s (OpNext i) = (case waitNext Q i s of (out, s') \<Rightarrow> (values_of out, s'))"

fun lane_run :: "('q, 'e next_item) fifo_ops \<Rightarrow> 'q pushable \<Rightarrow> lane_op list \<Rightarrow> nat list list \<times> 'q pushable" where
  "lane_run Q s [] = ([], s)"
| "lane_run Q s (c # cs) = (let (out, s') = lane_step Q s c; (outs, s'') = lane_run Q s' cs in (out @ outs, s''))"

fun pushed :: "lane_op list \<Rightarrow> nat list list" where
  "pushed [] = []"
| "pushed (OpPush v l # cs) = v # pushed cs"
| "pushed (OpNext i # cs) = pushed cs"

fun nexts :: "('q, 'e next_item) fifo_ops \<Rightarrow> 'q pushable \<Rightarrow> nat \<Rightarrow> 'e next_result list \<times> 'q pushable" where
  "nexts Q s 0 = ([], s)"
| "nexts Q s (Suc k) = (let (out, s') = waitNext Q k s; (outs, s'') = nexts Q s' k in (map snd out @ outs, s''))"

section \<open>Lemmas over the contract of the queue\<close>

locale byte_lanes = fifo Q q_list
  for Q :: "('q, 'e next_item) fifo_ops" and q_list :: "'q \<Rightarrow> 'e next_item list"
begin

definition items :: "'q lane_fifo \<Rightarrow> 'e next_item list" where
  "items l = q_list (lf_queue l)"

definition sized :: "'q lane_fifo \<Rightarrow> bool" where
  "sized l \<longleftrightarrow> lf_size l = sum_list (map value_size (items l))"

lemma items_new [simp]: "items (new_lane Q) = []"
  by (simp add: items_def new_lane_def)

lemma sized_new [simp]: "sized (new_lane Q)"
  by (simp add: sized_def) (simp add: new_lane_def)

lemma items_push [simp]: "items (fifo_push Q l x) = items l @ [x]"
  by (simp add: items_def fifo_push_def)

lemma sized_push: "sized l \<Longrightarrow> sized (fifo_push Q l x)"
  by (simp add: sized_def) (simp add: fifo_push_def)

lemma fifo_shift_empty: "items l = [] \<Longrightarrow> fifo_shift Q l = (None, l)"
  using shift_empty [of "lf_queue l"] by (simp add: items_def fifo_shift_def)

lemma fifo_shift_head:
  "items l = x # xs \<Longrightarrow> \<exists>l'. fifo_shift Q l = (Some x, l') \<and> items l' = xs \<and> (sized l \<longrightarrow> sized l')"
  using shift_head [of "lf_queue l" x xs] by (auto simp: items_def fifo_shift_def sized_def)

lemma lanes_isEmpty_iff: "lanes_isEmpty Q ls \<longleftrightarrow> (\<forall>l \<in> set ls. items l = [])"
  by (auto simp: lanes_isEmpty_def list_ex_iff items_def)

lemma lanes_shift_empty: "\<forall>l \<in> set ls. items l = [] \<Longrightarrow> lanes_shift Q ls = (None, ls)"
  by (induction ls) (auto simp: fifo_shift_empty)

lemma lanes_shift_first:
  assumes "i < length ls" and "\<forall>j < i. items (ls ! j) = []" and "items (ls ! i) = x # xs"
  shows "\<exists>l'. lanes_shift Q ls = (Some x, ls[i := l']) \<and> items l' = xs \<and> (sized (ls ! i) \<longrightarrow> sized l')"
  using assms
proof (induction ls arbitrary: i)
  case (Cons l ls)
  show ?case
  proof (cases i)
    case 0
    with Cons.prems fifo_shift_head [of l x xs] show ?thesis by auto
  next
    case (Suc k)
    have "\<forall>j < k. items (ls ! j) = []" using Cons.prems(2) Suc by fastforce
    with Cons.IH [of k] Cons.prems Suc obtain l' where
      "lanes_shift Q ls = (Some x, ls[k := l'])" "items l' = xs" "sized (ls ! k) \<longrightarrow> sized l'" by auto
    moreover have "fifo_shift Q l = (None, l)"
      using Cons.prems(2) Suc by (intro fifo_shift_empty) auto
    ultimately show ?thesis using Suc by auto
  qed
qed simp

lemma first_nonempty:
  assumes "\<not> lanes_isEmpty Q ls"
  obtains i x xs where "i < length ls" "\<forall>j < i. items (ls ! j) = []" "items (ls ! i) = x # xs"
proof -
  let ?P = "\<lambda>i. i < length ls \<and> items (ls ! i) \<noteq> []"
  have "\<exists>i. ?P i" using assms by (auto simp: lanes_isEmpty_iff in_set_conv_nth)
  then have "?P (LEAST i. ?P i)" by (rule LeastI_ex)
  moreover have "\<forall>j < (LEAST i. ?P i). \<not> ?P j" using not_less_Least by blast
  ultimately show thesis
    using that [of "LEAST i. ?P i"] by (metis (no_types, lifting) list.exhaust order.strict_trans)
qed

lemma lanes_size_sum: "lanes_size ls = sum_list (map lf_size ls)"
proof -
  have "fold (\<lambda>l acc. acc + lf_size l) ls a = a + sum_list (map lf_size ls)" for a
    by (induction ls arbitrary: a) auto
  then show ?thesis by (simp add: lanes_size_def)
qed

end

text \<open>The class \<open>Uint8ArrayFifo\<close> keeps the contract of the queue it extends.\<close>

definition lane_ops :: "('q, 'e next_item) fifo_ops \<Rightarrow> ('q lane_fifo, 'e next_item) fifo_ops" where
  "lane_ops Q = \<lparr>q_new = new_lane Q, q_push = fifo_push Q, q_shift = fifo_shift Q,
     q_isEmpty = (\<lambda>l. q_isEmpty Q (lf_queue l))\<rparr>"

sublocale byte_lanes \<subseteq> lane: fifo "lane_ops Q" items
  by unfold_locales (auto simp: lane_ops_def fifo_shift_empty dest: fifo_shift_head, simp_all add: items_def)

lemma byte_lanes_fifo: "fifo Q q_list \<Longrightarrow> byte_lanes Q q_list"
  by (rule byte_lanes.intro)

context byte_lanes begin

text \<open>The invariant of a run without \<open>end\<close>: lane \<open>i\<close> holds, in order, the values pushed to it and not
  delivered yet; a pending call means that nothing is buffered.\<close>

definition holds :: "(nat list \<Rightarrow> nat) \<Rightarrow> nat list list \<Rightarrow> nat list list \<Rightarrow> nat \<Rightarrow> 'q lane_fifo \<Rightarrow> bool" where
  "holds lane pu out i l \<longleftrightarrow> sized l \<and> (\<exists>vs. items l = map NValue vs \<and>
     filter (\<lambda>v. lane v = i) pu = filter (\<lambda>v. lane v = i) out @ vs)"

definition run_inv :: "(nat list \<Rightarrow> nat) \<Rightarrow> nat \<Rightarrow> nat list list \<Rightarrow> nat list list \<Rightarrow> 'q pushable \<Rightarrow> bool" where
  "run_inv lane n pu out s \<longleftrightarrow> \<not> p_ended s \<and> (\<exists>ls. p_buffer s = PriorityQueue ls \<and> length ls = n \<and>
     (\<forall>i < n. holds lane pu out i (ls ! i)) \<and>
     (p_onNext s \<noteq> None \<longrightarrow> lanes_isEmpty Q ls))"

lemma deliver:
  assumes "length ls = n" and "\<not> lanes_isEmpty Q ls"
    and "\<forall>i < n. holds lane pu out i (ls ! i)"
    and "\<forall>v \<in> set pu. lane v < n"
  shows "\<exists>v ls'. getNext Q (PriorityQueue ls) = (Value v, PriorityQueue ls') \<and> length ls' = n \<and>
    (\<forall>i < n. holds lane pu (out @ [v]) i (ls' ! i))"
proof -
  obtain k x xs where k: "k < length ls" "\<forall>j < k. items (ls ! j) = []" "items (ls ! k) = x # xs"
    using first_nonempty [OF assms(2)] by blast
  obtain l' where l': "lanes_shift Q ls = (Some x, ls[k := l'])" "items l' = xs" "sized (ls ! k) \<longrightarrow> sized l'"
    using lanes_shift_first [OF k] by blast
  obtain v vs where v: "x = NValue v" "xs = map NValue vs"
      "filter (\<lambda>v. lane v = k) pu = filter (\<lambda>v. lane v = k) out @ v # vs"
  proof -
    obtain vs0 where "items (ls ! k) = map NValue vs0"
        "filter (\<lambda>v. lane v = k) pu = filter (\<lambda>v. lane v = k) out @ vs0"
      using assms(1,3) k(1) by (auto simp: holds_def)
    with k(3) that show thesis by (cases vs0) auto
  qed
  have lane: "lane v = k"
  proof -
    have "v \<in> set (filter (\<lambda>v. lane v = k) pu)" by (simp add: v(3))
    then show ?thesis by simp
  qed
  have "getNext Q (PriorityQueue ls) = (Value v, PriorityQueue (ls[k := l']))"
    by (simp add: getNext_def l' v)
  moreover have "holds lane pu (out @ [v]) i (ls[k := l'] ! i)" if "i < n" for i
  proof (cases "i = k")
    case True
    with that assms(1,3) l' v lane show ?thesis by (auto simp: holds_def)
  next
    case False
    with that assms(1,3) lane show ?thesis by (auto simp: holds_def)
  qed
  ultimately show ?thesis using assms(1) by auto
qed

lemma run_inv_next:
  assumes "run_inv lane n pu out s" and "\<forall>v \<in> set pu. lane v < n" and "lane_step Q s (OpNext i) = (o1, s')"
  shows "run_inv lane n pu (out @ o1) s'"
proof -
  obtain ls where ls: "p_buffer s = PriorityQueue ls" "length ls = n"
    "\<forall>i < n. holds lane pu out i (ls ! i)"
    "p_onNext s \<noteq> None \<longrightarrow> lanes_isEmpty Q ls" and ne: "\<not> p_ended s"
    using assms(1) by (auto simp: run_inv_def)
  show ?thesis
  proof (cases "lanes_isEmpty Q ls")
    case True
    with assms(3) ls ne show ?thesis by (auto simp: waitNext_def run_inv_def)
  next
    case False
    then obtain v ls' where d: "getNext Q (PriorityQueue ls) = (Value v, PriorityQueue ls')" "length ls' = n"
      "\<forall>i < n. holds lane pu (out @ [v]) i (ls' ! i)"
      using deliver [OF ls(2) _ ls(3) assms(2)] by blast
    have "o1 = [v]" "s' = s\<lparr>p_buffer := PriorityQueue ls'\<rparr>"
      using assms(3) False ls(1) d(1) by (simp_all add: waitNext_def)
    moreover have "p_onNext s = None" using ls(4) False by blast
    ultimately show ?thesis using d(2,3) ne by (simp add: run_inv_def)
  qed
qed

lemma run_inv_push:
  assumes "run_inv lane n pu out s" and "\<forall>x \<in> set pu. lane x < n" and "lane v < n"
    and "lane_step Q s (OpPush v (lane v)) = (o1, s')"
  shows "run_inv lane n (pu @ [v]) (out @ o1) s'"
proof -
  obtain ls where ls: "p_buffer s = PriorityQueue ls" "length ls = n"
    "\<forall>i < n. holds lane pu out i (ls ! i)"
    "p_onNext s \<noteq> None \<longrightarrow> lanes_isEmpty Q ls" and ne: "\<not> p_ended s"
    using assms(1) by (auto simp: run_inv_def)
  define ls1 where "ls1 = ls[lane v := fifo_push Q (ls ! lane v) (NValue v)]"
  have push: "buffer_push Q (PriorityQueue ls) (NValue v) (lane v) = Inr (PriorityQueue ls1)"
    using assms(3) ls(2) by (simp add: lanes_push_def ls1_def)
  have len: "length ls1 = n" using ls(2) by (simp add: ls1_def)
  have inv1: "\<forall>i < n. holds lane (pu @ [v]) out i (ls1 ! i)"
  proof (intro allI impI)
    fix i assume i: "i < n"
    then obtain vs where vs: "items (ls ! i) = map NValue vs" "sized (ls ! i)"
      "filter (\<lambda>v. lane v = i) pu = filter (\<lambda>v. lane v = i) out @ vs"
      using ls(3) by (auto simp: holds_def)
    show "holds lane (pu @ [v]) out i (ls1 ! i)"
    proof (cases "i = lane v")
      case True
      with i vs ls(2) show ?thesis by (auto simp: holds_def ls1_def sized_push intro!: exI [of _ "vs @ [v]"])
    next
      case False
      with i vs ls(2) show ?thesis by (auto simp: holds_def ls1_def)
    qed
  qed
  show ?thesis
  proof (cases "p_onNext s")
    case None
    with assms(4) ne ls(1) push have "o1 = []" "s' = s\<lparr>p_buffer := PriorityQueue ls1\<rparr>"
      by (simp_all add: pushable_push_def bufferNext_def)
    with ne len inv1 None show ?thesis by (simp add: run_inv_def)
  next
    case (Some j)
    have "\<not> lanes_isEmpty Q ls1"
      unfolding lanes_isEmpty_iff ls1_def
      using assms(3) ls(2) by (metis append_is_Nil_conv items_push list.distinct(1) set_update_memI)
    then obtain w ls' where d: "getNext Q (PriorityQueue ls1) = (Value w, PriorityQueue ls')" "length ls' = n"
      "\<forall>i < n. holds lane (pu @ [v]) (out @ [w]) i (ls' ! i)"
      using deliver [OF len _ inv1] assms(2,3) by auto
    have "o1 = [w]" "s' = s\<lparr>p_onNext := None, p_buffer := PriorityQueue ls'\<rparr>"
      using assms(4) ne ls(1) push Some d(1) by (simp_all add: pushable_push_def bufferNext_def)
    with d(2,3) ne show ?thesis by (simp add: run_inv_def)
  qed
qed

lemma run_inv_run:
  assumes "run_inv lane n pu out s" and "\<forall>x \<in> set pu. lane x < n"
    and "\<forall>v l. OpPush v l \<in> set cs \<longrightarrow> l = lane v \<and> l < n" and "lane_run Q s cs = (outs, s')"
  shows "run_inv lane n (pu @ pushed cs) (out @ outs) s'"
  using assms
proof (induction cs arbitrary: pu out s outs)
  case (Cons c cs)
  obtain o1 s1 o2 where step: "lane_step Q s c = (o1, s1)" and rest: "lane_run Q s1 cs = (o2, s')" and outs: "outs = o1 @ o2"
    using Cons.prems(4) by (auto split: prod.splits)
  have sub: "\<forall>v l. OpPush v l \<in> set cs \<longrightarrow> l = lane v \<and> l < n" using Cons.prems(3) by simp
  show ?case
  proof (cases c)
    case (OpPush v l)
    then have l: "l = lane v" "lane v < n" using Cons.prems(3) by auto
    have "run_inv lane n (pu @ [v]) (out @ o1) s1"
      using run_inv_push [OF Cons.prems(1,2) l(2)] step OpPush l by simp
    from Cons.IH [OF this _ sub rest] Cons.prems(2) l(2) show ?thesis by (simp add: OpPush outs)
  next
    case (OpNext i)
    have "run_inv lane n pu (out @ o1) s1"
      using run_inv_next [OF Cons.prems(1,2)] step OpNext by simp
    from Cons.IH [OF this Cons.prems(2) sub rest] show ?thesis by (simp add: OpNext outs)
  qed
qed simp

lemma run_inv_new: "0 < n \<Longrightarrow> run_inv lane n [] [] (new_pushable Q (Some n))"
  by (simp add: run_inv_def holds_def new_pushable_def new_lanes_def)

end

section \<open>Ending\<close>

context byte_lanes begin

text \<open>With the values \<open>vs\<close> and then the end marker in lane 0, the next calls deliver them and report
  the end, whatever the other lanes hold.\<close>

lemma nexts_lane0:
  assumes "p_buffer s = PriorityQueue (l0 # ls)" and "items l0 = map NValue vs @ NDone # rest"
  shows "\<exists>l'. nexts Q s (Suc (length vs)) =
     (map Value vs @ [Done], s\<lparr>p_buffer := PriorityQueue (l' # ls)\<rparr>) \<and> items l' = rest"
  using assms
proof (induction vs arbitrary: s l0)
  case Nil
  then obtain l' where l': "fifo_shift Q l0 = (Some NDone, l')" "items l' = rest"
    using fifo_shift_head [of l0 NDone rest] by auto
  have "\<not> lanes_isEmpty Q (l0 # ls)" using Nil by (auto simp: lanes_isEmpty_iff)
  with Nil l' show ?case by (auto simp: waitNext_def getNext_def)
next
  case (Cons v vs)
  then obtain l1 where l1: "fifo_shift Q l0 = (Some (NValue v), l1)" "items l1 = map NValue vs @ NDone # rest"
    using fifo_shift_head [of l0 "NValue v" "map NValue vs @ NDone # rest"] by auto
  have "\<not> lanes_isEmpty Q (l0 # ls)" using Cons.prems by (auto simp: lanes_isEmpty_iff)
  then have w: "waitNext Q i s = ([(i, Value v)], s\<lparr>p_buffer := PriorityQueue (l1 # ls)\<rparr>)" for i
    using Cons.prems(1) l1(1) by (simp add: waitNext_def getNext_def)
  obtain l' where "nexts Q (s\<lparr>p_buffer := PriorityQueue (l1 # ls)\<rparr>) (Suc (length vs)) =
     (map Value vs @ [Done], s\<lparr>p_buffer := PriorityQueue (l' # ls)\<rparr>)" "items l' = rest"
    using Cons.IH [of "s\<lparr>p_buffer := PriorityQueue (l1 # ls)\<rparr>" l1] l1(2) by auto
  then show ?case unfolding nexts.simps(2) [of Q s "length (v # vs)"] w by auto
qed

lemma end_lane0:
  assumes "p_buffer s = PriorityQueue (l0 # ls)" and "items l0 = map NValue vs"
    and "\<not> p_ended s" and "p_onNext s = None"
  shows "\<exists>s' s'' l'. pushable_end Q s None = (Inr [], s') \<and>
    nexts Q s' (Suc (length vs)) = (map Value vs @ [Done], s'') \<and>
    p_buffer s'' = PriorityQueue (l' # ls) \<and> items l' = []"
proof -
  let ?s' = "s\<lparr>p_ended := True, p_buffer := PriorityQueue (fifo_push Q l0 NDone # ls)\<rparr>"
  have e: "pushable_end Q s None = (Inr [], ?s')"
    using assms by (simp add: pushable_end_def bufferNext_def lanes_push_def)
  have "items (fifo_push Q l0 NDone) = map NValue vs @ NDone # []" using assms(2) by simp
  from nexts_lane0 [OF _ this, of ?s' ls] e show ?thesis by fastforce
qed

lemma end_error:
  assumes "\<not> p_ended s" and "p_onNext s = None"
  shows "\<exists>s' s''. pushable_end Q s (Some e) = (Inr [], s') \<and> nexts Q s' 2 = ([Reject e, Done], s'') \<and>
    readableLength s'' = 0"
proof -
  let ?l = "fifo_push Q (new_lane Q) (NError e)"
  let ?s' = "s\<lparr>p_ended := True, p_buffer := Single ?l\<rparr>"
  have i: "items ?l = [NError e]" "sized ?l" by (simp_all add: sized_push)
  obtain l' where l': "fifo_shift Q ?l = (Some (NError e), l')" "items l' = []" "sized l'"
    using fifo_shift_head [OF i(1)] i(2) by blast
  have E: "pushable_end Q s (Some e) = (Inr [], ?s')"
    using assms by (simp add: pushable_end_def bufferError_def bufferNext_def)
  have ne: "\<not> q_isEmpty Q (lf_queue ?l)" "q_isEmpty Q (lf_queue l')" using i l' by (simp_all add: items_def)
  have "nexts Q ?s' 2 = ([Reject e, Done], ?s'\<lparr>p_buffer := Single l'\<rparr>)"
    using ne l'(1) by (simp add: numeral_2_eq_2 waitNext_def getNext_def)
  moreover have "lf_size l' = 0" using l'(2,3) by (simp add: sized_def)
  ultimately show ?thesis using E by (auto simp: readableLength_def)
qed

lemma next_first:
  assumes "p_buffer s = PriorityQueue ls" and "i < length ls" and "\<forall>j < i. items (ls ! j) = []"
    and "items (ls ! i) = NValue v # xs"
  shows "\<exists>l'. waitNext Q k s = ([(k, Value v)], s\<lparr>p_buffer := PriorityQueue (ls[i := l'])\<rparr>) \<and> items l' = xs"
proof -
  have "\<not> lanes_isEmpty Q ls"
    unfolding lanes_isEmpty_iff using assms(2,4) nth_mem by fastforce
  with assms(1) lanes_shift_first [OF assms(2-4)] show ?thesis
    by (auto simp: waitNext_def getNext_def)
qed

end

section \<open>Properties\<close>

definition list_fifo :: "('x list, 'x) fifo_ops" where
  "list_fifo = \<lparr>q_new = [], q_push = (\<lambda>q x. q @ [x]),
     q_shift = (\<lambda>q. case q of [] \<Rightarrow> (None, []) | x # xs \<Rightarrow> (Some x, xs)), q_isEmpty = (\<lambda>q. q = [])\<rparr>"

interpretation list_lanes: byte_lanes list_fifo "\<lambda>q. q"
  by unfold_locales (auto simp: list_fifo_def)

lemma list_fifo_fifo: "fifo list_fifo (\<lambda>q. q)"
  by unfold_locales (auto simp: list_fifo_def)

text \<open>(C28) No value is lost, duplicated or reordered within its lane: over any sequence of pushes and
  calls of \<open>next\<close>, the values delivered from a lane followed by those it still buffers are the
  values pushed to it, in order; and \<open>readableLength\<close> is the number of bytes buffered.\<close>

theorem lane_run_delivers:
  assumes "fifo Q q_list" and "0 < n"
    and "\<forall>v l. OpPush v l \<in> set cs \<longrightarrow> l = lane v \<and> l < n"
    and "lane_run Q (new_pushable Q (Some n)) cs = (out, s)"
  shows "\<exists>ls. p_buffer s = PriorityQueue ls \<and> length ls = n \<and>
    (\<forall>i < n. map NValue (filter (\<lambda>v. lane v = i) out) @ q_list (lf_queue (ls ! i)) =
       map NValue (filter (\<lambda>v. lane v = i) (pushed cs))) \<and>
    readableLength s = sum_list (map (\<lambda>l. sum_list (map value_size (q_list (lf_queue l)))) ls)"
proof -
  have b: "byte_lanes Q q_list" by (rule byte_lanes_fifo [OF assms(1)])
  note defs = byte_lanes.run_inv_def [OF b] byte_lanes.holds_def [OF b] byte_lanes.items_def [OF b]
    byte_lanes.sized_def [OF b]
  have "byte_lanes.run_inv Q q_list lane n ([] @ pushed cs) ([] @ out) s"
    using byte_lanes.run_inv_run [OF b byte_lanes.run_inv_new [OF b assms(2)] _ assms(3,4)] by simp
  then obtain ls where ls: "p_buffer s = PriorityQueue ls" "length ls = n"
    "\<forall>i < n. lf_size (ls ! i) = sum_list (map value_size (q_list (lf_queue (ls ! i)))) \<and>
       (\<exists>vs. q_list (lf_queue (ls ! i)) = map NValue vs \<and>
          filter (\<lambda>v. lane v = i) (pushed cs) = filter (\<lambda>v. lane v = i) out @ vs)"
    by (auto simp: defs)
  have "map lf_size ls = map (\<lambda>l. sum_list (map value_size (q_list (lf_queue l)))) ls"
    using ls(2,3) by (intro nth_equalityI) simp_all
  then have "readableLength s = sum_list (map (\<lambda>l. sum_list (map value_size (q_list (lf_queue l)))) ls)"
    unfolding readableLength_def ls(1) buffer_size.simps byte_lanes.lanes_size_sum [OF b] by (rule arg_cong)
  with ls show ?thesis by (intro exI [of _ ls]) auto
qed

theorem lane_run_delivers_witness:
  "\<exists>s ls. lane_run (list_fifo :: (unit next_item list, unit next_item) fifo_ops) (new_pushable list_fifo (Some 2))
      [OpPush [1, 1] 1, OpPush [2] 0, OpNext 0] = ([[2]], s) \<and> p_buffer s = PriorityQueue ls \<and>
      lf_queue (ls ! 1) = [NValue [1, 1]] \<and> readableLength s = 2"
proof -
  let ?Q = "list_fifo :: (unit next_item list, unit next_item) fifo_ops"
  let ?cs = "[OpPush [1, 1] 1, OpPush [2] 0, OpNext 0]" and ?lane = "\<lambda>v. if v = [2::nat] then 0 else Suc 0"
  obtain s where s: "lane_run ?Q (new_pushable ?Q (Some 2)) ?cs = ([[2]], s)" and r: "readableLength s = 2"
    by (simp add: list_fifo_def new_pushable_def new_lanes_def new_lane_def pushable_push_def bufferNext_def
        lanes_push_def fifo_push_def waitNext_def lanes_isEmpty_def getNext_def fifo_shift_def numeral_2_eq_2
        readableLength_def lanes_size_def)
  have n: "(0::nat) < 2" by simp
  have c: "\<forall>v l. OpPush v l \<in> set ?cs \<longrightarrow> l = ?lane v \<and> l < 2" by auto
  obtain ls where "p_buffer s = PriorityQueue ls"
    "\<forall>i < 2. map NValue (filter (\<lambda>v. ?lane v = i) [[2]]) @ lf_queue (ls ! i) =
       map NValue (filter (\<lambda>v. ?lane v = i) (pushed ?cs))"
    using lane_run_delivers [OF list_fifo_fifo n c s] by blast
  then have "lf_queue (ls ! 1) = [NValue [1, 1]]" by (auto dest!: spec [of _ "Suc 0"])
  with \<open>p_buffer s = PriorityQueue ls\<close> s r show ?thesis by blast
qed

text \<open>Lower lanes first: a call of \<open>next\<close> returns the oldest value of the lowest lane that is not
  empty and takes it out of that lane, leaving the other lanes as they are.\<close>

theorem next_lowest_lane:
  assumes "fifo Q q_list" and "p_buffer s = PriorityQueue ls" and "i < length ls"
    and "\<forall>j < i. q_list (lf_queue (ls ! j)) = []" and "q_list (lf_queue (ls ! i)) = NValue v # xs"
  shows "\<exists>l'. waitNext Q k s = ([(k, Value v)], s\<lparr>p_buffer := PriorityQueue (ls[i := l'])\<rparr>) \<and>
    q_list (lf_queue l') = xs"
  using byte_lanes.next_first [OF byte_lanes_fifo [OF assms(1)] assms(2,3)] assms(4,5)
  by (simp add: byte_lanes.items_def [OF byte_lanes_fifo [OF assms(1)]])

definition pushable_ex :: "unit next_item list pushable" where
  "pushable_ex = \<lparr>p_buffer = PriorityQueue [\<lparr>lf_queue = [], lf_size = 0\<rparr>,
     \<lparr>lf_queue = [NValue [7], NValue [8]], lf_size = 2\<rparr>], p_onNext = None, p_ended = False\<rparr>"

theorem next_lowest_lane_witness: "fst (waitNext list_fifo 5 pushable_ex) = [(5, Value [7])]"
proof -
  let ?ls = "[\<lparr>lf_queue = [], lf_size = 0\<rparr>, \<lparr>lf_queue = [NValue [7], NValue [8]], lf_size = 2\<rparr>]"
  have "p_buffer pushable_ex = PriorityQueue ?ls" by (simp add: pushable_ex_def)
  from next_lowest_lane [OF list_fifo_fifo this, of 1 "[7]" "[NValue [8]]" 5] show ?thesis by auto
qed

text \<open>The end marker goes into lane 0: after \<open>end()\<close> the iterator delivers what lane 0 holds and
  reports the end, while every value buffered in the other lanes is still there. The
  documentation of \<open>end\<close> promises the end after all buffered values.\<close>

theorem end_overtakes_lanes:
  assumes "fifo Q q_list" and "p_buffer s = PriorityQueue (l0 # ls)"
    and "q_list (lf_queue l0) = map NValue vs" and "\<not> p_ended s" and "p_onNext s = None"
  shows "\<exists>s' s'' l'. pushable_end Q s None = (Inr [], s') \<and>
    nexts Q s' (Suc (length vs)) = (map Value vs @ [Done], s'') \<and>
    p_buffer s'' = PriorityQueue (l' # ls) \<and> q_list (lf_queue l') = []"
  using byte_lanes.end_lane0 [OF byte_lanes_fifo [OF assms(1)] assms(2) _ assms(4,5)] assms(3)
  by (simp add: byte_lanes.items_def [OF byte_lanes_fifo [OF assms(1)]])

theorem end_overtakes_lanes_witness:
  "\<exists>s' s'' l'. pushable_end list_fifo pushable_ex None = (Inr [], s') \<and>
     nexts list_fifo s' 1 = ([Done], s'') \<and>
     p_buffer s'' = PriorityQueue [l', \<lparr>lf_queue = [NValue [7], NValue [8]], lf_size = 2\<rparr>]"
proof -
  have "p_buffer pushable_ex = PriorityQueue (\<lparr>lf_queue = [], lf_size = 0\<rparr> #
      [\<lparr>lf_queue = [NValue [7], NValue [8]], lf_size = 2\<rparr>])" by (simp add: pushable_ex_def)
  from end_overtakes_lanes [OF list_fifo_fifo this, of "[]"] show ?thesis
    by (simp add: pushable_ex_def) blast
qed

text \<open>Ending with an error clears the buffer: the next call rejects with the error, the one after
  it reports the end, and nothing is left to read.\<close>

theorem end_with_error:
  assumes "fifo Q q_list" and "\<not> p_ended s" and "p_onNext s = None"
  shows "\<exists>s' s''. pushable_end Q s (Some e) = (Inr [], s') \<and> nexts Q s' 2 = ([Reject e, Done], s'') \<and>
    readableLength s'' = 0"
  by (rule byte_lanes.end_error [OF byte_lanes_fifo [OF assms(1)] assms(2,3)])

theorem end_with_error_witness:
  "\<exists>s' s''. pushable_end list_fifo pushable_ex (Some ()) = (Inr [], s') \<and>
     nexts list_fifo s' 2 = ([Reject (), Done], s'') \<and> readableLength s'' = 0"
  by (rule end_with_error [OF list_fifo_fifo]) (simp_all add: pushable_ex_def)

text \<open>A push into a lane that does not exist throws, and where a call of \<open>next\<close> was waiting it is
  forgotten: \<open>onNext\<close> is cleared before the throw, so no later push settles that call.\<close>

theorem push_bad_lane_forgets_waiter:
  assumes "p_buffer s = PriorityQueue ls" and "length ls \<le> lane" and "\<not> p_ended s"
  shows "pushable_push Q s v (Some lane) = (Inl TypeError, s\<lparr>p_onNext := None\<rparr>)"
proof (cases "p_onNext s")
  case None
  then have "s\<lparr>p_onNext := None\<rparr> = s" by (intro pushable.equality) simp_all
  with None assms show ?thesis by (simp add: pushable_push_def bufferNext_def lanes_push_def)
next
  case (Some i)
  with assms show ?thesis by (simp add: pushable_push_def bufferNext_def lanes_push_def)
qed

theorem push_bad_lane_forgets_waiter_witness:
  "let s = snd (waitNext list_fifo 3 (new_pushable (list_fifo :: (unit next_item list, unit next_item) fifo_ops) None));
       s' = snd (pushable_push list_fifo s [1] (Some 1))
   in p_onNext s = Some 3 \<and> p_onNext s' = None \<and> fst (pushable_push list_fifo s' [2] None) = Inr []"
proof -
  let ?Q = "list_fifo :: (unit next_item list, unit next_item) fifo_ops"
  define s where "s = snd (waitNext ?Q 3 (new_pushable ?Q None))"
  have s: "s = \<lparr>p_buffer = PriorityQueue [new_lane ?Q], p_onNext = Some 3, p_ended = False\<rparr>"
    by (simp add: s_def waitNext_def new_pushable_def new_lanes_def lanes_isEmpty_def list_fifo_def new_lane_def)
  then have p: "pushable_push ?Q s [1] (Some 1) = (Inl TypeError, s\<lparr>p_onNext := None\<rparr>)"
    by (intro push_bad_lane_forgets_waiter [of s "[new_lane ?Q]"]) simp_all
  have "fst (pushable_push ?Q (s\<lparr>p_onNext := None\<rparr>) [2] None) = Inr []"
    by (simp add: s pushable_push_def bufferNext_def lanes_push_def)
  with p s show ?thesis unfolding s_def [symmetric] Let_def by simp
qed

end
