(* ===== verification/RangeMerge.thy ===== *)
theory RangeMerge
  imports Segments Cache
begin

text \<open>
  The second part of \<open>packages/programs/data/shared-log/src/ranges.ts\<close> that needs no index: merging the
  ranges of one owner into a single arc, the distance on the ring, and the aggregation of replication
  changes that decides which ranges have to be rebalanced.

  \<open>Number(\<dots>)\<close> of a width is exact below \<open>2^53\<close>; it is the identity here. A new random id is an argument, and
  so is \<open>rangeHash\<close>, the hash of a serialised range.

  Shown here: merging ranges that do not pass the origin covers all of them; distances on the ring;
  that changes are passed on unless a removal meets the history, and what an addition that replaces a
  removed range leaves of both; and three defects.
\<close>

section \<open>Distance\<close>

datatype direction = Above | Below | Closest

definition getDistance :: "int \<Rightarrow> int \<Rightarrow> direction \<Rightarrow> int \<Rightarrow> int" where
  "getDistance from to direction end' =
     (let diff = (\<lambda>a b :: int. \<bar>a - b\<bar>) in
      case direction of
        Closest \<Rightarrow>
          if from = to then 0
          else if diff from to < diff end' (diff from to) then diff from to else diff end' (diff from to)
      | Above \<Rightarrow> if from \<le> to then end' - to + from else from - to
      | Below \<Rightarrow> if from \<ge> to then end' - from + to else to - from)"

section \<open>Merging ranges of one owner\<close>

definition start_cmp :: "range \<Rightarrow> range \<Rightarrow> int" where
  "start_cmp a b = (if start1 a < start1 b then -1 else if start1 a > start1 b then 1 else 0)"

definition either_strict :: "ReplicationIntent \<Rightarrow> ReplicationIntent \<Rightarrow> ReplicationIntent" where
  "either_strict a b = (if a = Strict \<or> b = Strict then Strict else NonStrict)"

text \<open>One step of the first \<open>reduce\<close>: the arc is merged into the last one when it starts before its end.\<close>

definition merge_arc :: "range list \<Rightarrow> range \<Rightarrow> range_error + range list" where
  "merge_arc acc current =
     (if acc = [] then Inr [current]
      else
        let lst = last acc in
        if start1 current \<le> end2 lst then
          let newEnd2 = (if end2 lst > end2 current then end2 lst else end2 current);
              extendedWidth = newEnd2 - start1 lst
          in bind_sum (make_range (r_res current) (r_id lst) (r_hash lst) (start1 lst) extendedWidth
                 (Some (either_strict (mode lst) (mode current))) None) (\<lambda>mergedArc.
               Inr (butlast acc @ [mergedArc]))
        else Inr (acc @ [current]))"

fun merge_arcs :: "range list \<Rightarrow> range list \<Rightarrow> range_error + range list" where
  "merge_arcs acc [] = Inr acc"
| "merge_arcs acc (r # rs) = bind_sum (merge_arc acc r) (\<lambda>acc'. merge_arcs acc' rs)"

text \<open>The gap after the arc \<open>i\<close>, and the largest one with the index of the arc that follows it.\<close>

definition gap_after :: "int \<Rightarrow> range list \<Rightarrow> nat \<Rightarrow> int" where
  "gap_after mx arcs i =
     (let arc = arcs ! i; nextArc = arcs ! ((i + 1) mod length arcs) in
      if start1 nextArc < end2 arc then mx - end2 arc + start1 nextArc else start1 nextArc - end2 arc)"

definition largest_gap :: "int \<Rightarrow> range list \<Rightarrow> int \<times> nat option" where
  "largest_gap mx arcs =
     fold (\<lambda>i (largestGap, idx).
         if gap_after mx arcs i > largestGap then (gap_after mx arcs i, Some ((i + 1) mod length arcs)) else (largestGap, idx))
       [0..<length arcs] (0, None)"

definition mergeRanges :: "nat list \<Rightarrow> range list \<Rightarrow> range_error + range" where
  "mergeRanges newId segments =
     (case segments of
        [] \<Rightarrow> Inl No_segments_to_merge
      | [r] \<Rightarrow> Inr r
      | r0 # _ \<Rightarrow>
          if \<not> list_all (\<lambda>x. r_hash x = r_hash r0) segments then Inl Segments_have_different_publicKeyHash
          else
            bind_sum (merge_arcs [] (js_sort start_cmp segments)) (\<lambda>merged.
              case merged of
                [m] \<Rightarrow> Inr m
              | _ \<Rightarrow>
                  let finalMode = (if list_ex (\<lambda>m. mode m = Strict) merged then Strict else NonStrict);
                      mx = maxValue (r_res r0)
                  in case largest_gap mx merged of
                       (_, None) \<Rightarrow> Inl Merged_index_out_of_range
                     | (g, Some i) \<Rightarrow>
                         make_range (r_res r0) newId (r_hash r0) (start1 (merged ! i)) (mx - g) (Some finalMode) None))"

section \<open>Replication changes\<close>

datatype changeType = Added (matured: bool) | Removed | Replaced

record rangeChange =
  rc_type :: changeType
  rc_range :: range
  rc_timestamp :: int

type_synonym rebalance_history = "(string, unit) cache"

definition change_cmp :: "rangeChange \<Rightarrow> rangeChange \<Rightarrow> int" where
  "change_cmp a b =
     (if r_timestamp (rc_range a) < r_timestamp (rc_range b) then -1
      else if r_timestamp (rc_range a) > r_timestamp (rc_range b) then 1 else 0)"

definition group_changes :: "rangeChange list \<Rightarrow> (string, rangeChange list) jsmap" where
  "group_changes changes =
     fold (\<lambda>c m. case jm_get m (r_hash (rc_range c)) of
             Some prev \<Rightarrow> jm_set m (r_hash (rc_range c)) (prev @ [c])
           | None \<Rightarrow> jm_set m (r_hash (rc_range c)) [c]) changes []"

text \<open>The inner loop: every newer addition that is not matured is compared with the removed range. The
  list is what follows the removal, each change with whether it is in \<open>consumed\<close>; results are the parts
  to remove, the list with the additions marked, and the parts to add, which are appended to it.\<close>

definition unmatured_addition :: "rangeChange \<Rightarrow> bool" where
  "unmatured_addition c = (case rc_type c of Added m \<Rightarrow> \<not> m | _ \<Rightarrow> False)"

fun cancel_loop ::
  "rangeChange \<Rightarrow> (bool \<times> rangeChange) list \<Rightarrow> rangeChange list \<times> (bool \<times> rangeChange) list \<times> (bool \<times> rangeChange) list" where
  "cancel_loop removed [] = ([], [], [])"
| "cancel_loop removed ((consumed, newer) # rest) =
     (let (out, rest', extra) = cancel_loop removed rest in
      if unmatured_addition newer then
        let (updatedRemoved, updatedNewer) = symmetricDifferenceRanges (rc_range removed) (rc_range newer)
        in (map (\<lambda>d. \<lparr>rc_type = Removed, rc_range = d, rc_timestamp = rc_timestamp removed\<rparr>) updatedRemoved @ out,
            (True, newer) # rest',
            map (\<lambda>d. (False, \<lparr>rc_type = Added False, rc_range = d, rc_timestamp = rc_timestamp newer\<rparr>)) updatedNewer @ extra)
      else (out, (consumed, newer) # rest', extra))"

definition is_removal :: "rangeChange \<Rightarrow> bool" where
  "is_removal c = (case rc_type c of Added _ \<Rightarrow> False | _ \<Rightarrow> True)"

lemma cancel_loop_removals:
  "length (filter (\<lambda>(_, c). is_removal c) (fst (snd (cancel_loop r vs)) @ snd (snd (cancel_loop r vs)))) =
     length (filter (\<lambda>(_, c). is_removal c) vs)"
proof (induction r vs rule: cancel_loop.induct)
  case (2 removed consumed newer rest)
  then show ?case
    by (cases "cancel_loop removed rest"; cases "symmetricDifferenceRanges (rc_range removed) (rc_range newer)")
      (auto simp: Let_def filter_empty_conv is_removal_def unmatured_addition_def comp_def filter_map split: changeType.splits)
qed simp

lemma cancelled_removals:
  assumes "(out, vs', extra) = cancel_loop r vs"
  shows "length (filter (\<lambda>(_, c). is_removal c) vs') + length (filter (\<lambda>(_, c). is_removal c) extra) =
    length (filter (\<lambda>(_, c). is_removal c) vs)"
  using cancel_loop_removals [of r vs] by (simp flip: assms)

function process_group ::
  "int \<Rightarrow> (range \<Rightarrow> string) \<Rightarrow> (bool \<times> rangeChange) list \<Rightarrow> rebalance_history \<Rightarrow> rangeChange list \<Rightarrow>
     cache_error + rangeChange list \<times> rebalance_history" where
  "process_group now rangeHash [] h results = Inr (results, h)"
| "process_group now rangeHash ((consumed, v) # vs) h results =
     (if is_removal v then
        bind_sum (cache_has now h (rangeHash (rc_range v))) (\<lambda>(known, h1).
          if known then
            let (out, vs', extra) = cancel_loop v vs
            in process_group now rangeHash (vs' @ extra) (snd (cache_del h1 (rangeHash (rc_range v)))) (results @ out)
          else process_group now rangeHash vs h1 (results @ [v]))
      else
        bind_sum (cache_add now h (rangeHash (rc_range v)) None 1) (\<lambda>h1.
          process_group now rangeHash vs h1 (if consumed then results else results @ [v])))"
  by pat_completeness auto
termination
  by (relation "measures [\<lambda>(now, rh, vs, h, rs). length (filter (\<lambda>(_, c). is_removal c) vs), \<lambda>(now, rh, vs, h, rs). length vs]")
    (auto dest: cancelled_removals)

fun process_groups ::
  "int \<Rightarrow> (range \<Rightarrow> string) \<Rightarrow> rangeChange list list \<Rightarrow> rebalance_history \<Rightarrow> rangeChange list \<Rightarrow> cache_error + rangeChange list \<times> rebalance_history" where
  "process_groups now rangeHash [] h all = Inr (all, h)"
| "process_groups now rangeHash (v # vs) h all =
     (if length v > 1 then
        bind_sum (process_group now rangeHash (map (Pair False) (js_sort change_cmp v)) h []) (\<lambda>(results, h1).
          process_groups now rangeHash vs h1 (all @ results))
      else
        bind_sum (cache_add now h (rangeHash (rc_range (hd v))) None 1) (\<lambda>h1.
          process_groups now rangeHash vs h1 (all @ v)))"

definition mergeReplicationChanges ::
  "int \<Rightarrow> (range \<Rightarrow> string) \<Rightarrow> rangeChange list \<Rightarrow> rebalance_history \<Rightarrow> cache_error + rangeChange list \<times> rebalance_history" where
  "mergeReplicationChanges now rangeHash changes rebalanceHistory =
     process_groups now rangeHash (jm_values (group_changes changes)) rebalanceHistory []"

text \<open>The map of \<open>debounceAggregationChanges\<close>: of the changes of one range the newest counts.\<close>

definition aggregate_add :: "(nat list, rangeChange) jsmap \<Rightarrow> rangeChange \<Rightarrow> (nat list, rangeChange) jsmap" where
  "aggregate_add aggregated change =
     (case jm_get aggregated (r_id (rc_range change)) of
        Some prev \<Rightarrow>
          if r_timestamp (rc_range prev) < r_timestamp (rc_range change)
          then jm_set aggregated (r_id (rc_range change)) change else aggregated
      | None \<Rightarrow> jm_set aggregated (r_id (rc_range change)) change)"

section \<open>Lemmas: merging\<close>

text \<open>Arcs that do not pass the origin and end before the next one starts.\<close>

definition flat :: "int \<Rightarrow> range \<Rightarrow> bool" where
  "flat mx r \<longleftrightarrow> 0 \<le> start1 r \<and> start1 r \<le> end1 r \<and> end1 r \<le> mx \<and> start1 r < mx \<and> start2 r = start1 r \<and> end2 r = end1 r"

fun separated :: "range list \<Rightarrow> bool" where
  "separated [] = True"
| "separated [r] = True"
| "separated (r # s # rs) = (end2 r < start1 s \<and> separated (s # rs))"

lemma separated_append:
  "separated (xs @ [y, z]) \<longleftrightarrow> separated (xs @ [y]) \<and> end2 y < start1 z"
  by (induction xs rule: separated.induct) auto

lemma separated_last: "separated (xs @ [y]) \<Longrightarrow> start1 z = start1 y \<Longrightarrow> separated (xs @ [z])"
  by (induction xs rule: separated.induct) auto

lemma contains_flat: "flat mx r \<Longrightarrow> contains r p \<longleftrightarrow> start1 r \<le> p \<and> p < end1 r"
  by (auto simp: flat_def contains_def)

definition covered :: "range list \<Rightarrow> int set" where
  "covered rs = {p. \<exists>r \<in> set rs. contains r p}"

lemma covered_simps [simp]:
  "covered [] = {}" "covered (r # rs) = {p. contains r p} \<union> covered rs" "covered (xs @ ys) = covered xs \<union> covered ys"
  by (auto simp: covered_def)

lemma merge_arc_ok:
  assumes "flat (maxValue res) r" and "r_res r = res" and "\<forall>x \<in> set acc. flat (maxValue res) x" and "separated acc"
    and "\<forall>x \<in> set acc. start1 x \<le> start1 r"
  shows "\<exists>acc'. merge_arc acc r = Inr acc' \<and> acc' \<noteq> [] \<and> (\<forall>x \<in> set acc'. flat (maxValue res) x) \<and> separated acc' \<and>
    covered acc' = covered acc \<union> {p. contains r p} \<and> (\<forall>x \<in> set acc'. start1 x \<le> start1 r)"
proof (cases "acc = []")
  case True
  with assms show ?thesis by (simp add: merge_arc_def)
next
  case False
  then obtain xs l where acc: "acc = xs @ [l]" by (metis append_butlast_last_id)
  have l: "flat (maxValue res) l" "start1 l \<le> start1 r" using assms(3,5) by (simp_all add: acc)
  show ?thesis
  proof (cases "start1 r \<le> end2 l")
    case True
    let ?e = "if end2 l > end2 r then end2 l else end2 r"
    obtain m where m: "make_range res (r_id l) (r_hash l) (start1 l) (?e - start1 l) (Some (either_strict (mode l) (mode r))) None = Inr m"
      "start1 m = start1 l" "end1 m = ?e" "start2 m = start1 l" "end2 m = ?e"
      using make_range_eq [of "start1 l" res "?e - start1 l"] l assms(1) by (auto simp: flat_def)
    have fm: "flat (maxValue res) m" using l assms(1) m by (auto simp: flat_def)
    have "{p. contains m p} = {p. contains l p} \<union> {p. contains r p}"
      using True l assms(1) by (auto simp: contains_flat [OF fm] contains_flat [OF l(1)] contains_flat [OF assms(1)] m flat_def)
    moreover have "separated (xs @ [m])" using assms(4) m(2) by (auto simp: acc intro: separated_last)
    moreover have "merge_arc acc r = Inr (xs @ [m])"
      using True m(1) assms(2) by (simp add: merge_arc_def acc Let_def)
    ultimately show ?thesis using fm m(2) l(2) assms(3,5) by (intro exI [of _ "xs @ [m]"]) (auto simp: acc)
  next
    case False
    then have "separated (acc @ [r])" using assms(4) by (simp add: acc separated_append)
    with False assms show ?thesis by (intro exI [of _ "acc @ [r]"]) (auto simp: merge_arc_def acc Let_def)
  qed
qed

lemma merge_arcs_ok:
  assumes "\<forall>r \<in> set rs. flat (maxValue res) r \<and> r_res r = res" and "sorted_wrt (\<lambda>a b. start1 a \<le> start1 b) rs"
    and "\<forall>x \<in> set acc. flat (maxValue res) x" and "separated acc" and "\<forall>x \<in> set acc. \<forall>r \<in> set rs. start1 x \<le> start1 r"
  shows "\<exists>arcs. merge_arcs acc rs = Inr arcs \<and> (acc \<noteq> [] \<or> rs \<noteq> [] \<longrightarrow> arcs \<noteq> []) \<and>
    (\<forall>x \<in> set arcs. flat (maxValue res) x) \<and> separated arcs \<and> covered arcs = covered acc \<union> covered rs"
  using assms
proof (induction rs arbitrary: acc)
  case (Cons r rs)
  obtain acc' where a: "merge_arc acc r = Inr acc'" "acc' \<noteq> []" "\<forall>x \<in> set acc'. flat (maxValue res) x" "separated acc'"
    "covered acc' = covered acc \<union> {p. contains r p}" "\<forall>x \<in> set acc'. start1 x \<le> start1 r"
    using merge_arc_ok [of res r acc] Cons.prems by auto
  have "\<forall>x \<in> set acc'. \<forall>y \<in> set rs. start1 x \<le> start1 y" using a(6) Cons.prems(2) by fastforce
  then obtain arcs where "merge_arcs acc' rs = Inr arcs" "arcs \<noteq> []" "\<forall>x \<in> set arcs. flat (maxValue res) x" "separated arcs"
    "covered arcs = covered acc' \<union> covered rs"
    using Cons.IH [OF _ _ a(3,4)] Cons.prems(1,2) a(2) by auto
  then show ?case using a(1,5) by (auto simp: Un_assoc)
qed simp

lemma separated_nth:
  assumes "separated arcs" and "\<forall>x \<in> set arcs. start1 x \<le> end2 x" and "i < j" and "j < length arcs"
  shows "end2 (arcs ! i) < start1 (arcs ! j)"
  using assms
proof (induction arcs arbitrary: i j rule: separated.induct)
  case (3 r s rs)
  show ?case
  proof (cases i)
    case 0
    show ?thesis
    proof (cases "j = 1")
      case False
      then have "end2 ((s # rs) ! 0) < start1 ((s # rs) ! (j - 1))" using "3.IH" [of 0 "j - 1"] "3.prems" 0 by auto
      moreover have "end2 r < start1 s" "start1 s \<le> end2 s" using "3.prems" by auto
      ultimately show ?thesis using 0 "3.prems"(3) by (cases j) auto
    qed (use 0 "3.prems" in auto)
  next
    case (Suc k)
    then show ?thesis using "3.IH" [of k "j - 1"] "3.prems" by (cases j) auto
  qed
qed auto

text \<open>The gap that is found is one of the gaps, and is not empty when there are several arcs.\<close>

lemma largest_gap_ok:
  assumes "1 < length arcs" and "0 < gap_after mx arcs 0"
  shows "\<exists>i < length arcs. \<exists>g. largest_gap mx arcs = (g, Some ((i + 1) mod length arcs)) \<and> g = gap_after mx arcs i \<and> 0 < g"
proof -
  let ?f = "\<lambda>i (largestGap, idx).
    if gap_after mx arcs i > largestGap then (gap_after mx arcs i, Some ((i + 1) mod length arcs)) else (largestGap, idx)"
  have "\<exists>i \<le> n. fold ?f [0..<Suc n] (0, None) = (gap_after mx arcs i, Some ((i + 1) mod length arcs)) \<and> 0 < gap_after mx arcs i" for n
  proof (induction n)
    case 0
    then show ?case using assms(2) by simp
  next
    case (Suc n)
    then obtain i where "i \<le> n" "fold ?f [0..<Suc n] (0, None) = (gap_after mx arcs i, Some ((i + 1) mod length arcs))" "0 < gap_after mx arcs i" by blast
    then show ?case by (cases "gap_after mx arcs (Suc n) > gap_after mx arcs i") (auto intro: exI [of _ "Suc n"] exI [of _ i])
  qed
  moreover have "[0..<length arcs] = [0..<Suc (length arcs - 1)]"
    using assms(1) by (intro arg_cong [of _ _ "upt 0"]) simp
  ultimately have "\<exists>i \<le> length arcs - 1. largest_gap mx arcs = (gap_after mx arcs i, Some ((i + 1) mod length arcs)) \<and> 0 < gap_after mx arcs i"
    unfolding largest_gap_def by simp
  then show ?thesis using assms(1) by (elim exE conjE) (intro exI conjI, auto)
qed

lemma mod_below:
  assumes "0 \<le> p" and "p < s" and "s < m"
  shows "(p - s) mod m = p - s + (m :: int)"
proof -
  have "(p - s) mod m = (p - s + m) mod m" by simp
  also have "\<dots> = p - s + m" using assms by (intro mod_pos_pos_trivial) auto
  finally show ?thesis .
qed

text \<open>The arc around the ring that leaves out one gap covers all arcs.\<close>

lemma arc_without_gap:
  assumes arcs: "\<forall>x \<in> set arcs. flat (maxValue res) x" "separated arcs" "1 < length arcs" and i: "i < length arcs"
  defines "k \<equiv> (i + 1) mod length arcs" and "g \<equiv> gap_after (maxValue res) arcs i"
  shows "(i + 1 < length arcs \<longrightarrow> 0 < g) \<and> g \<le> maxValue res \<and>
    (\<forall>p \<in> covered arcs. (p - start1 (arcs ! k)) mod maxValue res < maxValue res - g)"
proof -
  let ?mx = "maxValue res"
  have fl: "0 \<le> start1 (arcs ! j)" "start1 (arcs ! j) \<le> end2 (arcs ! j)" "end2 (arcs ! j) \<le> ?mx" "start1 (arcs ! j) < ?mx"
      "contains (arcs ! j) p \<longleftrightarrow> start1 (arcs ! j) \<le> p \<and> p < end2 (arcs ! j)" if "j < length arcs" for j p
    using arcs(1) nth_mem [OF that] contains_flat [of ?mx "arcs ! j"] by (auto simp: flat_def)
  have sep: "end2 (arcs ! a) < start1 (arcs ! b)" if "a < b" "b < length arcs" for a b
    using separated_nth [OF arcs(2) _ that] arcs(1) by (simp add: flat_def)
  have cov: "\<exists>j < length arcs. start1 (arcs ! j) \<le> p \<and> p < end2 (arcs ! j)" if p: "p \<in> covered arcs" for p
  proof -
    obtain r where "r \<in> set arcs" "contains r p" using p by (auto simp: covered_def)
    then obtain j where "j < length arcs" "contains (arcs ! j) p" by (auto simp: in_set_conv_nth)
    then show ?thesis using fl(5) by blast
  qed
  show ?thesis
  proof (cases "i + 1 < length arcs")
    case True
    then have k: "k = i + 1" by (simp add: k_def)
    have gap: "g = start1 (arcs ! k) - end2 (arcs ! i)" using sep [of i k] True by (simp add: g_def gap_after_def k Let_def)
    have "(p - start1 (arcs ! k)) mod ?mx < ?mx - g" if p: "p \<in> covered arcs" for p
    proof -
      obtain j where j: "j < length arcs" "start1 (arcs ! j) \<le> p" "p < end2 (arcs ! j)" using cov [OF p] by blast
      have p0: "0 \<le> p" "p < ?mx" using j fl [of j] by auto
      show ?thesis
      proof (cases "j \<le> i")
        case True
        have "p < end2 (arcs ! i)"
          using j True sep [of j i] fl [of i] i by (cases "j = i") auto
        moreover have lt: "p < start1 (arcs ! k)" using calculation sep [of i k] k \<open>i + 1 < length arcs\<close> by simp
        moreover have "(p - start1 (arcs ! k)) mod ?mx = p - start1 (arcs ! k) + ?mx"
          using mod_below [of p "start1 (arcs ! k)" ?mx] lt p0 fl(4) [of k] k \<open>i + 1 < length arcs\<close> by simp
        ultimately show ?thesis by (simp add: gap)
      next
        case False
        then have "start1 (arcs ! k) \<le> p"
          using j sep [of k j] fl [of k] k \<open>i + 1 < length arcs\<close> by (cases "j = k") auto
        moreover have "(p - start1 (arcs ! k)) mod ?mx = p - start1 (arcs ! k)"
          using calculation p0 fl(1) [of k] k \<open>i + 1 < length arcs\<close> by (intro mod_pos_pos_trivial) auto
        ultimately show ?thesis using p0 fl(1,2) [of i] i by (simp add: gap)
      qed
    qed
    then show ?thesis using sep [of i k] fl(1,2) [of i] fl(4) [of k] i k True by (auto simp: gap)
  next
    case False
    then have "i + 1 = length arcs" using i by simp
    then have i': "i = length arcs - 1" and k: "k = 0" by (simp_all add: k_def)
    have n0: "0 < length arcs" using arcs(3) by linarith
    have lt: "end2 (arcs ! 0) < start1 (arcs ! i)" using sep [of 0 i] arcs(3) i' by simp
    have less: "start1 (arcs ! 0) < end2 (arcs ! i)" using lt fl(2) [of 0] fl(2) [of i] i arcs(3) by linarith
    have gap: "g = ?mx - end2 (arcs ! i) + start1 (arcs ! 0)"
      using less k unfolding g_def gap_after_def k_def Let_def by simp
    have "(p - start1 (arcs ! k)) mod ?mx < ?mx - g" if p: "p \<in> covered arcs" for p
    proof -
      obtain j where j: "j < length arcs" "start1 (arcs ! j) \<le> p" "p < end2 (arcs ! j)" using cov [OF p] by blast
      have "p < end2 (arcs ! i)"
      proof (cases "j = i")
        case False
        then have "j < i" using j(1) i' by simp
        then show ?thesis using sep [of j i] fl(2) [of i] i j(3) by simp
      qed (use j(3) in simp)
      moreover have "start1 (arcs ! 0) \<le> p" using j sep [of 0 j] fl(2) [of 0] n0 by (cases "j = 0") auto
      moreover have "(p - start1 (arcs ! 0)) mod ?mx = p - start1 (arcs ! 0)"
        using calculation fl(1) [OF n0] fl(3) [OF i] by (intro mod_pos_pos_trivial) auto
      ultimately show ?thesis by (simp add: gap k)
    qed
    then show ?thesis using less False by (auto simp: gap)
  qed
qed

lemma start_cmp_on: "start_cmp = cmp_on start1"
  by (auto simp: fun_eq_iff start_cmp_def cmp_on_def)

interpretation start_sort: comparator start_cmp
  by (simp add: start_cmp_on key_cmp.comparator_axioms)

lemma start_sorted: "sorted_wrt (\<lambda>a b. start1 a \<le> start1 b) (js_sort start_cmp rs)"
  using start_sort.js_sort_sorted [of rs] unfolding cmp_sorted_def start_cmp_on
  by (rule sorted_wrt_mono_rel [rotated]) (simp add: cmp_on_def split: if_splits)

lemma mergeRanges_ok:
  assumes "segments \<noteq> []" and "\<forall>r \<in> set segments. flat (maxValue res) r \<and> r_res r = res \<and> r_hash r = h"
  shows "\<exists>r. mergeRanges newId segments = Inr r \<and> (\<forall>s \<in> set segments. \<forall>p. contains s p \<longrightarrow> contains r p)"
proof (cases "tl segments = []")
  case True
  with assms(1) show ?thesis by (cases segments) (auto simp: mergeRanges_def)
next
  case False
  then obtain r0 r1 rest where seg: "segments = r0 # r1 # rest" using assms(1) by (cases segments rule: remdups_adj.cases) auto
  have r0: "r_res r0 = res" "list_all (\<lambda>x. r_hash x = r_hash r0) segments" using assms(2) by (auto simp: seg list_all_iff)
  obtain arcs where arcs: "merge_arcs [] (js_sort start_cmp segments) = Inr arcs" "arcs \<noteq> []"
    "\<forall>x \<in> set arcs. flat (maxValue res) x" "separated arcs" "covered arcs = covered segments"
    using merge_arcs_ok [of "js_sort start_cmp segments" res "[]"] assms start_sorted
    by (auto simp: covered_def)
  have cov: "p \<in> covered arcs" if "s \<in> set segments" "contains s p" for s p
    using that unfolding arcs(5) by (auto simp: covered_def)
  show ?thesis
  proof (cases "length arcs = 1")
    case True
    then obtain m where m: "arcs = [m]" by (cases arcs) auto
    then have "mergeRanges newId segments = Inr m" using arcs(1) r0 by (simp add: mergeRanges_def seg)
    with cov m show ?thesis by auto
  next
    case False
    then have n: "1 < length arcs" using arcs(2) by (cases arcs) auto
    then obtain a0 a1 as where as: "arcs = a0 # a1 # as" by (cases arcs rule: remdups_adj.cases) auto
    have "0 < gap_after (maxValue res) arcs 0" using arc_without_gap [OF arcs(3,4) n, of 0] n arcs(2) by simp
    then obtain i where i: "i < length arcs"
      "largest_gap (maxValue res) arcs = (gap_after (maxValue res) arcs i, Some ((i + 1) mod length arcs))"
      "0 < gap_after (maxValue res) arcs i"
      using largest_gap_ok [OF n] by blast
    let ?a = "arcs ! ((i + 1) mod length arcs)" and ?w = "maxValue res - gap_after (maxValue res) arcs i"
    have g: "0 < gap_after (maxValue res) arcs i" "gap_after (maxValue res) arcs i \<le> maxValue res"
      "\<forall>p \<in> covered arcs. (p - start1 ?a) mod maxValue res < ?w"
      using arc_without_gap [OF arcs(3,4) n i(1)] i(3) by auto
    have "?a \<in> set arcs" using arcs(2) by (intro nth_mem mod_less_divisor) simp
    then have a: "0 \<le> start1 ?a" "start1 ?a < maxValue res" using arcs(3) by (auto simp: flat_def)
    let ?md = "if list_ex (\<lambda>m. mode m = Strict) arcs then Strict else NonStrict"
    obtain r where r: "make_range res newId (r_hash r0) (start1 ?a) ?w (Some ?md) None = Inr r"
      "start1 r = start1 ?a" "width r = ?w" "r_res r = res"
      using make_range_eq [of "start1 ?a" res ?w] a g by auto
    have rok: "range_ok r" using make_range_ok [OF r(1)] a g by auto
    have "mergeRanges newId segments = Inr r"
      using arcs(1) r0 i(2) r(1) by (simp add: mergeRanges_def seg as Let_def)
    moreover have "contains r p" if "s \<in> set segments" "contains s p" for s p
    proof -
      have "0 \<le> p \<and> p < maxValue res" using that assms(2) contains_flat [of "maxValue res" s p] by (force simp: flat_def)
      then show ?thesis using range_ok_ring [OF rok] cov [OF that] g(3) r(2-4) by auto
    qed
    ultimately show ?thesis by blast
  qed
qed

section \<open>Lemmas: the history of rebalanced ranges\<close>

lemma history_has:
  assumes "cache_inv h"
  obtains h1 where "cache_has now h k = Inr (k \<in> dom (cache_live h1), h1)" and "cache_inv h1" and "dom (cache_live h1) \<subseteq> dom (cache_live h)"
proof -
  obtain h1 where h1: "cache_trim now h = Inr h1" "cache_inv h1" using cache_trim_ok [OF assms] by blast
  have "(if k \<in> set (cache_deleted h1) then False else jm_has (cache_map h1) k) = (k \<in> dom (cache_live h1))"
    by (auto simp: cache_live_def jm_has_def)
  then have "cache_has now h k = Inr (k \<in> dom (cache_live h1), h1)" by (simp add: cache_has_def h1(1))
  then show thesis using that h1(2) cache_live_trim [OF assms h1(1)] by (metis map_le_implies_dom_le)
qed

lemma history_add:
  assumes "cache_inv h"
  obtains h1 where "cache_add now h k v 1 = Inr h1" and "cache_inv h1" and "dom (cache_live h1) \<subseteq> insert k (dom (cache_live h))"
proof -
  let ?h = "add_entry now h k v 1"
  have inv: "cache_inv ?h" by (rule cache_inv_add_entry [OF assms])
  obtain h1 where h1: "cache_trim now ?h = Inr h1" "cache_inv h1" using cache_trim_ok [OF inv] by blast
  have "dom (cache_live h1) \<subseteq> dom (cache_live ?h)" by (rule map_le_implies_dom_le [OF cache_live_trim [OF inv h1(1)]])
  then show thesis using that h1 by (auto simp: cache_add_def cache_live_add_entry)
qed

lemma process_group_all:
  assumes "cache_inv h" and "\<forall>v \<in> set vs. is_removal v \<longrightarrow> rh (rc_range v) \<notin> dom (cache_live h)"
    and "\<forall>v \<in> set vs. \<forall>d \<in> set vs. is_removal v \<and> \<not> is_removal d \<longrightarrow> rh (rc_range d) \<noteq> rh (rc_range v)"
  shows "\<exists>h1. process_group now rh (map (Pair False) vs) h rs = Inr (rs @ vs, h1) \<and> cache_inv h1 \<and>
    dom (cache_live h1) \<subseteq> dom (cache_live h) \<union> (\<lambda>v. rh (rc_range v)) ` set vs"
  using assms
proof (induction vs arbitrary: h rs)
  case (Cons v vs)
  show ?case
  proof (cases "is_removal v")
    case True
    obtain h1 where h1: "cache_has now h (rh (rc_range v)) = Inr (rh (rc_range v) \<in> dom (cache_live h1), h1)" "cache_inv h1"
      "dom (cache_live h1) \<subseteq> dom (cache_live h)" by (rule history_has [OF Cons.prems(1)])
    have "rh (rc_range v) \<notin> dom (cache_live h1)" using Cons.prems(2) True h1(3) by auto
    moreover have "\<forall>v \<in> set vs. is_removal v \<longrightarrow> rh (rc_range v) \<notin> dom (cache_live h1)" using Cons.prems(2) h1(3) by force
    moreover obtain h2 where "process_group now rh (map (Pair False) vs) h1 (rs @ [v]) = Inr ((rs @ [v]) @ vs, h2)" "cache_inv h2"
      "dom (cache_live h2) \<subseteq> dom (cache_live h1) \<union> (\<lambda>v. rh (rc_range v)) ` set vs"
      using Cons.IH [OF h1(2) calculation(2), of "rs @ [v]"] Cons.prems(3) by auto
    ultimately have "process_group now rh (map (Pair False) (v # vs)) h rs = Inr (rs @ v # vs, h2) \<and> cache_inv h2 \<and>
        dom (cache_live h2) \<subseteq> dom (cache_live h1) \<union> (\<lambda>v. rh (rc_range v)) ` set vs"
      using True h1(1) by auto
    then show ?thesis using h1(3) by (intro exI [of _ h2]) (simp only: list.set image_insert, blast)
  next
    case False
    obtain h1 where h1: "cache_add now h (rh (rc_range v)) None 1 = Inr h1" "cache_inv h1"
      "dom (cache_live h1) \<subseteq> insert (rh (rc_range v)) (dom (cache_live h))" by (rule history_add [OF Cons.prems(1)])
    moreover obtain h2 where "process_group now rh (map (Pair False) vs) h1 (rs @ [v]) = Inr ((rs @ [v]) @ vs, h2)" "cache_inv h2"
      "dom (cache_live h2) \<subseteq> dom (cache_live h1) \<union> (\<lambda>v. rh (rc_range v)) ` set vs"
      using Cons.IH [OF h1(2), of "rs @ [v]"] Cons.prems(2,3) h1(3) False by fastforce
    ultimately have "process_group now rh (map (Pair False) (v # vs)) h rs = Inr (rs @ v # vs, h2) \<and> cache_inv h2 \<and>
        dom (cache_live h2) \<subseteq> dom (cache_live h1) \<union> (\<lambda>v. rh (rc_range v)) ` set vs"
      using False by auto
    then show ?thesis using h1(3) by (intro exI [of _ h2]) (simp only: list.set image_insert, blast)
  qed
qed (auto intro: exI)

lemma process_groups_all:
  assumes "cache_inv h" and "\<forall>v \<in> set vs. v \<noteq> []" and "distinct (map (\<lambda>v. r_hash (rc_range (hd v))) vs)"
    and "\<forall>v \<in> set vs. \<forall>c \<in> set v. r_hash (rc_range c) = r_hash (rc_range (hd v))"
    and "\<forall>c \<in> set (concat vs). is_removal c \<longrightarrow> rh (rc_range c) \<notin> dom (cache_live h)"
    and "\<forall>c \<in> set (concat vs). \<forall>d \<in> set (concat vs). is_removal c \<and> c \<noteq> d \<longrightarrow> rh (rc_range c) \<noteq> rh (rc_range d)"
  shows "\<exists>rs h1. process_groups now rh vs h acc = Inr (acc @ rs, h1) \<and> mset rs = mset (concat vs)"
  using assms
proof (induction vs arbitrary: h acc)
  case (Cons v vs)
  have new: "c \<notin> set v" if c: "c \<in> set (concat vs)" for c
  proof
    assume "c \<in> set v"
    moreover obtain w where "w \<in> set vs" "c \<in> set w" using c by auto
    ultimately have "r_hash (rc_range (hd v)) = r_hash (rc_range (hd w))" using Cons.prems(4) by fastforce
    with \<open>w \<in> set vs\<close> Cons.prems(3) show False by force
  qed
  have "\<exists>rs h1. (if length v > 1 then process_group now rh (map (Pair False) (js_sort change_cmp v)) h []
      else bind_sum (cache_add now h (rh (rc_range (hd v))) None 1) (\<lambda>h1. Inr (v, h1))) = Inr (rs, h1) \<and> mset rs = mset v \<and>
      cache_inv h1 \<and> dom (cache_live h1) \<subseteq> dom (cache_live h) \<union> (\<lambda>v. rh (rc_range v)) ` set v"
  proof (cases "length v > 1")
    case True
    have "\<forall>x \<in> set v. \<forall>d \<in> set v. is_removal x \<and> \<not> is_removal d \<longrightarrow> rh (rc_range d) \<noteq> rh (rc_range x)"
    proof (intro ballI impI notI)
      fix x d assume x: "x \<in> set v" "d \<in> set v" "is_removal x \<and> \<not> is_removal d" "rh (rc_range d) = rh (rc_range x)"
      then have "x \<noteq> d" by blast
      moreover have "x \<in> set (concat (v # vs))" "d \<in> set (concat (v # vs))" using x by simp_all
      ultimately show False using Cons.prems(6) x(3,4) by metis
    qed
    with True show ?thesis
      using process_group_all [OF Cons.prems(1), of "js_sort change_cmp v" rh now "[]"] Cons.prems(5) by auto
  next
    case False
    obtain h1 where "cache_add now h (rh (rc_range (hd v))) None 1 = Inr h1" "cache_inv h1"
      "dom (cache_live h1) \<subseteq> insert (rh (rc_range (hd v))) (dom (cache_live h))" by (rule history_add [OF Cons.prems(1)])
    with False Cons.prems(2) show ?thesis by (auto simp: neq_Nil_conv)
  qed
  then obtain rs h1 where g: "(if length v > 1 then process_group now rh (map (Pair False) (js_sort change_cmp v)) h []
      else bind_sum (cache_add now h (rh (rc_range (hd v))) None 1) (\<lambda>h1. Inr (v, h1))) = Inr (rs, h1)" "mset rs = mset v"
      "cache_inv h1" "dom (cache_live h1) \<subseteq> dom (cache_live h) \<union> (\<lambda>v. rh (rc_range v)) ` set v" by blast
  have "rh (rc_range c) \<notin> dom (cache_live h1)" if c: "c \<in> set (concat vs)" "is_removal c" for c
  proof -
    have "rh (rc_range c) \<notin> (\<lambda>v. rh (rc_range v)) ` set v" using Cons.prems(6) new [OF c(1)] c by fastforce
    moreover have "rh (rc_range c) \<notin> dom (cache_live h)" using Cons.prems(5) c by auto
    ultimately show ?thesis using g(4) by blast
  qed
  then have fresh: "\<forall>c \<in> set (concat vs). is_removal c \<longrightarrow> rh (rc_range c) \<notin> dom (cache_live h1)" by blast
  have rest: "\<forall>v \<in> set vs. v \<noteq> []" "distinct (map (\<lambda>v. r_hash (rc_range (hd v))) vs)"
    using Cons.prems(2,3) by simp_all
  have same: "\<forall>v \<in> set vs. \<forall>c \<in> set v. r_hash (rc_range c) = r_hash (rc_range (hd v))"
    using Cons.prems(4) by (meson list.set_intros(2))
  have sub: "set (concat vs) \<subseteq> set (concat (v # vs))" by simp
  have diff: "\<forall>c \<in> set (concat vs). \<forall>d \<in> set (concat vs). is_removal c \<and> c \<noteq> d \<longrightarrow> rh (rc_range c) \<noteq> rh (rc_range d)"
  proof (intro ballI)
    fix c d assume "c \<in> set (concat vs)" "d \<in> set (concat vs)"
    then show "is_removal c \<and> c \<noteq> d \<longrightarrow> rh (rc_range c) \<noteq> rh (rc_range d)"
      by (rule bspec [OF bspec [OF Cons.prems(6) subsetD [OF sub]] subsetD [OF sub]])
  qed
  obtain rs' h2 where "process_groups now rh vs h1 (acc @ rs) = Inr ((acc @ rs) @ rs', h2)" "mset rs' = mset (concat vs)"
    using Cons.IH [OF g(3) rest same fresh diff, of "acc @ rs"] by blast
  moreover have "process_groups now rh (v # vs) h acc = process_groups now rh vs h1 (acc @ rs)"
    using g(1) by (cases "length v > 1"; cases "cache_add now h (rh (rc_range (hd v))) None 1") (auto simp del: bind_sum_eq_Inr)
  ultimately show ?case using g(2) by (intro exI [of _ "rs @ rs'"] exI [of _ h2]) simp
qed simp

lemma group_changes_ok:
  "jm_ok (group_changes cs) \<and> (\<forall>(k, v) \<in> set (group_changes cs). v \<noteq> [] \<and> (\<forall>c \<in> set v. r_hash (rc_range c) = k)) \<and>
   mset (concat (jm_values (group_changes cs))) = mset cs"
proof (induction cs rule: rev_induct)
  case (snoc c cs)
  let ?m = "group_changes cs" and ?k = "r_hash (rc_range c)"
  have step: "group_changes (cs @ [c]) = jm_set ?m ?k (case jm_get ?m ?k of Some prev \<Rightarrow> prev @ [c] | None \<Rightarrow> [c])"
    by (simp add: group_changes_def split: option.split)
  have ms: "mset (concat (jm_values (jm_set m k (case jm_get m k of Some prev \<Rightarrow> prev @ [c] | None \<Rightarrow> [c])))) =
      add_mset c (mset (concat (jm_values m)))" for m k
    by (induction m) (auto simp: jm_values_def)
  show ?case using snoc unfolding step
    using set_jm_set_subset [of ?m ?k]
    by (fastforce simp: ms split: option.splits dest: map_of_SomeD)
qed (simp add: group_changes_def jm_ok_def jm_values_def)

section \<open>Properties\<close>

text \<open>Merging the ranges of one owner covers all of them: for ranges that do not pass the origin the result
  contains every point that one of them contains.\<close>

theorem mergeRanges_covers:
  assumes "segments \<noteq> []" and "\<forall>r \<in> set segments. flat (maxValue res) r \<and> r_res r = res \<and> r_hash r = h"
  shows "\<exists>r. mergeRanges newId segments = Inr r \<and> (\<forall>s \<in> set segments. \<forall>p. contains s p \<longrightarrow> contains r p)"
  using assms by (rule mergeRanges_ok)

definition arc :: "int \<Rightarrow> int \<Rightarrow> range" where
  "arc s e = range_ex\<lparr>start1 := s, end1 := e, start2 := s, end2 := e, width := e - s\<rparr>"

theorem mergeRanges_covers_witness:
  "\<exists>r. mergeRanges [9] [arc 20 30, arc 5 8] = Inr r \<and> contains r 25 \<and> contains r 6"
proof -
  have "\<forall>r \<in> set [arc 20 30, arc 5 8]. flat (maxValue U32) r \<and> r_res r = U32 \<and> r_hash r = r_hash range_ex"
    by (simp add: arc_def flat_def range_ex_def MAX_U32_def)
  from mergeRanges_covers [OF _ this, of "[9]"] obtain r where r: "mergeRanges [9] [arc 20 30, arc 5 8] = Inr r"
    "\<forall>s \<in> set [arc 20 30, arc 5 8]. \<forall>p. contains s p \<longrightarrow> contains r p" by auto
  have "contains (arc 20 30) 25" "contains (arc 5 8) 6" by (simp_all add: arc_def contains_def)
  with r show ?thesis by auto
qed

text \<open>A range that passes the origin is lost when it is merged into one that starts before it: its end is
  smaller than the end of the other, so the result is the other range alone.\<close>

theorem mergeRanges_loses_wrapped:
  "let w = range_ex\<lparr>start1 := MAX_U32 - 5, end1 := MAX_U32, start2 := 0, end2 := 10, width := 15\<rparr> in
     range_ok w \<and> contains w 3 \<and>
     (case mergeRanges [9] [arc (MAX_U32 - 20) (MAX_U32 - 2), w] of Inl _ \<Rightarrow> False | Inr r \<Rightarrow> \<not> contains r 3)"
  by code_simp

text \<open>Distances on the ring: above and below count the steps in that direction, a full round for the point
  itself; closest is the smaller of the two, is symmetric and is at most half of the ring.\<close>

theorem getDistance_ring:
  assumes "0 \<le> a" and "a < m" and "0 \<le> b" and "b < m"
  shows "getDistance a b Above m = (if a = b then m else (a - b) mod m) \<and>
    getDistance a b Below m = (if a = b then m else (b - a) mod m) \<and>
    getDistance a b Closest m = min ((a - b) mod m) ((b - a) mod m) \<and>
    getDistance a b Closest m = getDistance b a Closest m \<and> 2 * getDistance a b Closest m \<le> m"
proof -
  consider "a = b" | "a < b" | "b < a" by linarith
  then show ?thesis
  proof cases
    case 1
    with assms show ?thesis by (simp add: getDistance_def)
  next
    case 2
    then have "(a - b) mod m = a - b + m" "(b - a) mod m = b - a" using assms mod_below [of a b m] by simp_all
    with 2 assms show ?thesis by (auto simp: getDistance_def Let_def min_def)
  next
    case 3
    then have "(b - a) mod m = b - a + m" "(a - b) mod m = a - b" using assms mod_below [of b a m] by simp_all
    with 3 assms show ?thesis by (auto simp: getDistance_def Let_def min_def)
  qed
qed

theorem getDistance_ring_witness: "getDistance 2 90 Closest 100 = 12"
  using getDistance_ring [of 2 100 90] by simp

text \<open>Changes are passed on: when no removed range is in the history and no two changes are about the same
  range, one of them a removal, then merging returns exactly the given changes, in another order.\<close>

theorem mergeReplicationChanges_passes_on:
  assumes "cache_inv h" and "\<forall>c \<in> set changes. is_removal c \<longrightarrow> rangeHash (rc_range c) \<notin> dom (cache_live h)"
    and "\<forall>c \<in> set changes. \<forall>d \<in> set changes. is_removal c \<and> c \<noteq> d \<longrightarrow> rangeHash (rc_range c) \<noteq> rangeHash (rc_range d)"
  shows "\<exists>rs h1. mergeReplicationChanges now rangeHash changes h = Inr (rs, h1) \<and> mset rs = mset changes"
proof -
  let ?m = "group_changes changes" and ?vs = "jm_values (group_changes changes)"
  have m: "jm_ok ?m" "\<forall>(k, v) \<in> set ?m. v \<noteq> [] \<and> (\<forall>c \<in> set v. r_hash (rc_range c) = k)" "mset (concat ?vs) = mset changes"
    using group_changes_ok [of changes] by blast+
  have set: "set (concat ?vs) = set changes" using mset_eq_setD [OF m(3)] .
  have key: "r_hash (rc_range (hd (snd x))) = fst x" if "x \<in> set ?m" for x using m(2) that by fastforce
  have "map (\<lambda>v. r_hash (rc_range (hd v))) ?vs = map fst ?m" using key by (simp add: jm_values_def)
  then have d: "distinct (map (\<lambda>v. r_hash (rc_range (hd v))) ?vs)" using m(1) by (simp add: jm_ok_def)
  have ne: "\<forall>v \<in> set ?vs. v \<noteq> []" using m(2) by (auto simp: jm_values_def)
  have same: "\<forall>v \<in> set ?vs. \<forall>c \<in> set v. r_hash (rc_range c) = r_hash (rc_range (hd v))"
    using m(2) key by (fastforce simp: jm_values_def)
  show ?thesis
    using process_groups_all [OF assms(1) ne d same, of rangeHash now "[]"] assms(2,3) m(3)
    unfolding set mergeReplicationChanges_def by auto
qed

definition change_of :: "changeType \<Rightarrow> range \<Rightarrow> rangeChange" where
  "change_of t r = \<lparr>rc_type = t, rc_range = r, rc_timestamp = r_timestamp r\<rparr>"

definition history_of :: "string list \<Rightarrow> rebalance_history" where
  "history_of ks = fold (\<lambda>k h. add_entry 0 h k None 1) ks
     \<lparr>cache_map = [], cache_deleted = [], cache_list = [], currentSize = 0, cache_max = 10000, cache_ttl = None\<rparr>"

lemma history_of_inv: "cache_inv (history_of ks)"
proof -
  have "cache_inv h \<Longrightarrow> cache_inv (fold (\<lambda>k h. add_entry 0 h k None 1) ks h)" for h :: rebalance_history
    by (induction ks arbitrary: h) (auto intro: cache_inv_add_entry)
  moreover have "cache_inv (\<lparr>cache_map = [], cache_deleted = [], cache_list = [], currentSize = 0, cache_max = 10000, cache_ttl = None\<rparr> :: rebalance_history)"
    by (simp add: cache_inv_def jm_ok_def)
  ultimately show ?thesis unfolding history_of_def by blast
qed

definition start_hash :: "range \<Rightarrow> string" where
  "start_hash r = (if start1 r < 10 then ''low'' else if start1 r < 25 then ''middle'' else ''high'')"

theorem mergeReplicationChanges_passes_on_witness:
  "\<exists>rs h1. mergeReplicationChanges 5 start_hash [change_of Removed (arc 0 10), change_of (Added False) (arc 20 30)] (history_of []) = Inr (rs, h1) \<and>
     mset rs = mset [change_of Removed (arc 0 10), change_of (Added False) (arc 20 30)]"
proof -
  have "dom (cache_live (history_of [])) = {}" by (auto simp: history_of_def cache_live_def)
  then show ?thesis
    using mergeReplicationChanges_passes_on [OF history_of_inv, of "[change_of Removed (arc 0 10), change_of (Added False) (arc 20 30)]" start_hash "[]" 5]
    by (simp add: change_of_def is_removal_def arc_def start_hash_def)
qed

text \<open>A range that is removed and replaced by a newer addition of the same owner, when the removed one
  was rebalanced before: what remains is the removal of exactly the points that are not in the
  addition, and the addition of exactly the points that were not in the removed range.\<close>

theorem mergeReplicationChanges_replaces:
  assumes "cache_inv h" and "rangeHash r \<in> dom (cache_live h)" and "cache_trim now h = Inr h"
    and "range_ok r" and "range_ok n" and "r_hash r = r_hash n" and "r_timestamp r < r_timestamp n" and "t \<in> {Removed, Replaced}"
  shows "\<exists>rs h1. mergeReplicationChanges now rangeHash [change_of t r, change_of (Added False) n] h = Inr (rs, h1) \<and>
    (\<forall>p. (\<exists>c \<in> set rs. is_removal c \<and> contains (rc_range c) p) \<longleftrightarrow> contains r p \<and> \<not> contains n p) \<and>
    (\<forall>p. (\<exists>c \<in> set rs. \<not> is_removal c \<and> contains (rc_range c) p) \<longleftrightarrow> contains n p \<and> \<not> contains r p)"
proof -
  let ?r = "change_of t r" and ?n = "change_of (Added False) n"
  obtain fa fb where d: "symmetricDifferenceRanges r n = (fa, fb)" by force
  note pts = symmetricDifference_points [OF assms(4,5) d]
  let ?out = "map (\<lambda>x. \<lparr>rc_type = Removed, rc_range = x, rc_timestamp = r_timestamp r\<rparr>) fa"
  let ?new = "map (\<lambda>x. \<lparr>rc_type = Added False, rc_range = x, rc_timestamp = r_timestamp n\<rparr>) fb"
  have rem: "is_removal ?r" "\<not> is_removal ?n" "unmatured_addition ?n"
    using assms(8) by (auto simp: is_removal_def unmatured_addition_def change_of_def)
  have grp: "jm_values (group_changes [?r, ?n]) = [[?r, ?n]]"
    using assms(6) by (simp add: group_changes_def change_of_def jm_values_def)
  have srt: "js_sort change_cmp [?r, ?n] = [?r, ?n]" using assms(7) by (simp add: change_cmp_def change_of_def)
  have has: "cache_has now h (rangeHash r) = Inr (True, h)"
    using assms(2,3) by (auto simp: cache_has_def cache_live_def jm_has_def split: if_splits)
  have can: "cancel_loop ?r [(False, ?n)] = (?out, [(True, ?n)], map (Pair False) ?new)"
    using rem(3) d by (simp add: change_of_def comp_def)
  let ?h = "snd (cache_del h (rangeHash r))"
  obtain h1 where h1: "cache_add now ?h (rangeHash n) None 1 = Inr h1" "cache_inv h1"
    by (rule history_add [OF cache_inv_del [OF assms(1)]])
  obtain h2 where h2: "process_group now rangeHash (map (Pair False) ?new) h1 ?out = Inr (?out @ ?new, h2)"
    using process_group_all [OF h1(2), of ?new rangeHash now ?out] by (auto simp: is_removal_def)
  have "process_group now rangeHash [(False, ?r), (False, ?n)] h [] = Inr (?out @ ?new, h2)"
    using rem has can h1(1) h2 by (simp add: change_of_def)
  then have "mergeReplicationChanges now rangeHash [?r, ?n] h = Inr (?out @ ?new, h2)"
    using grp srt by (simp add: mergeReplicationChanges_def)
  moreover have "(\<exists>c \<in> set (?out @ ?new). is_removal c \<and> contains (rc_range c) p) \<longleftrightarrow> contains r p \<and> \<not> contains n p" for p
    using pts(1) [of p] by (simp add: bex_Un is_removal_def)
  moreover have "(\<exists>c \<in> set (?out @ ?new). \<not> is_removal c \<and> contains (rc_range c) p) \<longleftrightarrow> contains n p \<and> \<not> contains r p" for p
    using pts(2) [of p] by (simp add: bex_Un is_removal_def)
  ultimately show ?thesis by blast
qed

theorem mergeReplicationChanges_replaces_witness:
  "\<exists>rs h1. mergeReplicationChanges 5 start_hash [change_of Replaced (arc 0 10), change_of (Added False) ((arc 5 15)\<lparr>r_timestamp := 8\<rparr>)]
       (history_of [''low'']) = Inr (rs, h1) \<and>
     (\<exists>c \<in> set rs. is_removal c \<and> contains (rc_range c) 3) \<and> (\<exists>c \<in> set rs. \<not> is_removal c \<and> contains (rc_range c) 12)"
proof -
  have "start_hash (arc 0 10) \<in> dom (cache_live (history_of [''low'']))" by code_simp
  moreover have "cache_trim 5 (history_of [''low'']) = Inr (history_of [''low''])" by code_simp
  moreover have "range_ok (arc 0 10)" "range_ok ((arc 5 15)\<lparr>r_timestamp := 8\<rparr>)" by code_simp+
  ultimately obtain rs h1 where "mergeReplicationChanges 5 start_hash
      [change_of Replaced (arc 0 10), change_of (Added False) ((arc 5 15)\<lparr>r_timestamp := 8\<rparr>)] (history_of [''low'']) = Inr (rs, h1)"
    "\<forall>p. (\<exists>c \<in> set rs. is_removal c \<and> contains (rc_range c) p) \<longleftrightarrow> contains (arc 0 10) p \<and> \<not> contains ((arc 5 15)\<lparr>r_timestamp := 8\<rparr>) p"
    "\<forall>p. (\<exists>c \<in> set rs. \<not> is_removal c \<and> contains (rc_range c) p) \<longleftrightarrow> contains ((arc 5 15)\<lparr>r_timestamp := 8\<rparr>) p \<and> \<not> contains (arc 0 10) p"
    using mergeReplicationChanges_replaces [OF history_of_inv, of start_hash "arc 0 10" "[''low'']" 5 "(arc 5 15)\<lparr>r_timestamp := 8\<rparr>" Replaced]
    by (auto simp: arc_def range_ex_def)
  moreover have "contains (arc 0 10) 3 \<and> \<not> contains ((arc 5 15)\<lparr>r_timestamp := 8\<rparr>) 3"
    "contains ((arc 5 15)\<lparr>r_timestamp := 8\<rparr>) 12 \<and> \<not> contains (arc 0 10) 12" by code_simp+
  ultimately show ?thesis by blast
qed

text \<open>Two removals of ranges that were rebalanced before cancel each other out of the result: neither is passed
  on, so nothing is rebalanced.\<close>

theorem mergeReplicationChanges_drops_removals:
  "map_sum id fst (mergeReplicationChanges 5 start_hash
     [change_of Removed (arc 0 10), change_of Removed (arc 20 30)] (history_of [''low'', ''middle''])) = Inr []"
  by code_simp

text \<open>A removal that is followed by two additions: the first one equals the removed range and cancels it, the
  second one, elsewhere, brings the removal back. The result removes a range that its owner still
  replicates, and the addition of it is gone.\<close>

theorem mergeReplicationChanges_removes_kept:
  "let kept = (arc 0 10)\<lparr>r_timestamp := 8\<rparr>; other = (arc 20 30)\<lparr>r_timestamp := 9\<rparr> in
   case mergeReplicationChanges 5 start_hash [change_of Removed (arc 0 10), change_of (Added False) kept, change_of (Added False) other]
          (history_of [''low'']) of
     Inl _ \<Rightarrow> False
   | Inr (rs, _) \<Rightarrow> map rc_type rs = [Removed, Added False] \<and> contains (rc_range (rs ! 0)) 5 \<and> rc_range (rs ! 1) = other"
  by code_simp

end
