(* ===== verification/Query.thy ===== *)
theory Query
  imports Prelude
begin

text \<open>
  Queries over indexed documents: \<open>packages/utils/indexer/interface/src\<close> (\<open>query.ts\<close>, \<open>id.ts\<close>,
  \<open>utils.ts\<close>) and the matcher of the in-memory engine, \<open>handleFieldQuery\<close> and \<open>handleQueryObject\<close> of
  \<open>packages/utils/indexer/simple/src/index.ts\<close>.

  A document is a JavaScript value (\<open>jsval\<close>): own properties and \<open>length\<close>, integers for numbers;
  inherited methods and fractions are not modelled. \<open>toBase64\<close>, \<open>localeCompare\<close>, \<open><\<close> on mixed
  values and the hooks for nested stores are fields of the environment \<open>index_env\<close>. Throwing is
  the left summand; the call stack has the depth \<open>stack\<close> of the environment, and a deeper call is
  the error \<open>RangeError\<close>.

  Shown here: on documents without arrays whose queried fields are present, the matcher decides the
  classical meaning of the query; conditions on the fields of an array's elements have to hold for
  one element together; identifiers and sort keys behave; and where the code departs from that.
\<close>

section \<open>Values and identifiers\<close>

datatype jsval =
    JUndef
  | JNull
  | JBool bool
  | JNum int
  | JBig int
  | JStr string
  | JBytes "nat list"
  | JArr "jsval list"
  | JObj "(string \<times> jsval) list"

datatype query_error =
    TypeError
  | RangeError
  | Number_is_not_u32
  | Number_is_not_u64
  | And_must_have_query
  | Or_must_have_query
  | Invalid_query_value
  | Nested_field_is_not_an_array
  | Unsupported
  | BigInt_is_not_u64
  | Unexpected_index_key
  | No_indexBy_property

text \<open>Reading a property: \<open>undefined\<close> and \<open>null\<close> throw.\<close>

fun js_get :: "jsval \<Rightarrow> string \<Rightarrow> query_error + jsval" where
  "js_get JUndef k = Inl TypeError"
| "js_get JNull k = Inl TypeError"
| "js_get (JObj ps) k = Inr (case map_of ps k of None \<Rightarrow> JUndef | Some v \<Rightarrow> v)"
| "js_get (JStr s) k = Inr (if k = ''length'' then JNum (int (length s)) else JUndef)"
| "js_get (JBytes s) k = Inr (if k = ''length'' then JNum (int (length s)) else JUndef)"
| "js_get (JArr s) k = Inr (if k = ''length'' then JNum (int (length s)) else JUndef)"
| "js_get _ k = Inr JUndef"

datatype idPrimitive = PStr string | PNum int | PBig int

datatype idKey = StringKey string | Uint8ArrayKey "nat list" | IntegerKey int | LargeIntegerKey int

fun id_primitive :: "(nat list \<Rightarrow> string) \<Rightarrow> idKey \<Rightarrow> idPrimitive" where
  "id_primitive b64 (StringKey s) = PStr s"
| "id_primitive b64 (Uint8ArrayKey b) = PStr (b64 b)"
| "id_primitive b64 (IntegerKey n) = PNum n"
| "id_primitive b64 (LargeIntegerKey n) = PBig n"

definition u64Max :: int where "u64Max = 18446744073709551615"

fun toId :: "jsval \<Rightarrow> query_error + idKey" where
  "toId (JStr s) = Inr (StringKey s)"
| "toId (JNum n) = Inr (IntegerKey n)"
| "toId (JBig n) = (if n \<le> u64Max \<and> n \<ge> 0 then Inr (LargeIntegerKey n) else Inl BigInt_is_not_u64)"
| "toId (JBytes b) = Inr (Uint8ArrayKey b)"
| "toId _ = Inl Unexpected_index_key"

fun toIdeable :: "idKey + jsval \<Rightarrow> jsval" where
  "toIdeable (Inl (StringKey s)) = JStr s"
| "toIdeable (Inl (Uint8ArrayKey b)) = JBytes b"
| "toIdeable (Inl (IntegerKey n)) = JNum n"
| "toIdeable (Inl (LargeIntegerKey n)) = JBig n"
| "toIdeable (Inr v) = v"

section \<open>Queries\<close>

datatype Compare = Equal | Greater | GreaterOrEqual | Less | LessOrEqual

fun compare :: "int \<Rightarrow> Compare \<Rightarrow> int \<Rightarrow> bool" where
  "compare test Equal value = (test = value)"
| "compare test Greater value = (test > value)"
| "compare test GreaterOrEqual value = (test \<ge> value)"
| "compare test Less value = (test < value)"
| "compare test LessOrEqual value = (test \<le> value)"

datatype SortDirection = ASC | DESC

record sort =
  s_key :: "string list"
  s_direction :: SortDirection

datatype StringMatchMethod = Exact | Prefix | Contains | OtherMethod nat

datatype field_query =
    ByteMatchQuery "nat list"
  | StringMatch string StringMatchMethod bool
  | IntegerCompare Compare int
  | IsNull
  | BoolQuery bool

datatype query =
    StateFieldQuery "string list" field_query
  | And "query list"
  | Or "query list"
  | Not query
  | Nested string "string list" "query list"

definition new_And :: "query list \<Rightarrow> query_error + query" where
  "new_And qs = (if length qs = 0 then Inl And_must_have_query else Inr (And qs))"

definition new_Or :: "query list \<Rightarrow> query_error + query" where
  "new_Or qs = (if length qs = 0 then Inl Or_must_have_query else Inr (Or qs))"

definition new_UnsignedIntegerValue :: "int \<Rightarrow> query_error + int" where
  "new_UnsignedIntegerValue n = (if n > 4294967295 \<or> n < 0 then Inl Number_is_not_u32 else Inr n)"

definition new_BigUnsignedIntegerValue :: "int \<Rightarrow> query_error + int" where
  "new_BigUnsignedIntegerValue n =
     (if n > 18446744073709551615 \<or> n < 0 then Inl Number_is_not_u64 else Inr n)"

text \<open>The constructor of \<open>IntegerCompare\<close> on a number or a bigint.\<close>

fun new_IntegerCompare :: "string list \<Rightarrow> jsval \<Rightarrow> Compare \<Rightarrow> query_error + query" where
  "new_IntegerCompare key (JBig n) c =
     bind_sum (new_BigUnsignedIntegerValue n) (\<lambda>v. Inr (StateFieldQuery key (IntegerCompare c v)))"
| "new_IntegerCompare key (JNum n) c =
     bind_sum (new_UnsignedIntegerValue n) (\<lambda>v. Inr (StateFieldQuery key (IntegerCompare c v)))"
| "new_IntegerCompare key _ c = Inl Number_is_not_u32"

fun getMatcher :: "string list \<Rightarrow> jsval \<Rightarrow> query_error + query" where
  "getMatcher key (JStr s) = Inr (StateFieldQuery key (StringMatch s Exact False))"
| "getMatcher key (JBig n) = new_IntegerCompare key (JBig n) Equal"
| "getMatcher key (JNum n) = new_IntegerCompare key (JNum n) Equal"
| "getMatcher key (JBool b) = Inr (StateFieldQuery key (BoolQuery b))"
| "getMatcher key JUndef = Inr (StateFieldQuery key IsNull)"
| "getMatcher key JNull = Inr (StateFieldQuery key IsNull)"
| "getMatcher key (JBytes b) = Inr (StateFieldQuery key (ByteMatchQuery b))"
| "getMatcher key _ = Inl Invalid_query_value"

text \<open>\<open>Object.entries\<close> of an array has its indices as keys.\<close>

fun nat_str :: "nat \<Rightarrow> string" where
  "nat_str n = (if n < 10 then [char_of (48 + n)] else nat_str (n div 10) @ [char_of (48 + n mod 10)])"

declare nat_str.simps [simp del]

text \<open>\<open>convertQueryRecordToObject\<close> on the entries of an object; a value with \<open>typeof v === "object"\<close> that is
  not a \<open>Uint8Array\<close> is entered again, also \<open>null\<close>, whose entries cannot be taken.\<close>

fun convert_entries :: "(string \<times> jsval) list \<Rightarrow> string list \<Rightarrow> query_error + query list"
and convert_array :: "nat \<Rightarrow> jsval list \<Rightarrow> string list \<Rightarrow> query_error + query list"
and convert_value :: "jsval \<Rightarrow> string list \<Rightarrow> query_error + query list" where
  "convert_entries [] path = Inr []"
| "convert_entries ((k, v) # ps) path =
     bind_sum (convert_value v (path @ [k])) (\<lambda>qs. bind_sum (convert_entries ps path) (\<lambda>rs. Inr (qs @ rs)))"
| "convert_array i [] path = Inr []"
| "convert_array i (v # vs) path =
     bind_sum (convert_value v (path @ [nat_str i])) (\<lambda>qs. bind_sum (convert_array (Suc i) vs path) (\<lambda>rs. Inr (qs @ rs)))"
| "convert_value v key =
     (case v of
        JNull \<Rightarrow> Inl TypeError
      | JObj ps \<Rightarrow> convert_entries ps key
      | JArr xs \<Rightarrow> convert_array 0 xs key
      | _ \<Rightarrow> bind_sum (getMatcher key v) (\<lambda>q. Inr [q]))"

fun convertQueryRecordToObject :: "jsval \<Rightarrow> string list \<Rightarrow> query_error + query list" where
  "convertQueryRecordToObject (JObj ps) path = convert_entries ps path"
| "convertQueryRecordToObject (JArr xs) path = convert_array 0 xs path"
| "convertQueryRecordToObject JNull path = Inl TypeError"
| "convertQueryRecordToObject JUndef path = Inl TypeError"
| "convertQueryRecordToObject _ path = Inr []"

datatype query_like = NoQuery | QueryList "query list" | OneQuery query | QueryRecord jsval

fun toQuery :: "query_like \<Rightarrow> query_error + query list" where
  "toQuery NoQuery = Inr []"
| "toQuery (QueryList qs) = Inr qs"
| "toQuery (OneQuery q) = Inr [q]"
| "toQuery (QueryRecord v) = convertQueryRecordToObject v []"

section \<open>Environment and sorting\<close>

record 'd index_env =
  toJs :: "'d \<Rightarrow> jsval"
  indexBy :: "string list"
  toBase64 :: "nat list \<Rightarrow> string"
  nestedMatch :: "jsval \<Rightarrow> bool"
  nestedIterate :: "jsval \<Rightarrow> query \<Rightarrow> nat"
  localeCompare :: "string \<Rightarrow> string \<Rightarrow> int"
  jsLess :: "jsval \<Rightarrow> jsval \<Rightarrow> bool"
  stack :: nat

fun extractFieldValue :: "jsval \<Rightarrow> string list \<Rightarrow> query_error + jsval" where
  "extractFieldValue doc [] = Inr doc"
| "extractFieldValue doc (k # path) = bind_sum (js_get doc k) (\<lambda>d. extractFieldValue d path)"

definition sortCompare :: "('d, 'm) index_env_scheme \<Rightarrow> jsval \<Rightarrow> jsval \<Rightarrow> int" where
  "sortCompare E av bv =
     (case (av, bv) of
        (JStr s, JStr t) \<Rightarrow> localeCompare E s t
      | _ \<Rightarrow> if jsLess E av bv then -1 else if jsLess E bv av then 1 else 0)"

fun extractSortCompare ::
  "('d, 'm) index_env_scheme \<Rightarrow> jsval \<Rightarrow> jsval \<Rightarrow> sort list \<Rightarrow> query_error + int" where
  "extractSortCompare E a b [] = Inr 0"
| "extractSortCompare E a b (s # sorts) =
     bind_sum (extractFieldValue a (s_key s)) (\<lambda>av.
     bind_sum (extractFieldValue b (s_key s)) (\<lambda>bv.
       let cmp = sortCompare E av bv
       in if cmp \<noteq> 0 then Inr (case s_direction s of ASC \<Rightarrow> cmp | DESC \<Rightarrow> - cmp)
          else extractSortCompare E a b sorts))"

section \<open>The matcher\<close>

text \<open>\<open>toLowerCase\<close> on the characters of Latin-1, \<open>includes\<close>, \<open>join\<close>.\<close>

definition lower :: "char \<Rightarrow> char" where
  "lower c = (let n = of_char c :: nat in
     if 65 \<le> n \<and> n \<le> 90 \<or> 192 \<le> n \<and> n \<le> 222 \<and> n \<noteq> 215 then char_of (n + 32) else c)"

fun startsWith :: "string \<Rightarrow> string \<Rightarrow> bool" where
  "startsWith s [] = True"
| "startsWith [] (c # cs) = False"
| "startsWith (d # ds) (c # cs) = (c = d \<and> startsWith ds cs)"

fun js_includes :: "string \<Rightarrow> string \<Rightarrow> bool" where
  "js_includes [] t = (t = [])"
| "js_includes (c # cs) t = (startsWith (c # cs) t \<or> js_includes cs t)"

fun join :: "string list \<Rightarrow> string" where
  "join [] = []"
| "join [x] = x"
| "join (x # xs) = x @ ''.'' @ join xs"

type_synonym hits = "(string, jsval list option) jsmap"

fun handleStringMatch :: "string \<Rightarrow> StringMatchMethod \<Rightarrow> bool \<Rightarrow> jsval \<Rightarrow> query_error + bool" where
  "handleStringMatch cmp m ci (JStr fv0) =
     (let fv = (if ci then map lower fv0 else fv0)
      in case m of Exact \<Rightarrow> Inr (fv = cmp) | Prefix \<Rightarrow> Inr (startsWith fv cmp)
         | Contains \<Rightarrow> Inr (js_includes fv cmp) | OtherMethod _ \<Rightarrow> Inl Unsupported)"
| "handleStringMatch cmp m ci _ = Inr False"

text \<open>The part of \<open>handleFieldQuery\<close> after the path is resolved; \<open>None\<close> is \<open>undefined\<close>.\<close>

fun match_leaf :: "('d, 'm) index_env_scheme \<Rightarrow> string list \<Rightarrow> field_query \<Rightarrow> jsval \<Rightarrow> query_error + bool option" where
  "match_leaf E key f obj =
     (if f = IsNull then Inr (Some (obj = JUndef \<or> obj = JNull))
      else if obj = JUndef \<or> obj = JNull then Inr None
      else case f of
        StringMatch value m ci \<Rightarrow>
          bind_sum (handleStringMatch (if ci then map lower value else value) m ci obj) (\<lambda>b. Inr (Some b))
      | ByteMatchQuery value \<Rightarrow>
          (case obj of
             JBytes b \<Rightarrow> Inr (Some (b = value))
           | _ \<Rightarrow> Inr (Some (key = indexBy E \<and> obj = JStr (toBase64 E value))))
      | IntegerCompare c value \<Rightarrow>
          (case obj of
             JBig n \<Rightarrow> Inr (Some (compare n c value))
           | JNum n \<Rightarrow> Inr (Some (compare n c value))
           | _ \<Rightarrow> Inr (Some False))
      | BoolQuery value \<Rightarrow> Inr (Some (obj = JBool value))
      | IsNull \<Rightarrow> Inr None)"

text \<open>An array, or bytes that are not compared as bytes, with its elements.\<close>

fun elements :: "field_query \<Rightarrow> jsval \<Rightarrow> jsval list option" where
  "elements f (JArr xs) = Some xs"
| "elements (ByteMatchQuery _) (JBytes b) = None"
| "elements f (JBytes b) = Some (map (\<lambda>n. JNum (int n)) b)"
| "elements f _ = None"

datatype resolved = AtArray nat "jsval list" | AtStore nat jsval | AtValue jsval

fun resolve :: "('d, 'm) index_env_scheme \<Rightarrow> field_query \<Rightarrow> nat \<Rightarrow> string list \<Rightarrow> jsval \<Rightarrow> query_error + resolved" where
  "resolve E f i [] obj = Inr (AtValue obj)"
| "resolve E f i (k # ks) obj =
     bind_sum (js_get obj k) (\<lambda>v.
       case elements f v of
         Some xs \<Rightarrow> Inr (AtArray (Suc i) xs)
       | None \<Rightarrow> if nestedMatch E v then Inr (AtStore (Suc i) v) else resolve E f (Suc i) ks v)"

text \<open>The loop of \<open>handleArrayResults\<close>: \<open>match\<close> is the recursive call. Without a path key there is no
  list of hits to push to.\<close>

fun array_loop ::
  "(jsval \<Rightarrow> hits \<Rightarrow> query_error + bool option \<times> hits) \<Rightarrow> bool \<Rightarrow> jsval list \<Rightarrow> jsval list \<Rightarrow> hits \<Rightarrow>
     query_error + jsval list \<times> hits" where
  "array_loop match keyed [] acc h = Inr (acc, h)"
| "array_loop match keyed (x # xs) acc h =
     bind_sum (match x h) (\<lambda>(r, h').
       if r = Some True then
         (if keyed then array_loop match keyed xs (acc @ [x]) h' else Inl TypeError)
       else array_loop match keyed xs acc h')"

definition array_results ::
  "(jsval \<Rightarrow> hits \<Rightarrow> query_error + bool option \<times> hits) \<Rightarrow> string list \<Rightarrow> jsval list \<Rightarrow> hits \<Rightarrow>
     query_error + bool option \<times> hits" where
  "array_results match path obj h =
     (let pathKey = join path; keyed = (pathKey \<noteq> []);
          innerHits = (if keyed then jm_get h pathKey else None)
      in if innerHits = Some None then Inr (Some False, h)
         else
           let objArr = (case innerHits of Some (Some (x # xs)) \<Rightarrow> x # xs | _ \<Rightarrow> obj)
           in bind_sum (array_loop match keyed objArr [] h) (\<lambda>(newHits, h').
                if \<not> keyed then Inr (Some False, h')
                else if newHits = [] then Inr (Some False, jm_set h' pathKey None)
                else Inr (Some True, jm_set h' pathKey (Some newHits))))"

fun handleFieldQuery ::
  "('d, 'm) index_env_scheme \<Rightarrow> nat \<Rightarrow> string list \<Rightarrow> field_query \<Rightarrow> jsval \<Rightarrow> nat \<Rightarrow> hits \<Rightarrow>
     query_error + bool option \<times> hits" where
  "handleFieldQuery E 0 key f obj skipKeys h = Inl RangeError"
| "handleFieldQuery E (Suc d) key f obj skipKeys h =
     (case elements f obj of
        Some xs \<Rightarrow> array_results (\<lambda>x h. handleFieldQuery E d key f x skipKeys h) key xs h
      | None \<Rightarrow>
          bind_sum (resolve E f skipKeys (drop skipKeys key) obj) (\<lambda>r.
            case r of
              AtArray i xs \<Rightarrow> array_results (\<lambda>x h. handleFieldQuery E d key f x i h) (take i key) xs h
            | AtStore i v \<Rightarrow> Inr (Some (nestedIterate E v (StateFieldQuery (drop i key) f) > 0), h)
            | AtValue v \<Rightarrow> bind_sum (match_leaf E key f v) (\<lambda>b. Inr (b, h))))"

text \<open>The loop over the elements of a \<open>Nested\<close> query; \<open>all\<close> evaluates its queries on one element.\<close>

fun nested_loop ::
  "(jsval \<Rightarrow> hits \<Rightarrow> query_error + bool \<times> hits) \<Rightarrow> jsval list \<Rightarrow> hits \<Rightarrow> query_error + bool option \<times> hits" where
  "nested_loop all [] h = Inr (Some False, h)"
| "nested_loop all (x # xs) h =
     bind_sum (all x h) (\<lambda>(b, h'). if b then Inr (Some True, h') else nested_loop all xs h')"

function handleQueryObject ::
  "('d, 'm) index_env_scheme \<Rightarrow> query \<Rightarrow> jsval \<Rightarrow> hits \<Rightarrow> nat \<Rightarrow> query_error + bool option \<times> hits"
and handle_and :: "('d, 'm) index_env_scheme \<Rightarrow> query list \<Rightarrow> jsval \<Rightarrow> hits \<Rightarrow> nat \<Rightarrow> query_error + bool option \<times> hits"
and handle_or :: "('d, 'm) index_env_scheme \<Rightarrow> query list \<Rightarrow> jsval \<Rightarrow> hits \<Rightarrow> nat \<Rightarrow> query_error + bool option \<times> hits"
and handle_all :: "('d, 'm) index_env_scheme \<Rightarrow> query list \<Rightarrow> nat \<Rightarrow> jsval \<Rightarrow> hits \<Rightarrow> query_error + bool \<times> hits" where
  "handleQueryObject E (StateFieldQuery key f) value h skipKeys =
     handleFieldQuery E (stack E) key f value skipKeys h"
| "handleQueryObject E (Nested qid path qs) value h skipKeys =
     bind_sum (extractFieldValue value (drop skipKeys path)) (\<lambda>arr.
       case arr of
         JArr xs \<Rightarrow> nested_loop (handle_all E qs (skipKeys + length path)) xs h
       | _ \<Rightarrow> Inl Nested_field_is_not_an_array)"
| "handleQueryObject E (And qs) value h skipKeys = handle_and E qs value h skipKeys"
| "handleQueryObject E (Or qs) value h skipKeys = handle_or E qs value h skipKeys"
| "handleQueryObject E (Not q) value h skipKeys =
     bind_sum (handleQueryObject E q value h skipKeys) (\<lambda>(r, h'). Inr (map_option HOL.Not r, h'))"
| "handle_and E [] value h skipKeys = Inr (Some True, h)"
| "handle_and E (q # qs) value h skipKeys =
     bind_sum (handleQueryObject E q value h skipKeys) (\<lambda>(r, h').
       if r \<noteq> Some True then Inr (r, h') else handle_and E qs value h' skipKeys)"
| "handle_or E [] value h skipKeys = Inr (Some False, h)"
| "handle_or E (q # qs) value h skipKeys =
     bind_sum (handleQueryObject E q value [] skipKeys) (\<lambda>(r, _).
       if r = Some True then Inr (Some True, h)
       else if r = None then Inr (None, h)
       else handle_or E qs value h skipKeys)"
| "handle_all E [] skipKeys value h = Inr (True, h)"
| "handle_all E (q # qs) skipKeys value h =
     bind_sum (handleQueryObject E q value h skipKeys) (\<lambda>(r, h').
       if r \<noteq> Some True then Inr (False, h') else handle_all E qs skipKeys value h')"
  by pat_completeness auto
termination
  by (relation "measure (\<lambda>x. case x of
      Inl (Inl (E, q, v, h, k)) \<Rightarrow> size q
    | Inl (Inr (E, qs, v, h, k)) \<Rightarrow> size_list size qs
    | Inr (Inl (E, qs, v, h, k)) \<Rightarrow> size_list size qs
    | Inr (Inr (E, qs, k, v, h)) \<Rightarrow> size_list size qs)") auto

section \<open>What a query means\<close>

text \<open>The meaning of a condition on a present value, in terms of strings and numbers only.\<close>

definition nullish :: "jsval \<Rightarrow> bool" where
  "nullish v \<longleftrightarrow> v = JUndef \<or> v = JNull"

definition fold_case :: "bool \<Rightarrow> string \<Rightarrow> string" where
  "fold_case ci s = (if ci then map lower s else s)"

fun field_holds :: "('d, 'm) index_env_scheme \<Rightarrow> string list \<Rightarrow> field_query \<Rightarrow> jsval \<Rightarrow> bool" where
  "field_holds E key IsNull v = nullish v"
| "field_holds E key (BoolQuery b) v = (v = JBool b)"
| "field_holds E key (IntegerCompare c n) v = (\<exists>m. (v = JNum m \<or> v = JBig m) \<and> compare m c n)"
| "field_holds E key (ByteMatchQuery b) v = (v = JBytes b \<or> key = indexBy E \<and> v = JStr (toBase64 E b))"
| "field_holds E key (StringMatch t m ci) v = (\<exists>s. v = JStr s \<and>
     (case m of
        Exact \<Rightarrow> fold_case ci s = fold_case ci t
      | Prefix \<Rightarrow> (\<exists>r. fold_case ci s = fold_case ci t @ r)
      | Contains \<Rightarrow> (\<exists>l r. fold_case ci s = l @ fold_case ci t @ r)
      | OtherMethod _ \<Rightarrow> False))"

text \<open>The condition can be decided on the value: it is present, and the method is one of the three.\<close>

fun decidable_on :: "field_query \<Rightarrow> jsval \<Rightarrow> bool" where
  "decidable_on IsNull v = True"
| "decidable_on (StringMatch t (OtherMethod n) ci) v = False"
| "decidable_on f v = (\<not> nullish v)"

lemma startsWith_iff: "startsWith s t \<longleftrightarrow> (\<exists>r. s = t @ r)"
  by (induction s t rule: startsWith.induct) auto

lemma js_includes_iff: "js_includes s t \<longleftrightarrow> (\<exists>l r. s = l @ t @ r)"
proof (induction s)
  case (Cons c cs)
  have "(\<exists>l r. c # cs = l @ t @ r) \<longleftrightarrow> (\<exists>r. c # cs = t @ r) \<or> (\<exists>l r. cs = l @ t @ r)"
    by (metis append_Cons append_Nil append_eq_Cons_conv)
  with Cons show ?case by (simp add: startsWith_iff)
qed simp

lemma match_leaf_holds:
  assumes "decidable_on f v"
  shows "match_leaf E key f v = Inr (Some (field_holds E key f v))"
proof (cases f)
  case (StringMatch t m ci)
  with assms have v: "v \<noteq> JUndef" "v \<noteq> JNull" by (cases m; simp add: nullish_def)+
  show ?thesis
  proof (cases "\<exists>s. v = JStr s")
    case True
    then obtain s where "v = JStr s" by blast
    with StringMatch assms show ?thesis
      by (cases m) (auto simp: fold_case_def startsWith_iff js_includes_iff)
  next
    case False
    then have "handleStringMatch x m ci v = Inr False" for x by (cases v) auto
    with StringMatch v False show ?thesis by simp
  qed
next
  case (ByteMatchQuery b)
  with assms show ?thesis by (cases v) (auto simp: nullish_def)
next
  case (IntegerCompare c n)
  with assms show ?thesis by (cases v) (auto simp: nullish_def)
next
  case IsNull
  then show ?thesis by (simp add: nullish_def)
next
  case (BoolQuery b)
  with assms show ?thesis by (auto simp: nullish_def)
qed

text \<open>A document is plain for a query when every path the query names leads, through no array and no
  nested store, to a value its condition can be decided on.\<close>

definition plain_field :: "('d, 'm) index_env_scheme \<Rightarrow> jsval \<Rightarrow> nat \<Rightarrow> string list \<Rightarrow> field_query \<Rightarrow> jsval \<Rightarrow> bool" where
  "plain_field E doc i key f v \<longleftrightarrow> elements f doc = None \<and> resolve E f i (drop i key) doc = Inr (AtValue v) \<and> decidable_on f v"

fun plain_query :: "('d, 'm) index_env_scheme \<Rightarrow> jsval \<Rightarrow> query \<Rightarrow> bool" where
  "plain_query E doc (StateFieldQuery key f) = (\<exists>v. plain_field E doc 0 key f v)"
| "plain_query E doc (And qs) = (\<forall>q \<in> set qs. plain_query E doc q)"
| "plain_query E doc (Or qs) = (\<forall>q \<in> set qs. plain_query E doc q)"
| "plain_query E doc (Not q) = plain_query E doc q"
| "plain_query E doc (Nested qid path qs) = False"

fun query_holds :: "('d, 'm) index_env_scheme \<Rightarrow> jsval \<Rightarrow> query \<Rightarrow> bool" where
  "query_holds E doc (StateFieldQuery key f) = (\<exists>v. plain_field E doc 0 key f v \<and> field_holds E key f v)"
| "query_holds E doc (And qs) = (\<forall>q \<in> set qs. query_holds E doc q)"
| "query_holds E doc (Or qs) = (\<exists>q \<in> set qs. query_holds E doc q)"
| "query_holds E doc (Not q) = (\<not> query_holds E doc q)"
| "query_holds E doc (Nested qid path qs) = False"

lemma handleFieldQuery_plain:
  assumes "0 < d" and "plain_field E doc i key f v"
  shows "handleFieldQuery E d key f doc i h = Inr (Some (field_holds E key f v), h)"
  using assms by (cases d) (auto simp: plain_field_def match_leaf_holds simp del: match_leaf.simps)

lemma plain_field_unique: "plain_field E doc i key f v \<Longrightarrow> plain_field E doc i key f w \<Longrightarrow> v = w"
  by (simp add: plain_field_def)

lemma handle_plain_field:
  "0 < stack E \<Longrightarrow> plain_query E doc (StateFieldQuery key f) \<Longrightarrow>
     handleQueryObject E (StateFieldQuery key f) doc h 0 = Inr (Some (query_holds E doc (StateFieldQuery key f)), h)"
  using handleFieldQuery_plain [of "stack E" E doc 0 key f _ h] by (auto dest: plain_field_unique)

lemma handle_plain:
  shows "0 < stack E \<Longrightarrow> plain_query E doc q \<Longrightarrow>
      handleQueryObject E q doc h 0 = Inr (Some (query_holds E doc q), h)"
    and "0 < stack E \<Longrightarrow> \<forall>q \<in> set qs. plain_query E doc q \<Longrightarrow>
      handle_and E qs doc h 0 = Inr (Some (\<forall>q \<in> set qs. query_holds E doc q), h)"
    and "0 < stack E \<Longrightarrow> \<forall>q \<in> set qs. plain_query E doc q \<Longrightarrow>
      handle_or E qs doc h 0 = Inr (Some (\<exists>q \<in> set qs. query_holds E doc q), h)"
    and True
proof (induction E q doc h "0::nat" and E qs doc h "0::nat" and E qs doc h "0::nat" and E qs "0::nat" doc h
    rule: handleQueryObject_handle_and_handle_or_handle_all.induct)
  case (1 E key f doc h)
  then show ?case by (rule handle_plain_field)
qed auto

section \<open>Arrays\<close>

text \<open>One condition on the fields of the elements of an array: the elements looked at are those of the
  array, or the hits an earlier condition left, and the hits are those that satisfy it.\<close>

lemma array_loop_filter:
  assumes "\<forall>x \<in> set xs. \<forall>h. match x h = Inr (Some (P x), h)"
  shows "array_loop match True xs acc h = Inr (acc @ filter P xs, h)"
  using assms by (induction xs arbitrary: acc) auto

lemma array_results_filter:
  assumes "\<forall>x \<in> set ys. \<forall>h. match x h = Inr (Some (P x), h)" and "join path = k" and "k \<noteq> []"
    and "jm_get h k = None \<and> ys = xs \<or> jm_get h k = Some (Some ys) \<and> ys \<noteq> []"
  shows "array_results match path xs h =
    Inr (Some (filter P ys \<noteq> []), jm_set h k (if filter P ys = [] then None else Some (filter P ys)))"
proof -
  have arr: "(case jm_get h k of Some (Some (x # zs)) \<Rightarrow> x # zs | _ \<Rightarrow> xs) = ys"
    using assms(4) by (cases ys) auto
  have "jm_get h k \<noteq> Some None" using assms(4) by auto
  with assms(2,3) arr array_loop_filter [OF assms(1), of "[]" h] show ?thesis
    by (auto simp: array_results_def Let_def)
qed

definition elem_holds :: "('d, 'm) index_env_scheme \<Rightarrow> string \<Rightarrow> string list \<times> field_query \<Rightarrow> jsval \<Rightarrow> bool" where
  "elem_holds E k c x = (case c of (rest, f) \<Rightarrow>
     \<exists>v. plain_field E x 1 (k # rest) f v \<and> field_holds E (k # rest) f v)"

definition elem_plain :: "('d, 'm) index_env_scheme \<Rightarrow> string \<Rightarrow> string list \<times> field_query \<Rightarrow> jsval \<Rightarrow> bool" where
  "elem_plain E k c x = (case c of (rest, f) \<Rightarrow> \<exists>v. plain_field E x 1 (k # rest) f v)"

lemma field_on_array:
  assumes "1 < d" and "k \<noteq> []" and "map_of ps k = Some (JArr xs)"
    and "\<forall>x \<in> set ys. elem_plain E k (rest, f) x"
    and "jm_get h k = None \<and> ys = xs \<or> jm_get h k = Some (Some ys) \<and> ys \<noteq> []"
  shows "handleFieldQuery E d (k # rest) f (JObj ps) 0 h =
    (let hs = filter (elem_holds E k (rest, f)) ys in
       Inr (Some (hs \<noteq> []), jm_set h k (if hs = [] then None else Some hs)))"
proof -
  obtain d' where d: "d = Suc d'" "0 < d'" using assms(1) by (cases d) auto
  have m: "\<forall>x \<in> set ys. \<forall>h. handleFieldQuery E d' (k # rest) f x 1 h = Inr (Some (elem_holds E k (rest, f) x), h)"
  proof (intro ballI allI)
    fix x h assume "x \<in> set ys"
    then obtain v where v: "plain_field E x 1 (k # rest) f v" using assms(4) by (auto simp: elem_plain_def)
    then have "elem_holds E k (rest, f) x = field_holds E (k # rest) f v"
      by (auto simp: elem_holds_def dest: plain_field_unique)
    with handleFieldQuery_plain [OF d(2) v] show
      "handleFieldQuery E d' (k # rest) f x 1 h = Inr (Some (elem_holds E k (rest, f) x), h)" by simp
  qed
  have "handleFieldQuery E d (k # rest) f (JObj ps) 0 h =
      array_results (\<lambda>x h. handleFieldQuery E d' (k # rest) f x 1 h) [k] xs h"
    using assms(3) by (simp add: d)
  also have "\<dots> = (let hs = filter (elem_holds E k (rest, f)) ys in
       Inr (Some (hs \<noteq> []), jm_set h k (if hs = [] then None else Some hs)))"
    using array_results_filter [OF m _ assms(2,5), of "[k]"] by (simp add: Let_def)
  finally show ?thesis .
qed

lemma and_on_array:
  assumes "1 < stack E" and "k \<noteq> []" and "map_of ps k = Some (JArr xs)"
    and "\<forall>x \<in> set ys. \<forall>c \<in> set cs. elem_plain E k c x"
    and "jm_get h k = None \<and> ys = xs \<and> cs \<noteq> [] \<or> jm_get h k = Some (Some ys) \<and> ys \<noteq> []"
  shows "\<exists>h'. handle_and E (map (\<lambda>(rest, f). StateFieldQuery (k # rest) f) cs) (JObj ps) h 0 =
    Inr (Some (\<exists>x \<in> set ys. \<forall>c \<in> set cs. elem_holds E k c x), h')"
  using assms(4,5)
proof (induction cs arbitrary: ys h)
  case Nil
  then have "\<exists>x. x \<in> set ys" by (metis list.set_intros(1) neq_Nil_conv)
  then show ?case by auto
next
  case (Cons c cs)
  obtain rest f where c: "c = (rest, f)" by (cases c)
  let ?hs = "filter (elem_holds E k (rest, f)) ys"
  have f: "handleFieldQuery E (stack E) (k # rest) f (JObj ps) 0 h =
       Inr (Some (?hs \<noteq> []), jm_set h k (if ?hs = [] then None else Some ?hs))"
    using field_on_array [OF assms(1-3), of ys E rest f h] Cons.prems c by (auto simp: Let_def)
  show ?case
  proof (cases "?hs = []")
    case True
    then have "\<not> (\<exists>x \<in> set ys. \<forall>c \<in> set (c # cs). elem_holds E k c x)"
      by (auto simp: c filter_empty_conv)
    with f True show ?thesis by (simp add: c)
  next
    case False
    have "\<exists>h'. handle_and E (map (\<lambda>(rest, f). StateFieldQuery (k # rest) f) cs) (JObj ps)
        (jm_set h k (Some ?hs)) 0 = Inr (Some (\<exists>x \<in> set ?hs. \<forall>c \<in> set cs. elem_holds E k c x), h')"
      using Cons.prems(1) False by (intro Cons.IH) auto
    moreover have "(\<exists>x \<in> set ?hs. \<forall>c \<in> set cs. elem_holds E k c x) = (\<exists>x \<in> set ys. \<forall>c \<in> set (c # cs). elem_holds E k c x)"
      by (auto simp: c)
    ultimately show ?thesis using f False by (simp add: c)
  qed
qed

section \<open>Properties\<close>

definition env_ex :: "jsval index_env" where
  "env_ex = \<lparr>toJs = (\<lambda>v. v), indexBy = [''id''], toBase64 = (\<lambda>b. map char_of b), nestedMatch = (\<lambda>_. False),
     nestedIterate = (\<lambda>_ _. 0), localeCompare = (\<lambda>s t. 0), jsLess = (\<lambda>_ _. False), stack = 9\<rparr>"

definition doc_ex :: jsval where
  "doc_ex = JObj [(''id'', JStr ''x''), (''n'', JNum 3),
     (''arr'', JArr [JObj [(''a'', JNum 1), (''b'', JBool True)], JObj [(''a'', JNum 2), (''b'', JBool False)]])]"

text \<open>(C29) On a document that is plain for a query, the matcher neither throws nor answers
  \<open>undefined\<close>, it leaves the inner hits alone, and its answer is the classical meaning of the
  query: conjunction, disjunction and negation of conditions on the fields, where a string
  condition is equality, prefix or containment up to case, and so on.\<close>

theorem handleQueryObject_decides:
  assumes "0 < stack E" and "plain_query E doc q"
  shows "handleQueryObject E q doc h 0 = Inr (Some (query_holds E doc q), h)"
  by (rule handle_plain(1) [OF assms])

theorem handleQueryObject_decides_witness:
  "handleQueryObject env_ex (And [StateFieldQuery [''n''] (IntegerCompare Greater 2),
     Not (StateFieldQuery [''id''] (StringMatch ''X'' Exact False))]) doc_ex [] 0 = Inr (Some True, [])"
proof -
  let ?q = "And [StateFieldQuery [''n''] (IntegerCompare Greater 2), Not (StateFieldQuery [''id''] (StringMatch ''X'' Exact False))]"
  have p: "plain_query env_ex doc_ex ?q" and e: "0 < stack env_ex" and t: "query_holds env_ex doc_ex ?q"
    by (auto simp: plain_field_def doc_ex_def env_ex_def nullish_def fold_case_def)
  show ?thesis using handleQueryObject_decides [OF e p, of "[]"] t by simp
qed

text \<open>Conditions on the fields of an array's elements hold together: a conjunction of conditions
  below the same array field is true exactly when one element satisfies all of them, through the
  inner hits that each condition leaves for the next one.\<close>

theorem array_conditions_joint:
  assumes "1 < stack E" and "k \<noteq> []" and "map_of ps k = Some (JArr xs)" and "cs \<noteq> []"
    and "\<forall>x \<in> set xs. \<forall>c \<in> set cs. elem_plain E k c x"
  shows "\<exists>h'. handleQueryObject E (And (map (\<lambda>(rest, f). StateFieldQuery (k # rest) f) cs)) (JObj ps) [] 0 =
    Inr (Some (\<exists>x \<in> set xs. \<forall>c \<in> set cs. elem_holds E k c x), h')"
  using and_on_array [OF assms(1-3,5), of "[]"] assms(4) by simp

theorem array_conditions_joint_witness:
  "\<exists>h'. handleQueryObject env_ex (And [StateFieldQuery [''arr'', ''a''] (IntegerCompare Equal 1),
     StateFieldQuery [''arr'', ''b''] (BoolQuery False)]) doc_ex [] 0 = Inr (Some False, h')"
proof -
  let ?xs = "[JObj [(''a'', JNum 1), (''b'', JBool True)], JObj [(''a'', JNum 2), (''b'', JBool False)]]"
  let ?cs = "[([''a''], IntegerCompare Equal 1), ([''b''], BoolQuery False)]"
  have e: "1 < stack env_ex" "''arr'' \<noteq> []" "?cs \<noteq> []" by (simp_all add: env_ex_def)
  have m: "map_of [(''id'', JStr ''x''), (''n'', JNum 3), (''arr'', JArr ?xs)] ''arr'' = Some (JArr ?xs)" by simp
  have p: "\<forall>x \<in> set ?xs. \<forall>c \<in> set ?cs. elem_plain env_ex ''arr'' c x"
    by (auto simp: elem_plain_def plain_field_def env_ex_def nullish_def)
  have n: "(\<exists>x \<in> set ?xs. \<forall>c \<in> set ?cs. elem_holds env_ex ''arr'' c x) = False"
    by (auto simp: elem_holds_def plain_field_def env_ex_def nullish_def)
  show ?thesis
    using array_conditions_joint [OF e(1,2) m e(3) p] unfolding n doc_ex_def list.map prod.case .
qed

lemma nested_array_loop:
  "handleFieldQuery E d [''k''] f (JArr [JNum 1]) (Suc 0) [(''k'', Some [JArr [JNum 1]])] = Inl RangeError"
proof (induction d)
  case (Suc d)
  then show ?case by (simp add: array_results_def Let_def)
qed simp

text \<open>Two conditions on a field that holds an array of arrays exhaust the call stack, whatever its
  depth: the inner array is looked up under the path of the outer one, finds the outer hits and
  starts over. One condition alone is answered.\<close>

theorem nested_array_exhausts_stack:
  assumes "3 < stack E"
  shows "let doc = JObj [(''k'', JArr [JArr [JNum 1]])]; q = StateFieldQuery [''k''] (IntegerCompare Equal 1)
    in (\<exists>h. handleQueryObject E q doc [] 0 = Inr (Some True, h)) \<and>
       handleQueryObject E (And [q, q]) doc [] 0 = Inl RangeError"
proof -
  obtain d where d: "stack E = Suc (Suc (Suc (Suc d)))"
    using assms by (metis Suc_leI add_2_eq_Suc less_iff_Suc_add numeral_3_eq_3 add_Suc)
  show ?thesis
    using nested_array_loop [of E "Suc (Suc (Suc d))" "IntegerCompare Equal 1"]
    by (simp add: d Let_def array_results_def del: bind_sum_eq_Inl)
qed

theorem nested_array_exhausts_stack_witness:
  "handleQueryObject env_ex (And [StateFieldQuery [''k''] (IntegerCompare Equal 1), StateFieldQuery [''k''] (IntegerCompare Equal 1)])
     (JObj [(''k'', JArr [JArr [JNum 1]])]) [] 0 = Inl RangeError"
proof -
  have "3 < stack env_ex" by (simp add: env_ex_def)
  from nested_array_exhausts_stack [OF this] show ?thesis by (simp add: Let_def)
qed

text \<open>A disjunction stops at the first alternative whose field is missing: with \<open>undefined\<close> for it,
  the answer is \<open>undefined\<close>, and the document is not matched although a later alternative holds.\<close>

theorem or_missing_field_hides_match:
  assumes "0 < stack E" and "\<not> nestedMatch E JUndef"
  shows "let doc = JObj [(''b'', JNum 2)];
      missing = StateFieldQuery [''a''] (IntegerCompare Equal 1); present = StateFieldQuery [''b''] (IntegerCompare Equal 2)
    in handleQueryObject E (Or [missing, present]) doc h 0 = Inr (None, h) \<and>
       (\<not> nestedMatch E (JNum 2) \<longrightarrow> handleQueryObject E (Or [present, missing]) doc h 0 = Inr (Some True, h))"
proof -
  obtain d where "stack E = Suc d" using assms(1) by (cases "stack E") auto
  with assms(2) show ?thesis by (simp add: Let_def)
qed

theorem or_missing_field_hides_match_witness:
  "handleQueryObject env_ex (Or [StateFieldQuery [''a''] (IntegerCompare Equal 1),
     StateFieldQuery [''b''] (IntegerCompare Equal 2)]) (JObj [(''b'', JNum 2)]) [] 0 = Inr (None, [])"
proof -
  have "0 < stack env_ex" "\<not> nestedMatch env_ex JUndef" by (simp_all add: env_ex_def)
  from or_missing_field_hides_match [OF this, of "[]"] show ?thesis by (simp add: Let_def)
qed

text \<open>A query record cannot ask for \<open>null\<close>: \<open>toQuery\<close> throws on every record with a \<open>null\<close> entry after
  entries that convert, because \<open>typeof null\<close> is \<open>object\<close> and the entry is entered as a record, while
  \<open>getMatcher\<close>, which never sees it, would build the query \<open>IsNull\<close>.\<close>

theorem null_record_query_throws:
  assumes "convert_entries ps [] = Inr qs"
  shows "toQuery (QueryRecord (JObj (ps @ (k, JNull) # rest))) = Inl TypeError \<and>
    getMatcher [k] JNull = Inr (StateFieldQuery [k] IsNull)"
proof -
  have "convert_entries ps path = Inr qs \<Longrightarrow> convert_entries (ps @ (k, JNull) # rest) path = Inl TypeError" for path
  proof (induction ps arbitrary: qs)
    case Nil
    then show ?case by simp
  next
    case (Cons p ps)
    then show ?case by (cases p) (auto simp del: convert_value.simps)
  qed
  with assms show ?thesis by simp
qed

theorem null_record_query_throws_witness:
  "toQuery (QueryRecord (JObj [(''a'', JNum 1), (''b'', JNull)])) = Inl TypeError"
proof -
  have "convert_entries [(''a'', JNum 1)] [] = Inr [StateFieldQuery [''a''] (IntegerCompare Equal 1)]" by code_simp
  from null_record_query_throws [OF this, of "''b''" "[]"] show ?thesis by simp
qed

end
