(* ===== verification/HashmapIndex.thy ===== *)
theory HashmapIndex
  imports Query
begin

text \<open>
  The in-memory index engine, \<open>packages/utils/indexer/simple/src/index.ts\<close>: a map from the primitive of
  an identifier to the document, queried by a scan or, for one exact condition on the identifier,
  by a lookup; an iterator that hands out the sorted results in batches; and the tree of scoped
  indices. What \<open>init\<close> stores (the schema's functions, \<open>indexByArr\<close>) is the environment \<open>E\<close>.

  Shown here: a query returns exactly the documents it holds for, the lookup agrees with the scan,
  \<open>del\<close> removes exactly those, the batches of an iterator put together are the results in order,
  sorting sorts, and a call of \<open>pending\<close> on a fresh iterator loses a result.
\<close>

section \<open>State\<close>

record 'd indexedValue =
  iv_id :: idKey
  iv_value :: 'd

type_synonym 'd hashmap = "(idPrimitive, 'd indexedValue) jsmap"

text \<open>\<open>init\<close>: the path of the identifier is given, or found in the schema by \<open>getIdProperty\<close>.\<close>

datatype id_schema = IdProperty string | Fields "(string \<times> id_schema option) list"

fun getIdProperty :: "id_schema \<Rightarrow> string list option"
and id_of_fields :: "(string \<times> id_schema option) list \<Rightarrow> string list option" where
  "getIdProperty (IdProperty p) = Some [p]"
| "getIdProperty (Fields fs) = id_of_fields fs"
| "id_of_fields [] = None"
| "id_of_fields ((k, None) # fs) = id_of_fields fs"
| "id_of_fields ((k, Some s) # fs) =
     (case getIdProperty s of Some p \<Rightarrow> Some (k # p) | None \<Rightarrow> id_of_fields fs)"

definition hm_init :: "string list option \<Rightarrow> id_schema \<Rightarrow> query_error + string list \<times> 'd hashmap" where
  "hm_init by schema =
     (case by of
        Some path \<Rightarrow> Inr (path, [])
      | None \<Rightarrow> (case getIdProperty schema of None \<Rightarrow> Inl No_indexBy_property | Some path \<Rightarrow> Inr (path, [])))"

section \<open>Operations\<close>

definition hm_get :: "('d, 'm) index_env_scheme \<Rightarrow> 'd hashmap \<Rightarrow> idKey \<Rightarrow> (idKey \<times> 'd) option" where
  "hm_get E idx i = map_option (\<lambda>v. (i, iv_value v)) (jm_get idx (id_primitive (toBase64 E) i))"

definition hm_put ::
  "('d, 'm) index_env_scheme \<Rightarrow> 'd hashmap \<Rightarrow> 'd \<Rightarrow> idKey option \<Rightarrow> query_error + 'd hashmap" where
  "hm_put E idx d i =
     bind_sum (case i of Some k \<Rightarrow> Inr k | None \<Rightarrow> bind_sum (extractFieldValue (toJs E d) (indexBy E)) toId) (\<lambda>k.
       Inr (jm_set idx (id_primitive (toBase64 E) k) \<lparr>iv_id = k, iv_value = d\<rparr>))"

text \<open>\<open>_queryDocuments\<close> with the filter that \<open>queryAll\<close> passes: every query on a fresh map of inner hits.\<close>

fun queryDocuments ::
  "('d, 'm) index_env_scheme \<Rightarrow> query list \<Rightarrow> 'd indexedValue list \<Rightarrow> query_error + 'd indexedValue list" where
  "queryDocuments E qs [] = Inr []"
| "queryDocuments E qs (v # vs) =
     bind_sum (handle_all E qs 0 (toJs E (iv_value v)) []) (\<lambda>(b, _).
     bind_sum (queryDocuments E qs vs) (\<lambda>rs. Inr (if b then v # rs else rs)))"

definition id_lookup :: "('d, 'm) index_env_scheme \<Rightarrow> query list \<Rightarrow> idPrimitive option" where
  "id_lookup E qs =
     (case qs of
        [StateFieldQuery key (ByteMatchQuery v)] \<Rightarrow>
          if key = indexBy E then Some (id_primitive (toBase64 E) (Uint8ArrayKey v)) else None
      | [StateFieldQuery key (StringMatch v m ci)] \<Rightarrow>
          if key = indexBy E \<and> m = Exact \<and> ci = False then Some (PStr v) else None
      | _ \<Rightarrow> None)"

definition queryAll ::
  "('d, 'm) index_env_scheme \<Rightarrow> 'd hashmap \<Rightarrow> query_like \<Rightarrow> query_error + 'd indexedValue list" where
  "queryAll E idx q =
     bind_sum (toQuery q) (\<lambda>queryCoerced.
       case id_lookup E queryCoerced of
         Some p \<Rightarrow> Inr (case jm_get idx p of Some doc \<Rightarrow> [doc] | None \<Rightarrow> [])
       | None \<Rightarrow> queryDocuments E queryCoerced (jm_values idx))"

fun del_docs :: "('d, 'm) index_env_scheme \<Rightarrow> 'd indexedValue list \<Rightarrow> 'd hashmap \<Rightarrow> idKey list \<times> 'd hashmap" where
  "del_docs E [] idx = ([], idx)"
| "del_docs E (doc # docs) idx =
     (let p = id_primitive (toBase64 E) (iv_id doc);
          (deleted, idx') = del_docs E docs (jm_delete idx p)
      in (if jm_has idx p then iv_id doc # deleted else deleted, idx'))"

definition hm_del ::
  "('d, 'm) index_env_scheme \<Rightarrow> 'd hashmap \<Rightarrow> query_like \<Rightarrow> query_error + idKey list \<times> 'd hashmap" where
  "hm_del E idx q = bind_sum (queryAll E idx q) (\<lambda>docs. Inr (del_docs E docs idx))"

definition hm_getSize :: "'d hashmap \<Rightarrow> nat" where
  "hm_getSize idx = length idx"

definition hm_drop :: "'d hashmap \<Rightarrow> 'd hashmap" where
  "hm_drop idx = []"

definition hm_count :: "('d, 'm) index_env_scheme \<Rightarrow> 'd hashmap \<Rightarrow> query_like \<Rightarrow> query_error + nat" where
  "hm_count E idx q = bind_sum (queryAll E idx q) (\<lambda>docs. Inr (length docs))"

text \<open>\<open>sum\<close>: a falsy value on the path skips the document; a number and a bigint cannot be added.\<close>

fun falsy :: "jsval \<Rightarrow> bool" where
  "falsy JUndef = True"
| "falsy JNull = True"
| "falsy (JBool b) = (\<not> b)"
| "falsy (JNum n) = (n = 0)"
| "falsy (JBig n) = (n = 0)"
| "falsy (JStr s) = (s = [])"
| "falsy _ = False"

fun sum_path :: "jsval \<Rightarrow> string list \<Rightarrow> query_error + jsval option" where
  "sum_path v [] = Inr (Some v)"
| "sum_path v (k # ks) = bind_sum (js_get v k) (\<lambda>w. if falsy w then Inr None else sum_path w ks)"

fun sum_add :: "jsval \<Rightarrow> jsval \<Rightarrow> query_error + jsval" where
  "sum_add acc (JNum n) =
     (case (if falsy acc then JNum 0 else acc) of JNum m \<Rightarrow> Inr (JNum (m + n)) | _ \<Rightarrow> Inl TypeError)"
| "sum_add acc (JBig n) =
     (case (if falsy acc then JBig 0 else acc) of JBig m \<Rightarrow> Inr (JBig (m + n)) | _ \<Rightarrow> Inl TypeError)"
| "sum_add acc _ = Inr acc"

fun sum_docs :: "('d, 'm) index_env_scheme \<Rightarrow> string list \<Rightarrow> 'd indexedValue list \<Rightarrow> jsval \<Rightarrow> query_error + jsval" where
  "sum_docs E key [] acc = Inr acc"
| "sum_docs E key (d # ds) acc =
     bind_sum (sum_path (toJs E (iv_value d)) key) (\<lambda>v.
       case v of None \<Rightarrow> sum_docs E key ds acc
       | Some w \<Rightarrow> bind_sum (sum_add acc w) (\<lambda>acc'. sum_docs E key ds acc'))"

definition hm_sum ::
  "('d, 'm) index_env_scheme \<Rightarrow> 'd hashmap \<Rightarrow> query_like \<Rightarrow> string list \<Rightarrow> query_error + jsval" where
  "hm_sum E idx q key =
     bind_sum (queryAll E idx q) (\<lambda>docs. bind_sum (sum_docs E key docs JUndef) (\<lambda>s.
       Inr (if s = JUndef then JNum 0 else s)))"

section \<open>Iterators\<close>

fun batch_loop :: "'a list \<Rightarrow> nat option \<Rightarrow> 'a list \<Rightarrow> 'a list" where
  "batch_loop [] n batch = batch"
| "batch_loop (r # rs) n batch =
     (let batch' = batch @ [r]
      in if (case n of None \<Rightarrow> False | Some w \<Rightarrow> w \<le> length batch') then batch' else batch_loop rs n batch')"

text \<open>The batch and what is left of the results; \<open>None\<close> for the size is \<open>Infinity\<close>.\<close>

definition getBatchFromResults :: "'a list \<Rightarrow> nat option \<Rightarrow> 'a list \<times> 'a list" where
  "getBatchFromResults results wantedSize =
     (let batch = batch_loop results wantedSize [] in (batch, drop (length batch) results))"

definition doc_cmp :: "('d, 'm) index_env_scheme \<Rightarrow> sort list \<Rightarrow> 'd indexedValue \<Rightarrow> 'd indexedValue \<Rightarrow> query_error + int" where
  "doc_cmp E sorts a b = extractSortCompare E (toJs E (iv_value a)) (toJs E (iv_value b)) sorts"

text \<open>\<open>Array.sort\<close> with the comparator of the iterator; it throws when a comparison throws.\<close>

definition sort_docs ::
  "('d, 'm) index_env_scheme \<Rightarrow> sort list \<Rightarrow> 'd indexedValue list \<Rightarrow> query_error + 'd indexedValue list" where
  "sort_docs E sorts docs =
     (if length docs > 1 \<and> length sorts > 0 then
        if list_ex (\<lambda>a. list_ex (\<lambda>b. isl (doc_cmp E sorts a b)) docs) docs then Inl TypeError
        else Inr (js_sort (\<lambda>a b. projr (doc_cmp E sorts a b)) docs)
      else Inr docs)"

record 'd index_iterator =
  it_done :: "bool option"
  it_queue :: "'d indexedValue list option"

definition iterate :: "'d index_iterator" where
  "iterate = \<lparr>it_done = None, it_queue = None\<rparr>"

text \<open>The first part of \<open>fetch\<close>: the results are computed at the first call.\<close>

definition it_load ::
  "('d, 'm) index_env_scheme \<Rightarrow> 'd hashmap \<Rightarrow> query_like \<Rightarrow> sort list \<Rightarrow> 'd index_iterator \<Rightarrow>
     query_error + 'd index_iterator" where
  "it_load E idx q sorts it =
     (if it_queue it = None \<and> it_done it \<noteq> Some True then
        bind_sum (queryAll E idx q) (\<lambda>docs. bind_sum (sort_docs E sorts docs) (\<lambda>sorted.
          Inr (if length sorted > 0 then it\<lparr>it_queue := Some sorted, it_done := Some False\<rparr>
               else it\<lparr>it_done := Some True\<rparr>)))
      else Inr it)"

definition it_fetch ::
  "('d, 'm) index_env_scheme \<Rightarrow> 'd hashmap \<Rightarrow> query_like \<Rightarrow> sort list \<Rightarrow> nat option \<Rightarrow> 'd index_iterator \<Rightarrow>
     query_error + 'd indexedValue list \<times> 'd index_iterator" where
  "it_fetch E idx q sorts n it =
     bind_sum (it_load E idx q sorts it) (\<lambda>it1.
       case it_queue it1 of
         None \<Rightarrow> Inr ([], it1)
       | Some arr \<Rightarrow>
           let it2 = (if (case n of None \<Rightarrow> True | Some w \<Rightarrow> length arr \<le> w) then it1\<lparr>it_done := Some True\<rparr> else it1);
               (batch, rest) = getBatchFromResults arr n
           in Inr (batch, it2\<lparr>it_queue := Some rest\<rparr>))"

definition it_all ::
  "('d, 'm) index_env_scheme \<Rightarrow> 'd hashmap \<Rightarrow> query_like \<Rightarrow> sort list \<Rightarrow> 'd index_iterator \<Rightarrow>
     query_error + 'd indexedValue list \<times> 'd index_iterator" where
  "it_all E idx q sorts it = it_fetch E idx q sorts None it"

definition it_next ::
  "('d, 'm) index_env_scheme \<Rightarrow> 'd hashmap \<Rightarrow> query_like \<Rightarrow> sort list \<Rightarrow> nat \<Rightarrow> 'd index_iterator \<Rightarrow>
     query_error + 'd indexedValue list \<times> 'd index_iterator" where
  "it_next E idx q sorts n it = it_fetch E idx q sorts (Some n) it"

definition it_pending ::
  "('d, 'm) index_env_scheme \<Rightarrow> 'd hashmap \<Rightarrow> query_like \<Rightarrow> sort list \<Rightarrow> 'd index_iterator \<Rightarrow>
     query_error + nat \<times> 'd index_iterator" where
  "it_pending E idx q sorts it =
     bind_sum (if it_done it = None then bind_sum (it_fetch E idx q sorts (Some 0) it) (\<lambda>(_, it'). Inr it') else Inr it) (\<lambda>it'.
       Inr (if it_done it' = Some True then 0 else (case it_queue it' of None \<Rightarrow> 0 | Some arr \<Rightarrow> length arr), it'))"

definition it_close :: "'d index_iterator \<Rightarrow> 'd index_iterator" where
  "it_close it = it\<lparr>it_done := Some True, it_queue := None\<rparr>"

section \<open>Scoped indices\<close>

text \<open>\<open>HashmapIndices\<close>: scopes by name, one index per schema, and whether it is closed.\<close>

datatype ('s, 'd) indices = Indices (ix_scopes: "(string \<times> ('s, 'd) indices) list") (ix_indices: "('s \<times> 'd hashmap) list") (ix_closed: bool)

definition new_HashmapIndices :: "('s, 'd) indices" where
  "new_HashmapIndices = Indices [] [] True"

text \<open>The index of a schema, the existing one or an empty one.\<close>

fun indices_init :: "('s, 'd) indices \<Rightarrow> 's \<Rightarrow> 'd hashmap \<times> ('s, 'd) indices" where
  "indices_init (Indices scopes ixs closed) schema =
     (case map_of ixs schema of
        Some idx \<Rightarrow> (idx, Indices scopes ixs closed)
      | None \<Rightarrow> ([], Indices scopes (ixs @ [(schema, [])]) closed))"

fun indices_start :: "('s, 'd) indices \<Rightarrow> ('s, 'd) indices" where
  "indices_start (Indices scopes ixs closed) = Indices (map (\<lambda>(n, s). (n, indices_start s)) scopes) ixs False"

fun indices_stop :: "('s, 'd) indices \<Rightarrow> ('s, 'd) indices" where
  "indices_stop (Indices scopes ixs closed) = Indices (map (\<lambda>(n, s). (n, indices_stop s)) scopes) ixs True"

fun indices_scope :: "('s, 'd) indices \<Rightarrow> string \<Rightarrow> ('s, 'd) indices \<times> ('s, 'd) indices" where
  "indices_scope (Indices scopes ixs closed) name =
     (case map_of scopes name of
        Some scope \<Rightarrow> (scope, Indices scopes ixs closed)
      | None \<Rightarrow> (let scope = (if closed then new_HashmapIndices else indices_start new_HashmapIndices)
                in (scope, Indices (jm_set scopes name scope) ixs closed)))"

fun indices_drop :: "('s, 'd) indices \<Rightarrow> ('s, 'd) indices" where
  "indices_drop (Indices scopes ixs closed) = Indices [] (map (\<lambda>(s, idx). (s, hm_drop idx)) ixs) closed"

section \<open>Invariant\<close>

text \<open>Every document is stored under the primitive of its identifier; \<open>keyed\<close>: the identifier is the one
  at the path \<open>indexBy\<close> of the document.\<close>

definition hm_ok :: "('d, 'm) index_env_scheme \<Rightarrow> 'd hashmap \<Rightarrow> bool" where
  "hm_ok E idx \<longleftrightarrow> jm_ok idx \<and> (\<forall>(p, v) \<in> set idx. p = id_primitive (toBase64 E) (iv_id v))"

definition keyed :: "('d, 'm) index_env_scheme \<Rightarrow> 'd indexedValue \<Rightarrow> bool" where
  "keyed E v \<longleftrightarrow> (\<exists>w. extractFieldValue (toJs E (iv_value v)) (indexBy E) = Inr w \<and> toId w = Inr (iv_id v))"

lemma hm_ok_Nil [simp]: "hm_ok E []"
  by (simp add: hm_ok_def)

lemma hm_put_ok:
  assumes "hm_put E idx d i = Inr idx'" and "hm_ok E idx"
  shows "hm_ok E idx'"
proof -
  obtain k where "idx' = jm_set idx (id_primitive (toBase64 E) k) \<lparr>iv_id = k, iv_value = d\<rparr>"
    using assms(1) by (auto simp: hm_put_def)
  with assms(2) set_jm_set_subset [of idx] show ?thesis by (fastforce simp: hm_ok_def)
qed

lemma hm_ok_filter: "hm_ok E idx \<Longrightarrow> hm_ok E (filter P idx)"
  by (auto simp: hm_ok_def)

section \<open>Queries select\<close>

definition selects :: "('d, 'm) index_env_scheme \<Rightarrow> query list \<Rightarrow> 'd indexedValue \<Rightarrow> bool" where
  "selects E qs v \<longleftrightarrow> (\<forall>q \<in> set qs. query_holds E (toJs E (iv_value v)) q)"

definition plain_doc :: "('d, 'm) index_env_scheme \<Rightarrow> query list \<Rightarrow> 'd indexedValue \<Rightarrow> bool" where
  "plain_doc E qs v \<longleftrightarrow> (\<forall>q \<in> set qs. plain_query E (toJs E (iv_value v)) q)"

lemma handle_all_plain:
  assumes "0 < stack E"
  shows "\<forall>q \<in> set qs. plain_query E doc q \<Longrightarrow> handle_all E qs 0 doc h = Inr (\<forall>q \<in> set qs. query_holds E doc q, h)"
proof (induction qs arbitrary: h)
  case (Cons q qs)
  then have "handleQueryObject E q doc h 0 = Inr (Some (query_holds E doc q), h)"
    using handle_plain(1) [OF assms] by simp
  with Cons show ?case by simp
qed simp

lemma queryDocuments_filter:
  assumes "0 < stack E" and "\<forall>v \<in> set vs. plain_doc E qs v"
  shows "queryDocuments E qs vs = Inr (filter (selects E qs) vs)"
  using assms(2) by (induction vs) (auto simp: handle_all_plain [OF assms(1)] plain_doc_def selects_def)

lemma resolve_extract: "resolve E f i ks doc = Inr (AtValue v) \<Longrightarrow> extractFieldValue doc ks = Inr v"
  by (induction ks arbitrary: doc i) (auto split: option.splits if_splits)

lemma resolve_elements: "resolve E f i ks doc = Inr (AtValue v) \<Longrightarrow> elements f doc = None \<Longrightarrow> elements f v = None"
  by (induction ks arbitrary: doc i) (auto split: option.splits if_splits)

lemma filter_one_key:
  assumes "jm_ok m" and "\<forall>(k, v) \<in> set m. P v \<longleftrightarrow> k = p"
  shows "filter P (jm_values m) = (case jm_get m p of None \<Rightarrow> [] | Some v \<Rightarrow> [v])"
  using assms
proof (induction m)
  case (Cons a m)
  obtain k v where a: "a = (k, v)" by (cases a)
  show ?case
  proof (cases "k = p")
    case True
    then have "\<forall>(k', v') \<in> set m. \<not> P v'" using Cons.prems a by (fastforce simp: jm_ok_def image_iff)
    then have "filter P (jm_values m) = []" by (auto simp: jm_values_def filter_empty_conv)
    with Cons.prems True a show ?thesis by (simp add: jm_values_def)
  next
    case False
    with Cons a show ?thesis by (simp add: jm_values_def jm_ok_def)
  qed
qed (simp add: jm_values_def)

text \<open>The condition on the identifier holds exactly for the key it is looked up under.\<close>

lemma lookup_key:
  assumes "inj (toBase64 E)" and "id_lookup E qs = Some p" and "keyed E v" and "plain_doc E qs v"
  shows "selects E qs v \<longleftrightarrow> id_primitive (toBase64 E) (iv_id v) = p"
proof -
  from assms(2) obtain f where qs: "qs = [StateFieldQuery (indexBy E) f]"
    and f: "(\<exists>b. f = ByteMatchQuery b \<and> p = PStr (toBase64 E b)) \<or> (\<exists>t. f = StringMatch t Exact False \<and> p = PStr t)"
    by (auto simp: id_lookup_def split: list.splits query.splits field_query.splits if_splits)
  obtain w where w: "plain_field E (toJs E (iv_value v)) 0 (indexBy E) f w"
    using assms(4) qs by (auto simp: plain_doc_def)
  obtain i where i: "iv_id v = i" by simp
  have toId: "toId w = Inr i"
    using assms(3) w resolve_extract i by (fastforce simp: keyed_def plain_field_def)
  have nb: "elements f w = None" using w resolve_elements by (auto simp: plain_field_def)
  have sel: "selects E qs v \<longleftrightarrow> field_holds E (indexBy E) f w"
    using w by (auto simp: selects_def qs dest: plain_field_unique)
  from f show ?thesis
  proof (elim disjE exE conjE)
    fix b assume b: "f = ByteMatchQuery b" "p = PStr (toBase64 E b)"
    show ?thesis unfolding i using toId sel assms(1) b
      by (cases w) (auto simp: inj_eq split: if_splits)
  next
    fix t assume t: "f = StringMatch t Exact False" "p = PStr t"
    show ?thesis unfolding i using toId sel nb t by (cases w) (auto simp: fold_case_def split: if_splits)
  qed
qed

lemma queryAll_filter:
  assumes "0 < stack E" and "inj (toBase64 E)" and "hm_ok E idx" and "toQuery q = Inr qs"
    and "\<forall>v \<in> set (jm_values idx). plain_doc E qs v \<and> keyed E v"
  shows "queryAll E idx q = Inr (filter (selects E qs) (jm_values idx))"
proof (cases "id_lookup E qs")
  case None
  with assms(4,5) queryDocuments_filter [OF assms(1), of "jm_values idx" qs] show ?thesis
    by (simp add: queryAll_def del: bind_sum_eq_Inr)
next
  case (Some p)
  have "\<forall>(k, v) \<in> set idx. selects E qs v \<longleftrightarrow> k = p"
  proof (clarify)
    fix k v assume kv: "(k, v) \<in> set idx"
    then have "v \<in> set (jm_values idx)" by (force simp: jm_values_def)
    then have "selects E qs v \<longleftrightarrow> id_primitive (toBase64 E) (iv_id v) = p"
      using lookup_key [OF assms(2) Some] assms(5) by blast
    moreover have "k = id_primitive (toBase64 E) (iv_id v)" using kv assms(3) by (auto simp: hm_ok_def)
    ultimately show "selects E qs v \<longleftrightarrow> k = p" by simp
  qed
  then have "filter (selects E qs) (jm_values idx) = (case jm_get idx p of None \<Rightarrow> [] | Some v \<Rightarrow> [v])"
    using assms(3) by (intro filter_one_key) (auto simp: hm_ok_def)
  with assms(4) Some show ?thesis by (simp add: queryAll_def split: option.splits)
qed

section \<open>Deletion\<close>

lemma del_docs_filter:
  assumes "distinct (map (\<lambda>v. id_primitive (toBase64 E) (iv_id v)) docs)"
    and "\<forall>v \<in> set docs. jm_has idx (id_primitive (toBase64 E) (iv_id v))"
  shows "del_docs E docs idx =
    (map iv_id docs, filter (\<lambda>(p, _). p \<notin> (\<lambda>v. id_primitive (toBase64 E) (iv_id v)) ` set docs) idx)"
  using assms
proof (induction docs arbitrary: idx)
  case (Cons d docs)
  let ?p = "\<lambda>v. id_primitive (toBase64 E) (iv_id v)"
  have "\<forall>v \<in> set docs. jm_has (jm_delete idx (?p d)) (?p v)"
    using Cons.prems by (auto simp: image_iff)
  with Cons have "del_docs E docs (jm_delete idx (?p d)) =
      (map iv_id docs, filter (\<lambda>(p, _). p \<notin> ?p ` set docs) (jm_delete idx (?p d)))" by simp
  moreover have "filter (\<lambda>(p, _). p \<notin> ?p ` set docs) (jm_delete idx (?p d)) =
      filter (\<lambda>(p, _). p \<notin> ?p ` set (d # docs)) idx"
    by (auto simp: jm_delete_def intro: filter_cong)
  ultimately show ?case using Cons.prems by simp
qed (simp add: case_prod_beta)

lemma del_docs_values:
  assumes "hm_ok E idx"
  shows "del_docs E (filter P (jm_values idx)) idx =
    (map iv_id (filter P (jm_values idx)), filter (\<lambda>(_, v). \<not> P v) idx)"
proof -
  let ?p = "\<lambda>v. id_primitive (toBase64 E) (iv_id v)"
  have ids: "map ?p (jm_values idx) = map fst idx"
    using assms by (auto simp: hm_ok_def jm_values_def)
  then have "distinct (map ?p (filter P (jm_values idx)))"
    using assms by (intro distinct_map_filter) (simp add: hm_ok_def jm_ok_def)
  moreover have "\<forall>v \<in> set (filter P (jm_values idx)). jm_has idx (?p v)"
    using arg_cong [OF ids, of set] by (auto simp: jm_has_iff)
  moreover have "p \<notin> ?p ` set (filter P (jm_values idx)) \<longleftrightarrow> \<not> P v" if pv: "(p, v) \<in> set idx" for p v
  proof -
    have keys: "k = ?p w" if "(k, w) \<in> set idx" for k w using that assms by (auto simp: hm_ok_def)
    have uniq: "w = v" if "(p, w) \<in> set idx" for w
    proof -
      have "jm_get idx p = Some w" "jm_get idx p = Some v"
        using that pv assms by (simp_all add: hm_ok_def jm_get_in_set)
      then show ?thesis by simp
    qed
    have same: "w = v" if w: "w \<in> set (jm_values idx)" "?p w = p" for w
    proof -
      obtain k where "(k, w) \<in> set idx" using w(1) by (auto simp: jm_values_def)
      with keys [of k w] w(2) uniq show ?thesis by simp
    qed
    have p: "?p v = p" using keys [OF pv] by simp
    have v: "v \<in> set (jm_values idx)"
      using imageI [OF pv, of snd] by (simp add: jm_values_def)
    show ?thesis
    proof (cases "P v")
      case True
      then have "?p v \<in> ?p ` set (filter P (jm_values idx))" using v by (intro imageI) simp
      with True p show ?thesis by simp
    next
      case False
      have "p \<notin> ?p ` set (filter P (jm_values idx))"
      proof
        assume "p \<in> ?p ` set (filter P (jm_values idx))"
        then obtain w where "w \<in> set (jm_values idx)" "P w" "?p w = p" by auto
        with same False show False by blast
      qed
      with False show ?thesis by blast
    qed
  qed
  then have "filter (\<lambda>(p, _). p \<notin> ?p ` set (filter P (jm_values idx))) idx = filter (\<lambda>(_, v). \<not> P v) idx"
    by (intro filter_cong) auto
  ultimately show ?thesis using del_docs_filter [of E "filter P (jm_values idx)" idx] by simp
qed

lemma jm_values_filter: "jm_values (filter (\<lambda>(_, v). P v) idx) = filter P (jm_values idx)"
  by (induction idx) (auto simp: jm_values_def)

section \<open>Iteration\<close>

lemma batch_loop_take: "batch_loop rs (Some w) acc = acc @ take (max 1 (w - length acc)) rs"
proof (induction rs arbitrary: acc)
  case (Cons r rs)
  show ?case
  proof (cases "w \<le> Suc (length acc)")
    case True
    then show ?thesis by simp
  next
    case False
    then have "max 1 (w - length acc) = Suc (max 1 (w - length (acc @ [r])))" by simp
    with False Cons show ?thesis by simp
  qed
qed simp

lemma batch_loop_all: "batch_loop rs None acc = acc @ rs"
  by (induction rs arbitrary: acc) auto

lemma getBatch_take: "getBatchFromResults rs (Some w) = (take (max 1 w) rs, drop (max 1 w) rs)"
proof -
  have "length (batch_loop rs (Some w) []) = min (length rs) (max 1 w)" by (simp add: batch_loop_take)
  moreover have "drop (min (length rs) (max 1 w)) rs = drop (max 1 w) rs" by (simp add: min_def)
  ultimately show ?thesis by (simp add: getBatchFromResults_def batch_loop_take)
qed

lemma getBatch_all: "getBatchFromResults rs None = (rs, [])"
  by (simp add: getBatchFromResults_def batch_loop_all)

text \<open>Where an iterator over the results \<open>D\<close> stands after \<open>k\<close> of them.\<close>

definition it_at :: "'d indexedValue list \<Rightarrow> nat \<Rightarrow> 'd index_iterator \<Rightarrow> bool" where
  "it_at D k it \<longleftrightarrow> (if D = [] then it_queue it = None else it_queue it = Some (drop k D)) \<and>
     it_done it = Some (length D \<le> k)"

lemma it_fetch_fresh:
  assumes "queryAll E idx q = Inr docs" and "sort_docs E sorts docs = Inr D"
  shows "\<exists>it'. it_fetch E idx q sorts (Some n) iterate = Inr (take (max 1 n) D, it') \<and>
    (0 < n \<longrightarrow> it_at D n it') \<and> it_queue it' = (if D = [] then None else Some (drop (max 1 n) D)) \<and>
    it_done it' = Some (length D \<le> n)"
  using assms
  by (auto simp: it_fetch_def it_load_def iterate_def getBatch_take Let_def it_at_def max_def)

lemma it_fetch_all:
  assumes "queryAll E idx q = Inr docs" and "sort_docs E sorts docs = Inr D"
  shows "\<exists>it'. it_fetch E idx q sorts None iterate = Inr (D, it')"
  using assms by (auto simp: it_fetch_def it_load_def iterate_def getBatch_all Let_def)

lemma it_fetch_at:
  assumes "it_at D k it" and "0 < n"
  shows "\<exists>it'. it_fetch E idx q sorts (Some n) it = Inr (take n (drop k D), it') \<and> it_at D (k + n) it'"
  using assms
  by (auto simp: it_fetch_def it_load_def getBatch_take Let_def it_at_def max_def add.commute split: if_splits)

fun it_run ::
  "('d, 'm) index_env_scheme \<Rightarrow> 'd hashmap \<Rightarrow> query_like \<Rightarrow> sort list \<Rightarrow> nat list \<Rightarrow> 'd index_iterator \<Rightarrow>
     query_error + 'd indexedValue list \<times> 'd index_iterator" where
  "it_run E idx q sorts [] it = Inr ([], it)"
| "it_run E idx q sorts (n # ns) it =
     bind_sum (it_next E idx q sorts n it) (\<lambda>(batch, it1).
     bind_sum (it_run E idx q sorts ns it1) (\<lambda>(batches, it2). Inr (batch @ batches, it2)))"

lemma it_run_at:
  assumes "it_at D k it" and "\<forall>n \<in> set ns. 0 < n"
  shows "\<exists>it'. it_run E idx q sorts ns it = Inr (take (sum_list ns) (drop k D), it') \<and> it_at D (k + sum_list ns) it'"
  using assms
proof (induction ns arbitrary: k it)
  case (Cons n ns)
  have n: "0 < n" using Cons.prems(2) by simp
  obtain it1 where 1: "it_fetch E idx q sorts (Some n) it = Inr (take n (drop k D), it1)" "it_at D (k + n) it1"
    using it_fetch_at [OF Cons.prems(1) n, of E idx q sorts] by blast
  obtain it2 where 2: "it_run E idx q sorts ns it1 = Inr (take (sum_list ns) (drop (k + n) D), it2)"
      "it_at D (k + n + sum_list ns) it2"
    using Cons.IH [OF 1(2)] Cons.prems(2) by auto
  have "take n (drop k D) @ take (sum_list ns) (drop (k + n) D) = take (n + sum_list ns) (drop k D)"
    by (simp add: take_add add.commute)
  moreover have "it_run E idx q sorts (n # ns) it =
      Inr (take n (drop k D) @ take (sum_list ns) (drop (k + n) D), it2)"
    using 1(1) 2(1) by (simp only: it_run.simps it_next_def bind_sum.simps prod.case)
  ultimately show ?case using 2(2) by (metis add.assoc sum_list.Cons)
qed simp

section \<open>Sorting\<close>

lemma js_insert_cong: "\<forall>y \<in> set ys. f x y = g x y \<Longrightarrow> js_insert f x ys = js_insert g x ys"
  by (induction ys) auto

lemma js_sort_cong: "\<forall>x \<in> set xs. \<forall>y \<in> set xs. f x y = g x y \<Longrightarrow> js_sort f xs = js_sort g xs"
proof (induction xs)
  case (Cons x xs)
  then have "js_sort f xs = js_sort g xs" by simp
  moreover have "js_insert f x (js_sort g xs) = js_insert g x (js_sort g xs)"
    using Cons.prems by (intro js_insert_cong) simp
  ultimately show ?case by simp
qed simp

text \<open>Sorting throws only when a comparison throws, and permutes the documents.\<close>

lemma sort_docs_total:
  assumes "\<And>a b. \<exists>c. doc_cmp E sorts a b = Inr c"
  shows "\<exists>D. sort_docs E sorts docs = Inr D \<and> mset D = mset docs"
proof -
  have "\<not> isl (doc_cmp E sorts a b)" for a b using assms [of a b] by auto
  then show ?thesis by (auto simp: sort_docs_def list_ex_iff)
qed

text \<open>Sorting by one field that holds a number in every document.\<close>

lemma sort_docs_by_number:
  assumes "\<forall>v \<in> set docs. extractFieldValue (toJs E (iv_value v)) key = Inr (JNum (g v))"
    and "\<forall>a b. jsLess E (JNum a) (JNum b) \<longleftrightarrow> a < b"
  shows "sort_docs E [\<lparr>s_key = key, s_direction = dir\<rparr>] docs =
    Inr (js_sort (cmp_on (\<lambda>v. case dir of ASC \<Rightarrow> g v | DESC \<Rightarrow> - g v)) docs)"
proof -
  let ?k = "\<lambda>v. case dir of ASC \<Rightarrow> g v | DESC \<Rightarrow> - g v"
  have c: "doc_cmp E [\<lparr>s_key = key, s_direction = dir\<rparr>] a b = Inr (cmp_on ?k a b)"
    if "a \<in> set docs" "b \<in> set docs" for a b
    using that assms by (cases dir) (auto simp: doc_cmp_def sortCompare_def cmp_on_def Let_def)
  then have no: "\<not> list_ex (\<lambda>a. list_ex (\<lambda>b. isl (doc_cmp E [\<lparr>s_key = key, s_direction = dir\<rparr>] a b)) docs) docs"
    by (auto simp: list_ex_iff)
  have eq: "js_sort (\<lambda>a b. projr (doc_cmp E [\<lparr>s_key = key, s_direction = dir\<rparr>] a b)) docs = js_sort (cmp_on ?k) docs"
    using c by (intro js_sort_cong) auto
  have short: "js_sort (cmp_on ?k) docs = docs" if "\<not> length docs > 1"
    using that by (cases docs) auto
  show ?thesis using no eq short by (auto simp: sort_docs_def)
qed

section \<open>Properties\<close>

text \<open>A query returns exactly the documents it holds for, in the order of insertion, whether it is
  answered by a lookup of the identifier or by a scan; \<open>count\<close> is their number.\<close>

theorem queryAll_selects:
  assumes "0 < stack E" and "inj (toBase64 E)" and "hm_ok E idx" and "toQuery q = Inr qs"
    and "\<forall>v \<in> set (jm_values idx). plain_doc E qs v \<and> keyed E v"
  shows "queryAll E idx q = Inr (filter (selects E qs) (jm_values idx)) \<and>
    hm_count E idx q = Inr (length (filter (selects E qs) (jm_values idx)))"
  using queryAll_filter [OF assms] by (simp add: hm_count_def)

definition unary :: "nat list \<Rightarrow> string" where
  "unary b = concat (map (\<lambda>n. replicate n (CHR ''a'') @ ''b'') b)"

lemma inj_unary: "inj unary"
proof
  fix x y assume "unary x = unary y"
  then show "x = y"
  proof (induction x arbitrary: y)
    case Nil
    then show ?case by (cases y) (auto simp: unary_def)
  next
    case (Cons m x)
    then obtain n y' where y: "y = n # y'" by (cases y) (auto simp: unary_def)
    have u: "replicate m (CHR ''a'') @ CHR ''b'' # unary x = replicate n (CHR ''a'') @ CHR ''b'' # unary y'"
      using Cons.prems by (simp add: y unary_def)
    have tw: "length (takeWhile (\<lambda>c. c = CHR ''a'') (replicate k (CHR ''a'') @ CHR ''b'' # r)) = k" for k r
      by (induction k) auto
    have "m = n" using arg_cong [OF u, of "\<lambda>s. length (takeWhile (\<lambda>c. c = CHR ''a'') s)"] by (simp only: tw)
    with u Cons.IH [of y'] y show ?case by simp
  qed
qed

definition env_id :: "(string \<times> int) index_env" where
  "env_id = \<lparr>toJs = (\<lambda>(s, n). JObj [(''id'', JStr s), (''n'', JNum n)]), indexBy = [''id''], toBase64 = unary,
     nestedMatch = (\<lambda>_. False), nestedIterate = (\<lambda>_ _. 0), localeCompare = (\<lambda>s t. 0),
     jsLess = (\<lambda>v w. case (v, w) of (JNum a, JNum b) \<Rightarrow> a < b | _ \<Rightarrow> False), stack = 9\<rparr>"

definition idx_ex :: "(string \<times> int) hashmap" where
  "idx_ex = [(PStr ''x'', \<lparr>iv_id = StringKey ''x'', iv_value = (''x'', 3)\<rparr>),
     (PStr ''y'', \<lparr>iv_id = StringKey ''y'', iv_value = (''y'', 1)\<rparr>),
     (PStr ''z'', \<lparr>iv_id = StringKey ''z'', iv_value = (''z'', 2)\<rparr>)]"

lemma idx_ex_ok: "hm_ok env_id idx_ex" "\<forall>v \<in> set (jm_values idx_ex). keyed env_id v" "0 < stack env_id" "inj (toBase64 env_id)"
  using inj_unary by (auto simp: hm_ok_def jm_ok_def idx_ex_def env_id_def jm_values_def keyed_def)

definition qs_ex :: "query list" where
  "qs_ex = [StateFieldQuery [''n''] (IntegerCompare GreaterOrEqual 2)]"

lemma idx_ex_plain: "\<forall>v \<in> set (jm_values idx_ex). plain_doc env_id qs_ex v \<and> keyed env_id v"
  using idx_ex_ok(2)
  by (auto simp: idx_ex_def jm_values_def plain_doc_def qs_ex_def plain_field_def env_id_def nullish_def)

theorem queryAll_selects_witness:
  "queryAll env_id idx_ex (QueryList [StateFieldQuery [''id''] (StringMatch ''y'' Exact False)]) =
     Inr [\<lparr>iv_id = StringKey ''y'', iv_value = (''y'', 1)\<rparr>]"
proof -
  let ?qs = "[StateFieldQuery [''id''] (StringMatch ''y'' Exact False)]"
  have t: "toQuery (QueryList ?qs) = Inr ?qs" by simp
  have p: "\<forall>v \<in> set (jm_values idx_ex). plain_doc env_id ?qs v \<and> keyed env_id v"
    using idx_ex_ok(2)
    by (auto simp: idx_ex_def jm_values_def plain_doc_def plain_field_def env_id_def nullish_def)
  have f: "filter (selects env_id ?qs) (jm_values idx_ex) = [\<lparr>iv_id = StringKey ''y'', iv_value = (''y'', 1)\<rparr>]"
    by (auto simp: idx_ex_def jm_values_def selects_def plain_field_def env_id_def nullish_def fold_case_def)
  show ?thesis using queryAll_selects [OF idx_ex_ok(3,4,1) t p] f by simp
qed

text \<open>\<open>del\<close> removes exactly the documents a query returns and reports their identifiers: the other
  documents stay, and the same query then finds nothing.\<close>

theorem hm_del_effect:
  assumes "0 < stack E" and "inj (toBase64 E)" and "hm_ok E idx" and "toQuery q = Inr qs"
    and "\<forall>v \<in> set (jm_values idx). plain_doc E qs v \<and> keyed E v"
  shows "\<exists>idx'. hm_del E idx q = Inr (map iv_id (filter (selects E qs) (jm_values idx)), idx') \<and>
    jm_values idx' = filter (\<lambda>v. \<not> selects E qs v) (jm_values idx) \<and> hm_ok E idx' \<and>
    queryAll E idx' q = Inr []"
proof -
  let ?idx' = "filter (\<lambda>(_, v). \<not> selects E qs v) idx"
  have d: "hm_del E idx q = Inr (map iv_id (filter (selects E qs) (jm_values idx)), ?idx')"
    using queryAll_filter [OF assms] del_docs_values [OF assms(3), of "selects E qs"] by (simp add: hm_del_def)
  have v: "jm_values ?idx' = filter (\<lambda>v. \<not> selects E qs v) (jm_values idx)" by (rule jm_values_filter)
  have ok: "hm_ok E ?idx'" by (rule hm_ok_filter [OF assms(3)])
  have "queryAll E ?idx' q = Inr (filter (selects E qs) (jm_values ?idx'))"
    using assms(5) v by (intro queryAll_filter [OF assms(1,2) ok assms(4)]) auto
  then have "queryAll E ?idx' q = Inr []" by (simp add: v filter_empty_conv)
  with d v ok show ?thesis by blast
qed

theorem hm_del_effect_witness:
  "\<exists>idx'. hm_del env_id idx_ex (QueryList qs_ex) = Inr ([StringKey ''x'', StringKey ''z''], idx') \<and>
     queryAll env_id idx' (QueryList qs_ex) = Inr []"
proof -
  have t: "toQuery (QueryList qs_ex) = Inr qs_ex" by simp
  have f: "filter (selects env_id qs_ex) (jm_values idx_ex) =
      [\<lparr>iv_id = StringKey ''x'', iv_value = (''x'', 3)\<rparr>, \<lparr>iv_id = StringKey ''z'', iv_value = (''z'', 2)\<rparr>]"
    by (auto simp: idx_ex_def jm_values_def selects_def qs_ex_def plain_field_def env_id_def nullish_def)
  from hm_del_effect [OF idx_ex_ok(3,4,1) t idx_ex_plain] f show ?thesis by auto
qed

text \<open>What is put is found: after \<open>put\<close> the document is returned under its identifier and every other
  identifier as before; the size grows exactly when the identifier is new.\<close>

theorem hm_get_put:
  assumes "hm_put E idx d i = Inr idx'" and "i = None \<Longrightarrow> extractFieldValue (toJs E d) (indexBy E) = Inr w \<and> toId w = Inr k"
    and "i \<noteq> None \<Longrightarrow> i = Some k"
  shows "hm_get E idx' k = Some (k, d) \<and>
    (\<forall>j. id_primitive (toBase64 E) j \<noteq> id_primitive (toBase64 E) k \<longrightarrow> hm_get E idx' j = hm_get E idx j) \<and>
    hm_getSize idx' = (if hm_get E idx k = None then Suc (hm_getSize idx) else hm_getSize idx)"
proof -
  have "idx' = jm_set idx (id_primitive (toBase64 E) k) \<lparr>iv_id = k, iv_value = d\<rparr>"
    using assms by (cases i) (auto simp: hm_put_def)
  then show ?thesis by (auto simp: hm_get_def hm_getSize_def length_jm_set jm_has_def)
qed

theorem hm_get_put_witness:
  "\<exists>idx'. hm_put env_id idx_ex (''w'', 9) None = Inr idx' \<and> hm_get env_id idx' (StringKey ''w'') = Some (StringKey ''w'', (''w'', 9)) \<and>
     hm_getSize idx' = 4"
proof -
  have e: "extractFieldValue (toJs env_id (''w'', 9)) (indexBy env_id) = Inr (JStr ''w'') \<and> toId (JStr ''w'') = Inr (StringKey ''w'')"
    by (simp add: env_id_def)
  then obtain idx' where p: "hm_put env_id idx_ex (''w'', 9) None = Inr idx'" by (simp add: hm_put_def)
  have "hm_get env_id idx_ex (StringKey ''w'') = None" "hm_getSize idx_ex = 3" by (simp_all add: hm_get_def hm_getSize_def idx_ex_def)
  with hm_get_put [OF p, of "JStr ''w''" "StringKey ''w''"] e p show ?thesis by simp
qed

text \<open>The batches of an iterator put together are the sorted results in order, nothing skipped or
  repeated: after calls of \<open>next\<close> with positive sizes the results so far are the first as many, the
  iterator is done exactly when they are all, and \<open>pending\<close> is the number of the others.\<close>

theorem iterator_batches:
  assumes "queryAll E idx q = Inr docs" and "sort_docs E sorts docs = Inr D"
    and "ns \<noteq> []" and "\<forall>n \<in> set ns. 0 < n"
  shows "\<exists>it. it_run E idx q sorts ns iterate = Inr (take (sum_list ns) D, it) \<and>
    it_done it = Some (length D \<le> sum_list ns) \<and>
    it_pending E idx q sorts it = Inr (length D - sum_list ns, it)"
proof -
  obtain n ms where ns: "ns = n # ms" using assms(3) by (cases ns) auto
  have n: "0 < n" "max 1 n = n" using assms(4) ns by auto
  obtain it1 where 1: "it_fetch E idx q sorts (Some n) iterate = Inr (take n D, it1)" "it_at D n it1"
    using it_fetch_fresh [OF assms(1,2), of n] n by auto
  obtain it2 where 2: "it_run E idx q sorts ms it1 = Inr (take (sum_list ms) (drop n D), it2)" "it_at D (n + sum_list ms) it2"
    using it_run_at [OF 1(2), of ms E idx q sorts] assms(4) ns by auto
  have "it_run E idx q sorts ns iterate = Inr (take n D @ take (sum_list ms) (drop n D), it2)"
    using 1(1) 2(1) unfolding ns by (simp only: it_run.simps it_next_def bind_sum.simps prod.case)
  then have "it_run E idx q sorts ns iterate = Inr (take (sum_list ns) D, it2)"
    by (simp add: ns take_add)
  moreover have "it_done it2 = Some (length D \<le> sum_list ns)" using 2(2) by (simp add: it_at_def ns)
  moreover have "it_pending E idx q sorts it2 = Inr (length D - sum_list ns, it2)"
    using 2(2) by (auto simp: it_pending_def it_at_def ns split: if_splits)
  ultimately show ?thesis by blast
qed

lemma idx_ex_query: "queryAll env_id idx_ex NoQuery = Inr (jm_values idx_ex)"
  by code_simp

definition by_n :: "sort list" where
  "by_n = [\<lparr>s_key = [''n''], s_direction = ASC\<rparr>]"

lemma idx_ex_sort:
  "sort_docs env_id by_n (jm_values idx_ex) = Inr [\<lparr>iv_id = StringKey ''y'', iv_value = (''y'', 1)\<rparr>,
     \<lparr>iv_id = StringKey ''z'', iv_value = (''z'', 2)\<rparr>, \<lparr>iv_id = StringKey ''x'', iv_value = (''x'', 3)\<rparr>]"
  by code_simp

theorem iterator_batches_witness:
  "\<exists>it. it_run env_id idx_ex NoQuery by_n [1, 1] iterate =
     Inr ([\<lparr>iv_id = StringKey ''y'', iv_value = (''y'', 1)\<rparr>, \<lparr>iv_id = StringKey ''z'', iv_value = (''z'', 2)\<rparr>], it) \<and>
     it_pending env_id idx_ex NoQuery by_n it = Inr (1, it)"
  using iterator_batches [OF idx_ex_query idx_ex_sort, of "[1, 1]"] by (auto simp: numeral_2_eq_2)

text \<open>Asking a fresh iterator how many results are pending loses one: \<open>pending\<close> fetches a batch of
  size 0, which takes the first result, so the answer is one less than the number of results and
  \<open>all\<close> then returns the others only.\<close>

theorem pending_loses_result:
  assumes "queryAll E idx q = Inr docs" and "sort_docs E sorts docs = Inr (d # ds)"
  shows "\<exists>it it'. it_pending E idx q sorts iterate = Inr (length ds, it) \<and>
    it_all E idx q sorts it = Inr (ds, it') \<and> (\<exists>it''. it_all E idx q sorts iterate = Inr (d # ds, it''))"
proof -
  obtain it where it: "it_fetch E idx q sorts (Some 0) iterate = Inr ([d], it)" "it_queue it = Some ds" "it_done it = Some False"
    using it_fetch_fresh [OF assms, of 0] by auto
  have p: "it_pending E idx q sorts iterate = Inr (length ds, it)"
    using it by (simp add: it_pending_def iterate_def)
  have "it_all E idx q sorts it = Inr (ds, it\<lparr>it_done := Some True, it_queue := Some []\<rparr>)"
    using it by (simp add: it_all_def it_fetch_def it_load_def getBatch_all)
  moreover have "\<exists>it''. it_all E idx q sorts iterate = Inr (d # ds, it'')"
    using assms by (simp add: it_all_def it_fetch_def it_load_def getBatch_all iterate_def)
  ultimately show ?thesis using p by blast
qed

theorem pending_loses_result_witness:
  "\<exists>it it'. it_pending env_id idx_ex NoQuery by_n iterate = Inr (2, it) \<and>
     it_all env_id idx_ex NoQuery by_n it = Inr ([\<lparr>iv_id = StringKey ''z'', iv_value = (''z'', 2)\<rparr>,
       \<lparr>iv_id = StringKey ''x'', iv_value = (''x'', 3)\<rparr>], it')"
  using pending_loses_result [OF idx_ex_query idx_ex_sort] by (auto simp: numeral_2_eq_2)

text \<open>Sorting by a field that holds a number in every result returns the results themselves, in
  ascending or descending order of that number, equal ones in the order they had.\<close>

theorem sort_docs_sorted:
  assumes "\<forall>v \<in> set docs. extractFieldValue (toJs E (iv_value v)) key = Inr (JNum (g v))"
    and "\<forall>a b. jsLess E (JNum a) (JNum b) \<longleftrightarrow> a < b"
  shows "\<exists>D. sort_docs E [\<lparr>s_key = key, s_direction = dir\<rparr>] docs = Inr D \<and> mset D = mset docs \<and>
    sorted (map (\<lambda>v. case dir of ASC \<Rightarrow> g v | DESC \<Rightarrow> - g v) D) \<and>
    (\<forall>n. filter (\<lambda>v. g v = n) D = filter (\<lambda>v. g v = n) docs)"
proof -
  let ?k = "\<lambda>v. case dir of ASC \<Rightarrow> g v | DESC \<Rightarrow> - g v"
  let ?D = "js_sort (cmp_on ?k) docs"
  have s: "sorted (map ?k ?D)" using key_cmp.js_sort_sorted [of ?k docs] by (simp add: cmp_sorted_cmp_on)
  have "filter (\<lambda>v. g v = n) ?D = filter (\<lambda>v. g v = n) docs" for n
  proof (cases "\<exists>a \<in> set docs. g a = n")
    case True
    then obtain a where a: "g a = n" by blast
    have "(\<lambda>y. cmp_on ?k a y = 0) = (\<lambda>v. g v = n)" using a by (cases dir) (auto simp: cmp_on_def fun_eq_iff)
    then show ?thesis using key_cmp.js_sort_stable [of ?k a docs] by simp
  next
    case False
    then show ?thesis by (metis (mono_tags, lifting) filter_False set_js_sort)
  qed
  with s sort_docs_by_number [OF assms] show ?thesis by auto
qed

theorem sort_docs_sorted_witness:
  "\<exists>D. sort_docs env_id [\<lparr>s_key = [''n''], s_direction = DESC\<rparr>] (jm_values idx_ex) = Inr D \<and>
     sorted (map (\<lambda>v. - snd (iv_value v)) D)"
proof -
  have "\<forall>v \<in> set (jm_values idx_ex). extractFieldValue (toJs env_id (iv_value v)) [''n''] = Inr (JNum (snd (iv_value v)))"
    "\<forall>a b. jsLess env_id (JNum a) (JNum b) \<longleftrightarrow> a < b"
    by (auto simp: idx_ex_def jm_values_def env_id_def)
  from sort_docs_sorted [OF this, of DESC] show ?thesis by auto
qed

end
