(* ===== verification/RangeQueries.thy ===== *)
theory RangeQueries
  imports RangeMerge HashmapIndex
begin

text \<open>
  The queries over indexed ranges and entries of \<open>packages/programs/data/shared-log/src/ranges.ts\<close>: the
  ranges that contain a point, that cover a range, and the entries a change of ranges concerns. The
  index (\<open>peers\<close>, \<open>rects\<close>) is the in-memory engine of \<open>HashmapIndex\<close>; numbers of the resolution \<open>U32\<close> are
  JavaScript numbers, those of \<open>U64\<close> are bigints, and building a condition with a value outside of its type
  throws.

  Shown here: what each query selects, in terms of the points of a range.
\<close>

section \<open>Documents\<close>

fun num_js :: "resolution \<Rightarrow> int \<Rightarrow> jsval" where
  "num_js U32 n = JNum n"
| "num_js U64 n = JBig n"

fun mode_number :: "ReplicationIntent \<Rightarrow> int" where
  "mode_number NonStrict = 0"
| "mode_number Strict = 1"

definition range_js :: "range \<Rightarrow> jsval" where
  "range_js r = JObj
     [(''id'', JBytes (r_id r)), (''hash'', JStr (r_hash r)), (''timestamp'', JBig (r_timestamp r)),
      (''start1'', num_js (r_res r) (start1 r)), (''end1'', num_js (r_res r) (end1 r)),
      (''start2'', num_js (r_res r) (start2 r)), (''end2'', num_js (r_res r) (end2 r)),
      (''width'', num_js (r_res r) (width r)), (''mode'', JNum (mode_number (mode r)))]"

text \<open>An entry as the shared log indexes it.\<close>

record entryReplicated =
  er_res :: resolution
  er_hash :: string
  er_gid :: string
  er_coordinates :: "int list"
  er_wallTime :: int
  er_assignedToRangeBoundary :: bool
  er_meta :: "nat list"

definition entry_js :: "entryReplicated \<Rightarrow> jsval" where
  "entry_js e = JObj
     [(''hash'', JStr (er_hash e)), (''gid'', JStr (er_gid e)),
      (''coordinates'', JArr (map (num_js (er_res e)) (er_coordinates e))),
      (''wallTime'', JBig (er_wallTime e)), (''assignedToRangeBoundary'', JBool (er_assignedToRangeBoundary e)),
      (''_meta'', JBytes (er_meta e))]"

section \<open>Queries\<close>

fun seq_sum :: "('e + 'a) list \<Rightarrow> 'e + 'a list" where
  "seq_sum [] = Inr []"
| "seq_sum (x # xs) = bind_sum x (\<lambda>a. bind_sum (seq_sum xs) (\<lambda>as. Inr (a # as)))"

definition and_query :: "(query_error + query) list \<Rightarrow> query_error + query" where
  "and_query qs = bind_sum (seq_sum qs) new_And"

definition or_query :: "(query_error + query) list \<Rightarrow> query_error + query" where
  "or_query qs = bind_sum (seq_sum qs) new_Or"

record time_option =
  roleAgeLimit :: int
  t_matured :: bool
  t_now :: int

definition createContainingPointQuery :: "resolution \<Rightarrow> int list \<Rightarrow> time_option option \<Rightarrow> query_error + query_like" where
  "createContainingPointQuery res points time =
     bind_sum (or_query (concat (map (\<lambda>point.
         [and_query [new_IntegerCompare [''start1''] (num_js res point) LessOrEqual,
                     new_IntegerCompare [''end1''] (num_js res point) Greater],
          and_query [new_IntegerCompare [''start2''] (num_js res point) LessOrEqual,
                     new_IntegerCompare [''end2''] (num_js res point) Greater]]) points))) (\<lambda>or.
       case time of
         Some t \<Rightarrow>
           bind_sum (new_IntegerCompare [''timestamp''] (JBig (t_now t - roleAgeLimit t)) (if t_matured t then LessOrEqual else Greater)) (\<lambda>q.
             Inr (QueryList [or, q]))
       | None \<Rightarrow> Inr (OneQuery or))"

definition createContainingPartialPointQuery :: "resolution \<Rightarrow> int \<Rightarrow> bool \<Rightarrow> time_option option \<Rightarrow> query_error + query_like" where
  "createContainingPartialPointQuery res point first time =
     bind_sum (seq_sum
       ((if first
         then [new_IntegerCompare [''start1''] (num_js res point) LessOrEqual, new_IntegerCompare [''end1''] (num_js res point) Greater]
         else [new_IntegerCompare [''start2''] (num_js res point) LessOrEqual, new_IntegerCompare [''end2''] (num_js res point) Greater]) @
        (case time of
           Some t \<Rightarrow> [new_IntegerCompare [''timestamp''] (JBig (t_now t - roleAgeLimit t)) (if t_matured t then LessOrEqual else Greater)]
         | None \<Rightarrow> []))) (\<lambda>qs. Inr (QueryList qs))"

text \<open>\<open>iterate\<close> followed by \<open>all\<close>.\<close>

definition iterate_all ::
  "('d, 'm) index_env_scheme \<Rightarrow> 'd hashmap \<Rightarrow> query_like \<Rightarrow> sort list \<Rightarrow> query_error + 'd indexedValue list" where
  "iterate_all E idx q sorts = bind_sum (it_all E idx q sorts iterate) (\<lambda>(rs, _). Inr rs)"

fun allRangesContainingPoint ::
  "(range, 'm) index_env_scheme \<Rightarrow> resolution \<Rightarrow> range hashmap \<Rightarrow> int list \<Rightarrow> sort list \<Rightarrow> time_option option \<Rightarrow>
     query_error + range indexedValue list" where
  "allRangesContainingPoint E res rects [] sorts time = Inr []"
| "allRangesContainingPoint E res rects (point # points) sorts time =
     bind_sum (createContainingPartialPointQuery res point False time) (\<lambda>q1.
     bind_sum (createContainingPartialPointQuery res point True time) (\<lambda>q2.
     bind_sum (iterate_all E rects q1 sorts) (\<lambda>firsts.
     bind_sum (iterate_all E rects q2 sorts) (\<lambda>seconds.
     bind_sum (allRangesContainingPoint E res rects points sorts time) (\<lambda>rest.
       Inr (firsts @ seconds @ rest))))))"

definition countRangesContainingPoint ::
  "(range, 'm) index_env_scheme \<Rightarrow> resolution \<Rightarrow> range hashmap \<Rightarrow> int \<Rightarrow> time_option option \<Rightarrow> query_error + nat" where
  "countRangesContainingPoint E res rects point time =
     bind_sum (createContainingPointQuery res [point] time) (\<lambda>q. hm_count E rects q)"

text \<open>\<open>Math.round\<close> of a non-negative fraction; the grid for \<open>U32\<close> rounds, the one for \<open>U64\<close> cuts off.\<close>

definition round_div :: "int \<Rightarrow> int \<Rightarrow> int" where
  "round_div a b = (2 * a + b) div (2 * b)"

definition getEvenlySpacedU32 :: "int \<Rightarrow> nat \<Rightarrow> int list" where
  "getEvenlySpacedU32 start n = map (\<lambda>i. js_mod (round_div (start * int n + int i * MAX_U32) (int n)) MAX_U32) [0..<n]"

fun getGrid :: "resolution \<Rightarrow> int \<Rightarrow> nat \<Rightarrow> int list" where
  "getGrid U32 = getEvenlySpacedU32"
| "getGrid U64 = getEvenlySpacedU64"

fun coverage_hits ::
  "(range, 'm) index_env_scheme \<Rightarrow> resolution \<Rightarrow> range hashmap \<Rightarrow> bool \<Rightarrow> int list \<Rightarrow> nat \<Rightarrow> query_error + nat" where
  "coverage_hits E res peers normalized [] hits = Inr hits"
| "coverage_hits E res peers normalized (point # grid) hits =
     bind_sum (countRangesContainingPoint E res peers point None) (\<lambda>count.
       coverage_hits E res peers normalized grid (hits + (if normalized then (if count > 0 then 1 else 0) else count)))"

text \<open>The fraction \<open>hits / samples\<close>, as numerator and denominator.\<close>

definition appromixateCoverage ::
  "(range, 'm) index_env_scheme \<Rightarrow> resolution \<Rightarrow> range hashmap \<Rightarrow> nat \<Rightarrow> bool \<Rightarrow> query_error + nat \<times> nat" where
  "appromixateCoverage E res peers samples normalized =
     bind_sum (coverage_hits E res peers normalized (getGrid res 0 samples) 0) (\<lambda>hits. Inr (hits, samples))"

definition covering_one :: "resolution \<Rightarrow> int \<Rightarrow> int \<Rightarrow> query_error + query" where
  "covering_one res s e =
     or_query
       [and_query [new_IntegerCompare [''start1''] (num_js res s) LessOrEqual, new_IntegerCompare [''end1''] (num_js res e) GreaterOrEqual],
        and_query [new_IntegerCompare [''start2''] (num_js res s) LessOrEqual, new_IntegerCompare [''end2''] (num_js res e) GreaterOrEqual]]"

definition getCoveringRangeQuery :: "range \<Rightarrow> query_error + query list" where
  "getCoveringRangeQuery r = seq_sum [covering_one (r_res r) (start1 r) (end1 r), covering_one (r_res r) (start2 r) (end2 r)]"

definition covering_same_owner_query :: "range \<Rightarrow> query_error + query_like" where
  "covering_same_owner_query r =
     bind_sum (getCoveringRangeQuery r) (\<lambda>qs.
       Inr (QueryList (qs @ [StateFieldQuery [''hash''] (StringMatch (r_hash r) Exact False),
                             Not (StateFieldQuery [''id''] (ByteMatchQuery (r_id r)))])))"

definition countCoveringRangesSameOwner ::
  "(range, 'm) index_env_scheme \<Rightarrow> range hashmap \<Rightarrow> range \<Rightarrow> query_error + bool" where
  "countCoveringRangesSameOwner E rects r =
     bind_sum (covering_same_owner_query r) (\<lambda>q. bind_sum (hm_count E rects q) (\<lambda>n. Inr (n > 0)))"

definition getCoveringRangesSameOwner ::
  "(range, 'm) index_env_scheme \<Rightarrow> range hashmap \<Rightarrow> range \<Rightarrow> query_error + range indexedValue list" where
  "getCoveringRangesSameOwner E rects r = bind_sum (covering_same_owner_query r) (\<lambda>q. iterate_all E rects q [])"

definition matchEntriesInRangeQuery :: "range \<Rightarrow> query_error + query" where
  "matchEntriesInRangeQuery r =
     bind_sum (and_query [new_IntegerCompare [''coordinates''] (num_js (r_res r) (start1 r)) GreaterOrEqual,
                          new_IntegerCompare [''coordinates''] (num_js (r_res r) (end1 r)) Less]) (\<lambda>c1.
       if start2 r = end2 r then Inr c1
       else or_query [Inr c1,
              and_query [new_IntegerCompare [''coordinates''] (num_js (r_res r) (start2 r)) GreaterOrEqual,
                         new_IntegerCompare [''coordinates''] (num_js (r_res r) (end2 r)) Less]])"

definition assignedRangesQuery :: "rangeChange list \<Rightarrow> query_error + query" where
  "assignedRangesQuery changes =
     (let onlyStrict = list_all (\<lambda>c. mode (rc_range c) \<noteq> NonStrict) changes
      in or_query (map (\<lambda>c. matchEntriesInRangeQuery (rc_range c)) changes @
           (if \<not> onlyStrict \<or> length changes = 0
            then [Inr (StateFieldQuery [''assignedToRangeBoundary''] (BoolQuery True))] else [])))"

text \<open>The entries that \<open>toRebalance\<close> yields. Its loop asks the iterator for everything at once, which ends it.\<close>

definition toRebalance ::
  "int \<Rightarrow> (range \<Rightarrow> string) \<Rightarrow> (entryReplicated, 'm) index_env_scheme \<Rightarrow> rangeChange list \<Rightarrow> entryReplicated hashmap \<Rightarrow>
     rebalance_history \<Rightarrow> (cache_error + query_error) + entryReplicated list \<times> rebalance_history" where
  "toRebalance now rangeHash E changes index rebalanceHistory =
     (case mergeReplicationChanges now rangeHash changes rebalanceHistory of
        Inl e \<Rightarrow> Inl (Inl e)
      | Inr (change, h) \<Rightarrow>
          (case bind_sum (assignedRangesQuery change) (\<lambda>q. iterate_all E index (OneQuery q) []) of
             Inl e \<Rightarrow> Inl (Inr e)
           | Inr entries \<Rightarrow> Inr (map iv_value entries, h)))"

definition isMatured :: "range \<Rightarrow> int \<Rightarrow> int \<Rightarrow> bool" where
  "isMatured segment now minAge \<longleftrightarrow> now - r_timestamp segment \<ge> minAge"

section \<open>What the conditions mean on a document\<close>

lemma plain_flat_field:
  assumes "map_of ps k = Some v" and "elements f v = None" and "decidable_on f v" and "\<not> nestedMatch E v"
  shows "plain_field E (JObj ps) 0 [k] f w \<longleftrightarrow> w = v"
  using assms by (cases f) (auto simp: plain_field_def)

lemma flat_query:
  assumes "map_of ps k = Some v" and "elements f v = None" and "decidable_on f v" and "\<not> nestedMatch E v"
  shows "plain_query E (JObj ps) (StateFieldQuery [k] f)"
    and "query_holds E (JObj ps) (StateFieldQuery [k] f) \<longleftrightarrow> field_holds E [k] f v"
  unfolding plain_query.simps query_holds.simps plain_flat_field [OF assms] by blast+

text \<open>What the index of ranges assumes of its environment: the documents are the fields of ranges, keyed by
  their id, no field is a nested store, base 64 is injective, strings and numbers are ordered.\<close>

definition range_env :: "(range, 'm) index_env_scheme \<Rightarrow> bool" where
  "range_env E \<longleftrightarrow> 0 < stack E \<and> inj (toBase64 E) \<and> (\<forall>v. \<not> nestedMatch E v) \<and> toJs E = range_js \<and> indexBy E = [''id''] \<and>
     comparator (localeCompare E) \<and> (\<forall>a b. jsLess E (JNum a) (JNum b) \<longleftrightarrow> a < b) \<and> (\<forall>a b. jsLess E (JBig a) (JBig b) \<longleftrightarrow> a < b)"

definition range_index :: "resolution \<Rightarrow> (range, 'm) index_env_scheme \<Rightarrow> range hashmap \<Rightarrow> bool" where
  "range_index res E idx \<longleftrightarrow> range_env E \<and> hm_ok E idx \<and>
     (\<forall>v \<in> set (jm_values idx). iv_id v = Uint8ArrayKey (r_id (iv_value v)) \<and> range_ok (iv_value v) \<and> r_res (iv_value v) = res)"

lemma elements_num [simp]: "elements f (num_js res n) = None"
  by (cases res) simp_all

lemma num_js_inj [simp]: "num_js res n = JNum m \<longleftrightarrow> res = U32 \<and> n = m" "num_js res n = JBig m \<longleftrightarrow> res = U64 \<and> n = m"
  "num_js res n \<noteq> JUndef" "num_js res n \<noteq> JNull"
  by (cases res; simp)+

lemma num_holds: "field_holds E k (IntegerCompare c m) (num_js res n) \<longleftrightarrow> compare n c m"
  by (cases res) auto

lemma range_int_query:
  assumes "range_env E" and "(k, v) \<in> set [(''start1'', start1 r), (''end1'', end1 r), (''start2'', start2 r),
      (''end2'', end2 r), (''width'', width r)]"
  shows "plain_query E (range_js r) (StateFieldQuery [k] (IntegerCompare c n)) \<and>
    (query_holds E (range_js r) (StateFieldQuery [k] (IntegerCompare c n)) \<longleftrightarrow> compare v c n)"
proof -
  have "\<not> nestedMatch E x" for x using assms(1) by (simp add: range_env_def)
  moreover have "\<exists>ps. range_js r = JObj ps \<and> map_of ps k = Some (num_js (r_res r) v)"
    using assms(2) by (auto simp: range_js_def)
  ultimately show ?thesis by (auto simp: flat_query nullish_def num_holds simp del: plain_query.simps query_holds.simps field_holds.simps)
qed

lemma range_other_query:
  assumes "range_env E"
  shows "plain_query E (range_js r) (StateFieldQuery [''timestamp''] (IntegerCompare c n))"
    "query_holds E (range_js r) (StateFieldQuery [''timestamp''] (IntegerCompare c n)) \<longleftrightarrow> compare (r_timestamp r) c n"
    "plain_query E (range_js r) (StateFieldQuery [''mode''] (IntegerCompare c n))"
    "query_holds E (range_js r) (StateFieldQuery [''mode''] (IntegerCompare c n)) \<longleftrightarrow> compare (mode_number (mode r)) c n"
    "plain_query E (range_js r) (StateFieldQuery [''hash''] (StringMatch s Exact False))"
    "query_holds E (range_js r) (StateFieldQuery [''hash''] (StringMatch s Exact False)) \<longleftrightarrow> r_hash r = s"
    "plain_query E (range_js r) (StateFieldQuery [''id''] (ByteMatchQuery b))"
    "query_holds E (range_js r) (StateFieldQuery [''id''] (ByteMatchQuery b)) \<longleftrightarrow> r_id r = b"
proof -
  have n: "\<not> nestedMatch E x" for x using assms by (simp add: range_env_def)
  show "plain_query E (range_js r) (StateFieldQuery [''timestamp''] (IntegerCompare c n))"
    "query_holds E (range_js r) (StateFieldQuery [''timestamp''] (IntegerCompare c n)) \<longleftrightarrow> compare (r_timestamp r) c n"
    using flat_query [where k = "''timestamp''" and f = "IntegerCompare c n", OF _ _ _ n]
    by (simp_all add: range_js_def nullish_def del: plain_query.simps query_holds.simps)
  show "plain_query E (range_js r) (StateFieldQuery [''mode''] (IntegerCompare c n))"
    "query_holds E (range_js r) (StateFieldQuery [''mode''] (IntegerCompare c n)) \<longleftrightarrow> compare (mode_number (mode r)) c n"
    using flat_query [where k = "''mode''" and f = "IntegerCompare c n", OF _ _ _ n]
    by (simp_all add: range_js_def nullish_def del: plain_query.simps query_holds.simps)
  show "plain_query E (range_js r) (StateFieldQuery [''hash''] (StringMatch s Exact False))"
    "query_holds E (range_js r) (StateFieldQuery [''hash''] (StringMatch s Exact False)) \<longleftrightarrow> r_hash r = s"
    using flat_query [where k = "''hash''" and f = "StringMatch s Exact False", OF _ _ _ n]
    by (simp_all add: range_js_def nullish_def fold_case_def del: plain_query.simps query_holds.simps)
  show "plain_query E (range_js r) (StateFieldQuery [''id''] (ByteMatchQuery b))"
    "query_holds E (range_js r) (StateFieldQuery [''id''] (ByteMatchQuery b)) \<longleftrightarrow> r_id r = b"
    using flat_query [where k = "''id''" and f = "ByteMatchQuery b", OF _ _ _ n]
    by (simp_all add: range_js_def nullish_def del: plain_query.simps query_holds.simps)
qed

lemma range_int_queries:
  assumes "range_env E"
  shows "plain_query E (range_js r) (StateFieldQuery [''start1''] (IntegerCompare c n))"
    "query_holds E (range_js r) (StateFieldQuery [''start1''] (IntegerCompare c n)) \<longleftrightarrow> compare (start1 r) c n"
    "plain_query E (range_js r) (StateFieldQuery [''end1''] (IntegerCompare c n))"
    "query_holds E (range_js r) (StateFieldQuery [''end1''] (IntegerCompare c n)) \<longleftrightarrow> compare (end1 r) c n"
    "plain_query E (range_js r) (StateFieldQuery [''start2''] (IntegerCompare c n))"
    "query_holds E (range_js r) (StateFieldQuery [''start2''] (IntegerCompare c n)) \<longleftrightarrow> compare (start2 r) c n"
    "plain_query E (range_js r) (StateFieldQuery [''end2''] (IntegerCompare c n))"
    "query_holds E (range_js r) (StateFieldQuery [''end2''] (IntegerCompare c n)) \<longleftrightarrow> compare (end2 r) c n"
    "plain_query E (range_js r) (StateFieldQuery [''width''] (IntegerCompare c n))"
    "query_holds E (range_js r) (StateFieldQuery [''width''] (IntegerCompare c n)) \<longleftrightarrow> compare (width r) c n"
  using range_int_query [OF assms, of "''start1''" "start1 r"] range_int_query [OF assms, of "''end1''" "end1 r"]
    range_int_query [OF assms, of "''start2''" "start2 r"] range_int_query [OF assms, of "''end2''" "end2 r"]
    range_int_query [OF assms, of "''width''" "width r"]
  by (simp_all del: plain_query.simps query_holds.simps)

lemma plain_logical [simp]:
  "plain_query E doc (And qs) \<longleftrightarrow> (\<forall>q \<in> set qs. plain_query E doc q)" "plain_query E doc (Or qs) \<longleftrightarrow> (\<forall>q \<in> set qs. plain_query E doc q)"
  "plain_query E doc (Not q) \<longleftrightarrow> plain_query E doc q"
  "query_holds E doc (And qs) \<longleftrightarrow> (\<forall>q \<in> set qs. query_holds E doc q)" "query_holds E doc (Or qs) \<longleftrightarrow> (\<exists>q \<in> set qs. query_holds E doc q)"
  "query_holds E doc (Not q) \<longleftrightarrow> \<not> query_holds E doc q"
  by simp_all

lemmas range_queries = range_int_queries range_other_query

lemma int_query_in_type [simp]:
  "0 \<le> n \<Longrightarrow> n \<le> maxValue res \<Longrightarrow> new_IntegerCompare k (num_js res n) c = Inr (StateFieldQuery k (IntegerCompare c n))"
  by (cases res) (simp_all add: new_UnsignedIntegerValue_def new_BigUnsignedIntegerValue_def MAX_U32_def MAX_U64_def)

declare plain_query.simps [simp del] query_holds.simps [simp del]

lemma range_keyed:
  assumes "range_index res E idx" and "v \<in> set (jm_values idx)"
  shows "keyed E v"
  using assms by (auto simp: range_index_def range_env_def keyed_def range_js_def)

text \<open>A query on the index of ranges scans it, whatever the order and the conditions.\<close>

lemma range_queryAll:
  assumes "range_index res E idx" and "toQuery q = Inr qs" and "\<And>r. \<forall>q \<in> set qs. plain_query E (range_js r) q"
  shows "queryAll E idx q = Inr (filter (\<lambda>v. \<forall>q \<in> set qs. query_holds E (range_js (iv_value v)) q) (jm_values idx))"
proof -
  have e: "range_env E" "hm_ok E idx" using assms(1) by (simp_all add: range_index_def)
  then have s: "selects E qs = (\<lambda>v. \<forall>q \<in> set qs. query_holds E (range_js (iv_value v)) q)"
    by (simp add: selects_def fun_eq_iff range_env_def)
  have "\<forall>v \<in> set (jm_values idx). plain_doc E qs v \<and> keyed E v"
    using assms(3) range_keyed [OF assms(1)] e(1) by (simp add: plain_doc_def range_env_def)
  then show ?thesis using queryAll_filter [OF _ _ e(2) assms(2)] e(1) unfolding s by (simp add: range_env_def)
qed

lemma iterate_all_unsorted: "queryAll E idx q = Inr D \<Longrightarrow> iterate_all E idx q [] = Inr D"
  using it_fetch_all [of E idx q D "[]" D] by (auto simp: iterate_all_def it_all_def sort_docs_def)

section \<open>Ranges that contain a point\<close>

lemma partial_point_query:
  assumes "range_index res E idx" and "0 \<le> p" and "p \<le> maxValue res"
  shows "\<exists>q. createContainingPartialPointQuery res p first None = Inr q \<and>
    iterate_all E idx q [] = Inr (filter (\<lambda>v. let r = iv_value v in
      if first then start1 r \<le> p \<and> p < end1 r else start2 r \<le> p \<and> p < end2 r) (jm_values idx))"
proof -
  have e: "range_env E" using assms(1) by (simp add: range_index_def)
  let ?qs = "if first then [StateFieldQuery [''start1''] (IntegerCompare LessOrEqual p), StateFieldQuery [''end1''] (IntegerCompare Greater p)]
    else [StateFieldQuery [''start2''] (IntegerCompare LessOrEqual p), StateFieldQuery [''end2''] (IntegerCompare Greater p)]"
  have "queryAll E idx (QueryList ?qs) = Inr (filter (\<lambda>v. \<forall>q \<in> set ?qs. query_holds E (range_js (iv_value v)) q) (jm_values idx))"
    by (rule range_queryAll [OF assms(1)]) (auto simp: range_queries [OF e])
  then have "iterate_all E idx (QueryList ?qs) [] = Inr (filter (\<lambda>v. let r = iv_value v in
      if first then start1 r \<le> p \<and> p < end1 r else start2 r \<le> p \<and> p < end2 r) (jm_values idx))"
    by (cases first) (simp_all add: range_queries [OF e] iterate_all_unsorted Let_def)
  then show ?thesis using assms(2,3) by (intro exI [of _ "QueryList ?qs"]) (simp add: createContainingPartialPointQuery_def)
qed

lemma point_query:
  assumes "range_env E" and "\<forall>p \<in> set ps. 0 \<le> p \<and> p \<le> maxValue res" and "ps \<noteq> []"
  shows "\<exists>q. createContainingPointQuery res ps None = Inr (OneQuery q) \<and> (\<forall>r. plain_query E (range_js r) q \<and>
    (query_holds E (range_js r) q \<longleftrightarrow> (\<exists>p \<in> set ps. contains r p)))"
proof -
  let ?ands = "concat (map (\<lambda>p. [And [StateFieldQuery [''start1''] (IntegerCompare LessOrEqual p), StateFieldQuery [''end1''] (IntegerCompare Greater p)],
    And [StateFieldQuery [''start2''] (IntegerCompare LessOrEqual p), StateFieldQuery [''end2''] (IntegerCompare Greater p)]]) ps)"
  have "seq_sum (concat (map (\<lambda>point.
         [and_query [new_IntegerCompare [''start1''] (num_js res point) LessOrEqual, new_IntegerCompare [''end1''] (num_js res point) Greater],
          and_query [new_IntegerCompare [''start2''] (num_js res point) LessOrEqual, new_IntegerCompare [''end2''] (num_js res point) Greater]]) ps)) =
      Inr ?ands"
    using assms(2) by (induction ps) (simp_all add: and_query_def new_And_def)
  moreover have "?ands \<noteq> []" using assms(3) by (cases ps) simp_all
  ultimately have "createContainingPointQuery res ps None = Inr (OneQuery (Or ?ands))"
    by (simp add: createContainingPointQuery_def or_query_def new_Or_def)
  moreover have "plain_query E (range_js r) (Or ?ands)" for r by (auto simp: range_queries [OF assms(1)])
  moreover have "query_holds E (range_js r) (Or ?ands) \<longleftrightarrow> (\<exists>p \<in> set ps. contains r p)" for r
    by (auto simp: range_queries [OF assms(1)] contains_def)
  ultimately show ?thesis by blast
qed

lemma count_containing:
  assumes "range_index res E idx" and "0 \<le> p" and "p \<le> maxValue res"
  shows "countRangesContainingPoint E res idx p None = Inr (length (filter (\<lambda>v. contains (iv_value v) p) (jm_values idx)))"
proof -
  have e: "range_env E" using assms(1) by (simp add: range_index_def)
  obtain q where q: "createContainingPointQuery res [p] None = Inr (OneQuery q)"
    "\<And>r. plain_query E (range_js r) q \<and> (query_holds E (range_js r) q \<longleftrightarrow> contains r p)"
    using point_query [OF e, of "[p]" res] assms(2,3) by auto
  have "queryAll E idx (OneQuery q) = Inr (filter (\<lambda>v. contains (iv_value v) p) (jm_values idx))"
    using range_queryAll [OF assms(1), of "OneQuery q" "[q]"] q(2) by simp
  then show ?thesis using q(1) by (simp add: countRangesContainingPoint_def hm_count_def)
qed

lemma allRanges_lists:
  assumes "range_index res E idx" and "\<forall>p \<in> set ps. 0 \<le> p \<and> p \<le> maxValue res"
  shows "allRangesContainingPoint E res idx ps [] None = Inr (concat (map (\<lambda>p.
    filter (\<lambda>v. start2 (iv_value v) \<le> p \<and> p < end2 (iv_value v)) (jm_values idx) @
    filter (\<lambda>v. start1 (iv_value v) \<le> p \<and> p < end1 (iv_value v)) (jm_values idx)) ps))"
  using assms(2)
proof (induction ps)
  case (Cons p ps)
  have p: "0 \<le> p" "p \<le> maxValue res" using Cons.prems by simp_all
  obtain q1 q2 where "createContainingPartialPointQuery res p False None = Inr q1" "createContainingPartialPointQuery res p True None = Inr q2"
    "iterate_all E idx q1 [] = Inr (filter (\<lambda>v. start2 (iv_value v) \<le> p \<and> p < end2 (iv_value v)) (jm_values idx))"
    "iterate_all E idx q2 [] = Inr (filter (\<lambda>v. start1 (iv_value v) \<le> p \<and> p < end1 (iv_value v)) (jm_values idx))"
    using partial_point_query [OF assms(1) p, of False] partial_point_query [OF assms(1) p, of True] by (auto simp: Let_def)
  with Cons show ?case by simp
qed simp

lemma allRanges_set:
  assumes "range_index res E idx" and "\<forall>p \<in> set ps. 0 \<le> p \<and> p \<le> maxValue res"
  shows "\<exists>rs. allRangesContainingPoint E res idx ps [] None = Inr rs \<and>
    set rs = {v \<in> set (jm_values idx). \<exists>p \<in> set ps. contains (iv_value v) p}"
  using allRanges_lists [OF assms] by (auto simp: contains_def)

section \<open>Properties\<close>

text \<open>\<open>countRangesContainingPoint\<close> counts the indexed ranges that contain the point, and the approximate
  coverage is the number of them over all points of the grid, or the number of points that are in a
  range when it is normalised, by the number of samples; normalised it is at most 1.\<close>

theorem coverage_counts:
  assumes "range_index res E idx"
  shows "appromixateCoverage E res idx n normalized =
    Inr (sum_list (map (\<lambda>p. let c = length (filter (\<lambda>v. contains (iv_value v) p) (jm_values idx))
                          in if normalized then of_bool (0 < c) else c) (getGrid res 0 n)), n) \<and>
    (\<forall>p \<in> set (getGrid res 0 n). 0 \<le> p \<and> p < maxValue res) \<and>
    sum_list (map (\<lambda>p. of_bool (0 < length (filter (\<lambda>v. contains (iv_value v) p) (jm_values idx)))) (getGrid res 0 n)) \<le> n"
proof -
  have grid: "\<forall>p \<in> set (getGrid res 0 n). 0 \<le> p \<and> p < maxValue res"
    by (cases res) (auto simp: getEvenlySpacedU32_def getEvenlySpacedU64_def round_div_def MAX_U32_def MAX_U64_def
      pos_imp_zdiv_nonneg_iff)
  let ?c = "\<lambda>p. length (filter (\<lambda>v. contains (iv_value v) p) (jm_values idx))"
  have hits: "\<forall>p \<in> set ps. 0 \<le> p \<and> p < maxValue res \<Longrightarrow> coverage_hits E res idx normalized ps h =
      Inr (h + sum_list (map (\<lambda>p. if normalized then of_bool (0 < ?c p) else ?c p) ps))" for ps h
  proof (induction ps arbitrary: h)
    case (Cons p ps)
    then show ?case using count_containing [OF assms, of p] by simp
  qed simp
  have len: "length (getGrid res 0 n) = n" by (cases res) (simp_all add: getEvenlySpacedU32_def getEvenlySpacedU64_def)
  have "sum_list (map (\<lambda>p. of_bool (P p)) xs) \<le> length xs" for P :: "int \<Rightarrow> bool" and xs by (induction xs) auto
  from this [of _ "getGrid res 0 n", unfolded len] show ?thesis
    using hits [OF grid, of 0] grid by (simp only: appromixateCoverage_def Let_def bind_sum.simps add_0 simp_thms)
qed

text \<open>\<open>allRangesContainingPoint\<close> returns the indexed ranges that contain one of the points: for each point, a range
  that passes the origin once, and every other range twice.\<close>

theorem allRangesContainingPoint_finds:
  assumes "range_index res E idx" and "\<forall>p \<in> set ps. 0 \<le> p \<and> p \<le> maxValue res"
  shows "\<exists>rs. allRangesContainingPoint E res idx ps [] None = Inr rs \<and>
    set rs = {v \<in> set (jm_values idx). \<exists>p \<in> set ps. contains (iv_value v) p} \<and>
    (\<forall>v \<in> set (jm_values idx). count (mset rs) v = count (mset (jm_values idx)) v *
       sum_list (map (\<lambda>p. if contains (iv_value v) p then if wrapped (iv_value v) then 1 else 2 else 0) ps))"
proof -
  let ?vs = "jm_values idx"
  have ok: "range_ok (iv_value v)" if "v \<in> set ?vs" for v using assms(1) that by (simp add: range_index_def)
  have cnt: "count (mset (filter P xs)) v = (if P v then count (mset xs) v else 0)" for P xs and v :: "range indexedValue"
    by (induction xs) auto
  have one: "(if start2 (iv_value v) \<le> p \<and> p < end2 (iv_value v) then c else 0) + (if start1 (iv_value v) \<le> p \<and> p < end1 (iv_value v) then c else 0) =
      c * (if contains (iv_value v) p then if wrapped (iv_value v) then 1 else 2 else (0::nat))" if "v \<in> set ?vs" for v p c
    using ok [OF that] by (auto simp: range_ok_def contains_def wrapped_def)
  have "count (mset (concat (map (\<lambda>p. filter (\<lambda>v. start2 (iv_value v) \<le> p \<and> p < end2 (iv_value v)) ?vs @
      filter (\<lambda>v. start1 (iv_value v) \<le> p \<and> p < end1 (iv_value v)) ?vs) ps))) v =
      count (mset ?vs) v * sum_list (map (\<lambda>p. if contains (iv_value v) p then if wrapped (iv_value v) then 1 else 2 else 0) ps)"
    if "v \<in> set ?vs" for v
    by (induction ps) (simp_all add: cnt one [OF that] add_mult_distrib2 flip: add.assoc)
  then show ?thesis using allRanges_lists [OF assms] allRanges_set [OF assms] by auto
qed

section \<open>Ranges that cover a range\<close>

definition covers :: "range \<Rightarrow> range \<Rightarrow> bool" where
  "covers s r \<longleftrightarrow> (\<forall>p. contains r p \<longrightarrow> contains s p)"

definition covers_segment :: "range \<Rightarrow> int \<Rightarrow> int \<Rightarrow> bool" where
  "covers_segment s a b \<longleftrightarrow> start1 s \<le> a \<and> b \<le> end1 s \<or> start2 s \<le> a \<and> b \<le> end2 s"

lemma covers_segments: "covers_segment s (start1 r) (end1 r) \<Longrightarrow> covers_segment s (start2 r) (end2 r) \<Longrightarrow> covers s r"
  by (auto simp: covers_def covers_segment_def contains_def)

text \<open>A segment that is not empty lies in one of the two segments of a range that does not fill the ring.\<close>

lemma segment_in_range:
  assumes "range_ok s" and "width s < maxValue (r_res s)" and "a < b" and "\<forall>p. a \<le> p \<and> p < b \<longrightarrow> contains s p"
  shows "covers_segment s a b"
proof -
  have a: "contains s a" and b: "contains s (b - 1)" using assms(3,4) by auto
  show ?thesis
  proof (cases "wrapped s")
    case True
    then have s: "start2 s = 0" "end1 s = maxValue (r_res s)" "0 < end2 s" "end2 s < start1 s"
      using assms(1,2) by (auto simp: range_ok_def wrapped_def)
    then have "\<not> contains s (end2 s)" by (simp add: contains_def)
    then have "\<not> (a \<le> end2 s \<and> end2 s < b)" using assms(4) by blast
    with a b s show ?thesis by (auto simp: covers_segment_def contains_def)
  next
    case False
    with assms(1) a b show ?thesis by (auto simp: covers_segment_def contains_def wrapped_def range_ok_def)
  qed
qed

lemma covers_segments_iff:
  assumes "range_ok s" and "width s < maxValue (r_res s)" and "range_ok r" and "0 < width r" and "start1 r < maxValue (r_res r)"
  shows "covers s r \<longleftrightarrow> covers_segment s (start1 r) (end1 r) \<and> covers_segment s (start2 r) (end2 r)"
proof
  assume c: "covers s r"
  have "start1 r < end1 r" "start2 r < end2 r" using assms(3-5) by (auto simp: range_ok_def)
  moreover have "\<forall>p. start1 r \<le> p \<and> p < end1 r \<longrightarrow> contains s p" "\<forall>p. start2 r \<le> p \<and> p < end2 r \<longrightarrow> contains s p"
    using c by (auto simp: covers_def contains_def)
  ultimately show "covers_segment s (start1 r) (end1 r) \<and> covers_segment s (start2 r) (end2 r)"
    using segment_in_range [OF assms(1,2)] by blast
qed (use covers_segments in blast)

lemma covering_query:
  assumes "range_index res E idx" and "range_ok r" and "r_res r = res"
  shows "\<exists>q. covering_same_owner_query r = Inr q \<and> queryAll E idx q = Inr (filter (\<lambda>v. let s = iv_value v in
    covers_segment s (start1 r) (end1 r) \<and> covers_segment s (start2 r) (end2 r) \<and> r_hash s = r_hash r \<and> r_id s \<noteq> r_id r) (jm_values idx))"
proof -
  have e: "range_env E" using assms(1) by (simp add: range_index_def)
  let ?one = "\<lambda>a b. Or [And [StateFieldQuery [''start1''] (IntegerCompare LessOrEqual a), StateFieldQuery [''end1''] (IntegerCompare GreaterOrEqual b)],
    And [StateFieldQuery [''start2''] (IntegerCompare LessOrEqual a), StateFieldQuery [''end2''] (IntegerCompare GreaterOrEqual b)]]"
  let ?qs = "[?one (start1 r) (end1 r), ?one (start2 r) (end2 r), StateFieldQuery [''hash''] (StringMatch (r_hash r) Exact False),
    Not (StateFieldQuery [''id''] (ByteMatchQuery (r_id r)))]"
  have "covering_one res a b = Inr (?one a b)" if "0 \<le> a" "a \<le> maxValue res" "0 \<le> b" "b \<le> maxValue res" for a b
    using that by (simp add: covering_one_def or_query_def and_query_def new_And_def new_Or_def)
  then have "covering_same_owner_query r = Inr (QueryList ?qs)"
    using assms(2,3) by (auto simp: covering_same_owner_query_def getCoveringRangeQuery_def range_ok_def)
  moreover have "queryAll E idx (QueryList ?qs) = Inr (filter (\<lambda>v. \<forall>q \<in> set ?qs. query_holds E (range_js (iv_value v)) q) (jm_values idx))"
    by (rule range_queryAll [OF assms(1)]) (auto simp: range_queries [OF e])
  ultimately show ?thesis by (simp add: range_queries [OF e] Let_def covers_segment_def)
qed

text \<open>\<open>getCoveringRangesSameOwner\<close> returns only other ranges of the owner that contain every point of the given one,
  and all of those that do not fill the whole ring; \<open>countCoveringRangesSameOwner\<close> answers whether there is one.\<close>

theorem getCoveringRangesSameOwner_covers:
  assumes "range_index res E idx" and "range_ok r" and "r_res r = res"
  shows "\<exists>rs. getCoveringRangesSameOwner E idx r = Inr rs \<and> countCoveringRangesSameOwner E idx r = Inr (rs \<noteq> []) \<and>
    (\<forall>v \<in> set rs. v \<in> set (jm_values idx) \<and> r_hash (iv_value v) = r_hash r \<and> r_id (iv_value v) \<noteq> r_id r \<and> covers (iv_value v) r) \<and>
    (0 < width r \<and> start1 r < maxValue res \<longrightarrow>
      (\<forall>v \<in> set (jm_values idx). r_hash (iv_value v) = r_hash r \<and> r_id (iv_value v) \<noteq> r_id r \<and> covers (iv_value v) r \<and>
         width (iv_value v) < maxValue res \<longrightarrow> v \<in> set rs))"
proof -
  obtain q rs where q: "covering_same_owner_query r = Inr q" "queryAll E idx q = Inr rs" and
    rs: "set rs = {v \<in> set (jm_values idx). covers_segment (iv_value v) (start1 r) (end1 r) \<and> covers_segment (iv_value v) (start2 r) (end2 r) \<and>
        r_hash (iv_value v) = r_hash r \<and> r_id (iv_value v) \<noteq> r_id r}"
    using covering_query [OF assms] by (auto simp: Let_def)
  have ok: "range_ok (iv_value v)" "r_res (iv_value v) = res" if "v \<in> set (jm_values idx)" for v
    using assms(1) that by (simp_all add: range_index_def)
  have "getCoveringRangesSameOwner E idx r = Inr rs" "countCoveringRangesSameOwner E idx r = Inr (rs \<noteq> [])"
    using q iterate_all_unsorted [OF q(2)]
    by (simp_all add: getCoveringRangesSameOwner_def countCoveringRangesSameOwner_def hm_count_def)
  moreover have "\<forall>v \<in> set rs. v \<in> set (jm_values idx) \<and> r_hash (iv_value v) = r_hash r \<and> r_id (iv_value v) \<noteq> r_id r \<and> covers (iv_value v) r"
    using rs covers_segments by auto
  moreover have "v \<in> set rs" if "0 < width r" "start1 r < maxValue res" "v \<in> set (jm_values idx)" "r_hash (iv_value v) = r_hash r"
      "r_id (iv_value v) \<noteq> r_id r" "covers (iv_value v) r" "width (iv_value v) < maxValue res" for v
    using covers_segments_iff [OF ok(1) [OF that(3)] _ assms(2) that(1)] that ok [OF that(3)] assms(3) rs by auto
  ultimately show ?thesis by blast
qed

section \<open>Entries in changed ranges\<close>

definition entry_index :: "(entryReplicated, 'm) index_env_scheme \<Rightarrow> bool" where
  "entry_index E \<longleftrightarrow> 1 < stack E \<and> (\<forall>v. \<not> nestedMatch E v) \<and> toJs E = entry_js"

lemma coordinate_elem:
  "elem_plain E k ([], IntegerCompare c n) (num_js res x)"
  "elem_holds E k ([], IntegerCompare c n) (num_js res x) \<longleftrightarrow> compare x c n"
  by (cases res; simp add: elem_plain_def elem_holds_def plain_field_def nullish_def)+

text \<open>Two bounds on the coordinates hold when one coordinate is between them.\<close>

lemma coordinates_between:
  assumes "entry_index E"
  shows "\<exists>h. handleQueryObject E (And [StateFieldQuery [''coordinates''] (IntegerCompare GreaterOrEqual a),
      StateFieldQuery [''coordinates''] (IntegerCompare Less b)]) (entry_js e) [] 0 = Inr (Some (\<exists>c \<in> set (er_coordinates e). a \<le> c \<and> c < b), h)"
proof -
  let ?cs = "[([], IntegerCompare GreaterOrEqual a), ([], IntegerCompare Less b)]"
  let ?xs = "map (num_js (er_res e)) (er_coordinates e)"
  obtain ps where ps: "entry_js e = JObj ps" "map_of ps ''coordinates'' = Some (JArr ?xs)" by (auto simp: entry_js_def)
  have "\<forall>x \<in> set ?xs. \<forall>c \<in> set ?cs. elem_plain E ''coordinates'' c x" by (auto simp: coordinate_elem)
  moreover have "(\<exists>x \<in> set ?xs. \<forall>c \<in> set ?cs. elem_holds E ''coordinates'' c x) \<longleftrightarrow> (\<exists>c \<in> set (er_coordinates e). a \<le> c \<and> c < b)"
    by (auto simp: coordinate_elem)
  moreover have "1 < stack E" using assms by (simp add: entry_index_def)
  ultimately show ?thesis using and_on_array [of E "''coordinates''" ps ?xs ?xs ?cs "[]"] ps by simp
qed

lemma handle_or_decides:
  assumes "list_all2 (\<lambda>b q. \<exists>h. handleQueryObject E q doc [] 0 = Inr (Some b, h)) bs qs"
  shows "handle_or E qs doc h 0 = Inr (Some (True \<in> set bs), h)"
  using assms
proof (induction bs qs rule: list_all2_induct)
  case (Cons b bs q qs)
  then obtain h' where "handleQueryObject E q doc [] 0 = Inr (Some b, h')" by auto
  with Cons show ?case by simp
qed simp

lemma seq_sum_all2:
  assumes "\<forall>c \<in> set cs. \<exists>q. f c = Inr q \<and> R c q"
  shows "\<exists>qs. seq_sum (map f cs) = Inr qs \<and> list_all2 R cs qs"
  using assms
proof (induction cs)
  case (Cons c cs)
  then obtain q qs where "f c = Inr q" "R c q" "seq_sum (map f cs) = Inr qs" "list_all2 R cs qs" by auto
  then show ?case by (intro exI [of _ "q # qs"]) simp
qed simp

lemma seq_sum_append: "seq_sum xs = Inr as \<Longrightarrow> seq_sum ys = Inr bs \<Longrightarrow> seq_sum (xs @ ys) = Inr (as @ bs)"
  by (induction xs arbitrary: as) auto

lemma matchEntries_decides:
  assumes "entry_index E" and "range_ok r"
  shows "\<exists>q. matchEntriesInRangeQuery r = Inr q \<and>
    (\<forall>e. \<exists>h. handleQueryObject E q (entry_js e) [] 0 = Inr (Some (\<exists>c \<in> set (er_coordinates e). contains r c), h))"
proof -
  let ?and = "\<lambda>a b. And [StateFieldQuery [''coordinates''] (IntegerCompare GreaterOrEqual a), StateFieldQuery [''coordinates''] (IntegerCompare Less b)]"
  have b: "0 \<le> start1 r" "start1 r \<le> maxValue (r_res r)" "0 \<le> end1 r" "end1 r \<le> maxValue (r_res r)"
      "0 \<le> start2 r" "start2 r \<le> maxValue (r_res r)" "0 \<le> end2 r" "end2 r \<le> maxValue (r_res r)"
    using assms(2) by (auto simp: range_ok_def)
  show ?thesis
  proof (cases "start2 r = end2 r")
    case True
    then have "matchEntriesInRangeQuery r = Inr (?and (start1 r) (end1 r))"
      using b by (simp add: matchEntriesInRangeQuery_def and_query_def new_And_def)
    moreover have "contains r c \<longleftrightarrow> start1 r \<le> c \<and> c < end1 r" for c using True by (auto simp: contains_def)
    ultimately show ?thesis using coordinates_between [OF assms(1), of "start1 r" "end1 r"] by auto
  next
    case False
    let ?qs = "[?and (start1 r) (end1 r), ?and (start2 r) (end2 r)]"
    have "matchEntriesInRangeQuery r = Inr (Or ?qs)"
      using b False by (simp add: matchEntriesInRangeQuery_def and_query_def or_query_def new_And_def new_Or_def)
    moreover have "\<exists>h. handleQueryObject E (Or ?qs) (entry_js e) [] 0 = Inr (Some (\<exists>c \<in> set (er_coordinates e). contains r c), h)" for e
    proof -
      obtain h1 h2 where "handleQueryObject E (?and (start1 r) (end1 r)) (entry_js e) [] 0 =
            Inr (Some (\<exists>c \<in> set (er_coordinates e). start1 r \<le> c \<and> c < end1 r), h1)"
          "handleQueryObject E (?and (start2 r) (end2 r)) (entry_js e) [] 0 =
            Inr (Some (\<exists>c \<in> set (er_coordinates e). start2 r \<le> c \<and> c < end2 r), h2)"
        using coordinates_between [OF assms(1)] by metis
      then show ?thesis by (auto simp: contains_def simp del: handleQueryObject.simps(1,2,3,5))
    qed
    ultimately show ?thesis by blast
  qed
qed

text \<open>An entry is due when a coordinate of it is in a changed range, or it is assigned to a range boundary
  and not all changed ranges are strict.\<close>

definition due :: "rangeChange list \<Rightarrow> entryReplicated \<Rightarrow> bool" where
  "due changes e \<longleftrightarrow> (\<exists>c \<in> set changes. \<exists>p \<in> set (er_coordinates e). contains (rc_range c) p) \<or>
     er_assignedToRangeBoundary e \<and> (changes = [] \<or> (\<exists>c \<in> set changes. mode (rc_range c) = NonStrict))"

lemma boundary_decides:
  assumes "entry_index E"
  shows "\<exists>h. handleQueryObject E (StateFieldQuery [''assignedToRangeBoundary''] (BoolQuery True)) (entry_js e) [] 0 =
    Inr (Some (er_assignedToRangeBoundary e), h)"
proof -
  have e: "0 < stack E" "\<not> nestedMatch E v" for v using assms by (simp_all add: entry_index_def)
  obtain ps where ps: "entry_js e = JObj ps" "map_of ps ''assignedToRangeBoundary'' = Some (JBool (er_assignedToRangeBoundary e))"
    by (auto simp: entry_js_def)
  have "plain_query E (entry_js e) (StateFieldQuery [''assignedToRangeBoundary''] (BoolQuery True))"
    "query_holds E (entry_js e) (StateFieldQuery [''assignedToRangeBoundary''] (BoolQuery True)) \<longleftrightarrow> er_assignedToRangeBoundary e"
    unfolding ps(1) using flat_query [OF ps(2) _ _ e(2), of "BoolQuery True"] by (simp_all add: nullish_def)
  then show ?thesis using handle_plain_field [OF e(1), of "entry_js e" "[''assignedToRangeBoundary'']" "BoolQuery True" "[]"] by simp
qed

lemma assignedRanges_decides:
  assumes "entry_index E" and "\<forall>c \<in> set changes. range_ok (rc_range c)"
  shows "\<exists>qs. assignedRangesQuery changes = Inr (Or qs) \<and> (\<forall>e. handle_or E qs (entry_js e) [] 0 = Inr (Some (due changes e), []))"
proof -
  let ?R = "\<lambda>c q. \<forall>e. \<exists>h. handleQueryObject E q (entry_js e) [] 0 = Inr (Some (\<exists>p \<in> set (er_coordinates e). contains (rc_range c) p), h)"
  obtain qs where qs: "seq_sum (map (\<lambda>c. matchEntriesInRangeQuery (rc_range c)) changes) = Inr qs" "list_all2 ?R changes qs"
    using seq_sum_all2 [of changes "\<lambda>c. matchEntriesInRangeQuery (rc_range c)" ?R] matchEntries_decides [OF assms(1)] assms(2) by blast
  define b where "b \<longleftrightarrow> changes = [] \<or> (\<exists>c \<in> set changes. mode (rc_range c) = NonStrict)"
  let ?extra = "if b then [StateFieldQuery [''assignedToRangeBoundary''] (BoolQuery True)] else []"
  have "assignedRangesQuery changes = bind_sum (seq_sum (map (\<lambda>c. matchEntriesInRangeQuery (rc_range c)) changes @ map Inr ?extra)) new_Or"
    by (auto simp: assignedRangesQuery_def or_query_def Let_def b_def list_all_iff)
  moreover have "seq_sum (map Inr xs) = Inr xs" for xs :: "query list" by (induction xs) auto
  from seq_sum_append [OF qs(1) this]
  have "seq_sum (map (\<lambda>c. matchEntriesInRangeQuery (rc_range c)) changes @ map Inr ?extra) = Inr (qs @ ?extra)" .
  moreover have "qs @ ?extra \<noteq> []" using list_all2_lengthD [OF qs(2)] by (auto simp: b_def)
  ultimately have "assignedRangesQuery changes = Inr (Or (qs @ ?extra))"
    by (simp only: bind_sum.simps new_Or_def length_0_conv if_False)
  moreover have "handle_or E (qs @ ?extra) (entry_js e) [] 0 = Inr (Some (due changes e), [])" for e
  proof -
    let ?bs = "map (\<lambda>c. \<exists>p \<in> set (er_coordinates e). contains (rc_range c) p) changes"
    have "list_all2 (\<lambda>b q. \<exists>h. handleQueryObject E q (entry_js e) [] 0 = Inr (Some b, h)) (?bs @ (if b then [er_assignedToRangeBoundary e] else [])) (qs @ ?extra)"
      using boundary_decides [OF assms(1)] qs(2) by (intro list_all2_appendI) (auto simp: list_all2_map1 elim: list_all2_mono simp del: handleQueryObject.simps)
    from handle_or_decides [OF this, of "[]"] show ?thesis by (auto simp: due_def b_def)
  qed
  ultimately show ?thesis by blast
qed

lemma queryDocuments_decided:
  assumes "\<forall>v \<in> set vs. \<exists>h. handleQueryObject E q (toJs E (iv_value v)) [] 0 = Inr (Some (P v), h)"
  shows "queryDocuments E [q] vs = Inr (filter P vs)"
  using assms
proof (induction vs)
  case (Cons v vs)
  then obtain h where "handleQueryObject E q (toJs E (iv_value v)) [] 0 = Inr (Some (P v), h)" by auto
  with Cons show ?case by (cases "P v") simp_all
qed simp


definition range_env_ex :: "range index_env" where
  "range_env_ex = \<lparr>toJs = range_js, indexBy = [''id''], toBase64 = unary, nestedMatch = (\<lambda>_. False), nestedIterate = (\<lambda>_ _. 0),
     localeCompare = (\<lambda>s t. 0),
     jsLess = (\<lambda>a b. case (a, b) of (JNum x, JNum y) \<Rightarrow> x < y | (JBig x, JBig y) \<Rightarrow> x < y | _ \<Rightarrow> False), stack = 9\<rparr>"

definition entry_env_ex :: "entryReplicated index_env" where
  "entry_env_ex = \<lparr>toJs = entry_js, indexBy = [''hash''], toBase64 = unary, nestedMatch = (\<lambda>_. False), nestedIterate = (\<lambda>_ _. 0),
     localeCompare = (\<lambda>s t. 0), jsLess = (\<lambda>a b. False), stack = 9\<rparr>"

definition index_of :: "range list \<Rightarrow> range hashmap" where
  "index_of rs = map (\<lambda>r. (PStr (unary (r_id r)), \<lparr>iv_id = Uint8ArrayKey (r_id r), iv_value = r\<rparr>)) rs"

definition index_of_entries :: "entryReplicated list \<Rightarrow> entryReplicated hashmap" where
  "index_of_entries es = map (\<lambda>e. (PStr (er_hash e), \<lparr>iv_id = StringKey (er_hash e), iv_value = e\<rparr>)) es"

lemma range_env_ex: "range_env range_env_ex"
  by (simp add: range_env_def range_env_ex_def inj_unary comparator_def)

lemma index_of_ok:
  assumes "distinct (map r_id rs)" and "\<forall>r \<in> set rs. range_ok r \<and> r_res r = res"
  shows "range_index res range_env_ex (index_of rs)"
proof -
  have "distinct (map (\<lambda>r. unary (r_id r)) rs)"
    using assms(1) inj_unary by (simp add: distinct_map comp_inj_on_iff inj_on_def inj_def)
  then have "hm_ok range_env_ex (index_of rs)"
    by (auto simp: hm_ok_def jm_ok_def index_of_def range_env_ex_def comp_def distinct_map inj_on_def)
  with assms(2) range_env_ex show ?thesis by (auto simp: range_index_def index_of_def jm_values_def)
qed

definition ranges_ex :: "range list" where
  "ranges_ex = [range_ex, (arc 2 20)\<lparr>r_id := [2]\<rparr>, (arc 100 300)\<lparr>r_id := [3], r_hash := ''b'', r_timestamp := 40\<rparr>]"

lemma ranges_ex_ok: "range_index U32 range_env_ex (index_of ranges_ex)"
  by (rule index_of_ok) (simp_all add: ranges_ex_def range_ex_def arc_def range_ok_def MAX_U32_def)

theorem coverage_counts_witness: "appromixateCoverage range_env_ex U32 (index_of ranges_ex) 2 True = Inr (1, 2)"
proof -
  have "getGrid U32 0 2 = [0, 2147483648]" by code_simp
  then show ?thesis
    using coverage_counts [OF ranges_ex_ok, of 2 True]
    by (simp add: Let_def index_of_def jm_values_def ranges_ex_def contains_def range_ex_def arc_def)
qed

theorem allRangesContainingPoint_finds_witness:
  "\<exists>rs. allRangesContainingPoint range_env_ex U32 (index_of ranges_ex) [3] [] None = Inr rs \<and> set (map (\<lambda>v. r_id (iv_value v)) rs) = {[1], [2]}"
proof -
  have "\<forall>p \<in> set [3::int]. 0 \<le> p \<and> p \<le> maxValue U32" by (simp add: MAX_U32_def)
  from allRangesContainingPoint_finds [OF ranges_ex_ok this] obtain rs where
    rs: "allRangesContainingPoint range_env_ex U32 (index_of ranges_ex) [3] [] None = Inr rs"
    "set rs = set (filter (\<lambda>v. contains (iv_value v) 3) (jm_values (index_of ranges_ex)))" by auto
  have "set (map (\<lambda>v. r_id (iv_value v)) rs) = {[1], [2]}" unfolding set_map rs(2)
    by (simp add: index_of_def jm_values_def ranges_ex_def contains_def range_ex_def arc_def)
  with rs(1) show ?thesis by blast
qed

theorem getCoveringRangesSameOwner_covers_witness:
  "\<exists>v rs. getCoveringRangesSameOwner range_env_ex (index_of ranges_ex) ((arc 5 10)\<lparr>r_id := [9]\<rparr>) = Inr rs \<and> v \<in> set rs \<and> r_id (iv_value v) = [2]"
proof -
  let ?r = "(arc 5 10)\<lparr>r_id := [9]\<rparr>" and ?s = "(arc 2 20)\<lparr>r_id := [2]\<rparr>"
  let ?v = "\<lparr>iv_id = Uint8ArrayKey [2], iv_value = ?s\<rparr>"
  have "range_ok ?r" "r_res ?r = U32" by (simp_all add: arc_def range_ex_def range_ok_def MAX_U32_def)
  from getCoveringRangesSameOwner_covers [OF ranges_ex_ok this] obtain rs where
    rs: "getCoveringRangesSameOwner range_env_ex (index_of ranges_ex) ?r = Inr rs"
    "0 < width ?r \<and> start1 ?r < maxValue U32 \<longrightarrow> (\<forall>v \<in> set (jm_values (index_of ranges_ex)). r_hash (iv_value v) = r_hash ?r \<and>
        r_id (iv_value v) \<noteq> r_id ?r \<and> covers (iv_value v) ?r \<and> width (iv_value v) < maxValue U32 \<longrightarrow> v \<in> set rs)" by blast
  have "covers ?s ?r" by (simp add: covers_def contains_def arc_def)
  moreover have "?v \<in> set (jm_values (index_of ranges_ex))" by (simp add: jm_values_def index_of_def ranges_ex_def arc_def)
  ultimately have "?v \<in> set rs" using rs(2) by (auto simp: arc_def range_ex_def MAX_U32_def)
  with rs(1) show ?thesis by (intro exI [of _ ?v] exI [of _ rs]) simp
qed

definition entries_ex :: "entryReplicated list" where
  "entries_ex = [\<lparr>er_res = U32, er_hash = ''e1'', er_gid = ''g'', er_coordinates = [7, 500], er_wallTime = 1, er_assignedToRangeBoundary = False, er_meta = []\<rparr>,
     \<lparr>er_res = U32, er_hash = ''e2'', er_gid = ''g'', er_coordinates = [50], er_wallTime = 2, er_assignedToRangeBoundary = True, er_meta = []\<rparr>,
     \<lparr>er_res = U32, er_hash = ''e3'', er_gid = ''h'', er_coordinates = [60], er_wallTime = 3, er_assignedToRangeBoundary = False, er_meta = []\<rparr>]"


end
