(* ===== verification/RangeSamples.thy ===== *)
theory RangeSamples
  imports RangeQueries
begin

text \<open>
  Which replicators are responsible for a point, the last part of
  \<open>packages/programs/data/shared-log/src/ranges.ts\<close>: iterators over the index that are joined by distance
  (\<open>joinIterator\<close>, \<open>getClosest\<close>) or run in series (\<open>iteratorInSeries\<close> of
  \<open>packages/utils/indexer/interface/src/index-engine.ts\<close>), the sampling of leaders (\<open>getSamples\<close>), adjacent ranges, and
  the set of replicators that covers a part of the ring (\<open>getCoverSet\<close>).

  An iterator is a state with a function for \<open>next\<close> and one for \<open>done\<close>; \<open>joinIterator\<close> takes those of the iterators
  it joins as arguments, so that joined iterators can be joined again. A loop has fuel, \<open>None\<close> is running out of it.
  The current time and a random point are arguments.
\<close>

section \<open>Iterators\<close>

fun fbind :: "('e + 'a) option \<Rightarrow> ('a \<Rightarrow> ('e + 'b) option) \<Rightarrow> ('e + 'b) option" where
  "fbind None f = None"
| "fbind (Some (Inl e)) f = Some (Inl e)"
| "fbind (Some (Inr a)) f = f a"

type_synonym 's next_fun = "nat \<Rightarrow> 's \<Rightarrow> query_error + range indexedValue list \<times> 's"
type_synonym queue = "(range indexedValue \<times> int) list"

text \<open>What \<open>rects.iterate\<close> returns: the query, the order and how far the iterator is.\<close>

record scan =
  sc_query :: query_like
  sc_sort :: "sort list"
  sc_it :: "range index_iterator"

definition new_scan :: "query_like \<Rightarrow> sort list \<Rightarrow> scan" where
  "new_scan q sorts = \<lparr>sc_query = q, sc_sort = sorts, sc_it = iterate\<rparr>"

definition scan_next :: "(range, 'm) index_env_scheme \<Rightarrow> range hashmap \<Rightarrow> scan next_fun" where
  "scan_next E idx n s =
     bind_sum (it_next E idx (sc_query s) (sc_sort s) n (sc_it s)) (\<lambda>(rs, it). Inr (rs, s\<lparr>sc_it := it\<rparr>))"

definition scan_done :: "scan \<Rightarrow> bool option" where
  "scan_done s = it_done (sc_it s)"

text \<open>Each joined iterator with its queue of fetched elements and their distances.\<close>

record 's joined =
  j_direction :: direction
  j_point :: int
  j_max :: int
  j_parts :: "('s \<times> queue) list"

definition joinIterator :: "'s list \<Rightarrow> int \<Rightarrow> direction \<Rightarrow> resolution \<Rightarrow> 's joined" where
  "joinIterator iterators point dir res =
     \<lparr>j_direction = dir, j_point = point, j_max = maxValue res, j_parts = map (\<lambda>s. (s, [])) iterators\<rparr>"

fun element_dist :: "direction \<Rightarrow> int \<Rightarrow> int \<Rightarrow> range \<Rightarrow> int" where
  "element_dist Closest point mx r = js_min (getDistance (start1 r) point Closest mx) (getDistance (end2 r) point Closest mx)"
| "element_dist Above point mx r = getDistance (start1 r) point Above mx"
| "element_dist Below point mx r = getDistance (end2 r) point Below mx"

fun join_pull ::
  "'s next_fun \<Rightarrow> ('s \<Rightarrow> bool option) \<Rightarrow> (range \<Rightarrow> int) \<Rightarrow> nat \<Rightarrow> ('s \<times> queue) list \<Rightarrow> query_error + ('s \<times> queue) list" where
  "join_pull nxt dn dist n [] = Inr []"
| "join_pull nxt dn dist n ((s, q) # parts) =
     bind_sum (if length q < n \<and> dn s \<noteq> Some True
               then bind_sum (nxt n s) (\<lambda>(res, s'). Inr (s', q @ map (\<lambda>el. (el, dist (iv_value el))) res))
               else Inr (s, q)) (\<lambda>part.
     bind_sum (join_pull nxt dn dist n parts) (\<lambda>parts'. Inr (part # parts')))"

text \<open>The queue whose first element is closest, the earlier one of two at the same distance.\<close>

fun closest_queue :: "nat \<Rightarrow> ('s \<times> queue) list \<Rightarrow> (nat \<times> int) option \<Rightarrow> nat option" where
  "closest_queue j [] best = map_option fst best"
| "closest_queue j ((s, []) # parts) best = closest_queue (Suc j) parts best"
| "closest_queue j ((s, (el, d) # q) # parts) best =
     closest_queue (Suc j) parts
       (case best of None \<Rightarrow> Some (j, d) | Some (b, closestDist) \<Rightarrow> if d < closestDist then Some (j, d) else best)"

fun join_emit :: "nat \<Rightarrow> ('s \<times> queue) list \<Rightarrow> range indexedValue list \<times> ('s \<times> queue) list" where
  "join_emit 0 parts = ([], parts)"
| "join_emit (Suc n) parts =
     (case closest_queue 0 parts None of
        None \<Rightarrow> ([], parts)
      | Some j \<Rightarrow>
          (case parts ! j of
             (s, []) \<Rightarrow> join_emit n parts
           | (s, (el, d) # q) \<Rightarrow> (let (out, parts') = join_emit n (parts[j := (s, q)]) in (el # out, parts'))))"

definition joined_next :: "'s next_fun \<Rightarrow> ('s \<Rightarrow> bool option) \<Rightarrow> 's joined next_fun" where
  "joined_next nxt dn n J =
     bind_sum (join_pull nxt dn (element_dist (j_direction J) (j_point J) (j_max J)) n (j_parts J)) (\<lambda>parts.
       let (out, parts') = join_emit n parts in Inr (out, J\<lparr>j_parts := parts'\<rparr>))"

definition join_done :: "('s \<Rightarrow> bool option) \<Rightarrow> 's joined \<Rightarrow> bool option" where
  "join_done dn J = Some (list_all (\<lambda>(s, _). dn s = Some True) (j_parts J))"

text \<open>\<open>iteratorInSeries\<close>: the iterators and the index of the current one.\<close>

record 's series =
  se_iterators :: "'s list"
  se_i :: nat

fun series_next :: "nat \<Rightarrow> 's next_fun \<Rightarrow> ('s \<Rightarrow> bool option) \<Rightarrow> nat \<Rightarrow> range indexedValue list \<Rightarrow> 's series \<Rightarrow>
    (query_error + range indexedValue list \<times> 's series) option" where
  "series_next 0 nxt dn n acc S = None"
| "series_next (Suc fuel) nxt dn n acc S =
     (let i = se_i S in
      if i < length (se_iterators S) \<and> dn (se_iterators S ! i) \<noteq> Some True then
        fbind (Some (nxt n (se_iterators S ! i))) (\<lambda>(res, current).
          let acc' = acc @ res; its = (se_iterators S)[i := current];
              i' = (if dn current = Some True then Suc i else i);
              S' = \<lparr>se_iterators = its, se_i = i'\<rparr>
          in if i' \<ge> length its \<or> length acc' \<ge> n then Some (Inr (acc', S'))
             else series_next fuel nxt dn n acc' S')
      else Some (Inr (acc, S)))"

section \<open>Closest ranges\<close>

definition closest_query ::
  "direction \<Rightarrow> resolution \<Rightarrow> int \<Rightarrow> bool \<Rightarrow> bool \<Rightarrow> string option \<Rightarrow> time_option option \<Rightarrow> query_error + query_like" where
  "closest_query dir res p equality includeStrict hash time =
     bind_sum (seq_sum
       ([if dir = Below then new_IntegerCompare [''end2''] (num_js res p) (if equality then LessOrEqual else Less)
         else new_IntegerCompare [''start1''] (num_js res p) (if equality then GreaterOrEqual else Greater)] @
        (case time of
           None \<Rightarrow> []
         | Some t \<Rightarrow> [new_IntegerCompare [''timestamp''] (JBig (t_now t - roleAgeLimit t)) (if t_matured t then LessOrEqual else GreaterOrEqual)]) @
        [new_IntegerCompare [''width''] (JNum 0) Greater] @
        (if includeStrict then [] else [new_IntegerCompare [''mode''] (JNum (mode_number NonStrict)) Equal]) @
        (case hash of None \<Rightarrow> [] | Some h \<Rightarrow> if h = [] then [] else [Inr (StateFieldQuery [''hash''] (StringMatch h Exact False))])))
       (\<lambda>qs. Inr (QueryList qs))"

definition closest_sort :: "direction \<Rightarrow> sort list" where
  "closest_sort dir =
     [if dir = Below then \<lparr>s_key = [''end2''], s_direction = DESC\<rparr> else \<lparr>s_key = [''start1''], s_direction = ASC\<rparr>,
      \<lparr>s_key = [''timestamp''], s_direction = ASC\<rparr>, \<lparr>s_key = [''hash''], s_direction = ASC\<rparr>]"

definition getClosest ::
  "direction \<Rightarrow> resolution \<Rightarrow> int \<Rightarrow> bool \<Rightarrow> string option \<Rightarrow> time_option option \<Rightarrow> query_error + scan joined" where
  "getClosest dir res point includeStrict hash time =
     bind_sum (closest_query dir res point False includeStrict hash time) (\<lambda>q.
     bind_sum (closest_query dir res (if dir = Below then maxValue res else 0) True includeStrict hash time) (\<lambda>qw.
       Inr (joinIterator [new_scan q (closest_sort dir), new_scan qw (closest_sort dir)] point dir res)))"

definition closest_next :: "(range, 'm) index_env_scheme \<Rightarrow> range hashmap \<Rightarrow> scan joined next_fun" where
  "closest_next E idx = joined_next (scan_next E idx) scan_done"

definition around_next :: "(range, 'm) index_env_scheme \<Rightarrow> range hashmap \<Rightarrow> scan joined joined next_fun" where
  "around_next E idx = joined_next (closest_next E idx) (join_done scan_done)"

definition around_done :: "scan joined joined \<Rightarrow> bool option" where
  "around_done = join_done (join_done scan_done)"

text \<open>The iterators that \<open>getClosestAroundOrContaining\<close> runs one after the other.\<close>

fun either_next :: "(range, 'm) index_env_scheme \<Rightarrow> range hashmap \<Rightarrow> (scan + scan joined joined) next_fun" where
  "either_next E idx n (Inl s) = bind_sum (scan_next E idx n s) (\<lambda>(rs, s'). Inr (rs, Inl s'))"
| "either_next E idx n (Inr J) = bind_sum (around_next E idx n J) (\<lambda>(rs, J'). Inr (rs, Inr J'))"

fun either_done :: "scan + scan joined joined \<Rightarrow> bool option" where
  "either_done (Inl s) = scan_done s"
| "either_done (Inr J) = around_done J"

definition getClosestAroundOrContaining ::
  "resolution \<Rightarrow> int \<Rightarrow> bool \<Rightarrow> bool \<Rightarrow> time_option option \<Rightarrow> query_error + (scan + scan joined joined) series" where
  "getClosestAroundOrContaining res point includeStrictBelow includeStrictAbove time =
     bind_sum (getClosest Below res point includeStrictBelow None time) (\<lambda>closestBelow.
     bind_sum (getClosest Above res point includeStrictAbove None time) (\<lambda>closestAbove.
     bind_sum (createContainingPointQuery res [point] time) (\<lambda>containing.
       Inr \<lparr>se_iterators = [Inl (new_scan containing []), Inr (joinIterator [closestBelow, closestAbove] point Closest res)], se_i = 0\<rparr>)))"

fun head_value :: "range indexedValue list \<Rightarrow> range option" where
  "head_value [] = None"
| "head_value (v # _) = Some (iv_value v)"

text \<open>\<open>fetchOne\<close> of a scan, of closest ranges and of a series.\<close>

definition fetchOne_scan :: "(range, 'm) index_env_scheme \<Rightarrow> range hashmap \<Rightarrow> scan \<Rightarrow> query_error + range option" where
  "fetchOne_scan E idx s = bind_sum (scan_next E idx 1 s) (\<lambda>(rs, _). Inr (head_value rs))"

definition fetchOne_closest :: "(range, 'm) index_env_scheme \<Rightarrow> range hashmap \<Rightarrow> scan joined \<Rightarrow> query_error + range option" where
  "fetchOne_closest E idx J = bind_sum (closest_next E idx 1 J) (\<lambda>(rs, _). Inr (head_value rs))"

definition fetchOneClosest ::
  "nat \<Rightarrow> (range, 'm) index_env_scheme \<Rightarrow> resolution \<Rightarrow> range hashmap \<Rightarrow> int \<Rightarrow> bool \<Rightarrow> bool \<Rightarrow> time_option option \<Rightarrow>
     (query_error + range option) option" where
  "fetchOneClosest fuel E res peers point includeStrictBelow includeStrictAbove time =
     fbind (Some (getClosestAroundOrContaining res point includeStrictBelow includeStrictAbove time)) (\<lambda>S.
     fbind (series_next fuel (either_next E peers) either_done 1 [] S) (\<lambda>(rs, _). Some (Inr (head_value rs))))"

section \<open>Adjacent ranges\<close>

text \<open>The range is given by the id it has, if any, its first and last point and its owner.\<close>

definition getAdjecentSameOwner ::
  "(range, 'm) index_env_scheme \<Rightarrow> resolution \<Rightarrow> range hashmap \<Rightarrow> nat list option \<Rightarrow> int \<Rightarrow> int \<Rightarrow> string \<Rightarrow>
     query_error + range option \<times> range option" where
  "getAdjecentSameOwner E res peers idString s1 e2 hash =
     bind_sum (getClosest Below res s1 True (Some hash) None) (\<lambda>bi.
     bind_sum (closest_next E peers 1 bi) (\<lambda>(closestBelow, _).
     bind_sum (getClosest Above res e2 True (Some hash) None) (\<lambda>ai.
     bind_sum (closest_next E peers 1 ai) (\<lambda>(closestAbove, _).
       let below = head_value closestBelow; above = head_value closestAbove;
           isBelow = (idString = map_option r_id below);
           first = (\<lambda>vs. case vs of [] \<Rightarrow> None | v # _ \<Rightarrow> Some (id_primitive (toBase64 E) (iv_id v)))
       in Inr (if isBelow then None else below,
               if first closestBelow = first closestAbove \<or> isBelow then None else above)))))"

definition getAllMergeCandiates ::
  "(range, 'm) index_env_scheme \<Rightarrow> range hashmap \<Rightarrow> range \<Rightarrow> query_error + (nat list, range) jsmap" where
  "getAllMergeCandiates E peers r =
     bind_sum (getAdjecentSameOwner E (r_res r) peers (Some (r_id r)) (start1 r) (end2 r) (r_hash r)) (\<lambda>(below, above).
     bind_sum (getCoveringRangesSameOwner E peers r) (\<lambda>covering.
       let ret0 = (case below of None \<Rightarrow> [] | Some b \<Rightarrow> jm_set [] (r_id b) b);
           ret1 = (case above of None \<Rightarrow> ret0 | Some a \<Rightarrow> jm_set ret0 (r_id a) a)
       in Inr (fold (\<lambda>v ret. jm_set ret (r_id (iv_value v)) (iv_value v)) covering ret1)))"

section \<open>Sampling leaders\<close>

record samples =
  sm_leaders :: "(string, bool) jsmap"
  sm_matured :: nat
  sm_visited :: "string jsset"
  sm_found :: bool

text \<open>The callback of \<open>collectClosestAround\<close> for the cursor at \<open>i\<close>, and its loops.\<close>

definition collector :: "nat \<Rightarrow> range \<Rightarrow> bool \<Rightarrow> samples \<Rightarrow> samples" where
  "collector i rect m st =
     (let st1 = st\<lparr>sm_visited := js_add (sm_visited st) (r_hash rect)\<rparr>
      in if m then
           let st2 = (if jm_get (sm_leaders st1) (r_hash rect) = None
                      then st1\<lparr>sm_matured := sm_matured st1 + 1, sm_leaders := jm_set (sm_leaders st1) (r_hash rect) False\<rparr> else st1)
           in if sm_matured st2 > i then st2\<lparr>sm_found := True\<rparr> else st2
         else st1)"

fun collect_batch :: "int \<Rightarrow> int \<Rightarrow> nat \<Rightarrow> range indexedValue list \<Rightarrow> samples \<Rightarrow> samples" where
  "collect_batch now roleAge i [] st = st"
| "collect_batch now roleAge i (rect # rs) st =
     (let st' = collector i (iv_value rect) (isMatured (iv_value rect) now roleAge) st
      in if sm_found st' then st' else collect_batch now roleAge i rs st')"

fun collect_loop ::
  "nat \<Rightarrow> (range, 'm) index_env_scheme \<Rightarrow> range hashmap \<Rightarrow> int \<Rightarrow> int \<Rightarrow> nat \<Rightarrow> scan joined joined \<Rightarrow> samples \<Rightarrow>
     (query_error + samples) option" where
  "collect_loop 0 E peers now roleAge i around st = None"
| "collect_loop (Suc fuel) E peers now roleAge i around st =
     (if around_done around \<noteq> Some True \<and> \<not> sm_found st then
        fbind (Some (around_next E peers 100 around)) (\<lambda>(rs, around').
          collect_loop fuel E peers now roleAge i around' (collect_batch now roleAge i rs st))
      else Some (Inr st))"

definition collectClosestAround ::
  "nat \<Rightarrow> (range, 'm) index_env_scheme \<Rightarrow> resolution \<Rightarrow> range hashmap \<Rightarrow> int \<Rightarrow> int \<Rightarrow> nat \<Rightarrow> int \<Rightarrow> samples \<Rightarrow>
     (query_error + samples) option" where
  "collectClosestAround fuel E res peers now roleAge i point st =
     fbind (Some (getClosest Below res point False None None)) (\<lambda>closestBelow.
     fbind (Some (getClosest Above res point False None None)) (\<lambda>closestAbove.
       collect_loop fuel E peers now roleAge i (joinIterator [closestBelow, closestAbove] point Closest res) st))"

definition add_containing :: "int \<Rightarrow> int \<Rightarrow> range \<Rightarrow> samples \<Rightarrow> samples" where
  "add_containing now roleAge rect st =
     (let st1 = st\<lparr>sm_visited := js_add (sm_visited st) (r_hash rect)\<rparr>;
          st2 = (if jm_get (sm_leaders st1) (r_hash rect) = None \<and> isMatured rect now roleAge
                 then st1\<lparr>sm_matured := sm_matured st1 + 1\<rparr> else st1)
      in st2\<lparr>sm_leaders := jm_set (sm_leaders st2) (r_hash rect) True\<rparr>)"

fun sample_loop ::
  "nat \<Rightarrow> (range, 'm) index_env_scheme \<Rightarrow> resolution \<Rightarrow> range hashmap \<Rightarrow> int \<Rightarrow> int \<Rightarrow> bool \<Rightarrow> string jsset option \<Rightarrow>
     nat \<Rightarrow> int list \<Rightarrow> samples \<Rightarrow> (query_error + samples) option" where
  "sample_loop fuel E res peers now roleAge onlyIntersecting unique i [] st = Some (Inr st)"
| "sample_loop fuel E res peers now roleAge onlyIntersecting unique i (point # cursor) st =
     fbind (Some (allRangesContainingPoint E res peers [point] [] None)) (\<lambda>allContaining.
       let st1 = fold (\<lambda>v. add_containing now roleAge (iv_value v)) allContaining st
       in if (case unique of None \<Rightarrow> False
              | Some u \<Rightarrow> length u = length (sm_leaders st1) \<or> length u = length (sm_visited st1)) then Some (Inr st1)
          else if onlyIntersecting \<or> sm_matured st1 > i
          then sample_loop fuel E res peers now roleAge onlyIntersecting unique (Suc i) cursor st1
          else fbind (collectClosestAround fuel E res peers now roleAge i point (st1\<lparr>sm_found := False\<rparr>)) (\<lambda>st2.
            sample_loop fuel E res peers now roleAge onlyIntersecting unique (Suc i) cursor st2))"

definition getSamples ::
  "nat \<Rightarrow> (range, 'm) index_env_scheme \<Rightarrow> resolution \<Rightarrow> int list \<Rightarrow> range hashmap \<Rightarrow> int \<Rightarrow> int \<Rightarrow> bool \<Rightarrow> string jsset option \<Rightarrow>
     (query_error + (string, bool) jsmap) option" where
  "getSamples fuel E res cursor peers now roleAge onlyIntersecting unique =
     fbind (sample_loop fuel E res peers now roleAge onlyIntersecting unique 0 cursor
        \<lparr>sm_leaders = [], sm_matured = 0, sm_visited = [], sm_found = False\<rparr>) (\<lambda>st. Some (Inr (sm_leaders st)))"

section \<open>Joined iterators\<close>

text \<open>The contract of an iterator: \<open>ok\<close> is kept by \<open>next\<close>, which hands out what \<open>rest\<close> says is still to come; it is done after
  a call that returned nothing, and a fresh one is exhausted by one call that asks for enough.\<close>

locale iterator =
  fixes nxt :: "'s next_fun" and dn :: "'s \<Rightarrow> bool option" and ok :: "'s \<Rightarrow> bool" and fresh :: "'s \<Rightarrow> bool"
    and rest :: "'s \<Rightarrow> range indexedValue multiset"
  assumes next_ok: "ok s \<Longrightarrow> 0 < n \<Longrightarrow> \<exists>out s'. nxt n s = Inr (out, s') \<and> ok s' \<and> rest s = mset out + rest s' \<and> (out = [] \<longrightarrow> dn s' = Some True)"
    and fresh_ok: "fresh s \<Longrightarrow> ok s" and fresh_dn: "fresh s \<Longrightarrow> dn s \<noteq> Some True"
    and fresh_next: "fresh s \<Longrightarrow> 0 < n \<Longrightarrow> size (rest s) \<le> n \<Longrightarrow> nxt n s = Inr (out, s') \<Longrightarrow> mset out = rest s \<and> dn s' = Some True"

definition queued :: "('s \<times> queue) list \<Rightarrow> range indexedValue multiset" where
  "queued parts = mset (concat (map (\<lambda>(s, q). map fst q) parts))"

definition head_dist :: "('s \<times> queue) list \<Rightarrow> nat \<Rightarrow> int" where
  "head_dist parts j = snd (hd (snd (parts ! j)))"

lemma queued_simps [simp]: "queued [] = {#}" "queued ((s, q) # parts) = mset (map fst q) + queued parts"
  by (simp_all add: queued_def)

text \<open>The search for the closest queue is a fold over the queues that are not empty.\<close>

definition pick :: "nat \<times> int \<Rightarrow> (nat \<times> int) option \<Rightarrow> (nat \<times> int) option" where
  "pick c best = (case best of None \<Rightarrow> Some c | Some b \<Rightarrow> if snd c < snd b then Some c else best)"

definition heads_from :: "nat \<Rightarrow> ('s \<times> queue) list \<Rightarrow> (nat \<times> int) list" where
  "heads_from j parts = map (\<lambda>(k, s, q). (k, snd (hd q))) (filter (\<lambda>(k, s, q). q \<noteq> []) (enumerate j parts))"

lemma closest_queue_fold: "closest_queue j parts best = map_option fst (fold pick (heads_from j parts) best)"
  by (induction j parts best rule: closest_queue.induct) (auto simp: heads_from_def pick_def split: option.splits)

lemma fold_pick_least:
  "(fold pick cs best = None \<longleftrightarrow> cs = [] \<and> best = None) \<and>
   (\<forall>c. fold pick cs best = Some c \<longrightarrow> c \<in> set cs \<union> set_option best \<and> (\<forall>d \<in> set cs \<union> set_option best. snd c \<le> snd d))"
proof (induction cs arbitrary: best)
  case (Cons x cs)
  have "pick x best \<noteq> None" by (auto simp: pick_def split: option.splits)
  moreover have "c \<in> set (x # cs) \<union> set_option best \<and> (\<forall>d \<in> set (x # cs) \<union> set_option best. snd c \<le> snd d)"
    if "fold pick (x # cs) best = Some c" for c
  proof -
    have c: "c \<in> set cs \<union> set_option (pick x best)" "\<forall>d \<in> set cs \<union> set_option (pick x best). snd c \<le> snd d"
      using Cons.IH [of "pick x best"] that unfolding fold_simps by blast+
    show ?thesis
    proof (cases best)
      case None
      with c show ?thesis by (auto simp: pick_def)
    next
      case (Some b)
      with c show ?thesis by (cases "snd x < snd b") (auto simp: pick_def)
    qed
  qed
  ultimately show ?case using Cons by auto
qed auto

lemma in_heads_from: "(k, d) \<in> set (heads_from 0 parts) \<longleftrightarrow> k < length parts \<and> snd (parts ! k) \<noteq> [] \<and> d = head_dist parts k"
proof
  assume "(k, d) \<in> set (heads_from 0 parts)"
  then obtain x where "x \<in> set (enumerate 0 parts)" "snd (snd x) \<noteq> []" "k = fst x" "d = snd (hd (snd (snd x)))"
    unfolding heads_from_def by auto
  then show "k < length parts \<and> snd (parts ! k) \<noteq> [] \<and> d = head_dist parts k"
    by (auto simp: in_set_enumerate_eq head_dist_def)
next
  assume "k < length parts \<and> snd (parts ! k) \<noteq> [] \<and> d = head_dist parts k"
  moreover from this have "(k, fst (parts ! k), snd (parts ! k)) \<in> set (enumerate 0 parts)" by (simp add: in_set_enumerate_eq)
  ultimately show "(k, d) \<in> set (heads_from 0 parts)" unfolding heads_from_def set_map set_filter
    by (intro image_eqI [of _ _ "(k, fst (parts ! k), snd (parts ! k))"]) (simp_all add: head_dist_def split_beta)
qed

lemma closest_queue_None: "closest_queue 0 parts None = None \<longleftrightarrow> queued parts = {#}"
proof -
  have "heads_from 0 parts = [] \<longleftrightarrow> (\<forall>k < length parts. snd (parts ! k) = [])"
    using in_heads_from [of _ _ parts] by (metis empty_iff empty_set list.set_intros(1) neq_Nil_conv surj_pair)
  also have "\<dots> \<longleftrightarrow> queued parts = {#}" by (auto simp: queued_def all_set_conv_all_nth split_beta)
  finally show ?thesis using fold_pick_least [of "heads_from 0 parts" None] by (simp add: closest_queue_fold)
qed

lemma closest_queue_Some:
  assumes "closest_queue 0 parts None = Some j"
  shows "j < length parts \<and> snd (parts ! j) \<noteq> [] \<and> (\<forall>k < length parts. snd (parts ! k) \<noteq> [] \<longrightarrow> head_dist parts j \<le> head_dist parts k)"
proof -
  obtain d where d: "fold pick (heads_from 0 parts) None = Some (j, d)" using assms by (auto simp: closest_queue_fold)
  with fold_pick_least [of "heads_from 0 parts" None]
  have "(j, d) \<in> set (heads_from 0 parts)" "\<forall>c \<in> set (heads_from 0 parts). d \<le> snd c" by auto
  then show ?thesis using in_heads_from [of _ _ parts] by (metis snd_conv)
qed

lemma queued_split:
  assumes "j < length parts" and "parts ! j = (s, q)"
  shows "queued parts = mset (map fst q) + queued (parts[j := (s, [])])"
  using assms by (induction parts arbitrary: j) (auto simp: less_Suc_eq_0_disj queued_def)

text \<open>Handing out: as many elements as asked for or as there are, the iterators are not touched.\<close>

lemma join_emit_spec:
  "join_emit n parts = (out, parts') \<Longrightarrow>
     queued parts = mset out + queued parts' \<and> length out = min n (size (queued parts)) \<and> map fst parts' = map fst parts"
proof (induction n arbitrary: parts out)
  case (Suc n)
  show ?case
  proof (cases "closest_queue 0 parts None")
    case None
    with Suc.prems closest_queue_None [of parts] show ?thesis by simp
  next
    case (Some j)
    from closest_queue_Some [OF this] obtain s el d q where j: "j < length parts" "parts ! j = (s, (el, d) # q)"
      by (metis list.exhaust prod.collapse)
    let ?ps = "parts[j := (s, q)]"
    obtain o' where o': "join_emit n ?ps = (o', parts')" "out = el # o'"
      using Suc.prems Some j(2) by (auto simp: Let_def split: prod.splits)
    have "queued ?ps = mset (map fst q) + queued (?ps[j := (s, [])])" by (rule queued_split) (use j(1) in simp_all)
    then have q: "queued parts = add_mset el (queued ?ps)" using queued_split [OF j] by simp
    have "map fst ?ps = map fst parts" using j nth_map [OF j(1), of fst] list_update_id [of "map fst parts" j] by (simp add: map_update)
    with Suc.IH [OF o'(1)] show ?thesis unfolding q o'(2) by (simp only: mset.simps size_add_mset list.size min_Suc_Suc union_mset_add_mset_left add_Suc_right add_0_right simp_thms)
  qed
qed simp

definition join_ok :: "('s \<Rightarrow> bool) \<Rightarrow> 's joined \<Rightarrow> bool" where
  "join_ok ok J = list_all (\<lambda>(s, _). ok s) (j_parts J)"

definition join_fresh :: "('s \<Rightarrow> bool) \<Rightarrow> 's joined \<Rightarrow> bool" where
  "join_fresh fresh J \<longleftrightarrow> j_parts J \<noteq> [] \<and> list_all (\<lambda>(s, q). fresh s \<and> q = []) (j_parts J)"

definition parts_rest :: "('s \<Rightarrow> range indexedValue multiset) \<Rightarrow> ('s \<times> queue) list \<Rightarrow> range indexedValue multiset" where
  "parts_rest rest parts = sum_list (map (\<lambda>(s, q). rest s) parts)"

definition join_rest :: "('s \<Rightarrow> range indexedValue multiset) \<Rightarrow> 's joined \<Rightarrow> range indexedValue multiset" where
  "join_rest rest J = parts_rest rest (j_parts J) + queued (j_parts J)"

lemma parts_rest_simps [simp]: "parts_rest rest [] = {#}" "parts_rest rest ((s, q) # parts) = rest s + parts_rest rest parts"
  by (simp_all add: parts_rest_def)

lemma parts_rest_fst: "parts_rest rest parts = sum_list (map rest (map fst parts))"
  unfolding parts_rest_def by (intro arg_cong [where f = sum_list]) auto

lemma list_all_fst: "list_all (\<lambda>(s, q). P s) parts = list_all P (map fst parts)"
  by (induction parts) auto

context iterator
begin

lemma join_pull_ok:
  assumes "0 < n"
  shows "list_all (\<lambda>(s, _). ok s) parts \<Longrightarrow> \<exists>parts'. join_pull nxt dn dist n parts = Inr parts' \<and> list_all (\<lambda>(s, _). ok s) parts' \<and>
    parts_rest rest parts + queued parts = parts_rest rest parts' + queued parts' \<and>
    (queued parts' = {#} \<longrightarrow> list_all (\<lambda>(s, _). dn s = Some True) parts')"
proof (induction parts)
  case (Cons a parts)
  obtain s q where a: "a = (s, q)" by (cases a)
  obtain ps where ps: "join_pull nxt dn dist n parts = Inr ps" "list_all (\<lambda>(s, _). ok s) ps"
    "parts_rest rest parts + queued parts = parts_rest rest ps + queued ps" "queued ps = {#} \<longrightarrow> list_all (\<lambda>(s, _). dn s = Some True) ps"
    using Cons by auto
  show ?case
  proof (cases "length q < n \<and> dn s \<noteq> Some True")
    case True
    obtain out s' where s': "nxt n s = Inr (out, s')" "ok s'" "rest s = mset out + rest s'" "out = [] \<longrightarrow> dn s' = Some True"
      using next_ok [OF _ assms, of s] Cons.prems a by auto
    let ?q = "q @ map (\<lambda>el. (el, dist (iv_value el))) out"
    have "mset (map fst ?q) = mset (map fst q) + mset out" by (simp add: comp_def)
    then have "parts_rest rest (a # parts) + queued (a # parts) = parts_rest rest ((s', ?q) # ps) + queued ((s', ?q) # ps)"
      using ps(3) s'(3) by (simp add: a ac_simps)
    moreover have "queued ((s', ?q) # ps) = {#} \<longrightarrow> list_all (\<lambda>(s, _). dn s = Some True) ((s', ?q) # ps)" using s'(4) ps(4) by simp
    ultimately show ?thesis using True s'(1,2) ps(1,2) a by (intro exI [of _ "(s', ?q) # ps"]) simp
  next
    case False
    then have "queued ((s, q) # ps) = {#} \<longrightarrow> list_all (\<lambda>(s, _). dn s = Some True) ((s, q) # ps)" using ps(4) assms by auto
    moreover have "parts_rest rest (a # parts) + queued (a # parts) = parts_rest rest ((s, q) # ps) + queued ((s, q) # ps)"
      using ps(3) by (simp add: a ac_simps)
    ultimately show ?thesis using False Cons.prems ps(1,2) a by (intro exI [of _ "(s, q) # ps"]) auto
  qed
qed simp

lemma join_pull_fresh:
  assumes "0 < n"
  shows "list_all (\<lambda>(s, q). fresh s \<and> q = []) parts \<Longrightarrow> size (parts_rest rest parts) \<le> n \<Longrightarrow> join_pull nxt dn dist n parts = Inr parts' \<Longrightarrow>
    queued parts' = parts_rest rest parts \<and> list_all (\<lambda>(s, _). dn s = Some True) parts'"
proof (induction parts arbitrary: parts')
  case (Cons a parts)
  then obtain s where a: "a = (s, [])" "fresh s" by (cases a) auto
  obtain out s' where s': "nxt n s = Inr (out, s')" using next_ok [OF fresh_ok [OF a(2)] assms] by blast
  then obtain ps where ps: "join_pull nxt dn dist n parts = Inr ps" "parts' = (s', map (\<lambda>el. (el, dist (iv_value el))) out) # ps"
    using Cons.prems(3) a assms fresh_dn [OF a(2)] by auto
  have "mset out = rest s \<and> dn s' = Some True" using fresh_next [OF a(2) assms _ s'] Cons.prems(2) a(1) by simp
  moreover have "queued ps = parts_rest rest parts \<and> list_all (\<lambda>(s, _). dn s = Some True) ps"
    using Cons.IH [OF _ _ ps(1)] Cons.prems(1,2) a(1) by simp
  ultimately show ?case using ps(2) a(1) by (simp add: comp_def)
qed simp

lemma joined_next_ok:
  assumes "join_ok ok J" and "0 < n"
  shows "\<exists>out J'. joined_next nxt dn n J = Inr (out, J') \<and> join_ok ok J' \<and> join_rest rest J = mset out + join_rest rest J' \<and>
    (out = [] \<longrightarrow> join_done dn J' = Some True)"
proof -
  let ?dist = "element_dist (j_direction J) (j_point J) (j_max J)"
  obtain ps where ps: "join_pull nxt dn ?dist n (j_parts J) = Inr ps" "list_all (\<lambda>(s, _). ok s) ps"
    "parts_rest rest (j_parts J) + queued (j_parts J) = parts_rest rest ps + queued ps" "queued ps = {#} \<longrightarrow> list_all (\<lambda>(s, _). dn s = Some True) ps"
    using join_pull_ok [OF assms(2), of "j_parts J" ?dist] assms(1) by (auto simp: join_ok_def)
  obtain out ps' where e: "join_emit n ps = (out, ps')" by force
  have em: "queued ps = mset out + queued ps'" "length out = min n (size (queued ps))" "map fst ps' = map fst ps"
    using join_emit_spec [OF e] by blast+
  have "queued ps = {#}" if "out = []" using em(2) that assms(2) by (cases "size (queued ps)") (auto simp: min_def split: if_splits)
  then have "out = [] \<longrightarrow> list_all (\<lambda>(s, _). dn s = Some True) ps'" using ps(4) em(3) unfolding list_all_fst by simp
  moreover have "parts_rest rest ps' = parts_rest rest ps" "list_all (\<lambda>(s, _). ok s) ps'"
    using em(3) ps(2) unfolding list_all_fst parts_rest_fst by simp_all
  ultimately show ?thesis using ps(1,3) e em(1)
    by (intro exI [of _ out] exI [of _ "J\<lparr>j_parts := ps'\<rparr>"]) (simp add: joined_next_def join_ok_def join_rest_def join_done_def ac_simps)
qed

lemma joined_next_fresh:
  assumes "join_fresh fresh J" and "0 < n" and "size (join_rest rest J) \<le> n" and "joined_next nxt dn n J = Inr (out, J')"
  shows "mset out = join_rest rest J \<and> join_done dn J' = Some True"
proof -
  let ?dist = "element_dist (j_direction J) (j_point J) (j_max J)"
  have f: "list_all (\<lambda>(s, q). fresh s \<and> q = []) (j_parts J)" using assms(1) by (simp add: join_fresh_def)
  then have q: "queued (j_parts J) = {#}" by (induction "j_parts J" arbitrary: J) (auto simp: queued_def list_all_iff split_beta)
  obtain ps where ps: "join_pull nxt dn ?dist n (j_parts J) = Inr ps" using assms(4) by (auto simp: joined_next_def)
  obtain ps' where e: "join_emit n ps = (out, ps')" and J': "J' = J\<lparr>j_parts := ps'\<rparr>"
    using assms(4) ps by (cases "join_emit n ps") (auto simp: joined_next_def)
  have *: "queued ps = parts_rest rest (j_parts J)" "list_all (\<lambda>(s, _). dn s = Some True) ps"
    using join_pull_fresh [OF assms(2) f _ ps] assms(3) q by (auto simp: join_rest_def)
  have em: "queued ps = mset out + queued ps'" "length out = min n (size (queued ps))" "map fst ps' = map fst ps"
    using join_emit_spec [OF e] by blast+
  have "length out = size (queued ps)" using em(2) *(1) assms(3) q by (simp add: join_rest_def)
  then have "queued ps' = {#}" using arg_cong [OF em(1), of size] by simp
  then have "mset out = join_rest rest J" using em(1) *(1) q by (simp add: join_rest_def)
  moreover have "list_all (\<lambda>(s, _). dn s = Some True) ps'" using *(2) em(3) unfolding list_all_fst by simp
  ultimately show ?thesis using J' by (simp add: join_done_def)
qed

end

text \<open>So a joined iterator is one again, and may be joined.\<close>

locale joined_iterator = iterator

sublocale joined_iterator \<subseteq> join: iterator "joined_next nxt dn" "join_done dn" "join_ok ok" "join_fresh fresh" "join_rest rest"
proof
  show "join_fresh fresh J \<Longrightarrow> join_ok ok J" for J using fresh_ok by (auto simp: join_fresh_def join_ok_def list_all_iff)
  show "join_fresh fresh J \<Longrightarrow> join_done dn J \<noteq> Some True" for J
    using fresh_dn by (cases "j_parts J") (auto simp: join_fresh_def join_done_def)
qed (use joined_next_ok joined_next_fresh in blast)+

section \<open>Scans of the index\<close>

text \<open>What a scan hands out in all, and what is left of it.\<close>

definition scan_results :: "(range, 'm) index_env_scheme \<Rightarrow> range hashmap \<Rightarrow> scan \<Rightarrow> query_error + range indexedValue list" where
  "scan_results E idx s = bind_sum (queryAll E idx (sc_query s)) (sort_docs E (sc_sort s))"

definition scan_fresh :: "(range, 'm) index_env_scheme \<Rightarrow> range hashmap \<Rightarrow> scan \<Rightarrow> bool" where
  "scan_fresh E idx s \<longleftrightarrow> sc_it s = iterate \<and> (\<exists>D. scan_results E idx s = Inr D)"

definition scan_ok :: "(range, 'm) index_env_scheme \<Rightarrow> range hashmap \<Rightarrow> scan \<Rightarrow> bool" where
  "scan_ok E idx s \<longleftrightarrow> (\<exists>D. scan_results E idx s = Inr D \<and> (sc_it s = iterate \<or> (\<exists>k. it_at D k (sc_it s))))"

definition scan_rest :: "(range, 'm) index_env_scheme \<Rightarrow> range hashmap \<Rightarrow> scan \<Rightarrow> range indexedValue multiset" where
  "scan_rest E idx s =
     (if sc_it s = iterate then (case scan_results E idx s of Inl _ \<Rightarrow> {#} | Inr D \<Rightarrow> mset D)
      else (case it_queue (sc_it s) of None \<Rightarrow> {#} | Some q \<Rightarrow> mset q))"

lemma it_at_not_fresh: "it_at D k it \<Longrightarrow> it \<noteq> iterate"
  by (auto simp: it_at_def iterate_def)

lemma scan_rest_at: "it_at D k (sc_it s) \<Longrightarrow> scan_rest E idx s = mset (drop k D)"
  using it_at_not_fresh [of D k "sc_it s"] by (auto simp: scan_rest_def it_at_def split: if_splits)

lemma scan_next_at:
  assumes "scan_results E idx s = Inr D" and "sc_it s = iterate \<and> k = 0 \<or> it_at D k (sc_it s)" and "0 < n"
  shows "\<exists>it. scan_next E idx n s = Inr (take n (drop k D), s\<lparr>sc_it := it\<rparr>) \<and> it_at D (k + n) it"
proof -
  obtain docs where docs: "queryAll E idx (sc_query s) = Inr docs" "sort_docs E (sc_sort s) docs = Inr D"
    using assms(1) by (auto simp: scan_results_def)
  obtain it where "it_fetch E idx (sc_query s) (sc_sort s) (Some n) (sc_it s) = Inr (take n (drop k D), it)" "it_at D (k + n) it"
    using it_fetch_fresh [OF docs, of n] it_fetch_at [OF _ assms(3), of D k "sc_it s" E idx "sc_query s" "sc_sort s"] assms(2,3)
    by (auto simp: max_def split: if_splits)
  then show ?thesis by (intro exI [of _ it]) (simp add: scan_next_def it_next_def)
qed

interpretation scan: joined_iterator "scan_next E idx" scan_done "scan_ok E idx" "scan_fresh E idx" "scan_rest E idx" for E idx
proof
  fix s :: scan and n :: nat assume n: "0 < n"
  {
    assume "scan_ok E idx s"
    then obtain D k where D: "scan_results E idx s = Inr D" "sc_it s = iterate \<and> k = 0 \<or> it_at D k (sc_it s)" by (auto simp: scan_ok_def)
    obtain it where it: "scan_next E idx n s = Inr (take n (drop k D), s\<lparr>sc_it := it\<rparr>)" "it_at D (k + n) it"
      using scan_next_at [OF D n] by blast
    have "scan_rest E idx s = mset (drop k D)" using D(2)
    proof
      assume "sc_it s = iterate \<and> k = 0"
      with D(1) show ?thesis by (simp add: scan_rest_def)
    qed (rule scan_rest_at)
    moreover have "mset (drop k D) = mset (take n (drop k D)) + mset (drop (k + n) D)"
      by (metis add.commute append_take_drop_id drop_drop mset_append)
    moreover have "take n (drop k D) = [] \<longrightarrow> it_done it = Some True" using it(2) n by (auto simp: it_at_def)
    ultimately show "\<exists>out s'. scan_next E idx n s = Inr (out, s') \<and> scan_ok E idx s' \<and> scan_rest E idx s = mset out + scan_rest E idx s' \<and>
        (out = [] \<longrightarrow> scan_done s' = Some True)"
      using it D(1) scan_rest_at [of D "k + n" "s\<lparr>sc_it := it\<rparr>" E idx]
      by (intro exI [of _ "take n (drop k D)"] exI [of _ "s\<lparr>sc_it := it\<rparr>"]) (auto simp: scan_ok_def scan_results_def scan_done_def)
  }
  {
    fix out s' assume f: "scan_fresh E idx s" "size (scan_rest E idx s) \<le> n" "scan_next E idx n s = Inr (out, s')"
    then obtain D where D: "scan_results E idx s = Inr D" "sc_it s = iterate" by (auto simp: scan_fresh_def)
    obtain it where it: "scan_next E idx n s = Inr (take n (drop 0 D), s\<lparr>sc_it := it\<rparr>)" "it_at D (0 + n) it"
      using scan_next_at [OF D(1) _ n, of 0] D(2) by blast
    have "length D \<le> n" using f(2) D by (simp add: scan_rest_def)
    then show "mset out = scan_rest E idx s \<and> scan_done s' = Some True" using it f(3) D by (auto simp: scan_rest_def it_at_def scan_done_def)
  }
qed (auto simp: scan_fresh_def scan_ok_def scan_done_def iterate_def)

text \<open>The closest ranges in one direction, and those around a point.\<close>

interpretation closest: joined_iterator "closest_next E idx" "join_done scan_done" "join_ok (scan_ok E idx)" "join_fresh (scan_fresh E idx)"
  "join_rest (scan_rest E idx)" for E idx
  unfolding closest_next_def by (rule joined_iterator.intro) (rule scan.join.iterator_axioms)

interpretation around: iterator "around_next E idx" around_done "join_ok (join_ok (scan_ok E idx))" "join_fresh (join_fresh (scan_fresh E idx))"
  "join_rest (join_rest (scan_rest E idx))" for E idx
  unfolding around_next_def around_done_def by (rule closest.join.iterator_axioms)

section \<open>Which ranges the scans select, and in which order\<close>

definition eligible :: "bool \<Rightarrow> string option \<Rightarrow> time_option option \<Rightarrow> range \<Rightarrow> bool" where
  "eligible includeStrict hash time r \<longleftrightarrow> 0 < width r \<and> (includeStrict \<or> mode r = NonStrict) \<and>
     (case hash of None \<Rightarrow> True | Some h \<Rightarrow> h = [] \<or> r_hash r = h) \<and>
     (case time of None \<Rightarrow> True | Some t \<Rightarrow> if t_matured t then r_timestamp r \<le> t_now t - roleAgeLimit t else r_timestamp r \<ge> t_now t - roleAgeLimit t)"

definition time_ok :: "time_option option \<Rightarrow> bool" where
  "time_ok time = (case time of None \<Rightarrow> True | Some t \<Rightarrow> 0 \<le> t_now t - roleAgeLimit t \<and> t_now t - roleAgeLimit t \<le> MAX_U64)"

definition on_side :: "direction \<Rightarrow> bool \<Rightarrow> int \<Rightarrow> range \<Rightarrow> bool" where
  "on_side dir equality p r \<longleftrightarrow>
     (if dir = Below then (if equality then end2 r \<le> p else end2 r < p) else (if equality then start1 r \<ge> p else start1 r > p))"

lemma timestamp_query: "time_ok (Some t) \<Longrightarrow> new_BigUnsignedIntegerValue (t_now t - roleAgeLimit t) = Inr (t_now t - roleAgeLimit t)"
  by (simp add: time_ok_def new_BigUnsignedIntegerValue_def MAX_U64_def)

lemma mode_number_eq: "mode_number m = 0 \<longleftrightarrow> m = NonStrict"
  by (cases m) simp_all

lemma closest_query_selects:
  assumes "range_index res E idx" and "0 \<le> p" and "p \<le> maxValue res" and "time_ok time"
  shows "\<exists>q. closest_query dir res p equality includeStrict hash time = Inr q \<and>
    queryAll E idx q = Inr (filter (\<lambda>v. on_side dir equality p (iv_value v) \<and> eligible includeStrict hash time (iv_value v)) (jm_values idx))"
proof -
  have e: "range_env E" using assms(1) by (simp add: range_index_def)
  define q1 where "q1 = (if dir = Below then StateFieldQuery [''end2''] (IntegerCompare (if equality then LessOrEqual else Less) p)
    else StateFieldQuery [''start1''] (IntegerCompare (if equality then GreaterOrEqual else Greater) p))"
  define q2 where "q2 = (case time of None \<Rightarrow> [] | Some t \<Rightarrow>
    [StateFieldQuery [''timestamp''] (IntegerCompare (if t_matured t then LessOrEqual else GreaterOrEqual) (t_now t - roleAgeLimit t))])"
  define q3 where "q3 = (if includeStrict then [] else [StateFieldQuery [''mode''] (IntegerCompare Equal 0)])"
  define q4 where "q4 = (case hash of None \<Rightarrow> [] | Some h \<Rightarrow> if h = [] then [] else [StateFieldQuery [''hash''] (StringMatch h Exact False)])"
  let ?w = "StateFieldQuery [''width''] (IntegerCompare Greater 0)"
  let ?qs = "[q1] @ q2 @ [?w] @ q3 @ q4"
  have q: "closest_query dir res p equality includeStrict hash time = Inr (QueryList ?qs)"
    unfolding closest_query_def q1_def q2_def q3_def q4_def using assms(2-4)
    by (intro bind_sum_eq_Inr [THEN iffD2] exI conjI seq_sum_append)
      (auto simp: timestamp_query new_UnsignedIntegerValue_def split: option.splits)
  have q1: "plain_query E (range_js r) q1" "query_holds E (range_js r) q1 \<longleftrightarrow> on_side dir equality p r" for r
    by (simp_all add: q1_def range_queries [OF e] on_side_def)
  have q2: "\<forall>q \<in> set q2. plain_query E (range_js r) q" "(\<forall>q \<in> set q2. query_holds E (range_js r) q) \<longleftrightarrow>
      (case time of None \<Rightarrow> True | Some t \<Rightarrow> if t_matured t then r_timestamp r \<le> t_now t - roleAgeLimit t else r_timestamp r \<ge> t_now t - roleAgeLimit t)" for r
    by (cases time; simp add: q2_def range_queries [OF e])+
  have q3: "\<forall>q \<in> set q3. plain_query E (range_js r) q" "(\<forall>q \<in> set q3. query_holds E (range_js r) q) \<longleftrightarrow> includeStrict \<or> mode r = NonStrict" for r
    by (simp_all add: q3_def range_queries [OF e] mode_number_eq)
  have q4: "\<forall>q \<in> set q4. plain_query E (range_js r) q" "(\<forall>q \<in> set q4. query_holds E (range_js r) q) \<longleftrightarrow>
      (case hash of None \<Rightarrow> True | Some h \<Rightarrow> h = [] \<or> r_hash r = h)" for r
    by (cases hash; simp add: q4_def range_queries [OF e])+
  have holds: "(\<forall>q \<in> set ?qs. query_holds E (range_js r) q) \<longleftrightarrow> on_side dir equality p r \<and> eligible includeStrict hash time r" for r
    unfolding set_append ball_Un using q1(2) q2(2) q3(2) q4(2) by (simp add: range_queries [OF e] eligible_def conj_ac)
  have plain: "\<forall>q \<in> set ?qs. plain_query E (range_js r) q" for r
    unfolding set_append ball_Un using q1(1) q2(1) q3(1) q4(1) by (simp add: range_queries [OF e])
  have "toQuery (QueryList ?qs) = Inr ?qs" by (rule toQuery.simps)
  from range_queryAll [OF assms(1) this plain] q show ?thesis unfolding holds by blast
qed

lemma comparator_lex:
  assumes "comparator f" and "comparator g"
  shows "comparator (\<lambda>a b. if f a b \<noteq> 0 then f a b else g a b)"
proof
  fix a b c
  show "(if f a b \<noteq> 0 then f a b else g a b) < 0 \<longleftrightarrow> 0 < (if f b a \<noteq> 0 then f b a else g b a)"
    using comparator.cmp_anti [OF assms(1), of a b] comparator.cmp_zero_sym [OF assms(1), of a b] comparator.cmp_anti [OF assms(2), of a b]
    by auto
  assume le: "(if f a b \<noteq> 0 then f a b else g a b) \<le> 0" "(if f b c \<noteq> 0 then f b c else g b c) \<le> 0"
  then have f: "f a b \<le> 0" "f b c \<le> 0" by (auto split: if_splits)
  show "(if f a c \<noteq> 0 then f a c else g a c) \<le> 0"
  proof (cases "f a c = 0")
    case True
    then have ca: "f c a \<le> 0" using comparator.cmp_zero_sym [OF assms(1), of a c] by simp
    have "f c b \<le> 0" "f b a \<le> 0"
      using comparator.cmp_trans [OF assms(1) ca f(1)] comparator.cmp_trans [OF assms(1) f(2) ca] .
    then have "f a b = 0" "f b c = 0"
      using f comparator.cmp_anti [OF assms(1), of a b] comparator.cmp_anti [OF assms(1), of b c] by linarith+
    with le True show ?thesis using comparator.cmp_trans [OF assms(2), of a b c] by simp
  next
    case False
    then show ?thesis using comparator.cmp_trans [OF assms(1) f] by simp
  qed
qed

text \<open>The three keys of the order: the end towards the point, the age and the owner.\<close>

definition side_key :: "direction \<Rightarrow> range indexedValue \<Rightarrow> int" where
  "side_key dir v = (if dir = Below then - end2 (iv_value v) else start1 (iv_value v))"

definition closest_cmp :: "(range, 'm) index_env_scheme \<Rightarrow> direction \<Rightarrow> range indexedValue \<Rightarrow> range indexedValue \<Rightarrow> int" where
  "closest_cmp E dir a b =
     (if cmp_on (side_key dir) a b \<noteq> 0 then cmp_on (side_key dir) a b
      else if cmp_on (\<lambda>v. r_timestamp (iv_value v)) a b \<noteq> 0 then cmp_on (\<lambda>v. r_timestamp (iv_value v)) a b
      else localeCompare E (r_hash (iv_value a)) (r_hash (iv_value b)))"

lemma closest_cmp_comparator: "range_env E \<Longrightarrow> comparator (closest_cmp E dir)"
proof -
  assume "range_env E"
  then have "comparator (\<lambda>a b. localeCompare E (r_hash (iv_value a)) (r_hash (iv_value b)))"
    by (simp add: range_env_def comparator_def)
  then show ?thesis unfolding closest_cmp_def
    by (intro comparator_lex) (rule key_cmp.comparator_axioms)+
qed

lemma sort_closest:
  assumes "range_index res E idx" and "set docs \<subseteq> set (jm_values idx)"
  shows "sort_docs E (closest_sort dir) docs = Inr (js_sort (closest_cmp E dir) docs)"
proof -
  have e: "range_env E" using assms(1) by (simp add: range_index_def)
  have c: "doc_cmp E (closest_sort dir) a b = Inr (closest_cmp E dir a b)" if "a \<in> set docs" "b \<in> set docs" for a b
  proof -
    have "r_res (iv_value a) = res" "r_res (iv_value b) = res" using that assms by (auto simp: range_index_def)
    then show ?thesis using e by (cases res; cases "dir = Below")
      (auto simp: Let_def doc_cmp_def closest_sort_def closest_cmp_def sortCompare_def cmp_on_def side_key_def range_js_def range_env_def)
  qed
  have eq: "js_sort (\<lambda>a b. projr (doc_cmp E (closest_sort dir) a b)) docs = js_sort (closest_cmp E dir) docs"
    using c by (intro js_sort_cong) auto
  have no: "\<not> list_ex (\<lambda>a. list_ex (\<lambda>b. isl (doc_cmp E (closest_sort dir) a b)) docs) docs" using c by (auto simp: list_ex_iff)
  have short: "js_sort (closest_cmp E dir) docs = docs" if "\<not> length docs > 1" using that by (cases docs) auto
  show ?thesis using no eq short by (auto simp: sort_docs_def closest_sort_def)
qed

lemma getClosest_scans:
  assumes "range_index res E idx" and "0 \<le> p" and "p \<le> maxValue res" and "time_ok time"
  obtains s1 s2 where "getClosest dir res p includeStrict hash time = Inr (joinIterator [s1, s2] p dir res)"
    and "sc_it s1 = iterate" and "sc_it s2 = iterate"
    and "scan_results E idx s1 = Inr (js_sort (closest_cmp E dir) (filter (\<lambda>v. on_side dir False p (iv_value v) \<and> eligible includeStrict hash time (iv_value v)) (jm_values idx)))"
    and "scan_results E idx s2 = Inr (js_sort (closest_cmp E dir) (filter (\<lambda>v. eligible includeStrict hash time (iv_value v)) (jm_values idx)))"
proof -
  let ?limit = "if dir = Below then maxValue res else 0"
  have "0 \<le> ?limit" "?limit \<le> maxValue res" by (simp_all add: less_imp_le)
  then obtain q1 q2 where q1: "closest_query dir res p False includeStrict hash time = Inr q1"
      "queryAll E idx q1 = Inr (filter (\<lambda>v. on_side dir False p (iv_value v) \<and> eligible includeStrict hash time (iv_value v)) (jm_values idx))"
    and q2: "closest_query dir res ?limit True includeStrict hash time = Inr q2"
      "queryAll E idx q2 = Inr (filter (\<lambda>v. on_side dir True ?limit (iv_value v) \<and> eligible includeStrict hash time (iv_value v)) (jm_values idx))"
    using closest_query_selects [OF assms(1-4), of dir False includeStrict hash]
      closest_query_selects [OF assms(1) _ _ assms(4), of ?limit dir True includeStrict hash] by blast
  have "on_side dir True ?limit (iv_value v)" if "v \<in> set (jm_values idx)" for v
    using assms(1) that by (auto simp: range_index_def range_ok_def on_side_def)
  then have "filter (\<lambda>v. on_side dir True ?limit (iv_value v) \<and> eligible includeStrict hash time (iv_value v)) (jm_values idx) =
      filter (\<lambda>v. eligible includeStrict hash time (iv_value v)) (jm_values idx)" by (intro filter_cong) auto
  with q1 q2 that [of "new_scan q1 (closest_sort dir)" "new_scan q2 (closest_sort dir)"] sort_closest [OF assms(1)] show thesis
    by (simp add: getClosest_def new_scan_def scan_results_def)
qed

lemma sort_head_key:
  assumes "range_env E" and "js_sort (closest_cmp E dir) xs = x # ys" and "y \<in> set xs"
  shows "x \<in> set xs \<and> side_key dir x \<le> side_key dir y"
proof -
  have "closest_cmp E dir x y \<le> 0"
    by (rule comparator.js_sort_head_least [OF closest_cmp_comparator [OF assms(1)] assms(2,3)])
  moreover have "x \<in> set xs" using set_js_sort [of "closest_cmp E dir" xs] assms(2) by auto
  ultimately show ?thesis by (auto simp: closest_cmp_def cmp_on_def split: if_splits)
qed

text \<open>Pulling one element from each of two fresh scans.\<close>

lemma pull_one:
  assumes "sc_it s1 = iterate" and "sc_it s2 = iterate" and "scan_results E idx s1 = Inr D1" and "scan_results E idx s2 = Inr D2"
  shows "\<exists>t1 t2. join_pull (scan_next E idx) scan_done dist 1 [(s1, []), (s2, [])] =
    Inr [(t1, map (\<lambda>el. (el, dist (iv_value el))) (take 1 D1)), (t2, map (\<lambda>el. (el, dist (iv_value el))) (take 1 D2))]"
proof -
  obtain it1 it2 where "scan_next E idx 1 s1 = Inr (take 1 D1, s1\<lparr>sc_it := it1\<rparr>)" "scan_next E idx 1 s2 = Inr (take 1 D2, s2\<lparr>sc_it := it2\<rparr>)"
    using scan_next_at [OF assms(3), of 0 1] scan_next_at [OF assms(4), of 0 1] assms(1,2) by auto
  then show ?thesis using assms(1,2) by (simp add: scan_done_def iterate_def)
qed

lemma emit_one:
  assumes "xs2 = [] \<longrightarrow> xs1 = []"
  shows "\<exists>ps. join_emit 1 [(t1, map (\<lambda>el. (el, d el)) (take 1 xs1)), (t2, map (\<lambda>el. (el, d el)) (take 1 xs2))] =
    ((if xs2 = [] then [] else if xs1 = [] then [hd xs2] else if d (hd xs2) < d (hd xs1) then [hd xs2] else [hd xs1]), ps)"
  using assms by (cases xs1; cases xs2) auto

text \<open>Of the two heads, the one on the side of the point or the one of all, one is at least as close as any range.\<close>

lemma head_least:
  assumes "range_env E" and "dir \<noteq> Closest" and "w \<in> set B" and "A = filter (\<lambda>v. on_side dir False p (iv_value v)) B"
  shows "js_sort (closest_cmp E dir) A \<noteq> [] \<and>
      element_dist dir p mx (iv_value (hd (js_sort (closest_cmp E dir) A))) \<le> element_dist dir p mx (iv_value w) \<or>
    element_dist dir p mx (iv_value (hd (js_sort (closest_cmp E dir) B))) \<le> element_dist dir p mx (iv_value w)"
proof (cases "on_side dir False p (iv_value w)")
  case True
  then have w: "w \<in> set A" using assms(3,4) by simp
  then obtain x xs where x: "js_sort (closest_cmp E dir) A = x # xs" by (metis js_sort_eq_Nil list.exhaust empty_iff empty_set)
  from sort_head_key [OF assms(1) x w] have "x \<in> set A" "side_key dir x \<le> side_key dir w" by simp_all
  then have "element_dist dir p mx (iv_value x) \<le> element_dist dir p mx (iv_value w)"
    using True assms(2,4) by (cases dir) (auto simp: on_side_def side_key_def getDistance_def)
  then show ?thesis using x by simp
next
  case False
  obtain x xs where x: "js_sort (closest_cmp E dir) B = x # xs" using assms(3) by (metis js_sort_eq_Nil list.exhaust empty_iff empty_set)
  from sort_head_key [OF assms(1) x assms(3)] have "side_key dir x \<le> side_key dir w" by simp
  then have "element_dist dir p mx (iv_value x) \<le> element_dist dir p mx (iv_value w)"
    using False assms(2) by (cases dir) (auto simp: on_side_def side_key_def getDistance_def)
  then show ?thesis using x by simp
qed

text \<open>(C22) The first range that \<open>getClosest\<close> hands out is one at the smallest distance on the ring in that direction, of
  those that are not empty and fit the strictness, the owner and the age asked for; there is none only when
  none fits.\<close>

theorem getClosest_closest:
  assumes "range_index res E idx" and "0 \<le> p" and "p \<le> maxValue res" and "time_ok time" and "dir \<noteq> Closest"
  shows "\<exists>J rs J'. getClosest dir res p includeStrict hash time = Inr J \<and> closest_next E idx 1 J = Inr (rs, J') \<and>
    (if \<exists>w \<in> set (jm_values idx). eligible includeStrict hash time (iv_value w)
     then \<exists>v \<in> set (jm_values idx). rs = [v] \<and> eligible includeStrict hash time (iv_value v) \<and>
       (\<forall>w \<in> set (jm_values idx). eligible includeStrict hash time (iv_value w) \<longrightarrow>
          element_dist dir p (maxValue res) (iv_value v) \<le> element_dist dir p (maxValue res) (iv_value w))
     else rs = [])"
proof -
  have e: "range_env E" using assms(1) by (simp add: range_index_def)
  let ?el = "\<lambda>v. eligible includeStrict hash time (iv_value v)" and ?d = "element_dist dir p (maxValue res)"
  let ?A = "filter (\<lambda>v. on_side dir False p (iv_value v) \<and> ?el v) (jm_values idx)" and ?B = "filter ?el (jm_values idx)"
  let ?D1 = "js_sort (closest_cmp E dir) ?A" and ?D2 = "js_sort (closest_cmp E dir) ?B"
  obtain s1 s2 where s: "getClosest dir res p includeStrict hash time = Inr (joinIterator [s1, s2] p dir res)"
      "sc_it s1 = iterate" "sc_it s2 = iterate" "scan_results E idx s1 = Inr ?D1" "scan_results E idx s2 = Inr ?D2"
    using getClosest_scans [OF assms(1-4)] by blast
  obtain t1 t2 where pull: "join_pull (scan_next E idx) scan_done ?d 1 [(s1, []), (s2, [])] =
      Inr [(t1, map (\<lambda>el. (el, ?d (iv_value el))) (take 1 ?D1)), (t2, map (\<lambda>el. (el, ?d (iv_value el))) (take 1 ?D2))]"
    using pull_one [OF s(2-5), of ?d] by blast
  have imp: "?D2 = [] \<longrightarrow> ?D1 = []" by (auto simp: filter_empty_conv)
  let ?out = "if ?D2 = [] then [] else if ?D1 = [] then [hd ?D2] else if ?d (iv_value (hd ?D2)) < ?d (iv_value (hd ?D1)) then [hd ?D2] else [hd ?D1]"
  obtain ps where emit: "join_emit 1 [(t1, map (\<lambda>el. (el, ?d (iv_value el))) (take 1 ?D1)), (t2, map (\<lambda>el. (el, ?d (iv_value el))) (take 1 ?D2))] = (?out, ps)"
    using emit_one [OF imp, of t1 "\<lambda>el. ?d (iv_value el)" t2] by blast
  have nxt: "closest_next E idx 1 (joinIterator [s1, s2] p dir res) = Inr (?out, (joinIterator [s1, s2] p dir res)\<lparr>j_parts := ps\<rparr>)"
    unfolding closest_next_def joined_next_def joinIterator_def using pull emit by simp
  have A: "?A = filter (\<lambda>v. on_side dir False p (iv_value v)) ?B" by (simp add: conj_commute)
  show ?thesis
  proof (cases "\<exists>w \<in> set (jm_values idx). ?el w")
    case False
    then have "?B = []" by (simp add: filter_empty_conv)
    with nxt s(1) False show ?thesis by auto
  next
    case True
    then have ne: "?D2 \<noteq> []" by (auto simp: filter_empty_conv)
    define v where "v = (if ?D1 = [] \<or> ?d (iv_value (hd ?D2)) < ?d (iv_value (hd ?D1)) then hd ?D2 else hd ?D1)"
    have v: "?out = [v]" using ne by (simp add: v_def)
    have "v = hd ?D2 \<or> ?D1 \<noteq> [] \<and> v = hd ?D1" by (simp add: v_def)
    then have "v \<in> set ?D2 \<or> v \<in> set ?D1" using list.set_sel(1) [OF ne] list.set_sel(1) [of ?D1] by blast
    then have mem: "v \<in> set (jm_values idx)" "?el v" by auto
    have "?d (iv_value v) \<le> ?d (iv_value (hd ?D2))" "?D1 \<noteq> [] \<longrightarrow> ?d (iv_value v) \<le> ?d (iv_value (hd ?D1))"
      by (simp_all add: v_def)
    then have "?d (iv_value v) \<le> ?d (iv_value w)" if "w \<in> set (jm_values idx)" "?el w" for w
      using head_least [OF e assms(5) _ A, of w "maxValue res"] that by auto
    then show ?thesis using nxt s(1) v mem True by auto
  qed
qed

section \<open>Sampling\<close>

lemma around_fresh:
  assumes "range_index res E idx" and "0 \<le> p" and "p \<le> maxValue res" and t: "time_ok time"
  obtains B A where "getClosest Below res p sb None time = Inr B" and "getClosest Above res p sa None time = Inr A"
    and "join_fresh (join_fresh (scan_fresh E idx)) (joinIterator [B, A] p Closest res)"
    and "set_mset (join_rest (join_rest (scan_rest E idx)) (joinIterator [B, A] p Closest res)) =
      {v \<in> set (jm_values idx). eligible sb None time (iv_value v) \<or> eligible sa None time (iv_value v)}"
    and "size (join_rest (join_rest (scan_rest E idx)) (joinIterator [B, A] p Closest res)) \<le> 4 * length idx"
proof -
  let ?el = "\<lambda>s v. eligible s None time (iv_value v)"
  have one: "\<exists>J. getClosest dir res p s None time = Inr J \<and> join_fresh (scan_fresh E idx) J \<and>
      set_mset (join_rest (scan_rest E idx) J) = {v \<in> set (jm_values idx). ?el s v} \<and> size (join_rest (scan_rest E idx) J) \<le> 2 * length idx" for dir s
  proof -
    let ?D1 = "js_sort (closest_cmp E dir) (filter (\<lambda>v. on_side dir False p (iv_value v) \<and> ?el s v) (jm_values idx))"
    let ?D2 = "js_sort (closest_cmp E dir) (filter (?el s) (jm_values idx))"
    obtain s1 s2 where sc: "getClosest dir res p s None time = Inr (joinIterator [s1, s2] p dir res)"
        "sc_it s1 = iterate" "sc_it s2 = iterate" "scan_results E idx s1 = Inr ?D1" "scan_results E idx s2 = Inr ?D2"
      using getClosest_scans [OF assms] by blast
    have r: "join_rest (scan_rest E idx) (joinIterator [s1, s2] p dir res) = mset ?D1 + mset ?D2"
      using sc(2-5) by (simp add: join_rest_def joinIterator_def scan_rest_def)
    have len: "length (filter P (jm_values idx)) \<le> length idx" for P
      by (metis jm_values_def length_filter_le length_map)
    have "join_fresh (scan_fresh E idx) (joinIterator [s1, s2] p dir res)"
      using sc(2-5) by (simp add: join_fresh_def joinIterator_def scan_fresh_def)
    moreover have "set_mset (mset ?D1 + mset ?D2) = {v \<in> set (jm_values idx). ?el s v}" by auto
    moreover have "size (mset ?D1 + mset ?D2) \<le> 2 * length idx"
      unfolding size_union size_mset length_js_sort
      using len [of "?el s"] len [of "\<lambda>v. on_side dir False p (iv_value v) \<and> ?el s v"] by linarith
    ultimately show ?thesis using sc(1) r by auto
  qed
  obtain B where B: "getClosest Below res p sb None time = Inr B" "join_fresh (scan_fresh E idx) B"
      "set_mset (join_rest (scan_rest E idx) B) = {v \<in> set (jm_values idx). ?el sb v}" "size (join_rest (scan_rest E idx) B) \<le> 2 * length idx"
    using one [of Below sb] by blast
  obtain A where A: "getClosest Above res p sa None time = Inr A" "join_fresh (scan_fresh E idx) A"
      "set_mset (join_rest (scan_rest E idx) A) = {v \<in> set (jm_values idx). ?el sa v}" "size (join_rest (scan_rest E idx) A) \<le> 2 * length idx"
    using one [of Above sa] by blast
  have "join_rest (join_rest (scan_rest E idx)) (joinIterator [B, A] p Closest res) = join_rest (scan_rest E idx) B + join_rest (scan_rest E idx) A"
    by (simp add: join_rest_def [of "join_rest (scan_rest E idx)"] joinIterator_def)
  with that [OF B(1) A(1)] A(2-4) B(2-4) show thesis by (auto simp: join_fresh_def [of "join_fresh (scan_fresh E idx)"] joinIterator_def)
qed

text \<open>What collecting may do to the leaders: intersecting ones stay as they are, new ones are owners of matured ranges
  of \<open>S\<close> and do not intersect, and the count of matured ones is at most the number of leaders.\<close>

definition counted :: "samples \<Rightarrow> bool" where
  "counted st \<longleftrightarrow> jm_ok (sm_leaders st) \<and> sm_matured st \<le> length (sm_leaders st)"

definition sampled :: "int \<Rightarrow> int \<Rightarrow> nat \<Rightarrow> range indexedValue set \<Rightarrow> samples \<Rightarrow> samples \<Rightarrow> bool" where
  "sampled now roleAge i S st st' \<longleftrightarrow>
     (\<forall>h. jm_get (sm_leaders st') h = Some True \<longleftrightarrow> jm_get (sm_leaders st) h = Some True) \<and>
     (\<forall>h. jm_get (sm_leaders st') h = Some False \<longrightarrow> jm_get (sm_leaders st) h = Some False \<or>
        (\<exists>v \<in> S. r_hash (iv_value v) = h \<and> isMatured (iv_value v) now roleAge)) \<and>
     dom (jm_get (sm_leaders st)) \<subseteq> dom (jm_get (sm_leaders st')) \<and>
     (sm_found st' \<longrightarrow> sm_found st \<or> i < sm_matured st') \<and> sm_matured st \<le> sm_matured st' \<and> (counted st \<longrightarrow> counted st')"

lemma sampled_refl [simp]: "sampled now roleAge i S st st"
  by (simp add: sampled_def)

lemma sampled_trans:
  assumes "sampled now roleAge i S st1 st2" and "sampled now roleAge i T st2 st3"
  shows "sampled now roleAge i (S \<union> T) st1 st3"
proof -
  note s = assms [unfolded sampled_def]
  have "jm_get (sm_leaders st1) h = Some False \<or> (\<exists>v \<in> S \<union> T. r_hash (iv_value v) = h \<and> isMatured (iv_value v) now roleAge)"
    if "jm_get (sm_leaders st3) h = Some False" for h
  proof (cases "jm_get (sm_leaders st2) h = Some False")
    case True
    then show ?thesis using s(1) by auto
  next
    case False
    then show ?thesis using s(2) that by auto
  qed
  moreover have "dom (jm_get (sm_leaders st1)) \<subseteq> dom (jm_get (sm_leaders st3))"
    using s by (elim conjE) (erule (1) subset_trans)
  moreover have "sm_found st3 \<longrightarrow> sm_found st1 \<or> i < sm_matured st3" "sm_matured st1 \<le> sm_matured st3" "counted st1 \<longrightarrow> counted st3"
    using s by auto
  moreover have "jm_get (sm_leaders st3) h = Some True \<longleftrightarrow> jm_get (sm_leaders st1) h = Some True" for h using s by simp
  ultimately show ?thesis unfolding sampled_def by simp
qed

lemma collector_sampled:
  "sampled now roleAge i {v} st (collector i (iv_value v) (isMatured (iv_value v) now roleAge) st)"
  by (auto simp: sampled_def collector_def Let_def counted_def length_jm_set jm_has_def split: if_splits)

lemma collector_leads:
  assumes "isMatured r now roleAge"
  shows "r_hash r \<in> dom (jm_get (sm_leaders (collector i r (isMatured r now roleAge) st)))"
  using assms by (auto simp: collector_def Let_def)

lemma collect_batch_sampled: "sampled now roleAge i (set rs) st (collect_batch now roleAge i rs st)"
proof (induction rs arbitrary: st)
  case (Cons v rs)
  let ?st = "collector i (iv_value v) (isMatured (iv_value v) now roleAge) st"
  have v: "sampled now roleAge i {v} st ?st" by (rule collector_sampled)
  show ?case
  proof (cases "sm_found ?st")
    case True
    then show ?thesis using sampled_trans [OF v sampled_refl, of "set rs"] by simp
  next
    case False
    then show ?thesis using sampled_trans [OF v Cons [of ?st]] by simp
  qed
qed simp

lemma collect_batch_all:
  assumes "\<not> sm_found (collect_batch now roleAge i rs st)" and "v \<in> set rs" and "isMatured (iv_value v) now roleAge"
  shows "r_hash (iv_value v) \<in> dom (jm_get (sm_leaders (collect_batch now roleAge i rs st)))"
  using assms(1,2)
proof (induction rs arbitrary: st)
  case (Cons w rs)
  let ?st = "collector i (iv_value w) (isMatured (iv_value w) now roleAge) st"
  have nf: "\<not> sm_found ?st" using Cons.prems(1) by (auto simp: Let_def split: if_splits)
  show ?case
  proof (cases "v = w")
    case True
    then have "r_hash (iv_value v) \<in> dom (jm_get (sm_leaders ?st))" using collector_leads [OF assms(3)] by simp
    moreover have "dom (jm_get (sm_leaders ?st)) \<subseteq> dom (jm_get (sm_leaders (collect_batch now roleAge i rs ?st)))"
      using collect_batch_sampled by (auto simp: sampled_def)
    ultimately show ?thesis using nf by (auto simp: Let_def)
  next
    case False
    then show ?thesis using Cons nf by (simp add: Let_def)
  qed
qed simp

lemma sampled_mono: "sampled now roleAge i S st st' \<Longrightarrow> S \<subseteq> T \<Longrightarrow> sampled now roleAge i T st st'"
  using sampled_trans [OF _ sampled_refl, of now roleAge i S st st' T] by (simp add: Un_absorb1)

text \<open>The loop ends: a round that collects nothing exhausts the iterator, any other one leaves less to collect.\<close>

lemma collect_loop_returns:
  assumes "join_ok (join_ok (scan_ok E idx)) J" and "size (join_rest (join_rest (scan_rest E idx)) J) + 1 < fuel"
  shows "\<exists>st'. collect_loop fuel E idx now roleAge i J st = Some (Inr st') \<and>
    sampled now roleAge i (set_mset (join_rest (join_rest (scan_rest E idx)) J)) st st'"
  using assms
proof (induction fuel arbitrary: J st)
  case (Suc fuel)
  let ?rest = "join_rest (join_rest (scan_rest E idx))"
  show ?case
  proof (cases "around_done J \<noteq> Some True \<and> \<not> sm_found st")
    case True
    obtain rs J' where n: "around_next E idx 100 J = Inr (rs, J')" "join_ok (join_ok (scan_ok E idx)) J'" "?rest J = mset rs + ?rest J'"
        "rs = [] \<longrightarrow> around_done J' = Some True"
      using around.next_ok [OF Suc.prems(1), of 100] by auto
    let ?st = "collect_batch now roleAge i rs st"
    have b: "sampled now roleAge i (set rs) st ?st" by (rule collect_batch_sampled)
    show ?thesis
    proof (cases "rs = []")
      case False
      then have "size (?rest J') + 1 < fuel" using n(3) Suc.prems(2) by (cases rs) auto
      from Suc.IH [OF n(2) this] obtain st' where "collect_loop fuel E idx now roleAge i J' ?st = Some (Inr st')"
        "sampled now roleAge i (set_mset (?rest J')) ?st st'" by blast
      then show ?thesis using True n(1,3) sampled_trans [OF b] by auto
    next
      case empty: True
      obtain f where "fuel = Suc f" using Suc.prems(2) by (cases fuel) auto
      then show ?thesis using True n empty b sampled_mono [OF b] by auto
    qed
  next
    case False
    then show ?thesis by auto
  qed
qed simp

lemma collect_returns:
  assumes "range_index res E idx" and "0 \<le> p" and "p \<le> maxValue res" and "4 * length idx + 1 < fuel"
  shows "\<exists>st'. collectClosestAround fuel E res idx now roleAge i p st = Some (Inr st') \<and>
    sampled now roleAge i {v \<in> set (jm_values idx). eligible False None None (iv_value v)} st st' \<and>
    (length idx \<le> 25 \<and> \<not> sm_found st' \<longrightarrow>
       (\<forall>v \<in> set (jm_values idx). eligible False None None (iv_value v) \<and> isMatured (iv_value v) now roleAge \<longrightarrow>
          r_hash (iv_value v) \<in> dom (jm_get (sm_leaders st'))))"
proof -
  let ?rest = "join_rest (join_rest (scan_rest E idx))" and ?S = "{v \<in> set (jm_values idx). eligible False None None (iv_value v)}"
  obtain B A where BA: "getClosest Below res p False None None = Inr B" "getClosest Above res p False None None = Inr A"
      "join_fresh (join_fresh (scan_fresh E idx)) (joinIterator [B, A] p Closest res)" and
      rest: "set_mset (?rest (joinIterator [B, A] p Closest res)) =
        {v \<in> set (jm_values idx). eligible False None None (iv_value v) \<or> eligible False None None (iv_value v)}" "size (?rest (joinIterator [B, A] p Closest res)) \<le> 4 * length idx"
    by (rule around_fresh [OF assms(1-3), of None False False]) (simp_all add: time_ok_def)
  let ?J = "joinIterator [B, A] p Closest res"
  note ok = around.fresh_ok [OF BA(3)] and rest = rest [unfolded disj_absorb]
  have c: "collectClosestAround fuel E res idx now roleAge i p st = collect_loop fuel E idx now roleAge i ?J st"
    using BA(1,2) by (simp add: collectClosestAround_def)
  from collect_loop_returns [OF ok, of fuel] rest assms(4)
  obtain st' where st': "collect_loop fuel E idx now roleAge i ?J st = Some (Inr st')" "sampled now roleAge i ?S st st'" by fastforce
  have all: "r_hash (iv_value v) \<in> dom (jm_get (sm_leaders st'))"
    if small: "length idx \<le> 25" and nf: "\<not> sm_found st'" and v: "v \<in> ?S" and m: "isMatured (iv_value v) now roleAge" for v
  proof -
    obtain f where f: "fuel = Suc (Suc f)" using assms(4) by (metis Suc_lessE add.commute less_natE plus_1_eq_Suc)
    obtain rs J' where n: "around_next E idx 100 ?J = Inr (rs, J')" using around.next_ok [OF ok, of 100] by auto
    have rs: "mset rs = ?rest ?J" "around_done J' = Some True" using around.fresh_next [OF BA(3) _ _ n] rest(2) small by auto
    have nst: "\<not> sm_found st" using nf st'(1) f by (auto split: if_splits)
    then have "collect_loop fuel E idx now roleAge i ?J st = Some (Inr (collect_batch now roleAge i rs st))"
      using n rs(2) around.fresh_dn [OF BA(3)] by (simp add: f)
    then have st: "st' = collect_batch now roleAge i rs st" using st'(1) by simp
    have "v \<in> set rs" using rs(1) rest(1) v by (metis set_mset_mset)
    then show ?thesis using collect_batch_all [of now roleAge i rs st v] nf m unfolding st by blast
  qed
  show ?thesis using c st' all by auto
qed

text \<open>What the containing ranges do to the leaders.\<close>

lemma add_containing_leaders:
  "jm_get (sm_leaders (fold (\<lambda>v. add_containing now roleAge (iv_value v)) vs st)) h =
     (if \<exists>v \<in> set vs. r_hash (iv_value v) = h then Some True else jm_get (sm_leaders st) h)"
  by (induction vs arbitrary: st) (auto simp: add_containing_def Let_def)

lemma add_containing_counts:
  "sm_matured st \<le> sm_matured (fold (\<lambda>v. add_containing now roleAge (iv_value v)) vs st) \<and>
     (counted st \<longrightarrow> counted (fold (\<lambda>v. add_containing now roleAge (iv_value v)) vs st))"
proof (induction vs arbitrary: st)
  case (Cons v vs)
  have "sm_matured st \<le> sm_matured (add_containing now roleAge (iv_value v) st)"
    "counted st \<longrightarrow> counted (add_containing now roleAge (iv_value v) st)"
    by (auto simp: add_containing_def Let_def counted_def length_jm_set jm_has_def)
  with Cons [of "add_containing now roleAge (iv_value v) st"] show ?case by auto
qed simp

text \<open>The state after the points \<open>P\<close> of the cursor: exactly the owners of ranges that contain one of them are
  intersecting leaders, the other leaders own matured ranges, and there are enough of them.\<close>

definition owners :: "range hashmap \<Rightarrow> int \<Rightarrow> int \<Rightarrow> string set" where
  "owners idx now roleAge = {r_hash (iv_value v) | v. v \<in> set (jm_values idx) \<and> eligible False None None (iv_value v) \<and> isMatured (iv_value v) now roleAge}"

definition sampling :: "range hashmap \<Rightarrow> int \<Rightarrow> int \<Rightarrow> int set \<Rightarrow> samples \<Rightarrow> bool" where
  "sampling idx now roleAge P st \<longleftrightarrow> counted st \<and>
     (\<forall>h. jm_get (sm_leaders st) h = Some True \<longleftrightarrow> (\<exists>v \<in> set (jm_values idx). r_hash (iv_value v) = h \<and> (\<exists>p \<in> P. contains (iv_value v) p))) \<and>
     (\<forall>h. jm_get (sm_leaders st) h = Some False \<longrightarrow> h \<in> owners idx now roleAge)"

definition enough :: "range hashmap \<Rightarrow> int \<Rightarrow> int \<Rightarrow> nat \<Rightarrow> samples \<Rightarrow> bool" where
  "enough idx now roleAge n st \<longleftrightarrow> n \<le> sm_matured st \<or> owners idx now roleAge \<subseteq> dom (jm_get (sm_leaders st))"

lemma sampling_sampled:
  assumes "sampling idx now roleAge P st" and "sampled now roleAge i {v \<in> set (jm_values idx). eligible False None None (iv_value v)} st st'"
  shows "sampling idx now roleAge P st'"
proof -
  have "h \<in> owners idx now roleAge" if "jm_get (sm_leaders st') h = Some False" for h
    using assms that unfolding sampling_def sampled_def owners_def by blast
  then show ?thesis using assms unfolding sampling_def sampled_def by auto
qed

lemma sample_loop_returns:
  assumes "range_index res E idx" and "4 * length idx + 1 < fuel"
  shows "\<forall>p \<in> set cursor. 0 \<le> p \<and> p \<le> maxValue res \<Longrightarrow> sampling idx now roleAge P st \<Longrightarrow>
    \<exists>st'. sample_loop fuel E res idx now roleAge only None i cursor st = Some (Inr st') \<and> sampling idx now roleAge (P \<union> set cursor) st' \<and>
      (length idx \<le> 25 \<and> \<not> only \<and> enough idx now roleAge i st \<longrightarrow> enough idx now roleAge (i + length cursor) st')"
proof (induction cursor arbitrary: P st i)
  case (Cons p cursor)
  have p: "0 \<le> p" "p \<le> maxValue res" using Cons.prems(1) by simp_all
  obtain vs where vs: "allRangesContainingPoint E res idx [p] [] None = Inr vs" "set vs = {v \<in> set (jm_values idx). contains (iv_value v) p}"
    using allRanges_set [OF assms(1), of "[p]"] p by auto
  let ?st1 = "fold (\<lambda>v. add_containing now roleAge (iv_value v)) vs st"
  note get = add_containing_leaders [of now roleAge vs st] and cnt = add_containing_counts [of st now roleAge vs]
  have s1: "sampling idx now roleAge (insert p P) ?st1"
    using Cons.prems(2) cnt get vs(2) by (auto simp: sampling_def)
  have un: "insert p P \<union> set cursor = P \<union> set (p # cursor)" by simp
  have IH: "\<exists>st'. sample_loop fuel E res idx now roleAge only None (Suc i) cursor st2 = Some (Inr st') \<and> sampling idx now roleAge (P \<union> set (p # cursor)) st' \<and>
      (length idx \<le> 25 \<and> \<not> only \<and> enough idx now roleAge (Suc i) st2 \<longrightarrow> enough idx now roleAge (i + length (p # cursor)) st')"
    if "sampling idx now roleAge (insert p P) st2" for st2
    using Cons.IH [OF _ that, of "Suc i"] Cons.prems(1) unfolding un by simp
  show ?case
  proof (cases "only \<or> sm_matured ?st1 > i")
    case True
    then have "enough idx now roleAge (Suc i) ?st1" if "\<not> only" using that by (auto simp: enough_def)
    then show ?thesis using IH [OF s1] True vs(1) by auto
  next
    case False
    let ?st0 = "?st1\<lparr>sm_found := False\<rparr>"
    obtain st2 where st2: "collectClosestAround fuel E res idx now roleAge i p ?st0 = Some (Inr st2)"
        "sampled now roleAge i {v \<in> set (jm_values idx). eligible False None None (iv_value v)} ?st0 st2"
        "length idx \<le> 25 \<and> \<not> sm_found st2 \<longrightarrow> owners idx now roleAge \<subseteq> dom (jm_get (sm_leaders st2))"
      using collect_returns [OF assms(1) p assms(2), of now roleAge i ?st0] by (auto simp: owners_def)
    have "sampling idx now roleAge (insert p P) ?st0" using s1 by (simp add: sampling_def counted_def)
    from IH [OF sampling_sampled [OF this st2(2)]] obtain st' where
      st': "sample_loop fuel E res idx now roleAge only None (Suc i) cursor st2 = Some (Inr st')" "sampling idx now roleAge (P \<union> set (p # cursor)) st'"
        "length idx \<le> 25 \<and> \<not> only \<and> enough idx now roleAge (Suc i) st2 \<longrightarrow> enough idx now roleAge (i + length (p # cursor)) st'" by blast
    have "enough idx now roleAge (Suc i) st2" if "length idx \<le> 25"
      using st2(2,3) that unfolding enough_def sampled_def by auto
    then show ?thesis using st' st2(1) vs(1) False by auto
  qed
qed (auto simp: enough_def)



theorem getClosest_closest_witness:
  "\<exists>J v J'. getClosest Above U32 50 True None None = Inr J \<and> closest_next range_env_ex (index_of ranges_ex) 1 J = Inr ([v], J') \<and> r_id (iv_value v) = [3]"
proof -
  let ?idx = "index_of ranges_ex"
  have t: "time_ok None" "0 \<le> (50::int)" "50 \<le> maxValue U32" "Above \<noteq> Closest" by (simp_all add: time_ok_def MAX_U32_def)
  have el: "eligible True None None r" if "r \<in> set ranges_ex" for r
    using that by (auto simp: eligible_def ranges_ex_def range_ex_def arc_def)
  have vals: "set (jm_values ?idx) = (\<lambda>r. \<lparr>iv_id = Uint8ArrayKey (r_id r), iv_value = r\<rparr>) ` set ranges_ex"
    by (auto simp: index_of_def jm_values_def)
  obtain J rs J' where J: "getClosest Above U32 50 True None None = Inr J" "closest_next range_env_ex ?idx 1 J = Inr (rs, J')"
    "if \<exists>w \<in> set (jm_values ?idx). eligible True None None (iv_value w) then
       \<exists>v \<in> set (jm_values ?idx). rs = [v] \<and> eligible True None None (iv_value v) \<and> (\<forall>w \<in> set (jm_values ?idx). eligible True None None (iv_value w) \<longrightarrow>
          element_dist Above 50 (maxValue U32) (iv_value v) \<le> element_dist Above 50 (maxValue U32) (iv_value w)) else rs = []"
    using getClosest_closest [OF ranges_ex_ok t(2,3,1,4), of True None] by blast
  have "\<exists>w \<in> set (jm_values ?idx). eligible True None None (iv_value w)" using el unfolding vals by (simp add: ranges_ex_def)
  with J(3) obtain r where r: "r \<in> set ranges_ex" "rs = [\<lparr>iv_id = Uint8ArrayKey (r_id r), iv_value = r\<rparr>]"
      "\<forall>w \<in> set ranges_ex. element_dist Above 50 (maxValue U32) r \<le> element_dist Above 50 (maxValue U32) w"
    using el unfolding vals by auto
  have "element_dist Above 50 (maxValue U32) r \<le> 50" using r(3) by (auto simp: ranges_ex_def arc_def getDistance_def)
  then have "r_id r = [3]" using r(1) by (auto simp: ranges_ex_def range_ex_def arc_def getDistance_def MAX_U32_def)
  with J(1,2) r(2) show ?thesis by auto
qed

end
