(* ===== verification/CoverSet.thy ===== *)
theory CoverSet
  imports RangeSamples
begin

text \<open>
  The replicators that together cover a part of the ring: \<open>getStartAndEnd\<close> and \<open>getCoverSet\<close> of
  \<open>packages/programs/data/shared-log/src/ranges.ts\<close>, with the ways to find a starting range. The walk goes
  from range to range, to one that contains the next location or else to the closest one above it, and adds
  up the length it has passed.

  Shown here: the walk ends, for every index of well-formed ranges, and what it returns are owners of
  indexed ranges and the key it started from; the owner of the starting range is among them. And two defects
  of \<open>getAdjecentSameOwner\<close>.
\<close>

section \<open>Start and end\<close>

datatype cover_start = StartPoint int | StartKey string | NoStart

definition fetchOneFromPublicKey ::
  "nat \<Rightarrow> (range, 'm) index_env_scheme \<Rightarrow> resolution \<Rightarrow> range hashmap \<Rightarrow> string \<Rightarrow> time_option option \<Rightarrow> (query_error + range option) option" where
  "fetchOneFromPublicKey fuel E res index hashcode time =
     fbind (Some (fetchOne_scan E index (new_scan (QueryList [StateFieldQuery [''hash''] (StringMatch hashcode Exact False)]) []))) (\<lambda>node.
       case node of
         None \<Rightarrow> Some (Inr None)
       | Some r \<Rightarrow>
           (case time of
              Some t \<Rightarrow>
                if \<not> isMatured r (t_now t) (roleAgeLimit t) then
                  fbind (fetchOneClosest fuel E res index (start1 r) False False time) (\<lambda>found.
                    Some (Inr (case found of Some m \<Rightarrow> Some m | None \<Rightarrow> Some r)))
                else Some (Inr (Some r))
            | None \<Rightarrow> Some (Inr (Some r))))"

text \<open>The starting range, if any, with its location; \<open>rnd\<close> is the random point that is used without a starting point.\<close>

definition start_node ::
  "nat \<Rightarrow> (range, 'm) index_env_scheme \<Rightarrow> resolution \<Rightarrow> range hashmap \<Rightarrow> cover_start \<Rightarrow> int \<Rightarrow> time_option option \<Rightarrow>
     (query_error + range option \<times> int) option" where
  "start_node fuel E res peers start rnd time =
     (let nodeFromPoint = (\<lambda>point. fbind (fetchOneClosest fuel E res peers point False True time) (\<lambda>node. Some (Inr (node, point)))) in
      case start of
        StartKey key \<Rightarrow>
          fbind (fetchOneFromPublicKey fuel E res peers key time) (\<lambda>node.
            case node of None \<Rightarrow> nodeFromPoint rnd | Some r \<Rightarrow> Some (Inr (Some r, start1 r)))
      | StartPoint point \<Rightarrow> nodeFromPoint point
      | NoStart \<Rightarrow> nodeFromPoint rnd)"

definition getStartAndEnd ::
  "nat \<Rightarrow> (range, 'm) index_env_scheme \<Rightarrow> resolution \<Rightarrow> range hashmap \<Rightarrow> cover_start \<Rightarrow> int \<Rightarrow> int \<Rightarrow> time_option option \<Rightarrow>
     (query_error + range option \<times> int \<times> int) option" where
  "getStartAndEnd fuel E res peers start widthToCover rnd time =
     fbind (start_node fuel E res peers start rnd time) (\<lambda>(node, startLocation).
       case node of
         None \<Rightarrow> Some (Inr (None, 0, 0))
       | Some startNode \<Rightarrow>
           let endLocation = js_mod (startLocation + widthToCover) (maxValue res);
               distance = (if start1 startNode < startLocation then maxValue res - startLocation + start1 startNode
                           else start1 startNode - startLocation)
           in if \<not> contains startNode startLocation \<and> mode startNode = Strict \<and> distance > widthToCover
              then Some (Inr (None, 0, 0))
              else Some (Inr (Some startNode, startLocation, endLocation)))"

fun divRound :: "resolution \<Rightarrow> int \<Rightarrow> int \<Rightarrow> int" where
  "divRound U32 a b = round_div a b"
| "divRound U64 a b = divRoundU64 a b"

definition minimumWidthToCover :: "resolution \<Rightarrow> int \<Rightarrow> int" where
  "minimumWidthToCover res minReplicas = divRound res (maxValue res) minReplicas"

section \<open>The walk\<close>

record cover =
  cv_current :: range
  cv_ret :: "string jsset"
  cv_wrappedOnce :: bool
  cv_covered :: int
  cv_maturedCovered :: int
  cv_next :: int

definition addLength :: "int \<Rightarrow> int \<Rightarrow> cover \<Rightarrow> cover" where
  "addLength mx location c =
     (if end2 (cv_current c) < location \<or> wrapped (cv_current c)
      then c\<lparr>cv_wrappedOnce := True, cv_covered := cv_covered c + (mx - location) + end2 (cv_current c)\<rparr>
      else c\<lparr>cv_covered := cv_covered c + (end1 (cv_current c) - location)\<rparr>)"

definition matured_at :: "int \<Rightarrow> int \<Rightarrow> time_option" where
  "matured_at now roleAge = \<lparr>roleAgeLimit = roleAge, t_matured = True, t_now = now\<rparr>"

definition resolveNextContaining ::
  "(range, 'm) index_env_scheme \<Rightarrow> resolution \<Rightarrow> range hashmap \<Rightarrow> int \<Rightarrow> int \<Rightarrow> int \<Rightarrow> query_error + range option" where
  "resolveNextContaining E res peers now nextLocation roleAge =
     bind_sum (createContainingPointQuery res [nextLocation] (Some (matured_at now roleAge))) (\<lambda>q.
       fetchOne_scan E peers (new_scan q [\<lparr>s_key = [''end2''], s_direction = DESC\<rparr>]))"

definition resolveNextAbove ::
  "(range, 'm) index_env_scheme \<Rightarrow> resolution \<Rightarrow> range hashmap \<Rightarrow> int \<Rightarrow> int \<Rightarrow> int \<Rightarrow> query_error + range option" where
  "resolveNextAbove E res peers now nextLocation roleAge =
     bind_sum (getClosest Above res nextLocation True None (Some (matured_at now roleAge))) (\<lambda>J. fetchOne_closest E peers J)"

definition resolveNext ::
  "(range, 'm) index_env_scheme \<Rightarrow> resolution \<Rightarrow> range hashmap \<Rightarrow> int \<Rightarrow> int \<Rightarrow> int \<Rightarrow> query_error + range option \<times> bool" where
  "resolveNext E res peers now nextLocation roleAge =
     bind_sum (resolveNextContaining E res peers now nextLocation roleAge) (\<lambda>containing.
       if containing \<noteq> None then Inr (containing, True)
       else bind_sum (resolveNextAbove E res peers now nextLocation roleAge) (\<lambda>above. Inr (above, False)))"

text \<open>The candidate of one round, with whether it contains the location and whether it is matured.\<close>

definition next_candidate ::
  "(range, 'm) index_env_scheme \<Rightarrow> resolution \<Rightarrow> range hashmap \<Rightarrow> int \<Rightarrow> int \<Rightarrow> int \<Rightarrow> query_error + (range option \<times> bool) \<times> bool" where
  "next_candidate E res peers now nextLocation roleAge =
     bind_sum (resolveNext E res peers now nextLocation roleAge) (\<lambda>c.
       if fst c \<noteq> None then Inr (c, True)
       else bind_sum (resolveNext E res peers now nextLocation 0) (\<lambda>c'. Inr (c', False)))"

text \<open>What a round does with its candidate: the state and whether the loop is left.\<close>

definition cover_advance :: "int \<Rightarrow> int \<Rightarrow> int \<Rightarrow> bool \<Rightarrow> range \<Rightarrow> bool \<Rightarrow> bool \<Rightarrow> cover \<Rightarrow> bool \<times> cover" where
  "cover_advance mx widthToCover endLocation endIsWrapped candidate containing mat c =
     (let lst = cv_current c;
          distanceBefore = cv_covered c;
          c1 = addLength mx (cv_next c) (c\<lparr>cv_current := candidate\<rparr>);
          isLast = (distanceBefore < widthToCover \<and> cv_covered c1 \<ge> widthToCover);
          c2 = (if \<not> isLast \<or> containing \<or> element_dist Closest endLocation mx lst > element_dist Closest endLocation mx candidate
                then c1\<lparr>cv_ret := js_add (cv_ret c1) (r_hash candidate)\<rparr> else c1)
      in if isLast \<and> \<not> containing then (True, c2)
         else
           let c3 = (if mat then c2\<lparr>cv_maturedCovered := cv_covered c2\<rparr> else c2)
           in (False, c3\<lparr>cv_next := (if endIsWrapped \<and> \<not> cv_wrappedOnce c3 then end2 candidate else js_min (end2 candidate) endLocation)\<rparr>))"

fun cover_loop ::
  "nat \<Rightarrow> (range, 'm) index_env_scheme \<Rightarrow> resolution \<Rightarrow> range hashmap \<Rightarrow> int \<Rightarrow> int \<Rightarrow> int \<Rightarrow> int \<Rightarrow> bool \<Rightarrow> cover \<Rightarrow> (query_error + cover) option" where
  "cover_loop 0 E res peers now roleAge widthToCover endLocation endIsWrapped c = None"
| "cover_loop (Suc fuel) E res peers now roleAge widthToCover endLocation endIsWrapped c =
     (if cv_maturedCovered c < widthToCover \<and> cv_covered c \<le> maxValue res then
        fbind (Some (next_candidate E res peers now (cv_next c) roleAge)) (\<lambda>((node, containing), mat).
          case node of
            None \<Rightarrow> Some (Inr c)
          | Some candidate \<Rightarrow>
              if r_id candidate = r_id (cv_current c) then Some (Inr c)
              else
                let (leave, c') = cover_advance (maxValue res) widthToCover endLocation endIsWrapped candidate containing mat c
                in if leave then Some (Inr c')
                   else cover_loop fuel E res peers now roleAge widthToCover endLocation endIsWrapped c')
      else Some (Inr c))"

text \<open>The owners of all ranges that are not matured, at most as many as given; none without \<open>eager\<close>.\<close>

definition eager_set ::
  "(range, 'm) index_env_scheme \<Rightarrow> range hashmap \<Rightarrow> int \<Rightarrow> int \<Rightarrow> nat option \<Rightarrow> query_error + string jsset" where
  "eager_set E peers now roleAge eager =
     (case eager of
        None \<Rightarrow> Inr []
      | Some n \<Rightarrow>
          bind_sum (new_IntegerCompare [''timestamp''] (JBig (now - roleAge)) GreaterOrEqual) (\<lambda>q.
          bind_sum (scan_next E peers n (new_scan (QueryList [q]) [])) (\<lambda>(rects, _).
            Inr (fold (\<lambda>v s. js_add s (r_hash (iv_value v))) rects []))))"

definition getCoverSet ::
  "nat \<Rightarrow> (range, 'm) index_env_scheme \<Rightarrow> resolution \<Rightarrow> range hashmap \<Rightarrow> cover_start \<Rightarrow> int \<Rightarrow> int \<Rightarrow> int \<Rightarrow> nat option \<Rightarrow> int \<Rightarrow>
     (query_error + string jsset) option" where
  "getCoverSet fuel E res peers start widthToCover now roleAge eager rnd =
     fbind (getStartAndEnd fuel E res peers start widthToCover rnd (Some (matured_at now roleAge))) (\<lambda>(node, startLocation, endLocation).
     fbind (Some (eager_set E peers now roleAge eager)) (\<lambda>ret.
       case node of
         None \<Rightarrow> Some (Inr ret)
       | Some startNode \<Rightarrow>
           let c0 = addLength (maxValue res) startLocation
                 \<lparr>cv_current = startNode, cv_ret = js_add ret (r_hash startNode), cv_wrappedOnce = (end2 startNode < end1 startNode),
                  cv_covered = 0, cv_maturedCovered = 0, cv_next = end2 startNode\<rparr>
           in fbind (cover_loop fuel E res peers now roleAge widthToCover endLocation (endLocation \<le> startLocation)
                 (c0\<lparr>cv_maturedCovered := cv_covered c0\<rparr>)) (\<lambda>c.
                Some (Inr (case start of StartKey key \<Rightarrow> js_add (cv_ret c) key | _ \<Rightarrow> cv_ret c)))))"

section \<open>What the searches find\<close>

lemma maxValue_nonneg [simp]: "0 \<le> maxValue res"
  by (rule less_imp_le) simp

definition indexed :: "range hashmap \<Rightarrow> range \<Rightarrow> bool" where
  "indexed idx r \<longleftrightarrow> (\<exists>v \<in> set (jm_values idx). iv_value v = r)"

lemma indexed_ok: "range_index res E idx \<Longrightarrow> indexed idx r \<Longrightarrow> range_ok r \<and> r_res r = res"
  by (auto simp: indexed_def range_index_def)

lemma head_value_Some: "head_value xs = Some r \<Longrightarrow> \<exists>v \<in> set xs. iv_value v = r"
  by (cases xs) auto

lemma fetchOne_scan_results:
  assumes "scan_results E idx (new_scan q sorts) = Inr D"
  shows "fetchOne_scan E idx (new_scan q sorts) = Inr (head_value D)"
proof -
  have "\<exists>it. scan_next E idx 1 (new_scan q sorts) = Inr (take 1 (drop 0 D), (new_scan q sorts)\<lparr>sc_it := it\<rparr>) \<and> it_at D (0 + 1) it"
    using assms by (intro scan_next_at) (simp_all add: new_scan_def)
  then show ?thesis by (cases D) (auto simp: fetchOne_scan_def)
qed

text \<open>Sorting ranges by one of their fields never throws.\<close>

lemma sort_by_end2:
  assumes "range_env E"
  obtains D where "sort_docs E [\<lparr>s_key = [''end2''], s_direction = DESC\<rparr>] docs = Inr D" and "set D = set docs"
proof -
  have "\<exists>c. doc_cmp E [\<lparr>s_key = [''end2''], s_direction = DESC\<rparr>] a b = Inr c" for a b
    using assms by (simp add: doc_cmp_def range_env_def range_js_def Let_def)
  from sort_docs_total [OF this, of docs] that show thesis by (metis set_mset_mset)
qed

lemma containing_matured:
  assumes "range_index res E idx" and "0 \<le> p" and "p \<le> maxValue res" and "time_ok (Some t)" and "t_matured t"
  shows "\<exists>q. createContainingPointQuery res [p] (Some t) = Inr q \<and>
    queryAll E idx q = Inr (filter (\<lambda>v. contains (iv_value v) p \<and> r_timestamp (iv_value v) \<le> t_now t - roleAgeLimit t) (jm_values idx))"
proof -
  have e: "range_env E" using assms(1) by (simp add: range_index_def)
  obtain q where q: "createContainingPointQuery res [p] None = Inr (OneQuery q)" "\<And>r. plain_query E (range_js r) q \<and> (query_holds E (range_js r) q \<longleftrightarrow> contains r p)"
    using point_query [OF e, of "[p]" res] assms(2,3) by auto
  let ?t = "StateFieldQuery [''timestamp''] (IntegerCompare LessOrEqual (t_now t - roleAgeLimit t))"
  have "createContainingPointQuery res [p] (Some t) = Inr (QueryList [q, ?t])"
    using q(1) assms(4,5) by (auto simp: createContainingPointQuery_def timestamp_query)
  moreover have "queryAll E idx (QueryList [q, ?t]) = Inr (filter (\<lambda>v. \<forall>q \<in> set [q, ?t]. query_holds E (range_js (iv_value v)) q) (jm_values idx))"
    by (rule range_queryAll [OF assms(1)]) (use q(2) in \<open>auto simp: range_queries [OF e]\<close>)
  ultimately show ?thesis using q(2) by (simp add: range_queries [OF e])
qed

lemma time_matured: "0 \<le> now - roleAge \<Longrightarrow> now - roleAge \<le> MAX_U64 \<Longrightarrow> time_ok (Some (matured_at now roleAge)) \<and> t_matured (matured_at now roleAge)"
  by (simp add: time_ok_def matured_at_def)

lemma resolveNextContaining_finds:
  assumes "range_index res E idx" and "0 \<le> p" and "p \<le> maxValue res" and "0 \<le> now - roleAge" and "now - roleAge \<le> MAX_U64"
  shows "\<exists>c. resolveNextContaining E res idx now p roleAge = Inr c \<and> (\<forall>r. c = Some r \<longrightarrow> indexed idx r \<and> contains r p)"
proof -
  have e: "range_env E" using assms(1) by (simp add: range_index_def)
  let ?t = "matured_at now roleAge"
  let ?docs = "filter (\<lambda>v. contains (iv_value v) p \<and> r_timestamp (iv_value v) \<le> t_now ?t - roleAgeLimit ?t) (jm_values idx)"
  obtain q where q: "createContainingPointQuery res [p] (Some ?t) = Inr q" "queryAll E idx q = Inr ?docs"
    using containing_matured [OF assms(1-3), of ?t] time_matured [OF assms(4,5)] by auto
  obtain D where D: "sort_docs E [\<lparr>s_key = [''end2''], s_direction = DESC\<rparr>] ?docs = Inr D" "set D = set ?docs"
    by (rule sort_by_end2 [OF e, of ?docs])
  have "scan_results E idx (new_scan q [\<lparr>s_key = [''end2''], s_direction = DESC\<rparr>]) = Inr D"
    using q(2) D(1) by (simp add: scan_results_def new_scan_def)
  from fetchOne_scan_results [OF this] show ?thesis
    using q(1) D(2) head_value_Some [of D] by (fastforce simp: resolveNextContaining_def indexed_def)
qed

lemma resolveNextAbove_finds:
  assumes "range_index res E idx" and "0 \<le> p" and "p \<le> maxValue res" and "0 \<le> now - roleAge" and "now - roleAge \<le> MAX_U64"
  shows "\<exists>c. resolveNextAbove E res idx now p roleAge = Inr c \<and> (\<forall>r. c = Some r \<longrightarrow> indexed idx r \<and> 0 < width r)"
proof -
  let ?el = "eligible True None (Some (matured_at now roleAge))"
  have t: "time_ok (Some (matured_at now roleAge))" using time_matured [OF assms(4,5)] ..
  obtain J rs J' where J: "getClosest Above res p True None (Some (matured_at now roleAge)) = Inr J" "closest_next E idx 1 J = Inr (rs, J')"
      "(\<exists>v \<in> set (jm_values idx). rs = [v] \<and> ?el (iv_value v)) \<or> rs = []"
    using getClosest_closest [OF assms(1-3) t, of Above True None] by (auto split: if_splits)
  then have "resolveNextAbove E res idx now p roleAge = Inr (head_value rs)" by (simp add: resolveNextAbove_def fetchOne_closest_def)
  moreover have "indexed idx r \<and> 0 < width r" if "head_value rs = Some r" for r
    using J(3) that by (auto simp: indexed_def eligible_def)
  ultimately show ?thesis by blast
qed

lemma contains_width: "range_ok r \<Longrightarrow> contains r p \<Longrightarrow> 0 < width r"
  by (auto simp: range_ok_def contains_def)

lemma next_candidate_finds:
  assumes "range_index res E idx" and "0 \<le> p" and "p \<le> maxValue res" and "0 \<le> roleAge" and "0 \<le> now - roleAge" and "now \<le> MAX_U64"
  shows "\<exists>c b m. next_candidate E res idx now p roleAge = Inr ((c, b), m) \<and> (\<forall>r. c = Some r \<longrightarrow> indexed idx r \<and> 0 < width r)"
proof -
  have one: "\<exists>c b. resolveNext E res idx now p age = Inr (c, b) \<and> (\<forall>r. c = Some r \<longrightarrow> indexed idx r \<and> 0 < width r)"
    if age: "0 \<le> now - age" "now - age \<le> MAX_U64" for age
  proof -
    obtain c where c: "resolveNextContaining E res idx now p age = Inr c" "\<forall>r. c = Some r \<longrightarrow> indexed idx r \<and> contains r p"
      using resolveNextContaining_finds [OF assms(1-3) age] by blast
    obtain a where a: "resolveNextAbove E res idx now p age = Inr a" "\<forall>r. a = Some r \<longrightarrow> indexed idx r \<and> 0 < width r"
      using resolveNextAbove_finds [OF assms(1-3) age] by blast
    show ?thesis
    proof (cases c)
      case None
      with c(1) a show ?thesis by (intro exI [of _ a] exI [of _ False]) (simp add: resolveNext_def)
    next
      case (Some r)
      moreover from this have "0 < width r" using c(2) contains_width indexed_ok [OF assms(1)] by blast
      ultimately show ?thesis using c by (intro exI [of _ c] exI [of _ True]) (simp add: resolveNext_def)
    qed
  qed
  obtain c b where c: "resolveNext E res idx now p roleAge = Inr (c, b)" "\<forall>r. c = Some r \<longrightarrow> indexed idx r \<and> 0 < width r"
    using one [of roleAge] assms(4-6) by auto
  obtain d e where d: "resolveNext E res idx now p 0 = Inr (d, e)" "\<forall>r. d = Some r \<longrightarrow> indexed idx r \<and> 0 < width r"
    using one [of 0] assms(4-6) by auto
  show ?thesis using c d by (cases "c = None") (auto simp: next_candidate_def)
qed

section \<open>The walk ends\<close>

text \<open>A round is stuck when its candidate is the range it is at. A round that is not stuck adds to the length, except
  for a candidate that ends at the location: then the next one is at the same location and stuck, or at the
  end location. So three rounds cannot pass without progress.\<close>

definition stuck :: "(range, 'm) index_env_scheme \<Rightarrow> resolution \<Rightarrow> range hashmap \<Rightarrow> int \<Rightarrow> int \<Rightarrow> cover \<Rightarrow> bool" where
  "stuck E res idx now roleAge c \<longleftrightarrow>
     (\<exists>r b m. next_candidate E res idx now (cv_next c) roleAge = Inr ((Some r, b), m) \<and> r_id r = r_id (cv_current c))"

definition rounds :: "(range, 'm) index_env_scheme \<Rightarrow> resolution \<Rightarrow> range hashmap \<Rightarrow> int \<Rightarrow> int \<Rightarrow> int \<Rightarrow> cover \<Rightarrow> nat" where
  "rounds E res idx now roleAge endLocation c =
     3 * nat (maxValue res + 1 - cv_covered c) + (if stuck E res idx now roleAge c then 0 else if cv_next c = endLocation then 1 else 2)"

lemma addLength_simps [simp]:
  "cv_current (addLength mx l c) = cv_current c" "cv_ret (addLength mx l c) = cv_ret c" "cv_next (addLength mx l c) = cv_next c"
  by (simp_all add: addLength_def)

lemma addLength_progress:
  assumes "range_ok (cv_current c)" and "0 < width (cv_current c)" and "l \<le> maxValue (r_res (cv_current c))"
  shows "cv_covered c < cv_covered (addLength (maxValue (r_res (cv_current c))) l c) \<or>
    cv_covered c = cv_covered (addLength (maxValue (r_res (cv_current c))) l c) \<and> end2 (cv_current c) = l"
  using assms by (auto simp: addLength_def range_ok_def wrapped_def)

lemma advance_simps:
  assumes "cover_advance mx w e ew r b m c = (leave, c')"
  shows "cv_covered c' = cv_covered (addLength mx (cv_next c) (c\<lparr>cv_current := r\<rparr>)) \<and> cv_current c' = r \<and>
    set (cv_ret c) \<subseteq> set (cv_ret c') \<and> set (cv_ret c') \<subseteq> insert (r_hash r) (set (cv_ret c)) \<and>
    (\<not> leave \<longrightarrow> cv_next c' = end2 r \<or> cv_next c' = js_min (end2 r) e)"
  using assms by (auto simp: cover_advance_def Let_def split: if_splits)

lemma advance_rounds:
  assumes "cover_advance (maxValue res) w e ew r b m c = (False, c')" and "range_ok r" and "r_res r = res" and "0 < width r"
    and "cv_next c \<le> maxValue res" and "cv_covered c \<le> maxValue res" and "\<not> stuck E res idx now roleAge c"
    and "next_candidate E res idx now (cv_next c) roleAge = Inr ((Some r, b), m)"
  shows "rounds E res idx now roleAge e c' < rounds E res idx now roleAge e c"
proof -
  note a = advance_simps [OF assms(1)]
  have p: "cv_covered c < cv_covered c' \<or> cv_covered c = cv_covered c' \<and> end2 r = cv_next c"
    using addLength_progress [of "c\<lparr>cv_current := r\<rparr>" "cv_next c"] assms(2-5) a by auto
  then show ?thesis
  proof
    assume "cv_covered c < cv_covered c'"
    then have "nat (maxValue res + 1 - cv_covered c') < nat (maxValue res + 1 - cv_covered c)" using assms(6) by linarith
    then show ?thesis unfolding rounds_def by (cases "stuck E res idx now roleAge c'"; cases "stuck E res idx now roleAge c") (simp_all only: if_True if_False, auto)
  next
    assume z: "cv_covered c = cv_covered c' \<and> end2 r = cv_next c"
    then consider "cv_next c' = cv_next c" | "cv_next c' = e" "e \<noteq> cv_next c"
      using a by (cases "e = cv_next c") (auto simp: js_min_def split: if_splits)
    then show ?thesis
    proof cases
      case 1
      then have "stuck E res idx now roleAge c'" using assms(8) a by (simp add: stuck_def)
      then show ?thesis using z assms(7) by (simp add: rounds_def)
    next
      case 2
      then show ?thesis using z assms(7) by (simp add: rounds_def)
    qed
  qed
qed

lemma cover_loop_returns:
  assumes "range_index res E idx" and "0 \<le> roleAge" and "0 \<le> now - roleAge" and "now \<le> MAX_U64" and "0 \<le> e" and "e \<le> maxValue res"
  shows "0 \<le> cv_next c \<Longrightarrow> cv_next c \<le> maxValue res \<Longrightarrow> rounds E res idx now roleAge e c < fuel \<Longrightarrow>
    \<exists>c'. cover_loop fuel E res idx now roleAge w e ew c = Some (Inr c') \<and> set (cv_ret c) \<subseteq> set (cv_ret c') \<and>
      set (cv_ret c') \<subseteq> set (cv_ret c) \<union> {r_hash r | r. indexed idx r}"
proof (induction fuel arbitrary: c)
  case (Suc fuel)
  obtain node b m where n: "next_candidate E res idx now (cv_next c) roleAge = Inr ((node, b), m)"
    "\<forall>r. node = Some r \<longrightarrow> indexed idx r \<and> 0 < width r"
    using next_candidate_finds [OF assms(1) Suc.prems(1,2) assms(2-4)] by blast
  show ?case
  proof (cases "cv_maturedCovered c < w \<and> cv_covered c \<le> maxValue res \<and> (\<exists>r. node = Some r \<and> r_id r \<noteq> r_id (cv_current c))")
    case False
    then show ?thesis using n by (auto split: option.splits)
  next
    case True
    then obtain r where r: "node = Some r" "r_id r \<noteq> r_id (cv_current c)" by blast
    then have ok: "indexed idx r" "range_ok r" "r_res r = res" "0 < width r" using n(2) indexed_ok [OF assms(1)] by auto
    obtain leave c' where a: "cover_advance (maxValue res) w e ew r b m c = (leave, c')" by force
    note as = advance_simps [OF a]
    have ret: "set (cv_ret c) \<subseteq> set (cv_ret c')" "set (cv_ret c') \<subseteq> set (cv_ret c) \<union> {r_hash r | r. indexed idx r}" using as ok(1) by auto
    show ?thesis
    proof (cases leave)
      case True': True
      then show ?thesis using True r n(1) a ret by auto
    next
      case False
      have st: "\<not> stuck E res idx now roleAge c" using n(1) r by (simp add: stuck_def)
      have "rounds E res idx now roleAge e c' < rounds E res idx now roleAge e c"
        by (rule advance_rounds [OF _ ok(2-4) Suc.prems(2) _ st]) (use a False n(1) r True in auto)
      moreover have "0 \<le> cv_next c'" "cv_next c' \<le> maxValue res" using as False ok(2,3) assms(5,6) by (auto simp: js_min_def range_ok_def)
      ultimately obtain c'' where "cover_loop fuel E res idx now roleAge w e ew c' = Some (Inr c'')" "set (cv_ret c') \<subseteq> set (cv_ret c'')"
          "set (cv_ret c'') \<subseteq> set (cv_ret c') \<union> {r_hash r | r. indexed idx r}"
        using Suc.IH [of c'] Suc.prems(3) by auto
      then show ?thesis using True False r n(1) a ret by auto
    qed
  qed
qed simp

section \<open>The start\<close>

lemma fetchOneClosest_finds:
  assumes "range_index res E idx" and "0 \<le> p" and "p \<le> maxValue res" and "time_ok (Some t)" and "t_matured t" and "2 \<le> fuel"
  shows "\<exists>c. fetchOneClosest fuel E res idx p sb sa (Some t) = Some (Inr c) \<and> (\<forall>r. c = Some r \<longrightarrow> indexed idx r)"
proof -
  obtain f where f: "fuel = Suc (Suc f)" using assms(6) by (metis Suc_le_D numeral_2_eq_2 Suc_le_mono)
  let ?D = "filter (\<lambda>v. contains (iv_value v) p \<and> r_timestamp (iv_value v) \<le> t_now t - roleAgeLimit t) (jm_values idx)"
  obtain q where q: "createContainingPointQuery res [p] (Some t) = Inr q" "queryAll E idx q = Inr ?D"
    using containing_matured [OF assms(1-5)] by blast
  obtain B A where BA: "getClosest Below res p sb None (Some t) = Inr B" "getClosest Above res p sa None (Some t) = Inr A"
      "join_fresh (join_fresh (scan_fresh E idx)) (joinIterator [B, A] p Closest res)"
    and rest: "set_mset (join_rest (join_rest (scan_rest E idx)) (joinIterator [B, A] p Closest res)) =
        {v \<in> set (jm_values idx). eligible sb None (Some t) (iv_value v) \<or> eligible sa None (Some t) (iv_value v)}"
    by (rule around_fresh [OF assms(1-4)])
  let ?J = "joinIterator [B, A] p Closest res"
  have "scan_results E idx (new_scan q []) = Inr ?D" using q(2) by (simp add: scan_results_def new_scan_def sort_docs_def)
  from scan_next_at [OF this, of 0 1] obtain it where it: "scan_next E idx 1 (new_scan q []) = Inr (take 1 ?D, (new_scan q [])\<lparr>sc_it := it\<rparr>)" "it_at ?D 1 it"
    by (auto simp: new_scan_def)
  obtain rs J' where J': "around_next E idx 1 ?J = Inr (rs, J')" "join_rest (join_rest (scan_rest E idx)) ?J = mset rs + join_rest (join_rest (scan_rest E idx)) J'"
      "rs = [] \<longrightarrow> around_done J' = Some True"
    using around.next_ok [OF around.fresh_ok [OF BA(3)], of 1] by auto
  have in_idx: "set rs \<subseteq> set (jm_values idx)" using rest unfolding J'(2) by auto
  have nd: "either_done (Inr ?J) \<noteq> Some True" using around.fresh_dn [OF BA(3)] by simp
  have "fetchOneClosest fuel E res idx p sb sa (Some t) = Some (Inr (head_value (if ?D = [] then rs else take 1 ?D)))"
  proof (cases ?D)
    case Nil
    then have "it_done it = Some True" using it(2) by (simp add: it_at_def)
    moreover have "rs \<noteq> [] \<or> around_done J' = Some True" using J'(3) by blast
    ultimately show ?thesis using Nil q(1) BA(1,2) it(1) J'(1) nd
      by (auto simp: fetchOneClosest_def getClosestAroundOrContaining_def f Let_def scan_done_def new_scan_def iterate_def neq_Nil_conv)
  next
    case (Cons v vs)
    then show ?thesis using q(1) BA(1,2) it(1)
      by (auto simp: fetchOneClosest_def getClosestAroundOrContaining_def f Let_def scan_done_def new_scan_def iterate_def)
  qed
  moreover have "indexed idx r" if "head_value (if ?D = [] then rs else take 1 ?D) = Some r" for r
    using head_value_Some [OF that] in_idx by (auto simp: indexed_def split: if_splits dest!: in_set_takeD)
  ultimately show ?thesis by blast
qed

lemma fetchOneFromPublicKey_finds:
  assumes "range_index res E idx" and "time_ok (Some t)" and "t_matured t" and "2 \<le> fuel"
  shows "\<exists>c. fetchOneFromPublicKey fuel E res idx key (Some t) = Some (Inr c) \<and> (\<forall>r. c = Some r \<longrightarrow> indexed idx r)"
proof -
  have e: "range_env E" using assms(1) by (simp add: range_index_def)
  let ?q = "QueryList [StateFieldQuery [''hash''] (StringMatch key Exact False)]"
  let ?D = "filter (\<lambda>v. r_hash (iv_value v) = key) (jm_values idx)"
  have "queryAll E idx ?q = Inr ?D"
    using range_queryAll [OF assms(1), of ?q "[StateFieldQuery [''hash''] (StringMatch key Exact False)]"] by (simp add: range_queries [OF e])
  then have "scan_results E idx (new_scan ?q []) = Inr ?D" by (simp add: scan_results_def new_scan_def sort_docs_def)
  note fetch = fetchOne_scan_results [OF this]
  show ?thesis
  proof (cases "head_value ?D")
    case None
    then show ?thesis using fetch by (simp add: fetchOneFromPublicKey_def)
  next
    case (Some r)
    then have r: "indexed idx r" using head_value_Some [of ?D r] by (auto simp: indexed_def)
    have "range_ok r" "r_res r = res" using indexed_ok [OF assms(1) r] by auto
    then have "0 \<le> start1 r" "start1 r \<le> maxValue res" by (auto simp: range_ok_def)
    from fetchOneClosest_finds [OF assms(1) this assms(2-4), of False False] obtain c where
      c: "fetchOneClosest fuel E res idx (start1 r) False False (Some t) = Some (Inr c)" "\<forall>r. c = Some r \<longrightarrow> indexed idx r" by blast
    then show ?thesis using fetch Some r
      by (cases "isMatured r (t_now t) (roleAgeLimit t)") (auto simp: fetchOneFromPublicKey_def split: option.splits)
  qed
qed

definition start_ok :: "resolution \<Rightarrow> cover_start \<Rightarrow> int \<Rightarrow> bool" where
  "start_ok res start rnd \<longleftrightarrow> 0 \<le> rnd \<and> rnd \<le> maxValue res \<and> (\<forall>p. start = StartPoint p \<longrightarrow> 0 \<le> p \<and> p \<le> maxValue res)"

lemma start_node_finds:
  assumes "range_index res E idx" and "time_ok (Some t)" and "t_matured t" and "2 \<le> fuel" and "start_ok res start rnd"
  shows "\<exists>node l. start_node fuel E res idx start rnd (Some t) = Some (Inr (node, l)) \<and> 0 \<le> l \<and> l \<le> maxValue res \<and> (\<forall>r. node = Some r \<longrightarrow> indexed idx r)"
proof -
  have point: "\<exists>node. fbind (fetchOneClosest fuel E res idx p False True (Some t)) (\<lambda>node. Some (Inr (node, p))) = Some (Inr (node, p)) \<and>
      (\<forall>r. node = Some r \<longrightarrow> indexed idx r)" if "0 \<le> p" "p \<le> maxValue res" for p
    using fetchOneClosest_finds [OF assms(1) that(1) that(2) assms(2-4), of False True] by auto
  show ?thesis
  proof (cases start)
    case (StartKey key)
    obtain c where c: "fetchOneFromPublicKey fuel E res idx key (Some t) = Some (Inr c)" "\<forall>r. c = Some r \<longrightarrow> indexed idx r"
      using fetchOneFromPublicKey_finds [OF assms(1-4)] by blast
    show ?thesis
    proof (cases c)
      case None
      with StartKey c(1) point [of rnd] assms(5) show ?thesis by (auto simp: start_node_def start_ok_def)
    next
      case (Some r)
      moreover from this have "range_ok r" "r_res r = res" using indexed_ok [OF assms(1)] c(2) by auto
      ultimately show ?thesis using StartKey c by (auto simp: start_node_def range_ok_def)
    qed
  next
    case (StartPoint p)
    with point [of p] assms(5) show ?thesis by (auto simp: start_node_def start_ok_def)
  next
    case NoStart
    with point [of rnd] assms(5) show ?thesis by (auto simp: start_node_def start_ok_def)
  qed
qed

lemma eager_set_owners:
  assumes "range_index res E idx" and "0 \<le> now - roleAge" and "now - roleAge \<le> MAX_U64" and "eager \<noteq> Some 0"
  shows "\<exists>ret. eager_set E idx now roleAge eager = Inr ret \<and> set ret \<subseteq> {r_hash r | r. indexed idx r}"
proof (cases eager)
  case (Some n)
  have e: "range_env E" using assms(1) by (simp add: range_index_def)
  let ?q = "StateFieldQuery [''timestamp''] (IntegerCompare GreaterOrEqual (now - roleAge))"
  let ?D = "filter (\<lambda>v. r_timestamp (iv_value v) \<ge> now - roleAge) (jm_values idx)"
  have "queryAll E idx (QueryList [?q]) = Inr ?D"
    using range_queryAll [OF assms(1), of "QueryList [?q]" "[?q]"] by (simp add: range_queries [OF e])
  then have "scan_results E idx (new_scan (QueryList [?q]) []) = Inr ?D" by (simp add: scan_results_def new_scan_def sort_docs_def)
  from scan_next_at [OF this, of 0 n] obtain it where
    "scan_next E idx n (new_scan (QueryList [?q]) []) = Inr (take n ?D, (new_scan (QueryList [?q]) [])\<lparr>sc_it := it\<rparr>)"
    using Some assms(4) by (auto simp: new_scan_def)
  moreover have "new_IntegerCompare [''timestamp''] (JBig (now - roleAge)) GreaterOrEqual = Inr ?q"
    using assms(2,3) by (simp add: new_BigUnsignedIntegerValue_def MAX_U64_def)
  moreover have fold: "set (fold (\<lambda>v s. js_add s (r_hash (iv_value v))) vs s) = set s \<union> (\<lambda>v. r_hash (iv_value v)) ` set vs" for vs s
    by (induction vs arbitrary: s) auto
  have "set (fold (\<lambda>v s. js_add s (r_hash (iv_value v))) (take n ?D) []) \<subseteq> {r_hash r | r. indexed idx r}"
    unfolding fold by (fastforce simp: indexed_def dest!: in_set_takeD)
  ultimately show ?thesis using Some by (simp add: eager_set_def)
qed (simp add: eager_set_def)

section \<open>Properties\<close>

text \<open>(C12) \<open>getCoverSet\<close> returns, for every index of well-formed ranges and every width: a bound on the rounds is three times
  the size of the ring. The result holds owners of indexed ranges only, apart from the key it was started
  with, and it holds that key and the owner of the starting range when there is one.\<close>

theorem getCoverSet_returns:
  assumes "range_index res E idx" and "0 \<le> roleAge" and "0 \<le> now - roleAge" and "now \<le> MAX_U64" and "eager \<noteq> Some 0"
    and "start_ok res start rnd" and "0 \<le> widthToCover" and "nat (3 * maxValue res + 5) < fuel"
  shows "\<exists>ret node l e. getCoverSet fuel E res idx start widthToCover now roleAge eager rnd = Some (Inr ret) \<and>
    getStartAndEnd fuel E res idx start widthToCover rnd (Some (matured_at now roleAge)) = Some (Inr (node, l, e)) \<and>
    set ret \<subseteq> {r_hash r | r. indexed idx r} \<union> {key. start = StartKey key} \<and>
    (\<forall>r. node = Some r \<longrightarrow> r_hash r \<in> set ret \<and> (\<forall>key. start = StartKey key \<longrightarrow> key \<in> set ret))"
proof -
  let ?t = "matured_at now roleAge" and ?mx = "maxValue res"
  have t: "time_ok (Some ?t)" "t_matured ?t" using time_matured [OF assms(3)] assms(2,4) by auto
  have f2: "2 \<le> fuel" using assms(8) maxValue_pos [of res] by linarith
  obtain node l where n: "start_node fuel E res idx start rnd (Some ?t) = Some (Inr (node, l))" "0 \<le> l" "l \<le> ?mx" "\<forall>r. node = Some r \<longrightarrow> indexed idx r"
    using start_node_finds [OF assms(1) t f2 assms(6)] by blast
  obtain ret where ret: "eager_set E idx now roleAge eager = Inr ret" "set ret \<subseteq> {r_hash r | r. indexed idx r}"
    using eager_set_owners [OF assms(1,3) _ assms(5)] assms(2,4) by auto
  obtain node' l' e where s: "getStartAndEnd fuel E res idx start widthToCover rnd (Some ?t) = Some (Inr (node', l', e))"
      "node' = None \<or> node' = node \<and> l' = l \<and> 0 \<le> e \<and> e \<le> ?mx"
  proof (cases node)
    case None
    with n(1) that [of None 0 0] show thesis by (simp add: getStartAndEnd_def)
  next
    case (Some r)
    have "0 \<le> js_mod (l + widthToCover) ?mx" "js_mod (l + widthToCover) ?mx \<le> ?mx"
      using n(2) assms(7) pos_mod_bound [of ?mx "l + widthToCover"] by (simp_all add: less_imp_le)
    with Some n(1) that [of None 0 0] that [of node l "js_mod (l + widthToCover) ?mx"] show thesis
      by (cases "\<not> contains r l \<and> mode r = Strict \<and>
          (if start1 r < l then ?mx - l + start1 r else start1 r - l) > widthToCover") (simp_all add: getStartAndEnd_def Let_def)
  qed
  show ?thesis
  proof (cases node')
    case None
    then show ?thesis using s(1) ret by (auto simp: getCoverSet_def)
  next
    case (Some r)
    then have r: "node = Some r" "indexed idx r" "l' = l" "0 \<le> e" "e \<le> ?mx" using s(2) n(4) by auto
    then have ok: "range_ok r" "r_res r = res" using indexed_ok [OF assms(1)] by auto
    define c0 where "c0 = addLength ?mx l \<lparr>cv_current = r, cv_ret = js_add ret (r_hash r), cv_wrappedOnce = (end2 r < end1 r),
        cv_covered = 0, cv_maturedCovered = 0, cv_next = end2 r\<rparr>"
    define c where "c = c0\<lparr>cv_maturedCovered := cv_covered c0\<rparr>"
    have next_c: "cv_next c = end2 r" "0 \<le> end2 r" "end2 r \<le> ?mx" using ok by (auto simp: c_def c0_def range_ok_def)
    have "0 \<le> cv_covered c" using ok n(2,3) by (auto simp: c_def c0_def addLength_def range_ok_def wrapped_def)
    then have "3 * nat (?mx + 1 - cv_covered c) + 2 < fuel" using assms(8) maxValue_nonneg [of res] by linarith
    then have "rounds E res idx now roleAge e c < fuel" unfolding rounds_def by (simp split: if_splits)
    from cover_loop_returns [OF assms(1-4) r(4,5) _ _ this, of widthToCover "e \<le> l"] next_c obtain c' where
      c': "cover_loop fuel E res idx now roleAge widthToCover e (e \<le> l) c = Some (Inr c')" "set (cv_ret c) \<subseteq> set (cv_ret c')"
        "set (cv_ret c') \<subseteq> set (cv_ret c) \<union> {r_hash r | r. indexed idx r}" by auto
    have "set (cv_ret c) = insert (r_hash r) (set ret)" by (simp add: c_def c0_def)
    moreover have "getCoverSet fuel E res idx start widthToCover now roleAge eager rnd =
        Some (Inr (case start of StartKey key \<Rightarrow> js_add (cv_ret c') key | _ \<Rightarrow> cv_ret c'))"
      using s(1) ret(1) Some r(3) c'(1) by (simp add: getCoverSet_def Let_def c_def c0_def)
    ultimately show ?thesis using s(1) Some c'(2,3) ret(2) r(2) by (auto split: cover_start.splits)
  qed
qed

theorem getCoverSet_returns_witness:
  "\<exists>ret. getCoverSet 13000000000 range_env_ex U32 (index_of ranges_ex) (StartKey ''a'') 1000 50 5 None 7 = Some (Inr ret) \<and> ''c'' \<notin> set ret"
proof -
  have "nat (3 * maxValue U32 + 5) < 13000000000" "start_ok U32 (StartKey ''a'') 7" by (simp_all add: MAX_U32_def start_ok_def)
  with getCoverSet_returns [OF ranges_ex_ok, of 5 50 None "StartKey ''a''" 7 1000 13000000000] obtain ret where
    "getCoverSet 13000000000 range_env_ex U32 (index_of ranges_ex) (StartKey ''a'') 1000 50 5 None 7 = Some (Inr ret)"
    "set ret \<subseteq> {r_hash r | r. indexed (index_of ranges_ex) r} \<union> {key. StartKey ''a'' = StartKey key}" by (auto simp: MAX_U64_def)
  moreover have "''c'' \<notin> {r_hash r | r. indexed (index_of ranges_ex) r} \<union> {key. StartKey ''a'' = StartKey key}"
    by (auto simp: indexed_def index_of_def jm_values_def ranges_ex_def range_ex_def arc_def)
  ultimately show ?thesis by blast
qed

text \<open>A range that starts exactly where the given one ends counts as the farthest one above, a full round away: another
  range further up is returned as the adjacent one.\<close>

theorem adjacent_skips_touching:
  "let r = (arc 10 20)\<lparr>r_id := [1]\<rparr>; touching = (arc 20 30)\<lparr>r_id := [2]\<rparr>; further = (arc 100 110)\<lparr>r_id := [3]\<rparr>; lower = (arc 2 5)\<lparr>r_id := [4]\<rparr> in
   case getAdjecentSameOwner range_env_ex U32 (index_of [touching, further, lower]) (Some (r_id r)) (start1 r) (end2 r) (r_hash r) of
     Inl _ \<Rightarrow> False
   | Inr (below, next) \<Rightarrow> below = Some lower \<and> next = Some further"
  by code_simp

text \<open>The range itself is returned as the adjacent one above: its id is compared with the one below only.\<close>

theorem adjacent_is_itself:
  "let r = (arc 10 20)\<lparr>r_id := [1]\<rparr>; overlapping = (arc 15 25)\<lparr>r_id := [2]\<rparr> in
   case getAdjecentSameOwner range_env_ex U32 (index_of [r, overlapping]) (Some (r_id r)) (start1 r) (end2 r) (r_hash r) of
     Inl _ \<Rightarrow> False
   | Inr (below, next) \<Rightarrow> below = Some overlapping \<and> next = Some r"
  by code_simp

end
