(* ===== verification/Entries.thy ===== *)
theory Entries
  imports Clock HashmapIndex
begin

text \<open>
  Entries of the log and their order: \<open>packages/log/src\<close> (\<open>entry.ts\<close>, \<open>entry-shallow.ts\<close>, \<open>entry-type.ts\<close>,
  \<open>log-sorting.ts\<close>, the functions of \<open>entry-v0.ts\<close> that decide clock, graph id and references of a new
  entry, and the static functions of \<open>log.ts\<close> on collections of entries).

  The payload and the signatures of an entry are one value of type \<open>'p\<close>; encoding, encryption and
  signing are not modelled, nor is the byte length \<open>size\<close> an entry remembers. A shallow entry is what the index stores; \<open>shallow_js\<close> is the document
  the queries see.

  Shown here: what a new entry inherits from the entries it references, the total order of
  last-write-wins, heads and tails of a collection, and what \<open>before\<close> and \<open>after\<close> select.
\<close>

section \<open>Entries\<close>

datatype EntryType = APPEND | CUT

fun entryType_u8 :: "EntryType \<Rightarrow> int" where
  "entryType_u8 APPEND = 0"
| "entryType_u8 CUT = 1"

record meta =
  m_clock :: lamportClock
  m_gid :: string
  m_next :: "string list"
  m_type :: EntryType
  m_data :: "nat list option"

record shallowEntry =
  se_hash :: string
  se_meta :: meta
  se_payloadSize :: int
  se_head :: bool

record 'p entry =
  e_hash :: "string option"
  e_meta :: meta
  e_payload :: 'p

text \<open>\<open>hash\<close> of an entry that has one; a missing hash is read as the empty string where the code reads
  \<open>undefined\<close> as falsy.\<close>

definition e_hash_str :: "'p entry \<Rightarrow> string" where
  "e_hash_str e = (case e_hash e of None \<Rightarrow> [] | Some h \<Rightarrow> h)"

definition toShallow :: "('p \<Rightarrow> int) \<Rightarrow> 'p entry \<Rightarrow> bool \<Rightarrow> shallowEntry" where
  "toShallow byteLength e isHead =
     \<lparr>se_hash = e_hash_str e, se_meta = e_meta e, se_payloadSize = byteLength (e_payload e), se_head = isHead\<rparr>"

definition meta_js :: "meta \<Rightarrow> jsval" where
  "meta_js m = JObj [
     (''clock'', JObj [(''id'', JBytes (lc_id (m_clock m))),
        (''timestamp'', JObj [(''wallTime'', JBig (wallTime (lc_timestamp (m_clock m)))),
                             (''logical'', JNum (logical (lc_timestamp (m_clock m))))])]),
     (''gid'', JStr (m_gid m)),
     (''next'', JArr (map JStr (m_next m))),
     (''type'', JNum (entryType_u8 (m_type m))),
     (''data'', case m_data m of None \<Rightarrow> JUndef | Some d \<Rightarrow> JBytes d)]"

definition shallow_js :: "shallowEntry \<Rightarrow> jsval" where
  "shallow_js e = JObj [(''hash'', JStr (se_hash e)), (''meta'', meta_js (se_meta e)),
     (''payloadSize'', JNum (se_payloadSize e)), (''head'', JBool (se_head e))]"

text \<open>The operator \<open><\<close> on numbers, bigints and strings.\<close>

fun js_num :: "jsval \<Rightarrow> int option" where
  "js_num (JNum n) = Some n"
| "js_num (JBig n) = Some n"
| "js_num _ = None"

fun string_less :: "string \<Rightarrow> string \<Rightarrow> bool" where
  "string_less s [] = False"
| "string_less [] (d # ds) = True"
| "string_less (c # cs) (d # ds) =
     ((of_char c :: nat) < of_char d \<or> c = d \<and> string_less cs ds)"

definition js_less :: "jsval \<Rightarrow> jsval \<Rightarrow> bool" where
  "js_less a b =
     (case (a, b) of
        (JStr s, JStr t) \<Rightarrow> string_less s t
      | _ \<Rightarrow> (case (js_num a, js_num b) of (Some x, Some y) \<Rightarrow> x < y | _ \<Rightarrow> False))"

text \<open>The index of shallow entries: keyed by \<open>hash\<close>, no nested stores.\<close>

definition shallow_env :: "(nat list \<Rightarrow> string) \<Rightarrow> (string \<Rightarrow> string \<Rightarrow> int) \<Rightarrow> nat \<Rightarrow> shallowEntry index_env" where
  "shallow_env b64 lc depth = \<lparr>toJs = shallow_js, indexBy = [''hash''], toBase64 = b64, nestedMatch = (\<lambda>_. False),
     nestedIterate = (\<lambda>_ _. 0), localeCompare = lc, jsLess = js_less, stack = depth\<rparr>"

section \<open>Sorting\<close>

record sortFn =
  sf_sort :: "sort list"
  sf_before :: "meta \<Rightarrow> query_error + query list"
  sf_after :: "meta \<Rightarrow> query_error + query list"

definition wall_key :: "string list" where
  "wall_key = [''meta'', ''clock'', ''timestamp'', ''wallTime'']"

definition logical_key :: "string list" where
  "logical_key = [''meta'', ''clock'', ''timestamp'', ''logical'']"

definition int_query :: "string list \<Rightarrow> Compare \<Rightarrow> meta \<Rightarrow> query_error + query list" where
  "int_query key c m =
     bind_sum (new_IntegerCompare key (JBig (wallTime (lc_timestamp (m_clock m)))) c) (\<lambda>q. Inr [q])"

definition LastWriteWins :: sortFn where
  "LastWriteWins =
     \<lparr>sf_sort = [\<lparr>s_key = wall_key, s_direction = ASC\<rparr>, \<lparr>s_key = logical_key, s_direction = ASC\<rparr>],
      sf_before = int_query wall_key Less, sf_after = int_query wall_key Greater\<rparr>"

definition FirstWriteWins :: sortFn where
  "FirstWriteWins =
     \<lparr>sf_sort = [\<lparr>s_key = wall_key, s_direction = DESC\<rparr>, \<lparr>s_key = logical_key, s_direction = DESC\<rparr>],
      sf_before = int_query wall_key Greater, sf_after = int_query wall_key Less\<rparr>"

definition SortByEntryHash :: sortFn where
  "SortByEntryHash =
     \<lparr>sf_sort = [\<lparr>s_key = [''hash''], s_direction = ASC\<rparr>],
      sf_before = int_query [''hash''] Less, sf_after = int_query [''hash''] Greater\<rparr>"

text \<open>\<open>compare\<close> of \<open>log-sorting.ts\<close>, with \<open><\<close> on the values at the keys.\<close>

fun compare_entries :: "jsval \<Rightarrow> jsval \<Rightarrow> sort list \<Rightarrow> query_error + int" where
  "compare_entries a b [] = Inr 0"
| "compare_entries a b (s # sorts) =
     bind_sum (extractFieldValue a (s_key s)) (\<lambda>av.
     bind_sum (extractFieldValue b (s_key s)) (\<lambda>bv.
       let multiplier = (case s_direction s of ASC \<Rightarrow> 1 | DESC \<Rightarrow> -1)
       in if js_less av bv then Inr (-1 * multiplier)
          else if js_less bv av then Inr (1 * multiplier)
          else compare_entries a b sorts))"

text \<open>The reversed sort of the entry index.\<close>

definition sortReversed :: "sort list \<Rightarrow> sort list" where
  "sortReversed ss = map (\<lambda>s. s\<lparr>s_direction := (case s_direction s of DESC \<Rightarrow> ASC | ASC \<Rightarrow> DESC)\<rparr>) ss"

section \<open>Clock, graph id and references of a new entry\<close>

datatype create_error =
    Next_not_before
  | Gid_with_next
  | Next_without_hash
  | Signature_encrypted_clock_not
  | Create_clock clock_error

text \<open>The clock of \<open>EntryV0.create\<close>: the one given, checked against the references, or one after all of
  them. The readings of the wall clock are \<open>wt0\<close> for the new \<open>HLC\<close>, \<open>wts i\<close> for the update with the
  reference \<open>i\<close>, and \<open>wtNow\<close> for \<open>now\<close>.\<close>

fun update_all :: "hlc \<Rightarrow> (nat \<Rightarrow> int) \<Rightarrow> nat \<Rightarrow> timestamp list \<Rightarrow> clock_error + hlc" where
  "update_all h wts i [] = Inr h"
| "update_all h wts i (t # ts) =
     bind_sum (HLC_update h (wts i) t) (\<lambda>(_, h'). update_all h' wts (Suc i) ts)"

definition create_clock ::
  "int \<Rightarrow> (nat \<Rightarrow> int) \<Rightarrow> int \<Rightarrow> nat list \<Rightarrow> bool \<Rightarrow> bool \<Rightarrow> lamportClock option \<Rightarrow> shallowEntry list \<Rightarrow> create_error + lamportClock" where
  "create_clock wt0 wts wtNow publicKey encSignatures encMeta clock nexts =
     (case clock of
        None \<Rightarrow>
          (case update_all (new_HLC wt0 0 0 0 None) wts 0 (map (\<lambda>n. lc_timestamp (m_clock (se_meta n))) nexts) of
             Inl e \<Rightarrow> Inl (Create_clock e)
           | Inr h \<Rightarrow>
               if encSignatures \<and> encMeta then Inl Signature_encrypted_clock_not
               else (case HLC_now h wtNow of
                       Inl e \<Rightarrow> Inl (Create_clock e)
                     | Inr (t, _) \<Rightarrow> Inr \<lparr>lc_id = publicKey, lc_timestamp = t\<rparr>))
      | Some c \<Rightarrow>
          if list_ex (\<lambda>n. Timestamp_compare (lc_timestamp (m_clock (se_meta n))) (lc_timestamp c) \<ge> 0) nexts
          then Inl Next_not_before else Inr c)"

text \<open>The loop over the references: their hashes, and the least graph id.\<close>

fun nexts_gid :: "shallowEntry list \<Rightarrow> string list \<Rightarrow> string option \<Rightarrow> create_error + string list \<times> string option" where
  "nexts_gid [] hashes gid = Inr (hashes, gid)"
| "nexts_gid (n # ns) hashes gid =
     (if se_hash n = [] then Inl Next_without_hash
      else nexts_gid ns (hashes @ [se_hash n])
             (Some (case gid of None \<Rightarrow> m_gid (se_meta n)
                    | Some g \<Rightarrow> if string_less (m_gid (se_meta n)) g then m_gid (se_meta n) else g)))"

definition create_meta ::
  "string option \<Rightarrow> string \<Rightarrow> EntryType option \<Rightarrow> nat list option \<Rightarrow> lamportClock \<Rightarrow> shallowEntry list \<Rightarrow> create_error + meta" where
  "create_meta gid newGid type data clock nexts =
     bind_sum
       (if length nexts > 0 then
          (case gid of
             Some (_ # _) \<Rightarrow> Inl Gid_with_next
           | _ \<Rightarrow> bind_sum (nexts_gid nexts [] None) (\<lambda>(hashes, g). Inr (hashes, case g of None \<Rightarrow> [] | Some x \<Rightarrow> x)))
        else Inr ([], case gid of Some (c # cs) \<Rightarrow> c # cs | _ \<Rightarrow> newGid))
       (\<lambda>(hashes, g). Inr \<lparr>m_clock = clock, m_gid = g, m_next = hashes,
          m_type = (case type of None \<Rightarrow> APPEND | Some t \<Rightarrow> t), m_data = data\<rparr>)"

section \<open>Heads and tails of a collection\<close>

definition findHeads :: "'p entry list \<Rightarrow> 'p entry list" where
  "findHeads entries =
     (let items = fold (\<lambda>e res. fold (\<lambda>n res. jm_set res n (e_hash_str e)) (m_next (e_meta e)) res) entries []
      in filter (\<lambda>e. \<not> jm_has items (e_hash_str e)) entries)"

text \<open>\<open>Object.keys\<close> lists string keys in the order of insertion (hashes are not array indices).\<close>

definition findUniques :: "'p entry list \<Rightarrow> 'p entry list" where
  "findUniques es = jm_values (fold (\<lambda>e res. jm_set res (e_hash_str e) e) es [])"

definition entry_compare :: "(nat list \<Rightarrow> nat list \<Rightarrow> int) \<Rightarrow> (nat list \<Rightarrow> nat list \<Rightarrow> bool) \<Rightarrow> 'p entry \<Rightarrow> 'p entry \<Rightarrow> int" where
  "entry_compare cmpBytes lessBytes a b =
     (let distance = LamportClock_compare cmpBytes (m_clock (e_meta a)) (m_clock (e_meta b))
      in if distance = 0 then (if lessBytes (lc_id (m_clock (e_meta a))) (lc_id (m_clock (e_meta b))) then -1 else 1)
         else distance)"

definition findTails :: "('p entry \<Rightarrow> 'p entry \<Rightarrow> int) \<Rightarrow> 'p entry list \<Rightarrow> 'p entry list" where
  "findTails cmp entries =
     (let hashes = map e_hash_str entries;
          nexts = concat (map (\<lambda>e. m_next (e_meta e)) entries);
          reverseIndex = (\<lambda>a. filter (\<lambda>e. a \<in> set (m_next (e_meta e))) entries);
          nullIndex = filter (\<lambda>e. m_next (e_meta e) = []) entries;
          tails = concat (map (\<lambda>a. findUniques (reverseIndex a)) (filter (\<lambda>a. a \<notin> set hashes) nexts)) @ nullIndex
      in js_sort cmp (findUniques tails))"

text \<open>\<open>findTailHashes\<close> puts every missing reference in front; \<open>reverse\<close> turns the \<open>next\<close> array of the entry
  itself around, so the entries come back changed.\<close>

fun findTailHashes_loop :: "string list \<Rightarrow> 'p entry list \<Rightarrow> string list \<Rightarrow> string list \<times> 'p entry list" where
  "findTailHashes_loop hashes [] res = (res, [])"
| "findTailHashes_loop hashes (e # es) res =
     (let next' = rev (m_next (e_meta e));
          res' = fold (\<lambda>n r. if n \<notin> set hashes then n # r else r) next' res;
          (out, es') = findTailHashes_loop hashes es res'
      in (out, e\<lparr>e_meta := (e_meta e)\<lparr>m_next := next'\<rparr>\<rparr> # es'))"

definition findTailHashes :: "'p entry list \<Rightarrow> string list \<times> 'p entry list" where
  "findTailHashes entries = findTailHashes_loop (map e_hash_str entries) entries []"

section \<open>Lemmas\<close>

lemma update_all_after:
  "update_all h wts i ts = Inr h' \<Longrightarrow> hlc_last h \<le> hlc_last h' \<and> (\<forall>t \<in> set ts. t < hlc_last h')"
proof (induction ts arbitrary: h i)
  case (Cons t ts)
  then obtain r h1 where u: "HLC_update h (wts i) t = Inr (r, h1)" and rest: "update_all h1 wts (Suc i) ts = Inr h'"
    by auto
  have "t < r" "hlc_last h < r" "hlc_last h1 = r" using HLC_update_greater [OF u] by auto
  with Cons.IH [OF rest] show ?case by auto
qed simp

lemma string_less_irrefl: "\<not> string_less s s"
  by (induction s) auto

lemma string_less_total: "string_less s t \<or> s = t \<or> string_less t s"
proof (induction s t rule: string_less.induct)
  case (3 c cs d ds)
  then show ?case by (metis linorder_neqE_nat of_char_eq_iff string_less.simps(3))
next
  case (1 s)
  then show ?case by (cases s) auto
qed auto

lemma string_less_trans: "string_less s t \<Longrightarrow> string_less t u \<Longrightarrow> string_less s u"
proof (induction s t arbitrary: u rule: string_less.induct)
  case (3 c cs d ds)
  then show ?case by (cases u) auto
next
  case (2 d ds)
  then show ?case by (cases u) auto
qed auto

lemma string_less_min:
  "\<not> string_less (if string_less a b then a else b) y \<Longrightarrow> \<not> string_less a y \<and> \<not> string_less b y"
  using string_less_trans [of a b y] string_less_trans [of a y b] string_less_total [of b y]
  by (auto split: if_splits)

lemma nexts_gid_spec:
  assumes "nexts_gid ns hs g = Inr (hs', g')"
  shows "hs' = hs @ map se_hash ns \<and>
    (\<forall>x. g = Some x \<longrightarrow> (\<exists>y. g' = Some y \<and> \<not> string_less x y)) \<and>
    (\<forall>n \<in> set ns. \<exists>y. g' = Some y \<and> \<not> string_less (m_gid (se_meta n)) y) \<and>
    (\<forall>y. g' = Some y \<longrightarrow> g = Some y \<or> y \<in> (\<lambda>n. m_gid (se_meta n)) ` set ns)"
  using assms
proof (induction ns arbitrary: hs g)
  case Nil
  then show ?case by (auto simp: string_less_irrefl)
next
  case (Cons n ns)
  let ?gn = "m_gid (se_meta n)"
  let ?g1 = "case g of None \<Rightarrow> ?gn | Some x \<Rightarrow> if string_less ?gn x then ?gn else x"
  have rest: "nexts_gid ns (hs @ [se_hash n]) (Some ?g1) = Inr (hs', g')"
    using Cons.prems by (simp split: if_splits)
  from Cons.IH [OF rest] obtain y where y: "g' = Some y" "\<not> string_less ?g1 y" by auto
  have "\<not> string_less ?gn y \<and> (\<forall>x. g = Some x \<longrightarrow> \<not> string_less x y)"
  proof (cases g)
    case None
    with y(2) show ?thesis by simp
  next
    case (Some x)
    with y(2) string_less_min [of ?gn x y] show ?thesis by simp
  qed
  moreover have "g = Some ?g1 \<or> ?g1 = ?gn" by (auto split: option.splits)
  ultimately show ?case using Cons.IH [OF rest] y(1) by auto
qed

lemma items_has:
  "jm_has (fold (\<lambda>e res. fold (\<lambda>n res. jm_set res n (e_hash_str e)) (m_next (e_meta e)) res) es m) h \<longleftrightarrow>
     jm_has m h \<or> (\<exists>e \<in> set es. h \<in> set (m_next (e_meta e)))"
proof -
  have inner: "jm_has (fold (\<lambda>n res. jm_set res n v) ns m) h \<longleftrightarrow> jm_has m h \<or> h \<in> set ns" for ns m and v :: string
    by (induction ns arbitrary: m) auto
  show ?thesis by (induction es arbitrary: m) (auto simp: inner)
qed

lemma tail_hashes_fold:
  "fold (\<lambda>n r. if n \<notin> set hashes then n # r else r) ns res = rev (filter (\<lambda>n. n \<notin> set hashes) ns) @ res"
  by (induction ns arbitrary: res) auto

lemma findTailHashes_loop_eq:
  "findTailHashes_loop hashes es res =
     (concat (map (\<lambda>e. filter (\<lambda>n. n \<notin> set hashes) (m_next (e_meta e))) (rev es)) @ res,
      map (\<lambda>e. e\<lparr>e_meta := (e_meta e)\<lparr>m_next := rev (m_next (e_meta e))\<rparr>\<rparr>) es)"
  by (induction es arbitrary: res) (simp_all add: tail_hashes_fold Let_def rev_filter)

section \<open>Properties\<close>

text \<open>(C25) A new entry comes after what it references: its clock is later than the clock of every
  reference, whether the clock was given or computed, its references are the hashes of the given
  entries in order, and its graph id is the least of theirs (a new one without references).\<close>

theorem create_entry_causal:
  assumes "create_clock wt0 wts wtNow pk encS encM clock nexts = Inr c"
    and "create_meta gid newGid ty data c nexts = Inr m"
  shows "m_clock m = c \<and> m_next m = map se_hash nexts \<and>
    (\<forall>n \<in> set nexts. lc_timestamp (m_clock (se_meta n)) < lc_timestamp c) \<and>
    (\<forall>n \<in> set nexts. \<not> string_less (m_gid (se_meta n)) (m_gid m)) \<and>
    (nexts \<noteq> [] \<longrightarrow> m_gid m \<in> (\<lambda>n. m_gid (se_meta n)) ` set nexts) \<and>
    (nexts = [] \<longrightarrow> m_gid m = (case gid of Some (x # xs) \<Rightarrow> x # xs | _ \<Rightarrow> newGid))"
proof -
  have later: "lc_timestamp (m_clock (se_meta n)) < lc_timestamp c" if n: "n \<in> set nexts" for n
  proof (cases clock)
    case None
    then obtain h t h' where "update_all (new_HLC wt0 0 0 0 None) wts 0 (map (\<lambda>n. lc_timestamp (m_clock (se_meta n))) nexts) = Inr h"
      and now: "HLC_now h wtNow = Inr (t, h')" and c: "lc_timestamp c = t"
      using assms(1) by (auto simp: create_clock_def split: sum.splits if_splits)
    then have "lc_timestamp (m_clock (se_meta n)) < hlc_last h" using update_all_after n by fastforce
    moreover have "hlc_last h < t" using now HLC_update_greater by (auto simp: HLC_now_def)
    ultimately show ?thesis by (simp add: c)
  next
    case (Some c')
    then have "c = c'" "\<not> list_ex (\<lambda>n. Timestamp_compare (lc_timestamp (m_clock (se_meta n))) (lc_timestamp c') \<ge> 0) nexts"
      using assms(1) by (auto simp: create_clock_def split: if_splits)
    with n have "Timestamp_compare (lc_timestamp (m_clock (se_meta n))) (lc_timestamp c) < 0"
      by (auto simp: list_ex_iff not_le)
    then show ?thesis using Timestamp_compare_sign by blast
  qed
  show ?thesis
  proof (cases "nexts = []")
    case True
    with assms(2) show ?thesis by (auto simp: create_meta_def split: option.splits list.splits)
  next
    case False
    then obtain hs g where ng: "nexts_gid nexts [] None = Inr (hs, g)" and m: "m_clock m = c" "m_next m = hs"
        "m_gid m = (case g of None \<Rightarrow> [] | Some x \<Rightarrow> x)"
      using assms(2) by (cases gid; auto simp: create_meta_def split: list.splits)
    obtain n0 where n0: "n0 \<in> set nexts" using False by (cases nexts) auto
    from nexts_gid_spec [OF ng] n0 obtain y where y: "g = Some y" by blast
    from nexts_gid_spec [OF ng] y m later False show ?thesis by auto
  qed
qed

definition next_ex :: "string \<Rightarrow> string \<Rightarrow> int \<Rightarrow> shallowEntry" where
  "next_ex h g t = \<lparr>se_hash = h, se_meta = \<lparr>m_clock = \<lparr>lc_id = [1], lc_timestamp = Timestamp t 0\<rparr>, m_gid = g,
     m_next = [], m_type = APPEND, m_data = None\<rparr>, se_payloadSize = 0, se_head = True\<rparr>"

theorem create_entry_causal_witness:
  "\<exists>c m. create_clock 0 (\<lambda>_. 3) 4 [9] False False None [next_ex ''h1'' ''g2'' 5, next_ex ''h2'' ''g1'' 7] = Inr c \<and>
     create_meta None ''new'' None None c [next_ex ''h1'' ''g2'' 5, next_ex ''h2'' ''g1'' 7] = Inr m \<and>
     m_gid m = ''g1'' \<and> Timestamp 7 0 < lc_timestamp c"
proof -
  let ?ns = "[next_ex ''h1'' ''g2'' 5, next_ex ''h2'' ''g1'' 7]"
  let ?c = "\<lparr>lc_id = [9], lc_timestamp = Timestamp 7 2\<rparr>"
  let ?m = "\<lparr>m_clock = ?c, m_gid = ''g1'', m_next = [''h1'', ''h2''], m_type = APPEND, m_data = None\<rparr>"
  have c: "create_clock 0 (\<lambda>_. 3) 4 [9] False False None ?ns = Inr ?c" by code_simp
  have m: "create_meta None ''new'' None None ?c ?ns = Inr ?m" by code_simp
  from create_entry_causal [OF c m] c m show ?thesis
    by (intro exI [of _ ?c] exI [of _ ?m]) (simp add: next_ex_def)
qed

text \<open>Last-write-wins orders entries by their timestamps: comparing by the sort keys is comparing the
  timestamps, and first-write-wins is the reverse order.\<close>

theorem compare_entries_timestamps:
  "compare_entries (shallow_js a) (shallow_js b) (sf_sort LastWriteWins) =
     Inr (Timestamp_compare (lc_timestamp (m_clock (se_meta a))) (lc_timestamp (m_clock (se_meta b)))) \<and>
   compare_entries (shallow_js a) (shallow_js b) (sf_sort FirstWriteWins) =
     Inr (Timestamp_compare (lc_timestamp (m_clock (se_meta b))) (lc_timestamp (m_clock (se_meta a))))"
  by (auto simp: LastWriteWins_def FirstWriteWins_def shallow_js_def meta_js_def wall_key_def logical_key_def
      js_less_def Timestamp_compare_def Let_def)

text \<open>\<open>findHeads\<close> keeps, in order, exactly the entries that no entry of the collection references.\<close>

theorem findHeads_unreferenced:
  "findHeads es = filter (\<lambda>e. \<not> (\<exists>f \<in> set es. e_hash_str e \<in> set (m_next (e_meta f)))) es"
  by (simp add: findHeads_def Let_def items_has) (simp add: jm_has_def)

text \<open>\<open>findTailHashes\<close> returns the references that are not in the collection, those of later entries
  first and each entry's in order, and as a side effect turns the reference list of every entry
  around.\<close>

theorem findTailHashes_effect:
  "findTailHashes es =
     (concat (map (\<lambda>e. filter (\<lambda>n. n \<notin> e_hash_str ` set es) (m_next (e_meta e))) (rev es)),
      map (\<lambda>e. e\<lparr>e_meta := (e_meta e)\<lparr>m_next := rev (m_next (e_meta e))\<rparr>\<rparr>) es)"
  by (simp add: findTailHashes_def findTailHashes_loop_eq)

end
