(* ===== verification/EntryIndex.thy ===== *)
theory EntryIndex
  imports Entries Cache
begin

text \<open>
  The entry index of the log, \<open>packages/log/src/entry-index.ts\<close>: the shallow entries in an index, the
  full entries in a cache and in the block store, the number of entries, and the flag \<open>head\<close> that
  every insertion and deletion keeps up to date on the entries it references.

  The index is the in-memory engine of the theory \<open>HashmapIndex\<close> on shallow entries, queried with the
  queries the code builds. The block store is the field \<open>ei_store\<close>: what \<open>get\<close> returns for a hash, as
  the entry it deserialises to; the content hash \<open>cid\<close> is an argument. Operations run to completion
  one after the other, so \<open>insertionPromises\<close> is empty between them. A throw is the left summand.

  Shown here: the head flags are right after every insertion of a new entry and after every
  deletion, the length is the number of entries in the index, reading an entry from the store makes
  \<open>has\<close> answer for entries the log does not hold, and a wrong content hash is never rejected.
\<close>

section \<open>The contract of the index\<close>

text \<open>A store of documents under a string key: what the entry index relies on.\<close>

locale keyed_store =
  fixes inv :: "'s \<Rightarrow> bool" and lookup :: "'s \<Rightarrow> string \<Rightarrow> 'd option"
    and put :: "'s \<Rightarrow> 'd \<Rightarrow> 's" and del :: "'s \<Rightarrow> string \<Rightarrow> 's" and key :: "'d \<Rightarrow> string"
  assumes inv_put: "inv s \<Longrightarrow> inv (put s d)"
    and inv_del: "inv s \<Longrightarrow> inv (del s k)"
    and lookup_put: "inv s \<Longrightarrow> lookup (put s d) = (lookup s)(key d \<mapsto> d)"
    and lookup_del: "inv s \<Longrightarrow> lookup (del s k) = (lookup s)(k := None)"
    and lookup_key: "inv s \<Longrightarrow> lookup s k = Some d \<Longrightarrow> key d = k"
begin

text \<open>Some document satisfies \<open>P\<close>; how the operations change that.\<close>

definition any :: "('d \<Rightarrow> bool) \<Rightarrow> 's \<Rightarrow> bool" where
  "any P s \<longleftrightarrow> (\<exists>k d. lookup s k = Some d \<and> P d)"

lemma replace_lookup: "inv s \<Longrightarrow> lookup s k = Some d \<Longrightarrow> key d' = key d \<Longrightarrow> lookup (put s d') = (lookup s)(k \<mapsto> d')"
  using lookup_key [of s k d] lookup_put [of s d'] by simp

lemma any_replace:
  assumes "inv s" and "lookup s k = Some d" and "key d' = key d" and "P d' = P d"
  shows "any P (put s d') = any P s"
proof
  assume "any P (put s d')"
  then obtain j x where "((lookup s)(k \<mapsto> d')) j = Some x" "P x"
    unfolding any_def replace_lookup [OF assms(1-3)] by blast
  with assms(2,4) show "any P s" unfolding any_def by (cases "j = k") auto
next
  assume "any P s"
  then obtain j x where x: "lookup s j = Some x" "P x" unfolding any_def by blast
  have "((lookup s)(k \<mapsto> d')) j = Some (if j = k then d' else x)" "P (if j = k then d' else x)"
    using x assms(2,4) by auto
  then show "any P (put s d')" unfolding any_def replace_lookup [OF assms(1-3)] by blast
qed

lemma any_insert:
  assumes "inv s" and "lookup s (key d) = None"
  shows "any P (put s d) \<longleftrightarrow> any P s \<or> P d"
proof
  assume "any P (put s d)"
  then show "any P s \<or> P d" unfolding any_def lookup_put [OF assms(1)] by (metis fun_upd_apply option.inject)
next
  assume "any P s \<or> P d"
  then show "any P (put s d)" unfolding any_def lookup_put [OF assms(1)] using assms(2)
    by (metis fun_upd_apply option.distinct(1))
qed

lemma any_delete: "inv s \<Longrightarrow> any P (del s k) \<longleftrightarrow> (\<exists>j d. j \<noteq> k \<and> lookup s j = Some d \<and> P d)"
  by (auto simp: any_def lookup_del)

end

text \<open>A cache that may forget but never makes up a value: what the entry index relies on.\<close>

locale memo_store =
  fixes inv :: "'c \<Rightarrow> bool" and live :: "'c \<Rightarrow> 'k \<Rightarrow> 'v option"
    and get :: "'c \<Rightarrow> 'k \<Rightarrow> 'e + 'v option \<times> 'c" and add :: "'c \<Rightarrow> 'k \<Rightarrow> 'v \<Rightarrow> 'e + 'c" and del :: "'c \<Rightarrow> 'k \<Rightarrow> 'c"
  assumes get_ok: "inv c \<Longrightarrow> \<exists>c'. get c k = Inr (live c' k, c') \<and> inv c' \<and> live c' \<subseteq>\<^sub>m live c"
    and add_ok: "inv c \<Longrightarrow> \<exists>c'. add c k v = Inr c' \<and> inv c' \<and> live c' \<subseteq>\<^sub>m (live c)(k \<mapsto> v)"
    and del_ok: "inv c \<Longrightarrow> inv (del c k) \<and> live (del c k) = (live c)(k := None)"
begin

text \<open>Everything remembered satisfies \<open>P\<close>.\<close>

definition coherent :: "('k \<Rightarrow> 'v \<Rightarrow> bool) \<Rightarrow> 'c \<Rightarrow> bool" where
  "coherent P c \<longleftrightarrow> inv c \<and> (\<forall>k v. live c k = Some v \<longrightarrow> P k v)"

lemma coherent_get:
  "coherent P c \<Longrightarrow> \<exists>r c'. get c k = Inr (r, c') \<and> coherent P c' \<and> (\<forall>v. r = Some v \<longrightarrow> P k v)"
  using get_ok [of c k] by (fastforce simp: coherent_def map_le_def dom_def)

lemma coherent_add: "coherent P c \<Longrightarrow> P k v \<Longrightarrow> \<exists>c'. add c k v = Inr c' \<and> coherent P c'"
proof -
  assume c: "coherent P c" and v: "P k v"
  then obtain c' where c': "add c k v = Inr c'" "inv c'" "live c' \<subseteq>\<^sub>m (live c)(k \<mapsto> v)"
    using add_ok [of c k v] by (auto simp: coherent_def)
  have "P j w" if "live c' j = Some w" for j w
  proof -
    have "((live c)(k \<mapsto> v)) j = Some w" using c'(3) that by (metis domI map_le_def)
    with c v show ?thesis by (auto simp: coherent_def split: if_splits)
  qed
  with c' show ?thesis by (auto simp: coherent_def)
qed

lemma coherent_del: "coherent P c \<Longrightarrow> coherent (\<lambda>j v. P j v \<and> j \<noteq> k) (del c k)"
  using del_ok [of c k] by (auto simp: coherent_def split: if_splits)

lemma coherent_mono: "coherent P c \<Longrightarrow> (\<And>k v. P k v \<Longrightarrow> P' k v) \<Longrightarrow> coherent P' c"
  by (auto simp: coherent_def)

end

section \<open>The index of shallow entries\<close>

definition shallow_lookup :: "shallowEntry hashmap \<Rightarrow> string \<Rightarrow> shallowEntry option" where
  "shallow_lookup idx h = map_option iv_value (jm_get idx (PStr h))"

definition shallow_ok :: "shallowEntry hashmap \<Rightarrow> bool" where
  "shallow_ok idx \<longleftrightarrow> jm_ok idx \<and>
     (\<forall>(p, v) \<in> set idx. p = PStr (se_hash (iv_value v)) \<and> iv_id v = StringKey (se_hash (iv_value v)))"

definition hash_record :: "string \<Rightarrow> query_like" where
  "hash_record k = QueryRecord (JObj [(''hash'', JStr k)])"

lemma shallow_put_eq:
  "hm_put (shallow_env b64 lc d) idx e None =
     Inr (jm_set idx (PStr (se_hash e)) \<lparr>iv_id = StringKey (se_hash e), iv_value = e\<rparr>)"
  by (simp add: hm_put_def shallow_env_def shallow_js_def)

lemma shallow_get_eq:
  "hm_get (shallow_env b64 lc d) idx (StringKey k) = map_option (\<lambda>e. (StringKey k, e)) (shallow_lookup idx k)"
  by (simp add: hm_get_def shallow_lookup_def option.map_comp comp_def)

lemma shallow_del_eq:
  assumes "shallow_ok idx"
  shows "hm_del (shallow_env b64 lc d) idx (hash_record k) =
    Inr (case shallow_lookup idx k of None \<Rightarrow> ([], idx) | Some e \<Rightarrow> ([StringKey k], jm_delete idx (PStr k)))"
proof -
  have q: "queryAll (shallow_env b64 lc d) idx (hash_record k) =
      Inr (case jm_get idx (PStr k) of Some doc \<Rightarrow> [doc] | None \<Rightarrow> [])"
    by (simp add: queryAll_def hash_record_def id_lookup_def shallow_env_def)
  show ?thesis
  proof (cases "jm_get idx (PStr k)")
    case None
    with q show ?thesis by (simp add: hm_del_def shallow_lookup_def)
  next
    case (Some v)
    then have "iv_id v = StringKey k"
      using assms by (auto simp: shallow_ok_def dest!: map_of_SomeD)
    with q Some show ?thesis by (simp add: hm_del_def shallow_lookup_def jm_has_def)
  qed
qed

interpretation shallow_store: keyed_store shallow_ok shallow_lookup
    "\<lambda>idx e. projr (hm_put (shallow_env b64 lc d) idx e None)"
    "\<lambda>idx k. snd (projr (hm_del (shallow_env b64 lc d) idx (hash_record k)))" se_hash
  for b64 :: "nat list \<Rightarrow> string" and lc :: "string \<Rightarrow> string \<Rightarrow> int" and d :: nat
proof
  fix idx :: "shallowEntry hashmap" and e k e'
  assume ok: "shallow_ok idx"
  show "shallow_ok (projr (hm_put (shallow_env b64 lc d) idx e None))"
    using ok set_jm_set_subset [of idx "PStr (se_hash e)"] by (fastforce simp: shallow_put_eq shallow_ok_def)
  show "shallow_ok (snd (projr (hm_del (shallow_env b64 lc d) idx (hash_record k))))"
    using ok by (auto simp: shallow_del_eq shallow_ok_def set_jm_delete split: option.splits)
  show "shallow_lookup (projr (hm_put (shallow_env b64 lc d) idx e None)) = (shallow_lookup idx)(se_hash e \<mapsto> e)"
    by (auto simp: shallow_put_eq shallow_lookup_def fun_eq_iff)
  show "shallow_lookup (snd (projr (hm_del (shallow_env b64 lc d) idx (hash_record k)))) = (shallow_lookup idx)(k := None)"
    using ok by (auto simp: shallow_del_eq shallow_lookup_def fun_eq_iff split: option.splits)
  show "shallow_lookup idx k = Some e' \<Longrightarrow> se_hash e' = k"
    using ok by (auto simp: shallow_lookup_def shallow_ok_def dest!: map_of_SomeD)
qed

section \<open>State\<close>

datatype ei_error =
    Query_error query_error
  | Cache_error cache_error
  | Missing_hash
  | Head_hash_mismatch
  | Failed_to_load_entry
  | Shallow_hash_mismatch
  | Not_initialized

fun lift_query :: "query_error + 'a \<Rightarrow> ei_error + 'a" where
  "lift_query (Inl e) = Inl (Query_error e)"
| "lift_query (Inr a) = Inr a"

fun lift_cache :: "cache_error + 'a \<Rightarrow> ei_error + 'a" where
  "lift_cache (Inl e) = Inl (Cache_error e)"
| "lift_cache (Inr a) = Inr a"

text \<open>What the index is given: the environment of its index engine, the sort, the content hash, the
  size of a payload, and whether \<open>onGidRemoved\<close> is set.\<close>

record 'p ei_env =
  ee_index :: "shallowEntry index_env"
  ee_sort :: sortFn
  ee_cid :: "'p entry \<Rightarrow> string"
  ee_byteLength :: "'p \<Rightarrow> int"
  ee_onGidRemoved :: bool

record 'p entryIndex =
  ei_index :: "shallowEntry hashmap"
  ei_cache :: "(string, 'p entry) cache"
  ei_length :: int
  ei_initialized :: bool
  ei_store :: "(string, 'p entry) jsmap"
  ei_gidRemoved :: "string list list"

definition ENTRY_CACHE_MAX_SIZE :: int where "ENTRY_CACHE_MAX_SIZE = 10"

definition new_EntryIndex :: "shallowEntry hashmap \<Rightarrow> (string, 'p entry) jsmap \<Rightarrow> 'p entryIndex" where
  "new_EntryIndex idx store =
     \<lparr>ei_index = idx,
      ei_cache = \<lparr>cache_map = [], cache_deleted = [], cache_list = [], currentSize = 0,
                  cache_max = ENTRY_CACHE_MAX_SIZE, cache_ttl = None\<rparr>,
      ei_length = 0, ei_initialized = False, ei_store = store, ei_gidRemoved = []\<rparr>"

section \<open>Reading\<close>

definition exactly :: "string list \<Rightarrow> string \<Rightarrow> query" where
  "exactly key value = StateFieldQuery key (StringMatch value Exact False)"

text \<open>\<open>iterate(query, sort, false)\<close> followed by \<open>all()\<close>, or by \<open>next(1)\<close> and \<open>close()\<close>.\<close>

definition ei_all :: "'p ei_env \<Rightarrow> 'p entryIndex \<Rightarrow> query list \<Rightarrow> sort list \<Rightarrow> ei_error + shallowEntry list" where
  "ei_all L s qs sorts =
     bind_sum (lift_query (it_all (ee_index L) (ei_index s) (QueryList qs) sorts iterate)) (\<lambda>(rs, _).
       Inr (map iv_value rs))"

definition ei_first :: "'p ei_env \<Rightarrow> 'p entryIndex \<Rightarrow> query list \<Rightarrow> sort list \<Rightarrow> ei_error + shallowEntry option" where
  "ei_first L s qs sorts =
     bind_sum (lift_query (it_next (ee_index L) (ei_index s) (QueryList qs) sorts 1 iterate)) (\<lambda>(rs, _).
       Inr (case rs of [] \<Rightarrow> None | r # _ \<Rightarrow> Some (iv_value r)))"

definition ei_getHeads :: "'p ei_env \<Rightarrow> 'p entryIndex \<Rightarrow> string option \<Rightarrow> ei_error + shallowEntry list" where
  "ei_getHeads L s gid =
     ei_all L s (StateFieldQuery [''head''] (BoolQuery True) #
       (case gid of Some (c # cs) \<Rightarrow> [exactly [''meta'', ''gid''] (c # cs)] | _ \<Rightarrow> [])) (sf_sort (ee_sort L))"

definition ei_getHasNext :: "'p ei_env \<Rightarrow> 'p entryIndex \<Rightarrow> string \<Rightarrow> ei_error + shallowEntry list" where
  "ei_getHasNext L s next = ei_all L s [exactly [''meta'', ''next''] next] (sf_sort (ee_sort L))"

definition ei_countHasNext :: "'p ei_env \<Rightarrow> 'p entryIndex \<Rightarrow> string \<Rightarrow> string option \<Rightarrow> ei_error + nat" where
  "ei_countHasNext L s next excludeHash =
     lift_query (hm_count (ee_index L) (ei_index s) (QueryList (exactly [''meta'', ''next''] next #
       (case excludeHash of Some (c # cs) \<Rightarrow> [Not (exactly [''hash''] (c # cs))] | _ \<Rightarrow> []))))"

definition ei_getOldest :: "'p ei_env \<Rightarrow> 'p entryIndex \<Rightarrow> ei_error + shallowEntry option" where
  "ei_getOldest L s = ei_first L s [] (sf_sort (ee_sort L))"

definition ei_getNewest :: "'p ei_env \<Rightarrow> 'p entryIndex \<Rightarrow> ei_error + shallowEntry option" where
  "ei_getNewest L s = ei_first L s [] (sortReversed (sf_sort (ee_sort L)))"

definition ei_getBefore :: "'p ei_env \<Rightarrow> 'p entryIndex \<Rightarrow> meta \<Rightarrow> ei_error + shallowEntry option" where
  "ei_getBefore L s before =
     bind_sum (lift_query (sf_before (ee_sort L) before)) (\<lambda>qs. ei_first L s qs (sortReversed (sf_sort (ee_sort L))))"

definition ei_getAfter :: "'p ei_env \<Rightarrow> 'p entryIndex \<Rightarrow> meta \<Rightarrow> ei_error + shallowEntry option" where
  "ei_getAfter L s before =
     bind_sum (lift_query (sf_after (ee_sort L) before)) (\<lambda>qs. ei_first L s qs (sf_sort (ee_sort L)))"

definition ei_getShallow :: "'p ei_env \<Rightarrow> 'p entryIndex \<Rightarrow> string \<Rightarrow> shallowEntry option" where
  "ei_getShallow L s k = map_option snd (hm_get (ee_index L) (ei_index s) (StringKey k))"

definition ei_has :: "int \<Rightarrow> 'p ei_env \<Rightarrow> 'p entryIndex \<Rightarrow> string \<Rightarrow> ei_error + bool \<times> 'p entryIndex" where
  "ei_has now L s k =
     bind_sum (lift_cache (cache_get now (ei_cache s) k)) (\<lambda>(mem, c).
       let s' = s\<lparr>ei_cache := c\<rparr>
       in Inr (case mem of Some (Some _) \<Rightarrow> True | _ \<Rightarrow> ei_getShallow L s' k \<noteq> None, s'))"

text \<open>\<open>resolve\<close>: from the cache, else from the block store, remembering the outcome in the cache.\<close>

definition ei_resolve ::
  "int \<Rightarrow> 'p entryIndex \<Rightarrow> string \<Rightarrow> bool \<Rightarrow> ei_error + 'p entry option \<times> 'p entryIndex" where
  "ei_resolve now s k ignoreMissing =
     bind_sum (lift_cache (cache_get now (ei_cache s) k)) (\<lambda>(mem, c).
       case mem of
         Some v \<Rightarrow> Inr (v, s\<lparr>ei_cache := c\<rparr>)
       | None \<Rightarrow>
           let v = map_option (\<lambda>e. e\<lparr>e_hash := Some k\<rparr>) (jm_get (ei_store s) k)
           in if v = None \<and> \<not> ignoreMissing then Inl Failed_to_load_entry
              else bind_sum (lift_cache (cache_add now c k v 1)) (\<lambda>c'. Inr (v, s\<lparr>ei_cache := c'\<rparr>)))"

definition ei_get_length :: "'p entryIndex \<Rightarrow> ei_error + int" where
  "ei_get_length s = (if \<not> ei_initialized s then Inl Not_initialized else Inr (ei_length s))"

definition ei_init :: "'p entryIndex \<Rightarrow> 'p entryIndex" where
  "ei_init s = s\<lparr>ei_length := int (hm_getSize (ei_index s)), ei_initialized := True\<rparr>"

definition ei_getMemoryUsage :: "'p ei_env \<Rightarrow> 'p entryIndex \<Rightarrow> ei_error + jsval" where
  "ei_getMemoryUsage L s = lift_query (hm_sum (ee_index L) (ei_index s) NoQuery [''payloadSize''])"

section \<open>Writing\<close>

fun updateNextHeads :: "'p ei_env \<Rightarrow> bool \<Rightarrow> string list \<Rightarrow> 'p entryIndex \<Rightarrow> ei_error + 'p entryIndex" where
  "updateNextHeads L isHead [] s = Inr s"
| "updateNextHeads L isHead (next # ns) s =
     (case hm_get (ee_index L) (ei_index s) (StringKey next) of
        None \<Rightarrow> updateNextHeads L isHead ns s
      | Some (_, v) \<Rightarrow>
          if isHead then
            bind_sum (ei_countHasNext L s next None) (\<lambda>c.
              if c = 0 then
                bind_sum (lift_query (hm_put (ee_index L) (ei_index s) (v\<lparr>se_head := True\<rparr>) None)) (\<lambda>idx.
                  updateNextHeads L isHead ns (s\<lparr>ei_index := idx\<rparr>))
              else updateNextHeads L isHead ns s)
          else
            bind_sum (lift_query (hm_put (ee_index L) (ei_index s) (v\<lparr>se_head := False\<rparr>) None)) (\<lambda>idx.
              updateNextHeads L isHead ns (s\<lparr>ei_index := idx\<rparr>)))"

definition privateUpdateNextHeadProperty ::
  "'p ei_env \<Rightarrow> 'p entryIndex \<Rightarrow> meta \<Rightarrow> bool \<Rightarrow> ei_error + 'p entryIndex" where
  "privateUpdateNextHeadProperty L s from isHead =
     (if m_type from = CUT then Inr s else updateNextHeads L isHead (m_next from) s)"

text \<open>The shadowed graph ids: those of referenced entries with another graph id that nothing else
  references.\<close>

fun shadowed :: "'p ei_env \<Rightarrow> 'p entryIndex \<Rightarrow> string \<Rightarrow> shallowEntry list \<Rightarrow> string list \<Rightarrow> ei_error + string list" where
  "shadowed L s hash [] gids = Inr gids"
| "shadowed L s hash (n # ns) gids =
     bind_sum (ei_countHasNext L s (se_hash n) (Some hash)) (\<lambda>c.
       shadowed L s hash ns (if c > 0 then gids else js_add gids (m_gid (se_meta n))))"

definition notify_gids :: "'p ei_env \<Rightarrow> 'p entryIndex \<Rightarrow> string \<Rightarrow> meta \<Rightarrow> ei_error + 'p entryIndex" where
  "notify_gids L s hash m =
     (if ee_onGidRemoved L \<and> length (m_next m) > 0 then
        bind_sum (lift_query (new_Or (map (exactly [''hash'']) (m_next m)))) (\<lambda>orq.
        bind_sum (ei_all L s [orq, Not (exactly [''meta'', ''gid''] (m_gid m))] (sf_sort (ee_sort L))) (\<lambda>others.
        bind_sum (shadowed L s hash others []) (\<lambda>gids.
          Inr (if length gids > 0 then s\<lparr>ei_gidRemoved := ei_gidRemoved s @ [gids]\<rparr> else s))))
      else Inr s)"

text \<open>The hash of the entry and the store after the first part of \<open>put\<close>. With \<open>toMultiHash\<close> the block is
  stored under its content hash; the comparison that follows it compares the hash the entry had
  with itself.\<close>

definition put_hash :: "'p ei_env \<Rightarrow> 'p entryIndex \<Rightarrow> 'p entry \<Rightarrow> bool \<Rightarrow> ei_error + 'p entry \<times> 'p entryIndex" where
  "put_hash L s e toMultiHash =
     (if toMultiHash then
        let existingHash = e_hash e; block = e\<lparr>e_hash := None\<rparr>; hash = ee_cid L block;
            s' = s\<lparr>ei_store := jm_set (ei_store s) hash block\<rparr>
        in if existingHash = None then Inr (e\<lparr>e_hash := Some hash\<rparr>, s')
           else if existingHash \<noteq> e_hash e then Inl Head_hash_mismatch
           else Inr (e, s')
      else if e_hash e = None \<or> e_hash e = Some [] then Inl Missing_hash
      else Inr (e, s))"

definition ei_put ::
  "int \<Rightarrow> 'p ei_env \<Rightarrow> 'p entryIndex \<Rightarrow> 'p entry \<Rightarrow> bool \<Rightarrow> bool \<Rightarrow> bool \<Rightarrow> ei_error + 'p entry \<times> 'p entryIndex" where
  "ei_put now L s e unique isHead toMultiHash =
     bind_sum (put_hash L s e toMultiHash) (\<lambda>(e1, s1).
       let h = e_hash_str e1 in
       bind_sum (if unique then Inr (False, s1) else ei_has now L s1 h) (\<lambda>(known, s2).
       let s3 = (if known then s2 else s2\<lparr>ei_length := ei_length s2 + 1\<rparr>) in
       bind_sum (lift_cache (cache_add now (ei_cache s3) h (Some e1) 1)) (\<lambda>c.
       bind_sum (lift_query (hm_put (ee_index L) (ei_index s3) (toShallow (ee_byteLength L) e1 isHead) None)) (\<lambda>idx.
       let s4 = s3\<lparr>ei_cache := c, ei_index := idx\<rparr> in
       bind_sum (notify_gids L s4 h (e_meta e1)) (\<lambda>s5.
       bind_sum (privateUpdateNextHeadProperty L s5 (e_meta e1) False) (\<lambda>s6. Inr (e1, s6)))))))"

definition ei_delete ::
  "'p ei_env \<Rightarrow> 'p entryIndex \<Rightarrow> string \<Rightarrow> shallowEntry option \<Rightarrow> ei_error + shallowEntry option \<times> 'p entryIndex" where
  "ei_delete L s k from =
     (let s1 = s\<lparr>ei_cache := snd (cache_del (ei_cache s) k)\<rparr> in
      if (case from of None \<Rightarrow> False | Some f \<Rightarrow> se_hash f \<noteq> k) then Inl Shallow_hash_mismatch
      else case (case from of None \<Rightarrow> ei_getShallow L s1 k | Some f \<Rightarrow> Some f) of
             None \<Rightarrow> Inr (None, s1)
           | Some f \<Rightarrow>
               bind_sum (lift_query (hm_del (ee_index L) (ei_index s1) (hash_record k))) (\<lambda>(deleted, idx).
                 let s2 = s1\<lparr>ei_index := idx, ei_store := jm_delete (ei_store s1) k\<rparr> in
                 if length deleted > 0 then
                   bind_sum (privateUpdateNextHeadProperty L
                       (s2\<lparr>ei_length := ei_length s2 - int (length deleted)\<rparr>) (se_meta f) True) (\<lambda>s3.
                     Inr (Some f, s3))
                 else Inr (None, s2)))"

fun delete_all :: "'p ei_env \<Rightarrow> shallowEntry list \<Rightarrow> 'p entryIndex \<Rightarrow> ei_error + 'p entryIndex" where
  "delete_all L [] s = Inr s"
| "delete_all L (r # rs) s = bind_sum (ei_delete L s (se_hash r) None) (\<lambda>(_, s'). delete_all L rs s')"

text \<open>\<open>clear\<close>: the iterator computes its results at the first call of \<open>next\<close>, so the batches together are
  the entries at that moment.\<close>

definition ei_clear :: "'p ei_env \<Rightarrow> 'p entryIndex \<Rightarrow> ei_error + 'p entryIndex" where
  "ei_clear L s =
     bind_sum (ei_all L s [] (sf_sort (ee_sort L))) (\<lambda>results.
     bind_sum (delete_all L results s) (\<lambda>s'.
       Inr (s'\<lparr>ei_index := hm_drop (ei_index s'), ei_cache := cache_clear (ei_cache s')\<rparr>)))"

section \<open>Lemmas: cache\<close>

interpretation entry_cache: memo_store cache_inv cache_live "cache_get now"
    "\<lambda>c k v. cache_add now c k v 1" "\<lambda>c k. snd (cache_del c k)"
  for now :: int
proof
  fix c :: "('k, 'v) cache" and k v
  assume inv: "cache_inv c"
  obtain c' where c': "cache_trim now c = Inr c'" "cache_inv c'" using cache_trim_ok [OF inv] by blast
  have "(if k \<in> set (cache_deleted c') then None else map_option cd_value (jm_get (cache_map c') k)) = cache_live c' k"
    by (auto simp: cache_live_def split: option.splits)
  then show "\<exists>c'. cache_get now c k = Inr (cache_live c' k, c') \<and> cache_inv c' \<and> cache_live c' \<subseteq>\<^sub>m cache_live c"
    using c' cache_live_trim [OF inv c'(1)] by (auto simp: cache_get_def)
  obtain c'' where "cache_trim now (add_entry now c k v 1) = Inr c''" "cache_inv c''"
    using cache_trim_ok [OF cache_inv_add_entry [OF inv]] by blast
  with cache_live_trim [OF cache_inv_add_entry [OF inv]]
  show "\<exists>c'. cache_add now c k v 1 = Inr c' \<and> cache_inv c' \<and> cache_live c' \<subseteq>\<^sub>m (cache_live c)(k \<mapsto> v)"
    by (metis cache_add_def cache_live_add_entry)
  show "cache_inv (snd (cache_del c k)) \<and> cache_live (snd (cache_del c k)) = (cache_live c)(k := None)"
    by (simp add: cache_inv_del [OF inv] cache_live_del)
qed

section \<open>Lemmas: queries of the entry index\<close>

text \<open>The index engine is that of shallow entries, the call stack is deep enough for an array inside an
  entry, and the sort is one of the three the package exports.\<close>

definition ei_env_ok :: "'p ei_env \<Rightarrow> bool" where
  "ei_env_ok L \<longleftrightarrow> (\<exists>b64 lc d. ee_index L = shallow_env b64 lc (Suc (Suc d))) \<and>
     ee_sort L \<in> {LastWriteWins, FirstWriteWins, SortByEntryHash}"

definition refs :: "shallowEntry \<Rightarrow> string \<Rightarrow> bool" where
  "refs e n \<longleftrightarrow> n \<in> set (m_next (se_meta e))"

lemma queryDocuments_by:
  assumes "\<forall>v \<in> set vs. \<exists>h. handle_all E qs 0 (toJs E (iv_value v)) [] = Inr (P v, h)"
  shows "queryDocuments E qs vs = Inr (filter P vs)"
  using assms by (induction vs) fastforce+

lemma field_next:
  "\<exists>h. handleFieldQuery (shallow_env b64 lc (Suc (Suc d))) (Suc (Suc d)) [''meta'', ''next''] (StringMatch n Exact False)
     (shallow_js e) 0 [] = Inr (Some (refs e n), h)"
proof -
  let ?E = "shallow_env b64 lc (Suc (Suc d))"
  let ?m = "\<lambda>x h. handleFieldQuery ?E (Suc d) [''meta'', ''next''] (StringMatch n Exact False) x 2 h"
  let ?xs = "map JStr (m_next (se_meta e))"
  have m: "\<forall>x \<in> set ?xs. \<forall>h. ?m x h = Inr (Some (x = JStr n), h)"
    by (auto simp: fold_case_def)
  have el: "elements (StringMatch n Exact False) (shallow_js e) = None" by (simp add: shallow_js_def)
  have r: "resolve ?E (StringMatch n Exact False) 0 (drop 0 [''meta'', ''next'']) (shallow_js e) = Inr (AtArray 2 ?xs)"
    by (simp add: shallow_js_def meta_js_def shallow_env_def numeral_2_eq_2)
  have tk: "take 2 [''meta'', ''next''] = [''meta'', ''next'']" by simp
  have "handleFieldQuery ?E (Suc (Suc d)) [''meta'', ''next''] (StringMatch n Exact False) (shallow_js e) 0 [] =
      array_results ?m [''meta'', ''next''] ?xs []"
    unfolding handleFieldQuery.simps(2) [of ?E "Suc d"] el r option.case bind_sum.simps resolved.case tk by (rule refl)
  also have "\<dots> = Inr (Some (filter (\<lambda>x. x = JStr n) ?xs \<noteq> []),
      jm_set [] (join [''meta'', ''next'']) (if filter (\<lambda>x. x = JStr n) ?xs = [] then None else Some (filter (\<lambda>x. x = JStr n) ?xs)))"
    by (rule array_results_filter [OF m]) simp_all
  also have "(filter (\<lambda>x. x = JStr n) ?xs \<noteq> []) = refs e n"
    by (auto simp: refs_def filter_empty_conv)
  finally show ?thesis by blast
qed

lemma field_hash:
  "handleFieldQuery (shallow_env b64 lc (Suc (Suc d))) (Suc (Suc d)) [''hash''] (StringMatch x Exact False)
     (shallow_js e) 0 h = Inr (Some (se_hash e = x), h)"
  by (simp add: shallow_js_def shallow_env_def)

lemma count_has_next:
  assumes "ei_env_ok L"
  shows "ei_countHasNext L s n ex = Inr (length (filter (\<lambda>v. refs (iv_value v) n \<and>
     (case ex of Some (c # cs) \<Rightarrow> se_hash (iv_value v) \<noteq> c # cs | _ \<Rightarrow> True)) (jm_values (ei_index s))))"
proof -
  obtain b64 lc d where E: "ee_index L = shallow_env b64 lc (Suc (Suc d))" using assms by (auto simp: ei_env_ok_def)
  let ?E = "shallow_env b64 lc (Suc (Suc d))"
  let ?x = "case ex of Some (c # cs) \<Rightarrow> [Not (exactly [''hash''] (c # cs))] | _ \<Rightarrow> []"
  let ?qs = "exactly [''meta'', ''next''] n # ?x"
  let ?P = "\<lambda>v. refs (iv_value v) n \<and> (case ex of Some (c # cs) \<Rightarrow> se_hash (iv_value v) \<noteq> c # cs | _ \<Rightarrow> True)"
  have st: "stack ?E = Suc (Suc d)" "toJs ?E = shallow_js" by (simp_all add: shallow_env_def)
  have "\<exists>h. handle_all ?E ?qs 0 (toJs ?E (iv_value v)) [] = Inr (?P v, h)" for v :: "shallowEntry indexedValue"
  proof -
    obtain h where h: "handleFieldQuery ?E (Suc (Suc d)) [''meta'', ''next''] (StringMatch n Exact False)
        (shallow_js (iv_value v)) 0 [] = Inr (Some (refs (iv_value v) n), h)" using field_next by blast
    show ?thesis
      by (cases ex; cases "the ex"; simp add: exactly_def st h field_hash del: handleFieldQuery.simps)
  qed
  then have q: "queryDocuments ?E ?qs (jm_values (ei_index s)) = Inr (filter ?P (jm_values (ei_index s)))"
    by (intro queryDocuments_by) blast
  have "id_lookup ?E ?qs = None"
    by (auto simp: id_lookup_def exactly_def shallow_env_def split: option.splits list.splits)
  with q E show ?thesis by (simp add: ei_countHasNext_def hm_count_def queryAll_def del: bind_sum_eq_Inr)
qed

section \<open>Lemmas: head flags\<close>

definition referenced :: "shallowEntry hashmap \<Rightarrow> string \<Rightarrow> bool" where
  "referenced idx n \<longleftrightarrow> (\<exists>h e. shallow_lookup idx h = Some e \<and> refs e n)"

lemma referenced_any: "referenced idx n = shallow_store.any (\<lambda>e. refs e n) idx"
  by (simp add: referenced_def shallow_store.any_def)

lemma shallow_values:
  assumes "shallow_ok idx"
  shows "(\<exists>v \<in> set (jm_values idx). P (iv_value v)) \<longleftrightarrow> (\<exists>h e. shallow_lookup idx h = Some e \<and> P e)"
proof
  assume "\<exists>v \<in> set (jm_values idx). P (iv_value v)"
  then obtain p v where v: "(p, v) \<in> set idx" "P (iv_value v)" by (auto simp: jm_values_def)
  moreover have "p = PStr (se_hash (iv_value v))" using assms v(1) by (auto simp: shallow_ok_def)
  moreover have "jm_get idx p = Some v" using assms v(1) by (simp add: shallow_ok_def jm_get_in_set)
  ultimately show "\<exists>h e. shallow_lookup idx h = Some e \<and> P e" by (auto simp: shallow_lookup_def)
next
  assume "\<exists>h e. shallow_lookup idx h = Some e \<and> P e"
  then obtain h v where "jm_get idx (PStr h) = Some v" "P (iv_value v)" by (auto simp: shallow_lookup_def)
  then show "\<exists>v \<in> set (jm_values idx). P (iv_value v)"
    by (force simp: jm_values_def dest: map_of_SomeD)
qed

lemma shallow_in_values:
  assumes "shallow_ok idx"
  shows "e \<in> iv_value ` set (jm_values idx) \<longleftrightarrow> shallow_lookup idx (se_hash e) = Some e"
proof -
  have "e \<in> iv_value ` set (jm_values idx) \<longleftrightarrow> (\<exists>v \<in> set (jm_values idx). iv_value v = e)" by blast
  also have "\<dots> \<longleftrightarrow> (\<exists>h x. shallow_lookup idx h = Some x \<and> x = e)" by (rule shallow_values [OF assms])
  also have "\<dots> \<longleftrightarrow> shallow_lookup idx (se_hash e) = Some e" using shallow_store.lookup_key [OF assms] by metis
  finally show ?thesis .
qed

lemma count_zero:
  assumes "ei_env_ok L" and "shallow_ok (ei_index s)"
  shows "\<exists>c. ei_countHasNext L s n None = Inr c \<and> (c = 0 \<longleftrightarrow> \<not> referenced (ei_index s) n)"
  using count_has_next [OF assms(1), of s n None] shallow_values [OF assms(2), of "\<lambda>e. refs e n"]
  by (auto simp: referenced_def filter_empty_conv)

lemma head_update:
  assumes "shallow_ok idx" and "shallow_lookup idx n = Some v"
  shows "\<exists>idx1. hm_put (shallow_env b64 lc d) idx (v\<lparr>se_head := b\<rparr>) None = Inr idx1 \<and> shallow_ok idx1 \<and>
    length idx1 = length idx \<and> shallow_lookup idx1 = (shallow_lookup idx)(n \<mapsto> v\<lparr>se_head := b\<rparr>) \<and>
    referenced idx1 = referenced idx"
proof -
  let ?v = "v\<lparr>se_head := b\<rparr>"
  let ?put = "\<lambda>idx e. projr (hm_put (shallow_env b64 lc d) idx e None)"
  have p: "hm_put (shallow_env b64 lc d) idx ?v None = Inr (?put idx ?v)" by (simp add: shallow_put_eq)
  have n: "se_hash v = n" by (rule shallow_store.lookup_key [OF assms])
  have "length (?put idx ?v) = length idx"
    using assms(2) n by (auto simp: shallow_put_eq length_jm_set jm_has_def shallow_lookup_def)
  moreover have "referenced (?put idx ?v) = referenced idx"
    unfolding referenced_any [abs_def] using assms
    by (intro ext shallow_store.any_replace [where d = v]) (auto simp: refs_def)
  ultimately show ?thesis
    using p shallow_store.inv_put [OF assms(1)] shallow_store.replace_lookup [OF assms, of ?v] by auto
qed

lemma updateNextHeads_ok:
  assumes "ei_env_ok L" and "shallow_ok (ei_index s)"
  shows "\<exists>idx'. updateNextHeads L b ns s = Inr (s\<lparr>ei_index := idx'\<rparr>) \<and> shallow_ok idx' \<and>
    length idx' = length (ei_index s) \<and>
    (\<forall>h. shallow_lookup idx' h = (if h \<in> set ns \<and> (b \<longrightarrow> \<not> referenced (ei_index s) h)
       then map_option (\<lambda>e. e\<lparr>se_head := b\<rparr>) (shallow_lookup (ei_index s) h) else shallow_lookup (ei_index s) h))"
  using assms(2)
proof (induction ns arbitrary: s)
  case Nil
  then show ?case by (intro exI [of _ "ei_index s"]) simp
next
  case (Cons n ns)
  obtain b64 lc d where E: "ee_index L = shallow_env b64 lc (Suc (Suc d))" using assms(1) by (auto simp: ei_env_ok_def)
  let ?c = "\<lambda>h. b \<longrightarrow> \<not> referenced (ei_index s) h"
  show ?case
  proof (cases "shallow_lookup (ei_index s) n")
    case None
    then have "updateNextHeads L b (n # ns) s = updateNextHeads L b ns s" by (simp add: E shallow_get_eq)
    with Cons.IH [OF Cons.prems] None show ?thesis by auto
  next
    case (Some v)
    show ?thesis
    proof (cases "?c n")
      case False
      then have "updateNextHeads L b (n # ns) s = updateNextHeads L b ns s"
        using Some count_zero [OF assms(1) Cons.prems, of n] by (auto simp: E shallow_get_eq)
      with Cons.IH [OF Cons.prems] False show ?thesis by auto
    next
      case True
      obtain idx1 where idx1: "hm_put (ee_index L) (ei_index s) (v\<lparr>se_head := b\<rparr>) None = Inr idx1" "shallow_ok idx1"
        "length idx1 = length (ei_index s)" "shallow_lookup idx1 = (shallow_lookup (ei_index s))(n \<mapsto> v\<lparr>se_head := b\<rparr>)"
        "referenced idx1 = referenced (ei_index s)"
        using head_update [OF Cons.prems Some] unfolding E by blast
      have step: "updateNextHeads L b (n # ns) s = updateNextHeads L b ns (s\<lparr>ei_index := idx1\<rparr>)"
        using Some True idx1(1) count_zero [OF assms(1) Cons.prems, of n] by (cases b) (auto simp: E shallow_get_eq)
      have sel: "ei_index (s\<lparr>ei_index := idx1\<rparr>) = idx1"
        "\<And>x. s\<lparr>ei_index := idx1\<rparr>\<lparr>ei_index := x\<rparr> = s\<lparr>ei_index := x\<rparr>" by simp_all
      obtain idx' where "updateNextHeads L b ns (s\<lparr>ei_index := idx1\<rparr>) = Inr (s\<lparr>ei_index := idx'\<rparr>)" "shallow_ok idx'"
        "length idx' = length idx1"
        "\<forall>h. shallow_lookup idx' h = (if h \<in> set ns \<and> ?c h
           then map_option (\<lambda>e. e\<lparr>se_head := b\<rparr>) (shallow_lookup idx1 h) else shallow_lookup idx1 h)"
        using Cons.IH [of "s\<lparr>ei_index := idx1\<rparr>", unfolded sel idx1(5), OF idx1(2)] by blast
      with step idx1(3,4) Some True show ?thesis by (intro exI [of _ idx']) auto
    qed
  qed
qed

lemma doc_cmp_total:
  assumes "ei_env_ok L" and "set sorts \<subseteq> {\<lparr>s_key = k, s_direction = dir\<rparr> | k dir. k \<in> {wall_key, logical_key, [''hash'']}}"
  shows "\<exists>c. doc_cmp (ee_index L) sorts a b = Inr c"
proof -
  obtain b64 lc d where E: "ee_index L = shallow_env b64 lc (Suc (Suc d))" using assms(1) by (auto simp: ei_env_ok_def)
  have "\<exists>c. extractSortCompare (ee_index L) (shallow_js x) (shallow_js y) sorts = Inr c" for x y
    using assms(2)
  proof (induction sorts)
    case (Cons s sorts)
    then obtain c where c: "extractSortCompare (ee_index L) (shallow_js x) (shallow_js y) sorts = Inr c" by auto
    have "\<exists>v w. extractFieldValue (shallow_js x) (s_key s) = Inr v \<and> extractFieldValue (shallow_js y) (s_key s) = Inr w"
      using Cons.prems by (auto simp: shallow_js_def meta_js_def wall_key_def logical_key_def)
    with c show ?case by (auto simp: Let_def simp del: bind_sum_eq_Inr)
  qed simp
  then show ?thesis by (simp add: doc_cmp_def E shallow_env_def)
qed

lemma ei_sort_keys:
  assumes "ei_env_ok L"
  shows "set (sf_sort (ee_sort L)) \<subseteq> {\<lparr>s_key = k, s_direction = dir\<rparr> | k dir. k \<in> {wall_key, logical_key, [''hash'']}}"
  using assms by (auto simp: ei_env_ok_def LastWriteWins_def FirstWriteWins_def SortByEntryHash_def)

lemma ei_all_effect:
  assumes "ei_env_ok L" and "id_lookup (ee_index L) qs = None"
    and "\<And>v. \<exists>h. handle_all (ee_index L) qs 0 (shallow_js v) [] = Inr (P v, h)"
  shows "\<exists>es. ei_all L s qs (sf_sort (ee_sort L)) = Inr es \<and>
    mset es = mset (filter P (map iv_value (jm_values (ei_index s))))"
proof -
  let ?docs = "filter (\<lambda>v. P (iv_value v)) (jm_values (ei_index s))"
  have js: "toJs (ee_index L) = shallow_js" using assms(1) by (auto simp: ei_env_ok_def shallow_env_def)
  have q: "queryAll (ee_index L) (ei_index s) (QueryList qs) = Inr ?docs"
    using queryDocuments_by [of "jm_values (ei_index s)" "ee_index L" qs "\<lambda>v. P (iv_value v)"] assms(2,3)
    by (simp add: queryAll_def js)
  obtain D where D: "sort_docs (ee_index L) (sf_sort (ee_sort L)) ?docs = Inr D" "mset D = mset ?docs"
    using sort_docs_total [of "ee_index L" _ ?docs] doc_cmp_total [OF assms(1) ei_sort_keys [OF assms(1)]] by blast
  have "mset (map iv_value D) = mset (map iv_value ?docs)" using D(2) by simp
  moreover obtain it' where "it_fetch (ee_index L) (ei_index s) (QueryList qs) (sf_sort (ee_sort L)) None iterate = Inr (D, it')"
    using it_fetch_all [OF q D(1)] by blast
  ultimately show ?thesis by (simp add: ei_all_def it_all_def filter_map comp_def)
qed

lemma field_gid:
  "handleFieldQuery (shallow_env b64 lc (Suc (Suc d))) (Suc (Suc d)) [''meta'', ''gid''] (StringMatch x Exact False)
     (shallow_js e) 0 h = Inr (Some (m_gid (se_meta e) = x), h)"
  by (simp add: shallow_js_def meta_js_def shallow_env_def)

lemma or_hash:
  "handle_or (shallow_env b64 lc (Suc (Suc d))) (map (exactly [''hash'']) ns) (shallow_js e) h 0 = Inr (Some (se_hash e \<in> set ns), h)"
  by (induction ns)
    (auto simp: exactly_def shallow_env_def [of b64 lc "Suc (Suc d)", THEN arg_cong [of _ _ stack]] field_hash
      simp del: handleFieldQuery.simps)

section \<open>Lemmas: graph ids\<close>

text \<open>An entry other than \<open>h\<close> references \<open>n\<close>.\<close>

definition referenced_by_other :: "shallowEntry hashmap \<Rightarrow> string \<Rightarrow> string \<Rightarrow> bool" where
  "referenced_by_other idx h n \<longleftrightarrow> (\<exists>k e. shallow_lookup idx k = Some e \<and> k \<noteq> h \<and> refs e n)"

lemma count_other:
  assumes "ei_env_ok L" and "shallow_ok (ei_index s)" and "h \<noteq> []"
  shows "\<exists>c. ei_countHasNext L s n (Some h) = Inr c \<and> (c > 0 \<longleftrightarrow> referenced_by_other (ei_index s) h n)"
proof -
  have "(\<exists>k e. shallow_lookup (ei_index s) k = Some e \<and> refs e n \<and> se_hash e \<noteq> h) = referenced_by_other (ei_index s) h n"
    using shallow_store.lookup_key [OF assms(2)] by (fastforce simp: referenced_by_other_def)
  then show ?thesis
    using count_has_next [OF assms(1), of s n "Some h"] assms(3)
      shallow_values [OF assms(2), of "\<lambda>e. refs e n \<and> se_hash e \<noteq> h"]
    by (cases h) (auto simp: filter_empty_conv)
qed

lemma shadowed_effect:
  assumes "ei_env_ok L" and "shallow_ok (ei_index s)" and "h \<noteq> []"
  shows "distinct gids \<Longrightarrow> \<exists>gs. shadowed L s h ns gids = Inr gs \<and> distinct gs \<and>
    set gs = set gids \<union> {m_gid (se_meta n) |n. n \<in> set ns \<and> \<not> referenced_by_other (ei_index s) h (se_hash n)}"
proof (induction ns arbitrary: gids)
  case (Cons n ns)
  obtain c where c: "ei_countHasNext L s (se_hash n) (Some h) = Inr c"
    "c > 0 \<longleftrightarrow> referenced_by_other (ei_index s) h (se_hash n)" using count_other [OF assms] by blast
  let ?g = "if c > 0 then gids else js_add gids (m_gid (se_meta n))"
  have "distinct ?g" using Cons.prems by simp
  from Cons.IH [OF this] obtain gs where "shadowed L s h ns ?g = Inr gs" "distinct gs"
    "set gs = set ?g \<union> {m_gid (se_meta n) |n. n \<in> set ns \<and> \<not> referenced_by_other (ei_index s) h (se_hash n)}" by blast
  with c show ?case by (intro exI [of _ gs]) (auto simp del: bind_sum_eq_Inr)
qed simp

lemma notify_gids_reports:
  assumes "ei_env_ok L" and "shallow_ok (ei_index s)" and "h \<noteq> []" and "ee_onGidRemoved L"
  shows "\<exists>gids. notify_gids L s h m =
      Inr (s\<lparr>ei_gidRemoved := ei_gidRemoved s @ (if gids = [] then [] else [gids])\<rparr>) \<and> distinct gids \<and>
    set gids = {m_gid (se_meta e) |n e. n \<in> set (m_next m) \<and> shallow_lookup (ei_index s) n = Some e \<and>
      m_gid (se_meta e) \<noteq> m_gid m \<and> \<not> referenced_by_other (ei_index s) h n}"
proof (cases "m_next m = []")
  case True
  then show ?thesis by (intro exI [of _ "[]"]) (simp add: notify_gids_def)
next
  case False
  obtain b64 lc d where E: "ee_index L = shallow_env b64 lc (Suc (Suc d))" using assms(1) by (auto simp: ei_env_ok_def)
  let ?or = "Or (map (exactly [''hash'']) (m_next m))" and ?not = "Not (exactly [''meta'', ''gid''] (m_gid m))"
  let ?P = "\<lambda>e. se_hash e \<in> set (m_next m) \<and> m_gid (se_meta e) \<noteq> m_gid m"
  have st: "stack (shallow_env b64 lc (Suc (Suc d))) = Suc (Suc d)" by (simp add: shallow_env_def)
  have "\<exists>h. handle_all (ee_index L) [?or, ?not] 0 (shallow_js v) [] = Inr (?P v, h)" for v
    by (simp add: E or_hash exactly_def [of "[''meta'', ''gid'']"] st field_gid del: handleFieldQuery.simps)
  moreover have "id_lookup (ee_index L) [?or, ?not] = None" by (simp add: id_lookup_def)
  ultimately obtain es where es: "ei_all L s [?or, ?not] (sf_sort (ee_sort L)) = Inr es"
    "mset es = mset (filter ?P (map iv_value (jm_values (ei_index s))))"
    using ei_all_effect [OF assms(1), of "[?or, ?not]" ?P s] by blast
  have in_es: "e \<in> set es \<longleftrightarrow> shallow_lookup (ei_index s) (se_hash e) = Some e \<and> ?P e" for e
    using mset_eq_setD [OF es(2)] shallow_in_values [OF assms(2)] by simp
  obtain gs where gs: "shadowed L s h es [] = Inr gs" "distinct gs"
    "set gs = {m_gid (se_meta n) |n. n \<in> set es \<and> \<not> referenced_by_other (ei_index s) h (se_hash n)}"
    using shadowed_effect [OF assms(1-3), of "[]" es] by auto
  have "set gs = {m_gid (se_meta e) |n e. n \<in> set (m_next m) \<and> shallow_lookup (ei_index s) n = Some e \<and>
      m_gid (se_meta e) \<noteq> m_gid m \<and> \<not> referenced_by_other (ei_index s) h n}"
    unfolding gs(3) in_es using shallow_store.lookup_key [OF assms(2)] by blast
  then show ?thesis
    using es(1) gs(1,2) False assms(4)
    by (intro exI [of _ gs]) (simp add: notify_gids_def new_Or_def)
qed

section \<open>Lemmas: the invariant of the entry index\<close>

text \<open>The abstract content of the index: the meta of every entry. Everything but the head flags is a
  function of it.\<close>

definition metas :: "shallowEntry hashmap \<Rightarrow> string \<Rightarrow> meta option" where
  "metas idx h = map_option se_meta (shallow_lookup idx h)"

definition heads_ok :: "shallowEntry hashmap \<Rightarrow> bool" where
  "heads_ok idx \<longleftrightarrow> (\<forall>h e. shallow_lookup idx h = Some e \<longrightarrow> (se_head e \<longleftrightarrow> \<not> referenced idx h))"

text \<open>While entries are joined bottom up, the entries of a set are there as references of an entry that
  comes later, and are no heads.\<close>

definition heads_ok_except :: "string set \<Rightarrow> shallowEntry hashmap \<Rightarrow> bool" where
  "heads_ok_except P idx \<longleftrightarrow>
     (\<forall>h e. shallow_lookup idx h = Some e \<longrightarrow> (se_head e \<longleftrightarrow> \<not> referenced idx h \<and> h \<notin> P))"

definition known_only :: "shallowEntry hashmap \<Rightarrow> string \<Rightarrow> 'p entry option \<Rightarrow> bool" where
  "known_only idx k v \<longleftrightarrow> v = None \<or> metas idx k \<noteq> None"

definition ei_inv :: "'p entryIndex \<Rightarrow> bool" where
  "ei_inv s \<longleftrightarrow> shallow_ok (ei_index s) \<and> heads_ok (ei_index s) \<and>
     (\<forall>h m. metas (ei_index s) h = Some m \<longrightarrow> m_type m = APPEND) \<and>
     ei_length s = int (length (ei_index s)) \<and> entry_cache.coherent (known_only (ei_index s)) (ei_cache s)"

definition ei_inv_except :: "string set \<Rightarrow> 'p entryIndex \<Rightarrow> bool" where
  "ei_inv_except P s \<longleftrightarrow> shallow_ok (ei_index s) \<and> heads_ok_except P (ei_index s) \<and>
     (\<forall>h m. metas (ei_index s) h = Some m \<longrightarrow> m_type m = APPEND) \<and>
     ei_length s = int (length (ei_index s)) \<and> entry_cache.coherent (known_only (ei_index s)) (ei_cache s)"

lemma heads_ok_except_empty: "heads_ok_except {} idx = heads_ok idx"
  by (simp add: heads_ok_except_def heads_ok_def)

lemma ei_inv_except_empty: "ei_inv_except {} s = ei_inv s"
  by (simp add: ei_inv_except_def ei_inv_def heads_ok_except_empty)

text \<open>An exception for an entry that is referenced is none.\<close>

lemma ei_inv_except_referenced:
  "ei_inv_except P s \<Longrightarrow> (\<And>h. h \<in> P \<longleftrightarrow> h \<in> Q \<or> h \<in> P \<and> referenced (ei_index s) h) \<Longrightarrow> ei_inv_except Q s"
  unfolding ei_inv_except_def heads_ok_except_def by blast

lemma referenced_metas: "referenced idx n \<longleftrightarrow> (\<exists>h m. metas idx h = Some m \<and> n \<in> set (m_next m))"
  by (auto simp: referenced_def metas_def refs_def)

lemma ex_map_upd:
  "\<forall>old. f h = Some old \<longrightarrow> old = m \<Longrightarrow> (\<exists>k x. (f(h \<mapsto> m)) k = Some x \<and> P x) \<longleftrightarrow> (\<exists>k x. f k = Some x \<and> P x) \<or> P m"
  by (auto split: if_splits)

lemma ex_map_remove:
  "f h = Some m \<Longrightarrow> (\<exists>k x. f k = Some x \<and> P x) \<longleftrightarrow> (\<exists>k x. (f(h := None)) k = Some x \<and> P x) \<or> P m"
  by (auto split: if_splits) (metis option.inject)

lemma heads_ok_put:
  assumes ok: "heads_ok_except P idx" and idx1: "shallow_lookup idx1 = (shallow_lookup idx)(h \<mapsto> x)"
    and x: "se_meta x = m" "se_head x \<longleftrightarrow> \<not> referenced idx h \<and> h \<notin> P" "h \<notin> set (m_next m)" "\<forall>old. metas idx h = Some old \<longrightarrow> old = m"
    and idx2: "\<forall>k. shallow_lookup idx2 k = (if k \<in> set (m_next m)
      then map_option (\<lambda>e. e\<lparr>se_head := False\<rparr>) (shallow_lookup idx1 k) else shallow_lookup idx1 k)"
  shows "heads_ok_except P idx2 \<and> metas idx2 = (metas idx)(h \<mapsto> m)"
proof -
  have same: "metas idx2 k = metas idx1 k" for k
    using spec [OF idx2, of k] by (simp add: metas_def option.map_comp comp_def)
  have m: "metas idx2 = (metas idx)(h \<mapsto> m)"
    unfolding fun_eq_iff same by (simp add: metas_def idx1 x(1))
  have r: "referenced idx2 n \<longleftrightarrow> referenced idx n \<or> n \<in> set (m_next m)" for n
    unfolding referenced_metas m using x(4) by (rule ex_map_upd [of "metas idx" h])
  have "se_head e \<longleftrightarrow> \<not> referenced idx2 k \<and> k \<notin> P" if k: "shallow_lookup idx2 k = Some e" for k e
  proof (cases "k \<in> set (m_next m)")
    case True
    with spec [OF idx2, of k] k show ?thesis by (cases "shallow_lookup idx1 k") (auto simp: r)
  next
    case False
    with spec [OF idx2, of k] k have "((shallow_lookup idx)(h \<mapsto> x)) k = Some e" by (simp add: idx1)
    with False ok x(2) show ?thesis by (auto simp: r heads_ok_except_def split: if_splits)
  qed
  with m show ?thesis by (simp add: heads_ok_except_def)
qed

lemma heads_ok_delete:
  assumes ok: "heads_ok idx" and idx1: "shallow_lookup idx1 = (shallow_lookup idx)(k := None)"
    and x: "metas idx k = Some m"
    and idx2: "\<forall>h. shallow_lookup idx2 h = (if h \<in> set (m_next m) \<and> \<not> referenced idx1 h
      then map_option (\<lambda>e. e\<lparr>se_head := True\<rparr>) (shallow_lookup idx1 h) else shallow_lookup idx1 h)"
  shows "heads_ok idx2 \<and> metas idx2 = (metas idx)(k := None)"
proof -
  have m1: "metas idx1 = (metas idx)(k := None)" by (simp add: metas_def idx1 fun_eq_iff)
  have "metas idx2 h = metas idx1 h" for h
    using spec [OF idx2, of h] by (simp add: metas_def option.map_comp comp_def)
  then have m: "metas idx2 = metas idx1" by blast
  have r: "referenced idx n \<longleftrightarrow> referenced idx2 n \<or> n \<in> set (m_next m)" for n
    unfolding referenced_metas m m1 using x by (rule ex_map_remove [of "metas idx" k])
  have r1: "referenced idx1 n \<longleftrightarrow> referenced idx2 n" for n unfolding referenced_metas m by (rule refl)
  have "se_head e \<longleftrightarrow> \<not> referenced idx2 h" if h: "shallow_lookup idx2 h = Some e" for h e
  proof (cases "h \<in> set (m_next m) \<and> \<not> referenced idx2 h")
    case True
    then have "shallow_lookup idx2 h = map_option (\<lambda>e. e\<lparr>se_head := True\<rparr>) (shallow_lookup idx1 h)" using idx2 r1 by simp
    with h True show ?thesis by auto
  next
    case False
    then have "shallow_lookup idx2 h = shallow_lookup idx1 h" using idx2 r1 by auto
    then have "shallow_lookup idx h = Some e" using h idx1 by (auto split: if_splits)
    then have "se_head e \<longleftrightarrow> \<not> referenced idx h" using ok by (simp add: heads_ok_def)
    with False r show ?thesis by auto
  qed
  with m m1 show ?thesis by (simp add: heads_ok_def)
qed

lemma getShallow_lookup: "ei_env_ok L \<Longrightarrow> ei_getShallow L s k = shallow_lookup (ei_index s) k"
  by (auto simp: ei_env_ok_def ei_getShallow_def shallow_get_eq option.map_comp comp_def option.map_ident)

lemma ei_has_ok:
  assumes "ei_env_ok L" and "entry_cache.coherent (known_only (ei_index s)) (ei_cache s)"
  shows "\<exists>c. ei_has now L s k = Inr (metas (ei_index s) k \<noteq> None, s\<lparr>ei_cache := c\<rparr>) \<and>
    entry_cache.coherent (known_only (ei_index s)) c"
proof -
  obtain r c where rc: "cache_get now (ei_cache s) k = Inr (r, c)" "entry_cache.coherent (known_only (ei_index s)) c"
    "\<forall>v. r = Some v \<longrightarrow> known_only (ei_index s) k v"
    using entry_cache.coherent_get [OF assms(2), of now k] by blast
  have b: "(case r of Some (Some _) \<Rightarrow> True | _ \<Rightarrow> shallow_lookup (ei_index s) k \<noteq> None) = (metas (ei_index s) k \<noteq> None)"
    using rc(3) by (auto simp: known_only_def metas_def split: option.splits)
  have "ei_has now L s k = Inr (case r of Some (Some _) \<Rightarrow> True | _ \<Rightarrow> shallow_lookup (ei_index s) k \<noteq> None, s\<lparr>ei_cache := c\<rparr>)"
    by (auto simp: ei_has_def rc(1) Let_def getShallow_lookup [OF assms(1)] split: option.split)
  with rc(2) show ?thesis unfolding b by blast
qed

lemma notify_gids_index:
  assumes "ei_env_ok L" and "shallow_ok (ei_index s)" and "h \<noteq> []"
  shows "\<exists>g. notify_gids L s h m = Inr (s\<lparr>ei_gidRemoved := g\<rparr>)"
proof (cases "ee_onGidRemoved L")
  case True
  then show ?thesis using notify_gids_reports [OF assms, of m] by blast
next
  case False
  then show ?thesis by (intro exI [of _ "ei_gidRemoved s"]) (simp add: notify_gids_def)
qed

lemma put_hash_meta:
  "put_hash L s e t = Inr (e1, s1) \<Longrightarrow> e_meta e1 = e_meta e \<and> (\<exists>st. s1 = s\<lparr>ei_store := st\<rparr>)"
  by (auto simp: put_hash_def Let_def intro: exI [of _ "ei_store s"] split: if_splits)

lemma coherent_known_mono:
  "entry_cache.coherent (known_only idx) c \<Longrightarrow> (\<And>k. metas idx k \<noteq> None \<Longrightarrow> metas idx' k \<noteq> None) \<Longrightarrow>
     entry_cache.coherent (known_only idx') c"
  by (erule entry_cache.coherent_mono) (auto simp: known_only_def)

text \<open>The index part of \<open>put\<close>: the new entry and the flags of the entries it references.\<close>

lemma put_index:
  fixes e :: "'p entry"
  assumes "ei_env_ok L" and "shallow_ok (ei_index s)" and "heads_ok_except P (ei_index s)"
    and "m_type (e_meta e) = APPEND" and "h = e_hash_str e" and "h \<noteq> []" and "h \<notin> set (m_next (e_meta e))"
    and "isHead \<longleftrightarrow> \<not> referenced (ei_index s) h \<and> h \<notin> P" and "\<forall>old. metas (ei_index s) h = Some old \<longrightarrow> old = e_meta e"
  shows "\<exists>idx1 g idx2. hm_put (ee_index L) (ei_index s) (toShallow (ee_byteLength L) e isHead) None = Inr idx1 \<and>
    notify_gids L (s\<lparr>ei_cache := c, ei_index := idx1\<rparr>) h (e_meta e) = Inr (s\<lparr>ei_cache := c, ei_index := idx1, ei_gidRemoved := g\<rparr>) \<and>
    privateUpdateNextHeadProperty L (s\<lparr>ei_cache := c, ei_index := idx1, ei_gidRemoved := g\<rparr>) (e_meta e) False =
      Inr (s\<lparr>ei_cache := c, ei_index := idx2, ei_gidRemoved := g\<rparr>) \<and>
    shallow_ok idx2 \<and> heads_ok_except P idx2 \<and> metas idx2 = (metas (ei_index s))(h \<mapsto> e_meta e) \<and>
    length idx2 = (if metas (ei_index s) h = None then Suc (length (ei_index s)) else length (ei_index s))"
proof -
  obtain b64 lc d where E: "ee_index L = shallow_env b64 lc (Suc (Suc d))" using assms(1) by (auto simp: ei_env_ok_def)
  let ?x = "toShallow (ee_byteLength L) e isHead"
  let ?idx1 = "projr (hm_put (shallow_env b64 lc (Suc (Suc d))) (ei_index s) ?x None)"
  have x: "se_hash ?x = h" "se_meta ?x = e_meta e" "se_head ?x = isHead" by (simp_all add: toShallow_def assms(5))
  have p: "hm_put (ee_index L) (ei_index s) ?x None = Inr ?idx1" unfolding E by (simp add: shallow_put_eq)
  have ok1: "shallow_ok ?idx1" by (rule shallow_store.inv_put [OF assms(2)])
  have l1: "shallow_lookup ?idx1 = (shallow_lookup (ei_index s))(h \<mapsto> ?x)"
    using shallow_store.lookup_put [OF assms(2), of b64 lc "Suc (Suc d)" ?x] x(1) by simp
  have len1: "length ?idx1 = (if metas (ei_index s) h = None then Suc (length (ei_index s)) else length (ei_index s))"
    using x(1) by (auto simp: shallow_put_eq length_jm_set jm_has_def metas_def shallow_lookup_def)
  obtain g where g: "notify_gids L (s\<lparr>ei_cache := c, ei_index := ?idx1\<rparr>) h (e_meta e) =
      Inr (s\<lparr>ei_cache := c, ei_index := ?idx1, ei_gidRemoved := g\<rparr>)"
    using notify_gids_index [OF assms(1) _ assms(6), of "s\<lparr>ei_cache := c, ei_index := ?idx1\<rparr>" "e_meta e"] ok1 by auto
  let ?s1 = "s\<lparr>ei_cache := c, ei_index := ?idx1, ei_gidRemoved := g\<rparr>"
  have s1: "ei_index ?s1 = ?idx1" "\<And>i. ?s1\<lparr>ei_index := i\<rparr> = s\<lparr>ei_cache := c, ei_index := i, ei_gidRemoved := g\<rparr>" by simp_all
  obtain idx2 where idx2: "updateNextHeads L False (m_next (e_meta e)) ?s1 = Inr (s\<lparr>ei_cache := c, ei_index := idx2, ei_gidRemoved := g\<rparr>)"
    "shallow_ok idx2" "length idx2 = length ?idx1"
    "\<forall>k. shallow_lookup idx2 k = (if k \<in> set (m_next (e_meta e)) \<and> (False \<longrightarrow> \<not> referenced ?idx1 k)
       then map_option (\<lambda>e. e\<lparr>se_head := False\<rparr>) (shallow_lookup ?idx1 k) else shallow_lookup ?idx1 k)"
    using updateNextHeads_ok [OF assms(1), of ?s1 False "m_next (e_meta e)", unfolded s1, OF ok1] by blast
  have f: "\<forall>k. shallow_lookup idx2 k = (if k \<in> set (m_next (e_meta e))
       then map_option (\<lambda>e. e\<lparr>se_head := False\<rparr>) (shallow_lookup ?idx1 k) else shallow_lookup ?idx1 k)"
    using idx2(4) by simp
  have "heads_ok_except P idx2 \<and> metas idx2 = (metas (ei_index s))(h \<mapsto> e_meta e)"
    using assms(8) x(3) by (intro heads_ok_put [OF assms(3) l1 x(2) _ assms(7,9) f]) simp
  moreover have "privateUpdateNextHeadProperty L ?s1 (e_meta e) False = Inr (s\<lparr>ei_cache := c, ei_index := idx2, ei_gidRemoved := g\<rparr>)"
    using idx2(1) assms(4) by (simp only: privateUpdateNextHeadProperty_def EntryType.simps if_False)
  ultimately show ?thesis using p g idx2(2,3) len1 by metis
qed

text \<open>The index part of \<open>delete\<close>: the entry is gone and the flags of the entries it referenced are right.\<close>

lemma delete_index:
  assumes "ei_env_ok L" and "shallow_ok (ei_index s)" and "heads_ok (ei_index s)"
    and "metas (ei_index s) k = Some m" and "m_type m = APPEND"
  shows "\<exists>idx1 idx2. hm_del (ee_index L) (ei_index s) (hash_record k) = Inr ([StringKey k], idx1) \<and>
    privateUpdateNextHeadProperty L (s\<lparr>ei_index := idx1, ei_store := st, ei_length := n\<rparr>) m True =
      Inr (s\<lparr>ei_index := idx2, ei_store := st, ei_length := n\<rparr>) \<and>
    shallow_ok idx2 \<and> heads_ok idx2 \<and> metas idx2 = (metas (ei_index s))(k := None) \<and>
    Suc (length idx2) = length (ei_index s)"
proof -
  obtain b64 lc d where E: "ee_index L = shallow_env b64 lc (Suc (Suc d))" using assms(1) by (auto simp: ei_env_ok_def)
  let ?idx1 = "jm_delete (ei_index s) (PStr k)"
  obtain x where x: "shallow_lookup (ei_index s) k = Some x" using assms(4) by (auto simp: metas_def)
  have d: "hm_del (shallow_env b64 lc (Suc (Suc d))) (ei_index s) (hash_record k) = Inr ([StringKey k], ?idx1)"
    by (simp add: shallow_del_eq [OF assms(2)] x)
  have ok1: "shallow_ok ?idx1" "shallow_lookup ?idx1 = (shallow_lookup (ei_index s))(k := None)"
    using shallow_store.inv_del [OF assms(2), of b64 lc "Suc (Suc d)" k]
      shallow_store.lookup_del [OF assms(2), of b64 lc "Suc (Suc d)" k] by (simp_all add: d)
  have len1: "Suc (length ?idx1) = length (ei_index s)"
    using assms(2) x by (intro length_jm_delete) (auto simp: shallow_ok_def jm_has_def shallow_lookup_def)
  let ?s1 = "s\<lparr>ei_index := ?idx1, ei_store := st, ei_length := n\<rparr>"
  have s1: "ei_index ?s1 = ?idx1" "\<And>i. ?s1\<lparr>ei_index := i\<rparr> = s\<lparr>ei_index := i, ei_store := st, ei_length := n\<rparr>" by simp_all
  obtain idx2 where idx2: "updateNextHeads L True (m_next m) ?s1 = Inr (s\<lparr>ei_index := idx2, ei_store := st, ei_length := n\<rparr>)"
    "shallow_ok idx2" "length idx2 = length ?idx1"
    "\<forall>h. shallow_lookup idx2 h = (if h \<in> set (m_next m) \<and> (True \<longrightarrow> \<not> referenced ?idx1 h)
       then map_option (\<lambda>e. e\<lparr>se_head := True\<rparr>) (shallow_lookup ?idx1 h) else shallow_lookup ?idx1 h)"
    using updateNextHeads_ok [OF assms(1), of ?s1 True "m_next m", unfolded s1, OF ok1(1)] by blast
  have "heads_ok idx2 \<and> metas idx2 = (metas (ei_index s))(k := None)"
    using idx2(4) by (intro heads_ok_delete [OF assms(3) ok1(2) assms(4)]) simp
  moreover have "privateUpdateNextHeadProperty L ?s1 m True = Inr (s\<lparr>ei_index := idx2, ei_store := st, ei_length := n\<rparr>)"
    using idx2(1) assms(5) by (simp only: privateUpdateNextHeadProperty_def EntryType.simps if_False)
  ultimately show ?thesis using d idx2(2,3) len1 unfolding E by metis
qed

lemma delete_absent:
  assumes "ei_env_ok L" and "shallow_ok (ei_index s)" and "metas (ei_index s) k = None"
    and "\<forall>f. from = Some f \<longrightarrow> se_hash f = k"
  shows "\<exists>st. ei_delete L s k from = Inr (None, s\<lparr>ei_cache := snd (cache_del (ei_cache s) k), ei_store := st\<rparr>)"
proof -
  have l: "shallow_lookup (ei_index s) k = None" using assms(3) by (simp add: metas_def)
  have d: "hm_del (ee_index L) (ei_index s) (hash_record k) = Inr ([], ei_index s)"
    using assms(1) by (auto simp: ei_env_ok_def shallow_del_eq [OF assms(2)] l)
  show ?thesis
  proof (cases "from")
    case None
    then show ?thesis
      by (intro exI [of _ "ei_store s"]) (simp add: ei_delete_def Let_def getShallow_lookup [OF assms(1)] l)
  next
    case (Some f)
    with assms(4) show ?thesis
      by (intro exI [of _ "jm_delete (ei_store s) k"]) (simp add: ei_delete_def Let_def d)
  qed
qed

text \<open>The number of entries \<open>put\<close> counts: what \<open>has\<close> answers for a coherent cache.\<close>

lemma put_known:
  assumes "ei_env_ok L" and "entry_cache.coherent (known_only (ei_index s)) (ei_cache s)"
    and "unique \<longrightarrow> metas (ei_index s) h = None"
  obtains c where "(if unique then Inr (False, s) else ei_has now L s h) = Inr (metas (ei_index s) h \<noteq> None, s\<lparr>ei_cache := c\<rparr>)"
    and "entry_cache.coherent (known_only (ei_index s)) c"
proof (cases unique)
  case True
  with assms(2,3) show thesis by (intro that [of "ei_cache s"]) simp_all
next
  case False
  with ei_has_ok [OF assms(1,2), of now h] show thesis by (auto intro: that)
qed

text \<open>The key itself may be cached while the index does not have it.\<close>

lemma ei_delete_ok:
  assumes "ei_env_ok L" and "ei_inv (s\<lparr>ei_cache := c0\<rparr>)"
    and "\<forall>f. from = Some f \<longrightarrow> se_hash f = k \<and> (\<forall>m. metas (ei_index s) k = Some m \<longrightarrow> se_meta f = m)"
    and "entry_cache.coherent (\<lambda>j v. known_only (ei_index s) j v \<or> j = k) (ei_cache s)"
  shows "\<exists>r s'. ei_delete L s k from = Inr (r, s') \<and> ei_inv s' \<and>
    metas (ei_index s') = (metas (ei_index s))(k := None) \<and> (r \<noteq> None \<longleftrightarrow> metas (ei_index s) k \<noteq> None) \<and>
    ei_initialized s' = ei_initialized s"
proof -
  let ?idx = "ei_index s" and ?c = "snd (cache_del (ei_cache s) k)"
  have inv: "shallow_ok ?idx" "heads_ok ?idx" using assms(2) by (simp_all add: ei_inv_def)
  have coh: "entry_cache.coherent (\<lambda>j v. known_only ?idx j v \<and> j \<noteq> k) ?c"
    using entry_cache.coherent_del [OF assms(4), of k] by (rule entry_cache.coherent_mono) auto
  have mismatch: "\<not> (case from of None \<Rightarrow> False | Some f \<Rightarrow> se_hash f \<noteq> k)" using assms(3) by (auto split: option.split)
  show ?thesis
  proof (cases "metas ?idx k")
    case None
    have c: "entry_cache.coherent (known_only ?idx) ?c" using coh by (rule entry_cache.coherent_mono) simp
    have "\<exists>st. ei_delete L s k from = Inr (None, s\<lparr>ei_cache := ?c, ei_store := st\<rparr>)"
      using assms(3) by (intro delete_absent [OF assms(1) inv(1) None]) simp
    moreover have "ei_inv (s\<lparr>ei_cache := ?c, ei_store := st\<rparr>)" for st using assms(2) c by (simp add: ei_inv_def)
    ultimately show ?thesis using None by fastforce
  next
    case (Some m)
    have ap: "m_type m = APPEND" using assms(2) Some by (simp add: ei_inv_def)
    obtain f where f: "(case from of None \<Rightarrow> ei_getShallow L (s\<lparr>ei_cache := ?c\<rparr>) k | Some f \<Rightarrow> Some f) = Some f" "se_meta f = m"
      using assms(3) Some by (cases "from") (auto simp: getShallow_lookup [OF assms(1)] metas_def)
    let ?st = "jm_delete (ei_store s) k" and ?n = "ei_length s - 1" and ?s = "s\<lparr>ei_cache := ?c\<rparr>"
    obtain i1 i2 where i: "hm_del (ee_index L) ?idx (hash_record k) = Inr ([StringKey k], i1)"
      "privateUpdateNextHeadProperty L (?s\<lparr>ei_index := i1, ei_store := ?st, ei_length := ?n\<rparr>) m True =
        Inr (?s\<lparr>ei_index := i2, ei_store := ?st, ei_length := ?n\<rparr>)"
      "shallow_ok i2" "heads_ok i2" "metas i2 = (metas ?idx)(k := None)" "Suc (length i2) = length ?idx"
      using delete_index [OF assms(1), of ?s k m ?n ?st] inv Some ap by auto
    let ?s' = "?s\<lparr>ei_index := i2, ei_store := ?st, ei_length := ?n\<rparr>"
    have "ei_delete L s k from = Inr (Some f, ?s')"
      unfolding ei_delete_def Let_def f(1) option.case using mismatch i(1,2) f(2) by simp
    moreover have "ei_inv ?s'"
    proof -
      have "entry_cache.coherent (known_only i2) ?c"
        using coh by (rule entry_cache.coherent_mono) (auto simp: known_only_def i(5))
      moreover have "ei_length ?s' = int (length i2)" using assms(2) i(6) by (simp add: ei_inv_def)
      ultimately show ?thesis using i(3,4,5) assms(2) by (auto simp: ei_inv_def split: if_splits)
    qed
    ultimately show ?thesis using i(5) Some by (intro exI [of _ "Some f"] exI [of _ ?s']) simp
  qed
qed

lemma ei_put_except:
  fixes e :: "'p entry"
  assumes "ei_env_ok L" and "ei_inv_except P s" and "put_hash L s e toMultiHash = Inr (e1, s1)" and "e_hash_str e1 \<noteq> []"
    and "m_type (e_meta e) = APPEND" and "e_hash_str e1 \<notin> set (m_next (e_meta e))"
    and "isHead \<longleftrightarrow> \<not> referenced (ei_index s) (e_hash_str e1) \<and> e_hash_str e1 \<notin> P"
    and "\<forall>old. metas (ei_index s) (e_hash_str e1) = Some old \<longrightarrow> old = e_meta e \<and> \<not> unique"
  shows "\<exists>s'. ei_put now L s e unique isHead toMultiHash = Inr (e1, s') \<and> ei_inv_except P s' \<and>
    metas (ei_index s') = (metas (ei_index s))(e_hash_str e1 \<mapsto> e_meta e) \<and> ei_store s' = ei_store s1 \<and> ei_initialized s' = ei_initialized s"
proof -
  let ?h = "e_hash_str e1" and ?idx = "ei_index s"
  obtain st where st: "s1 = s\<lparr>ei_store := st\<rparr>" and m1: "e_meta e1 = e_meta e" using put_hash_meta [OF assms(3)] by blast
  have coh: "entry_cache.coherent (known_only ?idx) (ei_cache s)" using assms(2) by (simp add: ei_inv_except_def)
  have idx1: "ei_index s1 = ?idx" "ei_cache s1 = ei_cache s" "ei_length s1 = ei_length s" "ei_initialized s1 = ei_initialized s" by (simp_all add: st)
  let ?known = "metas ?idx ?h \<noteq> None"
  have u: "unique \<longrightarrow> metas ?idx ?h = None" using assms(8) by (cases "metas ?idx ?h") auto
  obtain c where k: "(if unique then Inr (False, s1) else ei_has now L s1 ?h) = Inr (?known, s1\<lparr>ei_cache := c\<rparr>)"
    "entry_cache.coherent (known_only ?idx) c"
    using put_known [OF assms(1), of s1 unique ?h now] coh u unfolding idx1 by blast
  let ?s3 = "if ?known then s1\<lparr>ei_cache := c\<rparr> else s1\<lparr>ei_cache := c, ei_length := ei_length s + 1\<rparr>"
  have s3: "ei_index ?s3 = ?idx" "ei_cache ?s3 = c" using idx1 by simp_all
  let ?Q = "\<lambda>j (v :: 'p entry option). v = None \<or> j = ?h \<or> metas ?idx j \<noteq> None"
  have "entry_cache.coherent ?Q c" using k(2) by (rule entry_cache.coherent_mono) (auto simp: known_only_def)
  then obtain c' where c': "cache_add now c ?h (Some e1) 1 = Inr c'" "entry_cache.coherent ?Q c'"
    using entry_cache.coherent_add [of ?Q c ?h "Some e1" now] by auto
  have inv: "shallow_ok (ei_index ?s3)" "heads_ok_except P (ei_index ?s3)" using assms(2) s3 by (simp_all add: ei_inv_except_def)
  obtain i1 g i2 where i: "hm_put (ee_index L) (ei_index ?s3) (toShallow (ee_byteLength L) e1 isHead) None = Inr i1"
    "notify_gids L (?s3\<lparr>ei_cache := c', ei_index := i1\<rparr>) ?h (e_meta e1) = Inr (?s3\<lparr>ei_cache := c', ei_index := i1, ei_gidRemoved := g\<rparr>)"
    "privateUpdateNextHeadProperty L (?s3\<lparr>ei_cache := c', ei_index := i1, ei_gidRemoved := g\<rparr>) (e_meta e1) False =
      Inr (?s3\<lparr>ei_cache := c', ei_index := i2, ei_gidRemoved := g\<rparr>)"
    "shallow_ok i2" "heads_ok_except P i2" "metas i2 = (metas ?idx)(?h \<mapsto> e_meta e)"
    "length i2 = (if metas ?idx ?h = None then Suc (length ?idx) else length ?idx)"
    using put_index [OF assms(1) inv, of e1 ?h isHead c'] assms(4-8) unfolding s3 m1 by blast
  let ?s' = "?s3\<lparr>ei_cache := c', ei_index := i2, ei_gidRemoved := g\<rparr>"
  have "ei_put now L s e unique isHead toMultiHash = Inr (e1, ?s')"
    unfolding ei_put_def assms(3) bind_sum.simps prod.case Let_def k(1)
    using c'(1) i(1,2,3) idx1 by (cases ?known) (simp_all del: bind_sum_eq_Inr)
  moreover have "ei_inv_except P ?s'"
  proof -
    have "entry_cache.coherent (known_only i2) c'"
      using c'(2) by (rule entry_cache.coherent_mono) (auto simp: known_only_def i(6))
    moreover have "ei_length ?s' = int (length i2)" using assms(2) i(7) idx1 by (auto simp: ei_inv_except_def)
    ultimately show ?thesis using i(4,5,6) assms(2,5) by (auto simp: ei_inv_except_def split: if_splits)
  qed
  ultimately show ?thesis using i(6) idx1(4) by (intro exI [of _ ?s']) simp
qed

section \<open>A concrete entry index\<close>

definition clock_ex :: "int \<Rightarrow> lamportClock" where
  "clock_ex t = \<lparr>lc_id = [1], lc_timestamp = Timestamp t 0\<rparr>"

definition meta_ex :: "int \<Rightarrow> string \<Rightarrow> string list \<Rightarrow> meta" where
  "meta_ex t gid nexts = \<lparr>m_clock = clock_ex t, m_gid = gid, m_next = nexts, m_type = APPEND, m_data = None\<rparr>"

definition ei_env_ex :: "nat ei_env" where
  "ei_env_ex = \<lparr>ee_index = shallow_env (\<lambda>_. []) (\<lambda>_ _. 0) 2, ee_sort = LastWriteWins, ee_cid = (\<lambda>_. ''c''),
     ee_byteLength = int, ee_onGidRemoved = True\<rparr>"

definition shallow_ex :: "string \<Rightarrow> meta \<Rightarrow> bool \<Rightarrow> idPrimitive \<times> shallowEntry indexedValue" where
  "shallow_ex h m b = (PStr h, \<lparr>iv_id = StringKey h, iv_value = \<lparr>se_hash = h, se_meta = m, se_payloadSize = 1, se_head = b\<rparr>\<rparr>)"

text \<open>Two entries, \<open>b\<close> after \<open>a\<close>, of different graphs.\<close>

definition index_ex :: "shallowEntry hashmap" where
  "index_ex = [shallow_ex ''a'' (meta_ex 1 ''g'' []) False, shallow_ex ''b'' (meta_ex 2 ''h'' [''a'']) True]"

definition ei_ex :: "nat entryIndex" where
  "ei_ex = ei_init (new_EntryIndex index_ex [])"

definition entry_ex :: "nat entry" where
  "entry_ex = \<lparr>e_hash = None, e_meta = meta_ex 3 ''g'' [], e_payload = 7\<rparr>"

lemma ei_env_ex_ok: "ei_env_ok ei_env_ex"
proof -
  have "ee_index ei_env_ex = shallow_env (\<lambda>_. []) (\<lambda>_ _. 0) (Suc (Suc 0))" by (simp add: ei_env_ex_def numeral_2_eq_2)
  then show ?thesis unfolding ei_env_ok_def by (intro conjI exI) (simp_all add: ei_env_ex_def)
qed

lemma lookup_ex: "shallow_lookup index_ex h =
  (if h = ''a'' then Some \<lparr>se_hash = ''a'', se_meta = meta_ex 1 ''g'' [], se_payloadSize = 1, se_head = False\<rparr>
   else if h = ''b'' then Some \<lparr>se_hash = ''b'', se_meta = meta_ex 2 ''h'' [''a''], se_payloadSize = 1, se_head = True\<rparr> else None)"
  by (auto simp: shallow_lookup_def index_ex_def shallow_ex_def)

lemma metas_ex: "metas index_ex h = (if h = ''a'' then Some (meta_ex 1 ''g'' []) else if h = ''b'' then Some (meta_ex 2 ''h'' [''a'']) else None)"
  by (simp add: metas_def lookup_ex)

lemma referenced_ex: "referenced index_ex n \<longleftrightarrow> n = ''a''"
  by (auto simp: referenced_metas metas_ex meta_ex_def split: if_splits)

lemma coherent_new: "entry_cache.coherent P (ei_cache (new_EntryIndex idx store))"
  by (simp add: entry_cache.coherent_def new_EntryIndex_def cache_live_def cache_inv_def ENTRY_CACHE_MAX_SIZE_def)

lemma ei_ex_index: "ei_index ei_ex = index_ex"
  by (simp add: ei_ex_def ei_init_def new_EntryIndex_def)

lemma ei_inv_ex: "ei_inv ei_ex"
proof -
  have "shallow_ok index_ex" by (simp add: shallow_ok_def index_ex_def shallow_ex_def jm_ok_def)
  moreover have "heads_ok index_ex" by (auto simp: heads_ok_def lookup_ex referenced_ex split: if_splits)
  moreover have "\<forall>h m. metas index_ex h = Some m \<longrightarrow> m_type m = APPEND" by (auto simp: metas_ex meta_ex_def split: if_splits)
  moreover have s: "ei_index ei_ex = index_ex" "ei_length ei_ex = 2" "ei_cache ei_ex = ei_cache (new_EntryIndex index_ex [])"
    by (simp_all add: ei_ex_def ei_init_def new_EntryIndex_def hm_getSize_def index_ex_def)
  ultimately show ?thesis using coherent_new by (simp add: ei_inv_def s) (simp add: index_ex_def)
qed

section \<open>Properties\<close>

text \<open>An insertion reports exactly the graph ids it shadows: those of the entries it references that
  belong to another graph and that no other entry of the index references, each once, and none when
  there are none.\<close>

theorem notify_gids_effect:
  assumes "ei_env_ok L" and "shallow_ok (ei_index s)" and "h \<noteq> []" and "ee_onGidRemoved L"
  shows "\<exists>gids. notify_gids L s h m =
      Inr (s\<lparr>ei_gidRemoved := ei_gidRemoved s @ (if gids = [] then [] else [gids])\<rparr>) \<and> distinct gids \<and>
    set gids = {m_gid (se_meta e) |n e. n \<in> set (m_next m) \<and> shallow_lookup (ei_index s) n = Some e \<and>
      m_gid (se_meta e) \<noteq> m_gid m \<and> \<not> referenced_by_other (ei_index s) h n}"
  by (rule notify_gids_reports [OF assms])

theorem notify_gids_effect_witness:
  "\<exists>gids. notify_gids ei_env_ex ei_ex ''c'' (meta_ex 3 ''x'' [''b'']) =
      Inr (ei_ex\<lparr>ei_gidRemoved := ei_gidRemoved ei_ex @ (if gids = [] then [] else [gids])\<rparr>) \<and> distinct gids \<and> set gids = {''h''}"
proof -
  have ok: "shallow_ok (ei_index ei_ex)" "ee_onGidRemoved ei_env_ex" using ei_inv_ex by (simp_all add: ei_inv_def ei_env_ex_def)
  have "{m_gid (se_meta e) |n e. n \<in> set (m_next (meta_ex 3 ''x'' [''b''])) \<and> shallow_lookup (ei_index ei_ex) n = Some e \<and>
      m_gid (se_meta e) \<noteq> m_gid (meta_ex 3 ''x'' [''b'']) \<and> \<not> referenced_by_other (ei_index ei_ex) ''c'' n} = {''h''}"
    by (auto simp: ei_ex_index lookup_ex meta_ex_def refs_def referenced_by_other_def split: if_splits)
  with notify_gids_effect [OF ei_env_ex_ok ok(1) _ ok(2), of "''c''" "meta_ex 3 ''x'' [''b'']"] show ?thesis by simp
qed

text \<open>(C8) Inserting an entry of type \<open>APPEND\<close> keeps the invariant: the head flags, the number of entries and
  the cache are those of the index with the entry, provided the caller says rightly whether the
  entry is a head and whether it is new. The content changes at its hash only.\<close>

theorem ei_put_inv:
  fixes e :: "'p entry"
  assumes "ei_env_ok L" and "ei_inv s" and "put_hash L s e toMultiHash = Inr (e1, s1)" and "e_hash_str e1 \<noteq> []"
    and "m_type (e_meta e) = APPEND" and "e_hash_str e1 \<notin> set (m_next (e_meta e))"
    and "isHead \<longleftrightarrow> \<not> referenced (ei_index s) (e_hash_str e1)"
    and "\<forall>old. metas (ei_index s) (e_hash_str e1) = Some old \<longrightarrow> old = e_meta e \<and> \<not> unique"
  shows "\<exists>s'. ei_put now L s e unique isHead toMultiHash = Inr (e1, s') \<and> ei_inv s' \<and>
    metas (ei_index s') = (metas (ei_index s))(e_hash_str e1 \<mapsto> e_meta e)"
  using ei_put_except [of L "{}" s e toMultiHash e1 s1 isHead unique now] assms by (auto simp: ei_inv_except_empty)

theorem ei_put_inv_witness:
  "\<exists>s'. ei_put 5 ei_env_ex ei_ex (entry_ex\<lparr>e_hash := Some ''c'', e_meta := meta_ex 3 ''h'' [''b'']\<rparr>) True True False =
      Inr (entry_ex\<lparr>e_hash := Some ''c'', e_meta := meta_ex 3 ''h'' [''b'']\<rparr>, s') \<and> ei_inv s' \<and>
    metas (ei_index s') = (metas index_ex)(''c'' \<mapsto> meta_ex 3 ''h'' [''b''])"
proof -
  let ?e = "entry_ex\<lparr>e_hash := Some ''c'', e_meta := meta_ex 3 ''h'' [''b'']\<rparr>"
  have p: "put_hash ei_env_ex ei_ex ?e False = Inr (?e, ei_ex)" by (simp add: put_hash_def)
  show ?thesis
    using ei_put_inv [OF ei_env_ex_ok ei_inv_ex p, of True True 5]
    by (simp add: e_hash_str_def meta_ex_def ei_ex_index referenced_ex metas_ex)
qed

text \<open>(C9) Deleting an entry keeps the invariant: the entries that only it referenced become heads, the length
  and the cache follow, and the content changes at its hash only. It returns the entry exactly when
  the index held it.\<close>

theorem ei_delete_inv:
  assumes "ei_env_ok L" and "ei_inv s"
    and "\<forall>f. from = Some f \<longrightarrow> se_hash f = k \<and> (\<forall>m. metas (ei_index s) k = Some m \<longrightarrow> se_meta f = m)"
  shows "\<exists>r s'. ei_delete L s k from = Inr (r, s') \<and> ei_inv s' \<and>
    metas (ei_index s') = (metas (ei_index s))(k := None) \<and> (r \<noteq> None \<longleftrightarrow> metas (ei_index s) k \<noteq> None)"
proof -
  have "entry_cache.coherent (\<lambda>j v. known_only (ei_index s) j v \<or> j = k) (ei_cache s)"
    using assms(2) by (auto simp: ei_inv_def intro: entry_cache.coherent_mono)
  with ei_delete_ok [OF assms(1) _ assms(3), of "ei_cache s"] assms(2) show ?thesis by auto
qed

theorem ei_delete_inv_witness:
  "\<exists>r s'. ei_delete ei_env_ex ei_ex ''b'' None = Inr (r, s') \<and> ei_inv s' \<and>
    metas (ei_index s') = (metas index_ex)(''b'' := None) \<and> r \<noteq> None"
  using ei_delete_inv [OF ei_env_ex_ok ei_inv_ex, of None "''b''"] by (auto simp: ei_ex_index metas_ex)

text \<open>An entry read from the store is remembered in the cache, and \<open>has\<close> answers from the cache: it then
  holds for an entry the index does not have, and a later insertion of that entry is not counted, so
  that the length is less than the number of entries.\<close>

theorem resolve_hides_insertion:
  assumes "ei_env_ok L" and "k \<noteq> []" and "m_next (e_meta e) = []"
  shows "\<exists>s1 s2. ei_resolve now (ei_init (new_EntryIndex [] [(k, e)])) k False = Inr (Some (e\<lparr>e_hash := Some k\<rparr>), s1) \<and>
    ei_has now L s1 k = Inr (True, s1) \<and> shallow_lookup (ei_index s1) k = None \<and>
    ei_put now L s1 (e\<lparr>e_hash := Some k\<rparr>) False True False = Inr (e\<lparr>e_hash := Some k\<rparr>, s2) \<and>
    hm_getSize (ei_index s2) = 1 \<and> ei_get_length s2 = Inr 0"
proof -
  obtain b64 lc d where E: "ee_index L = shallow_env b64 lc (Suc (Suc d))" using assms(1) by (auto simp: ei_env_ok_def)
  let ?e = "e\<lparr>e_hash := Some k\<rparr>" and ?s = "ei_init (new_EntryIndex [] [(k, e)])"
  let ?c = "\<lparr>cache_map = [(k, \<lparr>cd_value = Some ?e, cd_time = now, cd_size = 1\<rparr>)], cache_deleted = [], cache_list = [k],
    currentSize = 1, cache_max = 10, cache_ttl = None\<rparr>"
  have get: "cache_get now (ei_cache ?s) k = Inr (None, ei_cache ?s)"
    by (simp add: ei_init_def new_EntryIndex_def cache_get_def cache_trim.simps ENTRY_CACHE_MAX_SIZE_def)
  have add: "cache_add now (ei_cache ?s) k (Some ?e) 1 = Inr ?c"
    by (simp add: ei_init_def new_EntryIndex_def cache_add_def add_entry_def cache_trim.simps
        ENTRY_CACHE_MAX_SIZE_def Let_def jm_has_def js_remove_def out_of_date_def)
  have get1: "cache_get now ?c k = Inr (Some (Some ?e), ?c)"
    by (simp add: cache_get_def cache_trim.simps out_of_date_def)
  have add1: "cache_add now ?c k (Some ?e) 1 = Inr ?c"
    by (simp add: cache_add_def add_entry_def cache_trim.simps out_of_date_def Let_def jm_has_def js_remove_def)
  let ?s1 = "?s\<lparr>ei_cache := ?c\<rparr>" and ?i = "[(PStr k, \<lparr>iv_id = StringKey k, iv_value = toShallow (ee_byteLength L) ?e True\<rparr>)]"
  have s: "ei_index ?s = []" "ei_store ?s = [(k, e)]" "ei_length ?s = 0" "ei_initialized ?s"
    by (simp_all add: ei_init_def new_EntryIndex_def hm_getSize_def)
  have "ei_resolve now ?s k False = Inr (Some ?e, ?s1)"
    by (simp add: ei_resolve_def get s add Let_def del: bind_sum_eq_Inr)
  moreover have has: "ei_has now L ?s1 k = Inr (True, ?s1)" by (simp add: ei_has_def get1 Let_def)
  moreover have "shallow_lookup (ei_index ?s1) k = None" by (simp add: s shallow_lookup_def)
  moreover have "ei_put now L ?s1 ?e False True False = Inr (?e, ?s1\<lparr>ei_index := ?i\<rparr>)"
    using assms(2,3) has add1
    by (simp add: ei_put_def put_hash_def e_hash_str_def Let_def s E shallow_put_eq notify_gids_def
        privateUpdateNextHeadProperty_def toShallow_def del: bind_sum_eq_Inr)
  ultimately show ?thesis using s by (intro exI [of _ ?s1] exI [of _ "?s1\<lparr>ei_index := ?i\<rparr>"]) (simp add: hm_getSize_def ei_get_length_def)
qed

theorem resolve_hides_insertion_witness:
  "\<exists>s1 s2. ei_resolve 5 (ei_init (new_EntryIndex [] [(''a'', entry_ex)])) ''a'' False = Inr (Some (entry_ex\<lparr>e_hash := Some ''a''\<rparr>), s1) \<and>
    ei_has 5 ei_env_ex s1 ''a'' = Inr (True, s1) \<and> shallow_lookup (ei_index s1) ''a'' = None \<and>
    ei_put 5 ei_env_ex s1 (entry_ex\<lparr>e_hash := Some ''a''\<rparr>) False True False = Inr (entry_ex\<lparr>e_hash := Some ''a''\<rparr>, s2) \<and>
    hm_getSize (ei_index s2) = 1 \<and> ei_get_length s2 = Inr 0"
  by (rule resolve_hides_insertion [OF ei_env_ex_ok]) (simp_all add: entry_ex_def meta_ex_def)

text \<open>With \<open>toMultiHash\<close> the hash of an entry is never checked against its content: an entry whose hash is
  wrong is indexed under that hash while its block is stored under the content hash, and an index
  opened on the same data has the entry but cannot load it.\<close>

theorem wrong_hash_accepted:
  assumes "ei_env_ok L" and "e_hash e = Some h" and "h \<noteq> []" and "m_next (e_meta e) = []"
    and "ee_cid L (e\<lparr>e_hash := None\<rparr>) \<noteq> h"
  shows "\<exists>s'. ei_put now L (new_EntryIndex [] []) e False True True = Inr (e, s') \<and>
    ei_getShallow L s' h \<noteq> None \<and>
    ei_resolve later (new_EntryIndex (ei_index s') (ei_store s')) h False = Inl Failed_to_load_entry"
proof -
  obtain b64 lc d where E: "ee_index L = shallow_env b64 lc (Suc (Suc d))" using assms(1) by (auto simp: ei_env_ok_def)
  let ?x = "e\<lparr>e_hash := None\<rparr>"
  let ?s = "(new_EntryIndex [] [] :: 'a entryIndex)\<lparr>ei_store := [(ee_cid L ?x, ?x)]\<rparr>"
  let ?i = "[(PStr h, \<lparr>iv_id = StringKey h, iv_value = toShallow (ee_byteLength L) e True\<rparr>)]"
  have ph: "put_hash L (new_EntryIndex [] []) e True = Inr (e, ?s)"
    by (simp add: put_hash_def assms(2) Let_def new_EntryIndex_def)
  have has: "ei_has now L ?s h = Inr (False, ?s)"
    by (simp add: ei_has_def cache_get_def cache_trim.simps new_EntryIndex_def Let_def
        getShallow_lookup [OF assms(1)] shallow_lookup_def)
  obtain c where add: "cache_add now (ei_cache ?s) h (Some e) 1 = Inr c"
    using entry_cache.coherent_add [of "\<lambda>_ _. True" "ei_cache ?s" h "Some e" now] coherent_new by fastforce
  have s: "ei_index ?s = []" "ei_store ?s = [(ee_cid L ?x, ?x)]" "ei_length ?s = 0"
    "ei_index (new_EntryIndex [] [] :: 'a entryIndex) = []" by (simp_all add: new_EntryIndex_def)
  have str: "e_hash_str e = h" by (simp add: e_hash_str_def assms(2))
  let ?s' = "?s\<lparr>ei_length := 1, ei_cache := c, ei_index := ?i\<rparr>"
  have "ei_put now L (new_EntryIndex [] []) e False True True = Inr (e, ?s')"
    unfolding ei_put_def ph bind_sum.simps prod.case Let_def str if_False has
    using assms(4) add by (simp add: s E shallow_put_eq notify_gids_def privateUpdateNextHeadProperty_def toShallow_def str
        del: bind_sum_eq_Inr)
  moreover have "ei_getShallow L ?s' h \<noteq> None" by (simp add: getShallow_lookup [OF assms(1)] shallow_lookup_def)
  moreover have "ei_resolve later (new_EntryIndex (ei_index ?s') (ei_store ?s')) h False = Inl Failed_to_load_entry"
    using assms(5) by (simp add: ei_resolve_def new_EntryIndex_def cache_get_def cache_trim.simps Let_def)
  ultimately show ?thesis by blast
qed

theorem wrong_hash_accepted_witness:
  "\<exists>s'. ei_put 5 ei_env_ex (new_EntryIndex [] []) (entry_ex\<lparr>e_hash := Some ''w''\<rparr>) False True True =
      Inr (entry_ex\<lparr>e_hash := Some ''w''\<rparr>, s') \<and> ei_getShallow ei_env_ex s' ''w'' \<noteq> None \<and>
    ei_resolve 6 (new_EntryIndex (ei_index s') (ei_store s')) ''w'' False = Inl Failed_to_load_entry"
  by (rule wrong_hash_accepted [OF ei_env_ex_ok]) (simp_all add: entry_ex_def meta_ex_def ei_env_ex_def)

end
