(* ===== verification/Trim.thy ===== *)
theory Trim
  imports EntryIndex
begin

text \<open>
  Trimming the log, \<open>packages/log/src/trim.ts\<close>, over the entry index: the options, what the trimmer
  remembers between runs, and the loop that walks from the oldest entry and deletes until the
  condition holds.

  The function \<open>deleteNode\<close> of the log (\<open>log.ts\<close>, \<open>open\<close>) is \<open>deleteNode\<close> here. A filter is its function
  with a number for the identity of the function, which the code compares, and the value its
  \<open>cacheId\<close> returns at this run. The loop has fuel; a run that ends is \<open>Some\<close>, and the theorems show how
  much fuel is enough. Runs are serialised by the queue of the trimmer, so a run is one step.

  Shown here: the walk ends after at most one step per entry, trimming to a length leaves exactly the
  newest entries when the wall times differ, entries of one wall time are skipped, a filter that
  refuses everything deletes nothing.
\<close>

section \<open>Options\<close>

datatype trimCondition =
    TrimToLength int "int option"
  | TrimToByteLength int "int option"
  | TrimToTime int

datatype seed = SeedString string | SeedNumber int

record trimFilter =
  tf_ref :: nat
  tf_canTrim :: "shallowEntry \<Rightarrow> bool"
  tf_cacheId :: "seed option"

record trimOptions =
  to_condition :: trimCondition
  to_filter :: "trimFilter option"

definition canTrim_ref :: "trimOptions \<Rightarrow> nat option" where
  "canTrim_ref opts = map_option tf_ref (to_filter opts)"

definition trimOptionsEqual :: "trimOptions \<Rightarrow> trimOptions \<Rightarrow> bool" where
  "trimOptionsEqual a b \<longleftrightarrow> to_condition a = to_condition b \<and> canTrim_ref a = canTrim_ref b"

text \<open>\<open>from || to\<close>: a missing or zero \<open>from\<close> is replaced.\<close>

definition from_or :: "int option \<Rightarrow> int \<Rightarrow> int" where
  "from_or f t = (case f of None \<Rightarrow> t | Some x \<Rightarrow> if x = 0 then t else x)"

fun condition_stricter :: "trimCondition \<Rightarrow> trimCondition \<Rightarrow> bool" where
  "condition_stricter (TrimToLength t f) (TrimToLength t' f') = (t > t' \<or> from_or f t > from_or f' t')"
| "condition_stricter (TrimToByteLength t f) (TrimToByteLength t' f') = (t > t' \<or> from_or f t > from_or f' t')"
| "condition_stricter (TrimToTime a) (TrimToTime a') = (a > a')"
| "condition_stricter _ _ = True"

definition trimOptionsStricter :: "trimOptions \<Rightarrow> trimOptions \<Rightarrow> bool" where
  "trimOptionsStricter a b \<longleftrightarrow> canTrim_ref a \<noteq> canTrim_ref b \<or> condition_stricter (to_condition a) (to_condition b)"

section \<open>State\<close>

record trim =
  tr_options :: "trimOptions option"
  tr_canTrimCacheLastNode :: "shallowEntry option"
  tr_lastHead :: "shallowEntry option"
  tr_lastTail :: "shallowEntry option"
  tr_lastLength :: int
  tr_lastOptions :: "trimOptions option"
  tr_lastSeed :: "seed option"
  tr_breakpoint :: "(string, bool) cache"

definition new_Trim :: "trimOptions option \<Rightarrow> trim" where
  "new_Trim opts =
     \<lparr>tr_options = opts, tr_canTrimCacheLastNode = None, tr_lastHead = None, tr_lastTail = None, tr_lastLength = 0,
      tr_lastOptions = None, tr_lastSeed = None,
      tr_breakpoint = \<lparr>cache_map = [], cache_deleted = [], cache_list = [], currentSize = 0,
                       cache_max = 100000, cache_ttl = None\<rparr>\<rparr>"

definition deleteFromCache :: "'p ei_env \<Rightarrow> 'p entryIndex \<Rightarrow> trim \<Rightarrow> string \<Rightarrow> ei_error + trim" where
  "deleteFromCache L s t hash =
     (case tr_canTrimCacheLastNode t of
        Some n \<Rightarrow>
          if se_hash n = hash
          then bind_sum (ei_getAfter L s (se_meta n)) (\<lambda>after. Inr (t\<lparr>tr_canTrimCacheLastNode := after\<rparr>))
          else Inr t
      | None \<Rightarrow> Inr t)"

section \<open>Conditions\<close>

text \<open>\<open>BigInt\<close> of a sum, which is a number or a bigint.\<close>

definition sum_value :: "jsval \<Rightarrow> int" where
  "sum_value v = (case js_num v of None \<Rightarrow> 0 | Some n \<Rightarrow> n)"

text \<open>Whether a run goes on after the first test, and the function \<open>done\<close>.\<close>

fun trim_start :: "'p ei_env \<Rightarrow> 'p entryIndex \<Rightarrow> trimCondition \<Rightarrow> ei_error + bool" where
  "trim_start L s (TrimToLength t f) =
     bind_sum (ei_get_length s) (\<lambda>n. Inr (\<not> n < (case f of None \<Rightarrow> t | Some x \<Rightarrow> x)))"
| "trim_start L s (TrimToByteLength t f) =
     bind_sum (ei_getMemoryUsage L s) (\<lambda>v. Inr (\<not> sum_value v < (case f of None \<Rightarrow> t | Some x \<Rightarrow> x)))"
| "trim_start L s (TrimToTime a) = Inr True"

fun trim_done :: "int \<Rightarrow> 'p ei_env \<Rightarrow> 'p entryIndex \<Rightarrow> trimCondition \<Rightarrow> ei_error + bool" where
  "trim_done now L s (TrimToLength t f) = bind_sum (ei_get_length s) (\<lambda>n. Inr (n \<le> t))"
| "trim_done now L s (TrimToByteLength t f) = bind_sum (ei_getMemoryUsage L s) (\<lambda>v. Inr (sum_value v \<le> t))"
| "trim_done now L s (TrimToTime a) =
     bind_sum (ei_getOldest L s) (\<lambda>oldest.
       Inr (case oldest of
              None \<Rightarrow> True
            | Some n \<Rightarrow> now * 1000000 - wallTime (lc_timestamp (m_clock (se_meta n))) < a * 1000000))"

section \<open>The loop\<close>

definition deleteNode :: "int \<Rightarrow> 'p ei_env \<Rightarrow> 'p entryIndex \<Rightarrow> shallowEntry \<Rightarrow> ei_error + 'p entry option \<times> 'p entryIndex" where
  "deleteNode now L s node =
     bind_sum (ei_resolve now s (se_hash node) True) (\<lambda>(resolved, s1).
     bind_sum (ei_delete L s1 (se_hash node) None) (\<lambda>(_, s2).
       Inr (resolved, s2\<lparr>ei_store := jm_delete (ei_store s2) (se_hash node)\<rparr>)))"

record 'p trim_loop =
  tl_node :: "shallowEntry option"
  tl_lastNode :: "shallowEntry option"
  tl_looped :: bool
  tl_byGid :: "(string, bool) jsmap"
  tl_breakpoint :: "(string, bool) cache"
  tl_index :: "'p entryIndex"
  tl_deleted :: "'p entry list"

text \<open>What does not change during a run: the options, whether progress is cached, whether anything
  changed since the last run, the oldest entry and the entry the walk starts from.\<close>

record trim_run =
  tk_option :: trimOptions
  tk_cacheProgress :: bool
  tk_changed :: bool
  tk_tail :: "shallowEntry option"
  tk_startNode :: "shallowEntry option"

definition trim_guard :: "int \<Rightarrow> 'p ei_env \<Rightarrow> trim_run \<Rightarrow> 'p trim_loop \<Rightarrow> ei_error + bool" where
  "trim_guard now L R t =
     (case tl_node t of
        None \<Rightarrow> Inr False
      | Some node \<Rightarrow>
          bind_sum (trim_done now L (tl_index t) (to_condition (tk_option R))) (\<lambda>dn.
            if dn then Inr False
            else bind_sum (ei_get_length (tl_index t)) (\<lambda>n.
              Inr (n > 0 \<and> (\<not> tl_looped t \<or> Some (se_hash node) \<noteq> map_option se_hash (tk_startNode R))))))"

text \<open>Whether the entry may be deleted: the filter is asked once per graph id.\<close>

definition trim_deletable ::
  "int \<Rightarrow> trim_run \<Rightarrow> shallowEntry \<Rightarrow> 'p trim_loop \<Rightarrow> ei_error + bool \<times> 'p trim_loop" where
  "trim_deletable now R node t =
     (case to_filter (tk_option R) of
        None \<Rightarrow> Inr (True, t)
      | Some f \<Rightarrow>
          let gid = m_gid (se_meta node);
              (deleteAble, t1) = (case jm_get (tl_byGid t) gid of
                 Some b \<Rightarrow> (b, t)
               | None \<Rightarrow> (let b = tf_canTrim f node in (b, t\<lparr>tl_byGid := jm_set (tl_byGid t) gid b\<rparr>)))
          in if \<not> deleteAble \<and> tk_cacheProgress R
             then bind_sum (lift_cache (cache_add now (tl_breakpoint t1) (se_hash node) (Some True) 1)) (\<lambda>c.
                    Inr (deleteAble, t1\<lparr>tl_breakpoint := c\<rparr>))
             else Inr (deleteAble, t1))"

definition trim_move ::
  "int \<Rightarrow> 'p ei_env \<Rightarrow> shallowEntry \<Rightarrow> bool \<times> 'p trim_loop \<Rightarrow> ei_error + 'p trim_loop" where
  "trim_move now L node d =
     (let (deleteAble, t) = d in
      if deleteAble then
        bind_sum (ei_getAfter L (tl_index t) (se_meta node)) (\<lambda>prev.
        bind_sum (ei_getBefore L (tl_index t) (se_meta node)) (\<lambda>next.
        bind_sum (deleteNode now L (tl_index t) node) (\<lambda>(entry, s').
          Inr (t\<lparr>tl_index := s', tl_deleted := tl_deleted t @ (case entry of None \<Rightarrow> [] | Some e \<Rightarrow> [e]),
                 tl_node := prev, tl_lastNode := (case prev of None \<Rightarrow> next | Some p \<Rightarrow> Some p)\<rparr>))))
      else bind_sum (ei_getAfter L (tl_index t) (se_meta node)) (\<lambda>after.
             Inr (t\<lparr>tl_lastNode := Some node, tl_node := after\<rparr>)))"

text \<open>The body of the loop; the result says whether it goes on (no \<open>break\<close>).\<close>

definition trim_body :: "int \<Rightarrow> 'p ei_env \<Rightarrow> trim_run \<Rightarrow> shallowEntry \<Rightarrow> 'p trim_loop \<Rightarrow> ei_error + bool \<times> 'p trim_loop" where
  "trim_body now L R node t =
     bind_sum (trim_deletable now R node t) (\<lambda>d.
     bind_sum (trim_move now L node d) (\<lambda>t'.
       Inr (if tl_node t' = None then
              if \<not> tl_looped t' \<and> tk_changed R \<and> \<not> tk_cacheProgress R
              then (True, t'\<lparr>tl_node := tk_tail R, tl_looped := True\<rparr>)
              else (False, t')
            else (True, t'))))"

fun trim_loop_run :: "nat \<Rightarrow> int \<Rightarrow> 'p ei_env \<Rightarrow> trim_run \<Rightarrow> 'p trim_loop \<Rightarrow> (ei_error + 'p trim_loop) option" where
  "trim_loop_run 0 now L R t = None"
| "trim_loop_run (Suc fuel) now L R t =
     (case trim_guard now L R t of
        Inl e \<Rightarrow> Some (Inl e)
      | Inr False \<Rightarrow> Some (Inr t)
      | Inr True \<Rightarrow>
          (case tl_node t of
             None \<Rightarrow> Some (Inr t)
           | Some node \<Rightarrow>
               (case trim_body now L R node t of
                  Inl e \<Rightarrow> Some (Inl e)
                | Inr (True, t') \<Rightarrow> trim_loop_run fuel now L R t'
                | Inr (False, t') \<Rightarrow> Some (Inr t'))))"

section \<open>A run\<close>

text \<open>The part of \<open>trimTask\<close> between the first test and the loop: the caches, whether anything changed
  since the last run, and where the walk starts. \<open>None\<close> when nothing changed.\<close>

definition trim_prepare ::
  "'p ei_env \<Rightarrow> 'p entryIndex \<Rightarrow> trim \<Rightarrow> trimOptions \<Rightarrow> ei_error + (trim_run option \<times> trim)" where
  "trim_prepare L s t opts =
     bind_sum (ei_getOldest L s) (\<lambda>tail.
       let t1 = (if (case tr_lastOptions t of None \<Rightarrow> False | Some o' \<Rightarrow> trimOptionsStricter o' opts)
                 then t\<lparr>tr_breakpoint := cache_clear (tr_breakpoint t)\<rparr> else t);
           seed = (case to_filter opts of None \<Rightarrow> None | Some f \<Rightarrow> tf_cacheId f);
           cacheProgress = (seed \<noteq> None);
           run = (\<lambda>t'. \<lparr>tk_option = opts, tk_cacheProgress = cacheProgress, tk_changed = True, tk_tail = tail,
                        tk_startNode = (case tr_canTrimCacheLastNode t' of None \<Rightarrow> tail | Some n \<Rightarrow> Some n)\<rparr>)
       in if seed \<noteq> tr_lastSeed t1 \<or> \<not> cacheProgress then
            let t2 = t1\<lparr>tr_breakpoint := cache_clear (tr_breakpoint t1), tr_canTrimCacheLastNode := None\<rparr>
            in Inr (Some (run t2), t2)
          else
            bind_sum (ei_getNewest L s) (\<lambda>newest.
            bind_sum (ei_getOldest L s) (\<lambda>oldest.
            bind_sum (ei_get_length s) (\<lambda>n.
              let changed = (map_option se_hash (tr_lastHead t1) \<noteq> map_option se_hash newest \<or>
                     map_option se_hash (tr_lastTail t1) \<noteq> map_option se_hash oldest \<or>
                     tr_lastLength t1 \<noteq> n \<or>
                     (case tr_lastOptions t1 of None \<Rightarrow> True | Some o' \<Rightarrow> \<not> trimOptionsEqual o' opts))
              in Inr (if changed then Some (run t1) else None, t1)))))"

definition trim_finish ::
  "'p ei_env \<Rightarrow> trim_run \<Rightarrow> trim \<Rightarrow> 'p trim_loop \<Rightarrow> ei_error + 'p entry list \<times> trim \<times> 'p entryIndex" where
  "trim_finish L R t l =
     bind_sum (ei_getNewest L (tl_index l)) (\<lambda>newest.
     bind_sum (ei_getOldest L (tl_index l)) (\<lambda>oldest.
     bind_sum (ei_get_length (tl_index l)) (\<lambda>n.
       Inr (tl_deleted l,
            t\<lparr>tr_breakpoint := tl_breakpoint l,
              tr_canTrimCacheLastNode := (case tl_node l of None \<Rightarrow> tl_lastNode l | Some x \<Rightarrow> Some x),
              tr_lastHead := newest, tr_lastTail := oldest, tr_lastLength := n,
              tr_lastOptions := Some (tk_option R),
              tr_lastSeed := (case to_filter (tk_option R) of None \<Rightarrow> None | Some f \<Rightarrow> tf_cacheId f)\<rparr>,
            tl_index l))))"

definition loop_init :: "trim_run \<Rightarrow> trim \<Rightarrow> 'p entryIndex \<Rightarrow> 'p trim_loop" where
  "loop_init R t s =
     \<lparr>tl_node = tk_startNode R, tl_lastNode = tk_startNode R, tl_looped = False, tl_byGid = [],
      tl_breakpoint = tr_breakpoint t, tl_index = s, tl_deleted = []\<rparr>"

definition trimTask ::
  "nat \<Rightarrow> int \<Rightarrow> 'p ei_env \<Rightarrow> trim \<Rightarrow> 'p entryIndex \<Rightarrow> trimOptions \<Rightarrow>
     (ei_error + 'p entry list \<times> trim \<times> 'p entryIndex) option" where
  "trimTask fuel now L t s opts =
     (case trim_start L s (to_condition opts) of
        Inl e \<Rightarrow> Some (Inl e)
      | Inr False \<Rightarrow> Some (Inr ([], t, s))
      | Inr True \<Rightarrow>
          (case trim_prepare L s t opts of
             Inl e \<Rightarrow> Some (Inl e)
           | Inr (None, t1) \<Rightarrow> Some (Inr ([], t1, s))
           | Inr (Some R, t1) \<Rightarrow>
               (case trim_loop_run fuel now L R (loop_init R t1 s) of
                  None \<Rightarrow> None
                | Some (Inl e) \<Rightarrow> Some (Inl e)
                | Some (Inr l) \<Rightarrow> Some (trim_finish L R t1 l))))"

text \<open>\<open>trim\<close>: the given options, or those of the constructor; without options it returns nothing.\<close>

definition trim_trim ::
  "nat \<Rightarrow> int \<Rightarrow> 'p ei_env \<Rightarrow> trim \<Rightarrow> 'p entryIndex \<Rightarrow> trimOptions option \<Rightarrow>
     (ei_error + 'p entry list option \<times> trim \<times> 'p entryIndex) option" where
  "trim_trim fuel now L t s opts =
     (case (case opts of None \<Rightarrow> tr_options t | Some o' \<Rightarrow> Some o') of
        None \<Rightarrow> Some (Inr (None, t, s))
      | Some o' \<Rightarrow> map_option (\<lambda>r. bind_sum r (\<lambda>(deleted, t', s'). Inr (Some deleted, t', s'))) (trimTask fuel now L t s o'))"

section \<open>Lemmas: the neighbours of an entry in the order of last-write-wins\<close>

definition ts :: "shallowEntry \<Rightarrow> timestamp" where
  "ts e = lc_timestamp (m_clock (se_meta e))"

lemma wallTime_mono: "a \<le> b \<Longrightarrow> wallTime a \<le> wallTime (b :: timestamp)"
  by (auto simp: order.order_iff_strict timestamp_less_iff)

text \<open>The first result of a query under a sort whose comparison is a comparator.\<close>

lemma ei_first_least:
  assumes "ei_env_ok L" and "shallow_ok (ei_index s)" and "id_lookup (ee_index L) qs = None" and "comparator cmp"
    and "\<And>v. \<exists>h. handle_all (ee_index L) qs 0 (shallow_js v) [] = Inr (P v, h)"
    and "\<And>a b. doc_cmp (ee_index L) sorts a b = Inr (cmp (iv_value a) (iv_value b))" and "sorts \<noteq> []"
  shows "\<exists>r. ei_first L s qs sorts = Inr r \<and>
    (r = None \<longrightarrow> (\<forall>h x. shallow_lookup (ei_index s) h = Some x \<longrightarrow> \<not> P x)) \<and>
    (\<forall>e. r = Some e \<longrightarrow> shallow_lookup (ei_index s) (se_hash e) = Some e \<and> P e \<and>
       (\<forall>h x. shallow_lookup (ei_index s) h = Some x \<and> P x \<longrightarrow> cmp e x \<le> 0))"
proof -
  let ?docs = "filter (\<lambda>v. P (iv_value v)) (jm_values (ei_index s))"
  let ?cmp = "\<lambda>a b. cmp (iv_value a) (iv_value b)"
  let ?D = "js_sort ?cmp ?docs"
  have js: "toJs (ee_index L) = shallow_js" using assms(1) by (auto simp: ei_env_ok_def shallow_env_def)
  have q: "queryAll (ee_index L) (ei_index s) (QueryList qs) = Inr ?docs"
    using queryDocuments_by [of "jm_values (ei_index s)" "ee_index L" qs "\<lambda>v. P (iv_value v)"] assms(3,5)
    by (simp add: queryAll_def js)
  have "?D = ?docs" if "\<not> 1 < length ?docs" using that by (cases ?docs) auto
  then have sd: "sort_docs (ee_index L) sorts ?docs = Inr ?D"
    using assms(6,7) by (auto simp: sort_docs_def list_ex_iff)
  obtain it' where it': "it_next (ee_index L) (ei_index s) (QueryList qs) sorts 1 iterate = Inr (take 1 ?D, it')"
    using it_fetch_fresh [OF q sd, of 1] by (auto simp: it_next_def)
  have c: "comparator ?cmp" using assms(4) by (simp add: comparator_def)
  have mem: "(\<exists>v \<in> set ?docs. iv_value v = x) \<longleftrightarrow> shallow_lookup (ei_index s) (se_hash x) = Some x \<and> P x" for x
    using shallow_in_values [OF assms(2), of x] by auto
  have key: "shallow_lookup (ei_index s) h = Some x \<Longrightarrow> shallow_lookup (ei_index s) (se_hash x) = Some x" for h x
    using shallow_store.lookup_key [OF assms(2)] by metis
  show ?thesis
  proof (cases ?D)
    case Nil
    then have "ei_first L s qs sorts = Inr None" using it' by (simp add: ei_first_def)
    moreover have "\<not> P x" if x: "shallow_lookup (ei_index s) h = Some x" for h x
    proof -
      have e: "?docs = []" using Nil by simp
      show ?thesis using mem [of x, unfolded e] key [OF x] by simp
    qed
    ultimately show ?thesis by auto
  next
    case (Cons d ds)
    then have r: "ei_first L s qs sorts = Inr (Some (iv_value d))" using it' by (simp add: ei_first_def)
    have "d \<in> set ?docs" using Cons set_js_sort [of ?cmp ?docs] by auto
    then have "shallow_lookup (ei_index s) (se_hash (iv_value d)) = Some (iv_value d) \<and> P (iv_value d)"
      using mem [of "iv_value d"] by blast
    moreover have "cmp (iv_value d) x \<le> 0" if x: "shallow_lookup (ei_index s) h = Some x" "P x" for h x
    proof -
      obtain v where "v \<in> set ?docs" "iv_value v = x" using mem [of x] key [OF x(1)] x(2) by blast
      with comparator.js_sort_head_least [OF c Cons, of v] show ?thesis by simp
    qed
    ultimately show ?thesis using r by auto
  qed
qed

lemma extract_clock:
  "extractFieldValue (shallow_js e) wall_key = Inr (JBig (wallTime (ts e)))"
  "extractFieldValue (shallow_js e) logical_key = Inr (JNum (logical (ts e)))"
  by (simp_all add: shallow_js_def meta_js_def wall_key_def logical_key_def ts_def)

lemma doc_cmp_lww:
  assumes "ei_env_ok L"
  shows "doc_cmp (ee_index L) (sf_sort LastWriteWins) a b = Inr (cmp_on ts (iv_value a) (iv_value b))"
    and "doc_cmp (ee_index L) (sortReversed (sf_sort LastWriteWins)) a b = Inr (cmp_on ts (iv_value b) (iv_value a))"
proof -
  obtain b64 lc d where E: "ee_index L = shallow_env b64 lc (Suc (Suc d))" using assms by (auto simp: ei_env_ok_def)
  have less: "jsLess (shallow_env b64 lc (Suc (Suc d))) = js_less" "toJs (shallow_env b64 lc (Suc (Suc d))) = shallow_js"
    by (simp_all add: shallow_env_def)
  have c: "sortCompare (shallow_env b64 lc (Suc (Suc d))) (JBig m) (JBig n) = (if m < n then -1 else if n < m then 1 else 0)"
    "sortCompare (shallow_env b64 lc (Suc (Suc d))) (JNum m) (JNum n) = (if m < n then -1 else if n < m then 1 else 0)" for m n
    by (simp_all add: sortCompare_def less js_less_def)
  show "doc_cmp (ee_index L) (sf_sort LastWriteWins) a b = Inr (cmp_on ts (iv_value a) (iv_value b))"
    by (simp add: E doc_cmp_def less LastWriteWins_def extract_clock c Let_def cmp_on_def timestamp_less_iff del: bind_sum_eq_Inr)
  show "doc_cmp (ee_index L) (sortReversed (sf_sort LastWriteWins)) a b = Inr (cmp_on ts (iv_value b) (iv_value a))"
    by (simp add: E doc_cmp_def less LastWriteWins_def sortReversed_def extract_clock c Let_def cmp_on_def timestamp_less_iff
        del: bind_sum_eq_Inr)
qed

lemma cmp_on_le: "cmp_on key a b \<le> 0 \<longleftrightarrow> key a \<le> key b"
  by (auto simp: cmp_on_def)

lemma comparator_rev: "comparator (cmp_on key)" "comparator (\<lambda>a b. cmp_on key b a)"
  for key :: "'a \<Rightarrow> 'k::linorder"
  by (unfold_locales; auto simp: cmp_on_def split: if_splits)+

lemma field_wall:
  assumes "ei_env_ok L"
  shows "handle_all (ee_index L) [StateFieldQuery wall_key (IntegerCompare c w)] 0 (shallow_js e) [] =
    Inr (compare (wallTime (ts e)) c w, [])"
proof -
  obtain b64 lc d where "ee_index L = shallow_env b64 lc (Suc (Suc d))" using assms by (auto simp: ei_env_ok_def)
  then show ?thesis
    by (cases "compare (wallTime (ts e)) c w") (simp_all add: shallow_env_def shallow_js_def meta_js_def wall_key_def ts_def)
qed

definition u64 :: "meta \<Rightarrow> bool" where
  "u64 m \<longleftrightarrow> 0 \<le> wallTime (lc_timestamp (m_clock m)) \<and> wallTime (lc_timestamp (m_clock m)) \<le> 18446744073709551615"

lemma getOldest_lww:
  assumes "ei_env_ok L" and "ee_sort L = LastWriteWins" and "shallow_ok (ei_index s)"
  shows "\<exists>r. ei_getOldest L s = Inr r \<and> (r = None \<longrightarrow> (\<forall>h. shallow_lookup (ei_index s) h = None)) \<and>
    (\<forall>e. r = Some e \<longrightarrow> shallow_lookup (ei_index s) (se_hash e) = Some e \<and>
       (\<forall>h x. shallow_lookup (ei_index s) h = Some x \<longrightarrow> ts e \<le> ts x))"
proof -
  have "\<exists>r. ei_first L s [] (sf_sort LastWriteWins) = Inr r \<and>
    (r = None \<longrightarrow> (\<forall>h x. shallow_lookup (ei_index s) h = Some x \<longrightarrow> \<not> True)) \<and>
    (\<forall>e. r = Some e \<longrightarrow> shallow_lookup (ei_index s) (se_hash e) = Some e \<and> True \<and>
       (\<forall>h x. shallow_lookup (ei_index s) h = Some x \<and> True \<longrightarrow> cmp_on ts e x \<le> 0))"
    by (rule ei_first_least [OF assms(1,3) _ comparator_rev(1) _ doc_cmp_lww(1) [OF assms(1)]])
      (simp_all add: id_lookup_def LastWriteWins_def)
  then show ?thesis unfolding ei_getOldest_def assms(2)
    by (auto simp: cmp_on_le not_less)
qed

lemma getAfter_lww:
  assumes "ei_env_ok L" and "ee_sort L = LastWriteWins" and "shallow_ok (ei_index s)" and "u64 m"
  shows "\<exists>r. ei_getAfter L s m = Inr r \<and>
    (r = None \<longrightarrow> (\<forall>h x. shallow_lookup (ei_index s) h = Some x \<longrightarrow> wallTime (ts x) \<le> wallTime (lc_timestamp (m_clock m)))) \<and>
    (\<forall>e. r = Some e \<longrightarrow> shallow_lookup (ei_index s) (se_hash e) = Some e \<and> wallTime (lc_timestamp (m_clock m)) < wallTime (ts e) \<and>
       (\<forall>h x. shallow_lookup (ei_index s) h = Some x \<and> wallTime (lc_timestamp (m_clock m)) < wallTime (ts x) \<longrightarrow> ts e \<le> ts x))"
proof -
  let ?w = "wallTime (lc_timestamp (m_clock m))"
  let ?q = "[StateFieldQuery wall_key (IntegerCompare Greater ?w)]"
  have q: "sf_after LastWriteWins m = Inr ?q"
    using assms(4) by (simp add: LastWriteWins_def int_query_def new_BigUnsignedIntegerValue_def u64_def)
  have "\<exists>r. ei_first L s ?q (sf_sort LastWriteWins) = Inr r \<and>
    (r = None \<longrightarrow> (\<forall>h x. shallow_lookup (ei_index s) h = Some x \<longrightarrow> \<not> ?w < wallTime (ts x))) \<and>
    (\<forall>e. r = Some e \<longrightarrow> shallow_lookup (ei_index s) (se_hash e) = Some e \<and> ?w < wallTime (ts e) \<and>
       (\<forall>h x. shallow_lookup (ei_index s) h = Some x \<and> ?w < wallTime (ts x) \<longrightarrow> cmp_on ts e x \<le> 0))"
  proof (rule ei_first_least [OF assms(1,3) _ comparator_rev(1) _ doc_cmp_lww(1) [OF assms(1)]])
    show "\<exists>h. handle_all (ee_index L) ?q 0 (shallow_js v) [] = Inr (?w < wallTime (ts v), h)" for v
      using field_wall [OF assms(1), of Greater ?w v] unfolding compare.simps by blast
  qed (simp_all add: id_lookup_def LastWriteWins_def)
  then show ?thesis unfolding ei_getAfter_def assms(2) q
    by (auto simp: cmp_on_le not_less)
qed

lemma getBefore_total:
  assumes "ei_env_ok L" and "ee_sort L = LastWriteWins" and "shallow_ok (ei_index s)" and "u64 m"
  shows "\<exists>r. ei_getBefore L s m = Inr r"
proof -
  let ?w = "wallTime (lc_timestamp (m_clock m))"
  let ?q = "[StateFieldQuery wall_key (IntegerCompare Less ?w)]"
  have q: "sf_before LastWriteWins m = Inr ?q"
    using assms(4) by (simp add: LastWriteWins_def int_query_def new_BigUnsignedIntegerValue_def u64_def)
  have "\<exists>r. ei_first L s ?q (sortReversed (sf_sort LastWriteWins)) = Inr r \<and>
    (r = None \<longrightarrow> (\<forall>h x. shallow_lookup (ei_index s) h = Some x \<longrightarrow> \<not> wallTime (ts x) < ?w)) \<and>
    (\<forall>e. r = Some e \<longrightarrow> shallow_lookup (ei_index s) (se_hash e) = Some e \<and> wallTime (ts e) < ?w \<and>
       (\<forall>h x. shallow_lookup (ei_index s) h = Some x \<and> wallTime (ts x) < ?w \<longrightarrow> cmp_on ts x e \<le> 0))"
  proof (rule ei_first_least [OF assms(1,3) _ comparator_rev(2) _ doc_cmp_lww(2) [OF assms(1)]])
    show "\<exists>h. handle_all (ee_index L) ?q 0 (shallow_js v) [] = Inr (wallTime (ts v) < ?w, h)" for v
      using field_wall [OF assms(1), of Less ?w v] unfolding compare.simps by blast
  qed (simp_all add: id_lookup_def LastWriteWins_def sortReversed_def)
  then show ?thesis unfolding ei_getBefore_def assms(2) q by auto
qed

section \<open>Lemmas: one step of the loop\<close>

lemma resolve_ok:
  assumes "entry_cache.coherent (known_only (ei_index s)) (ei_cache s)"
  shows "\<exists>v c. ei_resolve now s k True = Inr (v, s\<lparr>ei_cache := c\<rparr>) \<and>
    entry_cache.coherent (\<lambda>j v. known_only (ei_index s) j v \<or> j = k) c"
proof -
  let ?P = "\<lambda>j v. known_only (ei_index s) j v \<or> j = k"
  have "entry_cache.coherent ?P (ei_cache s)" using assms by (rule entry_cache.coherent_mono) simp
  then obtain r c where rc: "cache_get now (ei_cache s) k = Inr (r, c)" "entry_cache.coherent ?P c"
    using entry_cache.coherent_get [of ?P "ei_cache s" now k] by blast
  show ?thesis
  proof (cases r)
    case None
    let ?v = "map_option (\<lambda>e. e\<lparr>e_hash := Some k\<rparr>) (jm_get (ei_store s) k)"
    obtain c' where "cache_add now c k ?v 1 = Inr c'" "entry_cache.coherent ?P c'"
      using entry_cache.coherent_add [OF rc(2), of k ?v now] by auto
    with None rc(1) show ?thesis
      by (intro exI [of _ ?v] exI [of _ c']) (simp add: ei_resolve_def Let_def del: bind_sum_eq_Inr)
  next
    case (Some v)
    with rc show ?thesis by (intro exI [of _ v] exI [of _ c]) (simp add: ei_resolve_def del: bind_sum_eq_Inr)
  qed
qed

lemma deleteNode_ok:
  assumes "ei_env_ok L" and "ei_inv s"
  shows "\<exists>r s'. deleteNode now L s node = Inr (r, s') \<and> ei_inv s' \<and>
    metas (ei_index s') = (metas (ei_index s))(se_hash node := None) \<and> ei_initialized s' = ei_initialized s"
proof -
  obtain v c where c: "ei_resolve now s (se_hash node) True = Inr (v, s\<lparr>ei_cache := c\<rparr>)"
    "entry_cache.coherent (\<lambda>j v. known_only (ei_index s) j v \<or> j = se_hash node) c"
    using resolve_ok [of s now "se_hash node"] assms(2) by (auto simp: ei_inv_def)
  obtain r s' where s': "ei_delete L (s\<lparr>ei_cache := c\<rparr>) (se_hash node) None = Inr (r, s')" "ei_inv s'"
    "metas (ei_index s') = (metas (ei_index s))(se_hash node := None)" "ei_initialized s' = ei_initialized s"
    using ei_delete_ok [OF assms(1), of "ei_cache s" "s\<lparr>ei_cache := c\<rparr>" None "se_hash node"] c(2) assms(2) by auto
  let ?s'' = "s'\<lparr>ei_store := jm_delete (ei_store s') (se_hash node)\<rparr>"
  have "deleteNode now L s node = Inr (v, ?s'')"
    by (simp add: deleteNode_def c(1) s'(1) del: bind_sum_eq_Inr)
  moreover have "ei_inv ?s''" using s'(2) by (simp add: ei_inv_def)
  ultimately show ?thesis using s'(3,4) by (intro exI [of _ v] exI [of _ ?s'']) simp
qed

lemma sum_docs_payload:
  assumes "toJs E = shallow_js" and "acc = JUndef \<or> (\<exists>n. acc = JNum n)"
  shows "\<exists>r. sum_docs E [''payloadSize''] docs acc = Inr r"
  using assms(2)
proof (induction docs arbitrary: acc)
  case (Cons d docs)
  let ?n = "se_payloadSize (iv_value d)"
  have p: "sum_path (toJs E (iv_value d)) [''payloadSize''] = Inr (if ?n = 0 then None else Some (JNum ?n))"
    by (simp add: assms(1) shallow_js_def)
  show ?case
  proof (cases "?n = 0")
    case True
    with p have "sum_docs E [''payloadSize''] (d # docs) acc = sum_docs E [''payloadSize''] docs acc"
      by (simp only: sum_docs.simps bind_sum.simps simp_thms if_True option.case)
    with Cons show ?thesis by simp
  next
    case False
    have "\<exists>m. sum_add acc (JNum ?n) = Inr (JNum m)" using Cons.prems by auto
    then obtain m where m: "sum_add acc (JNum ?n) = Inr (JNum m)" by blast
    have "\<exists>r. sum_docs E [''payloadSize''] docs (JNum m) = Inr r" by (rule Cons.IH) simp
    with p False m show ?thesis by (simp only: sum_docs.simps bind_sum.simps if_False option.case)
  qed
qed simp

lemma getMemoryUsage_total:
  assumes "ei_env_ok L"
  shows "\<exists>v. ei_getMemoryUsage L s = Inr v"
proof -
  have js: "toJs (ee_index L) = shallow_js" using assms by (auto simp: ei_env_ok_def shallow_env_def)
  have q: "queryAll (ee_index L) (ei_index s) NoQuery = Inr (jm_values (ei_index s))"
    using queryDocuments_by [of "jm_values (ei_index s)" "ee_index L" "[]" "\<lambda>_. True"]
    by (simp add: queryAll_def id_lookup_def)
  obtain r where "sum_docs (ee_index L) [''payloadSize''] (jm_values (ei_index s)) JUndef = Inr r"
    using sum_docs_payload [OF js] by blast
  then show ?thesis by (simp add: ei_getMemoryUsage_def hm_sum_def q del: bind_sum_eq_Inr)
qed

lemma trim_conditions_total:
  assumes "ei_env_ok L" and "ee_sort L = LastWriteWins" and "shallow_ok (ei_index s)" and "ei_initialized s"
  shows "\<exists>b. trim_done now L s cond = Inr b" and "\<exists>b. trim_start L s cond = Inr b"
proof -
  show "\<exists>b. trim_done now L s cond = Inr b"
  proof (cases cond)
    case (TrimToLength t f)
    then show ?thesis using assms(4) by (simp add: ei_get_length_def)
  next
    case (TrimToByteLength t f)
    then show ?thesis using getMemoryUsage_total [OF assms(1), of s] by auto
  next
    case (TrimToTime a)
    then show ?thesis using getOldest_lww [OF assms(1-3)] by auto
  qed
  show "\<exists>b. trim_start L s cond = Inr b"
    using assms(4) getMemoryUsage_total [OF assms(1), of s] by (cases cond) (auto simp: ei_get_length_def)
qed

text \<open>A graph id may be trimmed when the filter allowed an entry of it.\<close>

definition may_trim :: "trim_run \<Rightarrow> string \<Rightarrow> bool" where
  "may_trim R g \<longleftrightarrow> (\<forall>f. to_filter (tk_option R) = Some f \<longrightarrow> (\<exists>e. m_gid (se_meta e) = g \<and> tf_canTrim f e))"

text \<open>The invariant of the loop; \<open>M\<close> is the content of the index when the run starts.\<close>

definition trim_inv :: "trim_run \<Rightarrow> (string \<Rightarrow> meta option) \<Rightarrow> 'p trim_loop \<Rightarrow> bool" where
  "trim_inv R M t \<longleftrightarrow> ei_inv (tl_index t) \<and> ei_initialized (tl_index t) \<and> cache_inv (tl_breakpoint t) \<and>
     metas (ei_index (tl_index t)) \<subseteq>\<^sub>m M \<and>
     (\<forall>n. tl_node t = Some n \<longrightarrow> u64 (se_meta n) \<and> (\<forall>m. M (se_hash n) = Some m \<longrightarrow> m = se_meta n)) \<and>
     (\<forall>g. jm_get (tl_byGid t) g = Some True \<longrightarrow> may_trim R g) \<and>
     (\<forall>h m. M h = Some m \<and> metas (ei_index (tl_index t)) h = None \<longrightarrow> may_trim R (m_gid m))"

lemma trim_deletable_ok:
  assumes "trim_inv R M t" and "tl_node t = Some node"
  shows "\<exists>d byGid c. trim_deletable now R node t = Inr (d, t\<lparr>tl_byGid := byGid, tl_breakpoint := c\<rparr>) \<and>
    trim_inv R M (t\<lparr>tl_byGid := byGid, tl_breakpoint := c\<rparr>) \<and> (d \<longrightarrow> may_trim R (m_gid (se_meta node))) \<and>
    (to_filter (tk_option R) = None \<longrightarrow> d)"
proof (cases "to_filter (tk_option R)")
  case None
  then show ?thesis using assms
    by (intro exI [of _ True] exI [of _ "tl_byGid t"] exI [of _ "tl_breakpoint t"]) (simp add: trim_deletable_def may_trim_def)
next
  case (Some f)
  let ?g = "m_gid (se_meta node)"
  let ?d = "case jm_get (tl_byGid t) ?g of Some b \<Rightarrow> b | None \<Rightarrow> tf_canTrim f node"
  let ?m = "case jm_get (tl_byGid t) ?g of Some b \<Rightarrow> tl_byGid t | None \<Rightarrow> jm_set (tl_byGid t) ?g (tf_canTrim f node)"
  have d: "?d \<longrightarrow> may_trim R ?g" and m: "\<forall>g. jm_get ?m g = Some True \<longrightarrow> may_trim R g"
    using assms(1) Some by (auto simp: trim_inv_def may_trim_def split: option.splits if_splits)
  obtain c where c: "cache_add now (tl_breakpoint t) (se_hash node) (Some True) 1 = Inr c" "cache_inv c"
    using entry_cache.add_ok [of "tl_breakpoint t" now "se_hash node" "Some True"] assms(1) by (auto simp: trim_inv_def)
  let ?c = "if \<not> ?d \<and> tk_cacheProgress R then c else tl_breakpoint t"
  have "trim_deletable now R node t = Inr (?d, t\<lparr>tl_byGid := ?m, tl_breakpoint := ?c\<rparr>)"
    using Some c(1) by (cases "jm_get (tl_byGid t) ?g") (simp_all add: trim_deletable_def Let_def)
  moreover have "trim_inv R M (t\<lparr>tl_byGid := ?m, tl_breakpoint := ?c\<rparr>)"
    using assms(1) c(2) m by (simp add: trim_inv_def)
  ultimately show ?thesis using d Some by (intro exI [of _ ?d] exI [of _ ?m] exI [of _ ?c]) simp
qed

lemma trim_move_ok:
  assumes "ei_env_ok L" and "ee_sort L = LastWriteWins" and "\<forall>h m. M h = Some m \<longrightarrow> u64 m"
    and "trim_inv R M t" and "tl_node t = Some node" and "d \<longrightarrow> may_trim R (m_gid (se_meta node))"
  shows "\<exists>after t'. trim_move now L node (d, t) = Inr t' \<and> ei_getAfter L (tl_index t) (se_meta node) = Inr after \<and>
    trim_inv R M t' \<and> tl_node t' = after \<and> tl_looped t' = tl_looped t \<and>
    (d \<longrightarrow> metas (ei_index (tl_index t')) = (metas (ei_index (tl_index t)))(se_hash node := None))"
proof -
  let ?s = "tl_index t"
  have inv: "ei_inv ?s" "ei_initialized ?s" "metas (ei_index ?s) \<subseteq>\<^sub>m M" "u64 (se_meta node)"
    "\<forall>m. M (se_hash node) = Some m \<longrightarrow> m = se_meta node"
    using assms(4,5) by (auto simp: trim_inv_def)
  have ok: "shallow_ok (ei_index ?s)" using inv(1) by (simp add: ei_inv_def)
  obtain after where after: "ei_getAfter L ?s (se_meta node) = Inr after"
    "\<forall>e. after = Some e \<longrightarrow> shallow_lookup (ei_index ?s) (se_hash e) = Some e"
    using getAfter_lww [OF assms(1,2) ok inv(4)] by blast
  have an: "u64 (se_meta e) \<and> (\<forall>m. M (se_hash e) = Some m \<longrightarrow> m = se_meta e)" if "after = Some e" for e
  proof -
    have "metas (ei_index ?s) (se_hash e) = Some (se_meta e)" using after(2) that by (simp add: metas_def)
    then have "M (se_hash e) = Some (se_meta e)" using inv(3) by (metis domI map_le_def)
    then show ?thesis using assms(3) by auto
  qed
  show ?thesis
  proof (cases d)
    case False
    let ?t' = "t\<lparr>tl_lastNode := Some node, tl_node := after\<rparr>"
    have "trim_move now L node (d, t) = Inr ?t'" using False after(1) by (simp add: trim_move_def)
    moreover have "trim_inv R M ?t'" using assms(4) an by (simp add: trim_inv_def)
    ultimately show ?thesis using after(1) False by (intro exI [of _ after] exI [of _ ?t']) simp
  next
    case True
    obtain before where before: "ei_getBefore L ?s (se_meta node) = Inr before"
      using getBefore_total [OF assms(1,2) ok inv(4)] by blast
    obtain r s' where s': "deleteNode now L ?s node = Inr (r, s')" "ei_inv s'"
      "metas (ei_index s') = (metas (ei_index ?s))(se_hash node := None)" "ei_initialized s' = ei_initialized ?s"
      using deleteNode_ok [OF assms(1) inv(1), of now node] by blast
    let ?t' = "t\<lparr>tl_index := s', tl_deleted := tl_deleted t @ (case r of None \<Rightarrow> [] | Some e \<Rightarrow> [e]),
                 tl_node := after, tl_lastNode := (case after of None \<Rightarrow> before | Some p \<Rightarrow> Some p)\<rparr>"
    have "trim_move now L node (d, t) = Inr ?t'"
      using True after(1) before s'(1) by (simp add: trim_move_def del: bind_sum_eq_Inr)
    moreover have "trim_inv R M ?t'"
    proof -
      have "metas (ei_index s') \<subseteq>\<^sub>m M" using inv(3) by (auto simp: s'(3) map_le_def)
      moreover have gone: "may_trim R (m_gid m)" if h: "M h = Some m" "metas (ei_index s') h = None" for h m
      proof (cases "h = se_hash node")
        case True
        with h(1) inv(5) have "m = se_meta node" by simp
        with assms(6) \<open>d\<close> show ?thesis by simp
      next
        case False
        with h(2) have "metas (ei_index ?s) h = None" by (simp add: s'(3))
        with h(1) assms(4) show ?thesis by (auto simp: trim_inv_def)
      qed
      ultimately show ?thesis using assms(4) an s'(2,4) by (auto simp: trim_inv_def intro: gone)
    qed
    ultimately show ?thesis using after(1) s'(3) by (intro exI [of _ after] exI [of _ ?t']) simp
  qed
qed

text \<open>What a run is given: \<open>tail\<close> is an entry of the index, and without cached progress the walk starts there.\<close>

definition run_ok :: "trim_run \<Rightarrow> (string \<Rightarrow> meta option) \<Rightarrow> bool" where
  "run_ok R M \<longleftrightarrow> (\<forall>n. tk_tail R = Some n \<longrightarrow> M (se_hash n) = Some (se_meta n)) \<and>
     (\<not> tk_cacheProgress R \<longrightarrow> tk_startNode R = tk_tail R)"

lemma trim_body_ok:
  assumes "ei_env_ok L" and "ee_sort L = LastWriteWins" and "\<forall>h m. M h = Some m \<longrightarrow> u64 m" and "run_ok R M"
    and "trim_inv R M t" and "tl_node t = Some node" and "\<not> tl_looped t"
  shows "\<exists>after c t'. trim_body now L R node t = Inr (c, t') \<and> ei_getAfter L (tl_index t) (se_meta node) = Inr after \<and>
    trim_inv R M t' \<and>
    (after \<noteq> None \<longrightarrow> c \<and> tl_node t' = after \<and> \<not> tl_looped t') \<and>
    (after = None \<longrightarrow> (c \<longleftrightarrow> tk_changed R \<and> \<not> tk_cacheProgress R) \<and> (c \<longrightarrow> tl_looped t' \<and> tl_node t' = tk_tail R)) \<and>
    (to_filter (tk_option R) = None \<longrightarrow>
       metas (ei_index (tl_index t')) = (metas (ei_index (tl_index t)))(se_hash node := None))"
proof -
  obtain d byGid bp where d: "trim_deletable now R node t = Inr (d, t\<lparr>tl_byGid := byGid, tl_breakpoint := bp\<rparr>)"
    "trim_inv R M (t\<lparr>tl_byGid := byGid, tl_breakpoint := bp\<rparr>)" "d \<longrightarrow> may_trim R (m_gid (se_meta node))"
    "to_filter (tk_option R) = None \<longrightarrow> d"
    using trim_deletable_ok [OF assms(5,6)] by blast
  let ?t = "t\<lparr>tl_byGid := byGid, tl_breakpoint := bp\<rparr>"
  obtain after t1 where t1: "trim_move now L node (d, ?t) = Inr t1" "ei_getAfter L (tl_index t) (se_meta node) = Inr after"
    "trim_inv R M t1" "tl_node t1 = after" "\<not> tl_looped t1"
    "d \<longrightarrow> metas (ei_index (tl_index t1)) = (metas (ei_index (tl_index t)))(se_hash node := None)"
    using trim_move_ok [OF assms(1-3) d(2) _ d(3), of now] assms(6,7) by auto
  let ?again = "after = None \<and> tk_changed R \<and> \<not> tk_cacheProgress R"
  let ?t' = "if ?again then t1\<lparr>tl_node := tk_tail R, tl_looped := True\<rparr> else t1"
  have b: "trim_body now L R node t = Inr (after \<noteq> None \<or> tk_changed R \<and> \<not> tk_cacheProgress R, ?t')"
    using d(1) t1(1,4,5) by (cases after) (simp_all add: trim_body_def)
  have tail: "u64 (se_meta n) \<and> (\<forall>m. M (se_hash n) = Some m \<longrightarrow> m = se_meta n)" if "tk_tail R = Some n" for n
    using assms(3,4) that by (auto simp: run_ok_def)
  have "trim_inv R M ?t'" using t1(3) tail by (simp add: trim_inv_def)
  with b t1 d(4) show ?thesis
    by (intro exI [of _ after] exI [of _ "after \<noteq> None \<or> tk_changed R \<and> \<not> tk_cacheProgress R"] exI [of _ ?t']) auto
qed

section \<open>Lemmas: the loop ends\<close>

definition wall :: "meta \<Rightarrow> int" where
  "wall m = wallTime (lc_timestamp (m_clock m))"

text \<open>The entries later than a wall time: every step of the walk leaves fewer.\<close>

definition later :: "(string \<Rightarrow> meta option) \<Rightarrow> int \<Rightarrow> string set" where
  "later M w = {h. \<exists>m. M h = Some m \<and> w < wall m}"

lemma card_later:
  assumes "finite (dom M)" and "M h = Some m" and "w < wall m"
  shows "card (later M (wall m)) < card (later M w)"
proof (rule psubset_card_mono)
  show "finite (later M w)" using assms(1) by (rule rev_finite_subset) (auto simp: later_def)
  have "h \<in> later M w" "h \<notin> later M (wall m)" using assms(2,3) by (auto simp: later_def)
  moreover have "later M (wall m) \<subseteq> later M w" using assms(3) by (auto simp: later_def)
  ultimately show "later M (wall m) \<subset> later M w" by blast
qed

lemma trim_guard_total:
  assumes "ei_env_ok L" and "ee_sort L = LastWriteWins" and "trim_inv R M t"
  shows "\<exists>b. trim_guard now L R t = Inr b"
proof (cases "tl_node t")
  case (Some node)
  have "shallow_ok (ei_index (tl_index t))" "ei_initialized (tl_index t)" using assms(3) by (auto simp: trim_inv_def ei_inv_def)
  then obtain b where "trim_done now L (tl_index t) (to_condition (tk_option R)) = Inr b"
    using trim_conditions_total(1) [OF assms(1,2)] by blast
  with Some assms(3) show ?thesis by (cases b) (auto simp: trim_guard_def trim_inv_def ei_get_length_def)
qed (auto simp: trim_guard_def)

text \<open>The second round starts where the first one did, so its first test ends it.\<close>

lemma trim_guard_looped:
  assumes "ei_env_ok L" and "ee_sort L = LastWriteWins" and "trim_inv R M t" and "run_ok R M" and "\<not> tk_cacheProgress R"
    and "tl_looped t" and "tl_node t = tk_tail R"
  shows "trim_guard now L R t = Inr False"
proof (cases "tl_node t")
  case None
  then show ?thesis by (simp add: trim_guard_def)
next
  case (Some node)
  have "shallow_ok (ei_index (tl_index t))" "ei_initialized (tl_index t)" using assms(3) by (auto simp: trim_inv_def ei_inv_def)
  then obtain b where b: "trim_done now L (tl_index t) (to_condition (tk_option R)) = Inr b"
    using trim_conditions_total(1) [OF assms(1,2)] by blast
  have "tk_startNode R = Some node" using assms(4,5,7) Some by (simp add: run_ok_def)
  with Some b assms(3,6) show ?thesis by (cases b) (auto simp: trim_guard_def trim_inv_def ei_get_length_def)
qed

definition enough :: "(string \<Rightarrow> meta option) \<Rightarrow> 'p trim_loop \<Rightarrow> nat" where
  "enough M t = (case tl_node t of None \<Rightarrow> 1 | Some n \<Rightarrow> card (later M (wall (se_meta n))) + 2)"

lemma trim_loop_ok:
  assumes "ei_env_ok L" and "ee_sort L = LastWriteWins" and "\<forall>h m. M h = Some m \<longrightarrow> u64 m" and "finite (dom M)"
    and "run_ok R M"
  shows "trim_inv R M t \<Longrightarrow> \<not> tl_looped t \<Longrightarrow> enough M t \<le> fuel \<Longrightarrow>
    \<exists>t'. trim_loop_run fuel now L R t = Some (Inr t') \<and> trim_inv R M t'"
proof (induction fuel arbitrary: t)
  case 0
  then show ?case by (simp add: enough_def split: option.splits)
next
  case (Suc fuel)
  obtain b where b: "trim_guard now L R t = Inr b" using trim_guard_total [OF assms(1,2) Suc.prems(1)] by blast
  show ?case
  proof (cases b)
    case False
    with b Suc.prems(1) show ?thesis by simp
  next
    case True
    with b obtain node where node: "tl_node t = Some node" by (cases "tl_node t") (auto simp: trim_guard_def)
    obtain after c t' where t': "trim_body now L R node t = Inr (c, t')" "ei_getAfter L (tl_index t) (se_meta node) = Inr after"
      "trim_inv R M t'" "after \<noteq> None \<longrightarrow> c \<and> tl_node t' = after \<and> \<not> tl_looped t'"
      "after = None \<longrightarrow> (c \<longleftrightarrow> tk_changed R \<and> \<not> tk_cacheProgress R) \<and> (c \<longrightarrow> tl_looped t' \<and> tl_node t' = tk_tail R)"
      using trim_body_ok [OF assms(1-3,5) Suc.prems(1) node Suc.prems(2), of now]
      by (elim exE conjE) (rule that)
    have step: "trim_loop_run (Suc fuel) now L R t = (if c then trim_loop_run fuel now L R t' else Some (Inr t'))"
      using b True node t'(1) by simp
    have f: "card (later M (wall (se_meta node))) + 1 \<le> fuel" using Suc.prems(3) node by (simp add: enough_def)
    show ?thesis
    proof (cases after)
      case None
      show ?thesis
      proof (cases c)
        case True
        then have "trim_guard now L R t' = Inr False"
          using None t'(5) by (intro trim_guard_looped [OF assms(1,2) t'(3) assms(5)]) auto
        moreover obtain n where "fuel = Suc n" using f by (cases fuel) auto
        ultimately show ?thesis using step True t'(3) by simp
      next
        case False
        with step t'(3) show ?thesis by simp
      qed
    next
      case (Some n)
      have inv: "shallow_ok (ei_index (tl_index t))" "u64 (se_meta node)" "metas (ei_index (tl_index t)) \<subseteq>\<^sub>m M"
        using Suc.prems(1) node by (auto simp: trim_inv_def ei_inv_def)
      have "shallow_lookup (ei_index (tl_index t)) (se_hash n) = Some n \<and> wall (se_meta node) < wall (se_meta n)"
        using getAfter_lww [OF assms(1,2) inv(1,2)] t'(2) Some by (auto simp: wall_def ts_def)
      then have "M (se_hash n) = Some (se_meta n)" "wall (se_meta node) < wall (se_meta n)"
        using inv(3) by (auto simp: metas_def map_le_def dom_def)
      then have "card (later M (wall (se_meta n))) < card (later M (wall (se_meta node)))"
        using card_later [OF assms(4)] by blast
      then have "enough M t' \<le> fuel" using f t'(4) Some by (simp add: enough_def)
      then show ?thesis using Suc.IH [of t'] t'(3,4) Some step by simp
    qed
  qed
qed

section \<open>Lemmas: a run\<close>

lemma getNewest_total:
  assumes "ei_env_ok L" and "ee_sort L = LastWriteWins" and "shallow_ok (ei_index s)"
  shows "\<exists>r. ei_getNewest L s = Inr r"
proof -
  have "\<exists>r. ei_first L s [] (sortReversed (sf_sort LastWriteWins)) = Inr r \<and>
    (r = None \<longrightarrow> (\<forall>h x. shallow_lookup (ei_index s) h = Some x \<longrightarrow> \<not> True)) \<and>
    (\<forall>e. r = Some e \<longrightarrow> shallow_lookup (ei_index s) (se_hash e) = Some e \<and> True \<and>
       (\<forall>h x. shallow_lookup (ei_index s) h = Some x \<and> True \<longrightarrow> cmp_on ts x e \<le> 0))"
    by (rule ei_first_least [OF assms(1,3) _ comparator_rev(2) _ doc_cmp_lww(2) [OF assms(1)]])
      (simp_all add: id_lookup_def LastWriteWins_def sortReversed_def)
  then show ?thesis unfolding ei_getNewest_def assms(2) by blast
qed

text \<open>The node remembered from the last run, when the index still has it, is the entry it was.\<close>

definition last_node_ok :: "(string \<Rightarrow> meta option) \<Rightarrow> trim \<Rightarrow> bool" where
  "last_node_ok M t \<longleftrightarrow> cache_inv (tr_breakpoint t) \<and>
     (\<forall>n. tr_canTrimCacheLastNode t = Some n \<longrightarrow> u64 (se_meta n) \<and> (\<forall>m. M (se_hash n) = Some m \<longrightarrow> m = se_meta n))"

lemma trim_prepare_ok:
  assumes "ei_env_ok L" and "ee_sort L = LastWriteWins" and "ei_inv s" and "ei_initialized s"
    and "\<forall>h m. metas (ei_index s) h = Some m \<longrightarrow> u64 m" and "last_node_ok (metas (ei_index s)) t"
  shows "\<exists>r t1. trim_prepare L s t opts = Inr (r, t1) \<and> cache_inv (tr_breakpoint t1) \<and>
    (\<forall>R. r = Some R \<longrightarrow> tk_option R = opts \<and> run_ok R (metas (ei_index s)) \<and> trim_inv R (metas (ei_index s)) (loop_init R t1 s) \<and>
       ei_getOldest L s = Inr (tk_tail R) \<and> tk_changed R \<and>
       (to_filter opts = None \<longrightarrow> \<not> tk_cacheProgress R)) \<and>
    (to_filter opts = None \<longrightarrow> r \<noteq> None)"
proof -
  let ?M = "metas (ei_index s)"
  have ok: "shallow_ok (ei_index s)" using assms(3) by (simp add: ei_inv_def)
  obtain tail where tail: "ei_getOldest L s = Inr tail" "\<forall>e. tail = Some e \<longrightarrow> ?M (se_hash e) = Some (se_meta e)"
    using getOldest_lww [OF assms(1,2) ok] by (auto simp: metas_def)
  obtain newest where newest: "ei_getNewest L s = Inr newest" using getNewest_total [OF assms(1,2) ok] by blast
  have len: "ei_get_length s = Inr (ei_length s)" using assms(4) by (simp add: ei_get_length_def)
  let ?seed = "case to_filter opts of None \<Rightarrow> None | Some f \<Rightarrow> tf_cacheId f"
  let ?R = "\<lambda>node. \<lparr>tk_option = opts, tk_cacheProgress = (?seed \<noteq> None), tk_changed = True, tk_tail = tail,
      tk_startNode = (case node of None \<Rightarrow> tail | Some n \<Rightarrow> Some n)\<rparr>"
  have t: "cache_inv (tr_breakpoint t)" "cache_inv (cache_clear (tr_breakpoint t))"
    "cache_inv (cache_clear (cache_clear (tr_breakpoint t)))"
    using assms(6) cache_inv_clear by (auto simp: last_node_ok_def)
  have good: "run_ok (?R node) ?M \<and> trim_inv (?R node) ?M (loop_init (?R node) t' s)"
    if "cache_inv (tr_breakpoint t')" "?seed \<noteq> None \<and> node = tr_canTrimCacheLastNode t \<or> node = None" for t' node
    using that tail(2) assms(3-6)
    by (auto simp: run_ok_def trim_inv_def loop_init_def last_node_ok_def split: option.splits)
  show ?thesis
  proof (cases "?seed \<noteq> tr_lastSeed t \<or> ?seed = None")
    case True
    let ?bp = "cache_clear (if (case tr_lastOptions t of None \<Rightarrow> False | Some o' \<Rightarrow> trimOptionsStricter o' opts)
       then cache_clear (tr_breakpoint t) else tr_breakpoint t)"
    let ?t2 = "t\<lparr>tr_breakpoint := ?bp, tr_canTrimCacheLastNode := None\<rparr>"
    have "trim_prepare L s t opts = Inr (Some (?R None), ?t2)"
      using True by (auto simp: trim_prepare_def tail(1) Let_def)
    moreover have "cache_inv (tr_breakpoint ?t2)" using t by simp
    ultimately show ?thesis using good [of ?t2 None] tail(1) by (intro exI [of _ "Some (?R None)"] exI [of _ ?t2]) auto
  next
    case False
    then obtain f where f: "to_filter opts = Some f" by (auto split: option.splits)
    let ?t1 = "if (case tr_lastOptions t of None \<Rightarrow> False | Some o' \<Rightarrow> trimOptionsStricter o' opts)
       then t\<lparr>tr_breakpoint := cache_clear (tr_breakpoint t)\<rparr> else t"
    have "\<exists>b. trim_prepare L s t opts = Inr (if b then Some (?R (tr_canTrimCacheLastNode t)) else None, ?t1)"
      using False by (auto simp: trim_prepare_def tail(1) newest len Let_def)
    then obtain b where b: "trim_prepare L s t opts = Inr (if b then Some (?R (tr_canTrimCacheLastNode t)) else None, ?t1)" ..
    moreover have "cache_inv (tr_breakpoint ?t1)" using t by simp
    ultimately show ?thesis using good [of ?t1 "tr_canTrimCacheLastNode t"] False tail(1) f
      by (intro exI [of _ "if b then Some (?R (tr_canTrimCacheLastNode t)) else None"] exI [of _ ?t1]) auto
  qed
qed

lemma trim_finish_ok:
  assumes "ei_env_ok L" and "ee_sort L = LastWriteWins" and "trim_inv R M l"
  shows "\<exists>t'. trim_finish L R t l = Inr (tl_deleted l, t', tl_index l)"
proof -
  have inv: "shallow_ok (ei_index (tl_index l))" "ei_initialized (tl_index l)" using assms(3) by (auto simp: trim_inv_def ei_inv_def)
  show ?thesis
    using getNewest_total [OF assms(1,2) inv(1)] getOldest_lww [OF assms(1,2) inv(1)] inv(2)
    by (auto simp: trim_finish_def ei_get_length_def)
qed

lemma finite_metas: "finite (dom (metas idx))"
proof -
  have "dom (metas idx) \<subseteq> {h. PStr h \<in> dom (jm_get idx)}" by (auto simp: metas_def shallow_lookup_def)
  moreover have "finite {h. PStr h \<in> dom (jm_get idx)}"
    using finite_vimageI [OF finite_dom_map_of, of PStr idx] by (simp add: vimage_def inj_def)
  ultimately show ?thesis by (rule finite_subset)
qed

lemma card_metas:
  assumes "shallow_ok idx"
  shows "card (dom (metas idx)) = length idx"
proof -
  have "PStr ` dom (metas idx) = fst ` set idx"
  proof
    show "PStr ` dom (metas idx) \<subseteq> fst ` set idx"
      by (auto simp: metas_def shallow_lookup_def) (metis domI dom_map_of_conv_image_fst)
    show "fst ` set idx \<subseteq> PStr ` dom (metas idx)"
    proof
      fix p assume "p \<in> fst ` set idx"
      then obtain v where v: "(p, v) \<in> set idx" by auto
      then have p: "p = PStr (se_hash (iv_value v))" using assms by (auto simp: shallow_ok_def)
      have "jm_get idx p = Some v" using assms v by (simp add: shallow_ok_def jm_get_in_set)
      then have "se_hash (iv_value v) \<in> dom (metas idx)" by (simp add: metas_def shallow_lookup_def p dom_def)
      then show "p \<in> PStr ` dom (metas idx)" by (simp add: p)
    qed
  qed
  then have "card (dom (metas idx)) = card (fst ` set idx)" using card_image [of PStr "dom (metas idx)"] by (simp add: inj_on_def)
  also have "\<dots> = length idx" using assms distinct_card [of "map fst idx"] by (simp add: shallow_ok_def jm_ok_def)
  finally show ?thesis .
qed

lemma enough_le:
  assumes "shallow_ok idx"
  shows "enough (metas idx) t \<le> length idx + 2"
proof -
  have "card (later (metas idx) w) \<le> card (dom (metas idx))" for w
    by (rule card_mono) (auto simp: finite_metas later_def)
  then show ?thesis by (auto simp: enough_def card_metas [OF assms] split: option.split)
qed

section \<open>Lemmas: trimming to a length\<close>

text \<open>The node is the oldest entry, everything removed is older than everything kept, and at least \<open>k\<close>
  entries are left.\<close>

definition keeps_newest :: "(string \<Rightarrow> meta option) \<Rightarrow> (string \<Rightarrow> meta option) \<Rightarrow> bool" where
  "keeps_newest M N \<longleftrightarrow> (\<forall>h m h' m'. N h = Some m \<and> M h' = Some m' \<and> N h' = None \<longrightarrow> wall m' < wall m)"

definition at_oldest :: "(string \<Rightarrow> meta option) \<Rightarrow> 'p trim_loop \<Rightarrow> bool" where
  "at_oldest N t \<longleftrightarrow> (tl_node t = None \<longrightarrow> N = Map.empty) \<and>
     (\<forall>n. tl_node t = Some n \<longrightarrow> N (se_hash n) = Some (se_meta n) \<and> (\<forall>h m. N h = Some m \<longrightarrow> wall (se_meta n) \<le> wall m))"

lemma ei_length_card: "ei_inv s \<Longrightarrow> ei_length s = int (card (dom (metas (ei_index s))))"
  by (simp add: ei_inv_def card_metas)

lemma card_remove: "finite (dom f) \<Longrightarrow> f h \<noteq> None \<Longrightarrow> int (card (dom (f(h := None)))) = int (card (dom f)) - 1"
  using card.remove [of "dom f" h] by (simp add: domIff)

lemma remove_oldest:
  assumes "keeps_newest M N" and "N \<subseteq>\<^sub>m M" and "N h = Some m" and "\<forall>j x. N j = Some x \<longrightarrow> wall m \<le> wall x"
    and "\<forall>j x k y. M j = Some x \<and> M k = Some y \<and> wall x = wall y \<longrightarrow> j = k"
  shows "keeps_newest M (N(h := None))"
proof -
  have "wall m' < wall x" if j: "(N(h := None)) j = Some x" "M k = Some m'" "(N(h := None)) k = None" for j x k m'
  proof -
    have jh: "j \<noteq> h" "N j = Some x" using j(1) by (auto split: if_splits)
    show ?thesis
    proof (cases "k = h")
      case True
      have M: "M h = Some m" "M j = Some x" using assms(2,3) jh(2) by (auto simp: map_le_def dom_def)
      then have "m' = m" using j(2) True by simp
      moreover have "wall m \<noteq> wall x" using assms(5) M jh(1) by metis
      moreover have "wall m \<le> wall x" using assms(4) jh(2) by blast
      ultimately show ?thesis by simp
    next
      case False
      then have "N k = None" using j(3) by simp
      with assms(1) jh(2) j(2) show ?thesis by (auto simp: keeps_newest_def)
    qed
  qed
  then show ?thesis unfolding keeps_newest_def by blast
qed

lemma next_is_oldest:
  assumes "N h = Some m" and "\<forall>j x. N j = Some x \<longrightarrow> wall m \<le> wall x"
    and "\<forall>j x k y. N j = Some x \<and> N k = Some y \<and> wall x = wall y \<longrightarrow> j = k"
  shows "(\<forall>j x. N j = Some x \<longrightarrow> wall x \<le> wall m) \<Longrightarrow> N(h := None) = Map.empty"
    and "wall m < wall m' \<Longrightarrow> (\<forall>j x. N j = Some x \<and> wall m < wall x \<longrightarrow> wall m' \<le> wall x) \<Longrightarrow>
      (\<forall>j x. (N(h := None)) j = Some x \<longrightarrow> wall m' \<le> wall x)"
proof -
  have gt: "wall m < wall x" if "N j = Some x" "j \<noteq> h" for j x
    using that assms by (metis order_le_less)
  show "N(h := None) = Map.empty" if all: "\<forall>j x. N j = Some x \<longrightarrow> wall x \<le> wall m"
  proof
    fix j show "(N(h := None)) j = None" using gt [of j] all by (cases "N j") (auto, metis linorder_not_less)
  qed
  show "\<forall>j x. (N(h := None)) j = Some x \<longrightarrow> wall m' \<le> wall x"
    if "\<forall>j x. N j = Some x \<and> wall m < wall x \<longrightarrow> wall m' \<le> wall x"
    using gt that by (auto split: if_splits)
qed

lemma trim_length_step:
  assumes env: "ei_env_ok L" "ee_sort L = LastWriteWins" and inv: "trim_inv R M t" and node: "tl_node t = Some node"
    and oldest: "at_oldest (metas (ei_index (tl_index t))) t"
    and inj: "\<forall>j x k y. M j = Some x \<and> M k = Some y \<and> wall x = wall y \<longrightarrow> j = k"
    and after: "ei_getAfter L (tl_index t) (se_meta node) = Inr after"
    and t': "metas (ei_index (tl_index t')) = (metas (ei_index (tl_index t)))(se_hash node := None)"
  shows "after = None \<Longrightarrow> metas (ei_index (tl_index t')) = Map.empty"
    and "after = Some n \<Longrightarrow> tl_node t' = Some n \<Longrightarrow> at_oldest (metas (ei_index (tl_index t'))) t'"
proof -
  let ?N = "metas (ei_index (tl_index t))"
  have ok: "shallow_ok (ei_index (tl_index t))" "u64 (se_meta node)" "?N \<subseteq>\<^sub>m M"
    using inv node by (auto simp: trim_inv_def ei_inv_def)
  have injN: "\<forall>j x k y. ?N j = Some x \<and> ?N k = Some y \<and> wall x = wall y \<longrightarrow> j = k"
    using inj ok(3) by (metis domI map_le_def)
  have old: "?N (se_hash node) = Some (se_meta node)" "\<forall>h m. ?N h = Some m \<longrightarrow> wall (se_meta node) \<le> wall m"
    using oldest node by (auto simp: at_oldest_def)
  obtain r where r: "ei_getAfter L (tl_index t) (se_meta node) = Inr r"
    "r = None \<longrightarrow> (\<forall>h x. shallow_lookup (ei_index (tl_index t)) h = Some x \<longrightarrow> wall (se_meta x) \<le> wall (se_meta node))"
    "\<forall>e. r = Some e \<longrightarrow> shallow_lookup (ei_index (tl_index t)) (se_hash e) = Some e \<and> wall (se_meta node) < wall (se_meta e) \<and>
       (\<forall>h x. shallow_lookup (ei_index (tl_index t)) h = Some x \<and> wall (se_meta node) < wall (se_meta x) \<longrightarrow> ts e \<le> ts x)"
    using getAfter_lww [OF env ok(1,2)] unfolding wall_def ts_def by blast
  then have "r = after" using after by simp
  note r = r [unfolded this]
  show "metas (ei_index (tl_index t')) = Map.empty" if "after = None"
    unfolding t' by (rule next_is_oldest(1) [OF old injN]) (use r(2) that in \<open>auto simp: metas_def\<close>)
  show "at_oldest (metas (ei_index (tl_index t'))) t'" if n: "after = Some n" "tl_node t' = Some n"
  proof -
    have "wall (se_meta node) < wall (se_meta n)" "?N (se_hash n) = Some (se_meta n)" using r(3) n by (auto simp: metas_def)
    moreover have "\<forall>j x. ?N j = Some x \<and> wall (se_meta node) < wall x \<longrightarrow> wall (se_meta n) \<le> wall x"
      using r(3) n(1) wallTime_mono by (auto simp: metas_def wall_def ts_def)
    ultimately have "\<forall>j x. (?N(se_hash node := None)) j = Some x \<longrightarrow> wall (se_meta n) \<le> wall x"
      by (intro next_is_oldest(2) [OF old injN])
    moreover have "se_hash n \<noteq> se_hash node"
      using \<open>?N (se_hash n) = Some (se_meta n)\<close> old(1) \<open>wall (se_meta node) < wall (se_meta n)\<close> by auto
    ultimately show ?thesis using n(2) \<open>?N (se_hash n) = Some (se_meta n)\<close> by (simp add: at_oldest_def t')
  qed
qed

lemma trim_length_loop:
  assumes env: "ei_env_ok L" "ee_sort L = LastWriteWins" and M: "\<forall>h m. M h = Some m \<longrightarrow> u64 m" "finite (dom M)"
    and R: "run_ok R M" "to_condition (tk_option R) = TrimToLength n fr" "to_filter (tk_option R) = None"
      "tk_changed R" "\<not> tk_cacheProgress R"
    and inj: "\<forall>j x k y. M j = Some x \<and> M k = Some y \<and> wall x = wall y \<longrightarrow> j = k"
  shows "trim_inv R M t \<Longrightarrow> \<not> tl_looped t \<Longrightarrow> enough M t \<le> fuel \<Longrightarrow> at_oldest (metas (ei_index (tl_index t))) t \<Longrightarrow>
    keeps_newest M (metas (ei_index (tl_index t))) \<Longrightarrow> k \<le> ei_length (tl_index t) \<Longrightarrow> k \<le> max n 0 \<Longrightarrow>
    \<exists>t'. trim_loop_run fuel now L R t = Some (Inr t') \<and> trim_inv R M t' \<and> keeps_newest M (metas (ei_index (tl_index t'))) \<and>
      k \<le> ei_length (tl_index t') \<and> ei_length (tl_index t') \<le> max n 0"
proof (induction fuel arbitrary: t)
  case 0
  then show ?case by (simp add: enough_def split: option.splits)
next
  case (Suc fuel)
  let ?N = "metas (ei_index (tl_index t))"
  have s: "ei_inv (tl_index t)" "ei_initialized (tl_index t)" "?N \<subseteq>\<^sub>m M" using Suc.prems(1) by (auto simp: trim_inv_def)
  have len: "ei_get_length (tl_index t) = Inr (ei_length (tl_index t))" using s(2) by (simp add: ei_get_length_def)
  show ?case
  proof (cases "\<exists>node. tl_node t = Some node \<and> \<not> ei_length (tl_index t) \<le> n \<and> 0 < ei_length (tl_index t)")
    case False
    then have "trim_guard now L R t = Inr False"
      by (auto simp: trim_guard_def R(2) len split: option.split)
    moreover have "ei_length (tl_index t) \<le> max n 0"
      using False Suc.prems(4) ei_length_card [OF s(1)] by (cases "tl_node t") (auto simp: at_oldest_def)
    ultimately show ?thesis using Suc.prems by simp
  next
    case True
    then obtain node where node: "tl_node t = Some node" "n < ei_length (tl_index t)" "0 < ei_length (tl_index t)" by auto
    have g: "trim_guard now L R t = Inr True" using node Suc.prems(2) by (simp add: trim_guard_def R(2) len)
    obtain after c t' where t': "trim_body now L R node t = Inr (c, t')" "ei_getAfter L (tl_index t) (se_meta node) = Inr after"
      "trim_inv R M t'" "after \<noteq> None \<longrightarrow> c \<and> tl_node t' = after \<and> \<not> tl_looped t'"
      "after = None \<longrightarrow> (c \<longleftrightarrow> tk_changed R \<and> \<not> tk_cacheProgress R) \<and> (c \<longrightarrow> tl_looped t' \<and> tl_node t' = tk_tail R)"
      "to_filter (tk_option R) = None \<longrightarrow> metas (ei_index (tl_index t')) = ?N(se_hash node := None)"
      using trim_body_ok [OF env M(1) R(1) Suc.prems(1) node(1) Suc.prems(2), of now] by (elim exE conjE) (rule that)
    have N': "metas (ei_index (tl_index t')) = ?N(se_hash node := None)" using t'(6) R(3) by simp
    have old: "?N (se_hash node) = Some (se_meta node)" "\<forall>h m. ?N h = Some m \<longrightarrow> wall (se_meta node) \<le> wall m"
      using Suc.prems(4) node(1) by (auto simp: at_oldest_def)
    have kn: "keeps_newest M (metas (ei_index (tl_index t')))"
      unfolding N' by (rule remove_oldest [OF Suc.prems(5) s(3) old inj])
    have s': "ei_inv (tl_index t')" using t'(3) by (simp add: trim_inv_def)
    have len': "ei_length (tl_index t') = ei_length (tl_index t) - 1"
      using ei_length_card [OF s(1)] ei_length_card [OF s'] card_remove [OF finite_metas, of "ei_index (tl_index t)" "se_hash node"] old(1)
      by (simp add: N')
    then have k: "k \<le> ei_length (tl_index t')" using node(2,3) Suc.prems(7) by auto
    have step: "trim_loop_run (Suc fuel) now L R t = (if c then trim_loop_run fuel now L R t' else Some (Inr t'))"
      using g node(1) t'(1) by simp
    show ?thesis
    proof (cases after)
      case None
      have e: "metas (ei_index (tl_index t')) = Map.empty"
        by (rule trim_length_step(1) [OF env Suc.prems(1) node(1) Suc.prems(4) inj t'(2) N' None])
      then have z: "ei_length (tl_index t') \<le> max n 0" using ei_length_card [OF s'] by simp
      have c: "c" "tl_looped t'" "tl_node t' = tk_tail R" using None t'(5) R(4,5) by auto
      then have "trim_guard now L R t' = Inr False" by (intro trim_guard_looped [OF env t'(3) R(1,5)])
      moreover obtain m where "fuel = Suc m" using Suc.prems(3) node(1) by (cases fuel) (auto simp: enough_def)
      ultimately show ?thesis using step c(1) t'(3) kn k z by simp
    next
      case (Some x)
      have o: "at_oldest (metas (ei_index (tl_index t'))) t'"
        using trim_length_step(2) [OF env Suc.prems(1) node(1) Suc.prems(4) inj t'(2) N' Some] t'(4) Some by simp
      then have x: "metas (ei_index (tl_index t')) (se_hash x) = Some (se_meta x)" using t'(4) Some by (simp add: at_oldest_def)
      then have "M (se_hash x) = Some (se_meta x)" using t'(3) by (auto simp: trim_inv_def map_le_def dom_def)
      moreover have "wall (se_meta node) < wall (se_meta x)"
        using x old inj \<open>M (se_hash x) = Some (se_meta x)\<close> s(3) unfolding N'
        by (metis domI fun_upd_apply map_le_def option.distinct(1) order_le_less)
      ultimately have "card (later M (wall (se_meta x))) < card (later M (wall (se_meta node)))" using card_later [OF M(2)] by blast
      then have "enough M t' \<le> fuel" using Suc.prems(3) node(1) t'(4) Some by (simp add: enough_def)
      then show ?thesis using Suc.IH [OF t'(3) _ _ o kn k Suc.prems(7)] t'(4) Some step by simp
    qed
  qed
qed

section \<open>Properties\<close>

text \<open>(C7) A run of the trimmer returns, whatever the condition and the filter: the walk takes at most one
  step per entry and one more. It does not throw, keeps the invariant of the entry index, only
  removes entries, and removes one of a graph only when the filter allowed an entry of that graph.\<close>

theorem trim_returns:
  assumes "ei_env_ok L" and "ee_sort L = LastWriteWins" and "ei_inv s" and "ei_initialized s"
    and "\<forall>h m. metas (ei_index s) h = Some m \<longrightarrow> u64 m" and "last_node_ok (metas (ei_index s)) t"
    and "length (ei_index s) + 2 \<le> fuel"
  shows "\<exists>deleted t' s'. trimTask fuel now L t s opts = Some (Inr (deleted, t', s')) \<and> ei_inv s' \<and>
    metas (ei_index s') \<subseteq>\<^sub>m metas (ei_index s) \<and>
    (\<forall>f h m. to_filter opts = Some f \<and> metas (ei_index s) h = Some m \<and> metas (ei_index s') h = None \<longrightarrow>
       (\<exists>e. m_gid (se_meta e) = m_gid m \<and> tf_canTrim f e))"
proof -
  let ?M = "metas (ei_index s)"
  have ok: "shallow_ok (ei_index s)" using assms(3) by (simp add: ei_inv_def)
  obtain b where b: "trim_start L s (to_condition opts) = Inr b"
    using trim_conditions_total(2) [OF assms(1,2) ok assms(4)] by blast
  obtain r t1 where r: "trim_prepare L s t opts = Inr (r, t1)"
    "\<forall>R. r = Some R \<longrightarrow> tk_option R = opts \<and> run_ok R ?M \<and> trim_inv R ?M (loop_init R t1 s)"
    using trim_prepare_ok [OF assms(1-6), of opts] by (elim exE conjE) (rule that, assumption, blast)
  show ?thesis
  proof (cases "b \<and> r \<noteq> None")
    case False
    have "\<exists>t'. trimTask fuel now L t s opts = Some (Inr ([], t', s))"
      using False b r(1) by (cases b) (auto simp: trimTask_def)
    with assms(3) show ?thesis by auto
  next
    case True
    then obtain R where R: "b" "r = Some R" by auto
    then have inv: "tk_option R = opts" "run_ok R ?M" "trim_inv R ?M (loop_init R t1 s)" using r(2) by auto
    have "enough ?M (loop_init R t1 s) \<le> fuel" using enough_le [OF ok] assms(7) by (rule order_trans)
    then obtain l where l: "trim_loop_run fuel now L R (loop_init R t1 s) = Some (Inr l)" "trim_inv R ?M l"
      using trim_loop_ok [OF assms(1,2,5) finite_metas inv(2,3)] by (auto simp: loop_init_def)
    obtain t' where "trim_finish L R t1 l = Inr (tl_deleted l, t', tl_index l)"
      using trim_finish_ok [OF assms(1,2) l(2)] by blast
    then have "trimTask fuel now L t s opts = Some (Inr (tl_deleted l, t', tl_index l))"
      using b R r(1) l(1) by (simp add: trimTask_def)
    with l(2) inv(1) show ?thesis by (auto simp: trim_inv_def may_trim_def)
  qed
qed

definition refuse_all :: trimOptions where
  "refuse_all = \<lparr>to_condition = TrimToLength 0 None,
     to_filter = Some \<lparr>tf_ref = 0, tf_canTrim = (\<lambda>_. False), tf_cacheId = None\<rparr>\<rparr>"

lemma ei_ex_run:
  "ei_initialized ei_ex" "length (ei_index ei_ex) = 2" "ei_length ei_ex = 2" "ee_sort ei_env_ex = LastWriteWins"
  "\<forall>h m. metas (ei_index ei_ex) h = Some m \<longrightarrow> u64 m" "last_node_ok N (new_Trim opts)"
proof -
  show "ei_initialized ei_ex" "length (ei_index ei_ex) = 2" "ei_length ei_ex = 2"
    by (simp_all add: ei_ex_def ei_init_def new_EntryIndex_def index_ex_def hm_getSize_def)
  show "ee_sort ei_env_ex = LastWriteWins" by (simp add: ei_env_ex_def)
  show "\<forall>h m. metas (ei_index ei_ex) h = Some m \<longrightarrow> u64 m"
    by (auto simp: ei_ex_index metas_ex meta_ex_def clock_ex_def u64_def split: if_splits)
  show "last_node_ok N (new_Trim opts)" by (simp add: last_node_ok_def new_Trim_def cache_inv_def)
qed

theorem trim_returns_witness:
  "\<exists>deleted t' s'. trimTask 4 9 ei_env_ex (new_Trim None) ei_ex refuse_all = Some (Inr (deleted, t', s')) \<and> ei_inv s' \<and>
     metas (ei_index s') = metas (ei_index ei_ex)"
proof -
  have f: "to_filter refuse_all = Some \<lparr>tf_ref = 0, tf_canTrim = (\<lambda>_. False), tf_cacheId = None\<rparr>"
    by (simp add: refuse_all_def)
  from trim_returns [OF ei_env_ex_ok ei_ex_run(4) ei_inv_ex ei_ex_run(1,5,6), of 4 9 None refuse_all]
  obtain deleted t' s' where r: "trimTask 4 9 ei_env_ex (new_Trim None) ei_ex refuse_all = Some (Inr (deleted, t', s'))"
    "ei_inv s'" "metas (ei_index s') \<subseteq>\<^sub>m metas (ei_index ei_ex)"
    "\<forall>h m. metas (ei_index ei_ex) h = Some m \<longrightarrow> metas (ei_index s') h \<noteq> None"
    using ei_ex_run(2) f by auto
  have "metas (ei_index s') h = metas (ei_index ei_ex) h" for h
    using r(3,4) by (cases "metas (ei_index ei_ex) h"; cases "metas (ei_index s') h") (auto simp: map_le_def dom_def)
  with r(1,2) show ?thesis by blast
qed

text \<open>Trimming to a length without a filter removes the oldest entries and nothing else, when all wall
  times differ: the given number of entries is left (all of them when there are fewer), and every
  entry removed is older than every entry kept.\<close>

theorem trim_keeps_newest:
  assumes "ei_env_ok L" and "ee_sort L = LastWriteWins" and "ei_inv s" and "ei_initialized s"
    and "\<forall>h m. metas (ei_index s) h = Some m \<longrightarrow> u64 m" and "last_node_ok (metas (ei_index s)) t"
    and "length (ei_index s) + 2 \<le> fuel"
    and "to_condition opts = TrimToLength n fr" and "to_filter opts = None"
    and "(case fr of None \<Rightarrow> n | Some x \<Rightarrow> x) \<le> ei_length s"
    and "\<forall>j x k y. metas (ei_index s) j = Some x \<and> metas (ei_index s) k = Some y \<and> wall x = wall y \<longrightarrow> j = k"
  shows "\<exists>deleted t' s'. trimTask fuel now L t s opts = Some (Inr (deleted, t', s')) \<and> ei_inv s' \<and>
    metas (ei_index s') \<subseteq>\<^sub>m metas (ei_index s) \<and> ei_length s' = min (ei_length s) (max n 0) \<and>
    keeps_newest (metas (ei_index s)) (metas (ei_index s'))"
proof -
  let ?M = "metas (ei_index s)"
  have ok: "shallow_ok (ei_index s)" using assms(3) by (simp add: ei_inv_def)
  have st: "trim_start L s (to_condition opts) = Inr True"
    using assms(4,8,10) by (simp add: ei_get_length_def)
  obtain r t1 where r: "trim_prepare L s t opts = Inr (r, t1)" "to_filter opts = None \<longrightarrow> r \<noteq> None"
    "\<forall>R. r = Some R \<longrightarrow> tk_option R = opts \<and> run_ok R ?M \<and> trim_inv R ?M (loop_init R t1 s) \<and>
       ei_getOldest L s = Inr (tk_tail R) \<and> tk_changed R \<and> (to_filter opts = None \<longrightarrow> \<not> tk_cacheProgress R)"
    using trim_prepare_ok [OF assms(1-6), of opts] by (elim exE conjE) (rule that)
  obtain R where R0: "r = Some R" using r(2) assms(9) by auto
  then have R: "tk_option R = opts" "run_ok R ?M" "trim_inv R ?M (loop_init R t1 s)" "ei_getOldest L s = Inr (tk_tail R)"
    "tk_changed R" "\<not> tk_cacheProgress R" using r(3) assms(9) by auto
  let ?l = "loop_init R t1 s :: 'a trim_loop"
  have l: "tl_index ?l = s" "tl_node ?l = tk_tail R" "\<not> tl_looped ?l" using R(2,6) by (simp_all add: loop_init_def run_ok_def)
  have old: "at_oldest (metas (ei_index (tl_index ?l))) ?l"
    using getOldest_lww [OF assms(1,2) ok] R(4) wallTime_mono unfolding l(1)
    by (auto simp: at_oldest_def l(2) metas_def fun_eq_iff wall_def ts_def)
  have kn: "keeps_newest ?M (metas (ei_index (tl_index ?l)))" by (auto simp: l(1) keeps_newest_def)
  have "enough ?M ?l \<le> fuel" using enough_le [OF ok] assms(7) by (rule order_trans)
  from trim_length_loop [OF assms(1,2,5) finite_metas R(2) _ _ R(5,6) assms(11) R(3) l(3) this old kn, of n fr "min (ei_length s) (max n 0)" now]
  obtain l' where l': "trim_loop_run fuel now L R ?l = Some (Inr l')" "trim_inv R ?M l'" "keeps_newest ?M (metas (ei_index (tl_index l')))"
    "min (ei_length s) (max n 0) \<le> ei_length (tl_index l')" "ei_length (tl_index l') \<le> max n 0"
    using R(1) assms(8,9) by (auto simp: l(1))
  obtain t' where "trim_finish L R t1 l' = Inr (tl_deleted l', t', tl_index l')"
    using trim_finish_ok [OF assms(1,2) l'(2)] by blast
  then have run: "trimTask fuel now L t s opts = Some (Inr (tl_deleted l', t', tl_index l'))"
    using st R0 r(1) l'(1) by (simp add: trimTask_def)
  have inv: "ei_inv (tl_index l')" "metas (ei_index (tl_index l')) \<subseteq>\<^sub>m ?M" using l'(2) by (auto simp: trim_inv_def)
  have "ei_length (tl_index l') \<le> ei_length s"
    using ei_length_card [OF inv(1)] ei_length_card [OF assms(3)] card_mono [OF finite_metas map_le_implies_dom_le [OF inv(2)]] by simp
  with l'(4,5) have "ei_length (tl_index l') = min (ei_length s) (max n 0)" by linarith
  with run inv l'(3) show ?thesis by blast
qed

theorem trim_keeps_newest_witness:
  "\<exists>deleted t' s'. trimTask 4 9 ei_env_ex (new_Trim None) ei_ex \<lparr>to_condition = TrimToLength 1 None, to_filter = None\<rparr> =
      Some (Inr (deleted, t', s')) \<and> ei_inv s' \<and> ei_length s' = 1 \<and> keeps_newest (metas (ei_index ei_ex)) (metas (ei_index s'))"
proof -
  let ?o = "\<lparr>to_condition = TrimToLength 1 None, to_filter = None\<rparr>"
  have inj: "\<forall>j x k y. metas (ei_index ei_ex) j = Some x \<and> metas (ei_index ei_ex) k = Some y \<and> wall x = wall y \<longrightarrow> j = k"
    by (auto simp: ei_ex_index metas_ex wall_def meta_ex_def clock_ex_def split: if_splits)
  have o: "to_condition ?o = TrimToLength 1 None" "to_filter ?o = None" by simp_all
  from trim_keeps_newest [OF ei_env_ex_ok ei_ex_run(4) ei_inv_ex ei_ex_run(1,5,6) _ o _ inj, of 4 9 None] show ?thesis
    using ei_ex_run(2,3) by auto
qed

text \<open>Three entries of one wall time.\<close>

definition same_wall :: "nat entryIndex" where
  "same_wall = ei_init (new_EntryIndex (map (\<lambda>(h, n). shallow_ex h
     ((meta_ex 1 ''g'' [])\<lparr>m_clock := \<lparr>lc_id = [1], lc_timestamp = Timestamp 1 n\<rparr>\<rparr>) True)
       [(''a'', 0), (''b'', 1), (''c'', 2)]) [])"

text \<open>Entries of the same wall time are skipped: \<open>getAfter\<close> looks for a later wall time only, and the second
  round that should come back to them ends at once, since it starts where the first one started.
  Of three entries that differ in the logical time only, trimming to one removes one and stops.\<close>

theorem trim_skips_same_wall_time:
  "map_option (\<lambda>r. map_sum id (\<lambda>(_, _, s'). (ei_length s', map (\<lambda>v. se_hash (iv_value v)) (jm_values (ei_index s')))) r)
     (trimTask 9 0 ei_env_ex (new_Trim None) same_wall \<lparr>to_condition = TrimToLength 1 None, to_filter = None\<rparr>) =
   Some (Inr (2, [''b'', ''c'']))"
  by code_simp

end
