(* ===== verification/Log.thy ===== *)
theory Log
  imports Trim
begin

text \<open>
  The log, \<open>packages/log/src/log.ts\<close>: appending, joining entries of other peers, removing entries and
  trimming, over the entry index and the trimmer.

  A log is a record of its entry index, trimmer, clock and the changes it reported. What the log is
  opened with is the record \<open>log_env\<close>: the environment of the index, the public key, the access check
  \<open>canAppend\<close>, the verification of signatures, and \<open>remote\<close>, what other peers return for a block this peer
  does not have. Asynchronous calls run to completion one after the other, so \<open>_joining\<close> is empty
  between them. A throw is the left summand.

  Two recursions of the code follow references between entries, which the code does not bound:
  \<open>joinRecursively\<close> and \<open>prepareDeleteRecursively\<close>. They have fuel, \<open>None\<close> is the call that does not return,
  and the theorems state when they return. Trimming has the fuel that the theory \<open>Trim\<close> shows to be enough.

  The theories \<open>LogJoin\<close> and \<open>LogUpdate\<close> hold the theorems; the lemmas at the end are what both use.
\<close>

section \<open>State\<close>

datatype log_error =
    Index_error ei_error
  | Create_error create_error
  | Clock_error clock_error
  | Sort_error query_error
  | Closed
  | Next_not_saved
  | Access_error
  | Unexpected
  | Invalid_signature
  | Invalid_hash
  | Failed_to_resolve_block
  | Trim_not_finished

text \<open>Results of calls that may also not return.\<close>

type_synonym 'a res = "(log_error + 'a) option"

fun rbind :: "'a res \<Rightarrow> ('a \<Rightarrow> 'b res) \<Rightarrow> 'b res" where
  "rbind None f = None"
| "rbind (Some (Inl e)) f = Some (Inl e)"
| "rbind (Some (Inr a)) f = f a"

fun lift_index :: "ei_error + 'a \<Rightarrow> log_error + 'a" where
  "lift_index (Inl e) = Inl (Index_error e)"
| "lift_index (Inr a) = Inr a"

fun lift_create :: "create_error + 'a \<Rightarrow> log_error + 'a" where
  "lift_create (Inl e) = Inl (Create_error e)"
| "lift_create (Inr a) = Inr a"

fun lift_clock :: "clock_error + 'a \<Rightarrow> log_error + 'a" where
  "lift_clock (Inl e) = Inl (Clock_error e)"
| "lift_clock (Inr a) = Inr a"

fun lift_sort :: "query_error + 'a \<Rightarrow> log_error + 'a" where
  "lift_sort (Inl e) = Inl (Sort_error e)"
| "lift_sort (Inr a) = Inr a"

record 'p log_env =
  le_index :: "'p ei_env"
  le_publicKey :: "nat list"
  le_canAppend :: "'p entry \<Rightarrow> bool"
  le_verify :: "'p entry \<Rightarrow> bool"
  le_remote :: "string \<Rightarrow> 'p entry option"

datatype 'p removed_entry = RShallow shallowEntry | RFull "'p entry"

record 'p change =
  ch_added :: "(bool \<times> 'p entry) list"
  ch_removed :: "'p removed_entry list"

record 'p log =
  lg_index :: "'p entryIndex"
  lg_trim :: trim
  lg_hlc :: hlc
  lg_closed :: bool
  lg_loadedOnce :: bool
  lg_changes :: "'p change list"

text \<open>The state after \<open>open\<close>; \<open>wt\<close> is the wall clock for the new \<open>HLC\<close>.\<close>

definition log_open :: "int \<Rightarrow> shallowEntry hashmap \<Rightarrow> (string, 'p entry) jsmap \<Rightarrow> trimOptions option \<Rightarrow> 'p log" where
  "log_open wt idx store trimOpts =
     \<lparr>lg_index = ei_init (new_EntryIndex idx store), lg_trim = new_Trim trimOpts, lg_hlc = new_HLC wt 0 0 0 None,
      lg_closed = False, lg_loadedOnce = False, lg_changes = []\<rparr>"

definition log_length :: "'p log \<Rightarrow> log_error + int" where
  "log_length l = (if lg_closed l then Inl Closed else lift_index (ei_get_length (lg_index l)))"

definition log_has :: "int \<Rightarrow> 'p log_env \<Rightarrow> 'p log \<Rightarrow> string \<Rightarrow> log_error + bool \<times> 'p log" where
  "log_has now E l h =
     bind_sum (lift_index (ei_has now (le_index E) (lg_index l) h)) (\<lambda>(b, s). Inr (b, l\<lparr>lg_index := s\<rparr>))"

definition log_get :: "int \<Rightarrow> 'p log \<Rightarrow> string \<Rightarrow> log_error + 'p entry option \<times> 'p log" where
  "log_get now l h =
     bind_sum (lift_index (ei_resolve now (lg_index l) h True)) (\<lambda>(e, s). Inr (e, l\<lparr>lg_index := s\<rparr>))"

definition log_getHeads :: "'p log_env \<Rightarrow> 'p log \<Rightarrow> log_error + shallowEntry list" where
  "log_getHeads E l = lift_index (ei_getHeads (le_index E) (lg_index l) None)"

section \<open>Deleting\<close>

text \<open>A deletion that is prepared: the entry it reports and what the function \<open>fn\<close> deletes.\<close>

type_synonym 'p pendingDelete = "'p removed_entry \<times> (string \<times> shallowEntry) option"

definition prepareDelete :: "'p log_env \<Rightarrow> 'p log \<Rightarrow> string \<Rightarrow> 'p pendingDelete option" where
  "prepareDelete E l hash =
     map_option (\<lambda>e. (RShallow e, Some (hash, e))) (ei_getShallow (le_index E) (lg_index l) hash)"

fun run_delete :: "'p log_env \<Rightarrow> 'p log \<Rightarrow> 'p pendingDelete \<Rightarrow> log_error + shallowEntry option \<times> 'p log" where
  "run_delete E l (_, None) = Inr (None, l)"
| "run_delete E l (_, Some (hash, e)) =
     bind_sum (lift_index (deleteFromCache (le_index E) (lg_index l) (lg_trim l) hash)) (\<lambda>t.
     bind_sum (lift_index (ei_delete (le_index E) (lg_index l) hash (Some e))) (\<lambda>(r, s).
       Inr (r, l\<lparr>lg_trim := t, lg_index := s\<rparr>)))"

fun run_deletes :: "'p log_env \<Rightarrow> 'p log \<Rightarrow> 'p pendingDelete list \<Rightarrow> log_error + shallowEntry list \<times> 'p log" where
  "run_deletes E l [] = Inr ([], l)"
| "run_deletes E l (d # ds) =
     bind_sum (run_delete E l d) (\<lambda>(r, l1).
     bind_sum (run_deletes E l1 ds) (\<lambda>(rs, l2).
       Inr ((case r of None \<Rightarrow> rs | Some x \<Rightarrow> x # rs), l2)))"

definition log_delete :: "'p log_env \<Rightarrow> 'p log \<Rightarrow> string \<Rightarrow> log_error + shallowEntry option \<times> 'p log" where
  "log_delete E l hash = (case prepareDelete E l hash of None \<Rightarrow> Inr (None, l) | Some d \<Rightarrow> run_delete E l d)"

text \<open>The inner loop of \<open>prepareDeleteRecursively\<close>: references of \<open>hash\<close> that no other entry of another type
  than \<open>CUT\<close> references are pushed. The stack has its top in front.\<close>

type_synonym reference = "string \<times> string list"

fun push_nexts ::
  "int \<Rightarrow> 'p log_env \<Rightarrow> string \<Rightarrow> string list \<Rightarrow> 'p log \<Rightarrow> reference list \<Rightarrow> log_error + reference list \<times> 'p log" where
  "push_nexts now E hash [] l stk = Inr (stk, l)"
| "push_nexts now E hash (next # ns) l stk =
     bind_sum (lift_index (ei_getHasNext (le_index E) (lg_index l) next)) (\<lambda>entriesThatHasNext.
       if list_ex (\<lambda>x. m_type (se_meta x) \<noteq> CUT \<and> se_hash x \<noteq> hash) entriesThatHasNext
       then push_nexts now E hash ns l stk
       else bind_sum (log_get now l next) (\<lambda>(ne, l1).
         push_nexts now E hash ns l1 (case ne of None \<Rightarrow> stk | Some e \<Rightarrow> (e_hash_str e, m_next (e_meta e)) # stk)))"

fun delete_walk ::
  "nat \<Rightarrow> int \<Rightarrow> 'p log_env \<Rightarrow> bool \<Rightarrow> 'p log \<Rightarrow> reference list \<Rightarrow> 'p pendingDelete list \<Rightarrow> ('p pendingDelete list \<times> 'p log) res" where
  "delete_walk fuel now E skip l [] toDelete = Some (Inr (toDelete, l))"
| "delete_walk 0 now E skip l (e # stk) toDelete = None"
| "delete_walk (Suc fuel) now E skip l ((hash, nexts) # stk) toDelete =
     rbind (Some (push_nexts now E hash nexts l stk)) (\<lambda>(stk', l').
       delete_walk fuel now E False l' stk'
         (if skip then toDelete
          else case prepareDelete E l hash of None \<Rightarrow> toDelete | Some d \<Rightarrow> toDelete @ [d]))"

definition prepareDeleteRecursively ::
  "nat \<Rightarrow> int \<Rightarrow> 'p log_env \<Rightarrow> 'p log \<Rightarrow> reference list \<Rightarrow> bool \<Rightarrow> ('p pendingDelete list \<times> 'p log) res" where
  "prepareDeleteRecursively fuel now E l from skipFirst = delete_walk fuel now E skipFirst l (rev from) []"

definition deleteRecursively ::
  "nat \<Rightarrow> int \<Rightarrow> 'p log_env \<Rightarrow> 'p log \<Rightarrow> reference list \<Rightarrow> bool \<Rightarrow> (shallowEntry list \<times> 'p log) res" where
  "deleteRecursively fuel now E l from skipFirst =
     rbind (prepareDeleteRecursively fuel now E l from skipFirst) (\<lambda>(ds, l1). Some (run_deletes E l1 ds))"

definition notify :: "'p log \<Rightarrow> 'p change \<Rightarrow> 'p log" where
  "notify l c = l\<lparr>lg_changes := lg_changes l @ [c]\<rparr>"

definition log_remove ::
  "nat \<Rightarrow> int \<Rightarrow> 'p log_env \<Rightarrow> 'p log \<Rightarrow> reference list \<Rightarrow> bool \<Rightarrow> ('p change \<times> 'p log) res" where
  "log_remove fuel now E l entries recursively =
     (if length entries = 0 then Some (Inr (\<lparr>ch_added = [], ch_removed = []\<rparr>, l))
      else
        rbind (if recursively then prepareDeleteRecursively fuel now E l entries False
               else Some (Inr (concat (map (\<lambda>(h, _). case prepareDelete E l h of None \<Rightarrow> [] | Some d \<Rightarrow> [d]) entries), l)))
          (\<lambda>(removed, l1).
            let c = \<lparr>ch_added = [], ch_removed = map fst removed\<rparr> in
            Some (bind_sum (run_deletes E (notify l1 c) removed) (\<lambda>(_, l2). Inr (c, l2)))))"

section \<open>Trimming\<close>

definition log_trim :: "int \<Rightarrow> 'p log_env \<Rightarrow> 'p log \<Rightarrow> trimOptions option \<Rightarrow> log_error + 'p entry list option \<times> 'p log" where
  "log_trim now E l opts =
     (case trim_trim (length (ei_index (lg_index l)) + 2) now (le_index E) (lg_trim l) (lg_index l) opts of
        None \<Rightarrow> Inl Trim_not_finished
      | Some r \<Rightarrow> bind_sum (lift_index r) (\<lambda>(deleted, t, s). Inr (deleted, l\<lparr>lg_trim := t, lg_index := s\<rparr>)))"

definition processEntry :: "nat \<Rightarrow> int \<Rightarrow> 'p log_env \<Rightarrow> 'p log \<Rightarrow> 'p entry \<Rightarrow> ('p pendingDelete list \<times> 'p log) res" where
  "processEntry fuel now E l e =
     (if m_type (e_meta e) = CUT
      then prepareDeleteRecursively fuel now E l [(e_hash_str e, m_next (e_meta e))] True
      else Some (Inr ([], l)))"

text \<open>The common end of \<open>append\<close> and \<open>joinRecursively\<close>: process the entry, trim, report the change, delete.\<close>

definition finish_entry ::
  "nat \<Rightarrow> int \<Rightarrow> 'p log_env \<Rightarrow> 'p log \<Rightarrow> 'p entry \<Rightarrow> bool \<Rightarrow> trimOptions option \<Rightarrow> ('p removed_entry list \<times> 'p log) res" where
  "finish_entry fuel now E l e head trimOpts =
     rbind (processEntry fuel now E l e) (\<lambda>(pending, l1).
     rbind (Some (log_trim now E l1 trimOpts)) (\<lambda>(trimmed, l2).
       let pending' = pending @ (case trimmed of None \<Rightarrow> [] | Some es \<Rightarrow> map (\<lambda>x. (RFull x, None)) es);
           removed = map fst pending'
       in Some (bind_sum (run_deletes E (notify l2 \<lparr>ch_added = [(head, e)], ch_removed = removed\<rparr>) pending') (\<lambda>(_, l3).
            Inr (removed, l3)))))"

section \<open>Joining\<close>

text \<open>\<open>Entry.fromMultihash\<close>: the block of this peer, or of another one.\<close>

definition fromMultihash :: "'p log_env \<Rightarrow> 'p log \<Rightarrow> string \<Rightarrow> log_error + 'p entry" where
  "fromMultihash E l h =
     (if h = [] then Inl Invalid_hash
      else case (case jm_get (ei_store (lg_index l)) h of None \<Rightarrow> le_remote E h | Some e \<Rightarrow> Some e) of
             None \<Rightarrow> Inl Failed_to_resolve_block
           | Some e \<Rightarrow> Inr (e\<lparr>e_hash := Some h\<rparr>))"

record 'p join_options =
  jo_verifySignatures :: bool
  jo_trim :: "trimOptions option"
  jo_reset :: bool
  jo_references :: "(string, 'p entry) jsmap"

text \<open>An entry that a head of type \<open>CUT\<close> of its graph deleted before.\<close>

fun already_deleted :: "'p log_env \<Rightarrow> 'p entry \<Rightarrow> shallowEntry list \<Rightarrow> log_error + bool" where
  "already_deleted E e [] = Inr False"
| "already_deleted E e (v # vs) =
     (if m_type (se_meta v) = CUT \<and> e_hash_str e \<in> set (m_next (se_meta v)) then
        bind_sum (lift_sort (compare_entries (shallow_js (toShallow (ee_byteLength (le_index E)) e False)) (shallow_js v)
            (sf_sort (ee_sort (le_index E))))) (\<lambda>c.
          if c < 0 then Inr True else already_deleted E e vs)
      else already_deleted E e vs)"

fun join_nexts ::
  "('p entry \<Rightarrow> 'p log \<Rightarrow> (bool \<times> 'p log) res) \<Rightarrow> int \<Rightarrow> 'p log_env \<Rightarrow> 'p join_options \<Rightarrow> string list \<Rightarrow> 'p log \<Rightarrow> 'p log res" where
  "join_nexts joinRec now E opts [] l = Some (Inr l)"
| "join_nexts joinRec now E opts (a # as) l =
     rbind (Some (log_has now E l a)) (\<lambda>(known, l1).
       if \<not> known \<or> jo_reset opts then
         rbind (case jm_get (jo_references opts) a of Some e \<Rightarrow> Some (Inr e) | None \<Rightarrow> Some (fromMultihash E l1 a)) (\<lambda>nested.
         rbind (joinRec nested l1) (\<lambda>(_, l2). join_nexts joinRec now E opts as l2))
       else join_nexts joinRec now E opts as l1)"

primrec joinRecursively ::
  "nat \<Rightarrow> int \<Rightarrow> int \<Rightarrow> 'p log_env \<Rightarrow> 'p join_options \<Rightarrow> bool \<Rightarrow> 'p entry \<Rightarrow> 'p log \<Rightarrow> (bool \<times> 'p log) res" where
  "joinRecursively 0 now wt E opts isHead e l = None"
| "joinRecursively (Suc fuel) now wt E opts isHead e l =
     rbind (Some (lift_index (ei_get_length (lg_index l)))) (\<lambda>n.
     if n > MAX_SAFE_INTEGER then Some (Inr (False, l))
     else if e_hash e = None \<or> e_hash e = Some [] then Some (Inl Unexpected)
     else
     rbind (Some (log_has now E l (e_hash_str e))) (\<lambda>(known, l1).
     if known \<and> \<not> jo_reset opts then Some (Inr (False, l1))
     else if jo_verifySignatures opts \<and> \<not> le_verify E e then Some (Inl Invalid_signature)
     else
     rbind (Some (lift_index (ei_getHeads (le_index E) (lg_index l1) (Some (m_gid (e_meta e)))))) (\<lambda>headsWithGid.
     rbind (Some (already_deleted E e headsWithGid)) (\<lambda>dead.
     if dead then Some (Inr (False, l1))
     else
     rbind (if m_type (e_meta e) = CUT then Some (Inr l1)
            else join_nexts (joinRecursively fuel now wt E opts False) now E opts (m_next (e_meta e)) l1) (\<lambda>l2.
     if \<not> le_canAppend E e then Some (Inr (False, l2))
     else
     rbind (Some (lift_clock (HLC_update (lg_hlc l2) wt (lc_timestamp (m_clock (e_meta e)))))) (\<lambda>(_, h).
     rbind (Some (lift_index (ei_put now (le_index E) (lg_index l2) e False isHead True))) (\<lambda>(e1, s).
     rbind (finish_entry fuel now E (l2\<lparr>lg_hlc := h, lg_index := s\<rparr>) e1 isHead (jo_trim opts)) (\<lambda>(_, l3).
       Some (Inr (True, l3))))))))))"

datatype 'p joinable =
    JEntry "'p entry"
  | JHash string
  | JShallow shallowEntry
  | JWithRefs "'p entry" "'p entry list"

text \<open>The first part of \<open>join\<close> on an array: the entries and the references at hand. An element is an entry,
  a hash or a shallow entry (read by its hash unless the log has it), or an entry with references.\<close>

definition collect_hash :: "int \<Rightarrow> 'p log_env \<Rightarrow> bool \<Rightarrow> string \<Rightarrow> 'p log \<Rightarrow> log_error + 'p entry list \<times> 'p log" where
  "collect_hash now E reset h l =
     bind_sum (log_has now E l h) (\<lambda>(known, l1).
       if known \<and> \<not> reset then Inr ([], l1)
       else bind_sum (fromMultihash E l1 h) (\<lambda>e. Inr ([e], l1)))"

fun collect_new :: "int \<Rightarrow> 'p log_env \<Rightarrow> bool \<Rightarrow> 'p joinable \<Rightarrow> 'p log \<Rightarrow> log_error + 'p entry list \<times> 'p log" where
  "collect_new now E reset (JEntry e) l = Inr ([e], l)"
| "collect_new now E reset (JWithRefs e rs) l = Inr ([e], l)"
| "collect_new now E reset (JHash h) l = collect_hash now E reset h l"
| "collect_new now E reset (JShallow s) l = collect_hash now E reset (se_hash s) l"

fun references_of :: "'p joinable \<Rightarrow> 'p entry list" where
  "references_of (JEntry e) = [e]"
| "references_of (JWithRefs e rs) = e # rs"
| "references_of _ = []"

primrec collect ::
  "int \<Rightarrow> 'p log_env \<Rightarrow> bool \<Rightarrow> 'p joinable list \<Rightarrow> 'p log \<Rightarrow> 'p entry list \<Rightarrow> (string, 'p entry) jsmap \<Rightarrow>
     log_error + 'p entry list \<times> (string, 'p entry) jsmap \<times> 'p log" where
  "collect now E reset [] l es references = Inr (es, references, l)"
| "collect now E reset (x # xs) l es references =
     bind_sum (collect_new now E reset x l) (\<lambda>(new, l1).
       collect now E reset xs l1 (es @ new)
         (fold (\<lambda>r m. jm_set m (e_hash_str r) r) (references_of x) references))"

fun join_heads :: "'p entry list \<Rightarrow> (string, bool) jsmap \<Rightarrow> (string, bool) jsmap" where
  "join_heads [] heads = heads"
| "join_heads (e # es) heads =
     (if jm_has heads (e_hash_str e) then join_heads es heads
      else join_heads es (fold (\<lambda>next m. jm_set m next False) (m_next (e_meta e)) (jm_set heads (e_hash_str e) True)))"

fun join_all ::
  "nat \<Rightarrow> int \<Rightarrow> int \<Rightarrow> 'p log_env \<Rightarrow> 'p join_options \<Rightarrow> (string, bool) jsmap \<Rightarrow> 'p entry list \<Rightarrow> 'p log \<Rightarrow> 'p log res" where
  "join_all fuel now wt E opts heads [] l = Some (Inr l)"
| "join_all fuel now wt E opts heads (e # es) l =
     rbind (joinRecursively fuel now wt E opts (jm_get heads (e_hash_str e) = Some True) e l) (\<lambda>(_, l1).
       join_all fuel now wt E opts heads es l1)"

definition log_join ::
  "nat \<Rightarrow> int \<Rightarrow> int \<Rightarrow> 'p log_env \<Rightarrow> 'p join_options \<Rightarrow> 'p joinable list \<Rightarrow> 'p log \<Rightarrow> 'p log res" where
  "log_join fuel now wt E opts xs l =
     (if length xs = 0 then Some (Inr l)
      else rbind (Some (collect now E (jo_reset opts) xs l [] [])) (\<lambda>(es, references, l1).
        join_all fuel now wt E (opts\<lparr>jo_references := references\<rparr>) (join_heads es []) es l1))"

section \<open>Appending\<close>

datatype 'p next_ref = NextEntry "'p entry" | NextShallow shallowEntry

fun next_shallow :: "('p \<Rightarrow> int) \<Rightarrow> 'p next_ref \<Rightarrow> shallowEntry" where
  "next_shallow bl (NextEntry e) = toShallow bl e False"
| "next_shallow bl (NextShallow s) = s"

record 'p append_options =
  ao_type :: "EntryType option"
  ao_data :: "nat list option"
  ao_timestamp :: "timestamp option"
  ao_next :: "'p next_ref list option"
  ao_newGid :: string
  ao_trim :: "trimOptions option"

text \<open>The entry of \<open>EntryV0.create\<close>, stored under its content hash.\<close>

definition create_entry ::
  "'p log_env \<Rightarrow> 'p log \<Rightarrow> 'p \<Rightarrow> lamportClock \<Rightarrow> 'p append_options \<Rightarrow> shallowEntry list \<Rightarrow> log_error + 'p entry \<times> 'p log" where
  "create_entry E l payload clock opts nexts =
     bind_sum (lift_create (create_clock 0 (\<lambda>_. 0) 0 (le_publicKey E) False False (Some clock) nexts)) (\<lambda>c.
     bind_sum (lift_create (create_meta None (ao_newGid opts) (ao_type opts) (ao_data opts) c nexts)) (\<lambda>m.
       let block = \<lparr>e_hash = None, e_meta = m, e_payload = payload\<rparr>; hash = ee_cid (le_index E) block in
       if \<not> le_canAppend E block then Inl Access_error
       else Inr (block\<lparr>e_hash := Some hash\<rparr>,
                 l\<lparr>lg_index := (lg_index l)\<lparr>ei_store := jm_set (ei_store (lg_index l)) hash block\<rparr>\<rparr>)))"

text \<open>References that the log does not have are joined first.\<close>

definition join_next :: "nat \<Rightarrow> int \<Rightarrow> int \<Rightarrow> 'p log_env \<Rightarrow> 'p next_ref \<Rightarrow> 'p log \<Rightarrow> 'p log res" where
  "join_next fuel now wt E n l =
     (let h = se_hash (next_shallow (ee_byteLength (le_index E)) n) in
      rbind (Some (log_has now E l h)) (\<lambda>(known, l1).
        if known then Some (Inr l1)
        else
          rbind (case n of
                   NextEntry e \<Rightarrow> Some (Inr (Some e, l1))
                 | NextShallow _ \<Rightarrow> Some (bind_sum (lift_index (ei_resolve now (lg_index l1) h False)) (\<lambda>(e, s).
                     Inr (e, l1\<lparr>lg_index := s\<rparr>)))) (\<lambda>(resolved, l2).
            case resolved of
              None \<Rightarrow> Some (Inr l2)
            | Some e \<Rightarrow>
                log_join fuel now wt E \<lparr>jo_verifySignatures = False, jo_trim = None, jo_reset = False, jo_references = []\<rparr>
                  [JEntry e] l2)))"

fun join_missing :: "nat \<Rightarrow> int \<Rightarrow> int \<Rightarrow> 'p log_env \<Rightarrow> 'p next_ref list \<Rightarrow> 'p log \<Rightarrow> 'p log res" where
  "join_missing fuel now wt E [] l = Some (Inr l)"
| "join_missing fuel now wt E (n # ns) l = rbind (join_next fuel now wt E n l) (join_missing fuel now wt E ns)"

definition log_append ::
  "nat \<Rightarrow> int \<Rightarrow> int \<Rightarrow> 'p log_env \<Rightarrow> 'p \<Rightarrow> 'p append_options \<Rightarrow> 'p log \<Rightarrow> ('p entry \<times> 'p removed_entry list \<times> 'p log) res" where
  "log_append fuel now wt E payload opts l =
     (if (case ao_next opts of None \<Rightarrow> False | Some ns \<Rightarrow>
           list_ex (\<lambda>n. se_hash (next_shallow (ee_byteLength (le_index E)) n) = []) ns)
      then Some (Inl Next_not_saved)
      else
        rbind (case ao_next opts of
                 Some ns \<Rightarrow> Some (Inr ns)
               | None \<Rightarrow> Some (bind_sum (log_getHeads E l) (\<lambda>hs. Inr (map NextShallow hs)))) (\<lambda>nexts.
        rbind (case ao_timestamp opts of
                 Some t \<Rightarrow> Some (Inr (t, l))
               | None \<Rightarrow> Some (bind_sum (lift_clock (HLC_now (lg_hlc l) wt)) (\<lambda>(t, h). Inr (t, l\<lparr>lg_hlc := h\<rparr>)))) (\<lambda>(t, l1).
        rbind (Some (create_entry E l1 payload \<lparr>lc_id = le_publicKey E, lc_timestamp = t\<rparr> opts
                 (map (next_shallow (ee_byteLength (le_index E))) nexts))) (\<lambda>(e, l2).
        if e_hash e = Some [] then Some (Inl Unexpected)
        else
        rbind (if m_type (e_meta e) = CUT then Some (Inr l2) else join_missing fuel now wt E nexts l2) (\<lambda>l3.
        rbind (Some (lift_index (ei_put now (le_index E) (lg_index l3) e True True False))) (\<lambda>(e1, s).
        rbind (finish_entry fuel now E (l3\<lparr>lg_index := s\<rparr>) e1 True (ao_trim opts)) (\<lambda>(removed, l4).
          Some (Inr (e1, removed, l4)))))))))"

section \<open>Loading\<close>

fun remove_others :: "int \<Rightarrow> 'p log_env \<Rightarrow> string list \<Rightarrow> shallowEntry list \<Rightarrow> 'p log \<Rightarrow> 'p log res" where
  "remove_others now E provided [] l = Some (Inr l)"
| "remove_others now E provided (h # hs) l =
     (if se_hash h \<in> set provided then remove_others now E provided hs l
      else rbind (log_remove 0 now E l [(se_hash h, m_next (se_meta h))] False) (\<lambda>(_, l1). remove_others now E provided hs l1))"

text \<open>\<open>load\<close> with the heads given: join them, then remove the heads that were not given. The iterator over
  the heads computes its results at the first batch.\<close>

definition log_load ::
  "nat \<Rightarrow> int \<Rightarrow> int \<Rightarrow> 'p log_env \<Rightarrow> 'p entry list \<Rightarrow> bool \<Rightarrow> 'p log \<Rightarrow> 'p log res" where
  "log_load fuel now wt E heads reset l =
     (if lg_closed l then Some (Inl Closed)
      else if lg_loadedOnce l \<and> \<not> reset then Some (Inr l)
      else
        rbind (log_join fuel now wt E \<lparr>jo_verifySignatures = False, jo_trim = None, jo_reset = reset, jo_references = []\<rparr>
                 (map JEntry heads) (l\<lparr>lg_loadedOnce := True\<rparr>)) (\<lambda>l1.
        rbind (Some (log_getHeads E l1)) (\<lambda>allHeads.
          remove_others now E (map e_hash_str heads) allHeads l1)))"

definition log_close :: "'p log \<Rightarrow> 'p log" where
  "log_close l = l\<lparr>lg_closed := True, lg_loadedOnce := False\<rparr>"

definition log_drop :: "'p log_env \<Rightarrow> 'p log \<Rightarrow> log_error + 'p log" where
  "log_drop E l =
     bind_sum (lift_index (ei_clear (le_index E) (lg_index l))) (\<lambda>s. Inr (l\<lparr>lg_closed := True, lg_index := s\<rparr>))"

section \<open>Lemmas: reading\<close>

lemma distinct_values:
  assumes "shallow_ok idx"
  shows "distinct (map iv_value (jm_values idx))"
proof -
  have "map (\<lambda>x. PStr (se_hash (iv_value (snd x)))) idx = map fst idx" using assms by (auto simp: shallow_ok_def)
  moreover have "distinct (map fst idx)" using assms by (simp add: shallow_ok_def jm_ok_def)
  ultimately have "distinct (map (\<lambda>x. PStr (se_hash (iv_value (snd x)))) idx)" by (simp only:)
  then show ?thesis by (auto simp: jm_values_def distinct_map inj_on_def)
qed

text \<open>The heads, of one graph when its id is given, and the entries that reference an entry.\<close>

lemma getHeads_effect:
  assumes "ei_env_ok L" and "shallow_ok (ei_index s)"
  shows "\<exists>es. ei_getHeads L s gid = Inr es \<and> distinct es \<and>
    (\<forall>e. e \<in> set es \<longleftrightarrow> shallow_lookup (ei_index s) (se_hash e) = Some e \<and> se_head e \<and>
       (case gid of Some (c # cs) \<Rightarrow> m_gid (se_meta e) = c # cs | _ \<Rightarrow> True))"
proof -
  obtain b64 lc d where E: "ee_index L = shallow_env b64 lc (Suc (Suc d))" using assms(1) by (auto simp: ei_env_ok_def)
  let ?g = "case gid of Some (c # cs) \<Rightarrow> [exactly [''meta'', ''gid''] (c # cs)] | _ \<Rightarrow> []"
  let ?qs = "StateFieldQuery [''head''] (BoolQuery True) # ?g"
  let ?P = "\<lambda>e. se_head e \<and> (case gid of Some (c # cs) \<Rightarrow> m_gid (se_meta e) = c # cs | _ \<Rightarrow> True)"
  have st: "stack (shallow_env b64 lc (Suc (Suc d))) = Suc (Suc d)" by (simp add: shallow_env_def)
  have hd: "handleFieldQuery (shallow_env b64 lc (Suc (Suc d))) (Suc (Suc d)) [''head''] (BoolQuery True) (shallow_js v) 0 h =
      Inr (Some (se_head v), h)" for v h
    by (simp add: shallow_js_def shallow_env_def)
  have "\<exists>h. handle_all (ee_index L) ?qs 0 (shallow_js v) [] = Inr (?P v, h)" for v
    by (cases gid; cases "the gid"; simp add: E exactly_def st hd field_gid del: handleFieldQuery.simps)
  moreover have "id_lookup (ee_index L) ?qs = None"
    by (simp add: E id_lookup_def exactly_def shallow_env_def split: option.splits list.splits)
  ultimately obtain es where es: "ei_all L s ?qs (sf_sort (ee_sort L)) = Inr es"
    "mset es = mset (filter ?P (map iv_value (jm_values (ei_index s))))"
    using ei_all_effect [OF assms(1), of ?qs ?P s] by blast
  have "distinct es" using mset_eq_imp_distinct_iff [OF es(2)] distinct_values [OF assms(2)] by simp
  moreover have "e \<in> set es \<longleftrightarrow> shallow_lookup (ei_index s) (se_hash e) = Some e \<and> ?P e" for e
    using mset_eq_setD [OF es(2)] shallow_in_values [OF assms(2)] by auto
  ultimately show ?thesis using es(1) unfolding ei_getHeads_def by blast
qed

lemma getHasNext_effect:
  assumes "ei_env_ok L" and "shallow_ok (ei_index s)"
  shows "\<exists>es. ei_getHasNext L s n = Inr es \<and>
    (\<forall>e. e \<in> set es \<longleftrightarrow> shallow_lookup (ei_index s) (se_hash e) = Some e \<and> n \<in> set (m_next (se_meta e)))"
proof -
  obtain b64 lc d where E: "ee_index L = shallow_env b64 lc (Suc (Suc d))" using assms(1) by (auto simp: ei_env_ok_def)
  let ?qs = "[exactly [''meta'', ''next''] n]" and ?P = "\<lambda>e. refs e n"
  have st: "stack (shallow_env b64 lc (Suc (Suc d))) = Suc (Suc d)" by (simp add: shallow_env_def)
  have "\<exists>h. handle_all (ee_index L) ?qs 0 (shallow_js v) [] = Inr (?P v, h)" for v
  proof -
    obtain h where "handleFieldQuery (shallow_env b64 lc (Suc (Suc d))) (Suc (Suc d)) [''meta'', ''next'']
        (StringMatch n Exact False) (shallow_js v) 0 [] = Inr (Some (refs v n), h)" using field_next by blast
    then show ?thesis by (simp add: E exactly_def st del: handleFieldQuery.simps)
  qed
  moreover have "id_lookup (ee_index L) ?qs = None" by (simp add: E id_lookup_def exactly_def shallow_env_def)
  ultimately obtain es where es: "ei_all L s ?qs (sf_sort (ee_sort L)) = Inr es"
    "mset es = mset (filter ?P (map iv_value (jm_values (ei_index s))))"
    using ei_all_effect [OF assms(1), of ?qs ?P s] by blast
  have "e \<in> set es \<longleftrightarrow> shallow_lookup (ei_index s) (se_hash e) = Some e \<and> ?P e" for e
    using mset_eq_setD [OF es(2)] shallow_in_values [OF assms(2)] by auto
  with es(1) show ?thesis unfolding ei_getHasNext_def refs_def by blast
qed

text \<open>What \<open>has\<close> does to the log: it only touches the cache.\<close>

lemma log_has_ok:
  assumes "ei_env_ok (le_index E)" and "entry_cache.coherent (known_only (ei_index (lg_index l))) (ei_cache (lg_index l))"
  shows "\<exists>c. log_has now E l h = Inr (metas (ei_index (lg_index l)) h \<noteq> None, l\<lparr>lg_index := (lg_index l)\<lparr>ei_cache := c\<rparr>\<rparr>) \<and>
    entry_cache.coherent (known_only (ei_index (lg_index l))) c"
  using ei_has_ok [OF assms, of now h] by (auto simp: log_has_def)

lemma finish_append:
  assumes "m_type (e_meta e) = APPEND" and "tr_options (lg_trim l) = None"
  shows "finish_entry fuel now E l e head None = Some (Inr ([], notify l \<lparr>ch_added = [(head, e)], ch_removed = []\<rparr>))"
  using assms by (simp add: finish_entry_def processEntry_def log_trim_def trim_trim_def)

lemma already_deleted_append:
  "(\<forall>v \<in> set vs. m_type (se_meta v) = APPEND) \<Longrightarrow> already_deleted E e vs = Inr False"
  by (induction vs) auto

end
