(* ===== verification/SimpleSync.thy ===== *)
theory SimpleSync
  imports Log RangeQueries
begin

text \<open>
  The synchroniser of \<open>packages/programs/data/shared-log/src/sync/simple.ts\<close> and the messages with entries of
  \<open>exchange-heads.ts\<close>. A peer announces keys (hashes of entries, or coordinates); unknown keys are requested from the
  first peer that announces them, later announcers are queued, and a loop that runs every three seconds asks
  the next queued peer for what is still missing. The messages that are sent are recorded.

  \<open>syncInFlightQueue\<close> maps a key to the queued peers, \<open>syncInFlightQueueInverted\<close> a queued peer to its keys,
  \<open>syncInFlight\<close> a peer to the keys it was asked for. The answers of \<open>checkHasCoordinateOrHash\<close> are the argument \<open>has\<close>.

  Shown here: the invariant of the two queues along every sequence of operations, that no announcement of a
  missing entry is lost, that a disconnected peer is forgotten and that the loop empties the queue; what
  \<open>createExchangeHeadsMessages\<close> sends; and three defects.
\<close>

section \<open>State and messages\<close>

datatype syncable_key = HashKey string | Coordinate int

datatype sync_message =
    RequestMaybeSync "string list"
  | ResponseMaybeSync "syncable_key list"
  | RequestMaybeSyncCoordinate "syncable_key list"

record sync =
  syncInFlightQueue :: "(syncable_key, string list) jsmap"
  syncInFlightQueueInverted :: "(string, syncable_key jsset) jsmap"
  syncInFlight :: "(string, (syncable_key, int) jsmap) jsmap"
  sync_closed :: bool
  sync_sent :: "(sync_message \<times> string list) list"

definition new_SimpleSyncronizer :: sync where
  "new_SimpleSyncronizer =
     \<lparr>syncInFlightQueue = [], syncInFlightQueueInverted = [], syncInFlight = [], sync_closed = False, sync_sent = []\<rparr>"

definition sync_pending :: "sync \<Rightarrow> nat" where
  "sync_pending s = length (syncInFlightQueue s)"

section \<open>Operations\<close>

definition onMaybeMissingEntries :: "string list \<Rightarrow> string list \<Rightarrow> sync \<Rightarrow> sync" where
  "onMaybeMissingEntries hashes targets s = s\<lparr>sync_sent := sync_sent s @ [(RequestMaybeSync hashes, targets)]\<rparr>"

definition is_coordinate :: "syncable_key \<Rightarrow> bool" where
  "is_coordinate k = (case k of Coordinate _ \<Rightarrow> True | HashKey _ \<Rightarrow> False)"

definition note_asked :: "int \<Rightarrow> syncable_key list \<Rightarrow> string \<Rightarrow> sync \<Rightarrow> sync" where
  "note_asked now hashes node s =
     (let m = (case jm_get (syncInFlight s) node of None \<Rightarrow> [] | Some m \<Rightarrow> m)
      in s\<lparr>syncInFlight := jm_set (syncInFlight s) node (fold (\<lambda>h m. jm_set m h now) hashes m)\<rparr>)"

text \<open>The kind of the message is that of the first key.\<close>

definition requestSync :: "int \<Rightarrow> syncable_key list \<Rightarrow> string list \<Rightarrow> sync \<Rightarrow> sync" where
  "requestSync now hashes to s =
     (if length hashes = 0 then s
      else
        let s1 = fold (note_asked now hashes) to s
        in s1\<lparr>sync_sent := sync_sent s1 @
              [(if is_coordinate (hd hashes) then RequestMaybeSyncCoordinate hashes else ResponseMaybeSync hashes, to)]\<rparr>)"

definition add_inverted :: "string \<Rightarrow> syncable_key \<Rightarrow> (string, syncable_key jsset) jsmap \<Rightarrow> (string, syncable_key jsset) jsmap" where
  "add_inverted from key inverted = jm_set inverted from (js_add (case jm_get inverted from of None \<Rightarrow> [] | Some s \<Rightarrow> s) key)"

definition queue_key :: "(syncable_key \<Rightarrow> bool) \<Rightarrow> bool \<Rightarrow> string \<Rightarrow> syncable_key \<Rightarrow> sync \<times> syncable_key list \<Rightarrow> sync \<times> syncable_key list" where
  "queue_key has skipCheck from key = (\<lambda>(s, requestHashes).
     case jm_get (syncInFlightQueue s) key of
       Some inFlight \<Rightarrow>
         (if from \<in> set inFlight then s
          else s\<lparr>syncInFlightQueue := jm_set (syncInFlightQueue s) key (inFlight @ [from]),
                 syncInFlightQueueInverted := add_inverted from key (syncInFlightQueueInverted s)\<rparr>, requestHashes)
     | None \<Rightarrow>
         if skipCheck \<or> \<not> has key
         then (s\<lparr>syncInFlightQueue := jm_set (syncInFlightQueue s) key []\<rparr>, requestHashes @ [key])
         else (s, requestHashes))"

definition queueSync :: "(syncable_key \<Rightarrow> bool) \<Rightarrow> bool \<Rightarrow> int \<Rightarrow> syncable_key list \<Rightarrow> string \<Rightarrow> sync \<Rightarrow> sync" where
  "queueSync has skipCheck now keys from s =
     (let (s1, requestHashes) = fold (queue_key has skipCheck from) keys (s, [])
      in if length requestHashes > 0 then requestSync now requestHashes [from] s1 else s1)"

text \<open>Entries that arrived are no longer expected from the peer that sent them.\<close>

definition received_entry :: "string \<Rightarrow> string \<Rightarrow> sync \<Rightarrow> sync" where
  "received_entry from hash s =
     (case jm_get (syncInFlight s) from of
        None \<Rightarrow> s
      | Some m \<Rightarrow>
          let m' = jm_delete m (HashKey hash)
          in s\<lparr>syncInFlight := (if m' = [] then jm_delete (syncInFlight s) from else jm_set (syncInFlight s) from m')\<rparr>)"

definition onReceivedEntries :: "string list \<Rightarrow> string \<Rightarrow> sync \<Rightarrow> sync" where
  "onReceivedEntries hashes from s = fold (received_entry from) hashes s"

text \<open>The loop: every key of the queue, with the state of the queues, the keys to request and the peers to ask.\<close>

definition shift_inverted :: "string \<Rightarrow> syncable_key \<Rightarrow> (string, syncable_key jsset) jsmap \<Rightarrow> (string, syncable_key jsset) jsmap" where
  "shift_inverted p key inverted =
     (case jm_get inverted p of
        None \<Rightarrow> inverted
      | Some ks \<Rightarrow>
          if key \<in> set ks then let ks' = js_remove ks key in if ks' = [] then jm_delete inverted p else jm_set inverted p ks' else inverted)"

fun loop_keys ::
  "(syncable_key \<Rightarrow> bool) \<Rightarrow> (syncable_key \<times> string list) list \<Rightarrow> sync \<Rightarrow> syncable_key list \<Rightarrow> string jsset \<Rightarrow>
     sync \<times> syncable_key list \<times> string jsset" where
  "loop_keys has [] s requestHashes from = (s, requestHashes, from)"
| "loop_keys has ((key, value) # rest) s requestHashes from =
     (if has key then loop_keys has rest (s\<lparr>syncInFlightQueue := jm_delete (syncInFlightQueue s) key\<rparr>) requestHashes from
      else
        case value of
          [] \<Rightarrow> loop_keys has rest (s\<lparr>syncInFlightQueue := jm_delete (syncInFlightQueue s) key\<rparr>) requestHashes from
        | p # ps \<Rightarrow>
            loop_keys has rest
              (s\<lparr>syncInFlightQueue := (if ps = [] then jm_delete (syncInFlightQueue s) key else jm_set (syncInFlightQueue s) key ps),
                 syncInFlightQueueInverted := shift_inverted p key (syncInFlightQueueInverted s)\<rparr>)
              (requestHashes @ [key]) (js_add from p))"

definition forget_old :: "int \<Rightarrow> sync \<Rightarrow> sync" where
  "forget_old now s =
     s\<lparr>syncInFlight := filter (\<lambda>(_, m). m \<noteq> []) (map (\<lambda>(p, m). (p, filter (\<lambda>(_, t). \<not> t < now - 20000) m)) (syncInFlight s))\<rparr>"

definition requestSyncLoop :: "(syncable_key \<Rightarrow> bool) \<Rightarrow> int \<Rightarrow> sync \<Rightarrow> sync" where
  "requestSyncLoop has now s =
     (if sync_closed s \<and> syncInFlightQueue s \<noteq> [] then s
      else
        let (s1, requestHashes, from) = loop_keys has (syncInFlightQueue s) s [] []
        in requestSync now requestHashes from (forget_old now s1))"

definition sync_open :: "(syncable_key \<Rightarrow> bool) \<Rightarrow> int \<Rightarrow> sync \<Rightarrow> sync" where
  "sync_open has now s = requestSyncLoop has now (s\<lparr>sync_closed := False\<rparr>)"

definition sync_close :: "sync \<Rightarrow> sync" where
  "sync_close s = s\<lparr>sync_closed := True, syncInFlightQueue := [], syncInFlightQueueInverted := [], syncInFlight := []\<rparr>"

definition drop_inverted :: "syncable_key \<Rightarrow> string \<Rightarrow> (string, syncable_key jsset) jsmap \<Rightarrow> (string, syncable_key jsset) jsmap" where
  "drop_inverted key p inverted =
     (case jm_get inverted p of
        None \<Rightarrow> inverted
      | Some ks \<Rightarrow> let ks' = js_remove ks key in if ks' = [] then jm_delete inverted p else jm_set inverted p ks')"

definition clearSyncProcess :: "string \<Rightarrow> sync \<Rightarrow> sync" where
  "clearSyncProcess hash s =
     (case jm_get (syncInFlightQueue s) (HashKey hash) of
        None \<Rightarrow> s
      | Some inflight \<Rightarrow>
          s\<lparr>syncInFlightQueueInverted := fold (drop_inverted (HashKey hash)) inflight (syncInFlightQueueInverted s),
            syncInFlightQueue := jm_delete (syncInFlightQueue s) (HashKey hash)\<rparr>)"

definition forget_queued :: "string \<Rightarrow> syncable_key \<Rightarrow> (syncable_key, string list) jsmap \<Rightarrow> (syncable_key, string list) jsmap" where
  "forget_queued p key Q =
     (case jm_get Q key of
        None \<Rightarrow> Q
      | Some arr \<Rightarrow> let filtered = filter (\<lambda>x. x \<noteq> p) arr in if length filtered > 0 then jm_set Q key filtered else jm_delete Q key)"

definition clearSyncProcessPublicKey :: "string \<Rightarrow> sync \<Rightarrow> sync" where
  "clearSyncProcessPublicKey p s =
     (let s1 = s\<lparr>syncInFlight := jm_delete (syncInFlight s) p\<rparr>
      in case jm_get (syncInFlightQueueInverted s1) p of
           None \<Rightarrow> s1
         | Some ks \<Rightarrow> s1\<lparr>syncInFlightQueue := fold (forget_queued p) ks (syncInFlightQueue s1),
                       syncInFlightQueueInverted := jm_delete (syncInFlightQueueInverted s1) p\<rparr>)"

section \<open>What is known\<close>

definition checkHasCoordinateOrHash ::
  "int \<Rightarrow> 'p log_env \<Rightarrow> (entryReplicated, 'm) index_env_scheme \<Rightarrow> 'p log \<Rightarrow> entryReplicated hashmap \<Rightarrow> syncable_key \<Rightarrow>
     (log_error + query_error) + bool \<times> 'p log" where
  "checkHasCoordinateOrHash now L E l entryIndex key =
     (case key of
        Coordinate c \<Rightarrow>
          (case hm_count E entryIndex (QueryRecord (JObj [(''coordinates'', JBig c)])) of
             Inl e \<Rightarrow> Inl (Inr e) | Inr n \<Rightarrow> Inr (n > 0, l))
      | HashKey h \<Rightarrow> (case log_has now L l h of Inl e \<Rightarrow> Inl (Inl e) | Inr r \<Rightarrow> Inr r))"

text \<open>The hashes of the entries at the given coordinates, from the cache or from the index; the batches have one
  query each.\<close>

definition cache_coordinates :: "int \<Rightarrow> entryReplicated \<Rightarrow> (int, string) cache \<Rightarrow> cache_error + (int, string) cache" where
  "cache_coordinates now e C =
     foldl (\<lambda>acc c. bind_sum acc (\<lambda>C. cache_add now C c (Some (er_hash e)) 1)) (Inr C) (er_coordinates e)"

fun cache_entries :: "int \<Rightarrow> entryReplicated list \<Rightarrow> (int, string) cache \<Rightarrow> cache_error + (int, string) cache" where
  "cache_entries now [] C = Inr C"
| "cache_entries now (e # es) C = bind_sum (cache_coordinates now e C) (cache_entries now es)"

fun getHashesFromSymbols ::
  "int \<Rightarrow> (entryReplicated, 'm) index_env_scheme \<Rightarrow> entryReplicated hashmap \<Rightarrow> int list \<Rightarrow> (int, string) cache \<Rightarrow> string jsset \<Rightarrow>
     (cache_error + query_error) + string jsset \<times> (int, string) cache" where
  "getHashesFromSymbols now E entryIndex [] C results = Inr (results, C)"
| "getHashesFromSymbols now E entryIndex (c # cs) C results =
     (case cache_get now C c of
        Inl e \<Rightarrow> Inl (Inl e)
      | Inr (cached, C1) \<Rightarrow>
          let fromCache = (case cached of Some (Some h) \<Rightarrow> h | _ \<Rightarrow> [])
          in if fromCache \<noteq> [] then getHashesFromSymbols now E entryIndex cs C1 (js_add results fromCache)
             else
               (case bind_sum (new_IntegerCompare [''coordinates''] (JBig c) Equal) (\<lambda>q. iterate_all E entryIndex (QueryList [q]) []) of
                  Inl e \<Rightarrow> Inl (Inr e)
                | Inr vs \<Rightarrow>
                    (case cache_entries now (map iv_value vs) C1 of
                       Inl e \<Rightarrow> Inl (Inl e)
                     | Inr C2 \<Rightarrow> getHashesFromSymbols now E entryIndex cs C2 (fold (\<lambda>v s. js_add s (er_hash (iv_value v))) vs results))))"

section \<open>The queues\<close>

definition queued_peers :: "(syncable_key, string list) jsmap \<Rightarrow> syncable_key \<Rightarrow> string list" where
  "queued_peers Q k = (case jm_get Q k of None \<Rightarrow> [] | Some ps \<Rightarrow> ps)"

definition keys_of :: "(string, syncable_key jsset) jsmap \<Rightarrow> string \<Rightarrow> syncable_key set" where
  "keys_of I p = (case jm_get I p of None \<Rightarrow> {} | Some ks \<Rightarrow> set ks)"

text \<open>Every queued peer is known under the keys it is queued for, so that it can be taken out again.\<close>

definition queues_ok :: "(syncable_key, string list) jsmap \<Rightarrow> (string, syncable_key jsset) jsmap \<Rightarrow> bool" where
  "queues_ok Q I \<longleftrightarrow> jm_ok Q \<and> jm_ok I \<and> (\<forall>k. distinct (queued_peers Q k)) \<and> (\<forall>k. \<forall>p \<in> set (queued_peers Q k). k \<in> keys_of I p)"

definition sync_ok :: "sync \<Rightarrow> bool" where
  "sync_ok s \<longleftrightarrow> queues_ok (syncInFlightQueue s) (syncInFlightQueueInverted s) \<and> jm_ok (syncInFlight s) \<and>
     (\<forall>(p, m) \<in> set (syncInFlight s). m \<noteq> [])"

lemma queued_set [simp]: "queued_peers (jm_set Q k v) = (queued_peers Q)(k := v)"
  by (auto simp: queued_peers_def fun_eq_iff)

lemma queued_delete [simp]: "queued_peers (jm_delete Q k) = (queued_peers Q)(k := [])"
  by (auto simp: queued_peers_def fun_eq_iff)

lemma queued_Nil [simp]: "queued_peers [] = (\<lambda>_. [])" "keys_of [] = (\<lambda>_. {})"
  by (simp_all add: queued_peers_def keys_of_def fun_eq_iff)

lemma keys_delete [simp]: "keys_of (jm_delete I p) = (keys_of I)(p := {})"
  by (auto simp: keys_of_def fun_eq_iff)

lemma keys_add [simp]: "keys_of (add_inverted p k I) = (keys_of I)(p := insert k (keys_of I p))"
  by (auto simp: keys_of_def add_inverted_def fun_eq_iff js_add_def split: option.splits)

lemma keys_set: "keys_of (jm_set I p ks) = (keys_of I)(p := set ks)"
  by (auto simp: keys_of_def fun_eq_iff)

lemma keys_drop [simp]: "keys_of (drop_inverted k p I) = (keys_of I)(p := keys_of I p - {k})"
proof (cases "jm_get I p")
  case (Some ks)
  have "js_remove ks k = [] \<longleftrightarrow> set ks - {k} = {}" "set (js_remove ks k) = set ks - {k}"
    by (auto simp: js_remove_def filter_empty_conv)
  with Some show ?thesis by (simp add: drop_inverted_def Let_def keys_set) (simp add: keys_of_def fun_eq_iff)
qed (simp add: drop_inverted_def keys_of_def fun_eq_iff)

lemma shift_is_drop: "shift_inverted p k I = (if k \<in> keys_of I p then drop_inverted k p I else I)"
  by (simp add: shift_inverted_def drop_inverted_def keys_of_def split: option.split)

lemma keys_shift [simp]: "keys_of (shift_inverted p k I) = (keys_of I)(p := keys_of I p - {k})"
  by (auto simp: shift_is_drop fun_eq_iff)

lemma jm_ok_inverted [simp, intro]:
  "jm_ok I \<Longrightarrow> jm_ok (add_inverted p k I)" "jm_ok I \<Longrightarrow> jm_ok (drop_inverted k p I)" "jm_ok I \<Longrightarrow> jm_ok (shift_inverted p k I)"
  by (auto simp: add_inverted_def drop_inverted_def shift_inverted_def Let_def split: option.split)

lemma queues_enqueue:
  "queues_ok Q I \<Longrightarrow> p \<notin> set (queued_peers Q k) \<Longrightarrow> queues_ok (jm_set Q k (queued_peers Q k @ [p])) (add_inverted p k I)"
  by (auto simp: queues_ok_def)

lemma queues_new: "queues_ok Q I \<Longrightarrow> queues_ok (jm_set Q k []) I"
  by (auto simp: queues_ok_def)

lemma queues_delete: "queues_ok Q I \<Longrightarrow> queues_ok (jm_delete Q k) I"
  by (auto simp: queues_ok_def)

text \<open>Taking peers out of the list of a key, and then off the inverted map.\<close>

lemma queues_shift:
  assumes "queues_ok Q I" and "queued_peers Q k = p # ps"
  shows "queues_ok (if ps = [] then jm_delete Q k else jm_set Q k ps) (shift_inverted p k I)"
proof -
  have "distinct (p # ps)" using assms by (metis queues_ok_def)
  moreover have "k \<in> keys_of I q" if "q \<in> set ps" for q using assms that by (metis queues_ok_def list.set_intros(2))
  ultimately show ?thesis using assms(1) by (auto simp: queues_ok_def)
qed

lemma fold_drop_keys [simp]:
  "keys_of (fold (drop_inverted k) ps I) p = (if p \<in> set ps then keys_of I p - {k} else keys_of I p)"
  by (induction ps arbitrary: I) auto

lemma jm_ok_fold_drop [simp]: "jm_ok I \<Longrightarrow> jm_ok (fold (drop_inverted k) ps I)"
  by (induction ps arbitrary: I) auto

lemma queues_clear: "queues_ok Q I \<Longrightarrow> queues_ok (jm_delete Q k) (fold (drop_inverted k) ps I)"
  by (auto simp: queues_ok_def)

lemma forget_queued_peers [simp]:
  "queued_peers (forget_queued p k Q) = (queued_peers Q)(k := filter (\<lambda>x. x \<noteq> p) (queued_peers Q k))"
  by (auto simp: forget_queued_def Let_def fun_eq_iff split: option.split) (auto simp: queued_peers_def)

lemma fold_forget_peers:
  "queued_peers (fold (forget_queued p) ks Q) k = (if k \<in> set ks then filter (\<lambda>x. x \<noteq> p) (queued_peers Q k) else queued_peers Q k)"
  by (induction ks arbitrary: Q) auto

lemma jm_ok_fold_forget [simp]: "jm_ok Q \<Longrightarrow> jm_ok (fold (forget_queued p) ks Q)"
  by (induction ks arbitrary: Q) (auto simp: forget_queued_def Let_def split: option.split)

lemma queues_forget:
  assumes "queues_ok Q I"
  shows "queues_ok (case jm_get I p of None \<Rightarrow> Q | Some ks \<Rightarrow> fold (forget_queued p) ks Q) (jm_delete I p)"
    and "p \<notin> set (queued_peers (case jm_get I p of None \<Rightarrow> Q | Some ks \<Rightarrow> fold (forget_queued p) ks Q) k)"
proof -
  let ?Q = "case jm_get I p of None \<Rightarrow> Q | Some ks \<Rightarrow> fold (forget_queued p) ks Q"
  have k: "queued_peers ?Q k = (if k \<in> keys_of I p then filter (\<lambda>x. x \<noteq> p) (queued_peers Q k) else queued_peers Q k)" for k
    by (auto simp: keys_of_def fold_forget_peers split: option.split)
  have p: "p \<notin> set (queued_peers Q k)" if "k \<notin> keys_of I p" for k using assms that by (auto simp: queues_ok_def)
  show "p \<notin> set (queued_peers ?Q k)" using k [of k] p [of k] by auto
  show "queues_ok ?Q (jm_delete I p)" using assms k p unfolding queues_ok_def by (auto split: option.split)
qed

section \<open>Operations keep the queues\<close>

lemma note_asked_simps [simp]:
  "syncInFlightQueue (note_asked now ks p s) = syncInFlightQueue s"
  "syncInFlightQueueInverted (note_asked now ks p s) = syncInFlightQueueInverted s"
  "sync_closed (note_asked now ks p s) = sync_closed s" "sync_sent (note_asked now ks p s) = sync_sent s"
  by (simp_all add: note_asked_def Let_def)

lemma fold_asked_simps [simp]:
  "syncInFlightQueue (fold (note_asked now ks) to s) = syncInFlightQueue s"
  "syncInFlightQueueInverted (fold (note_asked now ks) to s) = syncInFlightQueueInverted s"
  "sync_closed (fold (note_asked now ks) to s) = sync_closed s" "sync_sent (fold (note_asked now ks) to s) = sync_sent s"
  by (induction to arbitrary: s) simp_all

lemma requestSync_simps [simp]:
  "syncInFlightQueue (requestSync now ks to s) = syncInFlightQueue s"
  "syncInFlightQueueInverted (requestSync now ks to s) = syncInFlightQueueInverted s"
  "sync_closed (requestSync now ks to s) = sync_closed s"
  by (simp_all add: requestSync_def Let_def)

lemma fold_set_nonempty: "ks \<noteq> [] \<Longrightarrow> fold (\<lambda>k m. jm_set m k v) ks m \<noteq> []"
proof (induction ks arbitrary: m)
  case (Cons k ks)
  have "jm_set m k v \<noteq> []" by (cases m) (auto split: if_splits)
  then show ?case using Cons by (cases ks) auto
qed simp

definition flights_ok :: "(string, (syncable_key, int) jsmap) jsmap \<Rightarrow> bool" where
  "flights_ok F \<longleftrightarrow> jm_ok F \<and> (\<forall>(p, m) \<in> set F. m \<noteq> [])"

lemma sync_ok_alt: "sync_ok s \<longleftrightarrow> queues_ok (syncInFlightQueue s) (syncInFlightQueueInverted s) \<and> flights_ok (syncInFlight s)"
  by (auto simp: sync_ok_def flights_ok_def)

lemma flights_set [intro]: "flights_ok F \<Longrightarrow> m \<noteq> [] \<Longrightarrow> flights_ok (jm_set F p m)"
  using set_jm_set_subset [of F p m] by (fastforce simp: flights_ok_def)

lemma flights_delete [intro]: "flights_ok F \<Longrightarrow> flights_ok (jm_delete F p)"
  by (auto simp: flights_ok_def set_jm_delete)

lemma flights_asked: "flights_ok (syncInFlight s) \<Longrightarrow> ks \<noteq> [] \<Longrightarrow> flights_ok (syncInFlight (fold (note_asked now ks) to s))"
proof (induction to arbitrary: s)
  case (Cons p to)
  have "flights_ok (syncInFlight (note_asked now ks p s))"
    unfolding note_asked_def Let_def using Cons.prems by (simp add: flights_set fold_set_nonempty)
  with Cons show ?case by simp
qed simp

lemma requestSync_ok [intro]: "sync_ok s \<Longrightarrow> sync_ok (requestSync now ks to s)"
  using flights_asked by (auto simp: sync_ok_alt requestSync_def Let_def)

lemma queue_key_ok: "sync_ok s \<Longrightarrow> sync_ok (fst (queue_key has skip p k (s, rs)))"
  using queues_enqueue [of "syncInFlightQueue s" "syncInFlightQueueInverted s" p k] queues_new
  by (auto simp: queue_key_def sync_ok_alt queued_peers_def split: option.split)

lemma fold_queue_key_ok: "sync_ok s \<Longrightarrow> sync_ok (fst (fold (queue_key has skip p) ks (s, rs)))"
proof (induction ks arbitrary: s rs)
  case (Cons k ks)
  obtain s' rs' where "queue_key has skip p k (s, rs) = (s', rs')" by force
  then show ?case using Cons queue_key_ok [of s has skip p k rs] by simp
qed simp

lemma queueSync_ok [intro]: "sync_ok s \<Longrightarrow> sync_ok (queueSync has skip now ks p s)"
  using fold_queue_key_ok [of s has skip p ks "[]"] by (auto simp: queueSync_def split: prod.split)

lemma received_ok [intro]: "sync_ok s \<Longrightarrow> sync_ok (onReceivedEntries hs p s)"
proof (induction hs arbitrary: s)
  case (Cons h hs)
  have "sync_ok (received_entry p h s)" using Cons.prems by (auto simp: sync_ok_alt received_entry_def Let_def split: option.split)
  then show ?case using Cons.IH by (simp add: onReceivedEntries_def)
qed (simp add: onReceivedEntries_def)

lemma clear_ok [intro]: "sync_ok s \<Longrightarrow> sync_ok (clearSyncProcess h s)"
  using queues_clear by (auto simp: sync_ok_alt clearSyncProcess_def split: option.split)

lemma disconnect_queue:
  "syncInFlightQueue (clearSyncProcessPublicKey p s) =
     (case jm_get (syncInFlightQueueInverted s) p of None \<Rightarrow> syncInFlightQueue s | Some ks \<Rightarrow> fold (forget_queued p) ks (syncInFlightQueue s))"
  "syncInFlight (clearSyncProcessPublicKey p s) = jm_delete (syncInFlight s) p"
  by (simp_all add: clearSyncProcessPublicKey_def Let_def split: option.split)

lemma jm_delete_absent: "jm_get m k = None \<Longrightarrow> jm_delete m k = m"
  by (auto simp: jm_delete_def map_of_eq_None_iff filter_id_conv)

lemma disconnect_inverted:
  "syncInFlightQueueInverted (clearSyncProcessPublicKey p s) = jm_delete (syncInFlightQueueInverted s) p"
  by (simp add: clearSyncProcessPublicKey_def Let_def jm_delete_absent split: option.split)

lemma disconnect_ok [intro]: "sync_ok s \<Longrightarrow> sync_ok (clearSyncProcessPublicKey p s)"
  using queues_forget(1) [of "syncInFlightQueue s" "syncInFlightQueueInverted s" p]
  by (auto simp: sync_ok_alt disconnect_queue disconnect_inverted)

lemma forget_old_ok: "flights_ok (syncInFlight s) \<Longrightarrow> flights_ok (syncInFlight (forget_old now s))"
proof -
  assume a: "flights_ok (syncInFlight s)"
  have "map fst (map (\<lambda>(p, m). (p, filter P m)) F) = map fst F" for P and F :: "(string \<times> (syncable_key \<times> int) list) list"
    by (induction F) auto
  then have "jm_ok (map (\<lambda>(p, m). (p, filter P m)) (syncInFlight s))" for P using a unfolding jm_ok_def flights_ok_def by metis
  then show ?thesis by (auto simp: flights_ok_def forget_old_def)
qed

lemma forget_old_simps [simp]:
  "syncInFlightQueue (forget_old now s) = syncInFlightQueue s" "syncInFlightQueueInverted (forget_old now s) = syncInFlightQueueInverted s"
  "sync_closed (forget_old now s) = sync_closed s" "sync_sent (forget_old now s) = sync_sent s"
  by (simp_all add: forget_old_def)

section \<open>The loop\<close>

text \<open>A round drops what is known by now and the first peer of every other list, and asks these peers.\<close>

definition wanted :: "(syncable_key \<Rightarrow> bool) \<Rightarrow> (syncable_key, string list) jsmap \<Rightarrow> (syncable_key \<times> string list) list" where
  "wanted has Q = filter (\<lambda>(k, ps). \<not> has k \<and> ps \<noteq> []) Q"

definition left_over :: "(syncable_key \<Rightarrow> bool) \<Rightarrow> (syncable_key, string list) jsmap \<Rightarrow> (syncable_key, string list) jsmap" where
  "left_over has Q = map (\<lambda>(k, ps). (k, tl ps)) (filter (\<lambda>(k, ps). \<not> has k \<and> tl ps \<noteq> []) Q)"

lemma jm_delete_middle: "jm_ok (D @ (k, v) # R) \<Longrightarrow> jm_delete (D @ (k, v) # R) k = D @ R"
  using jm_delete_absent [of D k] jm_delete_absent [of R k] by (auto simp: jm_delete_def jm_ok_def map_of_eq_None_iff)

lemma jm_set_middle: "jm_ok (D @ (k, v) # R) \<Longrightarrow> jm_set (D @ (k, v) # R) k w = D @ (k, w) # R"
  by (induction D) (auto simp: jm_ok_def)

lemma loop_keys_eq:
  assumes "syncInFlightQueue s = D @ R" and "jm_ok (D @ R)"
  shows "\<exists>s'. loop_keys has R s rs fr = (s', rs @ map fst (wanted has R), fold (\<lambda>(k, ps) f. js_add f (hd ps)) (wanted has R) fr) \<and>
    syncInFlightQueue s' = D @ left_over has R \<and> syncInFlight s' = syncInFlight s \<and> sync_closed s' = sync_closed s \<and> sync_sent s' = sync_sent s"
  using assms
proof (induction R arbitrary: s D rs fr)
  case Nil
  then show ?case by (auto simp: wanted_def left_over_def)
next
  case (Cons x R)
  obtain k v where x: "x = (k, v)" by force
  have ok: "jm_ok (D @ R)" "jm_ok ((D @ [(k, ps)]) @ R)" for ps using Cons.prems(2) x by (auto simp: jm_ok_def)
  have d: "jm_delete (syncInFlightQueue s) k = D @ R" "jm_set (syncInFlightQueue s) k ps = (D @ [(k, ps)]) @ R" for ps
    using Cons.prems x jm_delete_middle [of D k v R] jm_set_middle [of D k v R ps] by simp_all
  consider "has k \<or> v = []" | p where "\<not> has k" "v = [p]" | p q ps where "\<not> has k" "v = p # q # ps" by (cases v rule: remdups_adj.cases) auto
  then show ?case
  proof cases
    case 1
    with Cons.IH [of "s\<lparr>syncInFlightQueue := D @ R\<rparr>" D rs fr] ok d show ?thesis
      by (cases v) (auto simp: x wanted_def left_over_def)
  next
    case (2 p)
    with Cons.IH [of "s\<lparr>syncInFlightQueue := D @ R, syncInFlightQueueInverted := shift_inverted p k (syncInFlightQueueInverted s)\<rparr>" D
        "rs @ [k]" "js_add fr p"] ok d show ?thesis by (auto simp: x wanted_def left_over_def)
  next
    case (3 p q ps)
    with Cons.IH [of "s\<lparr>syncInFlightQueue := (D @ [(k, q # ps)]) @ R, syncInFlightQueueInverted := shift_inverted p k (syncInFlightQueueInverted s)\<rparr>"
        "D @ [(k, q # ps)]" "rs @ [k]" "js_add fr p"] ok d show ?thesis by (auto simp: x wanted_def left_over_def)
  qed
qed

lemma loop_keys_queues:
  assumes "queues_ok (syncInFlightQueue s) (syncInFlightQueueInverted s)" and "jm_ok R" and "\<forall>(k, v) \<in> set R. queued_peers (syncInFlightQueue s) k = v"
    and "loop_keys has R s rs fr = (s', rs', fr')"
  shows "queues_ok (syncInFlightQueue s') (syncInFlightQueueInverted s')"
  using assms
proof (induction R arbitrary: s rs fr)
  case (Cons x R)
  obtain k v where x: "x = (k, v)" by force
  let ?Q = "syncInFlightQueue s" and ?I = "syncInFlightQueueInverted s"
  have k: "queued_peers ?Q k = v" "k \<notin> fst ` set R" using Cons.prems(2,3) x by (auto simp: jm_ok_Cons)
  have rest: "\<forall>(j, w) \<in> set R. queued_peers Q' j = w" if "\<forall>j. j \<noteq> k \<longrightarrow> queued_peers Q' j = queued_peers ?Q j" for Q'
    using that k(2) Cons.prems(3) by fastforce
  have R: "jm_ok R" using Cons.prems(2) by (simp add: jm_ok_Cons)
  show ?case
  proof (cases "has k \<or> v = []")
    case True
    then have "loop_keys has R (s\<lparr>syncInFlightQueue := jm_delete ?Q k\<rparr>) rs fr = (s', rs', fr')" using Cons.prems(4) x by (cases v) (auto split: if_splits)
    from Cons.IH [OF _ R _ this] show ?thesis using rest [of "jm_delete ?Q k"] queues_delete [OF Cons.prems(1)] by simp
  next
    case False
    then obtain p ps where v: "v = p # ps" "\<not> has k" by (cases v) auto
    let ?Q' = "if ps = [] then jm_delete ?Q k else jm_set ?Q k ps"
    have "loop_keys has R (s\<lparr>syncInFlightQueue := ?Q', syncInFlightQueueInverted := shift_inverted p k ?I\<rparr>) (rs @ [k]) (js_add fr p) = (s', rs', fr')"
      using Cons.prems(4) x v by auto
    from Cons.IH [OF _ R _ this] show ?thesis using rest [of ?Q'] queues_shift [OF Cons.prems(1), of k p ps] v k(1) by simp
  qed
qed simp

lemma queued_entry: "jm_ok Q \<Longrightarrow> (k, v) \<in> set Q \<Longrightarrow> queued_peers Q k = v"
  by (auto simp: queued_peers_def jm_ok_def)

lemma loop_ok [intro]:
  assumes "sync_ok s"
  shows "sync_ok (requestSyncLoop has now s)"
proof (cases "sync_closed s \<and> syncInFlightQueue s \<noteq> []")
  case False
  let ?Q = "syncInFlightQueue s"
  have q: "queues_ok ?Q (syncInFlightQueueInverted s)" "flights_ok (syncInFlight s)" "jm_ok ?Q"
    using assms by (auto simp: sync_ok_alt queues_ok_def)
  obtain s' rs' fr' where l: "loop_keys has ?Q s [] [] = (s', rs', fr')" by (cases "loop_keys has ?Q s [] []") auto
  have "queues_ok (syncInFlightQueue s') (syncInFlightQueueInverted s')" using loop_keys_queues [OF q(1,3) _ l] queued_entry q(3) by fastforce
  moreover have "syncInFlight s' = syncInFlight s" using loop_keys_eq [of s "[]" ?Q has "[]" "[]"] q(3) l by auto
  ultimately have "sync_ok (forget_old now s')" using forget_old_ok [of s'] q(2) by (simp add: sync_ok_alt)
  then show ?thesis unfolding requestSyncLoop_def using False l by (auto simp del: sync_ok_def)
qed (use assms in \<open>simp add: requestSyncLoop_def\<close>)

text \<open>Any sequence of calls and of rounds of the loop.\<close>

inductive sync_step :: "sync \<Rightarrow> sync \<Rightarrow> bool" where
  announce: "sync_step s (queueSync has skipCheck now keys p s)"
| offer: "sync_step s (onMaybeMissingEntries hashes targets s)"
| receive: "sync_step s (onReceivedEntries hashes p s)"
| round: "sync_step s (requestSyncLoop has now s)"
| entry_change: "sync_step s (clearSyncProcess h s)"
| disconnect: "sync_step s (clearSyncProcessPublicKey p s)"
| open_it: "sync_step s (sync_open has now s)"
| close_it: "sync_step s (sync_close s)"

inductive_cases sync_stepE: "sync_step s s'"

lemma sync_reset_ok [simp]: "sync_ok new_SimpleSyncronizer" "sync_ok (sync_close s)"
  by (simp_all add: sync_ok_def queues_ok_def new_SimpleSyncronizer_def sync_close_def)

lemma sync_step_ok: "sync_step s s' \<Longrightarrow> sync_ok s \<Longrightarrow> sync_ok s'"
proof (induction rule: sync_step.induct)
  case (offer s hashes targets)
  then show ?case by (simp add: sync_ok_def onMaybeMissingEntries_def)
next
  case (open_it s has now)
  then have "sync_ok (s\<lparr>sync_closed := False\<rparr>)" by (simp add: sync_ok_def)
  then show ?case by (auto simp: sync_open_def)
qed auto

lemma sync_reachable_ok: "sync_step\<^sup>*\<^sup>* s s' \<Longrightarrow> sync_ok s \<Longrightarrow> sync_ok s'"
  by (induction rule: rtranclp_induct) (auto intro: sync_step_ok)

text \<open>A peer was asked for a key.\<close>

definition asked :: "sync \<Rightarrow> syncable_key \<Rightarrow> string \<Rightarrow> bool" where
  "asked s k p \<longleftrightarrow> (\<exists>m to. (m, to) \<in> set (sync_sent s) \<and> p \<in> set to \<and> (\<exists>ks. k \<in> set ks \<and> m \<in> {ResponseMaybeSync ks, RequestMaybeSyncCoordinate ks}))"

lemma requestSync_asked: "k \<in> set ks \<Longrightarrow> p \<in> set to \<Longrightarrow> asked (requestSync now ks to s) k p"
  unfolding asked_def requestSync_def Let_def
  by (intro exI [of _ "if is_coordinate (hd ks) then RequestMaybeSyncCoordinate ks else ResponseMaybeSync ks"] exI [of _ to]) auto

text \<open>What a round does to the queue, and whom it asks for what.\<close>

lemma round_effect:
  assumes "jm_ok (syncInFlightQueue s)" and "\<not> sync_closed s"
  shows "syncInFlightQueue (requestSyncLoop has now s) = left_over has (syncInFlightQueue s)" "\<not> sync_closed (requestSyncLoop has now s)"
    and "set (sync_sent s) \<subseteq> set (sync_sent (requestSyncLoop has now s))"
    and "(k, p # ps) \<in> set (syncInFlightQueue s) \<Longrightarrow> \<not> has k \<Longrightarrow> asked (requestSyncLoop has now s) k p"
proof -
  let ?Q = "syncInFlightQueue s" and ?w = "wanted has (syncInFlightQueue s)"
  let ?from = "fold (\<lambda>(k, ps) f. js_add f (hd ps)) ?w []"
  obtain s' where l: "loop_keys has ?Q s [] [] = (s', map fst ?w, ?from)" "syncInFlightQueue s' = left_over has ?Q" "sync_closed s' = sync_closed s" "sync_sent s' = sync_sent s"
    using loop_keys_eq [of s "[]" ?Q has "[]" "[]"] assms(1) by auto
  then have r: "requestSyncLoop has now s = requestSync now (map fst ?w) ?from (forget_old now s')" using assms(2) by (simp add: requestSyncLoop_def)
  show "syncInFlightQueue (requestSyncLoop has now s) = left_over has ?Q" "\<not> sync_closed (requestSyncLoop has now s)"
    "set (sync_sent s) \<subseteq> set (sync_sent (requestSyncLoop has now s))"
    using r l assms(2) by (auto simp: requestSync_def Let_def)
  have "set (js_add f x) = insert x (set f)" for f :: "string list" and x by (auto simp: js_add_def)
  then have f: "set (fold (\<lambda>(k, ps) f. js_add f (hd ps)) w f) = hd ` snd ` set w \<union> set f" for w :: "(syncable_key \<times> string list) list" and f
    by (induction w arbitrary: f) auto
  assume k: "(k, p # ps) \<in> set ?Q" "\<not> has k"
  then have w: "(k, p # ps) \<in> set ?w" by (simp add: wanted_def)
  then have "k \<in> set (map fst ?w)" "p \<in> set ?from" using f [of ?w "[]"] by force+
  then show "asked (requestSyncLoop has now s) k p" unfolding r by (rule requestSync_asked)
qed

lemma left_over_ok: "jm_ok Q \<Longrightarrow> jm_ok (left_over has Q)"
  unfolding left_over_def jm_ok_def by (induction Q) (auto simp: case_prod_beta)

definition sync_rounds :: "((syncable_key \<Rightarrow> bool) \<times> int) list \<Rightarrow> sync \<Rightarrow> sync" where
  "sync_rounds rounds s = fold (\<lambda>(has, now). requestSyncLoop has now) rounds s"

lemma rounds_drain:
  assumes "jm_ok (syncInFlightQueue s)" and "\<not> sync_closed s" and "rounds \<noteq> []" and "\<forall>(k, ps) \<in> set (syncInFlightQueue s). length ps \<le> length rounds"
  shows "syncInFlightQueue (sync_rounds rounds s) = [] \<and> set (sync_sent s) \<subseteq> set (sync_sent (sync_rounds rounds s)) \<and>
    (\<forall>(k, ps) \<in> set (syncInFlightQueue s). (\<forall>(has, now) \<in> set rounds. \<not> has k) \<longrightarrow> (\<forall>p \<in> set ps. asked (sync_rounds rounds s) k p))"
  using assms
proof (induction rounds arbitrary: s)
  case (Cons x rounds)
  obtain has now where x: "x = (has, now)" by force
  let ?s = "requestSyncLoop has now s" and ?Q = "syncInFlightQueue s"
  note e = round_effect [OF Cons.prems(1,2), where has = has and now = now]
  have len: "\<forall>(k, ps) \<in> set (left_over has ?Q). length ps \<le> length rounds \<and> ps \<noteq> []" using Cons.prems(4) by (auto simp: left_over_def)
  have step: "sync_rounds (x # rounds) s = sync_rounds rounds ?s" by (simp add: sync_rounds_def x)
  have rest: "syncInFlightQueue (sync_rounds rounds ?s) = [] \<and> set (sync_sent ?s) \<subseteq> set (sync_sent (sync_rounds rounds ?s)) \<and>
    (\<forall>(k, ps) \<in> set (left_over has ?Q). (\<forall>(has, now) \<in> set rounds. \<not> has k) \<longrightarrow> (\<forall>p \<in> set ps. asked (sync_rounds rounds ?s) k p))"
  proof (cases "rounds = []")
    case True
    then have "left_over has ?Q = []" using len by (cases "left_over has ?Q") auto
    then show ?thesis using True e(1) by (simp add: sync_rounds_def)
  next
    case False
    have "\<forall>(k, ps) \<in> set (syncInFlightQueue ?s). length ps \<le> length rounds" using len unfolding e(1) by fast
    then show ?thesis using Cons.IH [of ?s] e(1,2) left_over_ok [OF Cons.prems(1)] False by simp
  qed
  have "asked (sync_rounds rounds ?s) k q" if k: "(k, ps) \<in> set ?Q" "\<forall>(has, now) \<in> set (x # rounds). \<not> has k" "q \<in> set ps" for k ps q
  proof -
    obtain p qs where ps: "ps = p # qs" using k(3) by (cases ps) auto
    have h: "\<not> has k" using k(2) x by auto
    from e(4) [of k p qs] k(1) ps h have "asked ?s k p" by simp
    then have p: "asked (sync_rounds rounds ?s) k p" using rest unfolding asked_def by blast
    have "(k, qs) \<in> set (left_over has ?Q)" if "q \<in> set qs" using k(1) ps h that by (force simp: left_over_def)
    then show ?thesis using p rest k(2,3) ps by fastforce
  qed
  then show ?case using rest e(3) unfolding step by auto
qed simp

section \<open>Properties\<close>

text \<open>(C21) In every state that a new synchroniser can reach, the two queues fit together: no peer is queued twice for a
  key, every queued peer is known under that key in the inverted map, so a peer that disconnects is in no
  queue and not expected to answer.\<close>

theorem sync_invariant:
  assumes "sync_step\<^sup>*\<^sup>* new_SimpleSyncronizer s"
  shows "(\<forall>k. distinct (queued_peers (syncInFlightQueue s) k) \<and>
      (\<forall>p \<in> set (queued_peers (syncInFlightQueue s) k). k \<in> keys_of (syncInFlightQueueInverted s) p)) \<and>
    (\<forall>p k. p \<notin> set (queued_peers (syncInFlightQueue (clearSyncProcessPublicKey p s)) k) \<and>
      jm_get (syncInFlight (clearSyncProcessPublicKey p s)) p = None)"
proof -
  have ok: "queues_ok (syncInFlightQueue s) (syncInFlightQueueInverted s)"
    using sync_reachable_ok [OF assms sync_reset_ok(1)] by (simp add: sync_ok_alt)
  then show ?thesis using queues_forget(2) [OF ok] by (simp add: queues_ok_def disconnect_queue)
qed

definition sync_ex :: sync where
  "sync_ex = queueSync (\<lambda>_. False) False 1 [HashKey ''e'', HashKey ''f''] ''c''
     (queueSync (\<lambda>_. False) False 1 [HashKey ''e''] ''b'' (queueSync (\<lambda>_. False) False 1 [HashKey ''e'', HashKey ''f''] ''a'' new_SimpleSyncronizer))"

lemma sync_ex_reachable: "sync_step\<^sup>*\<^sup>* new_SimpleSyncronizer sync_ex"
  unfolding sync_ex_def by (meson sync_step.announce rtranclp.rtrancl_into_rtrancl rtranclp.rtrancl_refl)

theorem sync_invariant_witness: "HashKey ''e'' \<in> keys_of (syncInFlightQueueInverted sync_ex) ''b''"
proof -
  have "''b'' \<in> set (queued_peers (syncInFlightQueue sync_ex) (HashKey ''e''))" by code_simp
  with sync_invariant [OF sync_ex_reachable] show ?thesis by blast
qed

text \<open>No announcement of a missing entry is lost: after \<open>queueSync\<close> the announcing peer is asked for the key, or it is
  in the queue of the key.\<close>

theorem queueSync_keeps_announcements:
  assumes "key \<in> set keys" and "skipCheck \<or> \<not> has key"
  shows "let s' = queueSync has skipCheck now keys p s in p \<in> set (queued_peers (syncInFlightQueue s') key) \<or> asked s' key p"
proof -
  have mono: "p \<in> set (queued_peers (syncInFlightQueue a) k) \<or> k \<in> set rs \<Longrightarrow>
      p \<in> set (queued_peers (syncInFlightQueue (fst (fold (queue_key has skipCheck p) ks (a, rs)))) k) \<or>
      k \<in> set (snd (fold (queue_key has skipCheck p) ks (a, rs)))" for a k rs ks
  proof (induction ks arbitrary: a rs)
    case (Cons x ks)
    obtain a' rs' where q: "queue_key has skipCheck p x (a, rs) = (a', rs')" by force
    then have "p \<in> set (queued_peers (syncInFlightQueue a') k) \<or> k \<in> set rs'"
      using Cons.prems by (auto simp: queue_key_def queued_peers_def split: option.splits if_splits)
    then show ?case using Cons.IH q by simp
  qed simp
  have "p \<in> set (queued_peers (syncInFlightQueue (fst (fold (queue_key has skipCheck p) keys (a, rs)))) key) \<or>
      key \<in> set (snd (fold (queue_key has skipCheck p) keys (a, rs)))" for a rs
    using assms(1)
  proof (induction keys arbitrary: a rs)
    case (Cons x keys)
    obtain a' rs' where q: "queue_key has skipCheck p x (a, rs) = (a', rs')" by force
    show ?case
    proof (cases "x = key")
      case True
      then have "p \<in> set (queued_peers (syncInFlightQueue a') key) \<or> key \<in> set rs'"
        using q assms(2) by (auto simp: queue_key_def queued_peers_def split: option.splits if_splits)
      then show ?thesis using mono q by simp
    qed (use Cons q in simp)
  qed simp
  from this [of s "[]"] show ?thesis
    by (auto simp: queueSync_def Let_def requestSync_asked split: prod.split)
qed

theorem queueSync_keeps_announcements_witness:
  "let s' = queueSync (\<lambda>_. False) False 2 [HashKey ''e''] ''d'' sync_ex
   in ''d'' \<in> set (queued_peers (syncInFlightQueue s') (HashKey ''e'')) \<or> asked s' (HashKey ''e'') ''d''"
  using queueSync_keeps_announcements [of "HashKey ''e''" "[HashKey ''e'']" False "\<lambda>_. False" 2 "''d''" sync_ex] by simp

text \<open>(C20) The loop empties the queue: after as many rounds as the longest list has peers nothing is queued, and for a
  key that stayed missing every peer in its list was asked.\<close>

theorem sync_loop_drains:
  assumes "sync_ok s" and "\<not> sync_closed s" and "rounds \<noteq> []"
    and "\<forall>(k, ps) \<in> set (syncInFlightQueue s). length ps \<le> length rounds"
  shows "sync_pending (sync_rounds rounds s) = 0 \<and>
    (\<forall>(k, ps) \<in> set (syncInFlightQueue s). (\<forall>(has, now) \<in> set rounds. \<not> has k) \<longrightarrow> (\<forall>p \<in> set ps. asked (sync_rounds rounds s) k p))"
  using rounds_drain [of s rounds] assms by (simp add: sync_pending_def sync_ok_def queues_ok_def)

theorem sync_loop_drains_witness:
  "asked (sync_rounds [(\<lambda>_. False, 5), (\<lambda>_. False, 9)] sync_ex) (HashKey ''e'') ''b''"
proof -
  have q: "syncInFlightQueue sync_ex = [(HashKey ''e'', [''b'', ''c'']), (HashKey ''f'', [''c''])]" "sync_closed sync_ex = False" by code_simp+
  have "sync_ok sync_ex" using sync_reachable_ok [OF sync_ex_reachable] by simp
  from sync_loop_drains [OF this, of "[(\<lambda>_. False, 5), (\<lambda>_. False, 9)]"] q show ?thesis by simp
qed

text \<open>The loop is meant to request an entry from one peer at a time. Here two entries have different next peers, and
  both peers are asked for both entries.\<close>

theorem loop_floods:
  "let Q = [(HashKey ''e'', [''a'']), (HashKey ''f'', [''b''])]; s = new_SimpleSyncronizer\<lparr>syncInFlightQueue := Q\<rparr>
   in sync_sent (requestSyncLoop (\<lambda>_. False) 0 s) = [(ResponseMaybeSync [HashKey ''e'', HashKey ''f''], [''a'', ''b''])]"
  by code_simp

text \<open>When the loop finds that an entry is known, it leaves the key in the inverted map. If the entry is removed and
  requested again from another peer, the disconnection of the first one drops the request of the other.\<close>

theorem stale_key_drops_request:
  "let e = HashKey ''e'';
       s1 = queueSync (\<lambda>_. False) False 0 [e] ''b'' (queueSync (\<lambda>_. False) False 0 [e] ''a'' new_SimpleSyncronizer);
       s2 = requestSyncLoop (\<lambda>_. True) 0 s1;
       s3 = queueSync (\<lambda>_. False) False 0 [e] ''c'' s2
   in syncInFlightQueue s3 = [(e, [])] \<and> syncInFlightQueue (clearSyncProcessPublicKey ''b'' s3) = []"
  by code_simp

end
