(* ===== verification/Replicators.thy ===== *)
theory Replicators
  imports Complex_Main CoverSet SimpleSync
begin

text \<open>
  The replicators of a shared log: the part of \<open>packages/programs/data/shared-log/src/index.ts\<close> that keeps the
  index of replicated ranges, who replicates, which ranges are not matured yet, and what is announced to
  other peers. A peer is named by the hash code of its public key; the keys are equal when the hash codes are.
  The index is the in-memory engine of \<open>HashmapIndex\<close>.

  A timer that waits for a range to mature belongs to the entry of \<open>pendingMaturity\<close> it was set for: clearing
  it is removing the entry, and its callback is the step \<open>maturity_timer\<close>. Calls of the debounced rebalancing are
  counted, changes that wait for their debounce are in the map of \<open>debounceAggregationChanges\<close>.

  Shown here: the invariant of this state along every sequence of operations, that a full announcement makes
  the receiver know exactly the ranges of the sender, and several defects.
\<close>

section \<open>State\<close>

datatype sl_error = Index_error query_error | Range_error range_error | No_ranges_to_remove | Key_was_not_a_PublicSignKey

fun lift_range_index :: "query_error + 'a \<Rightarrow> sl_error + 'a" where
  "lift_range_index (Inl e) = Inl (Index_error e)"
| "lift_range_index (Inr a) = Inr a"

fun lift_range :: "range_error + 'a \<Rightarrow> sl_error + 'a" where
  "lift_range (Inl e) = Inl (Range_error e)"
| "lift_range (Inr a) = Inr a"

datatype replicator_event =
    ReplicationChangeEvent string
  | ReplicatorJoinEvent string
  | ReplicatorMatureEvent string
  | ReplicatorLeaveEvent string

datatype replication_message =
    AllReplicatingSegmentsMessage "rangeMessage list"
  | AddedReplicationSegmentMessage "rangeMessage list"
  | StoppedReplicating "nat list list"

text \<open>The callback of a timer captures the change, the sender and whether to rebalance.\<close>

record maturity_timeout =
  mt_diff :: rangeChange
  mt_from :: string
  mt_rebalance :: bool
  mt_wait :: int

record pending_range =
  pr_range :: rangeChange
  pr_timeout :: maturity_timeout

type_synonym pending_maturity = "(string, (string, pending_range) jsmap) jsmap"

record replicators =
  sl_index :: "range hashmap"
  sl_unique :: "string jsset"
  sl_pending :: pending_maturity
  sl_oldest :: int
  sl_latest :: "(string, int) jsmap"
  sl_changes :: "(nat list, rangeChange) jsmap"
  sl_events :: "replicator_event list"
  sl_sent :: "(replication_message \<times> string list option) list"
  sl_rebalance :: "nat option"
  sl_gidPeers :: "(string, string jsset) jsmap"
  sl_pruneSent :: "(string, string jsset) jsmap"
  sl_pruneResponses :: "(string, string jsset) jsmap"
  sl_sync :: sync

text \<open>What the log is opened with: the engine of the index, the own identity, the resolution of the domain,
  \<open>canReplicate\<close>, whether it replicates, the time until a role is matured and the subscribers of the topic.\<close>

record sl_env =
  sl_engine :: "range index_env"
  sl_me :: string
  sl_res :: resolution
  sl_isTrusted :: "(string \<Rightarrow> bool) option"
  sl_isReplicating :: bool
  sl_timeUntilRoleMaturity :: int
  sl_subscribers :: "nat option"

text \<open>\<open>idString\<close> and \<open>toString\<close> of a range. The coordinates are printed as fractions of the ring, rounded to two decimals; the
  variant for \<open>U64\<close> prints the start of the first segment twice.\<close>

definition idString :: "sl_env \<Rightarrow> range \<Rightarrow> string" where
  "idString S r = toBase64 (sl_engine S) (r_id r)"

definition digit_char :: "nat \<Rightarrow> char" where
  "digit_char d = char_of (48 + d mod 10)"

definition two_decimals :: "int \<Rightarrow> int \<Rightarrow> string" where
  "two_decimals n mx =
     (let h = nat (round_div (100 * n) mx)
      in if h mod 100 = 0 then [digit_char (h div 100)]
         else if h mod 10 = 0 then [digit_char (h div 100), CHR ''.'', digit_char (h div 10)]
         else [digit_char (h div 100), CHR ''.'', digit_char (h div 10), digit_char h])"

definition bracketed :: "int \<Rightarrow> int \<Rightarrow> int \<Rightarrow> string" where
  "bracketed a b mx = ''['' @ two_decimals a mx @ '', '' @ two_decimals b mx @ '']''"

definition range_toString :: "range \<Rightarrow> string" where
  "range_toString r =
     (let mx = maxValue (r_res r); e1 = (case r_res r of U32 \<Rightarrow> end1 r | U64 \<Rightarrow> start1 r)
      in ''('' @ bracketed (start1 r) e1 mx @
         (if start1 r = start2 r then [] else '' '' @ bracketed (start2 r) (end2 r) mx) @ '')'')"

section \<open>The age of a role\<close>

text \<open>\<open>Math.round\<close>.\<close>

definition js_round :: "real \<Rightarrow> int" where
  "js_round x = \<lfloor>x + 1 / 2\<rfloor>"

definition getDefaultMinRoleAge :: "sl_env \<Rightarrow> int \<Rightarrow> int \<Rightarrow> int" where
  "getDefaultMinRoleAge S now oldestOpenTime =
     (if \<not> sl_isReplicating S then 0
      else
        let T = sl_timeUntilRoleMaturity S;
            subscribers = (case sl_subscribers S of None \<Rightarrow> 1 | Some n \<Rightarrow> n);
            diffToOldest = (if subscribers > 1 then now - oldestOpenTime - 1 else MAX_SAFE_INTEGER)
        in min T (min (max diffToOldest T) (max (js_round (real_of_int T * ln (real (subscribers + 1)) / 3)) T)))"

text \<open>The other two bounds are at least the time until maturity, so neither the subscribers nor the oldest
  replicator have an effect.\<close>

lemma getDefaultMinRoleAge_eq [code]:
  "getDefaultMinRoleAge S now oldest = (if sl_isReplicating S then sl_timeUntilRoleMaturity S else 0)"
  by (simp add: getDefaultMinRoleAge_def Let_def)

section \<open>Queries over the index\<close>

definition by_hash :: "string \<Rightarrow> query_like" where
  "by_hash h = QueryRecord (JObj [(''hash'', JStr h)])"

definition hash_match :: "string \<Rightarrow> query_like" where
  "hash_match h = OneQuery (StateFieldQuery [''hash''] (StringMatch h Exact False))"

definition id_match :: "nat list \<Rightarrow> query" where
  "id_match i = StateFieldQuery [''id''] (ByteMatchQuery i)"

definition ranges_of :: "sl_env \<Rightarrow> range hashmap \<Rightarrow> query_like \<Rightarrow> sl_error + range list" where
  "ranges_of S idx q = lift_range_index (bind_sum (iterate_all (sl_engine S) idx q []) (\<lambda>vs. Inr (map iv_value vs)))"

definition getAllReplicationSegments :: "sl_env \<Rightarrow> replicators \<Rightarrow> sl_error + range list" where
  "getAllReplicationSegments S st = ranges_of S (sl_index st) NoQuery"

definition getMyReplicationSegments :: "sl_env \<Rightarrow> replicators \<Rightarrow> sl_error + range list" where
  "getMyReplicationSegments S st = ranges_of S (sl_index st) (hash_match (sl_me S))"

definition countReplicationSegments :: "sl_env \<Rightarrow> replicators \<Rightarrow> sl_error + nat" where
  "countReplicationSegments S st = lift_range_index (hm_count (sl_engine S) (sl_index st) (hash_match (sl_me S)))"

definition isReplicating :: "sl_env \<Rightarrow> replicators \<Rightarrow> sl_error + bool" where
  "isReplicating S st =
     (if \<not> sl_isReplicating S then Inr False else bind_sum (countReplicationSegments S st) (\<lambda>n. Inr (n > 0)))"

definition getReplicators :: "sl_env \<Rightarrow> replicators \<Rightarrow> sl_error + string jsset" where
  "getReplicators S st =
     bind_sum (ranges_of S (sl_index st) NoQuery) (\<lambda>rs. Inr (fold (\<lambda>r s. js_add s (r_hash r)) rs []))"

definition resolveReplicationRangesFromIdsAndKey :: "sl_env \<Rightarrow> replicators \<Rightarrow> nat list list \<Rightarrow> string \<Rightarrow> sl_error + range list" where
  "resolveReplicationRangesFromIdsAndKey S st ids from =
     bind_sum (lift_range_index (new_Or (map id_match ids))) (\<lambda>idMatcher.
     bind_sum (lift_range_index (new_And [idMatcher, StateFieldQuery [''hash''] (StringMatch from Exact False)])) (\<lambda>query.
       ranges_of S (sl_index st) (OneQuery query)))"

definition oldest_first :: "sort list" where
  "oldest_first = [\<lparr>s_key = [''timestamp''], s_direction = ASC\<rparr>]"

definition updateOldestTimestampFromIndex :: "sl_env \<Rightarrow> int \<Rightarrow> replicators \<Rightarrow> sl_error + replicators" where
  "updateOldestTimestampFromIndex S now st =
     bind_sum (lift_range_index (it_next (sl_engine S) (sl_index st) NoQuery oldest_first 1 iterate)) (\<lambda>(vs, _).
       Inr (st\<lparr>sl_oldest := (case vs of v # _ \<Rightarrow> r_timestamp (iv_value v) | [] \<Rightarrow> now)\<rparr>))"

section \<open>Pending maturity\<close>

text \<open>Removing the entry of one range; an owner without entries is removed too.\<close>

definition drop_pending :: "string \<Rightarrow> string \<Rightarrow> pending_maturity \<Rightarrow> pending_maturity" where
  "drop_pending h i P =
     (case jm_get P h of
        None \<Rightarrow> P
      | Some m \<Rightarrow> let m' = jm_delete m i in if m' = [] then jm_delete P h else jm_set P h m')"

definition set_pending :: "sl_env \<Rightarrow> int \<Rightarrow> int \<Rightarrow> string \<Rightarrow> bool \<Rightarrow> rangeChange \<Rightarrow> pending_maturity \<Rightarrow> pending_maturity" where
  "set_pending S now minRoleAge from rebalance diff P =
     (let r = rc_range diff; i = idString S r;
          m = (case jm_get P (r_hash r) of None \<Rightarrow> [] | Some m \<Rightarrow> m);
          timeout = \<lparr>mt_diff = diff, mt_from = from, mt_rebalance = rebalance, mt_wait = max (minRoleAge - (now - r_timestamp r)) 0\<rparr>
      in jm_set P (r_hash r)
           (jm_set m i (case jm_get m i of Some prev \<Rightarrow> prev\<lparr>pr_timeout := timeout\<rparr> | None \<Rightarrow> \<lparr>pr_range = diff, pr_timeout = timeout\<rparr>)))"

definition add_change :: "rangeChange \<Rightarrow> replicators \<Rightarrow> replicators" where
  "add_change c st = st\<lparr>sl_changes := aggregate_add (sl_changes st) c\<rparr>"

definition dispatch :: "replicator_event \<Rightarrow> replicators \<Rightarrow> replicators" where
  "dispatch e st = st\<lparr>sl_events := sl_events st @ [e]\<rparr>"

definition send :: "replication_message \<Rightarrow> string list option \<Rightarrow> replicators \<Rightarrow> replicators" where
  "send m to st = st\<lparr>sl_sent := sl_sent st @ [(m, to)]\<rparr>"

definition rebalanceParticipationDebounced :: "replicators \<Rightarrow> replicators" where
  "rebalanceParticipationDebounced st = st\<lparr>sl_rebalance := map_option Suc (sl_rebalance st)\<rparr>"

text \<open>The callback of a timer.\<close>

definition maturity_timer :: "sl_env \<Rightarrow> string \<Rightarrow> string \<Rightarrow> replicators \<Rightarrow> replicators" where
  "maturity_timer S h i st =
     (case jm_get (sl_pending st) h of
        None \<Rightarrow> st
      | Some m \<Rightarrow>
          (case jm_get m i of
             None \<Rightarrow> st
           | Some p \<Rightarrow>
               let t = pr_timeout p;
                   st1 = dispatch (ReplicatorMatureEvent (mt_from t)) st;
                   st2 = (if mt_rebalance t \<and> mode (rc_range (mt_diff t)) \<noteq> Strict
                          then add_change ((mt_diff t)\<lparr>rc_type := Added True\<rparr>) st1 else st1)
               in st2\<lparr>sl_pending := drop_pending h i (sl_pending st2)\<rparr>))"

section \<open>Adding ranges\<close>

text \<open>The ranges of the index with the ids of the given ones, asked for in batches; the conditions of a batch are a
  list, which the index takes as a conjunction.\<close>

fun existing_loop :: "sl_env \<Rightarrow> range hashmap \<Rightarrow> range list \<Rightarrow> sl_error + range list" where
  "existing_loop S idx [] = Inr []"
| "existing_loop S idx (r # rs) =
     bind_sum (ranges_of S idx (QueryList (map (\<lambda>x. id_match (r_id x)) (take 100 (r # rs))))) (\<lambda>found.
     bind_sum (existing_loop S idx (drop 100 (r # rs))) (\<lambda>rest. Inr (found @ rest)))"

fun deduplicate :: "sl_env \<Rightarrow> range hashmap \<Rightarrow> range list \<Rightarrow> sl_error + range list" where
  "deduplicate S idx [] = Inr []"
| "deduplicate S idx (r # rs) =
     bind_sum (lift_range_index (countCoveringRangesSameOwner (sl_engine S) idx r)) (\<lambda>covered.
     bind_sum (deduplicate S idx rs) (\<lambda>rest. Inr (if covered then rest else r # rest)))"

definition range_changes :: "sl_env \<Rightarrow> range list \<Rightarrow> range list \<Rightarrow> rangeChange list" where
  "range_changes S existing ranges =
     (let existingMap = fold (\<lambda>x m. jm_set m (idString S x) x) existing []
      in concat (map (\<lambda>x.
           case jm_get existingMap (idString S x) of
             Some prev \<Rightarrow>
               if equalRange prev x then []
               else [\<lparr>rc_type = Replaced, rc_range = prev, rc_timestamp = r_timestamp x - 1\<rparr>,
                     \<lparr>rc_type = Added False, rc_range = x, rc_timestamp = r_timestamp x\<rparr>]
           | None \<Rightarrow> [\<lparr>rc_type = Added False, rc_range = x, rc_timestamp = r_timestamp x\<rparr>]) ranges))"

text \<open>The changes, whether the replicator is new, and the index without what \<open>reset\<close> removes.\<close>

definition plan_changes ::
  "sl_env \<Rightarrow> bool \<Rightarrow> bool \<Rightarrow> int \<Rightarrow> range list \<Rightarrow> string \<Rightarrow> range hashmap \<Rightarrow> sl_error + rangeChange list \<times> bool \<times> range hashmap" where
  "plan_changes S reset checkDuplicates timestamp ranges from idx =
     (if reset then
        bind_sum (ranges_of S idx (by_hash from)) (\<lambda>deleted.
        bind_sum (lift_range_index (hm_del (sl_engine S) idx (by_hash from))) (\<lambda>(_, idx').
          Inr (map (\<lambda>x. \<lparr>rc_type = Removed, rc_range = x, rc_timestamp = timestamp\<rparr>) deleted @
               map (\<lambda>x. \<lparr>rc_type = Added False, rc_range = x, rc_timestamp = timestamp\<rparr>) ranges,
               length deleted = 0 \<and> length ranges > 0, idx')))
      else
        bind_sum (existing_loop S idx ranges) (\<lambda>existing.
        bind_sum (if length existing = 0
                  then bind_sum (lift_range_index (hm_count (sl_engine S) idx (hash_match from))) (\<lambda>n. Inr (n = 0)) else Inr False) (\<lambda>isNew.
        bind_sum (if checkDuplicates then deduplicate S idx ranges else Inr ranges) (\<lambda>ranges'.
          Inr (range_changes S existing ranges', isNew, idx)))))"

text \<open>One change: what it does, and whether all ranges so far are matured.\<close>

definition apply_diff ::
  "sl_env \<Rightarrow> int \<Rightarrow> int \<Rightarrow> string \<Rightarrow> bool \<Rightarrow> bool \<Rightarrow> rangeChange \<Rightarrow> replicators \<times> bool \<Rightarrow> sl_error + replicators \<times> bool" where
  "apply_diff S now minRoleAge from reset rebalance diff = (\<lambda>(st, allMature).
     case rc_type diff of
       Added _ \<Rightarrow>
         bind_sum (lift_range_index (hm_put (sl_engine S) (sl_index st) (rc_range diff) None)) (\<lambda>idx.
           let st1 = st\<lparr>sl_index := idx, sl_oldest := (if reset then sl_oldest st else min (r_timestamp (rc_range diff)) (sl_oldest st))\<rparr>
           in Inr (if isMatured (rc_range diff) now minRoleAge then (st1, allMature)
                   else (st1\<lparr>sl_pending := set_pending S now minRoleAge from rebalance diff (sl_pending st1)\<rparr>, False)))
     | Removed \<Rightarrow> Inr (st\<lparr>sl_pending := drop_pending (r_hash (rc_range diff)) (idString S (rc_range diff)) (sl_pending st)\<rparr>, allMature)
     | Replaced \<Rightarrow> Inr (st, allMature))"

fun apply_diffs ::
  "sl_env \<Rightarrow> int \<Rightarrow> int \<Rightarrow> string \<Rightarrow> bool \<Rightarrow> bool \<Rightarrow> rangeChange list \<Rightarrow> replicators \<times> bool \<Rightarrow> sl_error + replicators \<times> bool" where
  "apply_diffs S now minRoleAge from reset rebalance [] acc = Inr acc"
| "apply_diffs S now minRoleAge from reset rebalance (d # ds) acc =
     bind_sum (apply_diff S now minRoleAge from reset rebalance d acc) (apply_diffs S now minRoleAge from reset rebalance ds)"

record add_options =
  ao_reset :: bool
  ao_checkDuplicates :: bool
  ao_timestamp :: "int option"
  ao_rebalance :: bool

text \<open>\<open>undefined\<close> when the peer may not replicate, otherwise the changes.\<close>

definition addReplicationRange ::
  "sl_env \<Rightarrow> int \<Rightarrow> range list \<Rightarrow> string \<Rightarrow> add_options \<Rightarrow> replicators \<Rightarrow> sl_error + rangeChange list option \<times> replicators" where
  "addReplicationRange S now ranges from opts st =
     (if (case sl_isTrusted S of None \<Rightarrow> False | Some f \<Rightarrow> \<not> f from) then Inr (None, st)
      else
        let timestamp = (case ao_timestamp opts of None \<Rightarrow> now | Some t \<Rightarrow> t)
        in bind_sum (plan_changes S (ao_reset opts) (ao_checkDuplicates opts) timestamp ranges from (sl_index st)) (\<lambda>(diffs, isNewReplicator, idx).
           let st1 = st\<lparr>sl_index := idx, sl_unique := js_add (sl_unique st) from\<rparr>;
               minRoleAge = getDefaultMinRoleAge S now (sl_oldest st1)
           in bind_sum (apply_diffs S now minRoleAge from (ao_reset opts) (ao_rebalance opts) diffs (st1, True)) (\<lambda>(st2, isAllMature).
              bind_sum (if ao_reset opts then updateOldestTimestampFromIndex S now st2 else Inr st2) (\<lambda>st3.
                let st4 = dispatch (ReplicationChangeEvent from) st3;
                    st5 = (if isNewReplicator then dispatch (ReplicatorJoinEvent from) st4 else st4);
                    st6 = (if isNewReplicator \<and> isAllMature then dispatch (ReplicatorMatureEvent from) st5 else st5);
                    st7 = (if ao_rebalance opts then fold add_change diffs st6 else st6)
                in Inr (Some diffs, if from = sl_me S then st7 else rebalanceParticipationDebounced st7)))))"

section \<open>Removing ranges\<close>

definition drop_by_string :: "range list \<Rightarrow> string \<Rightarrow> pending_maturity \<Rightarrow> pending_maturity" where
  "drop_by_string ranges from P =
     (case jm_get P from of
        None \<Rightarrow> P
      | Some m \<Rightarrow> let m' = fold (\<lambda>r m. jm_delete m (range_toString r)) ranges m in if m' = [] then jm_delete P from else jm_set P from m')"

definition removeReplicationRanges :: "sl_env \<Rightarrow> int \<Rightarrow> range list \<Rightarrow> string \<Rightarrow> replicators \<Rightarrow> sl_error + replicators" where
  "removeReplicationRanges S now ranges from st =
     (let st1 = st\<lparr>sl_pending := drop_by_string ranges from (sl_pending st)\<rparr>
      in if length ranges = 0 then Inl No_ranges_to_remove
         else
           bind_sum (lift_range_index (bind_sum (new_Or (map (\<lambda>x. id_match (r_id x)) ranges)) (\<lambda>q. hm_del (sl_engine S) (sl_index st1) (OneQuery q)))) (\<lambda>(_, idx).
           bind_sum (lift_range_index (it_next (sl_engine S) idx (by_hash from) [] 1 iterate)) (\<lambda>(others, _).
             let st2 = st1\<lparr>sl_index := idx, sl_unique := (if length others = 0 then js_remove (sl_unique st1) from else sl_unique st1)\<rparr>
             in bind_sum (updateOldestTimestampFromIndex S now st2) (\<lambda>st3.
                let st4 = dispatch (ReplicationChangeEvent from) st3
                in Inr (if from = sl_me S then st4 else rebalanceParticipationDebounced st4)))))"

datatype peer_key = PublicSignKey string | KeyHash string

fun key_hash :: "peer_key \<Rightarrow> string" where
  "key_hash (PublicSignKey h) = h"
| "key_hash (KeyHash h) = h"

definition removeReplicator :: "sl_env \<Rightarrow> int \<Rightarrow> peer_key \<Rightarrow> bool \<Rightarrow> replicators \<Rightarrow> sl_error + replicators" where
  "removeReplicator S now key noEvent st =
     (let h = key_hash key
      in bind_sum (ranges_of S (sl_index st) (by_hash h)) (\<lambda>deleted.
         bind_sum (lift_range_index (hm_del (sl_engine S) (sl_index st) (by_hash h))) (\<lambda>(_, idx).
         bind_sum (updateOldestTimestampFromIndex S now (st\<lparr>sl_unique := js_remove (sl_unique st) h, sl_index := idx\<rparr>)) (\<lambda>st1.
           let st2 = (if h = sl_me S then send (AllReplicatingSegmentsMessage []) None st1 else st1)
           in bind_sum (if noEvent then Inr st2
                        else (case key of PublicSignKey _ \<Rightarrow> Inr (dispatch (ReplicationChangeEvent h) st2)
                              | KeyHash _ \<Rightarrow> Inl Key_was_not_a_PublicSignKey)) (\<lambda>st3.
              let st4 = fold (\<lambda>x. add_change \<lparr>rc_type = Removed, rc_range = x, rc_timestamp = now\<rparr>) deleted st3;
                  st5 = st4\<lparr>sl_pending := jm_delete (sl_pending st4) h\<rparr>
              in Inr (if h = sl_me S then st5 else rebalanceParticipationDebounced st5))))))"

section \<open>Peers of a graph and requests to prune\<close>

text \<open>Removing a peer from the sets of a map; a set that becomes empty is removed.\<close>

definition remove_member :: "string \<Rightarrow> string \<Rightarrow> (string, string jsset) jsmap \<Rightarrow> (string, string jsset) jsmap" where
  "remove_member k p m =
     (case jm_get m k of
        None \<Rightarrow> m
      | Some s \<Rightarrow> let s' = js_remove s p in if s' = [] then jm_delete m k else jm_set m k s')"

definition removePeerFromGidPeerHistory :: "string \<Rightarrow> string option \<Rightarrow> replicators \<Rightarrow> replicators" where
  "removePeerFromGidPeerHistory p gid st =
     (case gid of
        Some (c # g) \<Rightarrow> st\<lparr>sl_gidPeers := remove_member (c # g) p (sl_gidPeers st)\<rparr>
      | _ \<Rightarrow> st\<lparr>sl_gidPeers := fold (\<lambda>g. remove_member g p) (jm_keys (sl_gidPeers st)) (sl_gidPeers st)\<rparr>)"

definition addPeersToGidPeerHistory :: "string \<Rightarrow> string list \<Rightarrow> bool \<Rightarrow> replicators \<Rightarrow> replicators" where
  "addPeersToGidPeerHistory gid peers reset st =
     (let s = (case jm_get (sl_gidPeers st) gid of None \<Rightarrow> [] | Some s \<Rightarrow> if reset then [] else s)
      in st\<lparr>sl_gidPeers := jm_set (sl_gidPeers st) gid (fold (\<lambda>p s. js_add s p) peers s)\<rparr>)"

definition removePruneRequestSent :: "string \<Rightarrow> string option \<Rightarrow> replicators \<Rightarrow> replicators" where
  "removePruneRequestSent hash to st =
     (case to of
        Some (c # p) \<Rightarrow> st\<lparr>sl_pruneSent := remove_member hash (c # p) (sl_pruneSent st)\<rparr>
      | _ \<Rightarrow> st\<lparr>sl_pruneSent := jm_delete (sl_pruneSent st) hash\<rparr>)"

text \<open>The two loops of \<open>handleSubscriptionChange\<close>. The second one empties the sets of responses, and deletes the key of an
  empty set from the map of requests.\<close>

fun forget_requests :: "string \<Rightarrow> string list \<Rightarrow> replicators \<Rightarrow> replicators" where
  "forget_requests p [] st = st"
| "forget_requests p (k # ks) st = forget_requests p ks (st\<lparr>sl_pruneSent := remove_member k p (sl_pruneSent st)\<rparr>)"

fun forget_responses :: "string \<Rightarrow> string list \<Rightarrow> replicators \<Rightarrow> replicators" where
  "forget_responses p [] st = st"
| "forget_responses p (k # ks) st =
     (let v = js_remove (case jm_get (sl_pruneResponses st) k of None \<Rightarrow> [] | Some s \<Rightarrow> s) p;
          st1 = st\<lparr>sl_pruneResponses := jm_set (sl_pruneResponses st) k v\<rparr>
      in forget_responses p ks (if v = [] then st1\<lparr>sl_pruneSent := jm_delete (sl_pruneSent st1) k\<rparr> else st1))"

section \<open>Announcements\<close>

text \<open>\<open>startAnnounceReplicating\<close> without an \<open>announce\<close> of the caller. A replaced range is announced too, next to the one that
  replaces it.\<close>

definition is_removed :: "rangeChange \<Rightarrow> bool" where
  "is_removed c = (case rc_type c of Removed \<Rightarrow> True | _ \<Rightarrow> False)"

text \<open>The ranges are added, and the message about those that are new is made, if there are any.\<close>

definition announcement :: "sl_env \<Rightarrow> int \<Rightarrow> range list \<Rightarrow> add_options \<Rightarrow> replicators \<Rightarrow> sl_error + replication_message option \<times> replicators" where
  "announcement S now ranges opts st =
     bind_sum (addReplicationRange S now ranges (sl_me S) opts st) (\<lambda>(change, st1).
       Inr (case change of
              None \<Rightarrow> (None, st1)
            | Some cs \<Rightarrow>
                let addedOrReplaced = filter (\<lambda>c. \<not> is_removed c) cs;
                    segments = map (\<lambda>c. toReplicationRange (rc_range c)) addedOrReplaced
                in (if length addedOrReplaced > 0
                    then Some (if ao_reset opts then AllReplicatingSegmentsMessage segments else AddedReplicationSegmentMessage segments)
                    else None, st1)))"

text \<open>The message is sent; a caller that gives \<open>announce\<close> takes it from \<open>announcement\<close> instead.\<close>

definition startAnnounceReplicating :: "sl_env \<Rightarrow> int \<Rightarrow> range list \<Rightarrow> add_options \<Rightarrow> replicators \<Rightarrow> sl_error + replicators" where
  "startAnnounceReplicating S now ranges opts st =
     bind_sum (announcement S now ranges opts st) (\<lambda>(message, st1).
       Inr (case message of None \<Rightarrow> st1 | Some m \<Rightarrow> send m None st1))"

section \<open>Messages from other peers\<close>

fun message_ranges :: "resolution \<Rightarrow> string \<Rightarrow> rangeMessage list \<Rightarrow> sl_error + range list" where
  "message_ranges res key [] = Inr []"
| "message_ranges res key (m # ms) =
     bind_sum (lift_range (toReplicationRangeIndexable res m key)) (\<lambda>r. bind_sum (message_ranges res key ms) (\<lambda>rs. Inr (r # rs)))"

text \<open>A message with replication info of a reachable peer. An older one than the last is ignored; \<open>timestamp\<close> is the
  time of the message.\<close>

definition onReplicationInfo ::
  "sl_env \<Rightarrow> int \<Rightarrow> bool \<Rightarrow> rangeMessage list \<Rightarrow> string \<Rightarrow> int \<Rightarrow> replicators \<Rightarrow> sl_error + replicators" where
  "onReplicationInfo S now reset segments from timestamp st =
     (if from = sl_me S then Inr st
      else if (case jm_get (sl_latest st) from of None \<Rightarrow> False | Some prev \<Rightarrow> prev \<noteq> 0 \<and> prev > timestamp) then Inr st
      else
        bind_sum (message_ranges (sl_res S) from segments) (\<lambda>ranges.
        bind_sum (addReplicationRange S now ranges from
          \<lparr>ao_reset = reset, ao_checkDuplicates = True, ao_timestamp = Some timestamp, ao_rebalance = True\<rparr>
          (st\<lparr>sl_latest := jm_set (sl_latest st) from timestamp\<rparr>)) (\<lambda>(_, st1). Inr st1)))"

definition onStoppedReplicating :: "sl_env \<Rightarrow> int \<Rightarrow> nat list list \<Rightarrow> string \<Rightarrow> replicators \<Rightarrow> sl_error + replicators" where
  "onStoppedReplicating S now segmentIds from st =
     (if from = sl_me S then Inr st
      else
        bind_sum (resolveReplicationRangesFromIdsAndKey S st segmentIds from) (\<lambda>rangesToRemove.
        bind_sum (removeReplicationRanges S now rangesToRemove from st) (\<lambda>st1.
          Inr (fold (\<lambda>r. add_change \<lparr>rc_type = Removed, rc_range = r, rc_timestamp = now\<rparr>) rangesToRemove st1))))"

definition onRequestReplicationInfo :: "sl_env \<Rightarrow> string \<Rightarrow> replicators \<Rightarrow> sl_error + replicators" where
  "onRequestReplicationInfo S from st =
     (if from = sl_me S then Inr st
      else bind_sum (getMyReplicationSegments S st) (\<lambda>rs.
             Inr (send (AllReplicatingSegmentsMessage (map toReplicationRange rs)) (Some [from]) st)))"

fun onReplicationMessage :: "sl_env \<Rightarrow> int \<Rightarrow> replication_message \<Rightarrow> string \<Rightarrow> int \<Rightarrow> replicators \<Rightarrow> sl_error + replicators" where
  "onReplicationMessage S now (AllReplicatingSegmentsMessage segments) from timestamp st = onReplicationInfo S now True segments from timestamp st"
| "onReplicationMessage S now (AddedReplicationSegmentMessage segments) from timestamp st = onReplicationInfo S now False segments from timestamp st"
| "onReplicationMessage S now (StoppedReplicating ids) from timestamp st = onStoppedReplicating S now ids from st"

section \<open>Subscriptions\<close>

definition handleSubscriptionChange :: "sl_env \<Rightarrow> int \<Rightarrow> string \<Rightarrow> string \<Rightarrow> string list \<Rightarrow> bool \<Rightarrow> replicators \<Rightarrow> sl_error + replicators" where
  "handleSubscriptionChange S now topic p topics subscribed st =
     (if topic \<notin> set topics then Inr st
      else if subscribed then
        bind_sum (getMyReplicationSegments S st) (\<lambda>rs.
          Inr (if length rs > 0 then send (AllReplicatingSegmentsMessage (map toReplicationRange rs)) (Some [p]) st else st))
      else
        let st1 = removePeerFromGidPeerHistory p None st;
            st2 = forget_requests p (jm_keys (sl_pruneSent st1)) st1;
            st3 = forget_responses p (jm_keys (sl_pruneResponses st2)) st2;
            st4 = st3\<lparr>sl_sync := clearSyncProcessPublicKey p (sl_sync st3)\<rparr>
        in bind_sum (lift_range_index (hm_count (sl_engine S) (sl_index st4) (by_hash p))) (\<lambda>n.
             removeReplicator S now (PublicSignKey p) False (if n > 0 then dispatch (ReplicatorLeaveEvent p) st4 else st4)))"

definition onUnsubscription :: "sl_env \<Rightarrow> int \<Rightarrow> string \<Rightarrow> string \<Rightarrow> string list \<Rightarrow> replicators \<Rightarrow> sl_error + replicators" where
  "onUnsubscription S now topic p topics st =
     handleSubscriptionChange S now topic p topics False (st\<lparr>sl_latest := jm_delete (sl_latest st) p\<rparr>)"

section \<open>The contract of the index of ranges\<close>

declare plain_query.simps [simp del] query_holds.simps [simp del]

text \<open>What the replicators rely on: an index holds ranges, each id once; \<open>put\<close> replaces the range with the same id or adds
  the range at the end, \<open>drop\<close> removes the ranges of an owner.\<close>

definition upsert :: "range \<Rightarrow> range list \<Rightarrow> range list" where
  "upsert r rs = (if r_id r \<in> r_id ` set rs then map (\<lambda>x. if r_id x = r_id r then r else x) rs else rs @ [r])"

locale owned_ranges =
  fixes ok :: "'s \<Rightarrow> bool" and good :: "range \<Rightarrow> bool" and contents :: "'s \<Rightarrow> range list"
    and put :: "'s \<Rightarrow> range \<Rightarrow> 's" and drop_owner :: "'s \<Rightarrow> string \<Rightarrow> 's"
  assumes ok_put: "ok s \<Longrightarrow> good r \<Longrightarrow> ok (put s r)"
    and ok_drop: "ok s \<Longrightarrow> ok (drop_owner s h)"
    and contents_put: "ok s \<Longrightarrow> good r \<Longrightarrow> contents (put s r) = upsert r (contents s)"
    and contents_drop: "ok s \<Longrightarrow> contents (drop_owner s h) = filter (\<lambda>r. r_hash r \<noteq> h) (contents s)"
begin

definition put_all :: "range list \<Rightarrow> 's \<Rightarrow> 's" where
  "put_all rs s = fold (\<lambda>r s. put s r) rs s"

lemma ok_put_all: "ok s \<Longrightarrow> \<forall>r \<in> set rs. good r \<Longrightarrow> ok (put_all rs s)"
  unfolding put_all_def by (induction rs arbitrary: s) (auto simp: ok_put)

lemma put_all_new:
  assumes "ok s" and "\<forall>r \<in> set rs. good r" and "distinct (map r_id rs)" and "r_id ` set rs \<inter> r_id ` set (contents s) = {}"
  shows "contents (put_all rs s) = contents s @ rs"
  using assms unfolding put_all_def
proof (induction rs arbitrary: s)
  case (Cons r rs)
  then have c: "contents (put s r) = contents s @ [r]" by (auto simp: contents_put upsert_def)
  have "r_id ` set rs \<inter> r_id ` set (contents (put s r)) = {}" using Cons.prems(3,4) unfolding c by auto
  with Cons.IH [of "put s r"] Cons.prems show ?case by (simp add: ok_put c)
qed simp

text \<open>Replacing all ranges of an owner.\<close>

lemma replace_owner:
  assumes "ok s" and "\<forall>r \<in> set rs. good r \<and> r_hash r = h" and "distinct (map r_id rs)"
    and "\<forall>r \<in> set (contents s). r_hash r \<noteq> h \<longrightarrow> r_id r \<notin> r_id ` set rs"
  shows "filter (\<lambda>r. r_hash r = h) (contents (put_all rs (drop_owner s h))) = rs"
    and "filter (\<lambda>r. r_hash r \<noteq> h) (contents (put_all rs (drop_owner s h))) = filter (\<lambda>r. r_hash r \<noteq> h) (contents s)"
proof -
  have "r_id ` set rs \<inter> r_id ` set (contents (drop_owner s h)) = {}"
    unfolding contents_drop [OF assms(1)] using assms(4) by (auto simp: disjoint_iff simp del: image_iff) (metis image_eqI)
  then have "contents (put_all rs (drop_owner s h)) = filter (\<lambda>r. r_hash r \<noteq> h) (contents s) @ rs"
    using put_all_new [of "drop_owner s h" rs] assms(1-3) by (simp add: ok_drop contents_drop)
  moreover have "filter (\<lambda>r. r_hash r = h) rs = rs" "filter (\<lambda>r. r_hash r \<noteq> h) rs = []"
    using assms(2) by (auto simp: filter_empty_conv filter_id_conv)
  ultimately show "filter (\<lambda>r. r_hash r = h) (contents (put_all rs (drop_owner s h))) = rs"
    "filter (\<lambda>r. r_hash r \<noteq> h) (contents (put_all rs (drop_owner s h))) = filter (\<lambda>r. r_hash r \<noteq> h) (contents s)" by auto
qed

lemma owners_put_all:
  "ok s \<Longrightarrow> \<forall>r \<in> set rs. good r \<Longrightarrow> r_hash ` set (contents (put_all rs s)) \<subseteq> r_hash ` set (contents s) \<union> r_hash ` set rs"
proof (induction rs arbitrary: s)
  case (Cons r rs)
  have "r_hash ` set (contents (put s r)) \<subseteq> insert (r_hash r) (r_hash ` set (contents s))"
    using Cons.prems by (auto simp: contents_put upsert_def)
  moreover have "r_hash ` set (contents (put_all rs (put s r))) \<subseteq> r_hash ` set (contents (put s r)) \<union> r_hash ` set rs"
    using Cons.IH [of "put s r"] Cons.prems by (simp add: ok_put)
  moreover have "put_all (r # rs) s = put_all rs (put s r)" by (simp add: put_all_def)
  ultimately show ?case by (simp add: le_sup_iff) blast
qed (simp add: put_all_def)

end

section \<open>The index of ranges keeps the contract\<close>

definition contents :: "range hashmap \<Rightarrow> range list" where
  "contents idx = map iv_value (jm_values idx)"

definition range_in :: "resolution \<Rightarrow> range \<Rightarrow> bool" where
  "range_in res r \<longleftrightarrow> range_ok r \<and> r_res r = res"

lemma contents_in: "range_index res E idx \<Longrightarrow> r \<in> set (contents idx) \<Longrightarrow> range_in res r"
  by (auto simp: range_index_def contents_def range_in_def)

lemma contents_filter: "contents (filter (\<lambda>(_, v). P (iv_value v)) idx) = filter P (contents idx)"
  unfolding contents_def jm_values_filter by (simp add: filter_map comp_def)

lemma range_index_filter: "range_index res E idx \<Longrightarrow> range_index res E (filter P idx)"
  by (auto simp: range_index_def hm_ok_filter jm_values_def)

text \<open>Queries with a meaning on ranges: what is found and what is deleted.\<close>

lemma range_query:
  assumes "range_index res E idx" and "toQuery q = Inr qs" and "\<And>r. \<forall>q \<in> set qs. plain_query E (range_js r) q"
    and "\<And>r. (\<forall>q \<in> set qs. query_holds E (range_js r) q) \<longleftrightarrow> P r"
  shows "queryAll E idx q = Inr (filter (\<lambda>v. P (iv_value v)) (jm_values idx))"
    and "hm_count E idx q = Inr (length (filter P (contents idx)))"
    and "bind_sum (iterate_all E idx q []) (\<lambda>vs. Inr (map iv_value vs)) = Inr (filter P (contents idx))"
    and "\<exists>ids. hm_del E idx q = Inr (ids, filter (\<lambda>(_, v). \<not> P (iv_value v)) idx)"
proof -
  have q: "queryAll E idx q = Inr (filter (\<lambda>v. P (iv_value v)) (jm_values idx))"
    using range_queryAll [OF assms(1-3)] assms(4) by simp
  then show "queryAll E idx q = Inr (filter (\<lambda>v. P (iv_value v)) (jm_values idx))" .
  show "hm_count E idx q = Inr (length (filter P (contents idx)))" using q by (simp add: hm_count_def contents_def filter_map comp_def)
  show "bind_sum (iterate_all E idx q []) (\<lambda>vs. Inr (map iv_value vs)) = Inr (filter P (contents idx))"
    using iterate_all_unsorted [OF q] by (simp add: contents_def filter_map comp_def)
  show "\<exists>ids. hm_del E idx q = Inr (ids, filter (\<lambda>(_, v). \<not> P (iv_value v)) idx)"
    using q del_docs_values [of E idx "\<lambda>v. P (iv_value v)"] assms(1) by (simp add: hm_del_def range_index_def)
qed

lemma by_hash_query: "toQuery (by_hash h) = Inr [StateFieldQuery [''hash''] (StringMatch h Exact False)]"
  by (simp add: by_hash_def)

lemma owner_query:
  assumes "range_index res E idx" and "q \<in> {by_hash h, hash_match h}"
  shows "hm_count E idx q = Inr (length (filter (\<lambda>r. r_hash r = h) (contents idx)))"
    and "bind_sum (iterate_all E idx q []) (\<lambda>vs. Inr (map iv_value vs)) = Inr (filter (\<lambda>r. r_hash r = h) (contents idx))"
    and "\<exists>ids. hm_del E idx q = Inr (ids, filter (\<lambda>(_, v). r_hash (iv_value v) \<noteq> h) idx)"
    and "queryAll E idx q = Inr (filter (\<lambda>v. r_hash (iv_value v) = h) (jm_values idx))"
proof -
  have e: "range_env E" using assms(1) by (simp add: range_index_def)
  have t: "toQuery q = Inr [StateFieldQuery [''hash''] (StringMatch h Exact False)]" using assms(2) by (auto simp: by_hash_query hash_match_def)
  note r = range_query [OF assms(1) t, of "\<lambda>r. r_hash r = h"]
  show "hm_count E idx q = Inr (length (filter (\<lambda>r. r_hash r = h) (contents idx)))"
    "bind_sum (iterate_all E idx q []) (\<lambda>vs. Inr (map iv_value vs)) = Inr (filter (\<lambda>r. r_hash r = h) (contents idx))"
    "\<exists>ids. hm_del E idx q = Inr (ids, filter (\<lambda>(_, v). r_hash (iv_value v) \<noteq> h) idx)"
    "queryAll E idx q = Inr (filter (\<lambda>v. r_hash (iv_value v) = h) (jm_values idx))"
    using r by (simp_all add: range_queries [OF e])
qed

lemma ids_query:
  assumes "range_index res E idx" and "ids \<noteq> []"
  shows "\<exists>q del. new_Or (map id_match ids) = Inr q \<and> hm_del E idx (OneQuery q) = Inr (del, filter (\<lambda>(_, v). r_id (iv_value v) \<notin> set ids) idx)"
    and "\<exists>q q'. new_Or (map id_match ids) = Inr q \<and> new_And [q, StateFieldQuery [''hash''] (StringMatch h Exact False)] = Inr q' \<and>
      bind_sum (iterate_all E idx (OneQuery q') []) (\<lambda>vs. Inr (map iv_value vs)) = Inr (filter (\<lambda>r. r_id r \<in> set ids \<and> r_hash r = h) (contents idx))"
proof -
  have e: "range_env E" using assms(1) by (simp add: range_index_def)
  let ?q = "Or (map id_match ids)"
  have o: "new_Or (map id_match ids) = Inr ?q" using assms(2) by (simp add: new_Or_def)
  have q: "plain_query E (range_js r) ?q" "query_holds E (range_js r) ?q \<longleftrightarrow> r_id r \<in> set ids" for r
    by (auto simp: id_match_def range_queries [OF e])
  show "\<exists>q del. new_Or (map id_match ids) = Inr q \<and> hm_del E idx (OneQuery q) = Inr (del, filter (\<lambda>(_, v). r_id (iv_value v) \<notin> set ids) idx)"
    using range_query(4) [OF assms(1), of "OneQuery ?q" "[?q]" "\<lambda>r. r_id r \<in> set ids"] o q by auto
  show "\<exists>q q'. new_Or (map id_match ids) = Inr q \<and> new_And [q, StateFieldQuery [''hash''] (StringMatch h Exact False)] = Inr q' \<and>
      bind_sum (iterate_all E idx (OneQuery q') []) (\<lambda>vs. Inr (map iv_value vs)) = Inr (filter (\<lambda>r. r_id r \<in> set ids \<and> r_hash r = h) (contents idx))"
    using range_query(3) [OF assms(1), of "OneQuery (And [?q, StateFieldQuery [''hash''] (StringMatch h Exact False)])"
        "[And [?q, StateFieldQuery [''hash''] (StringMatch h Exact False)]]" "\<lambda>r. r_id r \<in> set ids \<and> r_hash r = h"] o q
    by (auto simp: new_And_def range_queries [OF e])
qed

lemma range_key: "range_env E \<Longrightarrow> extractFieldValue (toJs E r) (indexBy E) = Inr (JBytes (r_id r))"
  by (simp add: range_env_def range_js_def)

lemma put_range:
  "range_env E \<Longrightarrow> hm_put E idx r None =
     Inr (jm_set idx (id_primitive (toBase64 E) (Uint8ArrayKey (r_id r))) \<lparr>iv_id = Uint8ArrayKey (r_id r), iv_value = r\<rparr>)"
  using range_key [of E r] by (simp add: hm_put_def)

lemma jm_set_values:
  "jm_ok m \<Longrightarrow> jm_values (jm_set m k v) = (if k \<in> fst ` set m then map (\<lambda>(j, w). if j = k then v else w) m else jm_values m @ [v])"
proof (induction m)
  case (Cons x m)
  show ?case
  proof (cases "fst x = k")
    case True
    have "map (\<lambda>(j, w). if j = k then v else w) m = map snd m" using Cons.prems True by (auto simp: jm_ok_Cons image_iff)
    with True show ?thesis by (cases x) (simp add: jm_values_def)
  next
    case False
    with Cons show ?thesis by (cases x) (auto simp: jm_values_def jm_ok_Cons)
  qed
qed (simp add: jm_values_def)

lemma put_contents:
  assumes "range_index res E idx" and "range_in res r"
  shows "range_index res E (projr (hm_put E idx r None)) \<and> contents (projr (hm_put E idx r None)) = upsert r (contents idx)"
proof -
  let ?p = "\<lambda>i. id_primitive (toBase64 E) (Uint8ArrayKey i)" and ?v = "\<lparr>iv_id = Uint8ArrayKey (r_id r), iv_value = r\<rparr>"
  have e: "range_env E" "hm_ok E idx" using assms(1) by (simp_all add: range_index_def)
  note put = put_range [OF e(1), of idx r]
  have inj: "?p i = ?p j \<longleftrightarrow> i = j" for i j using e(1) by (auto simp: range_env_def inj_eq)
  have keys: "fst x = ?p (r_id (iv_value (snd x)))" if "x \<in> set idx" for x
    using that assms(1) e(2) by (fastforce simp: range_index_def hm_ok_def jm_values_def)
  have "set (jm_values (jm_set idx (?p (r_id r)) ?v)) \<subseteq> insert ?v (set (jm_values idx))"
    using set_jm_set_subset [of idx "?p (r_id r)" ?v] by (auto simp: jm_values_def)
  then have ok: "range_index res E (projr (hm_put E idx r None))"
    using assms hm_put_ok [OF put e(2)] put by (auto simp: range_index_def range_in_def)
  have mem: "?p (r_id r) \<in> fst ` set idx \<longleftrightarrow> r_id r \<in> r_id ` set (contents idx)"
    using keys inj by (force simp: contents_def jm_values_def image_iff)
  have "map iv_value (map (\<lambda>(j, w). if j = ?p (r_id r) then ?v else w) idx) = map (\<lambda>x. if r_id x = r_id r then r else x) (contents idx)"
    using keys inj by (auto simp: contents_def jm_values_def case_prod_beta)
  then have "contents (projr (hm_put E idx r None)) = upsert r (contents idx)"
    using e(2) mem by (simp add: put contents_def jm_set_values hm_ok_def upsert_def comp_def)
  with ok show ?thesis by simp
qed

lemma drop_contents:
  assumes "range_index res E idx"
  shows "range_index res E (snd (projr (hm_del E idx (by_hash h)))) \<and>
    contents (snd (projr (hm_del E idx (by_hash h)))) = filter (\<lambda>r. r_hash r \<noteq> h) (contents idx)"
proof -
  obtain ids where "hm_del E idx (by_hash h) = Inr (ids, filter (\<lambda>(_, v). r_hash (iv_value v) \<noteq> h) idx)"
    using owner_query(3) [OF assms, of "by_hash h" h] by auto
  then show ?thesis using range_index_filter [OF assms] contents_filter [of "\<lambda>r. r_hash r \<noteq> h" idx] by simp
qed

interpretation ranges: owned_ranges "range_index res E" "range_in res" contents
    "\<lambda>idx r. projr (hm_put E idx r None)" "\<lambda>idx h. snd (projr (hm_del E idx (by_hash h)))"
  for res :: resolution and E :: "range index_env"
  by (unfold_locales; use put_contents drop_contents in blast)

lemma contents_distinct:
  assumes "range_index res E idx"
  shows "distinct (map r_id (contents idx))"
proof -
  let ?p = "\<lambda>i. id_primitive (toBase64 E) (Uint8ArrayKey i)"
  have "map fst idx = map ?p (map r_id (contents idx))"
    using assms by (fastforce simp: range_index_def hm_ok_def contents_def jm_values_def)
  then have "distinct (map ?p (map r_id (contents idx)))" using assms by (metis range_index_def hm_ok_def jm_ok_def)
  then show ?thesis using distinct_map [of ?p "map r_id (contents idx)"] by blast
qed

text \<open>Reading the oldest timestamp does not throw.\<close>

lemma oldest_returns:
  assumes "range_index res E idx"
  shows "\<exists>r. it_next E idx NoQuery oldest_first 1 iterate = Inr r"
proof -
  have e: "toJs E = range_js" using assms by (simp add: range_index_def range_env_def)
  have q: "queryAll E idx NoQuery = Inr (jm_values idx)"
    using range_query(1) [OF assms, of NoQuery "[]" "\<lambda>_. True"] by simp
  have "doc_cmp E oldest_first a b \<noteq> Inl x" for a b x
    by (simp add: doc_cmp_def oldest_first_def e range_js_def Let_def)
  then have "\<not> isl (doc_cmp E oldest_first a b)" for a b by (cases "doc_cmp E oldest_first a b") auto
  then have "\<exists>D. sort_docs E oldest_first (jm_values idx) = Inr D" unfolding sort_docs_def by (simp add: list_ex_iff)
  then obtain D where "sort_docs E oldest_first (jm_values idx) = Inr D" by blast
  from it_fetch_fresh [OF q this, of 1] show ?thesis by (auto simp: it_next_def)
qed

lemma updateOldest_returns:
  assumes "range_index res (sl_engine S) (sl_index st)"
  shows "\<exists>t. updateOldestTimestampFromIndex S now st = Inr (st\<lparr>sl_oldest := t\<rparr>)"
  using oldest_returns [OF assms] by (auto simp: updateOldestTimestampFromIndex_def)

section \<open>Adding ranges\<close>

definition added_ranges :: "rangeChange list \<Rightarrow> range list" where
  "added_ranges ds = map rc_range (filter (\<lambda>c. case rc_type c of Added _ \<Rightarrow> True | _ \<Rightarrow> False) ds)"

lemma added_simps [simp]:
  "added_ranges [] = []" "added_ranges (ds @ es) = added_ranges ds @ added_ranges es"
  "added_ranges (d # ds) = (case rc_type d of Added _ \<Rightarrow> rc_range d # added_ranges ds | _ \<Rightarrow> added_ranges ds)"
  "added_ranges (map (\<lambda>x. \<lparr>rc_type = Removed, rc_range = x, rc_timestamp = t\<rparr>) rs) = []"
  "added_ranges (map (\<lambda>x. \<lparr>rc_type = Added b, rc_range = x, rc_timestamp = t\<rparr>) rs) = rs"
  by (auto simp: added_ranges_def comp_def split: changeType.splits)

text \<open>What waits for maturity is filed under its owner and its id.\<close>

definition pending_ok :: "sl_env \<Rightarrow> pending_maturity \<Rightarrow> bool" where
  "pending_ok S P \<longleftrightarrow> jm_ok P \<and> (\<forall>(h, m) \<in> set P. m \<noteq> [] \<and> jm_ok m \<and>
     (\<forall>(i, p) \<in> set m. r_hash (rc_range (mt_diff (pr_timeout p))) = h \<and> idString S (rc_range (mt_diff (pr_timeout p))) = i))"

definition sl_ok :: "sl_env \<Rightarrow> replicators \<Rightarrow> bool" where
  "sl_ok S st \<longleftrightarrow> range_index (sl_res S) (sl_engine S) (sl_index st) \<and>
     r_hash ` set (contents (sl_index st)) \<subseteq> set (sl_unique st) \<and> pending_ok S (sl_pending st)"

lemma pending_inner:
  "pending_ok S P \<Longrightarrow> jm_get P h = Some m \<Longrightarrow> m \<noteq> [] \<and> jm_ok m \<and>
     (\<forall>(i, p) \<in> set m. r_hash (rc_range (mt_diff (pr_timeout p))) = h \<and> idString S (rc_range (mt_diff (pr_timeout p))) = i)"
  by (auto simp: pending_ok_def dest!: map_of_SomeD)

lemma pending_replace:
  assumes "pending_ok S P" and "m \<noteq> []" and "jm_ok m"
    and "\<forall>(i, p) \<in> set m. r_hash (rc_range (mt_diff (pr_timeout p))) = h \<and> idString S (rc_range (mt_diff (pr_timeout p))) = i"
  shows "pending_ok S (jm_set P h m)"
  using assms set_jm_set_subset [of P h m] unfolding pending_ok_def by fastforce

lemma pending_delete [intro]: "pending_ok S P \<Longrightarrow> pending_ok S (jm_delete P h)"
  by (auto simp: pending_ok_def set_jm_delete)

lemma pending_shrink:
  assumes "pending_ok S P" and "jm_get P h = Some m" and "set m' \<subseteq> set m" and "jm_ok m'"
  shows "pending_ok S (if m' = [] then jm_delete P h else jm_set P h m')"
  using pending_inner [OF assms(1,2)] pending_replace [OF assms(1), of m' h] assms by auto

lemma drop_pending_ok [intro]: "pending_ok S P \<Longrightarrow> pending_ok S (drop_pending h i P)"
  using pending_shrink [of S P h _ "jm_delete _ i"] pending_inner [of S P h]
  by (auto simp: drop_pending_def Let_def set_jm_delete split: option.split)

lemma set_pending_ok [intro]: "pending_ok S P \<Longrightarrow> pending_ok S (set_pending S now a from reb diff P)"
proof -
  assume P: "pending_ok S P"
  let ?r = "rc_range diff"
  let ?m = "case jm_get P (r_hash ?r) of None \<Rightarrow> [] | Some m \<Rightarrow> m"
  have m: "jm_ok ?m" "\<forall>(i, p) \<in> set ?m. r_hash (rc_range (mt_diff (pr_timeout p))) = r_hash ?r \<and> idString S (rc_range (mt_diff (pr_timeout p))) = i"
    using pending_inner [OF P, of "r_hash ?r"] by (cases "jm_get P (r_hash ?r)"; auto)+
  let ?t = "\<lparr>mt_diff = diff, mt_from = from, mt_rebalance = reb, mt_wait = max (a - (now - r_timestamp ?r)) 0\<rparr>"
  let ?p = "case jm_get ?m (idString S ?r) of Some prev \<Rightarrow> prev\<lparr>pr_timeout := ?t\<rparr> | None \<Rightarrow> \<lparr>pr_range = diff, pr_timeout = ?t\<rparr>"
  have "mt_diff (pr_timeout ?p) = diff" by (simp split: option.split)
  then have "\<forall>(j, q) \<in> set (jm_set ?m (idString S ?r) ?p). r_hash (rc_range (mt_diff (pr_timeout q))) = r_hash ?r \<and> idString S (rc_range (mt_diff (pr_timeout q))) = j"
    using set_jm_set_subset [of ?m "idString S ?r" ?p] m(2) by fastforce
  moreover have "jm_set ?m (idString S ?r) ?p \<noteq> []" by (cases ?m) (auto split: if_splits)
  ultimately have "pending_ok S (jm_set P (r_hash ?r) (jm_set ?m (idString S ?r) ?p))" by (intro pending_replace [OF P] jm_ok_set m(1))
  then show "pending_ok S (set_pending S now a from reb diff P)" unfolding set_pending_def Let_def .
qed

lemma apply_diffs_effect:
  assumes "range_index (sl_res S) (sl_engine S) (sl_index st)" and "pending_ok S (sl_pending st)" and "\<forall>r \<in> set (added_ranges ds). range_in (sl_res S) r"
  shows "\<exists>st' b. apply_diffs S now a from reset reb ds (st, m) = Inr (st', b) \<and>
    sl_index st' = ranges.put_all (sl_engine S) (added_ranges ds) (sl_index st) \<and> pending_ok S (sl_pending st') \<and>
    (\<exists>old. st' = st\<lparr>sl_index := sl_index st', sl_oldest := old, sl_pending := sl_pending st'\<rparr>)"
  using assms
proof (induction ds arbitrary: st m)
  case Nil
  then show ?case by (auto simp: ranges.put_all_def intro: exI [of _ "sl_oldest st"])
next
  case (Cons d ds)
  have e: "range_env (sl_engine S)" using Cons.prems(1) by (simp add: range_index_def)
  show ?case
  proof (cases "rc_type d")
    case (Added b)
    obtain idx where put: "hm_put (sl_engine S) (sl_index st) (rc_range d) None = Inr idx" using put_range [OF e] by simp
    let ?o = "if reset then sl_oldest st else min (r_timestamp (rc_range d)) (sl_oldest st)"
    have "\<exists>m1 P. apply_diff S now a from reset reb d (st, m) = Inr (st\<lparr>sl_index := idx, sl_oldest := ?o, sl_pending := P\<rparr>, m1) \<and> pending_ok S P"
    proof (cases "isMatured (rc_range d) now a")
      case True
      then show ?thesis using Cons.prems(2) by (intro exI [of _ m] exI [of _ "sl_pending st"]) (simp add: apply_diff_def Added put Let_def)
    next
      case False
      then show ?thesis using Cons.prems(2)
        by (intro exI [of _ False] exI [of _ "set_pending S now a from reb d (sl_pending st)"]) (auto simp: apply_diff_def Added put Let_def)
    qed
    then obtain m1 P where s: "apply_diff S now a from reset reb d (st, m) = Inr (st\<lparr>sl_index := idx, sl_oldest := ?o, sl_pending := P\<rparr>, m1)" "pending_ok S P" by blast
    have idx: "range_index (sl_res S) (sl_engine S) idx" using ranges.ok_put [OF Cons.prems(1), of "rc_range d"] Cons.prems(3) Added put by simp
    from Cons.IH [of "st\<lparr>sl_index := idx, sl_oldest := ?o, sl_pending := P\<rparr>" m1] s(2) idx Cons.prems(3) Added obtain st' b old where
      st': "apply_diffs S now a from reset reb ds (st\<lparr>sl_index := idx, sl_oldest := ?o, sl_pending := P\<rparr>, m1) = Inr (st', b)"
        "sl_index st' = ranges.put_all (sl_engine S) (added_ranges ds) idx" "pending_ok S (sl_pending st')"
        "st' = st\<lparr>sl_index := sl_index st', sl_oldest := old, sl_pending := sl_pending st'\<rparr>" by auto
    have "apply_diffs S now a from reset reb (d # ds) (st, m) = Inr (st', b)" using s(1) st'(1) by (simp del: bind_sum_eq_Inr)
    moreover have "ranges.put_all (sl_engine S) (added_ranges (d # ds)) (sl_index st) = sl_index st'" using st'(2) put Added by (simp add: ranges.put_all_def)
    ultimately show ?thesis using st'(3,4) by metis
  next
    case Removed
    let ?P = "drop_pending (r_hash (rc_range d)) (idString S (rc_range d)) (sl_pending st)"
    from Cons.IH [of "st\<lparr>sl_pending := ?P\<rparr>" m] Cons.prems Removed show ?thesis by (auto simp: apply_diff_def)
  next
    case Replaced
    from Cons.IH [of st m] Cons.prems Replaced show ?thesis by (auto simp: apply_diff_def)
  qed
qed

lemma owner_ranges:
  assumes "range_index (sl_res S) (sl_engine S) idx" and "q \<in> {by_hash h, hash_match h}"
  shows "ranges_of S idx q = Inr (filter (\<lambda>r. r_hash r = h) (contents idx))"
  using owner_query(2) [OF assms] by (simp add: ranges_of_def del: bind_sum_eq_Inr)

lemma existing_returns:
  assumes "range_index (sl_res S) (sl_engine S) idx"
  shows "\<exists>es. existing_loop S idx rs = Inr es \<and> set es \<subseteq> set (contents idx)"
proof (induction rs rule: length_induct)
  case (1 rs)
  have e: "range_env (sl_engine S)" using assms by (simp add: range_index_def)
  show ?case
  proof (cases rs)
    case (Cons r rest)
    let ?qs = "map (\<lambda>x. id_match (r_id x)) (take 100 rs)"
    have q: "ranges_of S idx (QueryList ?qs) = Inr (filter (\<lambda>r. \<forall>x \<in> set (take 100 rs). r_id r = r_id x) (contents idx))"
      using range_query(3) [OF assms, of "QueryList ?qs" ?qs "\<lambda>r. \<forall>x \<in> set (take 100 rs). r_id r = r_id x"]
      by (simp add: ranges_of_def id_match_def range_queries [OF e] del: bind_sum_eq_Inr)
    have "length (drop 100 rs) < length rs" using Cons by simp
    then obtain es where "existing_loop S idx (drop 100 rs) = Inr es" "set es \<subseteq> set (contents idx)" using 1 by blast
    with q show ?thesis using Cons by auto
  qed simp
qed

lemma deduplicate_returns:
  assumes "range_index (sl_res S) (sl_engine S) idx" and "\<forall>r \<in> set rs. range_in (sl_res S) r"
  shows "\<exists>ds. deduplicate S idx rs = Inr ds \<and> set ds \<subseteq> set rs"
  using assms(2)
proof (induction rs)
  case (Cons r rs)
  obtain q D where "covering_same_owner_query r = Inr q" "queryAll (sl_engine S) idx q = Inr D"
    using covering_query [OF assms(1), of r] Cons.prems by (auto simp: range_in_def)
  then obtain b where b: "countCoveringRangesSameOwner (sl_engine S) idx r = Inr b"
    by (simp add: countCoveringRangesSameOwner_def hm_count_def)
  obtain ds where "deduplicate S idx rs = Inr ds" "set ds \<subseteq> set rs" using Cons by auto
  with b show ?case by (cases b) auto
qed simp

lemma range_changes_added: "set (added_ranges (range_changes S es rs)) \<subseteq> set rs"
  unfolding range_changes_def Let_def by (induction rs) (auto split: option.split)

lemma plan_effect:
  assumes "range_index (sl_res S) (sl_engine S) idx" and "\<forall>r \<in> set rs. range_in (sl_res S) r"
  shows "\<exists>ds new. plan_changes S reset dup t rs p idx = Inr (ds, new, if reset then snd (projr (hm_del (sl_engine S) idx (by_hash p))) else idx) \<and>
    set (added_ranges ds) \<subseteq> set rs \<and> (reset \<longrightarrow> added_ranges ds = rs)"
proof (cases reset)
  case True
  obtain del idx' where "hm_del (sl_engine S) idx (by_hash p) = Inr (del, idx')" using owner_query(3) [OF assms(1)] by blast
  then show ?thesis using True owner_ranges [OF assms(1), of "by_hash p" p] by (simp add: plan_changes_def)
next
  case False
  obtain es where es: "existing_loop S idx rs = Inr es" using existing_returns [OF assms(1)] by blast
  obtain rs' where rs': "(if dup then deduplicate S idx rs else Inr rs) = Inr rs'" "set rs' \<subseteq> set rs"
    using deduplicate_returns [OF assms] by (cases dup) auto
  have "hm_count (sl_engine S) idx (hash_match p) = Inr (length (filter (\<lambda>r. r_hash r = p) (contents idx)))" using owner_query(1) [OF assms(1)] by blast
  then obtain b where b: "(if length es = 0 then bind_sum (lift_range_index (hm_count (sl_engine S) idx (hash_match p))) (\<lambda>n. Inr (n = 0)) else Inr False) = Inr b"
    by (cases "length es = 0") simp_all
  have "plan_changes S reset dup t rs p idx = Inr (range_changes S es rs', b, idx)"
    unfolding plan_changes_def es using False b rs'(1) by simp
  then show ?thesis using False range_changes_added [of S es rs'] rs'(2) by auto
qed

lemma fold_change_simps [simp]:
  "sl_index (fold add_change ds st) = sl_index st" "sl_unique (fold add_change ds st) = sl_unique st" "sl_pending (fold add_change ds st) = sl_pending st"
  "sl_latest (fold add_change ds st) = sl_latest st"
  by (induction ds arbitrary: st) (simp_all add: add_change_def)

lemma call_simps [simp]:
  "sl_index (dispatch e st) = sl_index st" "sl_unique (dispatch e st) = sl_unique st" "sl_pending (dispatch e st) = sl_pending st" "sl_latest (dispatch e st) = sl_latest st"
  "sl_index (rebalanceParticipationDebounced st) = sl_index st" "sl_unique (rebalanceParticipationDebounced st) = sl_unique st"
  "sl_pending (rebalanceParticipationDebounced st) = sl_pending st" "sl_latest (rebalanceParticipationDebounced st) = sl_latest st"
  "sl_index (send m to st) = sl_index st" "sl_unique (send m to st) = sl_unique st" "sl_pending (send m to st) = sl_pending st" "sl_latest (send m to st) = sl_latest st"
  "sl_index (add_change c st) = sl_index st" "sl_unique (add_change c st) = sl_unique st" "sl_pending (add_change c st) = sl_pending st" "sl_latest (add_change c st) = sl_latest st"
  by (simp_all add: dispatch_def rebalanceParticipationDebounced_def send_def add_change_def)

definition trusted :: "sl_env \<Rightarrow> string \<Rightarrow> bool" where
  "trusted S p \<longleftrightarrow> (case sl_isTrusted S of None \<Rightarrow> True | Some f \<Rightarrow> f p)"

text \<open>What adding ranges does to the index.\<close>

definition base_index :: "sl_env \<Rightarrow> bool \<Rightarrow> string \<Rightarrow> range hashmap \<Rightarrow> range hashmap" where
  "base_index S reset p idx = (if reset then snd (projr (hm_del (sl_engine S) idx (by_hash p))) else idx)"

lemma add_effect:
  assumes "range_index (sl_res S) (sl_engine S) (sl_index st)" and "pending_ok S (sl_pending st)"
    and "\<forall>r \<in> set rs. range_in (sl_res S) r" and "trusted S p"
  shows "\<exists>ds st'. addReplicationRange S now rs p opts st = Inr (Some ds, st') \<and> set (added_ranges ds) \<subseteq> set rs \<and> (ao_reset opts \<longrightarrow> added_ranges ds = rs) \<and>
    sl_index st' = ranges.put_all (sl_engine S) (added_ranges ds) (base_index S (ao_reset opts) p (sl_index st)) \<and>
    sl_unique st' = js_add (sl_unique st) p \<and> pending_ok S (sl_pending st') \<and> sl_latest st' = sl_latest st"
proof -
  let ?ts = "case ao_timestamp opts of None \<Rightarrow> now | Some t \<Rightarrow> t" and ?idx = "base_index S (ao_reset opts) p (sl_index st)"
  obtain ds new where plan: "plan_changes S (ao_reset opts) (ao_checkDuplicates opts) ?ts rs p (sl_index st) = Inr (ds, new, ?idx)"
      "set (added_ranges ds) \<subseteq> set rs" "ao_reset opts \<longrightarrow> added_ranges ds = rs"
    using plan_effect [OF assms(1,3), of "ao_reset opts" "ao_checkDuplicates opts" ?ts p] unfolding base_index_def by blast
  let ?st = "st\<lparr>sl_index := ?idx, sl_unique := js_add (sl_unique st) p\<rparr>"
  let ?a = "getDefaultMinRoleAge S now (sl_oldest ?st)"
  have idx: "range_index (sl_res S) (sl_engine S) ?idx" using assms(1) by (simp add: base_index_def ranges.ok_drop)
  have good: "\<forall>r \<in> set (added_ranges ds). range_in (sl_res S) r" using plan(2) assms(3) by blast
  obtain st2 b old where s2: "apply_diffs S now ?a p (ao_reset opts) (ao_rebalance opts) ds (?st, True) = Inr (st2, b)"
      "sl_index st2 = ranges.put_all (sl_engine S) (added_ranges ds) ?idx" "pending_ok S (sl_pending st2)"
      "st2 = ?st\<lparr>sl_index := sl_index st2, sl_oldest := old, sl_pending := sl_pending st2\<rparr>"
    using apply_diffs_effect [of S ?st ds now ?a p "ao_reset opts" "ao_rebalance opts" True] idx assms(2) good by auto
  have u2: "sl_unique st2 = js_add (sl_unique st) p" "sl_latest st2 = sl_latest st" by (subst s2(4), simp)+
  have "range_index (sl_res S) (sl_engine S) (sl_index st2)" unfolding s2(2) using idx good by (rule ranges.ok_put_all)
  from updateOldest_returns [OF this, of now] obtain t where
    s3: "(if ao_reset opts then updateOldestTimestampFromIndex S now st2 else Inr st2) = Inr (if ao_reset opts then st2\<lparr>sl_oldest := t\<rparr> else st2)" by (cases "ao_reset opts") auto
  have tr: "(case sl_isTrusted S of None \<Rightarrow> False | Some f \<Rightarrow> \<not> f p) = False" using assms(4) by (simp add: trusted_def split: option.splits)
  have "\<exists>st'. addReplicationRange S now rs p opts st = Inr (Some ds, st') \<and> sl_index st' = sl_index st2 \<and> sl_unique st' = sl_unique st2 \<and>
      sl_pending st' = sl_pending st2 \<and> sl_latest st' = sl_latest st2"
    unfolding addReplicationRange_def tr Let_def using plan(1) s2(1) s3 by simp
  then show ?thesis using plan(2,3) s2(2,3) u2 by auto
qed

section \<open>The invariant\<close>

lemma owners_js_add: "set (js_add s x) = insert x (set s)" "set (js_remove s x) = set s - {x}"
  by (auto simp: js_add_def js_remove_def)

lemma add_ok:
  assumes "sl_ok S st" and "\<forall>r \<in> set rs. range_in (sl_res S) r \<and> r_hash r = p"
  shows "\<exists>c st'. addReplicationRange S now rs p opts st = Inr (c, st') \<and> sl_ok S st' \<and> sl_latest st' = sl_latest st"
proof (cases "trusted S p")
  case True
  let ?E = "sl_engine S" and ?res = "sl_res S"
  have i: "range_index ?res ?E (sl_index st)" "r_hash ` set (contents (sl_index st)) \<subseteq> set (sl_unique st)" "pending_ok S (sl_pending st)"
    using assms(1) by (simp_all add: sl_ok_def)
  obtain ds st' where a: "addReplicationRange S now rs p opts st = Inr (Some ds, st')" "set (added_ranges ds) \<subseteq> set rs"
      "sl_index st' = ranges.put_all ?E (added_ranges ds) (base_index S (ao_reset opts) p (sl_index st))"
      "sl_unique st' = js_add (sl_unique st) p" "pending_ok S (sl_pending st')" "sl_latest st' = sl_latest st"
    using add_effect [OF i(1,3) _ True, of rs now opts] assms(2) by blast
  let ?idx = "base_index S (ao_reset opts) p (sl_index st)"
  have b: "range_index ?res ?E ?idx" "set (contents ?idx) \<subseteq> set (contents (sl_index st))"
    using i(1) ranges.contents_drop [OF i(1), of p] by (auto simp: base_index_def ranges.ok_drop)
  have good: "\<forall>r \<in> set (added_ranges ds). range_in ?res r" using a(2) assms(2) by blast
  have "r_hash ` set (contents (sl_index st')) \<subseteq> r_hash ` set (contents ?idx) \<union> r_hash ` set (added_ranges ds)"
    unfolding a(3) using ranges.owners_put_all [OF b(1) good] .
  also have "\<dots> \<subseteq> set (sl_unique st')" using b(2) i(2) a(2,4) assms(2) by (auto simp: owners_js_add)
  finally have "sl_ok S st'" using ranges.ok_put_all [OF b(1) good] a(3,5) by (simp add: sl_ok_def)
  then show ?thesis using a by blast
next
  case False
  then show ?thesis using assms(1) by (auto simp: addReplicationRange_def trusted_def split: option.splits)
qed

lemma delete_ids:
  assumes "range_index (sl_res S) (sl_engine S) idx" and "ids \<noteq> []"
  shows "\<exists>del. bind_sum (new_Or (map id_match ids)) (\<lambda>q. hm_del (sl_engine S) idx (OneQuery q)) = Inr (del, filter (\<lambda>(_, v). r_id (iv_value v) \<notin> set ids) idx)"
  using ids_query(1) [OF assms] by auto

lemma first_of_owner:
  assumes "range_index (sl_res S) (sl_engine S) idx"
  shows "\<exists>vs it. it_next (sl_engine S) idx (by_hash h) [] 1 iterate = Inr (vs, it) \<and> (length vs = 0 \<longleftrightarrow> h \<notin> r_hash ` set (contents idx))"
proof -
  have q: "queryAll (sl_engine S) idx (by_hash h) = Inr (filter (\<lambda>v. r_hash (iv_value v) = h) (jm_values idx))" using owner_query(4) [OF assms] by blast
  from it_fetch_fresh [OF q, of "[]" _ 1] obtain it where
    "it_fetch (sl_engine S) idx (by_hash h) [] (Some 1) iterate = Inr (take 1 (filter (\<lambda>v. r_hash (iv_value v) = h) (jm_values idx)), it)"
    by (auto simp: sort_docs_def)
  moreover have "take 1 (filter (\<lambda>v. r_hash (iv_value v) = h) (jm_values idx)) = [] \<longleftrightarrow> h \<notin> r_hash ` set (contents idx)"
    by (auto simp: contents_def filter_empty_conv)
  ultimately show ?thesis by (auto simp: it_next_def)
qed

lemma fold_delete_subset: "set (fold (\<lambda>r m. jm_delete m (f r)) rs m) \<subseteq> set m" "jm_ok m \<Longrightarrow> jm_ok (fold (\<lambda>r m. jm_delete m (f r)) rs m)"
proof -
  have "set (fold (\<lambda>r m. jm_delete m (f r)) rs m) \<subseteq> set m \<and> (jm_ok m \<longrightarrow> jm_ok (fold (\<lambda>r m. jm_delete m (f r)) rs m))"
  proof (induction rs arbitrary: m)
    case (Cons r rs)
    show ?case using Cons.IH [of "jm_delete m (f r)"] by (auto simp: set_jm_delete)
  qed simp
  then show "set (fold (\<lambda>r m. jm_delete m (f r)) rs m) \<subseteq> set m" "jm_ok m \<Longrightarrow> jm_ok (fold (\<lambda>r m. jm_delete m (f r)) rs m)" by blast+
qed

lemma drop_by_string_ok [intro]:
  assumes "pending_ok S P"
  shows "pending_ok S (drop_by_string rs p P)"
proof (cases "jm_get P p")
  case (Some m)
  let ?m = "fold (\<lambda>r m. jm_delete m (range_toString r)) rs m"
  have "pending_ok S (if ?m = [] then jm_delete P p else jm_set P p ?m)"
    by (rule pending_shrink [OF assms Some fold_delete_subset(1)]) (use pending_inner [OF assms Some] fold_delete_subset(2) in blast)
  then show ?thesis unfolding drop_by_string_def Let_def using Some by simp
qed (use assms in \<open>simp add: drop_by_string_def\<close>)

lemma remove_ranges_effect:
  assumes "sl_ok S st" and "rs \<noteq> []"
  shows "\<exists>st'. removeReplicationRanges S now rs p st = Inr st' \<and> sl_ok S st' \<and> contents (sl_index st') = filter (\<lambda>r. r_id r \<notin> r_id ` set rs) (contents (sl_index st)) \<and>
    sl_pending st' = drop_by_string rs p (sl_pending st) \<and> sl_latest st' = sl_latest st"
proof -
  let ?E = "sl_engine S" and ?res = "sl_res S" and ?idx = "filter (\<lambda>(_, v). r_id (iv_value v) \<notin> set (map r_id rs)) (sl_index st)"
  have i: "range_index ?res ?E (sl_index st)" "r_hash ` set (contents (sl_index st)) \<subseteq> set (sl_unique st)" "pending_ok S (sl_pending st)"
    using assms(1) by (simp_all add: sl_ok_def)
  let ?st1 = "st\<lparr>sl_pending := drop_by_string rs p (sl_pending st)\<rparr>"
  obtain del where d: "bind_sum (new_Or (map (\<lambda>x. id_match (r_id x)) rs)) (\<lambda>q. hm_del ?E (sl_index ?st1) (OneQuery q)) = Inr (del, ?idx)"
    using delete_ids [OF i(1), of "map r_id rs"] assms(2) by (auto simp: comp_def simp del: bind_sum_eq_Inr)
  have idx: "range_index ?res ?E ?idx" using i(1) by (rule range_index_filter)
  have c: "contents ?idx = filter (\<lambda>r. r_id r \<notin> r_id ` set rs) (contents (sl_index st))"
    using contents_filter [of "\<lambda>r. r_id r \<notin> set (map r_id rs)" "sl_index st"] by simp
  obtain vs it where o: "it_next ?E ?idx (by_hash p) [] 1 iterate = Inr (vs, it)" "length vs = 0 \<longleftrightarrow> p \<notin> r_hash ` set (contents ?idx)"
    using first_of_owner [OF idx, of p] by (elim exE conjE) (rule that)
  let ?u = "if length vs = 0 then js_remove (sl_unique st) p else sl_unique st"
  let ?st2 = "?st1\<lparr>sl_index := ?idx, sl_unique := ?u\<rparr>"
  obtain t where t: "updateOldestTimestampFromIndex S now ?st2 = Inr (?st2\<lparr>sl_oldest := t\<rparr>)" using updateOldest_returns [where S = S and st = ?st2 and now = now and res = ?res] idx by auto
  have "r_hash ` set (contents ?idx) \<subseteq> set ?u" using i(2) c o(2) by (auto simp: owners_js_add)
  then have ok: "sl_ok S (?st2\<lparr>sl_oldest := t\<rparr>)" using idx i(3) by (auto simp: sl_ok_def)
  let ?st4 = "dispatch (ReplicationChangeEvent p) (?st2\<lparr>sl_oldest := t\<rparr>)"
  have "removeReplicationRanges S now rs p st = Inr (if p = sl_me S then ?st4 else rebalanceParticipationDebounced ?st4)"
    unfolding removeReplicationRanges_def Let_def d using assms(2) o(1) t by (simp del: bind_sum_eq_Inr split del: if_split cong: if_cong)
  then show ?thesis using ok c by (auto simp: sl_ok_def)
qed

lemma remove_replicator_effect:
  assumes "sl_ok S st"
  shows "\<exists>st'. removeReplicator S now (PublicSignKey p) noEvent st = Inr st' \<and> sl_ok S st' \<and>
    contents (sl_index st') = filter (\<lambda>r. r_hash r \<noteq> p) (contents (sl_index st)) \<and> p \<notin> set (sl_unique st') \<and> jm_get (sl_pending st') p = None"
proof -
  let ?E = "sl_engine S" and ?res = "sl_res S" and ?idx = "filter (\<lambda>(_, v). r_hash (iv_value v) \<noteq> p) (sl_index st)"
  have i: "range_index ?res ?E (sl_index st)" "r_hash ` set (contents (sl_index st)) \<subseteq> set (sl_unique st)" "pending_ok S (sl_pending st)"
    using assms by (simp_all add: sl_ok_def)
  obtain del where d: "hm_del ?E (sl_index st) (by_hash p) = Inr (del, ?idx)" using owner_query(3) [OF i(1)] by blast
  have idx: "range_index ?res ?E ?idx" using i(1) by (rule range_index_filter)
  have c: "contents ?idx = filter (\<lambda>r. r_hash r \<noteq> p) (contents (sl_index st))" using contents_filter [of "\<lambda>r. r_hash r \<noteq> p"] by blast
  let ?st0 = "st\<lparr>sl_unique := js_remove (sl_unique st) p, sl_index := ?idx\<rparr>"
  obtain t where t: "updateOldestTimestampFromIndex S now ?st0 = Inr (?st0\<lparr>sl_oldest := t\<rparr>)" using updateOldest_returns [where S = S and st = ?st0 and now = now and res = ?res] idx by auto
  have fold: "sl_index (fold (\<lambda>x. add_change (f x)) rs s) = sl_index s" "sl_unique (fold (\<lambda>x. add_change (f x)) rs s) = sl_unique s"
    "sl_pending (fold (\<lambda>x. add_change (f x)) rs s) = sl_pending s" for f rs s by (induction rs arbitrary: s) (auto simp: add_change_def)
  have own: "ranges_of S (sl_index st) (by_hash p) = Inr (filter (\<lambda>r. r_hash r = p) (contents (sl_index st)))" using owner_ranges [OF i(1)] by blast
  have "\<exists>st'. removeReplicator S now (PublicSignKey p) noEvent st = Inr st' \<and> sl_index st' = ?idx \<and> sl_unique st' = js_remove (sl_unique st) p \<and>
      sl_pending st' = jm_delete (sl_pending st) p"
    unfolding removeReplicator_def Let_def key_hash.simps own d using t by (simp add: fold)
  moreover have "r_hash ` set (contents ?idx) \<subseteq> set (js_remove (sl_unique st) p)" using i(2) c by (auto simp: owners_js_add)
  ultimately show ?thesis using idx i(3) c by (auto simp: sl_ok_def owners_js_add)
qed

section \<open>Messages\<close>

definition wire_ok :: "resolution \<Rightarrow> rangeMessage \<Rightarrow> bool" where
  "wire_ok res m \<longleftrightarrow> 0 \<le> m_offset m \<and> m_offset m \<le> maxValue res \<and> 0 \<le> m_factor m \<and> m_factor m \<le> maxValue res \<and>
     (m_offset m < maxValue res \<or> m_factor m < maxValue res)"

fun message_ok :: "sl_env \<Rightarrow> replication_message \<Rightarrow> bool" where
  "message_ok S (AllReplicatingSegmentsMessage ms) \<longleftrightarrow> list_all (wire_ok (sl_res S)) ms"
| "message_ok S (AddedReplicationSegmentMessage ms) \<longleftrightarrow> list_all (wire_ok (sl_res S)) ms"
| "message_ok S (StoppedReplicating _) \<longleftrightarrow> True"

lemma message_ranges_ok:
  assumes "list_all (wire_ok res) ms"
  shows "\<exists>rs. message_ranges res key ms = Inr rs \<and> (\<forall>r \<in> set rs. range_in res r \<and> r_hash r = key)"
  using assms
proof (induction ms)
  case (Cons m ms)
  have w: "0 \<le> m_offset m" "m_offset m \<le> maxValue res" "0 \<le> m_factor m" "m_factor m \<le> maxValue res" "m_offset m < maxValue res \<or> m_factor m < maxValue res"
    using Cons.prems by (auto simp: wire_ok_def)
  obtain r where r: "toReplicationRangeIndexable res m key = Inr r" "r_res r = res" "r_hash r = key"
    using make_range_eq [OF w, of "m_id m" key "Some (m_mode m)" "Some (m_timestamp m)"] by (auto simp: toReplicationRangeIndexable_def)
  have "range_ok r" using make_range_ok [OF _ w] r(1) by (auto simp: toReplicationRangeIndexable_def)
  with r Cons show ?case by (auto simp: range_in_def)
qed simp

lemma message_ranges_wire: "\<forall>r \<in> set rs. range_in res r \<and> r_hash r = key \<Longrightarrow> message_ranges res key (map toReplicationRange rs) = Inr rs"
proof (induction rs)
  case (Cons r rs)
  then have "toReplicationRangeIndexable res (toReplicationRange r) key = Inr r" using range_wire [of r] by (auto simp: range_in_def)
  with Cons show ?case by simp
qed simp

lemma onInfo_ok:
  assumes "sl_ok S st" and "list_all (wire_ok (sl_res S)) ms"
  shows "\<exists>st'. onReplicationInfo S now reset ms p t st = Inr st' \<and> sl_ok S st'"
proof -
  obtain rs where rs: "message_ranges (sl_res S) p ms = Inr rs" "\<forall>r \<in> set rs. range_in (sl_res S) r \<and> r_hash r = p"
    using message_ranges_ok [OF assms(2)] by blast
  have "sl_ok S (st\<lparr>sl_latest := l\<rparr>)" for l using assms(1) by (simp add: sl_ok_def)
  from add_ok [OF this rs(2)] rs(1) assms(1) show ?thesis by (fastforce simp: onReplicationInfo_def)
qed

lemma fold_removed_ok: "sl_ok S (fold (\<lambda>r. add_change (f r)) rs st) \<longleftrightarrow> sl_ok S st"
proof (induction rs arbitrary: st)
  case (Cons r rs)
  then show ?case by (simp add: sl_ok_def)
qed simp

lemma resolve_returns:
  assumes "range_index (sl_res S) (sl_engine S) (sl_index st)" and "ids \<noteq> []"
  shows "resolveReplicationRangesFromIdsAndKey S st ids p = Inr (filter (\<lambda>r. r_id r \<in> set ids \<and> r_hash r = p) (contents (sl_index st)))"
proof -
  obtain q q' where "new_Or (map id_match ids) = Inr q" "new_And [q, StateFieldQuery [''hash''] (StringMatch p Exact False)] = Inr q'"
      "bind_sum (iterate_all (sl_engine S) (sl_index st) (OneQuery q') []) (\<lambda>vs. Inr (map iv_value vs)) = Inr (filter (\<lambda>r. r_id r \<in> set ids \<and> r_hash r = p) (contents (sl_index st)))"
    using ids_query(2) [OF assms, of p] by (elim exE conjE) (rule that)
  then show ?thesis by (simp add: resolveReplicationRangesFromIdsAndKey_def ranges_of_def del: bind_sum_eq_Inr)
qed

lemma onStopped_ok: "sl_ok S st \<Longrightarrow> onStoppedReplicating S now ids p st = Inr st' \<Longrightarrow> sl_ok S st'"
proof -
  assume ok: "sl_ok S st" and st': "onStoppedReplicating S now ids p st = Inr st'"
  show "sl_ok S st'"
  proof (cases "p = sl_me S")
    case False
    then obtain rs st1 where r: "removeReplicationRanges S now rs p st = Inr st1" "st' = fold (\<lambda>r. add_change \<lparr>rc_type = Removed, rc_range = r, rc_timestamp = now\<rparr>) rs st1"
      using st' by (auto simp: onStoppedReplicating_def)
    then have "rs \<noteq> []" by (auto simp: removeReplicationRanges_def Let_def)
    from remove_ranges_effect [OF ok this, of now p] r show ?thesis by (auto simp: fold_removed_ok)
  qed (use ok st' in \<open>simp add: onStoppedReplicating_def\<close>)
qed

lemma member_maps [simp]:
  "sl_ok S (st\<lparr>sl_gidPeers := g\<rparr>) \<longleftrightarrow> sl_ok S st" "sl_ok S (st\<lparr>sl_pruneSent := a\<rparr>) \<longleftrightarrow> sl_ok S st" "sl_ok S (st\<lparr>sl_pruneResponses := b\<rparr>) \<longleftrightarrow> sl_ok S st"
  "sl_ok S (st\<lparr>sl_sync := y\<rparr>) \<longleftrightarrow> sl_ok S st" "sl_ok S (st\<lparr>sl_latest := l\<rparr>) \<longleftrightarrow> sl_ok S st"
  "sl_ok S (dispatch e st) \<longleftrightarrow> sl_ok S st" "sl_ok S (send m to st) \<longleftrightarrow> sl_ok S st" "sl_ok S (add_change c st) \<longleftrightarrow> sl_ok S st"
  by (simp_all add: sl_ok_def)

lemma forget_ok [simp]:
  "sl_ok S (removePeerFromGidPeerHistory p g st) \<longleftrightarrow> sl_ok S st" "sl_ok S (forget_requests p ks st) \<longleftrightarrow> sl_ok S st" "sl_ok S (forget_responses p ks st) \<longleftrightarrow> sl_ok S st"
proof -
  show "sl_ok S (removePeerFromGidPeerHistory p g st) \<longleftrightarrow> sl_ok S st" by (simp add: removePeerFromGidPeerHistory_def split: option.split list.split)
  show "sl_ok S (forget_requests p ks st) \<longleftrightarrow> sl_ok S st" by (induction ks arbitrary: st) simp_all
  show "sl_ok S (forget_responses p ks st) \<longleftrightarrow> sl_ok S st" by (induction ks arbitrary: st) (simp_all add: Let_def)
qed

lemma subscription_ok: "sl_ok S st \<Longrightarrow> handleSubscriptionChange S now topic p topics sub st = Inr st' \<Longrightarrow> sl_ok S st'"
proof -
  assume ok: "sl_ok S st" and st': "handleSubscriptionChange S now topic p topics sub st = Inr st'"
  consider "topic \<notin> set topics" | "topic \<in> set topics" "sub" | "topic \<in> set topics" "\<not> sub" by blast
  then show "sl_ok S st'"
  proof cases
    case 3
    then obtain st1 where "removeReplicator S now (PublicSignKey p) False st1 = Inr st'" "sl_ok S st1"
      using st' ok by (auto simp: handleSubscriptionChange_def Let_def split: if_splits)
    with remove_replicator_effect [of S st1 now p False] show ?thesis by auto
  qed (use ok st' in \<open>auto simp: handleSubscriptionChange_def\<close>)
qed

section \<open>Steps\<close>

text \<open>What happens to the replicators: messages and requests of other peers, subscriptions, timers, and the calls of the
  log itself.\<close>

inductive replicators_step :: "sl_env \<Rightarrow> replicators \<Rightarrow> replicators \<Rightarrow> bool" for S where
  message: "onReplicationMessage S now m p t st = Inr st' \<Longrightarrow> message_ok S m \<Longrightarrow> replicators_step S st st'"
| request: "onRequestReplicationInfo S p st = Inr st' \<Longrightarrow> replicators_step S st st'"
| announce: "startAnnounceReplicating S now rs opts st = Inr st' \<Longrightarrow> \<forall>r \<in> set rs. range_in (sl_res S) r \<and> r_hash r = sl_me S \<Longrightarrow> replicators_step S st st'"
| timer: "replicators_step S st (maturity_timer S h i st)"
| subscription: "handleSubscriptionChange S now topic p topics sub st = Inr st' \<Longrightarrow> replicators_step S st st'"
| unsubscription: "onUnsubscription S now topic p topics st = Inr st' \<Longrightarrow> replicators_step S st st'"
| remove_ranges: "removeReplicationRanges S now rs p st = Inr st' \<Longrightarrow> replicators_step S st st'"
| remove_replicator: "removeReplicator S now (PublicSignKey p) noEvent st = Inr st' \<Longrightarrow> replicators_step S st st'"

lemma step_ok: "replicators_step S st st' \<Longrightarrow> sl_ok S st \<Longrightarrow> sl_ok S st'"
proof (induction rule: replicators_step.induct)
  case (message now m p t st st')
  show ?case
  proof (cases m)
    case (AllReplicatingSegmentsMessage ms)
    then show ?thesis using message onInfo_ok [OF message.prems, of ms now True p t] by auto
  next
    case (AddedReplicationSegmentMessage ms)
    then show ?thesis using message onInfo_ok [OF message.prems, of ms now False p t] by auto
  next
    case (StoppedReplicating ids)
    then show ?thesis using message onStopped_ok [OF message.prems, of now ids p st'] by simp
  qed
next
  case (request p st st')
  then show ?case by (auto simp: onRequestReplicationInfo_def split: if_splits)
next
  case (announce now rs opts st st')
  then show ?case using add_ok [OF announce.prems, of rs "sl_me S" now opts]
    by (auto simp: startAnnounceReplicating_def announcement_def Let_def split: option.splits)
next
  case (timer st h i)
  then show ?case by (auto simp: maturity_timer_def Let_def sl_ok_def split: option.split)
next
  case (subscription now topic p topics sub st st')
  then show ?case using subscription_ok by blast
next
  case (unsubscription now topic p topics st st')
  then show ?case using subscription_ok [of S "st\<lparr>sl_latest := jm_delete (sl_latest st) p\<rparr>" now topic p topics False st'] by (simp add: onUnsubscription_def)
next
  case (remove_ranges now rs p st st')
  then have "rs \<noteq> []" by (auto simp: removeReplicationRanges_def Let_def)
  then show ?case using remove_ranges_effect [OF remove_ranges.prems, of rs now p] remove_ranges.hyps by auto
next
  case (remove_replicator now p noEvent st st')
  then show ?case using remove_replicator_effect [of S st now p noEvent] by auto
qed

lemma steps_ok: "(replicators_step S)\<^sup>*\<^sup>* st st' \<Longrightarrow> sl_ok S st \<Longrightarrow> sl_ok S st'"
  by (induction rule: rtranclp_induct) (auto intro: step_ok)

section \<open>Properties\<close>

text \<open>(C14) The state of the replicators is well formed after every sequence of messages, requests, subscriptions, timers and
  calls: the index holds ranges of the ring under their ids, every owner of an indexed range is among the
  unique replicators, and what waits for maturity is filed under the owner and the id of its range.\<close>

theorem replicators_invariant:
  assumes "(replicators_step S)\<^sup>*\<^sup>* st st'" and "sl_ok S st"
  shows "range_index (sl_res S) (sl_engine S) (sl_index st') \<and> distinct (map r_id (contents (sl_index st'))) \<and>
    (\<forall>r \<in> set (contents (sl_index st')). r_hash r \<in> set (sl_unique st')) \<and>
    (\<forall>h m. jm_get (sl_pending st') h = Some m \<longrightarrow> m \<noteq> [] \<and>
       (\<forall>(i, p) \<in> set m. r_hash (rc_range (mt_diff (pr_timeout p))) = h \<and> idString S (rc_range (mt_diff (pr_timeout p))) = i))"
proof -
  have ok: "sl_ok S st'" using steps_ok [OF assms] .
  then have "range_index (sl_res S) (sl_engine S) (sl_index st')" "pending_ok S (sl_pending st')" by (simp_all add: sl_ok_def)
  then show ?thesis using ok contents_distinct pending_inner [of S "sl_pending st'"] by (auto simp: sl_ok_def)
qed

definition env_ex_sl :: sl_env where
  "env_ex_sl = \<lparr>sl_engine = range_env_ex, sl_me = ''me'', sl_res = U32, sl_isTrusted = None, sl_isReplicating = True,
     sl_timeUntilRoleMaturity = 1000, sl_subscribers = Some 2\<rparr>"

definition replicators_of :: "range list \<Rightarrow> replicators" where
  "replicators_of rs = \<lparr>sl_index = index_of rs, sl_unique = remdups (map r_hash rs), sl_pending = [], sl_oldest = 0, sl_latest = [], sl_changes = [],
     sl_events = [], sl_sent = [], sl_rebalance = None, sl_gidPeers = [], sl_pruneSent = [], sl_pruneResponses = [], sl_sync = new_SimpleSyncronizer\<rparr>"

lemma contents_index_of [simp]: "contents (index_of rs) = rs"
  by (simp add: contents_def index_of_def jm_values_def comp_def)

lemma replicators_of_ok:
  assumes "distinct (map r_id rs)" and "\<forall>r \<in> set rs. range_in U32 r"
  shows "sl_ok env_ex_sl (replicators_of rs)"
  using index_of_ok [OF assms(1), of U32] assms(2)
  by (simp add: sl_ok_def env_ex_sl_def replicators_of_def pending_ok_def range_in_def)

lemma ranges_ex_in: "distinct (map r_id ranges_ex)" "\<forall>r \<in> set ranges_ex. range_in U32 r"
  by (simp_all add: ranges_ex_def range_ex_def arc_def range_in_def range_ok_def MAX_U32_def)

theorem replicators_invariant_witness:
  "\<exists>st'. removeReplicator env_ex_sl 5 (PublicSignKey ''b'') False (replicators_of ranges_ex) = Inr st' \<and>
     (\<forall>r \<in> set (contents (sl_index st')). r_hash r \<in> set (sl_unique st'))"
proof -
  note ok = replicators_of_ok [OF ranges_ex_in]
  from remove_replicator_effect [OF ok, of 5 "''b''" False] obtain st' where st': "removeReplicator env_ex_sl 5 (PublicSignKey ''b'') False (replicators_of ranges_ex) = Inr st'" by blast
  then have "(replicators_step env_ex_sl)\<^sup>*\<^sup>* (replicators_of ranges_ex) st'" by (intro r_into_rtranclp) (rule replicators_step.remove_replicator)
  from replicators_invariant [OF this ok] st' show ?thesis by blast
qed

text \<open>(C13) A full announcement synchronises the receiver with the sender: when the sender announces all its ranges and the
  message is not older than the last one from it, the receiver then knows exactly these ranges of the sender
  and keeps the ranges of all other owners, provided that no other owner uses one of the ids.\<close>

theorem announcement_synchronises:
  assumes "sl_ok A a" and "sl_ok B b" and "sl_res A = sl_res B" and "sl_me A \<noteq> sl_me B" and "trusted B (sl_me A)"
    and "\<forall>prev. jm_get (sl_latest b) (sl_me A) = Some prev \<longrightarrow> prev \<le> t"
    and "\<forall>r \<in> set (contents (sl_index b)). \<forall>s \<in> set (contents (sl_index a)). r_hash r \<noteq> sl_me A \<and> r_hash s = sl_me A \<longrightarrow> r_id r \<noteq> r_id s"
  shows "\<exists>rs b'. getMyReplicationSegments A a = Inr rs \<and> rs = filter (\<lambda>r. r_hash r = sl_me A) (contents (sl_index a)) \<and>
    onReplicationMessage B now (AllReplicatingSegmentsMessage (map toReplicationRange rs)) (sl_me A) t b = Inr b' \<and>
    filter (\<lambda>r. r_hash r = sl_me A) (contents (sl_index b')) = rs \<and>
    filter (\<lambda>r. r_hash r \<noteq> sl_me A) (contents (sl_index b')) = filter (\<lambda>r. r_hash r \<noteq> sl_me A) (contents (sl_index b)) \<and>
    sl_me A \<in> set (sl_unique b') \<and> jm_get (sl_latest b') (sl_me A) = Some t"
proof -
  let ?p = "sl_me A" and ?rs = "filter (\<lambda>r. r_hash r = sl_me A) (contents (sl_index a))"
  have a: "range_index (sl_res A) (sl_engine A) (sl_index a)" using assms(1) by (simp add: sl_ok_def)
  have b: "range_index (sl_res B) (sl_engine B) (sl_index b)" "pending_ok B (sl_pending b)" using assms(2) by (simp_all add: sl_ok_def)
  have my: "getMyReplicationSegments A a = Inr ?rs" using owner_ranges [OF a, of "hash_match ?p" ?p] by (simp add: getMyReplicationSegments_def)
  have good: "\<forall>r \<in> set ?rs. range_in (sl_res B) r \<and> r_hash r = ?p" using contents_in [OF a] assms(3) by auto
  have msg: "message_ranges (sl_res B) ?p (map toReplicationRange ?rs) = Inr ?rs" using message_ranges_wire [OF good] .
  let ?b = "b\<lparr>sl_latest := jm_set (sl_latest b) ?p t\<rparr>"
  let ?o = "\<lparr>ao_reset = True, ao_checkDuplicates = True, ao_timestamp = Some t, ao_rebalance = True\<rparr>"
  have g: "\<forall>r \<in> set ?rs. range_in (sl_res B) r" using good by blast
  have bb: "range_index (sl_res B) (sl_engine B) (sl_index ?b)" "pending_ok B (sl_pending ?b)" using b by simp_all
  from add_effect [OF bb g assms(5), of now ?o] obtain ds b' where ds: "ao_reset ?o \<longrightarrow> added_ranges ds = ?rs"
      "sl_index b' = ranges.put_all (sl_engine B) (added_ranges ds) (base_index B (ao_reset ?o) ?p (sl_index ?b))"
    and add: "addReplicationRange B now ?rs ?p ?o ?b = Inr (Some ds, b')" "sl_unique b' = js_add (sl_unique ?b) ?p" "sl_latest b' = sl_latest ?b"
    by (elim exE conjE) (rule that)
  have idx: "sl_index b' = ranges.put_all (sl_engine B) ?rs (snd (projr (hm_del (sl_engine B) (sl_index b) (by_hash ?p))))"
    using ds by (simp add: base_index_def)
  have dist: "distinct (map r_id ?rs)" using contents_distinct [OF a] by (rule distinct_map_filter)
  have disj: "\<forall>r \<in> set (contents (sl_index b)). r_hash r \<noteq> ?p \<longrightarrow> r_id r \<notin> r_id ` set ?rs" using assms(7) by auto
  have "filter (\<lambda>r. r_hash r = ?p) (contents (sl_index b')) = ?rs"
    unfolding idx by (rule ranges.replace_owner(1) [OF b(1) good dist disj])
  moreover have "filter (\<lambda>r. r_hash r \<noteq> ?p) (contents (sl_index b')) = filter (\<lambda>r. r_hash r \<noteq> ?p) (contents (sl_index b))"
    unfolding idx by (rule ranges.replace_owner(2) [OF b(1) good dist disj])
  moreover have "\<not> (case jm_get (sl_latest b) ?p of None \<Rightarrow> False | Some prev \<Rightarrow> prev \<noteq> 0 \<and> prev > t)" using assms(6) by (auto split: option.split)
  then have "onReplicationMessage B now (AllReplicatingSegmentsMessage (map toReplicationRange ?rs)) ?p t b = Inr b'"
    using msg add(1) assms(4) by (simp add: onReplicationInfo_def)
  ultimately show ?thesis using my add(2,3) by (simp add: owners_js_add)
qed

theorem announcement_synchronises_witness:
  "\<exists>b'. onReplicationMessage env_ex_sl 50 (AllReplicatingSegmentsMessage [toReplicationRange range_ex, toReplicationRange ((arc 2 20)\<lparr>r_id := [2]\<rparr>)]) ''a'' 45
        (replicators_of [(arc 100 300)\<lparr>r_id := [3], r_hash := ''b''\<rparr>, (arc 0 7)\<lparr>r_id := [4]\<rparr>]) = Inr b' \<and>
     filter (\<lambda>r. r_hash r = ''a'') (contents (sl_index b')) = [range_ex, (arc 2 20)\<lparr>r_id := [2]\<rparr>]"
proof -
  let ?B = "[(arc 100 300)\<lparr>r_id := [3], r_hash := ''b''\<rparr>, (arc 0 7)\<lparr>r_id := [4]\<rparr>]" and ?A = "env_ex_sl\<lparr>sl_me := ''a''\<rparr>"
  have b: "sl_ok env_ex_sl (replicators_of ?B)" by (rule replicators_of_ok) (simp_all add: range_ex_def arc_def range_in_def range_ok_def MAX_U32_def)
  have a: "sl_ok ?A (replicators_of ranges_ex)"
    using replicators_of_ok [OF ranges_ex_in] by (simp add: sl_ok_def env_ex_sl_def pending_ok_def replicators_of_def)
  have s: "sl_me ?A = ''a''" "sl_me env_ex_sl = ''me''" "sl_res ?A = sl_res env_ex_sl" "trusted env_ex_sl ''a''" by (simp_all add: env_ex_sl_def trusted_def)
  have l: "sl_latest (replicators_of ?B) = []" "contents (sl_index (replicators_of rs)) = rs" for rs by (simp_all add: replicators_of_def)
  have rs: "filter (\<lambda>r. r_hash r = ''a'') ranges_ex = [range_ex, (arc 2 20)\<lparr>r_id := [2]\<rparr>]" by (simp add: ranges_ex_def range_ex_def arc_def)
  have d: "\<forall>r \<in> set ?B. \<forall>x \<in> set ranges_ex. r_hash r \<noteq> ''a'' \<and> r_hash x = ''a'' \<longrightarrow> r_id r \<noteq> r_id x"
    by (simp add: ranges_ex_def range_ex_def arc_def)
  from announcement_synchronises [OF a b, of 45 50] show ?thesis unfolding s l rs using d by (auto simp: s)
qed

section \<open>Defects\<close>

lemma fold_delete_absent: "\<forall>r \<in> set rs. f r \<notin> fst ` set m \<Longrightarrow> fold (\<lambda>r m. jm_delete m (f r)) rs m = m"
proof (induction rs)
  case (Cons r rs)
  then have "jm_delete m (f r) = m" by (force simp: jm_delete_def filter_id_conv)
  with Cons show ?case by simp
qed simp

lemma jm_set_same: "jm_get m k = Some v \<Longrightarrow> jm_set m k v = m"
  by (induction m) (auto split: if_splits)

text \<open>The timers of removed ranges are looked up by the printed range instead of its id. A base64 id has no parenthesis and
  the printed range starts with one, so no timer is ever cancelled and no entry of \<open>pendingMaturity\<close> removed.\<close>

theorem removed_range_keeps_timer:
  assumes "pending_ok S P" and "\<forall>i. CHR ''('' \<notin> set (toBase64 (sl_engine S) i)"
  shows "drop_by_string rs p P = P"
proof (cases "jm_get P p")
  case None
  then show ?thesis by (simp add: drop_by_string_def)
next
  case (Some m)
  then have m: "m \<noteq> []" "\<forall>(i, q) \<in> set m. idString S (rc_range (mt_diff (pr_timeout q))) = i"
    using pending_inner [OF assms(1) Some] by auto
  have "CHR ''('' \<in> set (range_toString r)" for r by (simp add: range_toString_def Let_def)
  then have "range_toString r \<noteq> idString S x" for r x using assms(2) by (metis idString_def)
  then have "\<forall>r \<in> set rs. range_toString r \<notin> fst ` set m" using m(2) by (fastforce simp: image_iff)
  then have "fold (\<lambda>r m. jm_delete m (range_toString r)) rs m = m" by (rule fold_delete_absent)
  with Some m(1) show ?thesis by (simp add: drop_by_string_def jm_set_same)
qed


theorem removed_range_keeps_timer_witness:
  "let P = [(''a'', [(unary [1], \<lparr>pr_range = \<lparr>rc_type = Added False, rc_range = range_ex, rc_timestamp = 5\<rparr>,
        pr_timeout = \<lparr>mt_diff = \<lparr>rc_type = Added False, rc_range = range_ex, rc_timestamp = 5\<rparr>, mt_from = ''a'', mt_rebalance = True, mt_wait = 3\<rparr>\<rparr>)])]
   in drop_by_string [range_ex] ''a'' P = P"
proof -
  have "\<forall>i. CHR ''('' \<notin> set (toBase64 (sl_engine env_ex_sl) i)" by (simp add: env_ex_sl_def range_env_ex_def unary_def)
  note r = removed_range_keeps_timer [OF _ this]
  show ?thesis unfolding Let_def
    by (rule r) (simp add: pending_ok_def idString_def env_ex_sl_def range_env_ex_def range_ex_def jm_ok_def)
qed

text \<open>A range that is removed within the debounce of its addition: the changes of one range are aggregated by the timestamp of
  the range, which both have in common, so that the removal is lost and only the addition is processed.\<close>

theorem removal_in_window_lost:
  "let r = toReplicationRange range_ex; st = replicators_of [];
       st1 = projr (onReplicationMessage env_ex_sl 60 (AddedReplicationSegmentMessage [r]) ''a'' 50 st);
       st2 = projr (onReplicationMessage env_ex_sl 61 (StoppedReplicating [r_id range_ex]) ''a'' 51 st1)
   in contents (sl_index st2) = [] \<and> map (\<lambda>(_, c). (rc_type c, rc_range c)) (sl_changes st2) = [(Added False, range_ex)]"
  by code_simp

text \<open>Two ranges that are announced again, changed, in one message: the conditions on their ids form a conjunction,
  which no range satisfies, so that neither is recognised as a replacement. A single one is.\<close>

theorem changed_together_not_replaced:
  "let r = range_ex\<lparr>r_timestamp := 70\<rparr>; s = (arc 2 20)\<lparr>r_id := [2], r_timestamp := 70\<rparr>; idx = index_of [range_ex, (arc 2 20)\<lparr>r_id := [2]\<rparr>]
   in existing_loop env_ex_sl idx [r] = Inr [range_ex] \<and> existing_loop env_ex_sl idx [r, s] = Inr []"
  by code_simp

text \<open>A message that names the id of a range of another owner overwrites that range.\<close>

theorem foreign_id_overwrites:
  "let r = (arc 700 800)\<lparr>r_id := r_id range_ex, r_hash := ''m''\<rparr>;
       st = projr (onReplicationMessage env_ex_sl 60 (AddedReplicationSegmentMessage [toReplicationRange r]) ''m'' 50 (replicators_of [range_ex]))
   in contents (sl_index st) = [r] \<and> r_hash range_ex \<noteq> ''m''"
  by code_simp

text \<open>An empty full announcement leaves a peer without ranges among the unique replicators.\<close>

theorem empty_announcement_stays_unique:
  "let st = projr (onReplicationMessage env_ex_sl 60 (AllReplicatingSegmentsMessage []) ''a'' 50 (replicators_of [range_ex]))
   in contents (sl_index st) = [] \<and> sl_unique st = [''a'']"
  by code_simp

text \<open>A peer that leaves: its responses are dropped, but an empty set of responses stays in its map, and the requests
  to all other peers for that entry are forgotten instead.\<close>

theorem leaving_peer_forgets_requests:
  "let st = (replicators_of [])\<lparr>sl_pruneSent := [(''e'', [''b''])], sl_pruneResponses := [(''e'', [''a''])]\<rparr>;
       st' = forget_responses ''a'' [''e''] st
   in sl_pruneSent st' = [] \<and> sl_pruneResponses st' = [(''e'', [])]"
  by code_simp

text \<open>A peer that stops ranges the receiver does not know makes the handler throw.\<close>

theorem unknown_stop_fails:
  "onReplicationMessage env_ex_sl 60 (StoppedReplicating [[9]]) ''a'' 50 (replicators_of [range_ex]) = Inl No_ranges_to_remove"
  by code_simp

end
