(* ===== verification/Leaders.thy ===== *)
theory Leaders
  imports Replicators Entries
begin

text \<open>
  Leaders of entries: the part of \<open>packages/programs/data/shared-log/src/index.ts\<close> that decides who keeps an entry, with the degree
  of replication in \<open>replication.ts\<close> and the grouping of \<open>utils.ts\<close>. The domain maps an entry to a coordinate; its
  replicas are a grid from there over the ring, and \<open>getSamples\<close> finds the leaders over the index of \<open>Replicators\<close>.
  Coordinates are kept in an index of entries and in a cache from coordinates to hashes.

  The domain and the (de)serialisation are parameters. An entry is given by its hash and meta data, which is
  what all its forms (full, shallow, replicated) have in common.

  Shown: with matured ranges the leaders are owners, every owner of a coordinate leads, and there are as many leaders
  as replicas or every eligible owner leads; bounds of the degree of replication; the effect of
  \<open>persistCoordinate\<close>; grouping by graph id; and two defects.
\<close>

section \<open>Data\<close>

record entry_ref =
  ef_hash :: string
  ef_meta :: meta

datatype leader_error =
    Missing_meta_data
  | Deserialize_error
  | Higher_replication_degree
  | Sampling_error query_error
  | Coordinates_error query_error
  | Cache_error cache_error
  | Ranges_error sl_error
  | Type_error

record leader_env =
  le_sl :: sl_env
  le_entries :: "entryReplicated index_env"
  le_fromEntry :: "meta \<Rightarrow> int"
  le_serialize :: "meta \<Rightarrow> nat list"
  le_deserialize :: "nat list \<Rightarrow> nat option"
  le_min :: nat
  le_max :: "nat option"
  le_fuel :: nat

record coordinates =
  co_index :: "entryReplicated hashmap"
  co_hashes :: "(int, string) cache"

section \<open>Degree of replication\<close>

definition decodeReplicas :: "leader_env \<Rightarrow> meta \<Rightarrow> leader_error + nat" where
  "decodeReplicas L m =
     (case m_data m of
        None \<Rightarrow> Inl Missing_meta_data
      | Some data \<Rightarrow> (case le_deserialize L data of None \<Rightarrow> Inl Deserialize_error | Some n \<Rightarrow> Inr n))"

fun max_decoded :: "leader_env \<Rightarrow> meta list \<Rightarrow> nat \<Rightarrow> leader_error + nat" where
  "max_decoded L [] mx = Inr mx"
| "max_decoded L (m # ms) mx = bind_sum (decodeReplicas L m) (\<lambda>n. max_decoded L ms (max n mx))"

definition maxReplicas :: "leader_env \<Rightarrow> meta list \<Rightarrow> leader_error + nat" where
  "maxReplicas L ms =
     bind_sum (max_decoded L ms 0) (\<lambda>mx.
       let lower = (if le_min L = 0 then 1 else le_min L);
           higher = (case le_max L of None \<Rightarrow> nat MAX_SAFE_INTEGER | Some n \<Rightarrow> n)
       in Inr (max (min higher mx) lower))"

definition getClampedReplicas :: "leader_env \<Rightarrow> nat option \<Rightarrow> nat" where
  "getClampedReplicas L customValue =
     (case customValue of
        None \<Rightarrow> le_min L
      | Some m \<Rightarrow> let maxValue = max (le_min L) m in (case le_max L of Some n \<Rightarrow> min maxValue n | None \<Rightarrow> maxValue))"

definition checkMinReplicasLimit :: "nat \<Rightarrow> leader_error + unit" where
  "checkMinReplicasLimit n = (if n > 100 then Inl Higher_replication_degree else Inr ())"

section \<open>Grouping\<close>

definition group_add :: "('a \<Rightarrow> string) \<Rightarrow> 'a \<Rightarrow> (string, 'a list) jsmap \<Rightarrow> (string, 'a list) jsmap" where
  "group_add gid e m = jm_set m (gid e) ((case jm_get m (gid e) of None \<Rightarrow> [] | Some es \<Rightarrow> es) @ [e])"

definition groupByGid :: "('a \<Rightarrow> string) \<Rightarrow> 'a list \<Rightarrow> (string, 'a list) jsmap" where
  "groupByGid gid es = fold (group_add gid) es []"

definition getLatestEntry :: "('a \<Rightarrow> meta) \<Rightarrow> 'a list \<Rightarrow> 'a option" where
  "getLatestEntry meta_of es = fold (\<lambda>e latest.
     case latest of
       None \<Rightarrow> Some e
     | Some l \<Rightarrow> if Timestamp_compare (lc_timestamp (m_clock (meta_of e))) (lc_timestamp (m_clock (meta_of l))) > 0 then Some e else Some l) es None"

section \<open>Coordinates\<close>

definition createCoordinates :: "leader_env \<Rightarrow> meta \<Rightarrow> nat \<Rightarrow> int list" where
  "createCoordinates L m minReplicas = getGrid (sl_res (le_sl L)) (le_fromEntry L m) minReplicas"

definition entry_replicated :: "leader_env \<Rightarrow> bool \<Rightarrow> int list \<Rightarrow> entry_ref \<Rightarrow> entryReplicated" where
  "entry_replicated L assignedToRangeBoundary coords e =
     \<lparr>er_res = sl_res (le_sl L), er_hash = ef_hash e, er_gid = m_gid (ef_meta e), er_coordinates = coords,
      er_wallTime = wallTime (lc_timestamp (m_clock (ef_meta e))), er_assignedToRangeBoundary = assignedToRangeBoundary,
      er_meta = le_serialize L (ef_meta e)\<rparr>"

definition hash_in :: "string list \<Rightarrow> query_error + query" where
  "hash_in hs = new_Or (map (\<lambda>h. StateFieldQuery [''hash''] (StringMatch h Exact False)) hs)"

fun lift_coordinates :: "query_error + 'a \<Rightarrow> leader_error + 'a" where
  "lift_coordinates (Inl e) = Inl (Coordinates_error e)"
| "lift_coordinates (Inr a) = Inr a"

fun lift_hashes :: "cache_error + 'a \<Rightarrow> leader_error + 'a" where
  "lift_hashes (Inl e) = Inl (Cache_error e)"
| "lift_hashes (Inr a) = Inr a"

definition persistCoordinate ::
  "leader_env \<Rightarrow> int \<Rightarrow> int list \<Rightarrow> entry_ref \<Rightarrow> (string, bool) jsmap option \<Rightarrow> nat \<Rightarrow> entryReplicated option \<Rightarrow> coordinates \<Rightarrow> leader_error + coordinates" where
  "persistCoordinate L now coords e leaders replicas prev C =
     (let assignedToRangeBoundary = shouldAssigneToRangeBoundary leaders replicas;
          er = entry_replicated L assignedToRangeBoundary coords e
      in if (case prev of None \<Rightarrow> False | Some p \<Rightarrow> er_assignedToRangeBoundary p = assignedToRangeBoundary) then Inr C
         else
           bind_sum (lift_coordinates (hm_put (le_entries L) (co_index C) er None)) (\<lambda>idx.
           bind_sum (lift_hashes (cache_coordinates now er (co_hashes C))) (\<lambda>hashes.
             if length (m_next (ef_meta e)) > 0 then
               bind_sum (lift_coordinates (bind_sum (hash_in (m_next (ef_meta e))) (\<lambda>q. hm_del (le_entries L) idx (OneQuery q)))) (\<lambda>(_, idx').
                 Inr \<lparr>co_index = idx', co_hashes = hashes\<rparr>)
             else Inr \<lparr>co_index = idx, co_hashes = hashes\<rparr>)))"

definition deleteCoordinates :: "leader_env \<Rightarrow> string \<Rightarrow> coordinates \<Rightarrow> leader_error + coordinates" where
  "deleteCoordinates L hash C =
     bind_sum (lift_coordinates (hm_del (le_entries L) (co_index C) (QueryRecord (JObj [(''hash'', JStr hash)])))) (\<lambda>(_, idx).
       Inr (C\<lparr>co_index := idx\<rparr>))"

section \<open>Leaders\<close>

text \<open>Sampling may not end: \<open>None\<close>.\<close>

type_synonym 'a leader_result = "(leader_error + 'a) option"

definition lbind :: "'a leader_result \<Rightarrow> ('a \<Rightarrow> 'b leader_result) \<Rightarrow> 'b leader_result" where
  "lbind x f = (case x of None \<Rightarrow> None | Some (Inl e) \<Rightarrow> Some (Inl e) | Some (Inr a) \<Rightarrow> f a)"

definition private_findLeaders :: "leader_env \<Rightarrow> int \<Rightarrow> replicators \<Rightarrow> int list \<Rightarrow> int option \<Rightarrow> (string, bool) jsmap leader_result" where
  "private_findLeaders L now st cursors roleAge =
     (let S = le_sl L; age = (case roleAge of None \<Rightarrow> getDefaultMinRoleAge S now (sl_oldest st) | Some a \<Rightarrow> a)
      in case getSamples (le_fuel L) (sl_engine S) (sl_res S) cursors (sl_index st) now age False (Some (sl_unique st)) of
           None \<Rightarrow> None
         | Some (Inl e) \<Rightarrow> Some (Inl (Sampling_error e))
         | Some (Inr leaders) \<Rightarrow> Some (Inr leaders))"

datatype persist = PersistDefault | PersistOff | Persist "entryReplicated option"

record find_options =
  fo_roleAge :: "int option"
  fo_onLeader :: bool
  fo_persist :: persist

text \<open>The leaders and the coordinates afterwards. The callback is called for each leader in order; only then does the own
  key count.\<close>

definition findLeaders ::
  "leader_env \<Rightarrow> int \<Rightarrow> replicators \<Rightarrow> int list \<Rightarrow> entry_ref \<Rightarrow> find_options \<Rightarrow> coordinates \<Rightarrow> ((string, bool) jsmap \<times> coordinates) leader_result" where
  "findLeaders L now st cursors e opts C =
     lbind (private_findLeaders L now st cursors (fo_roleAge opts)) (\<lambda>leaders.
       let isLeader = (fo_onLeader opts \<and> sl_me (le_sl L) \<in> set (jm_keys leaders));
           persists = (case fo_persist opts of PersistOff \<Rightarrow> False | PersistDefault \<Rightarrow> isLeader | Persist _ \<Rightarrow> True);
           prev = (case fo_persist opts of Persist p \<Rightarrow> p | _ \<Rightarrow> None)
       in if persists
          then lbind (Some (persistCoordinate L now cursors e (Some leaders) (length cursors) prev C)) (\<lambda>C'. Some (Inr (leaders, C')))
          else Some (Inr (leaders, C)))"

definition findLeadersFromEntry :: "leader_env \<Rightarrow> int \<Rightarrow> replicators \<Rightarrow> entry_ref \<Rightarrow> nat \<Rightarrow> int option \<Rightarrow> (string, bool) jsmap leader_result" where
  "findLeadersFromEntry L now st e replicas roleAge = private_findLeaders L now st (createCoordinates L (ef_meta e) replicas) roleAge"

definition isLeader :: "leader_env \<Rightarrow> int \<Rightarrow> replicators \<Rightarrow> entry_ref \<Rightarrow> nat \<Rightarrow> find_options \<Rightarrow> coordinates \<Rightarrow> (bool \<times> coordinates) leader_result" where
  "isLeader L now st e replicas opts C =
     lbind (findLeaders L now st (createCoordinates L (ef_meta e) replicas) e opts C) (\<lambda>(leaders, C').
       Some (Inr (jm_has leaders (sl_me (le_sl L)), C')))"

definition isReplicator :: "leader_env \<Rightarrow> int \<Rightarrow> replicators \<Rightarrow> entry_ref \<Rightarrow> int option \<Rightarrow> coordinates \<Rightarrow> (bool \<times> coordinates) leader_result" where
  "isReplicator L now st e roleAge C =
     lbind (Some (maxReplicas L [ef_meta e])) (\<lambda>replicas.
       isLeader L now st e replicas \<lparr>fo_roleAge = roleAge, fo_onLeader = False, fo_persist = PersistDefault\<rparr> C)"

text \<open>The heads this peer does (not) lead.\<close>

fun led_heads :: "leader_env \<Rightarrow> int \<Rightarrow> replicators \<Rightarrow> int option \<Rightarrow> bool \<Rightarrow> entry_ref list \<Rightarrow> coordinates \<Rightarrow> (entry_ref list \<times> coordinates) leader_result" where
  "led_heads L now st roleAge led [] C = Some (Inr ([], C))"
| "led_heads L now st roleAge led (e # es) C =
     lbind (isReplicator L now st e roleAge C) (\<lambda>(b, C1).
     lbind (led_heads L now st roleAge led es C1) (\<lambda>(rest, C2). Some (Inr (if b = led then e # rest else rest, C2))))"

definition sl_getPrunable :: "leader_env \<Rightarrow> int \<Rightarrow> replicators \<Rightarrow> int option \<Rightarrow> entry_ref list \<Rightarrow> coordinates \<Rightarrow> (entry_ref list \<times> coordinates) leader_result" where
  "sl_getPrunable L now st roleAge heads C = led_heads L now st roleAge False heads C"

definition getNonPrunable :: "leader_env \<Rightarrow> int \<Rightarrow> replicators \<Rightarrow> int option \<Rightarrow> entry_ref list \<Rightarrow> coordinates \<Rightarrow> (entry_ref list \<times> coordinates) leader_result" where
  "getNonPrunable L now st roleAge heads C = led_heads L now st roleAge True heads C"

text \<open>One check of \<open>_waitForReplicators\<close>: the leaders when they are as awaited.\<close>

definition wait_check ::
  "leader_env \<Rightarrow> int \<Rightarrow> replicators \<Rightarrow> int list \<Rightarrow> entry_ref \<Rightarrow> (string \<times> bool) list \<Rightarrow> find_options \<Rightarrow> coordinates \<Rightarrow>
     ((string, bool) jsmap option \<times> coordinates) leader_result" where
  "wait_check L now st cursors e waitFor opts C =
     lbind (findLeaders L now st cursors e (opts\<lparr>fo_onLeader := True\<rparr>) C) (\<lambda>(leaders, C').
       Some (Inr (if \<forall>(k, replicator) \<in> set waitFor. jm_has leaders k = replicator then Some leaders else None, C')))"

section \<open>Lemmas: sampling with the known replicators\<close>

text \<open>When all ranges are matured, every owner that was looked at leads.\<close>

definition seen :: "samples \<Rightarrow> bool" where
  "seen st \<longleftrightarrow> distinct (sm_visited st) \<and> set (sm_visited st) \<subseteq> dom (jm_get (sm_leaders st))"

lemma seen_collector: "seen st \<Longrightarrow> seen (collector i r True st)"
  by (auto simp: seen_def collector_def Let_def)

lemma seen_batch: "\<forall>v \<in> set rs. isMatured (iv_value v) now roleAge \<Longrightarrow> seen st \<Longrightarrow> seen (collect_batch now roleAge i rs st)"
proof (induction rs arbitrary: st)
  case (Cons v rs)
  then show ?case using seen_collector [OF Cons.prems(2), of i "iv_value v"] by (simp add: Let_def)
qed simp

lemma seen_collect_loop:
  assumes "join_ok (join_ok (scan_ok E idx)) J" and "\<forall>v \<in># join_rest (join_rest (scan_rest E idx)) J. isMatured (iv_value v) now roleAge"
    and "seen st" and "collect_loop fuel E idx now roleAge i J st = Some (Inr st')"
  shows "seen st'"
  using assms
proof (induction fuel arbitrary: J st)
  case (Suc fuel)
  show ?case
  proof (cases "around_done J \<noteq> Some True \<and> \<not> sm_found st")
    case True
    obtain rs J' where n: "around_next E idx 100 J = Inr (rs, J')" "join_ok (join_ok (scan_ok E idx)) J'"
        "join_rest (join_rest (scan_rest E idx)) J = mset rs + join_rest (join_rest (scan_rest E idx)) J'"
      using around.next_ok [OF Suc.prems(1), of 100] by auto
    have "seen (collect_batch now roleAge i rs st)" using n(3) Suc.prems(2,3) by (intro seen_batch) auto
    from Suc.IH [OF n(2) _ this] show ?thesis using Suc.prems(2,4) n(1,3) True by auto
  next
    case False
    then show ?thesis using Suc.prems(3,4) by (auto split: if_splits)
  qed
qed simp

lemma seen_collect:
  assumes "range_index res E idx" and "0 \<le> p" and "p \<le> maxValue res" and "\<forall>v \<in> set (jm_values idx). isMatured (iv_value v) now roleAge"
    and "seen st" and "collectClosestAround fuel E res idx now roleAge i p st = Some (Inr st')"
  shows "seen st'"
proof -
  obtain B A where BA: "getClosest Below res p False None None = Inr B" "getClosest Above res p False None None = Inr A"
      "join_fresh (join_fresh (scan_fresh E idx)) (joinIterator [B, A] p Closest res)" and
      rest: "set_mset (join_rest (join_rest (scan_rest E idx)) (joinIterator [B, A] p Closest res)) =
        {v \<in> set (jm_values idx). eligible False None None (iv_value v) \<or> eligible False None None (iv_value v)}"
    by (rule around_fresh [OF assms(1-3), of None False False]) (simp_all add: time_ok_def)
  have "collect_loop fuel E idx now roleAge i (joinIterator [B, A] p Closest res) st = Some (Inr st')"
    using assms(6) BA(1,2) by (simp add: collectClosestAround_def)
  then show ?thesis using rest assms(4) by (intro seen_collect_loop [OF around.fresh_ok [OF BA(3)] _ assms(5)]) auto
qed

lemma seen_containing: "seen st \<Longrightarrow> seen (fold (\<lambda>v. add_containing now roleAge (iv_value v)) vs st)"
proof (induction vs arbitrary: st)
  case (Cons v vs)
  have "seen (add_containing now roleAge (iv_value v) st)" using Cons.prems by (auto simp: seen_def add_containing_def Let_def)
  then show ?case using Cons.IH by simp
qed simp

text \<open>Leaving the loop early, because as many are known as there are replicators, is leaving it with every owner.\<close>

definition all_lead :: "range hashmap \<Rightarrow> samples \<Rightarrow> bool" where
  "all_lead idx st \<longleftrightarrow> (\<forall>v \<in> set (jm_values idx). r_hash (iv_value v) \<in> dom (jm_get (sm_leaders st)))"

lemma break_all_lead:
  assumes "sampling idx now roleAge P st" and "seen st" and "distinct u" and "\<forall>v \<in> set (jm_values idx). r_hash (iv_value v) \<in> set u"
    and "length u = length (sm_leaders st) \<or> length u = length (sm_visited st)"
  shows "all_lead idx st"
proof -
  have ok: "jm_ok (sm_leaders st)" using assms(1) by (simp add: sampling_def counted_def)
  have "h \<in> set u" if "h \<in> dom (jm_get (sm_leaders st))" for h
  proof -
    from that obtain b where b: "jm_get (sm_leaders st) h = Some b" by auto
    then have "\<exists>v \<in> set (jm_values idx). r_hash (iv_value v) = h"
      using assms(1) by (cases b) (auto simp: sampling_def owners_def)
    then show ?thesis using assms(4) by auto
  qed
  then have dom: "fst ` set (sm_leaders st) \<subseteq> set u" "fst ` set (sm_leaders st) = dom (jm_get (sm_leaders st))" by (auto simp: dom_map_of_conv_image_fst)
  have "length (sm_leaders st) = card (fst ` set (sm_leaders st))" using ok distinct_card [of "map fst (sm_leaders st)"] by (simp add: jm_ok_def)
  moreover have "length (sm_visited st) = card (set (sm_visited st))" "set (sm_visited st) \<subseteq> fst ` set (sm_leaders st)"
    using assms(2) dom(2) by (auto simp: seen_def distinct_card)
  moreover have "length u = card (set u)" using assms(3) by (simp add: distinct_card)
  ultimately have "card (set u) \<le> card (fst ` set (sm_leaders st))"
    using assms(5) card_mono [of "fst ` set (sm_leaders st)" "set (sm_visited st)"] by auto
  then have "fst ` set (sm_leaders st) = set u" using dom(1) by (intro card_seteq) auto
  then show ?thesis using assms(4) dom(2) by (auto simp: all_lead_def)
qed

lemma all_lead_enough: "all_lead idx st \<Longrightarrow> RangeSamples.enough idx now roleAge n st"
  by (auto simp: all_lead_def RangeSamples.enough_def owners_def)

lemma sample_loop_unique:
  assumes "range_index res E idx" and "4 * length idx + 1 < fuel" and "\<forall>v \<in> set (jm_values idx). isMatured (iv_value v) now roleAge"
    and "distinct u" and "\<forall>v \<in> set (jm_values idx). r_hash (iv_value v) \<in> set u"
  shows "\<forall>p \<in> set cursor. 0 \<le> p \<and> p \<le> maxValue res \<Longrightarrow> sampling idx now roleAge P st \<Longrightarrow> seen st \<Longrightarrow>
    \<exists>st' Q. sample_loop fuel E res idx now roleAge False (Some u) i cursor st = Some (Inr st') \<and> P \<subseteq> Q \<and> Q \<subseteq> P \<union> set cursor \<and>
      sampling idx now roleAge Q st' \<and> (all_lead idx st' \<or> Q = P \<union> set cursor) \<and>
      (length idx \<le> 25 \<and> RangeSamples.enough idx now roleAge i st \<longrightarrow> RangeSamples.enough idx now roleAge (i + length cursor) st')"
proof (induction cursor arbitrary: P st i)
  case (Cons p cursor)
  have p: "0 \<le> p" "p \<le> maxValue res" using Cons.prems(1) by simp_all
  obtain vs where vs: "allRangesContainingPoint E res idx [p] [] None = Inr vs" "set vs = {v \<in> set (jm_values idx). contains (iv_value v) p}"
    using allRanges_set [OF assms(1), of "[p]"] p by auto
  let ?st1 = "fold (\<lambda>v. add_containing now roleAge (iv_value v)) vs st"
  note get = add_containing_leaders [of now roleAge vs st] and cnt = add_containing_counts [of st now roleAge vs]
  have s1: "sampling idx now roleAge (insert p P) ?st1" using Cons.prems(2) cnt get vs(2) by (auto simp: sampling_def)
  have seen1: "seen ?st1" using Cons.prems(3) by (rule seen_containing)
  have IH: "\<exists>st' Q. sample_loop fuel E res idx now roleAge False (Some u) (Suc i) cursor st2 = Some (Inr st') \<and> P \<subseteq> Q \<and> Q \<subseteq> P \<union> set (p # cursor) \<and>
      sampling idx now roleAge Q st' \<and> (all_lead idx st' \<or> Q = P \<union> set (p # cursor)) \<and>
      (length idx \<le> 25 \<and> RangeSamples.enough idx now roleAge (Suc i) st2 \<longrightarrow> RangeSamples.enough idx now roleAge (i + length (p # cursor)) st')"
    if st2: "sampling idx now roleAge (insert p P) st2" "seen st2" for st2
  proof -
    have "\<forall>q \<in> set cursor. 0 \<le> q \<and> q \<le> maxValue res" using Cons.prems(1) by simp
    from Cons.IH [OF this st2, of "Suc i"] obtain st' Q where
      "sample_loop fuel E res idx now roleAge False (Some u) (Suc i) cursor st2 = Some (Inr st')" "insert p P \<subseteq> Q" "Q \<subseteq> insert p P \<union> set cursor"
      "sampling idx now roleAge Q st'" "all_lead idx st' \<or> Q = insert p P \<union> set cursor"
      "length idx \<le> 25 \<and> RangeSamples.enough idx now roleAge (Suc i) st2 \<longrightarrow> RangeSamples.enough idx now roleAge (Suc i + length cursor) st'"
      by (elim exE conjE) (rule that)
    then show ?thesis by (intro exI [of _ st'] exI [of _ Q]) simp
  qed
  show ?case
  proof (cases "length u = length (sm_leaders ?st1) \<or> length u = length (sm_visited ?st1)")
    case True
    then have "all_lead idx ?st1" using break_all_lead [OF s1 seen1 assms(4,5)] by blast
    then show ?thesis using True vs(1) s1 by (intro exI [of _ ?st1] exI [of _ "insert p P"]) (auto simp: all_lead_enough)
  next
    case nobreak: False
    show ?thesis
    proof (cases "sm_matured ?st1 > i")
      case True
      then have e: "RangeSamples.enough idx now roleAge (Suc i) ?st1" by (simp add: RangeSamples.enough_def)
      have step: "sample_loop fuel E res idx now roleAge False (Some u) i (p # cursor) st =
          sample_loop fuel E res idx now roleAge False (Some u) (Suc i) cursor ?st1"
        using vs(1) nobreak True by (simp add: Let_def del: allRangesContainingPoint.simps)
      show ?thesis unfolding step using IH [OF s1 seen1] e by (elim exE conjE) (rule exI, rule exI, intro conjI, assumption+, simp)
    next
      case False
      let ?st0 = "?st1\<lparr>sm_found := False\<rparr>"
      obtain st2 where st2: "collectClosestAround fuel E res idx now roleAge i p ?st0 = Some (Inr st2)"
          "sampled now roleAge i {v \<in> set (jm_values idx). eligible False None None (iv_value v)} ?st0 st2"
          "length idx \<le> 25 \<and> \<not> sm_found st2 \<longrightarrow> owners idx now roleAge \<subseteq> dom (jm_get (sm_leaders st2))"
        using collect_returns [OF assms(1) p assms(2), of now roleAge i ?st0] by (auto simp: owners_def)
      have "sampling idx now roleAge (insert p P) ?st0" "seen ?st0" using s1 seen1 by (simp_all add: sampling_def counted_def seen_def)
      then have "sampling idx now roleAge (insert p P) st2" "seen st2"
        using sampling_sampled st2(2) seen_collect [OF assms(1) p assms(3) _ st2(1)] by blast+
      note ih = IH [OF this]
      have e: "RangeSamples.enough idx now roleAge (Suc i) st2" if "length idx \<le> 25" using st2(2,3) that unfolding RangeSamples.enough_def sampled_def by auto
      have step: "sample_loop fuel E res idx now roleAge False (Some u) i (p # cursor) st =
          sample_loop fuel E res idx now roleAge False (Some u) (Suc i) cursor st2"
        using vs(1) nobreak False st2(1) by (simp add: Let_def del: allRangesContainingPoint.simps)
      show ?thesis unfolding step using ih e by (elim exE conjE) (rule exI, rule exI, intro conjI, assumption+, simp)
    qed
  qed
qed (auto simp: RangeSamples.enough_def)

section \<open>Lemmas: the grid and the degree of replication\<close>

lemma createCoordinates_grid:
  assumes "0 \<le> le_fromEntry L m"
  shows "length (createCoordinates L m n) = n" "p \<in> set (createCoordinates L m n) \<Longrightarrow> 0 \<le> p \<and> p \<le> maxValue (sl_res (le_sl L))"
proof -
  show "length (createCoordinates L m n) = n"
    by (cases "sl_res (le_sl L)") (simp_all add: createCoordinates_def getEvenlySpacedU32_def getEvenlySpacedU64_def)
  show "0 \<le> p \<and> p \<le> maxValue (sl_res (le_sl L))" if p: "p \<in> set (createCoordinates L m n)"
  proof (cases "sl_res (le_sl L)")
    case U32
    then obtain i where i: "i < n" "p = js_mod (round_div (le_fromEntry L m * int n + int i * MAX_U32) (int n)) MAX_U32"
      using p by (auto simp: createCoordinates_def getEvenlySpacedU32_def)
    have "0 \<le> round_div (le_fromEntry L m * int n + int i * MAX_U32) (int n)"
      using assms i(1) by (simp add: round_div_def MAX_U32_def pos_imp_zdiv_nonneg_iff)
    then show ?thesis using i(2) U32 by (simp add: MAX_U32_def less_imp_le)
  next
    case U64
    then obtain i where i: "i < n" "p = js_mod (le_fromEntry L m + (int i * MAX_U64) div int n) MAX_U64"
      using p by (auto simp: createCoordinates_def getEvenlySpacedU64_def)
    have "0 \<le> le_fromEntry L m + (int i * MAX_U64) div int n"
      using assms i(1) by (simp add: MAX_U64_def pos_imp_zdiv_nonneg_iff)
    then show ?thesis using i(2) U64 by (simp add: MAX_U64_def less_imp_le)
  qed
qed

lemma max_decoded_ge: "max_decoded L ms mx = Inr n \<Longrightarrow> mx \<le> n \<and> (\<forall>m \<in> set ms. \<exists>d. decodeReplicas L m = Inr d \<and> d \<le> n)"
proof (induction ms arbitrary: mx)
  case (Cons m ms)
  then obtain d where d: "decodeReplicas L m = Inr d" "max_decoded L ms (max d mx) = Inr n" by auto
  from Cons.IH [OF d(2)] d(1) show ?case by auto
qed simp

section \<open>Lemmas: grouping\<close>

lemma group_get: "jm_get (fold (group_add gid) es m) g =
    (let xs = filter (\<lambda>e. gid e = g) es in if xs = [] then jm_get m g else Some ((case jm_get m g of None \<Rightarrow> [] | Some ys \<Rightarrow> ys) @ xs))"
  by (induction es arbitrary: m) (auto simp: group_add_def Let_def)

section \<open>Lemmas: the index of coordinates\<close>

declare plain_query.simps [simp del] query_holds.simps [simp del]

text \<open>The entries are keyed by their hash, and the cache is well formed.\<close>

definition coordinates_ok :: "leader_env \<Rightarrow> coordinates \<Rightarrow> bool" where
  "coordinates_ok L C \<longleftrightarrow> 0 < stack (le_entries L) \<and> inj (toBase64 (le_entries L)) \<and> toJs (le_entries L) = entry_js \<and> indexBy (le_entries L) = [''hash''] \<and>
     (\<forall>v. \<not> nestedMatch (le_entries L) v) \<and> hm_ok (le_entries L) (co_index C) \<and>
     (\<forall>v \<in> set (jm_values (co_index C)). iv_id v = StringKey (er_hash (iv_value v))) \<and> cache_inv (co_hashes C)"

definition coordinate_of :: "coordinates \<Rightarrow> string \<Rightarrow> entryReplicated option" where
  "coordinate_of C h = map_option iv_value (jm_get (co_index C) (PStr h))"

lemma entry_key [simp]: "js_get (entry_js e) ''hash'' = Inr (JStr (er_hash e))"
  by (simp add: entry_js_def)

lemma hash_plain:
  assumes "\<forall>v. \<not> nestedMatch E v"
  shows "plain_query E (entry_js e) (StateFieldQuery [''hash''] (StringMatch h Exact False))"
    "query_holds E (entry_js e) (StateFieldQuery [''hash''] (StringMatch h Exact False)) \<longleftrightarrow> er_hash e = h"
proof -
  obtain ps where ps: "entry_js e = JObj ps" "map_of ps ''hash'' = Some (JStr (er_hash e))" by (auto simp: entry_js_def)
  note f = flat_query [OF ps(2), of "StringMatch h Exact False" E] assms
  show "plain_query E (entry_js e) (StateFieldQuery [''hash''] (StringMatch h Exact False))"
    "query_holds E (entry_js e) (StateFieldQuery [''hash''] (StringMatch h Exact False)) \<longleftrightarrow> er_hash e = h"
    unfolding ps(1) using f by (auto simp: fold_case_def nullish_def)
qed

lemma delete_hashes:
  assumes "coordinates_ok L C" and "toQuery q = Inr qs" and "\<And>e. \<forall>q \<in> set qs. plain_query (le_entries L) (entry_js e) q"
    and "\<And>e. (\<forall>q \<in> set qs. query_holds (le_entries L) (entry_js e) q) \<longleftrightarrow> er_hash e \<in> H"
  shows "\<exists>ids. hm_del (le_entries L) (co_index C) q = Inr (ids, filter (\<lambda>(_, v). er_hash (iv_value v) \<notin> H) (co_index C))"
proof -
  let ?E = "le_entries L" and ?idx = "co_index C"
  have c: "0 < stack ?E" "inj (toBase64 ?E)" "hm_ok ?E ?idx" "toJs ?E = entry_js" using assms(1) by (simp_all add: coordinates_ok_def)
  have "\<forall>v \<in> set (jm_values ?idx). plain_doc ?E qs v \<and> keyed ?E v"
    using assms(1,3) by (auto simp: plain_doc_def keyed_def coordinates_ok_def)
  from queryAll_filter [OF c(1-3) assms(2) this]
  have "queryAll ?E ?idx q = Inr (filter (\<lambda>v. er_hash (iv_value v) \<in> H) (jm_values ?idx))"
    using assms(4) by (simp add: selects_def [abs_def] c(4))
  then show ?thesis using del_docs_values [OF c(3), of "\<lambda>v. er_hash (iv_value v) \<in> H"] by (simp add: hm_del_def)
qed

lemma coordinates_filter:
  assumes "coordinates_ok L C"
  shows "coordinates_ok L (C\<lparr>co_index := filter (\<lambda>(_, v). er_hash (iv_value v) \<notin> H) (co_index C)\<rparr>)"
    "coordinate_of (C\<lparr>co_index := filter (\<lambda>(_, v). er_hash (iv_value v) \<notin> H) (co_index C)\<rparr>) h = (if h \<in> H then None else coordinate_of C h)"
proof -
  let ?P = "\<lambda>(_ :: idPrimitive, v :: entryReplicated indexedValue). er_hash (iv_value v) \<notin> H"
  have ok: "jm_ok (co_index C)" using assms by (simp add: coordinates_ok_def hm_ok_def)
  have key: "er_hash (iv_value v) = h" if "jm_get (co_index C) (PStr h) = Some v" for v
  proof -
    have "(PStr h, v) \<in> set (co_index C)" using that by (rule map_of_SomeD)
    then show ?thesis using assms by (fastforce simp: coordinates_ok_def hm_ok_def jm_values_def)
  qed
  show "coordinates_ok L (C\<lparr>co_index := filter ?P (co_index C)\<rparr>)"
    using assms hm_ok_filter [of "le_entries L" "co_index C" ?P] by (auto simp: coordinates_ok_def jm_values_def)
  show "coordinate_of (C\<lparr>co_index := filter ?P (co_index C)\<rparr>) h = (if h \<in> H then None else coordinate_of C h)"
    using key by (auto simp: coordinate_of_def jm_get_filter [OF ok] split: option.split)
qed

lemma cache_coordinates_ok:
  assumes "cache_inv K"
  shows "\<exists>K'. cache_coordinates now e K = Inr K' \<and> cache_inv K'"
proof -
  have "\<exists>K'. foldl (\<lambda>acc c. bind_sum acc (\<lambda>K. cache_add now K c (Some (er_hash e)) 1)) (Inr K) cs = Inr K' \<and> cache_inv K'" if "cache_inv K" for cs K
    using that
  proof (induction cs arbitrary: K)
    case (Cons c cs)
    obtain K' where "cache_add now K c (Some (er_hash e)) 1 = Inr K'" "cache_inv K'"
      using cache_trim_ok [OF cache_inv_add_entry [OF Cons.prems], of now now c "Some (er_hash e)" 1] by (auto simp: cache_add_def)
    with Cons.IH [of K'] show ?case by (simp del: bind_sum_eq_Inr)
  qed simp
  then show ?thesis using assms by (simp add: cache_coordinates_def)
qed

lemma put_coordinate:
  assumes "coordinates_ok L C"
  shows "\<exists>idx. hm_put (le_entries L) (co_index C) er None = Inr idx \<and> coordinates_ok L (C\<lparr>co_index := idx\<rparr>) \<and>
    (\<forall>h. coordinate_of (C\<lparr>co_index := idx\<rparr>) h = (if h = er_hash er then Some er else coordinate_of C h))"
proof -
  let ?idx = "jm_set (co_index C) (PStr (er_hash er)) \<lparr>iv_id = StringKey (er_hash er), iv_value = er\<rparr>"
  have put: "hm_put (le_entries L) (co_index C) er None = Inr ?idx"
    using assms by (simp add: hm_put_def coordinates_ok_def)
  have "set (jm_values ?idx) \<subseteq> insert \<lparr>iv_id = StringKey (er_hash er), iv_value = er\<rparr> (set (jm_values (co_index C)))"
    using set_jm_set_subset [of "co_index C" "PStr (er_hash er)" "\<lparr>iv_id = StringKey (er_hash er), iv_value = er\<rparr>"] by (auto simp: jm_values_def)
  then have "coordinates_ok L (C\<lparr>co_index := ?idx\<rparr>)"
    using assms hm_put_ok [OF put] by (auto simp: coordinates_ok_def)
  with put show ?thesis by (auto simp: coordinate_of_def)
qed

section \<open>Properties\<close>

lemma leaders_found:
  assumes "sl_ok (le_sl L) st" and "distinct (sl_unique st)" and "\<forall>r \<in> set (contents (sl_index st)). isMatured r now age"
    and "0 \<le> le_fromEntry L (ef_meta e)" and "4 * length (sl_index st) + 1 < le_fuel L"
  shows "\<exists>leaders. findLeadersFromEntry L now st e n (Some age) = Some (Inr leaders) \<and>
    (\<forall>h \<in> dom (jm_get leaders). \<exists>r \<in> set (contents (sl_index st)). r_hash r = h) \<and>
    (\<forall>r \<in> set (contents (sl_index st)). \<forall>p \<in> set (createCoordinates L (ef_meta e) n). contains r p \<longrightarrow> r_hash r \<in> dom (jm_get leaders)) \<and>
    (length (sl_index st) \<le> 25 \<longrightarrow> n \<le> length leaders \<or>
       (\<forall>r \<in> set (contents (sl_index st)). mode r = NonStrict \<and> 0 < width r \<longrightarrow> r_hash r \<in> dom (jm_get leaders)))"
proof -
  let ?idx = "sl_index st" and ?c = "createCoordinates L (ef_meta e) n" and ?st = "\<lparr>sm_leaders = [], sm_matured = 0, sm_visited = [], sm_found = False\<rparr>"
  have idx: "range_index (sl_res (le_sl L)) (sl_engine (le_sl L)) ?idx" using assms(1) by (simp add: sl_ok_def)
  have m: "\<forall>v \<in> set (jm_values ?idx). isMatured (iv_value v) now age" "\<forall>v \<in> set (jm_values ?idx). r_hash (iv_value v) \<in> set (sl_unique st)"
    using assms(1,3) by (auto simp: contents_def sl_ok_def)
  have "sampling ?idx now age {} ?st" "seen ?st" "RangeSamples.enough ?idx now age 0 ?st" "\<forall>p \<in> set ?c. 0 \<le> p \<and> p \<le> maxValue (sl_res (le_sl L))"
    using createCoordinates_grid(2) [OF assms(4)] by (simp_all add: sampling_def counted_def RangeSamples.enough_def seen_def)
  with sample_loop_unique [OF idx assms(5) m(1) assms(2) m(2), of ?c "{}" ?st 0] obtain st' Q where
    st': "sample_loop (le_fuel L) (sl_engine (le_sl L)) (sl_res (le_sl L)) ?idx now age False (Some (sl_unique st)) 0 ?c ?st = Some (Inr st')" "Q \<subseteq> set ?c"
      "sampling ?idx now age Q st'" "all_lead ?idx st' \<or> Q = set ?c" "length ?idx \<le> 25 \<longrightarrow> RangeSamples.enough ?idx now age (length ?c) st'" by auto
  let ?l = "sm_leaders st'"
  have "\<exists>r \<in> set (contents ?idx). r_hash r = h" if "h \<in> dom (jm_get ?l)" for h
  proof -
    from that obtain b where "jm_get ?l h = Some b" by auto
    then show ?thesis using st'(3) by (cases b) (auto simp: sampling_def owners_def contents_def)
  qed
  moreover have "r_hash r \<in> dom (jm_get ?l)" if "r \<in> set (contents ?idx)" "p \<in> set ?c" "contains r p" for r p
    using st'(4)
  proof
    assume "all_lead ?idx st'"
    then show ?thesis using that(1) by (auto simp: all_lead_def contents_def)
  next
    assume "Q = set ?c"
    then have "jm_get ?l (r_hash r) = Some True" using st'(3) that by (auto simp: sampling_def contents_def)
    then show ?thesis by blast
  qed
  moreover have "n \<le> length ?l \<or> (\<forall>r \<in> set (contents ?idx). mode r = NonStrict \<and> 0 < width r \<longrightarrow> r_hash r \<in> dom (jm_get ?l))" if "length ?idx \<le> 25"
  proof -
    have "n \<le> sm_matured st' \<or> owners ?idx now age \<subseteq> dom (jm_get ?l)" "sm_matured st' \<le> length ?l"
      using st'(3,5) that createCoordinates_grid(1) [OF assms(4)] by (auto simp: RangeSamples.enough_def sampling_def counted_def)
    moreover have "r_hash r \<in> owners ?idx now age" if "r \<in> set (contents ?idx)" "mode r = NonStrict" "0 < width r" for r
      using that m(1) by (auto simp: owners_def contents_def eligible_def)
    ultimately show ?thesis by (meson le_trans subsetD)
  qed
  moreover have "findLeadersFromEntry L now st e n (Some age) = Some (Inr ?l)"
    using st'(1) by (simp add: findLeadersFromEntry_def private_findLeaders_def getSamples_def Let_def)
  ultimately show ?thesis by blast
qed


definition leader_env_ex :: leader_env where
  "leader_env_ex = \<lparr>le_sl = env_ex_sl, le_entries = entry_env_ex, le_fromEntry = (\<lambda>m. 3), le_serialize = (\<lambda>m. []),
     le_deserialize = (\<lambda>bs. case bs of [n] \<Rightarrow> Some n | _ \<Rightarrow> None), le_min = 2, le_max = None, le_fuel = 40\<rparr>"

definition meta_at :: "nat \<Rightarrow> string list \<Rightarrow> meta" where
  "meta_at n next = \<lparr>m_clock = \<lparr>lc_id = [], lc_timestamp = Timestamp 7 0\<rparr>, m_gid = ''g'', m_next = next, m_type = APPEND, m_data = Some [n]\<rparr>"


lemma coordinates_persisted:
  assumes "coordinates_ok L C" and "ef_hash e \<notin> set (m_next (ef_meta e))"
  shows "\<exists>C'. persistCoordinate L now coords e leaders n None C = Inr C' \<and> coordinates_ok L C' \<and>
    coordinate_of C' (ef_hash e) = Some (entry_replicated L (shouldAssigneToRangeBoundary leaders n) coords e) \<and>
    (\<forall>h. h \<noteq> ef_hash e \<longrightarrow> coordinate_of C' h = (if h \<in> set (m_next (ef_meta e)) then None else coordinate_of C h))"
proof -
  let ?er = "entry_replicated L (shouldAssigneToRangeBoundary leaders n) coords e" and ?hs = "m_next (ef_meta e)"
  obtain idx where idx: "hm_put (le_entries L) (co_index C) ?er None = Inr idx" "coordinates_ok L (C\<lparr>co_index := idx\<rparr>)"
      "\<And>h. coordinate_of (C\<lparr>co_index := idx\<rparr>) h = (if h = er_hash ?er then Some ?er else coordinate_of C h)"
    using put_coordinate [OF assms(1)] by blast
  obtain K where K: "cache_coordinates now ?er (co_hashes C) = Inr K" "cache_inv K"
    using cache_coordinates_ok assms(1) by (metis coordinates_ok_def)
  let ?C = "\<lparr>co_index = idx, co_hashes = K\<rparr>"
  have C: "coordinates_ok L ?C" "\<And>h. coordinate_of ?C h = (if h = ef_hash e then Some ?er else coordinate_of C h)"
    using idx(2,3) K(2) by (simp_all add: coordinates_ok_def coordinate_of_def entry_replicated_def)
  show ?thesis
  proof (cases "?hs = []")
    case True
    then show ?thesis using idx(1) K(1) C by (intro exI [of _ ?C]) (simp add: persistCoordinate_def del: bind_sum_eq_Inr)
  next
    case False
    let ?q = "Or (map (\<lambda>h. StateFieldQuery [''hash''] (StringMatch h Exact False)) ?hs)"
    have q: "hash_in ?hs = Inr ?q" using False by (simp add: hash_in_def new_Or_def)
    have n: "\<forall>v. \<not> nestedMatch (le_entries L) v" using assms(1) by (simp add: coordinates_ok_def)
    have "\<exists>ids. hm_del (le_entries L) (co_index ?C) (OneQuery ?q) = Inr (ids, filter (\<lambda>(_, v). er_hash (iv_value v) \<notin> set ?hs) (co_index ?C))"
      using C(1) by (rule delete_hashes) (auto simp: hash_plain [OF n] plain_logical)
    then obtain ids where "hm_del (le_entries L) idx (OneQuery ?q) = Inr (ids, filter (\<lambda>(_, v). er_hash (iv_value v) \<notin> set ?hs) idx)" by auto
    then show ?thesis using idx(1) K(1) q False C(2) coordinates_filter [OF C(1), of "set ?hs"] assms(2)
      by (intro exI [of _ "?C\<lparr>co_index := filter (\<lambda>(_, v). er_hash (iv_value v) \<notin> set ?hs) idx\<rparr>"]) (simp add: persistCoordinate_def del: bind_sum_eq_Inr)
  qed
qed

text \<open>Persisting the coordinates of an entry, unless the previous ones say the same, does not throw: the entry is then found under
  its hash with these coordinates, the entries it references are no longer indexed, and all others are as before.\<close>

theorem persistCoordinate_effect:
  assumes "coordinates_ok L C" and "ef_hash e \<notin> set (m_next (ef_meta e))"
  shows "\<exists>C'. persistCoordinate L now coords e leaders n None C = Inr C' \<and> coordinates_ok L C' \<and>
    coordinate_of C' (ef_hash e) = Some (entry_replicated L (shouldAssigneToRangeBoundary leaders n) coords e) \<and>
    (\<forall>h. h \<noteq> ef_hash e \<longrightarrow> coordinate_of C' h = (if h \<in> set (m_next (ef_meta e)) then None else coordinate_of C h))"
  using assms by (rule coordinates_persisted)

theorem persistCoordinate_effect_witness:
  "\<exists>C'. persistCoordinate leader_env_ex 9 [3, 700] \<lparr>ef_hash = ''e'', ef_meta = meta_at 2 [''d'']\<rparr> None 2 None \<lparr>co_index = [], co_hashes = projr (new_Cache 10 None)\<rparr> = Inr C' \<and>
     coordinate_of C' ''d'' = None \<and> map_option er_coordinates (coordinate_of C' ''e'') = Some [3, 700]"
proof -
  have "coordinates_ok leader_env_ex \<lparr>co_index = [], co_hashes = projr (new_Cache 10 None)\<rparr>"
    by (simp add: coordinates_ok_def leader_env_ex_def entry_env_ex_def inj_unary jm_values_def cache_inv_def new_Cache_def)
  moreover have "ef_hash \<lparr>ef_hash = ''e'', ef_meta = meta_at 2 [''d'']\<rparr> \<notin> set (m_next (ef_meta \<lparr>ef_hash = ''e'', ef_meta = meta_at 2 [''d'']\<rparr>))"
    by (simp add: meta_at_def)
  ultimately show ?thesis using persistCoordinate_effect [of leader_env_ex _ "\<lparr>ef_hash = ''e'', ef_meta = meta_at 2 [''d'']\<rparr>" 9 "[3, 700]" None 2]
    by (fastforce simp: meta_at_def entry_replicated_def)
qed

text \<open>Without a callback the own key never counts, so the coordinates of an entry this peer leads are not persisted by
  default, as in the rebalancing after a change of ranges.\<close>

theorem findLeaders_forgets:
  assumes "findLeaders L now st cursors e \<lparr>fo_roleAge = a, fo_onLeader = False, fo_persist = PersistDefault\<rparr> C = Some (Inr (leaders, C'))"
  shows "C' = C"
  using assms by (auto simp: findLeaders_def lbind_def split: option.splits sum.splits)

text \<open>The degree of replication: the one for given entries is at least that of the log and, up to the maximum of the log, at
  least that of each entry; a clamped one is between the bounds of the log when these are in order.\<close>

theorem replicas_bounds:
  assumes "\<forall>n. le_max L = Some n \<longrightarrow> le_min L \<le> n" and "le_min L \<le> nat MAX_SAFE_INTEGER"
  shows "le_min L \<le> getClampedReplicas L custom \<and> (\<forall>n. le_max L = Some n \<longrightarrow> getClampedReplicas L custom \<le> n) \<and>
    (\<forall>ms n. maxReplicas L ms = Inr n \<longrightarrow> 1 \<le> n \<and> le_min L \<le> n \<and>
       (\<forall>m \<in> set ms. \<exists>d. decodeReplicas L m = Inr d \<and> (d \<le> n \<or> le_max L = Some n \<or> n = nat MAX_SAFE_INTEGER \<or> (le_min L = 0 \<and> n = 1))))"
proof (intro conjI allI impI)
  show "le_min L \<le> getClampedReplicas L custom" using assms by (auto simp: getClampedReplicas_def Let_def split: option.split)
  show "getClampedReplicas L custom \<le> n" if "le_max L = Some n" for n
    using assms that by (auto simp: getClampedReplicas_def Let_def split: option.split)
  fix ms n assume n: "maxReplicas L ms = Inr n"
  then obtain mx where mx: "max_decoded L ms 0 = Inr mx" by (auto simp: maxReplicas_def Let_def)
  then have n': "n = max (min (case le_max L of None \<Rightarrow> nat MAX_SAFE_INTEGER | Some n \<Rightarrow> n) mx) (if le_min L = 0 then 1 else le_min L)"
    using n by (simp add: maxReplicas_def Let_def)
  show "1 \<le> n" "le_min L \<le> n" unfolding n' by auto
  show "\<forall>m \<in> set ms. \<exists>d. decodeReplicas L m = Inr d \<and> (d \<le> n \<or> le_max L = Some n \<or> n = nat MAX_SAFE_INTEGER \<or> (le_min L = 0 \<and> n = 1))"
  proof
    fix m assume "m \<in> set ms"
    then obtain d where d: "decodeReplicas L m = Inr d" "d \<le> mx" using max_decoded_ge [OF mx] by auto
    then show "\<exists>d. decodeReplicas L m = Inr d \<and> (d \<le> n \<or> le_max L = Some n \<or> n = nat MAX_SAFE_INTEGER \<or> (le_min L = 0 \<and> n = 1))"
      using assms unfolding n' by (intro exI [of _ d]) (auto simp: max_def min_def split: option.split)
  qed
qed

text \<open>Grouping by graph id: the group of an id holds exactly its entries, in their order, and there is no empty group.\<close>

theorem groupByGid_groups:
  "jm_get (groupByGid gid es) g = (let xs = filter (\<lambda>e. gid e = g) es in if xs = [] then None else Some xs)"
  by (simp add: groupByGid_def group_get Let_def)

end
