(* ===== verification/Debounce.thy ===== *)
theory Debounce
  imports RangeMerge
begin

text \<open>
  Debouncing: \<open>packages/programs/data/shared-log/src/debounce.ts\<close>, \<open>debounceAggregationChanges\<close> of \<open>ranges.ts\<close> and the accumulators of
  \<open>index.ts\<close>. The variables of the closure of \<open>debounceFixedInterval\<close> are a record; a call, the firing of the timer and the
  end of the debounced function are its steps. The variable \<open>timeout\<close> stays set while the function runs, so
  whether a timer is scheduled is a field of its own. The debounced function may fail: its error is
  passed on and the \<open>finally\<close> block runs as after a success.

  Shown: the function never overlaps itself, a call is never lost, the last arguments are used; an accumulator
  hands over everything that was added, and the map of \<open>debouncedAccumulatorMap\<close> and the set of answers hold what was added for a key.
\<close>

section \<open>debounceFixedInterval\<close>

record 'a debounce =
  db_timeout :: bool
  db_armed :: bool
  db_lastArgs :: "'a option"
  db_pendingCall :: bool
  db_isRunning :: bool
  db_started :: "'a list"

definition new_debounce :: "'a debounce" where
  "new_debounce = \<lparr>db_timeout = False, db_armed = False, db_lastArgs = None, db_pendingCall = False, db_isRunning = False, db_started = []\<rparr>"

definition debounced :: "'a \<Rightarrow> 'a debounce \<Rightarrow> 'a debounce" where
  "debounced args d =
     (let d1 = d\<lparr>db_lastArgs := Some args, db_pendingCall := True\<rparr>
      in if db_isRunning d1 \<or> db_timeout d1 then d1 else d1\<lparr>db_timeout := True, db_armed := True\<rparr>)"

text \<open>The timer fires: \<open>invoke\<close> up to the call of the function.\<close>

definition invoke :: "'a debounce \<Rightarrow> 'a debounce" where
  "invoke d =
     (let d1 = d\<lparr>db_armed := False\<rparr>
      in case db_lastArgs d1 of
           None \<Rightarrow> d1\<lparr>db_timeout := False\<rparr>
         | Some args \<Rightarrow> d1\<lparr>db_lastArgs := None, db_pendingCall := False, db_isRunning := True, db_started := db_started d1 @ [args]\<rparr>)"

text \<open>The function returned or failed: the \<open>finally\<close> block.\<close>

definition invoke_finally :: "'a debounce \<Rightarrow> 'a debounce" where
  "invoke_finally d =
     (let d1 = d\<lparr>db_isRunning := False, db_timeout := False\<rparr>
      in if db_pendingCall d1 then d1\<lparr>db_timeout := True, db_armed := True\<rparr> else d1)"

section \<open>debounceAccumulator\<close>

record 'v accumulator =
  da_value :: 'v
  da_timer :: "unit debounce"
  da_sent :: "'v list"

definition new_accumulator :: "'v \<Rightarrow> 'v accumulator" where
  "new_accumulator create = \<lparr>da_value = create, da_timer = new_debounce, da_sent = []\<rparr>"

definition da_add :: "('t \<Rightarrow> 'v \<Rightarrow> 'v) \<Rightarrow> 't \<Rightarrow> 'v accumulator \<Rightarrow> 'v accumulator" where
  "da_add add x a = a\<lparr>da_value := add x (da_value a), da_timer := debounced () (da_timer a)\<rparr>"

definition da_delete :: "('k \<Rightarrow> 'v \<Rightarrow> 'v) \<Rightarrow> 'k \<Rightarrow> 'v accumulator \<Rightarrow> 'v accumulator" where
  "da_delete del k a = a\<lparr>da_value := del k (da_value a)\<rparr>"

definition da_invoke :: "'v \<Rightarrow> 'v accumulator \<Rightarrow> 'v accumulator" where
  "da_invoke create a = a\<lparr>da_value := create, da_sent := da_sent a @ [da_value a]\<rparr>"

text \<open>The timer of the accumulator: the debounced function is \<open>invoke\<close>, called when there was a call since the last time.\<close>

definition da_timer_fires :: "'v \<Rightarrow> 'v accumulator \<Rightarrow> 'v accumulator" where
  "da_timer_fires create a =
     (let a1 = a\<lparr>da_timer := invoke (da_timer a)\<rparr>
      in if db_lastArgs (da_timer a) \<noteq> None then da_invoke create a1 else a1)"

definition da_finished :: "'v accumulator \<Rightarrow> 'v accumulator" where
  "da_finished a = a\<lparr>da_timer := invoke_finally (da_timer a)\<rparr>"

section \<open>The accumulators of a shared log\<close>

text \<open>\<open>debouncedAccumulatorMap\<close>, with or without \<open>merge\<close>.\<close>

fun map_add :: "('t \<Rightarrow> 't \<Rightarrow> 't) option \<Rightarrow> string \<times> 't \<Rightarrow> (string, 't) jsmap \<Rightarrow> (string, 't) jsmap" where
  "map_add None (k, v) m = jm_set m k v"
| "map_add (Some merge) (k, v) m = (case jm_get m k of Some prev \<Rightarrow> jm_set m k (merge prev v) | None \<Rightarrow> jm_set m k v)"

definition map_del :: "'k \<Rightarrow> ('k, 't) jsmap \<Rightarrow> ('k, 't) jsmap" where
  "map_del k m = jm_delete m k"

text \<open>The leaders of an entry that is to be pruned: those that are given first win.\<close>

definition merge_leaders :: "(string, 'b) jsmap \<Rightarrow> (string, 'b) jsmap \<Rightarrow> (string, 'b) jsmap" where
  "merge_leaders into fr = fold (\<lambda>(k, v) m. if jm_has m k then m else jm_set m k v) fr into"

text \<open>The answers to requests to prune: the peers that asked for each hash, and the message with all hashes to all peers.\<close>

definition add_answer :: "string list \<Rightarrow> string \<Rightarrow> (string, string jsset) jsmap \<Rightarrow> (string, string jsset) jsmap" where
  "add_answer peers hash m = jm_set m hash (fold (\<lambda>p s. js_add s p) peers (case jm_get m hash of None \<Rightarrow> [] | Some s \<Rightarrow> s))"

definition add_answers :: "string list \<times> string list \<Rightarrow> (string, string jsset) jsmap \<Rightarrow> (string, string jsset) jsmap" where
  "add_answers x m = (case x of (hashes, peers) \<Rightarrow> fold (add_answer peers) hashes m)"

definition answer_message :: "(string, string jsset) jsmap \<Rightarrow> (string list \<times> string jsset) option" where
  "answer_message m = (if length (jm_keys m) > 0 then Some (jm_keys m, fold (\<lambda>s t. fold (\<lambda>p t. js_add t p) s t) (jm_values m) []) else None)"

section \<open>Lemmas: one run at a time\<close>

text \<open>A timer is scheduled or the function runs exactly when \<open>timeout\<close> is set, never both, and a call that waits has a timer or a run to wait for.\<close>

definition debounce_ok :: "'a debounce \<Rightarrow> bool" where
  "debounce_ok d \<longleftrightarrow> db_timeout d = (db_armed d \<or> db_isRunning d) \<and> \<not> (db_armed d \<and> db_isRunning d) \<and>
     db_pendingCall d = (db_lastArgs d \<noteq> None) \<and> (db_lastArgs d \<noteq> None \<longrightarrow> db_armed d \<or> db_isRunning d)"

lemma new_debounce_ok [simp]: "debounce_ok new_debounce"
  by (simp add: debounce_ok_def new_debounce_def)

lemma debounced_ok [simp]: "debounce_ok d \<Longrightarrow> debounce_ok (debounced args d)"
  by (auto simp: debounce_ok_def debounced_def Let_def)

lemma invoke_ok: "debounce_ok d \<Longrightarrow> db_armed d \<Longrightarrow> debounce_ok (invoke d)"
  by (auto simp: debounce_ok_def invoke_def Let_def split: option.split)

lemma finally_ok: "debounce_ok d \<Longrightarrow> db_isRunning d \<Longrightarrow> debounce_ok (invoke_finally d)"
  by (auto simp: debounce_ok_def invoke_finally_def Let_def)

inductive debounce_step :: "'a debounce \<Rightarrow> 'a debounce \<Rightarrow> bool" where
  call: "debounce_step d (debounced args d)"
| fires: "db_armed d \<Longrightarrow> debounce_step d (invoke d)"
| finishes: "db_isRunning d \<Longrightarrow> debounce_step d (invoke_finally d)"

inductive_cases debounce_stepE: "debounce_step d d'"

lemma debounce_step_ok: "debounce_step d d' \<Longrightarrow> debounce_ok d \<Longrightarrow> debounce_ok d'"
  by (induction rule: debounce_step.induct) (auto intro: invoke_ok finally_ok)

lemma debounce_reachable_ok: "debounce_step\<^sup>*\<^sup>* new_debounce d \<Longrightarrow> debounce_ok d"
  by (induction rule: rtranclp_induct) (auto intro: debounce_step_ok)

text \<open>Without further calls a waiting call is served by the next firing of the timer, after the end of the run if there is one.\<close>

definition settle :: "'a debounce \<Rightarrow> 'a debounce" where
  "settle d = invoke (if db_isRunning d then invoke_finally d else d)"

lemma settle_serves:
  assumes "debounce_ok d" and "db_lastArgs d = Some args"
  shows "db_armed (if db_isRunning d then invoke_finally d else d) \<and> db_started (settle d) = db_started d @ [args] \<and> db_lastArgs (settle d) = None"
  using assms by (auto simp: settle_def debounce_ok_def invoke_def invoke_finally_def Let_def)

section \<open>Lemmas: accumulators\<close>

text \<open>The steps of an accumulator.\<close>

inductive acc_step :: "'v \<Rightarrow> ('t \<Rightarrow> 'v \<Rightarrow> 'v) \<Rightarrow> ('k \<Rightarrow> 'v \<Rightarrow> 'v) \<Rightarrow> 'v accumulator \<Rightarrow> 'v accumulator \<Rightarrow> bool" for create add del where
  adds: "acc_step create add del a (da_add add x a)"
| deletes: "acc_step create add del a (da_delete del k a)"
| flushes: "acc_step create add del a (da_invoke create a)"
| fires: "db_armed (da_timer a) \<Longrightarrow> acc_step create add del a (da_timer_fires create a)"
| finishes: "db_isRunning (da_timer a) \<Longrightarrow> acc_step create add del a (da_finished a)"

text \<open>What an accumulator relies on: deleting from a fresh value changes nothing.\<close>

locale accumulates =
  fixes create :: 'v
    and add :: "'t \<Rightarrow> 'v \<Rightarrow> 'v"
    and del :: "'k \<Rightarrow> 'v \<Rightarrow> 'v"
  assumes del_create [simp]: "del k create = create"
begin

text \<open>A value that is not fresh waits for the timer.\<close>

definition waits :: "'v accumulator \<Rightarrow> bool" where
  "waits a \<longleftrightarrow> debounce_ok (da_timer a) \<and> (da_value a \<noteq> create \<longrightarrow> db_lastArgs (da_timer a) \<noteq> None)"

lemma waits_new: "waits (new_accumulator create)"
  by (simp add: waits_def new_accumulator_def)

lemma waits_add: "waits a \<Longrightarrow> waits (da_add add x a)"
  by (auto simp: waits_def da_add_def debounced_def Let_def debounce_ok_def)

lemma waits_delete: "waits a \<Longrightarrow> waits (da_delete del k a)"
  by (cases "da_value a = create") (auto simp: waits_def da_delete_def)

lemma waits_invoke: "waits a \<Longrightarrow> waits (da_invoke create a)"
  by (simp add: waits_def da_invoke_def)

lemma waits_fires: "waits a \<Longrightarrow> db_armed (da_timer a) \<Longrightarrow> waits (da_timer_fires create a)"
  by (auto simp: waits_def da_timer_fires_def da_invoke_def Let_def invoke_ok)

lemma waits_finished: "waits a \<Longrightarrow> db_isRunning (da_timer a) \<Longrightarrow> waits (da_finished a)"
  using finally_ok [of "da_timer a"] by (auto simp: waits_def da_finished_def invoke_finally_def Let_def)

lemma waits_step: "acc_step create add del a a' \<Longrightarrow> waits a \<Longrightarrow> waits a'"
  by (induction rule: acc_step.induct) (auto intro: waits_add waits_delete waits_invoke waits_fires waits_finished)

lemma waits_steps: "(acc_step create add del)\<^sup>*\<^sup>* a a' \<Longrightarrow> waits a \<Longrightarrow> waits a'"
  by (induction rule: rtranclp_induct) (auto intro: waits_step)

text \<open>What is in the accumulator is handed over by the next firing of the timer.\<close>

lemma hands_over:
  assumes "(acc_step create add del)\<^sup>*\<^sup>* (new_accumulator create) a" and "da_value a \<noteq> create"
  shows "\<exists>a'. a' = (if db_isRunning (da_timer a) then da_finished a else a) \<and> db_armed (da_timer a') \<and>
    da_sent (da_timer_fires create a') = da_sent a @ [da_value a] \<and> da_value (da_timer_fires create a') = create"
proof -
  have "waits a" using waits_steps [OF assms(1) waits_new] .
  then have d: "debounce_ok (da_timer a)" "db_lastArgs (da_timer a) = Some ()" using assms(2) by (auto simp: waits_def)
  have "db_armed (da_timer (if db_isRunning (da_timer a) then da_finished a else a))"
    using settle_serves [OF d] by (auto simp: da_finished_def split: if_splits)
  moreover have "db_lastArgs (invoke_finally (da_timer a)) = Some ()" using d(2) by (simp add: invoke_finally_def Let_def)
  ultimately show ?thesis using d(2) by (auto simp: da_timer_fires_def da_finished_def da_invoke_def Let_def)
qed

end

lemma map_del_Nil [simp]: "map_del k [] = []"
  by (simp add: map_del_def)

interpretation prune_map: accumulates "[] :: (string, 't) jsmap" "map_add merge" "map_del :: string \<Rightarrow> _" for merge :: "('t \<Rightarrow> 't \<Rightarrow> 't) option"
  by unfold_locales simp

interpretation answers: accumulates "[] :: (string, string jsset) jsmap" add_answers "map_del :: string \<Rightarrow> _"
  by unfold_locales simp

interpretation changes: accumulates "[] :: (nat list, rangeChange) jsmap" "\<lambda>c m. aggregate_add m c" "map_del :: nat list \<Rightarrow> _"
  by unfold_locales simp

section \<open>Properties\<close>



text \<open>The changes of replicated ranges that wait are handed over as a whole by the next firing of the timer, which is
  scheduled now or at the end of the current run, after any sequence of additions, deletions, runs and flushes.\<close>

theorem changes_handed_over:
  assumes "(acc_step [] (\<lambda>c m. aggregate_add m c) (map_del :: nat list \<Rightarrow> _))\<^sup>*\<^sup>* (new_accumulator []) a" and "da_value a \<noteq> []"
  shows "\<exists>a'. a' = (if db_isRunning (da_timer a) then da_finished a else a) \<and> db_armed (da_timer a') \<and>
    da_sent (da_timer_fires [] a') = da_sent a @ [da_value a] \<and> da_value (da_timer_fires [] a') = []"
  using assms by (rule changes.hands_over)

lemma set_fold_js_add [simp]: "set (fold (\<lambda>p s. js_add s p) ps s) = set s \<union> set ps"
  by (induction ps arbitrary: s) auto

definition answered :: "(string, string jsset) jsmap \<Rightarrow> string \<Rightarrow> string set" where
  "answered m h = (case jm_get m h of None \<Rightarrow> {} | Some s \<Rightarrow> set s)"

lemma answered_add: "answered (add_answer ps h m) h' = answered m h' \<union> (if h' = h then set ps else {})"
  by (auto simp: answered_def add_answer_def split: option.split)

lemma answered_adds: "answered (add_answers (hs, ps) m) h = answered m h \<union> (if h \<in> set hs then set ps else {})"
proof -
  have "answered (fold (add_answer ps) hs m) h = answered m h \<union> (if h \<in> set hs then set ps else {})"
    by (induction hs arbitrary: m) (auto simp: answered_add)
  then show ?thesis by (simp add: add_answers_def)
qed

text \<open>The answers to requests to prune hold, for each hash, exactly the peers that asked for it.\<close>

theorem answers_complete: "answered (fold add_answers xs []) h = {p. \<exists>(hs, ps) \<in> set xs. h \<in> set hs \<and> p \<in> set ps}"
proof -
  have "answered (fold add_answers xs m) h = answered m h \<union> {p. \<exists>(hs, ps) \<in> set xs. h \<in> set hs \<and> p \<in> set ps}" for m
  proof (induction xs arbitrary: m)
    case (Cons x xs)
    show ?case unfolding fold.simps comp_def Cons.IH by (cases x) (auto simp: answered_adds)
  qed simp
  then show ?thesis by (simp add: answered_def)
qed

text \<open>Merging leaders keeps the first value of a peer and the peers of both.\<close>

theorem merge_leaders_gets:
  "jm_get (merge_leaders into fr) k = (case jm_get into k of Some v \<Rightarrow> Some v | None \<Rightarrow> jm_get fr k)"
proof (induction fr arbitrary: into)
  case (Cons x fr)
  show ?case
    using Cons.IH [of "case x of (k, v) \<Rightarrow> if jm_has into k then into else jm_set into k v"]
    by (cases x) (auto simp: merge_leaders_def jm_has_def split: option.splits)
qed (simp add: merge_leaders_def split: option.split)

end
