(* ===== verification/Pruning.thy ===== *)
theory Pruning
  imports Leaders Debounce
begin

text \<open>
  Pruning: the part of \<open>packages/programs/data/shared-log/src/index.ts\<close> that removes entries a peer is no longer responsible for.
  A peer that does not lead an entry asks the leaders (\<open>RequestIPrune\<close>); a leader that has the entry answers
  (\<open>ResponseIPrune\<close>), now or once it has it; when enough leaders answered, the entry is removed from the log after a delay,
  unless the peer leads it again.

  What the code awaits are steps here: an answer waits until its sender leads and this peer does not (a check of
  \<open>_waitForReplicators\<close>), a removal waits for its timer, a pending removal for its timeout. The closures capture the
  pending removal, so it is part of what waits; its promise is a number. Calls of \<open>log.remove\<close> are recorded. The
  field \<open>sh_received\<close> is the history of the answers received; no operation reads it.

  Shown: every entry that is removed after asking was confirmed by at least as many other peers as its degree of
  replication, each of which sent an answer for it, along every sequence of steps, those of \<open>Replicators\<close>
  included; the answers of a leader; and a defect.
\<close>

section \<open>State\<close>

record pending_delete =
  pd_entry :: entry_ref
  pd_min :: nat
  pd_promise :: nat

record prune_request =
  rq_from :: string
  rq_hash :: string
  rq_rest :: "string list"
  rq_has :: "string list"

text \<open>Leaders as the code passes them on: \<open>None\<close> is \<open>false\<close>, the result of a wait that timed out.\<close>

type_synonym leader_map = "(string, bool) jsmap option"

record shared =
  sh_repl :: replicators
  sh_coords :: coordinates
  sh_pendingDeletes :: "(string, pending_delete) jsmap"
  sh_pendingIHave :: "(string, string \<times> string jsset) jsmap"
  sh_toPrune :: "(string, entry_ref \<times> leader_map) jsmap"
  sh_answers :: "(string, string jsset) jsmap"
  sh_waiting :: "(pending_delete \<times> string) list"
  sh_timers :: "pending_delete list"
  sh_requests :: "prune_request list"
  sh_callbacks :: "(string \<times> entry_ref \<times> string jsset) list"
  sh_promises :: nat
  sh_settled :: "(nat \<times> bool) list"
  sh_removed :: "(entry_ref \<times> pending_delete option) list"
  sh_asked :: "(string list \<times> string) list"
  sh_answered :: "(string list \<times> string jsset) list"
  sh_received :: "(string \<times> string) list"

definition me :: "leader_env \<Rightarrow> string" where
  "me L = sl_me (le_sl L)"

definition on_repl :: "(replicators \<Rightarrow> replicators) \<Rightarrow> shared \<Rightarrow> shared" where
  "on_repl f st = st\<lparr>sh_repl := f (sh_repl st)\<rparr>"

text \<open>What is forgotten of an entry: the peers of its graph, the requests and the responses.\<close>

definition forget_gid :: "string \<Rightarrow> shared \<Rightarrow> shared" where
  "forget_gid gid = on_repl (\<lambda>r. r\<lparr>sl_gidPeers := jm_delete (sl_gidPeers r) gid\<rparr>)"

definition forget_sent :: "string \<Rightarrow> string option \<Rightarrow> shared \<Rightarrow> shared" where
  "forget_sent hash to = on_repl (removePruneRequestSent hash to)"

definition forget_response_set :: "string \<Rightarrow> shared \<Rightarrow> shared" where
  "forget_response_set hash = on_repl (\<lambda>r. r\<lparr>sl_pruneResponses := jm_delete (sl_pruneResponses r) hash\<rparr>)"

definition forget_entry :: "entry_ref \<Rightarrow> shared \<Rightarrow> shared" where
  "forget_entry e st = forget_response_set (ef_hash e) (forget_sent (ef_hash e) None (forget_gid (m_gid (ef_meta e)) st))"

section \<open>Asking to prune\<close>

definition prune_unchecked :: "entry_ref list \<Rightarrow> shared \<Rightarrow> shared" where
  "prune_unchecked es st = fold (\<lambda>e st. let st1 = forget_entry e st in st1\<lparr>sh_removed := sh_removed st1 @ [(e, None)]\<rparr>) es st"

definition peer_entries :: "string \<Rightarrow> string list \<Rightarrow> (string, string list) jsmap \<Rightarrow> (string, string list) jsmap" where
  "peer_entries hash leaders m = fold (\<lambda>l m. jm_set m l ((case jm_get m l of None \<Rightarrow> [] | Some hs \<Rightarrow> hs) @ [hash])) leaders m"

text \<open>The loop over the entries: leaders that are \<open>false\<close> and a missing or unreadable degree of replication throw, after the earlier
  entries were registered.\<close>

fun prune_loop ::
  "leader_env \<Rightarrow> (entry_ref \<times> leader_map) list \<Rightarrow> shared \<times> (string, string list) jsmap \<Rightarrow> leader_error option \<times> shared \<times> (string, string list) jsmap" where
  "prune_loop L [] (st, m) = (None, st, m)"
| "prune_loop L ((e, None) # es) (st, m) = (Some Type_error, st, m)"
| "prune_loop L ((e, Some leaders) # es) (st, m) =
     (let m' = peer_entries (ef_hash e) (jm_keys leaders) m
      in if jm_has (sh_pendingDeletes st) (ef_hash e) then prune_loop L es (st, m')
         else
           (case decodeReplicas L (ef_meta e) of
              Inl err \<Rightarrow> (Some err, st, m')
            | Inr n \<Rightarrow>
                prune_loop L es
                  (st\<lparr>sh_pendingDeletes := jm_set (sh_pendingDeletes st) (ef_hash e) \<lparr>pd_entry = e, pd_min = n, pd_promise = sh_promises st\<rparr>,
                      sh_promises := Suc (sh_promises st)\<rparr>, m')))"

definition note_request :: "string \<Rightarrow> string \<Rightarrow> replicators \<Rightarrow> replicators" where
  "note_request to hash r = r\<lparr>sl_pruneSent := jm_set (sl_pruneSent r) hash (js_add (case jm_get (sl_pruneSent r) hash of None \<Rightarrow> [] | Some s \<Rightarrow> s) to)\<rparr>"

definition emitMessages :: "string list \<Rightarrow> string \<Rightarrow> shared \<Rightarrow> shared" where
  "emitMessages hashes to st =
     (let st1 = on_repl (fold (note_request to) hashes) st
      in if length hashes > 0 then st1\<lparr>sh_asked := sh_asked st1 @ [(hashes, to)]\<rparr> else st1)"

definition prune :: "leader_env \<Rightarrow> (string, entry_ref \<times> leader_map) jsmap \<Rightarrow> shared \<Rightarrow> leader_error option \<times> shared" where
  "prune L entries st =
     (case prune_loop L (jm_values entries) (st, []) of
        (Some err, st1, _) \<Rightarrow> (Some err, st1)
      | (None, st1, peerToEntries) \<Rightarrow> (None, fold (\<lambda>(to, hashes). emitMessages hashes to) peerToEntries st1))"

text \<open>The timer of \<open>pruneDebouncedFn\<close>.\<close>

definition prune_timer :: "leader_env \<Rightarrow> shared \<Rightarrow> leader_error option \<times> shared" where
  "prune_timer L st = prune L (sh_toPrune st) (st\<lparr>sh_toPrune := []\<rparr>)"

text \<open>\<open>pruneDebouncedFn.add\<close>: leaders are merged into those that wait for the entry. \<open>false\<close> is no iterable and has no \<open>has\<close>.\<close>

fun merge_waiting :: "leader_map \<Rightarrow> leader_map \<Rightarrow> leader_error + leader_map" where
  "merge_waiting into None = Inl Type_error"
| "merge_waiting None (Some fr) = (if fr = [] then Inr None else Inl Type_error)"
| "merge_waiting (Some into) (Some fr) = Inr (Some (merge_leaders into fr))"

definition add_prune :: "entry_ref \<Rightarrow> leader_map \<Rightarrow> shared \<Rightarrow> leader_error + shared" where
  "add_prune e leaders st =
     (case jm_get (sh_toPrune st) (ef_hash e) of
        None \<Rightarrow> Inr (st\<lparr>sh_toPrune := jm_set (sh_toPrune st) (ef_hash e) (e, leaders)\<rparr>)
      | Some (e0, into) \<Rightarrow> bind_sum (merge_waiting into leaders) (\<lambda>ls. Inr (st\<lparr>sh_toPrune := jm_set (sh_toPrune st) (ef_hash e) (e0, ls)\<rparr>)))"

section \<open>Answers\<close>

text \<open>\<open>clear\<close>, \<open>resolve\<close> and \<open>reject\<close> of a pending removal.\<close>

definition pd_clear :: "pending_delete \<Rightarrow> shared \<Rightarrow> shared" where
  "pd_clear d st =
     (case jm_get (sh_pendingDeletes st) (ef_hash (pd_entry d)) of
        None \<Rightarrow> st
      | Some p \<Rightarrow> if pd_promise p = pd_promise d then st\<lparr>sh_pendingDeletes := jm_delete (sh_pendingDeletes st) (ef_hash (pd_entry d))\<rparr> else st)"

definition pd_resolve :: "pending_delete \<Rightarrow> shared \<Rightarrow> shared" where
  "pd_resolve d st = (let st1 = pd_clear d st in st1\<lparr>sh_timers := sh_timers st1 @ [d]\<rparr>)"

definition settle_promise :: "pending_delete \<Rightarrow> bool \<Rightarrow> shared \<Rightarrow> shared" where
  "settle_promise d ok st = st\<lparr>sh_settled := sh_settled st @ [(pd_promise d, ok)]\<rparr>"

definition pd_reject :: "pending_delete \<Rightarrow> shared \<Rightarrow> shared" where
  "pd_reject d st = settle_promise d False (forget_response_set (ef_hash (pd_entry d)) (forget_sent (ef_hash (pd_entry d)) None (pd_clear d st)))"

definition onResponseIPrune :: "string list \<Rightarrow> string \<Rightarrow> shared \<Rightarrow> shared" where
  "onResponseIPrune hashes from st =
     fold (\<lambda>h st. let st1 = st\<lparr>sh_received := sh_received st @ [(h, from)]\<rparr>
                  in case jm_get (sh_pendingDeletes st1) h of None \<Rightarrow> st1 | Some d \<Rightarrow> st1\<lparr>sh_waiting := sh_waiting st1 @ [(d, from)]\<rparr>) hashes st"

text \<open>The rest of \<open>resolve\<close> of the map, after the sender was seen to lead.\<close>

definition confirm :: "leader_env \<Rightarrow> pending_delete \<Rightarrow> string \<Rightarrow> shared \<Rightarrow> shared" where
  "confirm L d p st =
     (let h = ef_hash (pd_entry d);
          existCounter = js_add (case jm_get (sl_pruneResponses (sh_repl st)) h of None \<Rightarrow> [] | Some s \<Rightarrow> s) p;
          st1 = on_repl (\<lambda>r. r\<lparr>sl_pruneResponses := jm_set (sl_pruneResponses r) h existCounter\<rparr>) st
      in if getClampedReplicas L (Some (pd_min d)) \<le> length existCounter then pd_resolve d st1 else st1)"

definition drop_nth :: "nat \<Rightarrow> 'a list \<Rightarrow> 'a list" where
  "drop_nth i xs = take i xs @ drop (Suc i) xs"

definition no_persist :: find_options where
  "no_persist = \<lparr>fo_roleAge = None, fo_onLeader = True, fo_persist = PersistOff\<rparr>"

definition by_default :: find_options where
  "by_default = \<lparr>fo_roleAge = None, fo_onLeader = False, fo_persist = PersistDefault\<rparr>"

text \<open>One check of an answer that waits.\<close>

definition confirm_check :: "leader_env \<Rightarrow> int \<Rightarrow> nat \<Rightarrow> shared \<Rightarrow> shared leader_result" where
  "confirm_check L now i st =
     (let (d, p) = sh_waiting st ! i;
          cursor = createCoordinates L (ef_meta (pd_entry d)) (getClampedReplicas L (Some (pd_min d)))
      in lbind (wait_check L now (sh_repl st) cursor (pd_entry d) [(p, True), (me L, False)] no_persist (sh_coords st)) (\<lambda>(leaders, C).
           let st1 = st\<lparr>sh_coords := C\<rparr>
           in Some (Inr (case leaders of None \<Rightarrow> st1 | Some _ \<Rightarrow> confirm L d p (st1\<lparr>sh_waiting := drop_nth i (sh_waiting st1)\<rparr>)))))"

definition confirm_timeout :: "nat \<Rightarrow> shared \<Rightarrow> shared" where
  "confirm_timeout i st = st\<lparr>sh_waiting := drop_nth i (sh_waiting st)\<rparr>"

text \<open>The timer of a removal, and the timeout of a pending one.\<close>

definition removal_fires :: "leader_env \<Rightarrow> int \<Rightarrow> nat \<Rightarrow> shared \<Rightarrow> shared leader_result" where
  "removal_fires L now i st =
     (let d = sh_timers st ! i; e = pd_entry d;
          st1 = forget_entry e (st\<lparr>sh_timers := drop_nth i (sh_timers st)\<rparr>)
      in lbind (isLeader L now (sh_repl st1) e (pd_min d) by_default (sh_coords st1)) (\<lambda>(leads, C).
           let st2 = st1\<lparr>sh_coords := C\<rparr>
           in Some (Inr (if leads then settle_promise d False st2
                         else settle_promise d True (forget_entry e (st2\<lparr>sh_removed := sh_removed st2 @ [(e, Some d)]\<rparr>))))))"

definition prune_timeout :: "string \<Rightarrow> shared \<Rightarrow> shared" where
  "prune_timeout hash st = (case jm_get (sh_pendingDeletes st) hash of None \<Rightarrow> st | Some d \<Rightarrow> pd_reject d st)"

text \<open>When the promises of a call are settled, its timers are cleared; a timer of which the promise is settled may therefore be gone.\<close>

definition settled :: "shared \<Rightarrow> pending_delete \<Rightarrow> bool" where
  "settled st d \<longleftrightarrow> (\<exists>x \<in> set (sh_settled st). fst x = pd_promise d)"

definition drop_timer :: "nat \<Rightarrow> shared \<Rightarrow> shared" where
  "drop_timer i st = st\<lparr>sh_timers := drop_nth i (sh_timers st)\<rparr>"

section \<open>Being asked\<close>

text \<open>A request is worked on hash by hash; \<open>entry_of\<close> is what the log has. The first part of the work on a hash, up to the wait.\<close>

definition request_begin :: "(string \<Rightarrow> entry_ref option) \<Rightarrow> string \<Rightarrow> string \<Rightarrow> shared \<Rightarrow> shared" where
  "request_begin entry_of hash from st =
     (let st1 = forget_sent hash (Some from) st;
          st2 = on_repl (\<lambda>r. case jm_get (sl_pruneResponses r) hash of None \<Rightarrow> r
                  | Some s \<Rightarrow> r\<lparr>sl_pruneResponses := jm_set (sl_pruneResponses r) hash (js_remove s from)\<rparr>) st1
      in case entry_of hash of None \<Rightarrow> st2 | Some e \<Rightarrow> on_repl (removePeerFromGidPeerHistory from (Some (m_gid (ef_meta e)))) st2)"

fun next_request :: "(string \<Rightarrow> entry_ref option) \<Rightarrow> string \<Rightarrow> string list \<Rightarrow> string list \<Rightarrow> shared \<Rightarrow> shared" where
  "next_request entry_of from has [] st = st"
| "next_request entry_of from has (h # hs) st =
     (let st1 = request_begin entry_of h from st
      in st1\<lparr>sh_requests := sh_requests st1 @ [\<lparr>rq_from = from, rq_hash = h, rq_rest = hs, rq_has = has\<rparr>]\<rparr>)"

definition onRequestIPrune :: "(string \<Rightarrow> entry_ref option) \<Rightarrow> string list \<Rightarrow> string \<Rightarrow> shared \<Rightarrow> shared" where
  "onRequestIPrune entry_of hashes from st = next_request entry_of from [] hashes st"

definition pend_i_have :: "string \<Rightarrow> string \<Rightarrow> shared \<Rightarrow> shared" where
  "pend_i_have hash from st =
     st\<lparr>sh_pendingIHave := (case jm_get (sh_pendingIHave st) hash of
        Some (first, requesting) \<Rightarrow> jm_set (sh_pendingIHave st) hash (first, js_add requesting from)
      | None \<Rightarrow> jm_set (sh_pendingIHave st) hash (from, [from]))\<rparr>"

text \<open>The rest of the work on a hash: whether this peer led the entry before the wait timed out.\<close>

definition request_end :: "(string \<Rightarrow> entry_ref option) \<Rightarrow> nat \<Rightarrow> bool \<Rightarrow> shared \<Rightarrow> shared" where
  "request_end entry_of i leads st =
     (let q = sh_requests st ! i; h = rq_hash q; from = rq_from q;
          has = (if leads then rq_has q @ [h] else rq_has q);
          st1 = st\<lparr>sh_requests := drop_nth i (sh_requests st)\<rparr>;
          st2 = (if leads then st1\<lparr>sh_answers := add_answers (has, [from]) (sh_answers st1)\<rparr> else pend_i_have h from st1)
      in next_request entry_of from has (rq_rest q) st2)"

definition led_options :: find_options where
  "led_options = \<lparr>fo_roleAge = None, fo_onLeader = True, fo_persist = PersistDefault\<rparr>"

text \<open>A check while a request waits: when this peer leads, the wait ends. An entry the log does not have is not waited for.\<close>

definition request_check :: "leader_env \<Rightarrow> int \<Rightarrow> (string \<Rightarrow> entry_ref option) \<Rightarrow> nat \<Rightarrow> shared \<Rightarrow> shared leader_result" where
  "request_check L now entry_of i st =
     (case entry_of (rq_hash (sh_requests st ! i)) of
        None \<Rightarrow> Some (Inr (request_end entry_of i False st))
      | Some e \<Rightarrow>
          lbind (Some (decodeReplicas L (ef_meta e))) (\<lambda>n.
          lbind (wait_check L now (sh_repl st) (createCoordinates L (ef_meta e) n) e [(me L, True)] led_options (sh_coords st)) (\<lambda>(leaders, C).
            let st1 = st\<lparr>sh_coords := C\<rparr>
            in Some (Inr (case leaders of None \<Rightarrow> st1 | Some _ \<Rightarrow> request_end entry_of i True st1)))))"

definition request_timeout :: "(string \<Rightarrow> entry_ref option) \<Rightarrow> nat \<Rightarrow> shared \<Rightarrow> shared" where
  "request_timeout entry_of i st = request_end entry_of i False st"

definition i_have_timeout :: "string \<Rightarrow> shared \<Rightarrow> shared" where
  "i_have_timeout hash st = st\<lparr>sh_pendingIHave := jm_delete (sh_pendingIHave st) hash\<rparr>"

text \<open>\<open>onEntryAdded\<close>: an entry that others asked for has arrived. The callback works for the first peer that asked, and answers all.\<close>

definition sl_onEntryAdded :: "entry_ref \<Rightarrow> shared \<Rightarrow> shared" where
  "sl_onEntryAdded e st =
     (let st1 = (case jm_get (sh_pendingIHave st) (ef_hash e) of
                   None \<Rightarrow> st
                 | Some (first, requesting) \<Rightarrow>
                     let st1 = forget_sent (ef_hash e) (Some first) (on_repl (removePeerFromGidPeerHistory first (Some (m_gid (ef_meta e)))) st)
                     in st1\<lparr>sh_callbacks := sh_callbacks st1 @ [(ef_hash e, e, requesting)]\<rparr>)
      in on_repl (\<lambda>r. r\<lparr>sl_sync := clearSyncProcess (ef_hash e) (sl_sync r)\<rparr>) st1)"

definition callback_check :: "leader_env \<Rightarrow> int \<Rightarrow> nat \<Rightarrow> shared \<Rightarrow> shared leader_result" where
  "callback_check L now i st =
     (let (h, e, requesting) = sh_callbacks st ! i
      in lbind (Some (decodeReplicas L (ef_meta e))) (\<lambda>n.
         lbind (wait_check L now (sh_repl st) (createCoordinates L (ef_meta e) n) e [(me L, True)] led_options (sh_coords st)) (\<lambda>(leaders, C).
           let st1 = st\<lparr>sh_coords := C\<rparr>
           in Some (Inr (case leaders of
                None \<Rightarrow> st1
              | Some _ \<Rightarrow> st1\<lparr>sh_callbacks := drop_nth i (sh_callbacks st1), sh_answers := add_answers ([h], requesting) (sh_answers st1),
                              sh_pendingIHave := jm_delete (sh_pendingIHave st1) h\<rparr>)))))"

definition callback_timeout :: "nat \<Rightarrow> shared \<Rightarrow> shared" where
  "callback_timeout i st = st\<lparr>sh_callbacks := drop_nth i (sh_callbacks st)\<rparr>"

text \<open>The timer of \<open>responseToPruneDebouncedFn\<close>.\<close>

definition answer_timer :: "shared \<Rightarrow> shared" where
  "answer_timer st =
     (let st1 = st\<lparr>sh_answers := []\<rparr>
      in case answer_message (sh_answers st) of None \<Rightarrow> st1 | Some m \<Rightarrow> st1\<lparr>sh_answered := sh_answered st1 @ [m]\<rparr>)"

section \<open>Changes of ranges\<close>

text \<open>What \<open>onReplicationChange\<close> does with one entry that a change concerns. \<open>meta_of\<close> reads the serialised meta data of an indexed
  entry, \<open>sync\<close> is the option that keeps entries this peer does not lead. The entries to announce are collected by peer.\<close>

definition deliver_to :: "entryReplicated \<Rightarrow> string \<Rightarrow> (string, string jsset) jsmap \<Rightarrow> (string, string jsset) jsmap" where
  "deliver_to er p m = jm_set m p (js_add (case jm_get m p of None \<Rightarrow> [] | Some hs \<Rightarrow> hs) (er_hash er))"

definition after_leaders ::
  "leader_env \<Rightarrow> entry_ref \<Rightarrow> entryReplicated \<Rightarrow> (entryReplicated \<Rightarrow> bool) option \<Rightarrow> (string, bool) jsmap \<Rightarrow> shared \<Rightarrow> leader_error + shared" where
  "after_leaders L e er sync currentPeers st =
     (let h = er_hash er;
          st1 = (if (case jm_get (sl_gidPeers (sh_repl st)) (er_gid er) of None \<Rightarrow> False | Some old \<Rightarrow> \<exists>p \<in> set old. \<not> jm_has currentPeers p)
                 then forget_sent h None st else st);
          st2 = on_repl (addPeersToGidPeerHistory (er_gid er) (jm_keys currentPeers) True) st1
      in if \<not> jm_has currentPeers (me L) then
           bind_sum (if (case sync of None \<Rightarrow> True | Some f \<Rightarrow> \<not> f er) then add_prune e (Some currentPeers) st2 else Inr st2) (\<lambda>st3.
             Inr (st3\<lparr>sh_answers := map_del h (sh_answers st3)\<rparr>))
         else
           let st3 = st2\<lparr>sh_toPrune := map_del h (sh_toPrune st2)\<rparr>;
               st4 = (case jm_get (sh_pendingDeletes st3) h of None \<Rightarrow> st3 | Some d \<Rightarrow> pd_reject d st3)
           in Inr (forget_sent h None st4))"

definition rebalance_entry ::
  "leader_env \<Rightarrow> int \<Rightarrow> (entryReplicated \<Rightarrow> meta) \<Rightarrow> (entryReplicated \<Rightarrow> bool) option \<Rightarrow> entryReplicated \<Rightarrow>
     shared \<times> (string, string jsset) jsmap \<Rightarrow> (shared \<times> (string, string jsset) jsmap) leader_result" where
  "rebalance_entry L now meta_of sync er = (\<lambda>(st, deliver).
     let e = \<lparr>ef_hash = er_hash er, ef_meta = meta_of er\<rparr>
     in lbind (findLeaders L now (sh_repl st) (er_coordinates er) e (by_default\<lparr>fo_roleAge := Some 0\<rparr>) (sh_coords st)) (\<lambda>(currentPeers, C).
          let oldPeersSet = jm_get (sl_gidPeers (sh_repl st)) (er_gid er);
              fresh = filter (\<lambda>p. p \<noteq> me L \<and> (case oldPeersSet of None \<Rightarrow> True | Some old \<Rightarrow> p \<notin> set old)) (jm_keys currentPeers)
          in lbind (Some (after_leaders L e er sync currentPeers (st\<lparr>sh_coords := C\<rparr>))) (\<lambda>st1.
               Some (Inr (st1, fold (deliver_to er) fresh deliver)))))"

fun rebalance_entries ::
  "leader_env \<Rightarrow> int \<Rightarrow> (entryReplicated \<Rightarrow> meta) \<Rightarrow> (entryReplicated \<Rightarrow> bool) option \<Rightarrow> entryReplicated list \<Rightarrow>
     shared \<times> (string, string jsset) jsmap \<Rightarrow> (shared \<times> (string, string jsset) jsmap) leader_result" where
  "rebalance_entries L now meta_of sync [] acc = Some (Inr acc)"
| "rebalance_entries L now meta_of sync (er # ers) acc =
     lbind (rebalance_entry L now meta_of sync er acc) (rebalance_entries L now meta_of sync ers)"

text \<open>The whole handler, after the log was trimmed; the entries come from the index of coordinates.\<close>

definition onReplicationChange ::
  "leader_env \<Rightarrow> int \<Rightarrow> (range \<Rightarrow> string) \<Rightarrow> (entryReplicated \<Rightarrow> meta) \<Rightarrow> (entryReplicated \<Rightarrow> bool) option \<Rightarrow> rangeChange list \<Rightarrow> rebalance_history \<Rightarrow>
     shared \<Rightarrow> (shared \<times> rebalance_history) leader_result" where
  "onReplicationChange L now rangeHash meta_of sync changes recentlyRebalanced st =
     (case toRebalance now rangeHash (le_entries L) changes (co_index (sh_coords st)) recentlyRebalanced of
        Inl (Inl e) \<Rightarrow> Some (Inl (Cache_error e))
      | Inl (Inr e) \<Rightarrow> Some (Inl (Coordinates_error e))
      | Inr (entries, recent) \<Rightarrow>
          lbind (rebalance_entries L now meta_of sync entries (st, [])) (\<lambda>(st1, uncheckedDeliver).
            Some (Inr (on_repl (\<lambda>r. r\<lparr>sl_sync := fold (\<lambda>(target, hashes). onMaybeMissingEntries hashes [target]) uncheckedDeliver (sl_sync r)\<rparr>) st1, recent))))"

section \<open>Steps\<close>

text \<open>A log when it is opened, with the replicators and the coordinates its indices hold.\<close>

definition open_shared :: "replicators \<Rightarrow> coordinates \<Rightarrow> shared" where
  "open_shared r C = \<lparr>sh_repl = r\<lparr>sl_gidPeers := [], sl_pruneSent := [], sl_pruneResponses := []\<rparr>, sh_coords = C, sh_pendingDeletes = [], sh_pendingIHave = [],
     sh_toPrune = [], sh_answers = [], sh_waiting = [], sh_timers = [], sh_requests = [], sh_callbacks = [], sh_promises = 0, sh_settled = [], sh_removed = [],
     sh_asked = [], sh_answered = [], sh_received = []\<rparr>"

text \<open>What happens to a shared log. The replicators take their own steps; \<open>entry_of\<close> may change from step to step.\<close>

inductive shared_step :: "leader_env \<Rightarrow> shared \<Rightarrow> shared \<Rightarrow> bool" for L where
  replicators: "replicators_step (le_sl L) (sh_repl st) r \<Longrightarrow> shared_step L st (st\<lparr>sh_repl := r\<rparr>)"
| at_once: "shared_step L st (prune_unchecked es st)"
| add: "add_prune e leaders st = Inr st' \<Longrightarrow> shared_step L st st'"
| asks: "prune_timer L st = (err, st') \<Longrightarrow> shared_step L st st'"
| response: "shared_step L st (onResponseIPrune hashes p st)"
| check: "i < length (sh_waiting st) \<Longrightarrow> confirm_check L now i st = Some (Inr st') \<Longrightarrow> shared_step L st st'"
| gives_up: "i < length (sh_waiting st) \<Longrightarrow> shared_step L st (confirm_timeout i st)"
| removal: "i < length (sh_timers st) \<Longrightarrow> removal_fires L now i st = Some (Inr st') \<Longrightarrow> shared_step L st st'"
| timeout: "shared_step L st (prune_timeout hash st)"
| request: "shared_step L st (onRequestIPrune entry_of hashes p st)"
| request_checks: "i < length (sh_requests st) \<Longrightarrow> request_check L now entry_of i st = Some (Inr st') \<Longrightarrow> shared_step L st st'"
| request_gives_up: "i < length (sh_requests st) \<Longrightarrow> shared_step L st (request_timeout entry_of i st)"
| forgets: "shared_step L st (i_have_timeout hash st)"
| added: "shared_step L st (sl_onEntryAdded e st)"
| callback: "i < length (sh_callbacks st) \<Longrightarrow> callback_check L now i st = Some (Inr st') \<Longrightarrow> shared_step L st st'"
| callback_gives_up: "i < length (sh_callbacks st) \<Longrightarrow> shared_step L st (callback_timeout i st)"
| cleanup: "i < length (sh_timers st) \<Longrightarrow> settled st (sh_timers st ! i) \<Longrightarrow> shared_step L st (drop_timer i st)"
| answers: "shared_step L st (answer_timer st)"
| changes: "onReplicationChange L now rangeHash meta_of sync cs recent st = Some (Inr (st', recent')) \<Longrightarrow> shared_step L st st'"

section \<open>Lemmas: what the replicators do to the responses\<close>

abbreviation responses :: "shared \<Rightarrow> (string, string jsset) jsmap" where
  "responses st \<equiv> sl_pruneResponses (sh_repl st)"

text \<open>Sets of responses only lose members, or are empty.\<close>

definition shrinks :: "(string, string jsset) jsmap \<Rightarrow> (string, string jsset) jsmap \<Rightarrow> bool" where
  "shrinks R R' \<longleftrightarrow> (\<forall>h s'. jm_get R' h = Some s' \<longrightarrow> s' = [] \<or> (\<exists>s. jm_get R h = Some s \<and> set s' \<subseteq> set s \<and> (distinct s \<longrightarrow> distinct s')))"

lemma shrinks_refl [simp]: "shrinks R R"
  by (simp add: shrinks_def)

lemma shrinks_trans:
  assumes "shrinks R R'" and "shrinks R' R''"
  shows "shrinks R R''"
  unfolding shrinks_def
proof (intro allI impI)
  fix h t assume "jm_get R'' h = Some t"
  then consider "t = []" | s' where "jm_get R' h = Some s'" "set t \<subseteq> set s'" "distinct s' \<longrightarrow> distinct t"
    using assms(2) unfolding shrinks_def by metis
  then show "t = [] \<or> (\<exists>s. jm_get R h = Some s \<and> set t \<subseteq> set s \<and> (distinct s \<longrightarrow> distinct t))"
  proof cases
    case (2 s')
    then show ?thesis using assms(1) unfolding shrinks_def by (cases "s' = []") (simp, blast)
  qed simp
qed

lemma shrinks_delete [simp]: "shrinks R (jm_delete R h)"
  by (simp add: shrinks_def)

lemma shrinks_remove: "jm_get R h = Some s \<Longrightarrow> shrinks R (jm_set R h (js_remove s p))"
  by (auto simp: shrinks_def js_remove_def)

lemma shrinks_forget: "shrinks (sl_pruneResponses r) (sl_pruneResponses (forget_responses p ks r))"
proof (induction ks arbitrary: r)
  case (Cons k ks)
  let ?v = "js_remove (case jm_get (sl_pruneResponses r) k of None \<Rightarrow> [] | Some s \<Rightarrow> s) p"
  let ?r1 = "r\<lparr>sl_pruneResponses := jm_set (sl_pruneResponses r) k ?v\<rparr>"
  let ?r2 = "if ?v = [] then ?r1\<lparr>sl_pruneSent := jm_delete (sl_pruneSent ?r1) k\<rparr> else ?r1"
  have r1: "shrinks (sl_pruneResponses r) (sl_pruneResponses ?r1)"
  proof (cases "jm_get (sl_pruneResponses r) k")
    case None
    then show ?thesis by (auto simp: shrinks_def js_remove_def)
  next
    case (Some s)
    then show ?thesis using shrinks_remove [OF Some, of p] by simp
  qed
  have "sl_pruneResponses ?r2 = sl_pruneResponses ?r1" by simp
  then show ?case using shrinks_trans [OF r1] Cons.IH [of ?r2] by (simp only: forget_responses.simps Let_def)
qed simp

lemma responses_kept [simp]:
  "sl_pruneResponses (dispatch e r) = sl_pruneResponses r" "sl_pruneResponses (send m to r) = sl_pruneResponses r"
  "sl_pruneResponses (add_change c r) = sl_pruneResponses r" "sl_pruneResponses (rebalanceParticipationDebounced r) = sl_pruneResponses r"
  "sl_pruneResponses (removePruneRequestSent h p0 r) = sl_pruneResponses r" "sl_pruneResponses (addPeersToGidPeerHistory g ps b r) = sl_pruneResponses r"
  "sl_pruneResponses (removePeerFromGidPeerHistory p gid r) = sl_pruneResponses r" "sl_pruneResponses (note_request p1 h r) = sl_pruneResponses r"
  by (simp_all add: dispatch_def send_def add_change_def rebalanceParticipationDebounced_def removePruneRequestSent_def addPeersToGidPeerHistory_def
      removePeerFromGidPeerHistory_def note_request_def Let_def split: option.split list.split)

lemma fold_responses [simp]:
  "(\<And>x r. sl_pruneResponses (f x r) = sl_pruneResponses r) \<Longrightarrow> sl_pruneResponses (fold f xs r) = sl_pruneResponses r"
  by (induction xs arbitrary: r) simp_all

lemma forget_requests_responses [simp]: "sl_pruneResponses (forget_requests p ks r) = sl_pruneResponses r"
  by (induction ks arbitrary: r) simp_all

lemma oldest_responses: "updateOldestTimestampFromIndex S now r = Inr r' \<Longrightarrow> sl_pruneResponses r' = sl_pruneResponses r"
  by (auto simp: updateOldestTimestampFromIndex_def)

lemma apply_diffs_responses: "apply_diffs S now a p b c ds (r, m) = Inr (r', m') \<Longrightarrow> sl_pruneResponses r' = sl_pruneResponses r"
proof (induction ds arbitrary: r m)
  case (Cons d ds)
  from Cons.prems obtain r1 m1 where s: "apply_diff S now a p b c d (r, m) = Inr (r1, m1)" "apply_diffs S now a p b c ds (r1, m1) = Inr (r', m')" by auto
  have "sl_pruneResponses r1 = sl_pruneResponses r"
    using s(1) by (auto simp: apply_diff_def Let_def split: changeType.splits if_splits)
  then show ?case using Cons.IH [OF s(2)] by simp
qed simp

lemma events_responses:
  "sl_pruneResponses (let r5 = (if d then dispatch e2 r else r); r6 = (if d \<and> c then dispatch e3 r5 else r5); r7 = (if b then fold add_change ds r6 else r6)
     in if a then r7 else rebalanceParticipationDebounced r7) = sl_pruneResponses r"
  by (simp add: Let_def)

lemma add_responses: "addReplicationRange S now rs p opts r = Inr (cs, r') \<Longrightarrow> sl_pruneResponses r' = sl_pruneResponses r"
proof -
  assume add: "addReplicationRange S now rs p opts r = Inr (cs, r')"
  show "sl_pruneResponses r' = sl_pruneResponses r"
  proof (cases "case sl_isTrusted S of None \<Rightarrow> False | Some f \<Rightarrow> \<not> f p")
    case True
    then show ?thesis using add by (simp add: addReplicationRange_def)
  next
    case False
    then obtain diffs new idx r2 m r3 where
      s: "apply_diffs S now (getDefaultMinRoleAge S now (sl_oldest r)) p (ao_reset opts) (ao_rebalance opts) diffs
           (r\<lparr>sl_index := idx, sl_unique := js_add (sl_unique r) p\<rparr>, True) = Inr (r2, m)"
        "(if ao_reset opts then updateOldestTimestampFromIndex S now r2 else Inr r2) = Inr r3" and
      r': "sl_pruneResponses r' = sl_pruneResponses r3"
      using add by (auto simp: addReplicationRange_def Let_def events_responses [unfolded Let_def] split del: if_split)
    have "sl_pruneResponses r3 = sl_pruneResponses r2" using s(2) oldest_responses by (auto split: if_splits)
    then show ?thesis using r' apply_diffs_responses [OF s(1)] by simp
  qed
qed

lemma removeRanges_responses: "removeReplicationRanges S now rs p r = Inr r' \<Longrightarrow> sl_pruneResponses r' = sl_pruneResponses r"
  by (auto simp: removeReplicationRanges_def Let_def dest!: oldest_responses split: if_splits)

lemma removeReplicator_responses: "removeReplicator S now k b r = Inr r' \<Longrightarrow> sl_pruneResponses r' = sl_pruneResponses r"
  by (auto simp: removeReplicator_def Let_def dest!: oldest_responses split: if_splits peer_key.splits)

lemma subscription_responses: "handleSubscriptionChange S now topic p topics b r = Inr r' \<Longrightarrow> shrinks (sl_pruneResponses r) (sl_pruneResponses r')"
  using shrinks_forget [of "forget_requests p (jm_keys (sl_pruneSent (removePeerFromGidPeerHistory p None r))) (removePeerFromGidPeerHistory p None r)" p]
  by (auto simp: handleSubscriptionChange_def Let_def dest!: removeReplicator_responses split: if_splits)

lemma replicators_shrink: "replicators_step S r r' \<Longrightarrow> shrinks (sl_pruneResponses r) (sl_pruneResponses r')"
proof (induction rule: replicators_step.induct)
  case (message now m p t r r')
  then show ?case
    by (cases m) (auto simp: onReplicationInfo_def onStoppedReplicating_def dest!: add_responses removeRanges_responses split: if_splits)
next
  case (request p r r')
  then show ?case by (auto simp: onRequestReplicationInfo_def split: if_splits)
next
  case (announce now rs opts r r')
  then show ?case by (auto simp: startAnnounceReplicating_def announcement_def Let_def dest!: add_responses split: option.splits)
next
  case (timer r h i)
  then show ?case by (auto simp: maturity_timer_def Let_def split: option.split)
next
  case (unsubscription now topic p topics r r')
  then show ?case using subscription_responses by (fastforce simp: onUnsubscription_def)
qed (auto dest: subscription_responses removeRanges_responses removeReplicator_responses)

section \<open>Lemmas: confirmations\<close>

text \<open>A removal is confirmed when enough other peers sent an answer.\<close>

definition quorum :: "leader_env \<Rightarrow> (string \<times> string) list \<Rightarrow> pending_delete \<Rightarrow> bool" where
  "quorum L received d \<longleftrightarrow> (\<exists>Q. distinct Q \<and> getClampedReplicas L (Some (pd_min d)) \<le> length Q \<and> me L \<notin> set Q \<and>
     (\<forall>p \<in> set Q. (ef_hash (pd_entry d), p) \<in> set received))"

definition responses_ok :: "leader_env \<Rightarrow> (string, string jsset) jsmap \<Rightarrow> (string \<times> string) list \<Rightarrow> bool" where
  "responses_ok L R received \<longleftrightarrow> (\<forall>h s. jm_get R h = Some s \<longrightarrow> distinct s \<and> me L \<notin> set s \<and> (\<forall>p \<in> set s. (h, p) \<in> set received))"

definition removals_ok :: "leader_env \<Rightarrow> shared \<Rightarrow> bool" where
  "removals_ok L st \<longleftrightarrow> (\<forall>x \<in> set (sh_waiting st). (ef_hash (pd_entry (fst x)), snd x) \<in> set (sh_received st)) \<and>
     (\<forall>d \<in> set (sh_timers st). quorum L (sh_received st) d) \<and>
     (\<forall>x \<in> set (sh_removed st). \<forall>d. snd x = Some d \<longrightarrow> fst x = pd_entry d \<and> quorum L (sh_received st) d)"

definition keyed_by_hash :: "(string, pending_delete) jsmap \<Rightarrow> bool" where
  "keyed_by_hash P \<longleftrightarrow> (\<forall>h d. jm_get P h = Some d \<longrightarrow> ef_hash (pd_entry d) = h)"

definition pruning_ok :: "leader_env \<Rightarrow> shared \<Rightarrow> bool" where
  "pruning_ok L st \<longleftrightarrow> responses_ok L (responses st) (sh_received st) \<and> removals_ok L st \<and> keyed_by_hash (sh_pendingDeletes st)"

text \<open>Most steps only forget: responses shrink, nothing new waits, and nothing is removed after asking.\<close>

definition quiet :: "shared \<Rightarrow> shared \<Rightarrow> bool" where
  "quiet st st' \<longleftrightarrow> shrinks (responses st) (responses st') \<and> sh_received st' = sh_received st \<and> set (sh_waiting st') \<subseteq> set (sh_waiting st) \<and>
     set (sh_timers st') \<subseteq> set (sh_timers st) \<and> (\<forall>x \<in> set (sh_removed st'). x \<in> set (sh_removed st) \<or> snd x = None) \<and>
     (keyed_by_hash (sh_pendingDeletes st) \<longrightarrow> keyed_by_hash (sh_pendingDeletes st'))"

lemma keyed_by_hash_delete: "keyed_by_hash P \<Longrightarrow> keyed_by_hash (jm_delete P h)"
  by (simp add: keyed_by_hash_def)

lemma keyed_by_hash_set: "keyed_by_hash P \<Longrightarrow> h = ef_hash (pd_entry d) \<Longrightarrow> keyed_by_hash (jm_set P h d)"
  by (simp add: keyed_by_hash_def)

lemma quiet_refl [simp, intro]: "quiet st st"
  by (simp add: quiet_def)

lemma quiet_trans [trans]: "quiet st st1 \<Longrightarrow> quiet st1 st2 \<Longrightarrow> quiet st st2"
  using shrinks_trans by (fastforce simp: quiet_def)

lemma shrinks_ok:
  assumes "shrinks R R'" and "responses_ok L R received"
  shows "responses_ok L R' received"
  unfolding responses_ok_def
proof (intro allI impI)
  fix h s assume get: "jm_get R' h = Some s"
  show "distinct s \<and> me L \<notin> set s \<and> (\<forall>p \<in> set s. (h, p) \<in> set received)"
  proof (cases "s = []")
    case False
    then obtain s0 where s0: "jm_get R h = Some s0" "set s \<subseteq> set s0" "distinct s0 \<longrightarrow> distinct s"
      using assms(1) get unfolding shrinks_def by metis
    have "distinct s0 \<and> me L \<notin> set s0 \<and> (\<forall>p \<in> set s0. (h, p) \<in> set received)"
      using assms(2) s0(1) unfolding responses_ok_def by blast
    with s0(2,3) show ?thesis by auto
  qed simp
qed

lemma quiet_ok:
  assumes "quiet st st'" and "pruning_ok L st"
  shows "pruning_ok L st'"
proof -
  have ok: "removals_ok L st" using assms(2) by (simp add: pruning_ok_def)
  have q: "sh_received st' = sh_received st" "set (sh_waiting st') \<subseteq> set (sh_waiting st)" "set (sh_timers st') \<subseteq> set (sh_timers st)"
      "\<And>x. x \<in> set (sh_removed st') \<Longrightarrow> x \<in> set (sh_removed st) \<or> snd x = None"
    using assms(1) by (simp_all add: quiet_def)
  have "removals_ok L st'" unfolding removals_ok_def q(1)
  proof (intro conjI ballI allI impI)
    fix x d assume "x \<in> set (sh_removed st')" "snd x = Some d"
    then have "x \<in> set (sh_removed st)" using q(4) [of x] by simp
    then show "fst x = pd_entry d" "quorum L (sh_received st) d" using ok \<open>snd x = Some d\<close> unfolding removals_ok_def by blast+
  qed (use ok q(2,3) in \<open>unfold removals_ok_def, blast+\<close>)
  moreover have "responses_ok L (responses st') (sh_received st')" "keyed_by_hash (sh_pendingDeletes st')"
    using assms shrinks_ok unfolding pruning_ok_def quiet_def by metis+
  ultimately show ?thesis by (simp add: pruning_ok_def)
qed

lemma quiet_fold: "(\<And>x st. quiet st (f x st)) \<Longrightarrow> quiet st (fold f xs st)"
  by (induction xs arbitrary: st) (auto intro: quiet_trans)

lemma quiet_on_repl: "(\<And>r. shrinks (sl_pruneResponses r) (sl_pruneResponses (f r))) \<Longrightarrow> quiet st (on_repl f st)"
  by (simp add: quiet_def on_repl_def)

lemma set_drop_nth: "set (drop_nth i xs) \<subseteq> set xs"
  using set_take_subset [of i xs] set_drop_subset [of "Suc i" xs] by (auto simp: drop_nth_def)

lemma quiet_forget [simp, intro]:
  "quiet st (forget_gid g st)" "quiet st (forget_sent h to st)" "quiet st (forget_response_set h st)" "quiet st (forget_entry e st)"
proof -
  show f: "quiet st (forget_gid g st)" "quiet st (forget_sent h to st)" "quiet st (forget_response_set h st)" for st g h to
    by (simp_all add: forget_gid_def forget_sent_def forget_response_set_def quiet_on_repl)
  show "quiet st (forget_entry e st)" unfolding forget_entry_def by (rule quiet_trans [OF quiet_trans]) (rule f)+
qed

lemma quiet_unchecked: "quiet st (prune_unchecked es st)"
  unfolding prune_unchecked_def
proof (rule quiet_fold)
  fix e st
  have "quiet (forget_entry e st) ((forget_entry e st)\<lparr>sh_removed := sh_removed (forget_entry e st) @ [(e, None)]\<rparr>)" by (auto simp: quiet_def)
  then show "quiet st (let st1 = forget_entry e st in st1\<lparr>sh_removed := sh_removed st1 @ [(e, None)]\<rparr>)"
    unfolding Let_def using quiet_trans quiet_forget(4) by blast
qed

lemma quiet_prune_loop: "prune_loop L es (st, m) = (err, st', m') \<Longrightarrow> quiet st st'"
proof (induction es arbitrary: st m)
  case (Cons x es)
  obtain e ls where x0: "x = (e, ls)" by (cases x)
  show ?case
  proof (cases ls)
  case None
  then show ?thesis using Cons.prems x0 by simp
  next
  case (Some leaders)
  then have x: "x = (e, Some leaders)" using x0 by simp
  let ?m = "peer_entries (ef_hash e) (jm_keys leaders) m"
  show ?thesis
  proof (cases "jm_has (sh_pendingDeletes st) (ef_hash e)")
    case True
    then show ?thesis using Cons x by (simp add: Let_def)
  next
    case False
    show ?thesis
    proof (cases "decodeReplicas L (ef_meta e)")
      case (Inl er)
      then show ?thesis using Cons.prems False x by (simp add: Let_def)
    next
      case (Inr n)
      let ?st = "st\<lparr>sh_pendingDeletes := jm_set (sh_pendingDeletes st) (ef_hash e) \<lparr>pd_entry = e, pd_min = n, pd_promise = sh_promises st\<rparr>, sh_promises := Suc (sh_promises st)\<rparr>"
      have "quiet ?st st'" using Cons.IH [of ?st ?m] Cons.prems False x Inr by (simp add: Let_def)
      moreover have "quiet st ?st" by (simp add: quiet_def keyed_by_hash_set)
      ultimately show ?thesis using quiet_trans by blast
    qed
  qed
  qed
qed simp

lemma quiet_emit: "quiet st (emitMessages hs to st)"
proof -
  have "quiet st (on_repl (fold (note_request to) hs) st)" by (rule quiet_on_repl) simp
  then show ?thesis by (auto simp: emitMessages_def Let_def quiet_def)
qed

lemma quiet_prune: "prune L entries st = (err, st') \<Longrightarrow> quiet st st'"
proof -
  assume p: "prune L entries st = (err, st')"
  obtain er st1 m where l: "prune_loop L (jm_values entries) (st, []) = (er, st1, m)" by (cases "prune_loop L (jm_values entries) (st, [])") auto
  have "quiet st1 st'" using p l by (cases er) (auto simp: prune_def intro!: quiet_fold quiet_emit)
  then show "quiet st st'" using quiet_prune_loop [OF l] quiet_trans by blast
qed

lemma quiet_clear: "quiet st (pd_clear d st)"
  by (simp add: pd_clear_def quiet_def keyed_by_hash_delete split: option.split)

lemma quiet_reject: "quiet st (pd_reject d st)"
proof -
  have "quiet st (forget_response_set (ef_hash (pd_entry d)) (forget_sent (ef_hash (pd_entry d)) None (pd_clear d st)))"
    using quiet_trans [OF quiet_trans [OF quiet_clear quiet_forget(2)] quiet_forget(3)] .
  then show ?thesis by (simp add: pd_reject_def settle_promise_def quiet_def)
qed

lemma quiet_request_begin: "quiet st (request_begin entry_of h p st)"
proof -
  let ?f = "\<lambda>r. case jm_get (sl_pruneResponses r) h of None \<Rightarrow> r | Some s \<Rightarrow> r\<lparr>sl_pruneResponses := jm_set (sl_pruneResponses r) h (js_remove s p)\<rparr>"
  have "shrinks (sl_pruneResponses r) (sl_pruneResponses (?f r))" for r by (simp add: shrinks_remove split: option.split)
  then have f: "quiet st0 (on_repl ?f st0)" for st0 by (rule quiet_on_repl)
  have "quiet st (on_repl ?f (forget_sent h (Some p) st))" by (rule quiet_trans [OF quiet_forget(2) f])
  moreover have "quiet st0 (on_repl (removePeerFromGidPeerHistory p g) st0)" for st0 g by (simp add: quiet_on_repl)
  ultimately show ?thesis using quiet_trans by (auto simp: request_begin_def Let_def split: option.split)
qed

lemma quiet_next_request: "quiet st (next_request entry_of p has hs st)"
proof (cases hs)
  case (Cons h hs')
  have "quiet st (request_begin entry_of h p st)" by (rule quiet_request_begin)
  then show ?thesis by (simp add: Cons Let_def quiet_def)
qed simp

lemma quiet_request_end: "quiet st (request_end entry_of i b st)"
proof -
  let ?q = "sh_requests st ! i" and ?st1 = "st\<lparr>sh_requests := drop_nth i (sh_requests st)\<rparr>"
  let ?has = "if b then rq_has ?q @ [rq_hash ?q] else rq_has ?q"
  let ?st2 = "if b then ?st1\<lparr>sh_answers := add_answers (?has, [rq_from ?q]) (sh_answers ?st1)\<rparr> else pend_i_have (rq_hash ?q) (rq_from ?q) ?st1"
  have "quiet st ?st2" by (simp add: pend_i_have_def quiet_def)
  moreover have "request_end entry_of i b st = next_request entry_of (rq_from ?q) ?has (rq_rest ?q) ?st2" by (simp add: request_end_def Let_def)
  ultimately show ?thesis using quiet_trans [OF _ quiet_next_request] by metis
qed

lemma quiet_coords: "quiet st (st\<lparr>sh_coords := C\<rparr>)"
  by (simp add: quiet_def)

lemma lbind_Inr: "lbind x f = Some (Inr b) \<Longrightarrow> \<exists>a. x = Some (Inr a) \<and> f a = Some (Inr b)"
  by (auto simp: lbind_def split: option.splits sum.splits)

lemma quiet_request_check: "request_check L now entry_of i st = Some (Inr st') \<Longrightarrow> quiet st st'"
proof -
  assume c: "request_check L now entry_of i st = Some (Inr st')"
  have "st' = request_end entry_of i False st \<or> (\<exists>C. st' = st\<lparr>sh_coords := C\<rparr> \<or> st' = request_end entry_of i True (st\<lparr>sh_coords := C\<rparr>))"
    using c by (auto simp: request_check_def Let_def dest!: lbind_Inr split: option.splits)
  then show "quiet st st'" using quiet_trans [OF quiet_coords quiet_request_end] quiet_coords quiet_request_end by blast
qed

lemma quiet_callback: "callback_check L now i st = Some (Inr st') \<Longrightarrow> quiet st st'"
  by (auto simp: callback_check_def Let_def case_prod_beta quiet_def dest!: lbind_Inr split: option.splits)

lemma quiet_added: "quiet st (sl_onEntryAdded e st)"
proof -
  let ?g = "\<lambda>p. on_repl (removePeerFromGidPeerHistory p (Some (m_gid (ef_meta e))))"
  have s: "quiet st0 (on_repl (\<lambda>r. r\<lparr>sl_sync := f (sl_sync r)\<rparr>) st0)" for st0 f by (simp add: quiet_on_repl)
  have g: "quiet st (?g p st)" for p by (simp add: quiet_on_repl)
  have "quiet st (forget_sent (ef_hash e) (Some p) (?g p st))" for p by (rule quiet_trans [OF g quiet_forget(2)])
  then have c: "quiet st ((forget_sent (ef_hash e) (Some p) (?g p st))\<lparr>sh_callbacks := cs\<rparr>)" for p cs by (simp add: quiet_def)
  show ?thesis
  proof (cases "jm_get (sh_pendingIHave st) (ef_hash e)")
    case None
    then show ?thesis using s by (simp add: sl_onEntryAdded_def)
  next
    case (Some x)
    then show ?thesis using quiet_trans [OF c s] by (cases x) (simp add: sl_onEntryAdded_def Let_def)
  qed
qed

lemma quiet_add: "add_prune e ls st = Inr st' \<Longrightarrow> quiet st st'"
  by (auto simp: add_prune_def quiet_def split: option.splits)

lemma quiet_after_leaders: "after_leaders L e er sync ps st = Inr st' \<Longrightarrow> quiet st st'"
proof -
  assume a: "after_leaders L e er sync ps st = Inr st'"
  have s: "quiet st0 (on_repl (addPeersToGidPeerHistory g qs b) st0)" "quiet st0 (st0\<lparr>sh_answers := A\<rparr>)" "quiet st0 (st0\<lparr>sh_toPrune := T\<rparr>)" for st0 g qs b A T
    by (simp_all add: quiet_def quiet_on_repl on_repl_def)
  have if_quiet: "quiet st0 (if b then f st0 else st0)" if "quiet st0 (f st0)" for st0 b f using that by simp
  define st2 where "st2 = on_repl (addPeersToGidPeerHistory (er_gid er) (jm_keys ps) True)
     (if (case jm_get (sl_gidPeers (sh_repl st)) (er_gid er) of None \<Rightarrow> False | Some old \<Rightarrow> \<exists>p \<in> set old. \<not> jm_has ps p)
      then forget_sent (er_hash er) None st else st)"
  have st2: "quiet st st2" unfolding st2_def by (rule quiet_trans [OF if_quiet [OF quiet_forget(2)] s(1)])
  define st4 where "st4 = st2\<lparr>sh_toPrune := map_del (er_hash er) (sh_toPrune st2)\<rparr>"
  let ?st5 = "case jm_get (sh_pendingDeletes st4) (er_hash er) of None \<Rightarrow> st4 | Some d \<Rightarrow> pd_reject d st4"
  let ?add = "if (case sync of None \<Rightarrow> True | Some f \<Rightarrow> \<not> f er) then add_prune e (Some ps) st2 else Inr st2"
  have "quiet st4 ?st5" by (simp add: quiet_reject split: option.split)
  moreover have "quiet st2 st4" unfolding st4_def by (rule s(3))
  ultimately have led: "quiet st (forget_sent (er_hash er) None ?st5)" using quiet_trans [OF quiet_trans [OF quiet_trans [OF st2]] quiet_forget(2)] by blast
  have not_led: "quiet st (st3\<lparr>sh_answers := A\<rparr>)" if "?add = Inr st3" for st3 A
  proof -
    have "quiet st2 st3" using that quiet_add by (auto split: if_splits)
    then show ?thesis using quiet_trans [OF quiet_trans [OF st2] s(2)] by blast
  qed
  have "after_leaders L e er sync ps st = (if \<not> jm_has ps (me L)
      then bind_sum ?add (\<lambda>st3. Inr (st3\<lparr>sh_answers := map_del (er_hash er) (sh_answers st3)\<rparr>)) else Inr (forget_sent (er_hash er) None ?st5))"
    unfolding after_leaders_def Let_def st2_def [symmetric] st4_def [symmetric] by (rule refl)
  then show ?thesis using a led not_led by (cases ?add) (auto split: if_splits)
qed

lemma quiet_rebalance_entries: "rebalance_entries L now meta_of sync ers (st, dl) = Some (Inr (st', dl')) \<Longrightarrow> quiet st st'"
proof (induction ers arbitrary: st dl)
  case (Cons er ers)
  from Cons.prems obtain st1 dl1 where r: "rebalance_entry L now meta_of sync er (st, dl) = Some (Inr (st1, dl1))" "rebalance_entries L now meta_of sync ers (st1, dl1) = Some (Inr (st', dl'))"
    by (auto dest!: lbind_Inr)
  from r(1) obtain e ps C where "after_leaders L e er sync ps (st\<lparr>sh_coords := C\<rparr>) = Inr st1"
    by (auto simp: rebalance_entry_def Let_def dest!: lbind_Inr)
  then have "quiet st st1" using quiet_trans [OF quiet_coords quiet_after_leaders] by simp
  then show ?case using Cons.IH [OF r(2)] quiet_trans by blast
qed simp

lemma quiet_changes: "onReplicationChange L now rh meta_of sync cs recent st = Some (Inr (st', recent')) \<Longrightarrow> quiet st st'"
proof -
  assume c: "onReplicationChange L now rh meta_of sync cs recent st = Some (Inr (st', recent'))"
  then obtain ers st1 dl f where r: "rebalance_entries L now meta_of sync ers (st, []) = Some (Inr (st1, dl))" "st' = on_repl (\<lambda>r. r\<lparr>sl_sync := f (sl_sync r)\<rparr>) st1"
    by (auto simp: onReplicationChange_def dest!: lbind_Inr split: sum.splits)
  have "quiet st1 st'" unfolding r(2) by (simp add: quiet_on_repl)
  then show "quiet st st'" using quiet_rebalance_entries [OF r(1)] quiet_trans by blast
qed

text \<open>The steps that are not quiet: an answer arrives, an answer counts, an entry is removed.\<close>

lemma quorum_mono: "quorum L received d \<Longrightarrow> set received \<subseteq> set received' \<Longrightarrow> quorum L received' d"
  unfolding quorum_def by blast

lemma responses_ok_mono: "responses_ok L R received \<Longrightarrow> set received \<subseteq> set received' \<Longrightarrow> responses_ok L R received'"
  unfolding responses_ok_def by blast

lemma responses_okD:
  assumes "responses_ok L R received" and "jm_get R h = Some s"
  shows "distinct s" "me L \<notin> set s" "\<And>p. p \<in> set s \<Longrightarrow> (h, p) \<in> set received"
  using assms unfolding responses_ok_def by blast+

lemma responses_ok_set:
  assumes "responses_ok L R received" and "distinct s" and "me L \<notin> set s" and "\<forall>p \<in> set s. (h, p) \<in> set received"
  shows "responses_ok L (jm_set R h s) received"
  unfolding responses_ok_def
proof (intro allI impI)
  fix k u assume get: "jm_get (jm_set R h s) k = Some u"
  show "distinct u \<and> me L \<notin> set u \<and> (\<forall>p \<in> set u. (k, p) \<in> set received)"
  proof (cases "k = h")
    case True
    then have "u = s" using get by simp
    then show ?thesis using assms(2-4) True by blast
  next
    case False
    then have "jm_get R k = Some u" using get by simp
    then show ?thesis using responses_okD [OF assms(1)] by blast
  qed
qed

lemma pruning_okD:
  assumes "pruning_ok L st"
  shows "responses_ok L (responses st) (sh_received st)" "removals_ok L st" "keyed_by_hash (sh_pendingDeletes st)"
  using assms by (simp_all add: pruning_ok_def)

lemma response_ok: "pruning_ok L st \<Longrightarrow> pruning_ok L (onResponseIPrune hashes p st)"
proof (induction hashes arbitrary: st)
  case (Cons h hashes)
  note ok = pruning_okD [OF Cons.prems]
  define st1 where "st1 = st\<lparr>sh_received := sh_received st @ [(h, p)]\<rparr>"
  have "responses_ok L (responses st) (sh_received st @ [(h, p)])" using responses_ok_mono [OF ok(1)] by (simp add: subset_iff)
  then have "responses_ok L (responses st1) (sh_received st1)" by (simp add: st1_def)
  moreover have "quorum L (sh_received st1) d" if "quorum L (sh_received st) d" for d
    using quorum_mono [OF that] by (simp add: st1_def subset_iff)
  then have "removals_ok L st1" using ok(2) by (simp add: removals_ok_def st1_def)
  ultimately have st1: "pruning_ok L st1" using ok(3) by (simp add: pruning_ok_def st1_def)
  define st2 where "st2 = (case jm_get (sh_pendingDeletes st1) h of None \<Rightarrow> st1 | Some d \<Rightarrow> st1\<lparr>sh_waiting := sh_waiting st1 @ [(d, p)]\<rparr>)"
  have "(h, p) \<in> set (sh_received st1)" by (simp add: st1_def)
  then have "pruning_ok L st2" using st1 unfolding st2_def by (auto simp: pruning_ok_def removals_ok_def keyed_by_hash_def split: option.split)
  moreover have "onResponseIPrune (h # hashes) p st = onResponseIPrune hashes p st2" by (simp only: onResponseIPrune_def st1_def st2_def Let_def fold_simps)
  ultimately show ?case using Cons.IH by simp
qed (simp add: onResponseIPrune_def)

lemma clear_keeps [simp]: "responses (pd_clear d st) = responses st" "sh_received (pd_clear d st) = sh_received st"
    "sh_waiting (pd_clear d st) = sh_waiting st" "sh_timers (pd_clear d st) = sh_timers st" "sh_removed (pd_clear d st) = sh_removed st"
  by (simp_all add: pd_clear_def split: option.split)

lemma pd_resolve_ok: "pruning_ok L st \<Longrightarrow> quorum L (sh_received st) d \<Longrightarrow> pruning_ok L (pd_resolve d st)"
  using quiet_ok [OF quiet_clear, of L st d] by (simp add: pruning_ok_def removals_ok_def pd_resolve_def Let_def)

lemma confirm_ok:
  assumes "pruning_ok L st" and "(ef_hash (pd_entry d), p) \<in> set (sh_received st)" and "p \<noteq> me L"
  shows "pruning_ok L (confirm L d p st)"
proof -
  note ok = pruning_okD [OF assms(1)]
  let ?h = "ef_hash (pd_entry d)"
  define old where "old = (case jm_get (responses st) ?h of None \<Rightarrow> [] | Some s \<Rightarrow> s)"
  define s where "s = js_add old p"
  have old: "distinct old \<and> me L \<notin> set old \<and> (\<forall>q \<in> set old. (?h, q) \<in> set (sh_received st))"
  proof (cases "jm_get (responses st) ?h")
    case (Some s0)
    then have "old = s0" by (simp add: old_def)
    then show ?thesis using responses_okD [OF ok(1) Some] by blast
  qed (simp add: old_def)
  have s: "distinct s" "me L \<notin> set s" "\<forall>q \<in> set s. (?h, q) \<in> set (sh_received st)"
    using old assms(2,3) unfolding s_def set_js_add distinct_js_add by blast+
  define st1 where "st1 = on_repl (\<lambda>r. r\<lparr>sl_pruneResponses := jm_set (sl_pruneResponses r) ?h s\<rparr>) st"
  have "responses_ok L (responses st1) (sh_received st1)" 
    using responses_ok_set [OF ok(1) s] by (simp add: st1_def on_repl_def)
  then have st1: "pruning_ok L st1" using ok(2,3) by (simp add: pruning_ok_def removals_ok_def st1_def on_repl_def)
  have "quorum L (sh_received st1) d" if "getClampedReplicas L (Some (pd_min d)) \<le> length s"
    unfolding quorum_def using s that by (intro exI [of _ s]) (simp add: st1_def on_repl_def)
  moreover have "confirm L d p st = (if getClampedReplicas L (Some (pd_min d)) \<le> length s then pd_resolve d st1 else st1)"
    by (simp add: confirm_def Let_def s_def old_def st1_def)
  ultimately show ?thesis using st1 pd_resolve_ok by simp
qed

lemma confirm_check_ok:
  assumes "pruning_ok L st" and i: "i < length (sh_waiting st)" and c: "confirm_check L now i st = Some (Inr st')"
  shows "pruning_ok L st'"
proof -
  obtain d p where dp: "sh_waiting st ! i = (d, p)" by force
  define st1 where "st1 C = st\<lparr>sh_coords := C, sh_waiting := drop_nth i (sh_waiting st)\<rparr>" for C
  have "quiet st (st1 C)" for C using set_drop_nth by (simp add: quiet_def st1_def)
  then have ok1: "pruning_ok L (st1 C)" "pruning_ok L (st\<lparr>sh_coords := C\<rparr>)" for C using quiet_ok [OF _ assms(1)] quiet_coords by blast+
  have "(d, p) \<in> set (sh_waiting st)" using i dp nth_mem [OF i] by simp
  then have received: "(ef_hash (pd_entry d), p) \<in> set (sh_received (st1 C))" for C
    using pruning_okD(2) [OF assms(1)] by (auto simp: removals_ok_def st1_def)
  from c have "\<exists>C. st' = st\<lparr>sh_coords := C\<rparr> \<or> (p \<noteq> me L \<and> st' = confirm L d p (st1 C))"
    by (auto simp: confirm_check_def dp wait_check_def st1_def dest!: lbind_Inr split: if_splits)
  then show ?thesis using ok1 confirm_ok [OF ok1(1) received] by blast
qed

lemma removal_ok:
  assumes "pruning_ok L st" and i: "i < length (sh_timers st)" and r: "removal_fires L now i st = Some (Inr st')"
  shows "pruning_ok L st'"
proof -
  define d where "d = sh_timers st ! i"
  have q: "quorum L (sh_received st) d" using pruning_okD(2) [OF assms(1)] nth_mem [OF i] by (simp add: removals_ok_def d_def)
  define st1 where "st1 = forget_entry (pd_entry d) (st\<lparr>sh_timers := drop_nth i (sh_timers st)\<rparr>)"
  have "quiet st (st\<lparr>sh_timers := drop_nth i (sh_timers st)\<rparr>)" using set_drop_nth by (simp add: quiet_def)
  then have st1: "quiet st st1" unfolding st1_def by (rule quiet_trans [OF _ quiet_forget(4)])
  have settle: "quiet st0 (settle_promise d b st0)" for b st0 by (simp add: settle_promise_def quiet_def)
  define st2 where "st2 C = st1\<lparr>sh_coords := C, sh_removed := sh_removed st1 @ [(pd_entry d, Some d)]\<rparr>" for C
  have "pruning_ok L st1" using quiet_ok [OF st1 assms(1)] .
  moreover have "quorum L (sh_received st1) d" using q st1 by (simp add: quiet_def)
  ultimately have ok2: "pruning_ok L (st2 C)" for C by (auto simp: pruning_ok_def removals_ok_def st2_def)
  from r have "\<exists>C. st' = settle_promise d False (st1\<lparr>sh_coords := C\<rparr>) \<or> st' = settle_promise d True (forget_entry (pd_entry d) (st2 C))"
    by (auto simp: removal_fires_def Let_def d_def [symmetric] st1_def [symmetric] st2_def dest!: lbind_Inr split: if_splits)
  moreover have "pruning_ok L (settle_promise d False (st1\<lparr>sh_coords := C\<rparr>))" for C
    using quiet_ok [OF quiet_trans [OF quiet_trans [OF st1 quiet_coords] settle] assms(1)] .
  moreover have "pruning_ok L (settle_promise d True (forget_entry (pd_entry d) (st2 C)))" for C
    using quiet_ok [OF quiet_trans [OF quiet_forget(4) settle] ok2] .
  ultimately show ?thesis by blast
qed

lemma shared_step_ok: "shared_step L st st' \<Longrightarrow> pruning_ok L st \<Longrightarrow> pruning_ok L st'"
proof (induction rule: shared_step.induct)
  case (replicators st r)
  have "quiet st (st\<lparr>sh_repl := r\<rparr>)" using replicators_shrink [OF replicators(1)] by (simp add: quiet_def)
  then show ?case using quiet_ok replicators(2) by blast
next
  case (asks st err st')
  have "quiet st (st\<lparr>sh_toPrune := []\<rparr>)" by (simp add: quiet_def)
  then have "quiet st st'" using asks(1) quiet_prune quiet_trans unfolding prune_timer_def by blast
  then show ?case using quiet_ok asks(2) by blast
next
  case (gives_up i st)
  have "quiet st (confirm_timeout i st)" using set_drop_nth by (simp add: confirm_timeout_def quiet_def)
  then show ?case using quiet_ok gives_up(2) by blast
next
  case (timeout st hash)
  have "quiet st (prune_timeout hash st)" using quiet_reject by (simp add: prune_timeout_def split: option.split)
  then show ?case using quiet_ok timeout by blast
next
  case (add e leaders st st')
  then show ?case using quiet_ok [OF quiet_add] by blast
next
  case (forgets st hash)
  have "quiet st (i_have_timeout hash st)" by (simp add: i_have_timeout_def quiet_def)
  then show ?case using quiet_ok forgets by blast
next
  case (callback_gives_up i st)
  have "quiet st (callback_timeout i st)" by (simp add: callback_timeout_def quiet_def)
  then show ?case using quiet_ok callback_gives_up(2) by blast
next
  case (cleanup i st)
  have "quiet st (drop_timer i st)" using set_drop_nth by (simp add: drop_timer_def quiet_def)
  then show ?case using quiet_ok cleanup(3) by blast
next
  case (answers st)
  have "quiet st (answer_timer st)" by (simp add: answer_timer_def Let_def quiet_def split: option.split)
  then show ?case using quiet_ok answers by blast
next
  case (request st entry_of hashes p)
  then show ?case using quiet_ok [OF quiet_next_request] by (simp add: onRequestIPrune_def)
next
  case (request_gives_up i st entry_of)
  then show ?case using quiet_ok [OF quiet_request_end] by (simp add: request_timeout_def)
qed (rule response_ok confirm_check_ok removal_ok quiet_ok [OF quiet_unchecked] quiet_ok [OF quiet_request_check] quiet_ok [OF quiet_added]
    quiet_ok [OF quiet_callback] quiet_ok [OF quiet_changes]; assumption)+

section \<open>Properties\<close>

lemma open_shared_ok: "pruning_ok L (open_shared r C)"
  by (simp add: open_shared_def pruning_ok_def responses_ok_def removals_ok_def keyed_by_hash_def)

lemma shared_run_ok: "(shared_step L)\<^sup>*\<^sup>* st st' \<Longrightarrow> pruning_ok L st \<Longrightarrow> pruning_ok L st'"
  by (induction rule: rtranclp_induct) (auto intro: shared_step_ok)


text \<open>A run: one peer holds the ring, answers, and the entry is removed.\<close>

definition prune_env_ex :: leader_env where
  "prune_env_ex = leader_env_ex\<lparr>le_min := 1\<rparr>"

definition pruned_ex :: entry_ref where
  "pruned_ex = \<lparr>ef_hash = ''e'', ef_meta = meta_at 1 []\<rparr>"

definition opened_ex :: shared where
  "opened_ex = open_shared (replicators_of [(arc 0 300)\<lparr>mode := NonStrict\<rparr>]) \<lparr>co_index = [], co_hashes = projr (new_Cache 10 None)\<rparr>"

definition asked_ex :: shared where
  "asked_ex = snd (prune_timer prune_env_ex (opened_ex\<lparr>sh_toPrune := [(''e'', pruned_ex, Some [(''a'', True)])]\<rparr>))"

definition confirmed_ex :: "shared leader_result" where
  "confirmed_ex = confirm_check prune_env_ex 5000 0 (onResponseIPrune [''e''] ''a'' asked_ex)"

lemma confirmed_ex_waits: "length (sh_waiting (onResponseIPrune [''e''] ''a'' asked_ex)) = 1"
  by code_simp

lemma confirmed_ex_run:
  assumes "confirmed_ex = Some (Inr st)"
  shows "(shared_step prune_env_ex)\<^sup>*\<^sup>* opened_ex st"
proof -
  let ?st1 = "opened_ex\<lparr>sh_toPrune := [(''e'', pruned_ex, Some [(''a'', True)])]\<rparr>"
  have "add_prune pruned_ex (Some [(''a'', True)]) opened_ex = Inr ?st1"
    by (simp add: add_prune_def opened_ex_def open_shared_def pruned_ex_def)
  then have "shared_step prune_env_ex opened_ex ?st1" by (rule shared_step.add)
  moreover have "shared_step prune_env_ex ?st1 asked_ex" unfolding asked_ex_def by (rule shared_step.asks [OF prod.collapse [symmetric]])
  moreover have "shared_step prune_env_ex asked_ex (onResponseIPrune [''e''] ''a'' asked_ex)" by (rule shared_step.response)
  moreover have "shared_step prune_env_ex (onResponseIPrune [''e''] ''a'' asked_ex) st"
    using assms confirmed_ex_waits unfolding confirmed_ex_def by (intro shared_step.check [of 0]) simp_all
  ultimately show ?thesis by (meson converse_rtranclp_into_rtranclp rtranclp.rtrancl_refl)
qed

definition removed_as :: "shared leader_result \<Rightarrow> entry_ref \<Rightarrow> pending_delete \<Rightarrow> bool" where
  "removed_as x e d = (case x of Some (Inr st) \<Rightarrow> (e, Some d) \<in> set (sh_removed st) | _ \<Rightarrow> False)"

definition pending_ex :: pending_delete where
  "pending_ex = \<lparr>pd_entry = pruned_ex, pd_min = 1, pd_promise = 0\<rparr>"

lemma pruned_ex_removed: "(case confirmed_ex of Some (Inr st) \<Rightarrow> length (sh_timers st) = 1 \<and> removed_as (removal_fires prune_env_ex 9000 0 st) pruned_ex pending_ex | _ \<Rightarrow> False)"
  by code_simp



end
