(* ===== verification/Controller.thy ===== *)
theory Controller
  imports Complex_Main Prelude
begin

text \<open>
  The controller of adaptive replication: \<open>packages/programs/data/shared-log/src/pid.ts\<close>, and the estimate of the load of
  the processor in \<open>cpu.ts\<close>. Numbers of the code are reals here: rounding of floating point numbers is not
  modelled, and a limit that is not given is \<open>None\<close>. Where the code asks whether a limit is truthy, a limit
  of \<open>0\<close> counts as not given.

  Shown: with inputs in their ranges the error and the accumulated error stay bounded along every run and the
  factor is in the unit interval, a balanced and fully covered ring is a fixed point, missing coverage raises
  the factor; the estimate of the load is the mean of the window and in the unit interval; and two defects.
\<close>

section \<open>PIDReplicationController\<close>

record pid =
  integral :: real
  prevError :: real
  prevMemoryUsage :: real
  prevTotalFactor :: real
  kp :: real
  ki :: real
  kd :: real
  maxMemoryLimit :: "real option"
  maxCPUUsage :: "real option"

definition pid_reset :: "pid \<Rightarrow> pid" where
  "pid_reset c = c\<lparr>prevError := 0, integral := 0, prevMemoryUsage := 0\<rparr>"

definition default_to :: "real \<Rightarrow> real option \<Rightarrow> real" where
  "default_to d x = (case x of None \<Rightarrow> d | Some v \<Rightarrow> v)"

text \<open>\<open>prevTotalFactor\<close> is not set before the first step.\<close>

definition new_PIDReplicationController ::
  "real option \<Rightarrow> real option \<Rightarrow> real option \<Rightarrow> real option \<Rightarrow> real option \<Rightarrow> real \<Rightarrow> pid" where
  "new_PIDReplicationController memory cpu p i d unset =
     pid_reset \<lparr>integral = 0, prevError = 0, prevMemoryUsage = 0, prevTotalFactor = unset,
       kp = default_to (7 / 10) p, ki = default_to (25 / 1000) i, kd = default_to (5 / 100) d,
       maxMemoryLimit = memory, maxCPUUsage = cpu\<rparr>"

record pid_input =
  memoryUsage :: real
  currentFactor :: real
  totalFactor :: real
  peerCount :: real
  cpuUsage :: "real option"

text \<open>A limit that is given and not \<open>0\<close>.\<close>

definition truthy :: "real option \<Rightarrow> bool" where
  "truthy x \<longleftrightarrow> (case x of None \<Rightarrow> False | Some v \<Rightarrow> v \<noteq> 0)"

definition errorMemory :: "pid \<Rightarrow> pid_input \<Rightarrow> real" where
  "errorMemory c x =
     (let estimatedTotalSize = (if currentFactor x > 0 then memoryUsage x / currentFactor x else 100000)
      in case maxMemoryLimit c of
           None \<Rightarrow> 0
         | Some limit \<Rightarrow>
             if currentFactor x > 0 \<and> memoryUsage x > 0
             then max (min 1 (limit / estimatedTotalSize)) 0 - currentFactor x else 0)"

definition errorCoverage :: "pid \<Rightarrow> pid_input \<Rightarrow> real" where
  "errorCoverage c x =
     (if truthy (maxMemoryLimit c) then 1 - sqrt \<bar>errorMemory c x\<bar> else 1) * min (1 - totalFactor x) 1"

definition errorBalance :: "pid \<Rightarrow> pid_input \<Rightarrow> real" where
  "errorBalance c x =
     (let errorFromEven = 1 / peerCount x - currentFactor x;
          balanceErrorScaler = (if truthy (maxMemoryLimit c) then \<bar>errorMemory c x\<bar> else 1 - \<bar>errorCoverage c x\<bar>)
      in if (if truthy (maxMemoryLimit c) then errorMemory c x > 0 else True)
         then (if errorFromEven > 0 then balanceErrorScaler * errorFromEven else 0) else 0)"

definition errorCPU :: "pid_input \<Rightarrow> real" where
  "errorCPU x = (if peerCount x > 1 then - default_to 0 (cpuUsage x) else 0)"

definition totalError :: "pid \<Rightarrow> pid_input \<Rightarrow> real" where
  "totalError c x =
     (let e1 = errorBalance c x * (6 / 10) + errorCoverage c x * (1 - 6 / 10);
          e2 = (if errorMemory c x < 0 then errorMemory c x * (9 / 10) + e1 * (1 - 9 / 10) else e1)
      in case maxCPUUsage c of
           None \<Rightarrow> e2
         | Some m \<Rightarrow> if default_to 0 (cpuUsage x) > m then e2 * (1 - 5 / 10) + (5 / 10) * (errorCPU x - m) else e2)"

definition pid_step :: "pid \<Rightarrow> pid_input \<Rightarrow> real \<times> pid" where
  "pid_step c x =
     (let e = totalError c x;
          pTerm = kp c * e;
          accumulated = integral c + e;
          beta = 3 / 10;
          i = beta * e + (1 - beta) * accumulated;
          iTerm = ki c * i;
          dTerm = kd c * (e - prevError c);
          newFactor = currentFactor x + (pTerm + iTerm + dTerm);
          i' = (if newFactor < 0 \<and> i < 0 then 0 else if newFactor > 1 \<and> i > 0 then 0 else i)
      in (max (min newFactor 1) 0,
          c\<lparr>prevTotalFactor := totalFactor x, prevMemoryUsage := memoryUsage x, integral := i', prevError := e\<rparr>))"

section \<open>CPUUsageIntervalLag\<close>

record cpu_properties =
  windowSize :: nat
  intervalTime :: real
  upperBoundLag :: real

record cpu =
  cpu_dt :: "real list"
  cpu_sum :: real
  cpu_ts :: real

definition cpu_mean :: "cpu \<Rightarrow> real" where
  "cpu_mean c = cpu_sum c / real (length (cpu_dt c))"

definition cpu_value :: "cpu_properties \<Rightarrow> cpu \<Rightarrow> real" where
  "cpu_value P c = min (max (cpu_mean c - intervalTime P) 0) (upperBoundLag P) / upperBoundLag P"

definition cpu_start :: "cpu_properties \<Rightarrow> real \<Rightarrow> cpu" where
  "cpu_start P now = \<lparr>cpu_dt = replicate (windowSize P) (intervalTime P), cpu_sum = real (windowSize P) * intervalTime P, cpu_ts = now\<rparr>"

text \<open>The callback of the interval. The window is not empty: \<open>shift\<close> of an empty one would make the sum \<open>NaN\<close>.\<close>

definition cpu_tick :: "real \<Rightarrow> cpu \<Rightarrow> cpu" where
  "cpu_tick now c =
     (let dt = now - cpu_ts c
      in \<lparr>cpu_dt = tl (cpu_dt c) @ [dt], cpu_sum = cpu_sum c - hd (cpu_dt c) + dt, cpu_ts = now\<rparr>)"

section \<open>Lemmas\<close>

text \<open>Inputs in their ranges: fractions of the ring, at least one peer, and at most two copies of the ring in total.\<close>

definition input_ok :: "pid_input \<Rightarrow> bool" where
  "input_ok x \<longleftrightarrow> 0 \<le> currentFactor x \<and> currentFactor x \<le> 1 \<and> 0 \<le> totalFactor x \<and> totalFactor x \<le> 2 \<and> 1 \<le> peerCount x \<and>
     0 \<le> default_to 0 (cpuUsage x) \<and> default_to 0 (cpuUsage x) \<le> 1"

definition limits_ok :: "pid \<Rightarrow> bool" where
  "limits_ok c \<longleftrightarrow> (\<forall>m. maxCPUUsage c = Some m \<longrightarrow> 0 \<le> m \<and> m \<le> 1)"

lemma errorMemory_bounds:
  assumes "input_ok x"
  shows "- 1 \<le> errorMemory c x" "errorMemory c x \<le> 1"
  using assms by (auto simp: errorMemory_def input_ok_def Let_def split: option.split)

lemma abs_mult_le_1: "\<bar>a\<bar> \<le> (1 :: real) \<Longrightarrow> \<bar>b\<bar> \<le> 1 \<Longrightarrow> \<bar>a * b\<bar> \<le> 1"
  using mult_mono [of "\<bar>a\<bar>" 1 "\<bar>b\<bar>" 1] by (simp add: abs_mult)

lemma errorCoverage_bounds:
  assumes "input_ok x"
  shows "\<bar>errorCoverage c x\<bar> \<le> 1"
proof -
  have "\<bar>errorMemory c x\<bar> \<le> 1" using errorMemory_bounds [OF assms, of c] by (simp add: abs_le_iff)
  then have "sqrt \<bar>errorMemory c x\<bar> \<le> 1" by simp
  then have "\<bar>1 - sqrt \<bar>errorMemory c x\<bar>\<bar> \<le> 1" by (simp add: abs_le_iff)
  moreover have "\<bar>min (1 - totalFactor x) 1\<bar> \<le> 1" using assms by (auto simp: input_ok_def)
  ultimately show ?thesis unfolding errorCoverage_def by (intro abs_mult_le_1) auto
qed

lemma errorBalance_bounds:
  assumes "input_ok x"
  shows "0 \<le> errorBalance c x" "errorBalance c x \<le> 1"
proof -
  let ?s = "if truthy (maxMemoryLimit c) then \<bar>errorMemory c x\<bar> else 1 - \<bar>errorCoverage c x\<bar>" and ?e = "1 / peerCount x - currentFactor x"
  have s: "0 \<le> ?s" "?s \<le> 1" using errorMemory_bounds [OF assms, of c] errorCoverage_bounds [OF assms, of c] by (auto simp: abs_le_iff)
  have "1 / peerCount x \<le> 1" "0 \<le> currentFactor x" using assms by (auto simp: input_ok_def)
  then have e: "?e \<le> 1" by linarith
  have "0 \<le> ?s * ?e" if "0 < ?e" using s(1) that by (intro mult_nonneg_nonneg) auto
  then show "0 \<le> errorBalance c x" by (auto simp: errorBalance_def Let_def)
  have "?s * ?e \<le> 1" if "0 < ?e" using s e mult_mono [of ?s 1 ?e 1] that by auto
  then show "errorBalance c x \<le> 1" by (auto simp: errorBalance_def Let_def)
qed

lemma totalError_bounds:
  assumes "input_ok x" and "limits_ok c"
  shows "\<bar>totalError c x\<bar> \<le> 3 / 2"
proof -
  let ?e1 = "errorBalance c x * (6 / 10) + errorCoverage c x * (1 - 6 / 10)"
  let ?e2 = "if errorMemory c x < 0 then errorMemory c x * (9 / 10) + ?e1 * (1 - 9 / 10) else ?e1"
  note b = errorBalance_bounds [OF assms(1), of c] errorCoverage_bounds [OF assms(1), of c] errorMemory_bounds [OF assms(1), of c]
  have "\<bar>?e1\<bar> \<le> 1" using b by (simp add: abs_le_iff)
  moreover have "\<bar>errorMemory c x * (9 / 10) + ?e1 * (1 - 9 / 10)\<bar> \<le> 1" if "\<bar>?e1\<bar> \<le> 1"
    using b(4,5) that by (simp only: abs_le_iff) argo
  ultimately have e2: "\<bar>?e2\<bar> \<le> 1" by (auto split: if_split)
  show ?thesis
  proof (cases "maxCPUUsage c")
    case None
    then have "totalError c x = ?e2" by (simp add: totalError_def Let_def)
    then show ?thesis using e2 by simp
  next
    case (Some m)
    then have "0 \<le> m" "m \<le> 1" using assms(2) by (auto simp: limits_ok_def)
    moreover have "- 1 \<le> errorCPU x" "errorCPU x \<le> 0" using assms(1) by (auto simp: errorCPU_def input_ok_def)
    ultimately have "\<bar>errorCPU x - m\<bar> \<le> 2" by (simp add: abs_le_iff)
    then have "\<bar>?e2 * (1 - 5 / 10) + (5 / 10) * (errorCPU x - m)\<bar> \<le> 3 / 2" using e2 unfolding abs_le_iff by argo
    moreover have "totalError c x = (if default_to 0 (cpuUsage x) > m then ?e2 * (1 - 5 / 10) + (5 / 10) * (errorCPU x - m) else ?e2)"
      using Some by (simp add: totalError_def Let_def)
    ultimately show ?thesis using e2 by simp
  qed
qed

lemma integral_step:
  assumes "input_ok x" and "limits_ok c" and "\<bar>integral c\<bar> \<le> 5"
  shows "\<bar>integral (snd (pid_step c x))\<bar> \<le> 5"
proof -
  have "\<bar>3 / 10 * totalError c x + (1 - 3 / 10) * (integral c + totalError c x)\<bar> \<le> 5"
    using totalError_bounds [OF assms(1,2)] assms(3) unfolding abs_le_iff by argo
  then show ?thesis by (simp add: pid_step_def Let_def)
qed

lemma pid_step_simps [simp]:
  "maxCPUUsage (snd (pid_step c x)) = maxCPUUsage c" "maxMemoryLimit (snd (pid_step c x)) = maxMemoryLimit c"
  "kp (snd (pid_step c x)) = kp c" "ki (snd (pid_step c x)) = ki c" "kd (snd (pid_step c x)) = kd c"
  "prevError (snd (pid_step c x)) = totalError c x"
  by (simp_all add: pid_step_def Let_def)

text \<open>Steps of a controller, each with its own input, as \<open>rebalanceParticipation\<close> makes them.\<close>

definition pid_run :: "pid \<Rightarrow> pid_input list \<Rightarrow> pid" where
  "pid_run c xs = fold (\<lambda>x c. snd (pid_step c x)) xs c"

lemma pid_run_bounded:
  assumes "\<forall>x \<in> set xs. input_ok x" and "limits_ok c" and "\<bar>integral c\<bar> \<le> 5" and "\<bar>prevError c\<bar> \<le> 3 / 2"
  shows "limits_ok (pid_run c xs) \<and> \<bar>integral (pid_run c xs)\<bar> \<le> 5 \<and> \<bar>prevError (pid_run c xs)\<bar> \<le> 3 / 2"
  using assms
proof (induction xs arbitrary: c)
  case (Cons x xs)
  have "limits_ok (snd (pid_step c x))" using Cons.prems(2) by (simp add: limits_ok_def)
  moreover have "\<bar>integral (snd (pid_step c x))\<bar> \<le> 5" using Cons.prems by (intro integral_step) auto
  moreover have "\<bar>prevError (snd (pid_step c x))\<bar> \<le> 3 / 2" using totalError_bounds [of x c] Cons.prems by simp
  ultimately show ?case using Cons.IH [of "snd (pid_step c x)"] Cons.prems(1) by (simp add: pid_run_def)
qed (simp add: pid_run_def)

lemma cpu_tick_window: "cpu_dt c \<noteq> [] \<Longrightarrow> cpu_sum c = sum_list (cpu_dt c) \<Longrightarrow>
    cpu_sum (cpu_tick now c) = sum_list (cpu_dt (cpu_tick now c)) \<and> length (cpu_dt (cpu_tick now c)) = length (cpu_dt c)"
  by (cases "cpu_dt c") (simp_all add: cpu_tick_def Let_def)

lemma cpu_ticks_window:
  "cpu_dt c \<noteq> [] \<Longrightarrow> cpu_sum c = sum_list (cpu_dt c) \<Longrightarrow>
     cpu_sum (fold cpu_tick ts c) = sum_list (cpu_dt (fold cpu_tick ts c)) \<and> length (cpu_dt (fold cpu_tick ts c)) = length (cpu_dt c)"
proof (induction ts arbitrary: c)
  case (Cons t ts)
  note w = cpu_tick_window [OF Cons.prems, of t]
  then have "cpu_dt (cpu_tick t c) \<noteq> []" using Cons.prems(1) by (metis length_0_conv)
  with w show ?case using Cons.IH [of "cpu_tick t c"] by simp
qed simp

section \<open>Properties\<close>


definition pid_ex :: pid where
  "pid_ex = new_PIDReplicationController None None None None None 0"


text \<open>A balanced and exactly covered ring is a fixed point of a settled controller, and below the even share missing
  coverage raises the factor.\<close>

theorem pid_settles:
  assumes "maxMemoryLimit c = None" and "maxCPUUsage c = None" and "integral c = 0" and "prevError c = 0"
    and "0 \<le> currentFactor x" and "currentFactor x \<le> 1" and "1 \<le> peerCount x"
  shows "totalFactor x = 1 \<Longrightarrow> currentFactor x \<ge> 1 / peerCount x \<Longrightarrow> fst (pid_step c x) = currentFactor x"
    and "0 \<le> totalFactor x \<Longrightarrow> totalFactor x < 1 \<Longrightarrow> kp c > 0 \<Longrightarrow> ki c \<ge> 0 \<Longrightarrow> kd c \<ge> 0 \<Longrightarrow> currentFactor x < 1 \<Longrightarrow> fst (pid_step c x) > currentFactor x"
proof -
  have cov: "errorCoverage c x = min (1 - totalFactor x) 1" using assms(1) by (simp add: errorCoverage_def truthy_def)
  have mem: "errorMemory c x = 0" using assms(1) by (simp add: errorMemory_def Let_def)
  have err: "totalError c x = errorBalance c x * (6 / 10) + errorCoverage c x * (1 - 6 / 10)" using assms(2) mem by (simp add: totalError_def Let_def)
  have step: "fst (pid_step c x) = max (min (currentFactor x + (kp c + ki c + kd c) * totalError c x) 1) 0"
    using assms(3,4) by (simp add: pid_step_def Let_def algebra_simps)
  show "fst (pid_step c x) = currentFactor x" if "totalFactor x = 1" "currentFactor x \<ge> 1 / peerCount x"
  proof -
    have "errorBalance c x = 0" using that(2) by (simp add: errorBalance_def Let_def)
    then have "totalError c x = 0" using err cov that(1) by simp
    with step assms(5,6) show ?thesis by simp
  qed
  show "fst (pid_step c x) > currentFactor x" if "0 \<le> totalFactor x" "totalFactor x < 1" "kp c > 0" "ki c \<ge> 0" "kd c \<ge> 0" "currentFactor x < 1"
  proof -
    have "0 \<le> errorBalance c x"
      using assms(1,7) that(1,2) cov by (auto simp: errorBalance_def Let_def truthy_def intro!: mult_nonneg_nonneg)
    moreover have "errorCoverage c x > 0" using cov that(1,2) by simp
    ultimately have "totalError c x > 0" using err by argo
    then have "(kp c + ki c + kd c) * totalError c x > 0" using that(3-5) by simp
    with step that(6) assms(5) show ?thesis by (simp add: max_def min_def)
  qed
qed

text \<open>The estimate of the load: after every sequence of readings the sum is the sum of the window, the window keeps its size,
  and the estimate is in the unit interval.\<close>

theorem cpu_value_bounds:
  assumes "windowSize P > 0" and "upperBoundLag P > 0" and "c = fold cpu_tick ts (cpu_start P now)"
  shows "cpu_sum c = sum_list (cpu_dt c) \<and> length (cpu_dt c) = windowSize P \<and> 0 \<le> cpu_value P c \<and> cpu_value P c \<le> 1"
proof -
  have "cpu_dt (cpu_start P now) \<noteq> []" "cpu_sum (cpu_start P now) = sum_list (cpu_dt (cpu_start P now))"
    using assms(1) by (simp_all add: cpu_start_def sum_list_replicate)
  from cpu_ticks_window [OF this, of ts] show ?thesis using assms by (auto simp: cpu_start_def cpu_value_def)
qed

text \<open>A higher limit of the load makes the controller lower the factor more, once the limit is exceeded: the limit is
  subtracted from the negative load instead of compared with it.\<close>

theorem cpu_limit_penalises:
  assumes "m < m'" and "m' < u" and "cpuUsage x = Some u"
  shows "totalError (c\<lparr>maxCPUUsage := Some m'\<rparr>) x < totalError (c\<lparr>maxCPUUsage := Some m\<rparr>) x"
proof -
  have "errorMemory (c\<lparr>maxCPUUsage := l\<rparr>) x = errorMemory c x" for l by (simp add: errorMemory_def)
  then have "errorCoverage (c\<lparr>maxCPUUsage := l\<rparr>) x = errorCoverage c x" "errorBalance (c\<lparr>maxCPUUsage := l\<rparr>) x = errorBalance c x"
      "errorMemory (c\<lparr>maxCPUUsage := l\<rparr>) x = errorMemory c x" for l by (simp_all add: errorCoverage_def errorBalance_def Let_def)
  then show ?thesis using assms by (simp add: totalError_def Let_def default_to_def)
qed

theorem cpu_limit_penalises_witness:
  "totalError (pid_ex\<lparr>maxCPUUsage := Some (1 / 2)\<rparr>) \<lparr>memoryUsage = 0, currentFactor = 1 / 4, totalFactor = 1, peerCount = 2, cpuUsage = Some 1\<rparr> <
   totalError (pid_ex\<lparr>maxCPUUsage := Some (1 / 4)\<rparr>) \<lparr>memoryUsage = 0, currentFactor = 1 / 4, totalFactor = 1, peerCount = 2, cpuUsage = Some 1\<rparr>"
  by (rule cpu_limit_penalises [of _ _ 1]) simp_all

text \<open>A storage limit of \<open>0\<close> does not keep a peer from replicating: a fresh controller gives a peer without any
  range 31 hundredths of the ring.\<close>

theorem zero_storage_replicates:
  "fst (pid_step (new_PIDReplicationController (Some 0) None None None None 0)
     \<lparr>memoryUsage = 0, currentFactor = 0, totalFactor = 0, peerCount = 2, cpuUsage = None\<rparr>) = 31 / 100"
  by (simp add: pid_step_def new_PIDReplicationController_def pid_reset_def totalError_def errorBalance_def errorCoverage_def errorMemory_def
      truthy_def default_to_def Let_def)

end
