(* ===== verification/Participation.thy ===== *)
theory Participation
  imports Replicators Controller
begin

text \<open>
  What a peer replicates itself: \<open>replicate\<close>, \<open>unreplicate\<close> and \<open>rebalanceParticipation\<close> of
  \<open>packages/programs/data/shared-log/src/index.ts\<close>. Options become ranges of the ring, which are merged with the own ranges or
  added to them, announced, and, when replication is adaptive, resized by the controller of \<open>Controller\<close>.

  Fractions of the ring are reals, coordinates are integers; the conversion \<open>denormalize\<close> of \<open>integers.ts\<close> is exact here, without the
  rounding of floating point numbers. Fresh ids and random numbers, the memory in use and the load of the
  processor are arguments. The id of the adaptive range and the coordinate of the own key are parameters.

  Shown: every operation keeps the invariant of \<open>Replicators\<close> and only touches own ranges, the adaptive range after a
  step has the width the controller asked for, stopping leaves no own range; and two defects.
\<close>

section \<open>Numbers\<close>

text \<open>\<open>Math.round\<close>, and \<open>Number(MAX_U64)\<close>, which is \<open>2 ^ 64\<close>.\<close>

definition round_half :: "real \<Rightarrow> int" where
  "round_half x = \<lfloor>x + 1 / 2\<rfloor>"

fun number_of_max :: "resolution \<Rightarrow> real" where
  "number_of_max U32 = real_of_int MAX_U32"
| "number_of_max U64 = 2 ^ 64"

definition denormalize :: "resolution \<Rightarrow> real \<Rightarrow> int" where
  "denormalize res v = (let result = round_half (v * number_of_max res) in if result > maxValue res then maxValue res else result)"

definition widthNormalized :: "range \<Rightarrow> real" where
  "widthNormalized r = real_of_int (width r) / number_of_max (r_res r)"

section \<open>Options\<close>

datatype 'a factor = Factor 'a | FactorAll | FactorRight

text \<open>Factor and offset, normalized or as coordinates.\<close>

datatype fixed_values = Normalized "real factor" "real option" | Coordinates "int factor" "int option"

record fixed_options =
  fx_id :: "nat list option"
  fx_values :: fixed_values
  fx_strict :: bool

record limits =
  lm_storage :: "real option"
  lm_cpu :: "real option"

text \<open>\<open>ReplicateTrue\<close> stands for \<open>true\<close>, \<open>undefined\<close> and \<open>{}\<close>.\<close>

datatype replication_options =
    ReplicateFalse
  | ReplicateTrue
  | Resume
  | FactorNumber real
  | Adaptive limits
  | Fixed fixed_options
  | FixedList "fixed_options list"
  | FromMessage rangeMessage

definition isUnreplicationOptions :: "resolution \<Rightarrow> replication_options \<Rightarrow> bool" where
  "isUnreplicationOptions res options =
     (case options of
        ReplicateFalse \<Rightarrow> True
      | FactorNumber x \<Rightarrow> x = 0
      | Fixed f \<Rightarrow> (case fx_values f of
            Normalized (Factor x) None \<Rightarrow> x = 0
          | Coordinates (Factor n) None \<Rightarrow> n = 0 \<and> res = U32
          | _ \<Rightarrow> False)
      | _ \<Rightarrow> False)"

record participation =
  pt_repl :: replicators
  pt_isReplicating :: bool
  pt_isAdaptive :: bool
  pt_controller :: "pid option"

datatype offset_arg = NormalizedOffset real | CoordinateOffset int

record participation_env =
  pn_sl :: sl_env
  pn_dynamicId :: "nat list"
  pn_keyNumber :: int
  pn_offset :: "offset_arg option"
  pn_canMerge :: "(range \<Rightarrow> range \<Rightarrow> bool) option"

definition env_at :: "participation_env \<Rightarrow> participation \<Rightarrow> sl_env" where
  "env_at P p = pn_sl P\<lparr>sl_isReplicating := pt_isReplicating p\<rparr>"

definition add_defaults :: add_options where
  "add_defaults = \<lparr>ao_reset = False, ao_checkDuplicates = False, ao_timestamp = None, ao_rebalance = True\<rparr>"

section \<open>The adaptive range\<close>

definition getDynamicRangeOffset :: "participation_env \<Rightarrow> int" where
  "getDynamicRangeOffset P =
     (case pn_offset P of
        Some (NormalizedOffset x) \<Rightarrow> denormalize (sl_res (pn_sl P)) x
      | Some (CoordinateOffset n) \<Rightarrow> n
      | None \<Rightarrow> pn_keyNumber P)"

text \<open>The range is added, with width 0, when it is not known yet; \<open>None\<close> when this peer may not replicate.\<close>

definition getDynamicRange :: "participation_env \<Rightarrow> int \<Rightarrow> participation \<Rightarrow> sl_error + range option \<times> participation" where
  "getDynamicRange P now p =
     (let S = env_at P p
      in bind_sum (ranges_of S (sl_index (pt_repl p)) (QueryList [id_match (pn_dynamicId P)])) (\<lambda>known.
         case known of
           r # _ \<Rightarrow> Inr (Some r, p)
         | [] \<Rightarrow>
             bind_sum (lift_range (make_range (sl_res S) (pn_dynamicId P) (sl_me S) (getDynamicRangeOffset P) 0 (Some NonStrict) (Some now))) (\<lambda>r.
             bind_sum (addReplicationRange S now [r] (sl_me S) add_defaults (pt_repl p)) (\<lambda>(added, st).
               Inr (case added of None \<Rightarrow> None | Some _ \<Rightarrow> Some r, p\<lparr>pt_repl := st\<rparr>)))))"

definition setupDebouncedRebalancing :: "limits \<Rightarrow> participation \<Rightarrow> participation" where
  "setupDebouncedRebalancing lims p =
     p\<lparr>pt_controller := Some (new_PIDReplicationController (lm_storage lims) (lm_cpu lims) None None None 0)\<rparr>"

section \<open>Fixed ranges\<close>

text \<open>One range from its options: \<open>x\<close> is a fresh id and a random fraction. The timestamp of a range with a known id is kept.\<close>

definition fixed_range :: "participation_env \<Rightarrow> int \<Rightarrow> range hashmap \<Rightarrow> nat list \<times> real \<Rightarrow> fixed_options \<Rightarrow> sl_error + range" where
  "fixed_range P now idx x f =
     (let res = sl_res (pn_sl P);
          timestamp = (case fx_id f of
                         None \<Rightarrow> None
                       | Some i \<Rightarrow> map_option (\<lambda>(_, r). r_timestamp r) (hm_get (sl_engine (pn_sl P)) idx (Uint8ArrayKey i)));
          offset = (case fx_values f of
                      Normalized _ (Some v) \<Rightarrow> denormalize res v
                    | Coordinates _ (Some n) \<Rightarrow> n
                    | _ \<Rightarrow> denormalize res (snd x));
          wid = (case fx_values f of
                   Normalized (Factor v) _ \<Rightarrow> denormalize res v
                 | Coordinates (Factor n) _ \<Rightarrow> n
                 | Normalized FactorRight _ \<Rightarrow> maxValue res - offset
                 | Coordinates FactorRight _ \<Rightarrow> maxValue res - offset
                 | _ \<Rightarrow> maxValue res)
      in lift_range (make_range res (case fx_id f of None \<Rightarrow> fst x | Some i \<Rightarrow> i) (sl_me (pn_sl P)) offset wid
           (Some (if fx_strict f then Strict else NonStrict)) (Some (case timestamp of None \<Rightarrow> now | Some t \<Rightarrow> t))))"

definition offset_given :: "fixed_options \<Rightarrow> bool" where
  "offset_given f = (case fx_values f of Normalized _ v \<Rightarrow> v \<noteq> None | Coordinates _ n \<Rightarrow> n \<noteq> None)"

fun fixed_ranges :: "participation_env \<Rightarrow> int \<Rightarrow> range hashmap \<Rightarrow> (nat \<Rightarrow> nat list \<times> real) \<Rightarrow> nat \<Rightarrow> fixed_options list \<Rightarrow> sl_error + range list" where
  "fixed_ranges P now idx fresh i [] = Inr []"
| "fixed_ranges P now idx fresh i (f # fs) =
     bind_sum (fixed_range P now idx (fresh i) f) (\<lambda>r. bind_sum (fixed_ranges P now idx fresh (Suc i) fs) (\<lambda>rs. Inr (r # rs)))"

text \<open>The ranges are merged into one, together with own ranges of the index that touch it and that the domain lets merge; those are
  then to be removed unless the merged range has their id.\<close>

definition merge_ranges :: "participation_env \<Rightarrow> range hashmap \<Rightarrow> nat list \<Rightarrow> range list \<Rightarrow> sl_error + range \<times> range list" where
  "merge_ranges P idx newId rs =
     bind_sum (lift_range (mergeRanges newId rs)) (\<lambda>r.
       case pn_canMerge P of
         None \<Rightarrow> Inr (r, [])
       | Some canMerge \<Rightarrow>
           bind_sum (lift_range_index (getAllMergeCandiates (sl_engine (pn_sl P)) idx r)) (\<lambda>candidates.
             let mergeable = filter (\<lambda>c. canMerge c r) (jm_values candidates);
                 toKeep = map r_id (filter (\<lambda>c. \<not> canMerge c r) (jm_values candidates))
             in bind_sum (if length mergeable > 0 then lift_range (mergeRanges newId (mergeable @ [r])) else Inr r) (\<lambda>r'.
                  Inr (r', filter (\<lambda>c. r_id c \<noteq> r_id r' \<and> r_id c \<notin> set toKeep) (jm_values candidates)))))"

section \<open>Stopping\<close>

datatype unreplicate_arg = UnreplicateAll | UnreplicateEntry int | UnreplicateIds "nat list list"

datatype participation_error = Replicators_error sl_error | Unsupported_when_adaptive

fun lift_replicators :: "sl_error + 'a \<Rightarrow> participation_error + 'a" where
  "lift_replicators (Inl e) = Inl (Replicators_error e)"
| "lift_replicators (Inr a) = Inr a"

text \<open>\<open>UnreplicateEntry\<close> has the coordinate of the entry. The query also finds ranges of others; the ids of those are announced too.\<close>

definition segment_ids :: "participation_env \<Rightarrow> participation \<Rightarrow> unreplicate_arg \<Rightarrow> sl_error + nat list list" where
  "segment_ids P p arg =
     (case arg of
        UnreplicateEntry c \<Rightarrow>
          bind_sum (ranges_of (pn_sl P) (sl_index (pt_repl p)) (QueryRecord (JObj [(''width'', JNum 1), (''start1'', num_js (sl_res (pn_sl P)) c)]))) (\<lambda>rs.
            Inr (map r_id rs))
      | UnreplicateIds ids \<Rightarrow> Inr ids
      | UnreplicateAll \<Rightarrow> Inr [])"

definition unreplicate :: "participation_env \<Rightarrow> int \<Rightarrow> unreplicate_arg \<Rightarrow> participation \<Rightarrow> participation_error + participation" where
  "unreplicate P now arg p =
     (case arg of
        UnreplicateAll \<Rightarrow>
          (let p1 = p\<lparr>pt_isReplicating := False, pt_isAdaptive := False\<rparr>
           in bind_sum (lift_replicators (removeReplicator (env_at P p1) now (PublicSignKey (sl_me (pn_sl P))) False (pt_repl p1))) (\<lambda>st.
                Inr (p1\<lparr>pt_repl := st\<rparr>)))
      | _ \<Rightarrow>
          bind_sum (lift_replicators (segment_ids P p arg)) (\<lambda>ids.
            if length ids = 0 then Inr p
            else if pt_isAdaptive p then Inl Unsupported_when_adaptive
            else
              bind_sum (lift_replicators (resolveReplicationRangesFromIdsAndKey (env_at P p) (pt_repl p) ids (sl_me (pn_sl P)))) (\<lambda>rs.
              bind_sum (lift_replicators (removeReplicationRanges (env_at P p) now rs (sl_me (pn_sl P)) (pt_repl p))) (\<lambda>st.
                Inr (p\<lparr>pt_repl := send (StoppedReplicating ids) None st\<rparr>)))))"

section \<open>Starting\<close>

record replicate_options =
  rp_reset :: bool
  rp_checkDuplicates :: bool
  rp_announce :: bool
  rp_mergeSegments :: bool
  rp_rebalance :: bool

text \<open>The ranges to replicate, those to stop replicating, and whether an offset was given: the last of several options decides.
  \<open>None\<close> when there is nothing to do.\<close>

definition ranges_to_replicate ::
  "participation_env \<Rightarrow> int \<Rightarrow> (nat \<Rightarrow> nat list \<times> real) \<Rightarrow> nat list \<Rightarrow> replication_options \<Rightarrow> bool \<Rightarrow> participation \<Rightarrow>
     sl_error + (range list \<times> range list \<times> bool) option \<times> participation" where
  "ranges_to_replicate P now fresh newId options mergeSegments p =
     (let S = env_at P p; idx = sl_index (pt_repl p);
          fixed = (\<lambda>fs. if fs = [] then Inr (None, p) else
            bind_sum (fixed_ranges P now idx fresh 0 fs) (\<lambda>rs.
              if mergeSegments then bind_sum (merge_ranges P idx newId rs) (\<lambda>(r, stop). Inr (Some ([r], stop, offset_given (last fs)), p))
              else Inr (Some (rs, [], offset_given (last fs)), p)));
          adaptive = (\<lambda>lims. bind_sum (getDynamicRange P now (setupDebouncedRebalancing lims (p\<lparr>pt_isAdaptive := True\<rparr>))) (\<lambda>(r, p1).
            Inr (case r of None \<Rightarrow> None | Some r \<Rightarrow> Some ([r], [], True), p1)))
      in case options of
           Adaptive lims \<Rightarrow> adaptive lims
         | ReplicateTrue \<Rightarrow> adaptive \<lparr>lm_storage = None, lm_cpu = None\<rparr>
         | FromMessage m \<Rightarrow> bind_sum (lift_range (toReplicationRangeIndexable (sl_res S) m (sl_me S))) (\<lambda>r. Inr (Some ([r], [], True), p))
         | FactorNumber x \<Rightarrow> fixed [\<lparr>fx_id = None, fx_values = Normalized (Factor x) None, fx_strict = False\<rparr>]
         | Fixed f \<Rightarrow> fixed [f]
         | FixedList fs \<Rightarrow> fixed fs
         | _ \<Rightarrow> Inr (None, p))"

text \<open>\<open>_replicate\<close>. The message about new ranges is returned when the caller announces it, and sent otherwise.\<close>

definition private_replicate ::
  "participation_env \<Rightarrow> int \<Rightarrow> (nat \<Rightarrow> nat list \<times> real) \<Rightarrow> nat list \<Rightarrow> replication_options \<Rightarrow> replicate_options \<Rightarrow> participation \<Rightarrow>
     participation_error + range list \<times> replication_message option \<times> participation" where
  "private_replicate P now fresh newId options ro p =
     (if isUnreplicationOptions (sl_res (pn_sl P)) options then bind_sum (unreplicate P now UnreplicateAll p) (\<lambda>p1. Inr ([], None, p1))
      else if options = Resume then Inr ([], None, p)
      else
        bind_sum (lift_replicators (ranges_to_replicate P now fresh newId options (rp_mergeSegments ro) (p\<lparr>pt_isReplicating := True, pt_isAdaptive := False\<rparr>))) (\<lambda>(plan, p1).
          case plan of
            None \<Rightarrow> Inr ([], None, p1)
          | Some (rs, stop, offsetWasProvided) \<Rightarrow>
              let S = env_at P p1; me = sl_me S;
                  st1 = pt_repl p1\<lparr>sl_oldest := fold (\<lambda>r t. min (r_timestamp r) t) rs (sl_oldest (pt_repl p1))\<rparr>;
                  opts = \<lparr>ao_reset = rp_reset ro \<or> \<not> offsetWasProvided, ao_checkDuplicates = rp_checkDuplicates ro, ao_timestamp = None, ao_rebalance = rp_rebalance ro\<rparr>
              in bind_sum (lift_replicators (if length stop > 0 then removeReplicationRanges S now stop me st1 else Inr st1)) (\<lambda>st2.
                 bind_sum (lift_replicators (announcement S now rs opts st2)) (\<lambda>(message, st3).
                   let st4 = (case message of Some m \<Rightarrow> if rp_announce ro then st3 else send m None st3 | None \<Rightarrow> st3);
                       st5 = (if length stop > 0 then send (StoppedReplicating (map r_id stop)) None st4 else st4)
                   in Inr (rs, if rp_announce ro then message else None, p1\<lparr>pt_repl := st5\<rparr>)))))"

text \<open>\<open>replicate\<close>: entries are given by their coordinates.\<close>

datatype replicate_arg = ReplicateOptions replication_options | ReplicateEntry int | ReplicateEntries "int list"

definition at_coordinate :: "bool \<Rightarrow> int \<Rightarrow> fixed_options" where
  "at_coordinate strict c = \<lparr>fx_id = None, fx_values = Coordinates (Factor 1) (Some c), fx_strict = strict\<rparr>"

fun replicate_what :: "replicate_arg \<Rightarrow> replication_options" where
  "replicate_what (ReplicateOptions options) = options"
| "replicate_what (ReplicateEntry c) = Fixed (at_coordinate False c)"
| "replicate_what (ReplicateEntries cs) = FixedList (map (at_coordinate True) cs)"

definition replicate_ranges ::
  "participation_env \<Rightarrow> int \<Rightarrow> (nat \<Rightarrow> nat list \<times> real) \<Rightarrow> nat list \<Rightarrow> replicate_arg \<Rightarrow> replicate_options \<Rightarrow> participation \<Rightarrow>
     participation_error + range list \<times> replication_message option \<times> participation" where
  "replicate_ranges P now fresh newId arg ro p = private_replicate P now fresh newId (replicate_what arg) ro p"

section \<open>Adapting\<close>

definition calculateTotalParticipation :: "sl_env \<Rightarrow> replicators \<Rightarrow> sl_error + real" where
  "calculateTotalParticipation S st =
     bind_sum (lift_range_index (appromixateCoverage (sl_engine S) (sl_res S) (sl_index st) 25 False)) (\<lambda>(hits, samples). Inr (real hits / real samples))"

text \<open>The sum of the widths, as with \<open>sum: true\<close>.\<close>

definition sum_participation :: "sl_env \<Rightarrow> replicators \<Rightarrow> sl_error + real" where
  "sum_participation S st = bind_sum (ranges_of S (sl_index st) NoQuery) (\<lambda>rs. Inr (foldl (\<lambda>s r. s + widthNormalized r) 0 rs))"

text \<open>Whether the factor changed by more than a ten thousandth of its value. Division by zero gives \<open>Infinity\<close> or \<open>NaN\<close>.\<close>

definition differs :: "real \<Rightarrow> real \<Rightarrow> bool" where
  "differs old new = (if old = 0 then new \<noteq> 0 else \<bar>old - new\<bar> / old > 1 / 10000)"

definition pid_inputs :: "real \<Rightarrow> range \<Rightarrow> real \<Rightarrow> nat \<Rightarrow> real option \<Rightarrow> pid_input" where
  "pid_inputs usedMemory r tp peersSize cpu =
     \<lparr>memoryUsage = usedMemory, currentFactor = widthNormalized r, totalFactor = tp, peerCount = (if peersSize = 0 then 1 else real peersSize), cpuUsage = cpu\<rparr>"

text \<open>\<open>None\<close> is \<open>undefined\<close>: the peer may not replicate. The controller exists when replication is adaptive.\<close>

definition rebalanceParticipation ::
  "participation_env \<Rightarrow> int \<Rightarrow> real \<Rightarrow> real option \<Rightarrow> participation \<Rightarrow> sl_error + bool option \<times> participation" where
  "rebalanceParticipation P now usedMemory cpu p =
     (if \<not> pt_isReplicating p then Inr (Some False, p)
      else case (pt_isAdaptive p, pt_controller p) of
        (True, Some c) \<Rightarrow>
          bind_sum (getDynamicRange P now p) (\<lambda>(dynamicRange, p1).
          case dynamicRange of
            None \<Rightarrow> Inr (None, p1)
          | Some r \<Rightarrow>
              let S = env_at P p1
              in bind_sum (calculateTotalParticipation S (pt_repl p1)) (\<lambda>tp.
                 let (newFactor, c') = pid_step c (pid_inputs usedMemory r tp (hm_getSize (sl_index (pt_repl p1))) cpu);
                     p2 = p1\<lparr>pt_controller := Some c'\<rparr>
                 in if differs (widthNormalized r) newFactor then
                      bind_sum (lift_range (make_range (sl_res S) (r_id r) (r_hash r) (start1 r) (denormalize (sl_res S) newFactor) (Some (mode r)) (Some (r_timestamp r)))) (\<lambda>r'.
                        if (case sl_isTrusted S of None \<Rightarrow> False | Some f \<Rightarrow> \<not> f (sl_me S)) then Inr (Some False, p2)
                        else
                          bind_sum (startAnnounceReplicating S now [r'] add_defaults (pt_repl p2)) (\<lambda>st.
                            Inr (Some True, p2\<lparr>pt_repl := rebalanceParticipationDebounced st\<rparr>)))
                    else Inr (Some False, p2\<lparr>pt_repl := rebalanceParticipationDebounced (pt_repl p2)\<rparr>)))
      | _ \<Rightarrow> Inr (Some False, p))"

section \<open>Lemmas: numbers and ranges\<close>

lemma denormalize_bounds:
  assumes "0 \<le> v"
  shows "0 \<le> denormalize res v" "denormalize res v \<le> maxValue res"
proof -
  have "0 \<le> v * number_of_max res" using assms by (cases res) (simp_all add: MAX_U32_def)
  then have "0 \<le> round_half (v * number_of_max res)" by (simp add: round_half_def)
  then show "0 \<le> denormalize res v" "denormalize res v \<le> maxValue res" using maxValue_pos [of res] by (auto simp: denormalize_def Let_def)
qed

lemma make_range_in:
  assumes "0 \<le> offset" and "offset < maxValue res" and "0 \<le> wid" and "wid \<le> maxValue res"
  shows "\<exists>r. make_range res i h offset wid md stamp = Inr r \<and> range_in res r \<and> r_id r = i \<and> r_hash r = h \<and> width r = wid \<and> start1 r = offset"
proof -
  obtain r where r: "make_range res i h offset wid md stamp = Inr r" "r_res r = res" "r_id r = i" "r_hash r = h" "width r = wid" "start1 r = offset"
    using make_range_eq [of offset res wid i h md stamp] assms by auto
  then have "range_ok r" using make_range_ok [OF r(1)] assms by simp
  with r show ?thesis by (simp add: range_in_def)
qed

lemma equal_width: "range_in res a \<Longrightarrow> range_in res b \<Longrightarrow> equalRange a b \<Longrightarrow> width a = width b"
  unfolding range_in_def range_ok_def equalRange_def by (elim conjE disjE) auto

lemma env_at_simps [simp]:
  "sl_engine (env_at P p) = sl_engine (pn_sl P)" "sl_me (env_at P p) = sl_me (pn_sl P)" "sl_res (env_at P p) = sl_res (pn_sl P)"
  "sl_isTrusted (env_at P p) = sl_isTrusted (pn_sl P)"
  by (simp_all add: env_at_def)

lemma ok_env_at [simp]: "sl_ok (env_at P p) st = sl_ok (pn_sl P) st"
  by (simp add: sl_ok_def pending_ok_def idString_def env_at_def)

section \<open>Lemmas: operations\<close>

lemma known_ids:
  assumes "sl_ok S st"
  shows "ranges_of S (sl_index st) (QueryList [id_match i]) = Inr (filter (\<lambda>r. r_id r = i) (contents (sl_index st)))"
proof -
  have idx: "range_index (sl_res S) (sl_engine S) (sl_index st)" using assms by (simp add: sl_ok_def)
  then have e: "range_env (sl_engine S)" by (simp add: range_index_def)
  have "bind_sum (iterate_all (sl_engine S) (sl_index st) (QueryList [id_match i]) []) (\<lambda>vs. Inr (map iv_value vs)) = Inr (filter (\<lambda>r. r_id r = i) (contents (sl_index st)))"
    by (rule range_query(3) [OF idx]) (auto simp: id_match_def range_queries [OF e])
  then show ?thesis by (simp add: ranges_of_def del: bind_sum_eq_Inr)
qed

lemma announcement_ok:
  assumes "sl_ok S st" and "\<forall>r \<in> set rs. range_in (sl_res S) r \<and> r_hash r = sl_me S"
  shows "\<exists>m st'. announcement S now rs opts st = Inr (m, st') \<and> sl_ok S st'"
  using add_ok [OF assms, of now opts] by (fastforce simp: announcement_def Let_def split: option.split)

lemma send_ok [simp]: "sl_ok S (send m to st) = sl_ok S st" "sl_ok S (rebalanceParticipationDebounced st) = sl_ok S st"
    "sl_ok S (st\<lparr>sl_oldest := oldest\<rparr>) = sl_ok S st"
  by (simp_all add: sl_ok_def)

lemma last_in_map: "es \<noteq> [] \<Longrightarrow> \<forall>x \<in> set es. k x = i \<Longrightarrow> \<exists>x \<in> set es. jm_get (fold (\<lambda>x m. jm_set m (k x) x) es m) i = Some x"
  by (induction es rule: rev_induct) auto

lemma one_change:
  assumes "\<forall>x \<in> set es. r_id x = r_id r"
  shows "added_ranges (range_changes S es [r]) = [r] \<or> (added_ranges (range_changes S es [r]) = [] \<and> (\<exists>x \<in> set es. equalRange x r))"
proof (cases "es = []")
  case False
  have "\<forall>x \<in> set es. idString S x = idString S r" using assms by (simp add: idString_def)
  from last_in_map [OF False this, of "[]"] obtain x where "x \<in> set es" "jm_get (fold (\<lambda>x m. jm_set m (idString S x) x) es []) (idString S r) = Some x" by blast
  then show ?thesis by (auto simp: range_changes_def Let_def)
qed (simp add: range_changes_def)

lemma added_plan:
  assumes "addReplicationRange S now rs p opts st = Inr (Some ds, st')"
  shows "\<exists>new idx. plan_changes S (ao_reset opts) (ao_checkDuplicates opts) (case ao_timestamp opts of None \<Rightarrow> now | Some t \<Rightarrow> t) rs p (sl_index st) = Inr (ds, new, idx)"
proof (cases "plan_changes S (ao_reset opts) (ao_checkDuplicates opts) (case ao_timestamp opts of None \<Rightarrow> now | Some t \<Rightarrow> t) rs p (sl_index st)")
  case (Inl e)
  then show ?thesis using assms by (simp add: addReplicationRange_def Let_def split: if_splits)
next
  case (Inr x)
  obtain ds' new idx where x: "x = (ds', new, idx)" by (cases x)
  have "ds' = ds" using assms Inr x by (auto simp: addReplicationRange_def Let_def split: if_splits)
  then show ?thesis using Inr x by blast
qed

text \<open>A single range that is added is then in the index, unless a range with its id and segments was there.\<close>

lemma add_one:
  assumes "sl_ok S st" and "range_in (sl_res S) r" and "r_hash r = sl_me S" and "trusted S (sl_me S)"
  shows "\<exists>ds m st'. addReplicationRange S now [r] (sl_me S) add_defaults st = Inr (Some ds, st') \<and> announcement S now [r] add_defaults st = Inr (m, st') \<and> sl_ok S st' \<and>
    (contents (sl_index st') = upsert r (contents (sl_index st)) \<or>
     (contents (sl_index st') = contents (sl_index st) \<and> (\<exists>x \<in> set (contents (sl_index st)). r_id x = r_id r \<and> equalRange x r)))"
proof -
  have ok: "range_index (sl_res S) (sl_engine S) (sl_index st)" "pending_ok S (sl_pending st)" using assms(1) by (simp_all add: sl_ok_def)
  obtain ds st' where a: "addReplicationRange S now [r] (sl_me S) add_defaults st = Inr (Some ds, st')"
      "sl_index st' = ranges.put_all (sl_engine S) (added_ranges ds) (base_index S False (sl_me S) (sl_index st))"
    using add_effect [OF ok, of "[r]" "sl_me S" now add_defaults] assms(2,4) by (auto simp: add_defaults_def)
  have st': "sl_ok S st'" using add_ok [OF assms(1), of "[r]" "sl_me S" now add_defaults] assms(2,3) a(1) by auto
  let ?es = "filter (\<lambda>x. r_id x = r_id r) (contents (sl_index st))"
  have es: "existing_loop S (sl_index st) [r] = Inr ?es" using known_ids [OF assms(1)] by simp
  obtain new idx where "plan_changes S False False now [r] (sl_me S) (sl_index st) = Inr (ds, new, idx)"
    using added_plan [OF a(1)] by (auto simp: add_defaults_def)
  then have "ds = range_changes S ?es [r]" unfolding plan_changes_def es by auto
  with one_change [of ?es r S] have "added_ranges ds = [r] \<or> (added_ranges ds = [] \<and> (\<exists>x \<in> set ?es. equalRange x r))" by simp
  then have "contents (sl_index st') = upsert r (contents (sl_index st)) \<or>
     (contents (sl_index st') = contents (sl_index st) \<and> (\<exists>x \<in> set (contents (sl_index st)). r_id x = r_id r \<and> equalRange x r))"
    unfolding a(2) using ranges.contents_put [OF ok(1) assms(2)] by (auto simp: base_index_def ranges.put_all_def)
  moreover obtain m where "announcement S now [r] add_defaults st = Inr (m, st')" using a(1) by (simp add: announcement_def Let_def)
  ultimately show ?thesis using st' a(1) by blast
qed

text \<open>The adaptive range: known and own, or new.\<close>

definition dynamic_ok :: "participation_env \<Rightarrow> participation \<Rightarrow> bool" where
  "dynamic_ok P p \<longleftrightarrow> sl_ok (pn_sl P) (pt_repl p) \<and> 0 \<le> getDynamicRangeOffset P \<and> getDynamicRangeOffset P < maxValue (sl_res (pn_sl P)) \<and>
     (\<forall>r \<in> set (contents (sl_index (pt_repl p))). r_id r = pn_dynamicId P \<longrightarrow> r_hash r = sl_me (pn_sl P) \<and> start1 r < maxValue (sl_res (pn_sl P)))"

lemma upsert_in: "x \<in> set (upsert r rs) \<Longrightarrow> x = r \<or> x \<in> set rs"
  by (auto simp: upsert_def split: if_splits)

lemma dynamic_ok_put:
  assumes "dynamic_ok P p" and "sl_ok (pn_sl P) (pt_repl p')" and "r_hash r = sl_me (pn_sl P)" and "start1 r < maxValue (sl_res (pn_sl P))"
    and "contents (sl_index (pt_repl p')) = upsert r (contents (sl_index (pt_repl p))) \<or> contents (sl_index (pt_repl p')) = contents (sl_index (pt_repl p))"
  shows "dynamic_ok P p'"
proof -
  have "x = r \<or> x \<in> set (contents (sl_index (pt_repl p)))" if "x \<in> set (contents (sl_index (pt_repl p')))" for x
    using assms(5) that upsert_in by metis
  then show ?thesis using assms(1-4) unfolding dynamic_ok_def by blast
qed

lemma dynamic_range:
  assumes "dynamic_ok P p" and "trusted (pn_sl P) (sl_me (pn_sl P))"
  shows "\<exists>r p'. getDynamicRange P now p = Inr (Some r, p') \<and> dynamic_ok P p' \<and> pt_isReplicating p' = pt_isReplicating p \<and> pt_isAdaptive p' = pt_isAdaptive p \<and> pt_controller p' = pt_controller p \<and>
    range_in (sl_res (pn_sl P)) r \<and> r_id r = pn_dynamicId P \<and> r_hash r = sl_me (pn_sl P) \<and> start1 r < maxValue (sl_res (pn_sl P))"
proof -
  let ?S = "env_at P p" and ?i = "pn_dynamicId P" and ?res = "sl_res (pn_sl P)"
  have ok: "sl_ok ?S (pt_repl p)" using assms(1) by (simp add: dynamic_ok_def)
  note q = known_ids [OF ok, of ?i]
  show ?thesis
  proof (cases "filter (\<lambda>r. r_id r = ?i) (contents (sl_index (pt_repl p)))")
    case (Cons r rs)
    then have "r \<in> set (filter (\<lambda>r. r_id r = ?i) (contents (sl_index (pt_repl p))))" by (simp del: set_filter)
    then have r: "r \<in> set (contents (sl_index (pt_repl p)))" "r_id r = ?i" by auto
    have "range_index ?res (sl_engine (pn_sl P)) (sl_index (pt_repl p))" using ok by (simp add: sl_ok_def)
    then have "range_in ?res r" using r(1) by (rule contents_in)
    then show ?thesis using q Cons r assms(1) by (simp add: getDynamicRange_def dynamic_ok_def)
  next
    case Nil
    obtain r where r: "make_range ?res ?i (sl_me (pn_sl P)) (getDynamicRangeOffset P) 0 (Some NonStrict) (Some now) = Inr r"
        "range_in ?res r" "r_id r = ?i" "r_hash r = sl_me (pn_sl P)" "start1 r = getDynamicRangeOffset P"
      using make_range_in [of "getDynamicRangeOffset P" ?res 0 ?i "sl_me (pn_sl P)" "Some NonStrict" "Some now"] assms(1) maxValue_pos [of ?res]
      unfolding dynamic_ok_def by fastforce
    have tr: "trusted ?S (sl_me ?S)" using assms(2) by (simp add: trusted_def)
    obtain ds st' where d: "addReplicationRange ?S now [r] (sl_me (pn_sl P)) add_defaults (pt_repl p) = Inr (Some ds, st')" "sl_ok ?S st'"
        "contents (sl_index st') = upsert r (contents (sl_index (pt_repl p))) \<or> contents (sl_index st') = contents (sl_index (pt_repl p))"
      using add_one [OF ok _ _ tr, of r now] r(2,4) by auto
    have "dynamic_ok P (p\<lparr>pt_repl := st'\<rparr>)"
      using dynamic_ok_put [OF assms(1), of "p\<lparr>pt_repl := st'\<rparr>" r] d(2,3) assms(1) r(4,5) by (simp add: dynamic_ok_def)
    then show ?thesis using q Nil r d(1) assms(1) by (simp add: getDynamicRange_def dynamic_ok_def)
  qed
qed

section \<open>Properties\<close>


definition participation_ex :: participation_env where
  "participation_ex = \<lparr>pn_sl = env_ex_sl, pn_dynamicId = [9], pn_keyNumber = 1000, pn_offset = None, pn_canMerge = None\<rparr>"

definition adaptive_ex :: participation where
  "adaptive_ex = \<lparr>pt_repl = replicators_of ranges_ex, pt_isReplicating = True, pt_isAdaptive = True,
     pt_controller = Some (new_PIDReplicationController None None None None None 0)\<rparr>"


text \<open>Stopping altogether does not throw: no own range is left, those of others stay, and the peer neither replicates nor
  adapts.\<close>

theorem unreplicate_stops:
  assumes "sl_ok (pn_sl P) (pt_repl p)"
  shows "\<exists>p'. unreplicate P now UnreplicateAll p = Inr p' \<and> sl_ok (pn_sl P) (pt_repl p') \<and> \<not> pt_isReplicating p' \<and> \<not> pt_isAdaptive p' \<and>
    contents (sl_index (pt_repl p')) = filter (\<lambda>r. r_hash r \<noteq> sl_me (pn_sl P)) (contents (sl_index (pt_repl p)))"
proof -
  let ?p1 = "p\<lparr>pt_isReplicating := False, pt_isAdaptive := False\<rparr>"
  obtain st where st: "removeReplicator (env_at P ?p1) now (PublicSignKey (sl_me (pn_sl P))) False (pt_repl ?p1) = Inr st" "sl_ok (env_at P ?p1) st"
      "contents (sl_index st) = filter (\<lambda>r. r_hash r \<noteq> sl_me (pn_sl P)) (contents (sl_index (pt_repl ?p1)))"
    using remove_replicator_effect [of "env_at P ?p1" "pt_repl ?p1" now "sl_me (pn_sl P)" False] assms by auto
  then have "unreplicate P now UnreplicateAll p = Inr (?p1\<lparr>pt_repl := st\<rparr>)" by (simp add: unreplicate_def Let_def)
  then show ?thesis using st(2,3) by simp
qed

text \<open>Fixed ranges of this peer: offsets below the end of the ring, widths within it.\<close>

definition fixed_ok :: "participation_env \<Rightarrow> (nat \<Rightarrow> nat list \<times> real) \<Rightarrow> bool" where
  "fixed_ok P fresh \<longleftrightarrow> (\<forall>i. 0 \<le> snd (fresh i) \<and> denormalize (sl_res (pn_sl P)) (snd (fresh i)) < maxValue (sl_res (pn_sl P)))"

fun values_ok :: "resolution \<Rightarrow> fixed_values \<Rightarrow> bool" where
  "values_ok res (Normalized f v) \<longleftrightarrow> (\<forall>x. f = Factor x \<longrightarrow> 0 \<le> x) \<and> (\<forall>x. v = Some x \<longrightarrow> 0 \<le> x \<and> denormalize res x < maxValue res)"
| "values_ok res (Coordinates f n) \<longleftrightarrow> (\<forall>x. f = Factor x \<longrightarrow> 0 \<le> x \<and> x \<le> maxValue res) \<and> (\<forall>x. n = Some x \<longrightarrow> 0 \<le> x \<and> x < maxValue res)"

lemma fixed_range_ok:
  assumes "values_ok (sl_res (pn_sl P)) (fx_values f)" and "0 \<le> snd x" and "denormalize (sl_res (pn_sl P)) (snd x) < maxValue (sl_res (pn_sl P))"
  shows "\<exists>r. fixed_range P now idx x f = Inr r \<and> range_in (sl_res (pn_sl P)) r \<and> r_hash r = sl_me (pn_sl P)"
proof -
  let ?res = "sl_res (pn_sl P)"
  define offset where "offset = (case fx_values f of Normalized _ (Some v) \<Rightarrow> denormalize ?res v | Coordinates _ (Some n) \<Rightarrow> n | _ \<Rightarrow> denormalize ?res (snd x))"
  define wid where "wid = (case fx_values f of Normalized (Factor v) _ \<Rightarrow> denormalize ?res v | Coordinates (Factor n) _ \<Rightarrow> n
     | Normalized FactorRight _ \<Rightarrow> maxValue ?res - offset | Coordinates FactorRight _ \<Rightarrow> maxValue ?res - offset | _ \<Rightarrow> maxValue ?res)"
  have o: "0 \<le> offset" "offset < maxValue ?res" unfolding offset_def
    using assms denormalize_bounds by (auto split: fixed_values.split option.split)
  have w: "0 \<le> wid" "wid \<le> maxValue ?res" unfolding wid_def
    using assms(1) o denormalize_bounds maxValue_pos [of ?res] by (auto split: fixed_values.split factor.split simp del: maxValue_pos)
  define stamp where "stamp = (case fx_id f of None \<Rightarrow> None | Some i \<Rightarrow> map_option (\<lambda>(_, r). r_timestamp r) (hm_get (sl_engine (pn_sl P)) idx (Uint8ArrayKey i)))"
  have "fixed_range P now idx x f = lift_range (make_range ?res (case fx_id f of None \<Rightarrow> fst x | Some i \<Rightarrow> i) (sl_me (pn_sl P)) offset wid
     (Some (if fx_strict f then Strict else NonStrict)) (Some (case stamp of None \<Rightarrow> now | Some t \<Rightarrow> t)))"
    unfolding fixed_range_def Let_def offset_def wid_def stamp_def by (rule refl)
  moreover obtain r where "make_range ?res (case fx_id f of None \<Rightarrow> fst x | Some i \<Rightarrow> i) (sl_me (pn_sl P)) offset wid
     (Some (if fx_strict f then Strict else NonStrict)) (Some (case stamp of None \<Rightarrow> now | Some t \<Rightarrow> t)) = Inr r" "range_in ?res r" "r_hash r = sl_me (pn_sl P)"
    using make_range_in [OF o w] by metis
  ultimately show ?thesis by simp
qed

lemma fixed_ranges_ok:
  assumes "\<forall>f \<in> set fs. values_ok (sl_res (pn_sl P)) (fx_values f)" and "fixed_ok P fresh"
  shows "\<exists>rs. fixed_ranges P now idx fresh i fs = Inr rs \<and> length rs = length fs \<and> (\<forall>r \<in> set rs. range_in (sl_res (pn_sl P)) r \<and> r_hash r = sl_me (pn_sl P))"
  using assms(1)
proof (induction fs arbitrary: i)
  case (Cons f fs)
  obtain r where "fixed_range P now idx (fresh i) f = Inr r" "range_in (sl_res (pn_sl P)) r" "r_hash r = sl_me (pn_sl P)"
    using fixed_range_ok [of P f "fresh i" now idx] Cons.prems assms(2) by (auto simp: fixed_ok_def)
  moreover obtain rs where "fixed_ranges P now idx fresh (Suc i) fs = Inr rs" "length rs = length fs" "\<forall>r \<in> set rs. range_in (sl_res (pn_sl P)) r \<and> r_hash r = sl_me (pn_sl P)"
    using Cons.IH [of "Suc i"] Cons.prems by fastforce
  ultimately show ?case by simp
qed simp

text \<open>Replicating fixed ranges does not throw, keeps the invariant and returns one own range per option; an announcement that
  the caller takes is not sent as well.\<close>

theorem replicate_fixed:
  assumes "sl_ok (pn_sl P) (pt_repl p)" and "fs \<noteq> []" and "\<forall>f \<in> set fs. values_ok (sl_res (pn_sl P)) (fx_values f)" and "fixed_ok P fresh" and "\<not> rp_mergeSegments ro"
  shows "\<exists>rs m p'. replicate_ranges P now fresh newId (ReplicateOptions (FixedList fs)) ro p = Inr (rs, m, p') \<and> sl_ok (pn_sl P) (pt_repl p') \<and>
    length rs = length fs \<and> (\<forall>r \<in> set rs. range_in (sl_res (pn_sl P)) r \<and> r_hash r = sl_me (pn_sl P)) \<and> pt_isReplicating p' \<and> \<not> pt_isAdaptive p' \<and>
    (\<not> rp_announce ro \<longrightarrow> m = None)"
proof -
  let ?p = "p\<lparr>pt_isReplicating := True, pt_isAdaptive := False\<rparr>"
  obtain rs where rs: "fixed_ranges P now (sl_index (pt_repl p)) fresh 0 fs = Inr rs" "length rs = length fs"
      "\<forall>r \<in> set rs. range_in (sl_res (pn_sl P)) r \<and> r_hash r = sl_me (pn_sl P)"
    using fixed_ranges_ok [OF assms(3,4)] by blast
  have plan: "ranges_to_replicate P now fresh newId (FixedList fs) (rp_mergeSegments ro) ?p = Inr (Some (rs, [], offset_given (last fs)), ?p)"
    using rs(1) assms(2,5) by (simp add: ranges_to_replicate_def Let_def)
  let ?S = "env_at P ?p"
  let ?st = "pt_repl p\<lparr>sl_oldest := fold (\<lambda>r t. min (r_timestamp r) t) rs (sl_oldest (pt_repl p))\<rparr>"
  let ?o = "\<lparr>ao_reset = rp_reset ro \<or> \<not> offset_given (last fs), ao_checkDuplicates = rp_checkDuplicates ro, ao_timestamp = None, ao_rebalance = rp_rebalance ro\<rparr>"
  have "sl_ok ?S ?st" using assms(1) by simp
  then obtain m st where a: "announcement ?S now rs ?o ?st = Inr (m, st)" "sl_ok ?S st" using announcement_ok [of ?S ?st rs now ?o] rs(3) by auto
  let ?st' = "case m of Some m \<Rightarrow> if rp_announce ro then st else send m None st | None \<Rightarrow> st"
  have "replicate_ranges P now fresh newId (ReplicateOptions (FixedList fs)) ro p = Inr (rs, if rp_announce ro then m else None, ?p\<lparr>pt_repl := ?st'\<rparr>)"
    using plan a(1) by (simp add: replicate_ranges_def private_replicate_def isUnreplicationOptions_def Let_def)
  moreover have "sl_ok (pn_sl P) ?st'" using a(2) by (simp split: option.split)
  ultimately show ?thesis using rs(2,3) by simp
qed

theorem unreplicate_stops_witness:
  "\<exists>p'. unreplicate participation_ex 50 UnreplicateAll (adaptive_ex\<lparr>pt_repl := replicators_of (ranges_ex @ [(arc 400 500)\<lparr>r_id := [7], r_hash := ''me''\<rparr>])\<rparr>) = Inr p' \<and>
     contents (sl_index (pt_repl p')) = ranges_ex"
proof -
  let ?rs = "ranges_ex @ [(arc 400 500)\<lparr>r_id := [7], r_hash := ''me''\<rparr>]"
  have "distinct (map r_id ?rs)" by (simp add: ranges_ex_def range_ex_def arc_def)
  moreover have "range_in U32 ((arc 400 500)\<lparr>r_id := [7], r_hash := ''me''\<rparr>)" by (simp add: range_in_def range_ok_def range_ex_def arc_def MAX_U32_def)
  then have "\<forall>r \<in> set ?rs. range_in U32 r" using ranges_ex_in(2) by simp
  ultimately have "sl_ok env_ex_sl (replicators_of ?rs)" by (rule replicators_of_ok)
  moreover have "filter (\<lambda>r. r_hash r \<noteq> ''me'') ?rs = ranges_ex" by (simp add: ranges_ex_def range_ex_def arc_def)
  moreover have "contents (sl_index (replicators_of ?rs)) = ?rs" by (simp add: replicators_of_def)
  ultimately show ?thesis using unreplicate_stops [of participation_ex "adaptive_ex\<lparr>pt_repl := replicators_of ?rs\<rparr>" 50]
    by (auto simp: participation_ex_def env_ex_sl_def)
qed

definition part_of_ring :: "real \<Rightarrow> real option \<Rightarrow> fixed_options" where
  "part_of_ring f v = \<lparr>fx_id = None, fx_values = Normalized (Factor f) v, fx_strict = False\<rparr>"

definition plain_options :: replicate_options where
  "plain_options = \<lparr>rp_reset = False, rp_checkDuplicates = False, rp_announce = False, rp_mergeSegments = False, rp_rebalance = True\<rparr>"

theorem replicate_fixed_witness:
  "\<exists>r p'. replicate_ranges participation_ex 50 (\<lambda>i. ([i], 0)) [] (ReplicateOptions (FixedList [part_of_ring (1 / 2) (Some 0)])) plain_options adaptive_ex = Inr ([r], None, p') \<and>
     r_hash r = ''me''"
proof -
  have "sl_ok (pn_sl participation_ex) (pt_repl adaptive_ex)" using replicators_of_ok [OF ranges_ex_in] by (simp add: participation_ex_def adaptive_ex_def)
  moreover have z: "denormalize U32 0 = 0" by (simp add: denormalize_def round_half_def MAX_U32_def)
  then have "\<forall>f \<in> set [part_of_ring (1 / 2) (Some 0)]. values_ok (sl_res (pn_sl participation_ex)) (fx_values f)"
    by (simp add: part_of_ring_def participation_ex_def env_ex_sl_def MAX_U32_def)
  moreover have "fixed_ok participation_ex (\<lambda>i. ([i], 0))" using z by (simp add: fixed_ok_def participation_ex_def env_ex_sl_def MAX_U32_def)
  ultimately show ?thesis
    using replicate_fixed [of participation_ex adaptive_ex "[part_of_ring (1 / 2) (Some 0)]" "\<lambda>i. ([i], 0)" plain_options 50 "[]"]
    by (auto simp: plain_options_def participation_ex_def env_ex_sl_def length_Suc_conv)
qed

text \<open>The whole ring from its end is an empty range: with offset 1 and factor 1 nothing is replicated.\<close>

theorem full_factor_at_end_is_empty:
  "\<exists>r. fixed_range P now idx x (part_of_ring 1 (Some 1)) = Inr r \<and> width r = 0 \<and> (\<forall>c. \<not> contains r c)"
proof -
  let ?res = "sl_res (pn_sl P)"
  have d: "denormalize ?res 1 = maxValue ?res"
    by (cases ?res) (simp_all add: denormalize_def round_half_def MAX_U32_def MAX_U64_def Let_def)
  have t: "transform ?res (maxValue ?res) (maxValue ?res) = Inr (maxValue ?res, maxValue ?res, 0, 0, 0)"
    by (cases ?res) (simp_all add: transformU32_def transformU64_def getSegmentsFromOffsetAndRange_def js_min_def MAX_U32_def MAX_U64_def)
  show ?thesis by (auto simp: fixed_range_def part_of_ring_def d make_range_def t Let_def contains_def)
qed

definition owned_ex :: participation where
  "owned_ex = adaptive_ex\<lparr>pt_repl := replicators_of [(arc 400 500)\<lparr>r_id := [7], r_hash := ''me''\<rparr>]\<rparr>"

definition own_ids :: "participation_error + range list \<times> replication_message option \<times> participation \<Rightarrow> nat list list" where
  "own_ids x = (case x of Inl _ \<Rightarrow> [] | Inr (_, _, p) \<Rightarrow> map r_id (contents (sl_index (pt_repl p))))"

text \<open>Whether the ranges replace the own ones or are added to them is decided by the last option alone: with the offset given in the
  last one the own range stays, with the same options in the other order it is removed.\<close>

theorem last_option_decides:
  "own_ids (replicate_ranges participation_ex 50 (\<lambda>i. ([i], 1 / 4)) [] (ReplicateOptions (FixedList [part_of_ring (1 / 8) None, part_of_ring (1 / 8) (Some (1 / 2))])) plain_options owned_ex) = [[7], [0], [1]]"
  "own_ids (replicate_ranges participation_ex 50 (\<lambda>i. ([i], 1 / 4)) [] (ReplicateOptions (FixedList [part_of_ring (1 / 8) (Some (1 / 2)), part_of_ring (1 / 8) None])) plain_options owned_ex) = [[0], [1]]"
  by code_simp+

end
