(* ===== verification/LogJoin.thy ===== *)
theory LogJoin
  imports Log
begin

text \<open>
  Joining: the entries that exist are a world, a finite map from hashes to entries that reference
  only older entries of the world. A replica holds a part of the world that is closed under references.
  Shown here: joining entries of the world, in whatever order, adds exactly them and what they reference,
  and keeps head flags, length, cache and clock right; hence replicas that joined the same entries have
  the same content and the same heads. Joining what other peers hold is a refinement of the union of sets.
\<close>

section \<open>The clock while entries arrive\<close>

definition tick :: "timestamp \<Rightarrow> int" where
  "tick t = wallTime t * (UINT32_MAX + 1) + logical t"

definition timestamp_ok :: "timestamp \<Rightarrow> bool" where
  "timestamp_ok t \<longleftrightarrow> 0 \<le> logical t \<and> logical t \<le> UINT32_MAX"

text \<open>The clock of a log has no limits of its own (\<open>new HLC()\<close>), and its last timestamp is bounded.\<close>

definition hlc_below :: "int \<Rightarrow> hlc \<Rightarrow> bool" where
  "hlc_below B h \<longleftrightarrow> maxOffset h = 0 \<and> wallTimeUpperBound h = 0 \<and> toleratedForwardClockJump h = 0 \<and>
     timestamp_ok (hlc_last h) \<and> tick (hlc_last h) \<le> B"

definition tick_limit :: int where "tick_limit = (UINT64_MAX + 1) * (UINT32_MAX + 1)"

lemma hlc_update_below:
  assumes "hlc_below B h" and "timestamp_ok other" and "tick other \<le> B" and "wt * (UINT32_MAX + 1) \<le> B" and "B + 1 < tick_limit"
  shows "\<exists>t h'. HLC_update h wt other = Inr (t, h') \<and> hlc_below (B + 1) h'"
proof -
  let ?l = "max (hlc_last h) other" and ?t = "next_timestamp (max (hlc_last h) other) wt"
  have l: "timestamp_ok ?l" "tick ?l \<le> B" using assms(1-3) by (auto simp: hlc_below_def max_def)
  have t: "timestamp_ok ?t" "tick ?t \<le> B + 1"
    using l assms(4) by (auto simp: next_timestamp_def timestamp_ok_def tick_def UINT32_MAX_def algebra_simps)
  have "wallTime ?t \<le> UINT64_MAX"
  proof (rule ccontr)
    assume "\<not> wallTime ?t \<le> UINT64_MAX"
    then have "(UINT64_MAX + 1) * (UINT32_MAX + 1) \<le> wallTime ?t * (UINT32_MAX + 1)"
      by (intro mult_right_mono) (simp_all add: UINT32_MAX_def)
    then show False using t assms(5) by (simp add: tick_limit_def tick_def timestamp_ok_def)
  qed
  then have "HLC_update h wt other = Inr (?t, h\<lparr>hlc_last := ?t\<rparr>)"
    using assms(1) by (simp add: HLC_update_def hlc_below_def validateOffset_def maxWallTime_def Timestamp_bigger_max Let_def del: bind_sum_eq_Inr)
  then show ?thesis using assms(1) t by (auto simp: hlc_below_def)
qed

section \<open>Worlds and replicas\<close>

type_synonym 'p world = "string \<Rightarrow> 'p entry option"

definition time_of :: "'p entry \<Rightarrow> timestamp" where
  "time_of e = lc_timestamp (m_clock (e_meta e))"

definition reference_rel :: "'p world \<Rightarrow> (string \<times> string) set" where
  "reference_rel W = {(h, n). \<exists>e. W h = Some e \<and> n \<in> set (m_next (e_meta e))}"

text \<open>An entry and everything it references, directly or not.\<close>

definition history :: "'p world \<Rightarrow> string \<Rightarrow> string set" where
  "history W h = (reference_rel W)\<^sup>* `` {h}"

text \<open>What holds of the entries of a world: they are stored under their content hash, append, are
  signed and allowed, and reference older entries of the world.\<close>

definition entry_ok :: "'p log_env \<Rightarrow> 'p world \<Rightarrow> int \<Rightarrow> string \<Rightarrow> 'p entry \<Rightarrow> bool" where
  "entry_ok E W B h e \<longleftrightarrow> h \<noteq> [] \<and> e_hash e = Some h \<and> ee_cid (le_index E) (e\<lparr>e_hash := None\<rparr>) = h \<and>
     m_type (e_meta e) = APPEND \<and> le_verify E e \<and> le_canAppend E e \<and>
     timestamp_ok (time_of e) \<and> tick (time_of e) \<le> B \<and>
     (\<forall>n \<in> set (m_next (e_meta e)). \<exists>e'. W n = Some e' \<and> time_of e' < time_of e)"

definition world_ok :: "'p log_env \<Rightarrow> 'p world \<Rightarrow> int \<Rightarrow> int \<Rightarrow> bool" where
  "world_ok E W B wt \<longleftrightarrow> ei_env_ok (le_index E) \<and> finite (dom W) \<and> (\<forall>h e. W h = Some e \<longrightarrow> entry_ok E W B h e) \<and>
     wt * (UINT32_MAX + 1) \<le> B \<and> B + int (card (dom W)) < tick_limit \<and> int (card (dom W)) \<le> MAX_SAFE_INTEGER"

text \<open>The references at hand are entries of the world, and what is not at hand another peer returns.\<close>

definition served :: "'p log_env \<Rightarrow> (string, 'p entry) jsmap \<Rightarrow> 'p world \<Rightarrow> bool" where
  "served E references W \<longleftrightarrow> (\<forall>h e. jm_get references h = Some e \<longrightarrow> W h = Some e) \<and>
     (\<forall>h e. W h = Some e \<longrightarrow> jm_get references h = Some e \<or> le_remote E h = Some e)"

definition part :: "'p world \<Rightarrow> string set \<Rightarrow> string \<Rightarrow> meta option" where
  "part W K h = (if h \<in> K then map_option e_meta (W h) else None)"

text \<open>A replica with the entries \<open>K\<close> of the world; those in \<open>P\<close> await an entry that references them.\<close>

definition replica_pending :: "'p world \<Rightarrow> int \<Rightarrow> string set \<Rightarrow> string set \<Rightarrow> 'p log \<Rightarrow> bool" where
  "replica_pending W B P K l \<longleftrightarrow> ei_inv_except P (lg_index l) \<and> ei_initialized (lg_index l) \<and>
     tr_options (lg_trim l) = None \<and> K \<subseteq> dom W \<and> reference_rel W `` K \<subseteq> K \<and>
     metas (ei_index (lg_index l)) = part W K \<and>
     (\<forall>h e. jm_get (ei_store (lg_index l)) h = Some e \<longrightarrow> W h = Some (e\<lparr>e_hash := Some h\<rparr>)) \<and>
     hlc_below (B + int (card K)) (lg_hlc l)"

definition replica :: "'p world \<Rightarrow> int \<Rightarrow> string set \<Rightarrow> 'p log \<Rightarrow> bool" where
  "replica W B K l \<longleftrightarrow> replica_pending W B {} K l"

lemma dom_part: "K \<subseteq> dom W \<Longrightarrow> dom (part W K) = K"
  by (auto simp: part_def dom_def split: if_splits)

lemma part_insert: "W h = Some e \<Longrightarrow> (part W K)(h \<mapsto> e_meta e) = part W (insert h K)"
  by (auto simp: part_def fun_eq_iff)

lemma referenced_part:
  "K \<subseteq> dom W \<Longrightarrow> metas idx = part W K \<Longrightarrow> referenced idx n \<longleftrightarrow> n \<in> reference_rel W `` K"
  unfolding referenced_metas by (force simp: part_def reference_rel_def Image_iff split: if_splits)

lemma history_step:
  "W h = Some e \<Longrightarrow> history W h = insert h (\<Union>n \<in> set (m_next (e_meta e)). history W n)"
  unfolding history_def by (auto simp: reference_rel_def Image_iff elim: converse_rtranclE intro: converse_rtrancl_into_rtrancl)

lemma history_closed: "reference_rel W `` history W h \<subseteq> history W h"
  unfolding history_def by (auto intro: rtrancl_into_rtrancl)

lemma history_in_closed: "reference_rel W `` K \<subseteq> K \<Longrightarrow> h \<in> K \<Longrightarrow> history W h \<subseteq> K"
proof -
  assume c: "reference_rel W `` K \<subseteq> K" and h: "h \<in> K"
  have "(h, k) \<in> (reference_rel W)\<^sup>* \<Longrightarrow> k \<in> K" for k by (induction rule: rtrancl_induct) (use c h in auto)
  then show ?thesis by (auto simp: history_def)
qed

section \<open>Lemmas: the steps of a join\<close>

lemma replica_pending_cache:
  assumes "replica_pending W B P K l" and "entry_cache.coherent (known_only (ei_index (lg_index l))) c"
  shows "replica_pending W B P K (l\<lparr>lg_index := (lg_index l)\<lparr>ei_cache := c\<rparr>\<rparr>)"
  using assms by (simp add: replica_pending_def ei_inv_except_def)

text \<open>Entries that await nothing are no longer pending.\<close>

lemma replica_pending_referenced:
  assumes "replica_pending W B (P \<union> Q) K l" and "Q \<subseteq> reference_rel W `` K"
  shows "replica_pending W B P K l"
proof -
  have l: "K \<subseteq> dom W" "metas (ei_index (lg_index l)) = part W K" "ei_inv_except (P \<union> Q) (lg_index l)"
    using assms(1) by (simp_all add: replica_pending_def)
  have "ei_inv_except P (lg_index l)"
    by (rule ei_inv_except_referenced [OF l(3)]) (use assms(2) in \<open>auto simp: referenced_part [OF l(1,2)]\<close>)
  with assms(1) show ?thesis by (simp add: replica_pending_def)
qed

lemma replica_has:
  assumes "world_ok E W B wt" and "replica_pending W B P K l"
  obtains l' where "log_has now E l h = Inr (h \<in> K, l')" and "replica_pending W B P K l'"
proof -
  have coh: "entry_cache.coherent (known_only (ei_index (lg_index l))) (ei_cache (lg_index l))"
    using assms(2) by (simp add: replica_pending_def ei_inv_except_def)
  have k: "metas (ei_index (lg_index l)) h \<noteq> None \<longleftrightarrow> h \<in> K"
    using assms(2) by (auto simp: replica_pending_def part_def)
  show thesis
    using log_has_ok [OF _ coh, of E now h] assms(1) replica_pending_cache [OF assms(2)] that
    unfolding k by (auto simp: world_ok_def)
qed

lemma replica_length:
  assumes "world_ok E W B wt" and "replica_pending W B P K l"
  obtains n where "ei_get_length (lg_index l) = Inr n" and "\<not> MAX_SAFE_INTEGER < n"
proof -
  have K: "K \<subseteq> dom W" "finite (dom W)" using assms by (simp_all add: replica_pending_def world_ok_def)
  have s: "shallow_ok (ei_index (lg_index l))" "metas (ei_index (lg_index l)) = part W K"
    using assms(2) by (simp_all add: replica_pending_def ei_inv_except_def)
  have "length (ei_index (lg_index l)) = card K" using card_metas [OF s(1)] s(2) dom_part [OF K(1)] by simp
  moreover have "card K \<le> card (dom W)" using K by (simp add: card_mono)
  ultimately show thesis
    using assms by (intro that [of "ei_length (lg_index l)"])
      (auto simp: ei_get_length_def replica_pending_def ei_inv_except_def world_ok_def)
qed

lemma replica_nested:
  assumes "world_ok E W B wt" and "replica_pending W B P K l" and "served E references W" and "W a = Some e"
  shows "(case jm_get references a of Some e \<Rightarrow> Some (Inr e) | None \<Rightarrow> Some (fromMultihash E l a)) = Some (Inr e)"
proof (cases "jm_get references a")
  case None
  have e: "a \<noteq> []" "e_hash e = Some a" using assms(1,4) by (auto simp: world_ok_def entry_ok_def)
  have r: "le_remote E a = Some e" using None assms(3,4) unfolding served_def by fastforce
  show ?thesis
  proof (cases "jm_get (ei_store (lg_index l)) a")
    case None
    with \<open>jm_get references a = None\<close> r e show ?thesis by (cases e) (simp add: fromMultihash_def)
  next
    case (Some b)
    then have "W a = Some (b\<lparr>e_hash := Some a\<rparr>)" using assms(2) by (simp add: replica_pending_def)
    with Some \<open>jm_get references a = None\<close> e assms(4) show ?thesis by (simp add: fromMultihash_def)
  qed
next
  case (Some b)
  with assms(3,4) show ?thesis by (fastforce simp: served_def)
qed

lemma replica_not_deleted:
  assumes "world_ok E W B wt" and "replica_pending W B P K l"
  shows "\<exists>hs. ei_getHeads (le_index E) (lg_index l) gid = Inr hs \<and> already_deleted E e hs = Inr False"
proof -
  have s: "shallow_ok (ei_index (lg_index l))" "\<forall>h m. metas (ei_index (lg_index l)) h = Some m \<longrightarrow> m_type m = APPEND"
    using assms(2) by (simp_all add: replica_pending_def ei_inv_except_def)
  obtain hs where hs: "ei_getHeads (le_index E) (lg_index l) gid = Inr hs"
    "\<forall>v \<in> set hs. shallow_lookup (ei_index (lg_index l)) (se_hash v) = Some v"
    using getHeads_effect [OF _ s(1), of "le_index E" gid] assms(1) by (auto simp: world_ok_def)
  have "\<forall>v \<in> set hs. m_type (se_meta v) = APPEND"
  proof
    fix v assume "v \<in> set hs"
    then have "metas (ei_index (lg_index l)) (se_hash v) = Some (se_meta v)" using hs(2) by (simp add: metas_def)
    then show "m_type (se_meta v) = APPEND" using s(2) by blast
  qed
  with hs(1) show ?thesis using already_deleted_append by blast
qed

text \<open>Inserting an entry whose references are there.\<close>

lemma replica_put:
  assumes W: "world_ok E W B wt" and l: "replica_pending W B P K l" and e: "W h = Some e" and h: "h \<notin> K"
    and ns: "set (m_next (e_meta e)) \<subseteq> K" and head: "isHead \<longrightarrow> h \<notin> P"
  obtains t c s where "HLC_update (lg_hlc l) wt (time_of e) = Inr (t, c)"
    and "ei_put now (le_index E) (lg_index l) e False isHead True = Inr (e, s)"
    and "replica_pending W B (if isHead then P else insert h P) (insert h K)
           (notify (l\<lparr>lg_hlc := c, lg_index := s\<rparr>) ch)"
proof -
  let ?s = "lg_index l" and ?idx = "ei_index (lg_index l)" and ?P = "if isHead then P else insert h P"
  have env: "ei_env_ok (le_index E)" and ok: "entry_ok E W B h e" using W e by (auto simp: world_ok_def)
  have K: "K \<subseteq> dom W" "metas ?idx = part W K" "reference_rel W `` K \<subseteq> K" and inv: "ei_inv_except P ?s"
    using l by (simp_all add: replica_pending_def)
  have fin: "finite K" "card K < card (dom W)"
    using W K(1) h e by (auto simp: world_ok_def intro: finite_subset psubset_card_mono)
  have str: "e_hash_str e = h" using ok by (simp add: entry_ok_def e_hash_str_def)
  have new: "metas ?idx h = None" using h K(2) by (simp add: part_def)
  have look: "shallow_lookup ?idx h = None" using new by (simp add: metas_def)
  have inv': "ei_inv_except ?P ?s" using inv look by (auto simp: ei_inv_except_def heads_ok_except_def)
  have unref: "\<not> referenced ?idx h" using referenced_part [OF K(1,2)] K(3) h by blast
  have self: "h \<notin> set (m_next (e_meta e))" using ns h by blast
  let ?s1 = "?s\<lparr>ei_store := jm_set (ei_store ?s) h (e\<lparr>e_hash := None\<rparr>)\<rparr>"
  have p: "put_hash (le_index E) ?s e True = Inr (e, ?s1)"
    using ok by (simp add: put_hash_def Let_def entry_ok_def)
  have hd: "isHead \<longleftrightarrow> \<not> referenced ?idx (e_hash_str e) \<and> e_hash_str e \<notin> ?P" using unref head str by auto
  obtain s where s: "ei_put now (le_index E) ?s e False isHead True = Inr (e, s)" "ei_inv_except ?P s"
    "metas (ei_index s) = (metas ?idx)(h \<mapsto> e_meta e)" "ei_store s = ei_store ?s1" "ei_initialized s = ei_initialized ?s"
    using ei_put_except [OF env inv' p _ _ _ hd, of False now] ok self new unfolding str
    by (auto simp: entry_ok_def)
  have lim: "B + int (card K) + 1 < tick_limit" using W fin(2) by (auto simp: world_ok_def)
  obtain t c where c: "HLC_update (lg_hlc l) wt (time_of e) = Inr (t, c)" "hlc_below (B + int (card K) + 1) c"
    using hlc_update_below [of "B + int (card K)" "lg_hlc l" "time_of e" wt] lim l W ok
    by (auto simp: replica_pending_def entry_ok_def world_ok_def)
  have st: "W k = Some (b\<lparr>e_hash := Some k\<rparr>)" if "jm_get (ei_store s) k = Some b" for k b
    using that l e ok by (cases e) (auto simp: s(4) replica_pending_def entry_ok_def split: if_splits)
  have cl: "reference_rel W `` insert h K \<subseteq> insert h K" using K(3) e ns by (auto simp: reference_rel_def)
  have m: "metas (ei_index s) = part W (insert h K)" using part_insert [of W h e K] e by (simp add: s(3) K(2))
  have "replica_pending W B ?P (insert h K) (notify (l\<lparr>lg_hlc := c, lg_index := s\<rparr>) ch)"
    unfolding replica_pending_def notify_def
    using s(2,5) m c(2) st cl K(1) e l h fin(1)
    by (auto simp: replica_pending_def add_ac)
  then show thesis using that c(1) s(1) by blast
qed

text \<open>The references of an entry are joined one after the other; those that were not there are pending.\<close>

lemma join_nexts_ok:
  assumes W: "world_ok E W B wt" and srv: "served E (jo_references opts) W" and opts: "\<not> jo_reset opts"
    and rec: "\<And>a x P K l. a \<in> set as \<Longrightarrow> W a = Some x \<Longrightarrow> a \<notin> K \<Longrightarrow> replica_pending W B P K l \<Longrightarrow>
      \<exists>l'. joinRec x l = Some (Inr (True, l')) \<and> replica_pending W B (insert a P) (K \<union> history W a) l'"
    and as: "set as \<subseteq> dom W" and l: "replica_pending W B P K l"
  shows "\<exists>l' Q. join_nexts joinRec now E opts as l = Some (Inr l') \<and> Q \<subseteq> set as \<and>
    replica_pending W B (P \<union> Q) (K \<union> (\<Union>a \<in> set as. history W a)) l'"
  using rec as l
proof (induction as arbitrary: P K l)
  case Nil
  then show ?case by (intro exI [of _ l] exI [of _ "{}"]) simp
next
  case (Cons a as)
  obtain l1 where l1: "log_has now E l a = Inr (a \<in> K, l1)" "replica_pending W B P K l1"
    using replica_has [OF W Cons.prems(3)] by blast
  obtain x where x: "W a = Some x" using Cons.prems(2) by auto
  note ih = Cons.IH [OF Cons.prems(1)]
  show ?case
  proof (cases "a \<in> K")
    case True
    then have "history W a \<subseteq> K" using history_in_closed l1(2) by (auto simp: replica_pending_def)
    then have "K \<union> (\<Union>b \<in> set (a # as). history W b) = K \<union> (\<Union>b \<in> set as. history W b)" by auto
    moreover obtain l' Q where "join_nexts joinRec now E opts as l1 = Some (Inr l')" "Q \<subseteq> set as"
      "replica_pending W B (P \<union> Q) (K \<union> (\<Union>b \<in> set as. history W b)) l'"
      using ih [OF _ _ _ _ _ l1(2)] Cons.prems(2) by auto
    ultimately show ?thesis using True l1(1) opts by (intro exI [of _ l'] exI [of _ Q]) auto
  next
    case False
    obtain l2 where l2: "joinRec x l1 = Some (Inr (True, l2))" "replica_pending W B (insert a P) (K \<union> history W a) l2"
      using Cons.prems(1) [OF _ x False l1(2)] by auto
    obtain l' Q where l': "join_nexts joinRec now E opts as l2 = Some (Inr l')" "Q \<subseteq> set as"
      "replica_pending W B (insert a P \<union> Q) (K \<union> history W a \<union> (\<Union>b \<in> set as. history W b)) l'"
      using ih [OF _ _ _ _ _ l2(2)] Cons.prems(2) by auto
    have "join_nexts joinRec now E opts (a # as) l = Some (Inr l')"
      using l1(1) False replica_nested [OF W l1(2) srv x] l2(1) l'(1) by simp
    with l'(2,3) show ?thesis by (intro exI [of _ l'] exI [of _ "insert a Q"]) (auto simp: Un_assoc)
  qed
qed

text \<open>The number of entries that are not younger than an entry bounds the depth of the recursion.\<close>

definition depth :: "'p world \<Rightarrow> 'p entry \<Rightarrow> nat" where
  "depth W e = card {k. \<exists>x. W k = Some x \<and> time_of x \<le> time_of e}"

lemma depth_less:
  assumes "world_ok E W B wt" and "W h = Some e" and "time_of x < time_of e"
  shows "depth W x < depth W e"
  unfolding depth_def
proof (rule psubset_card_mono)
  show "finite {k. \<exists>x. W k = Some x \<and> time_of x \<le> time_of e}"
    using assms(1) by (auto simp: world_ok_def dom_def elim: rev_finite_subset)
  show "{k. \<exists>y. W k = Some y \<and> time_of y \<le> time_of x} \<subset> {k. \<exists>y. W k = Some y \<and> time_of y \<le> time_of e}"
  proof
    show "{k. \<exists>y. W k = Some y \<and> time_of y \<le> time_of x} \<subseteq> {k. \<exists>y. W k = Some y \<and> time_of y \<le> time_of e}"
      using assms(3) by (auto intro: order_trans)
    have "h \<notin> {k. \<exists>y. W k = Some y \<and> time_of y \<le> time_of x}" using assms(2,3) by auto
    moreover have "h \<in> {k. \<exists>y. W k = Some y \<and> time_of y \<le> time_of e}" using assms(2) by simp
    ultimately show "{k. \<exists>y. W k = Some y \<and> time_of y \<le> time_of x} \<noteq> {k. \<exists>y. W k = Some y \<and> time_of y \<le> time_of e}"
      by metis
  qed
qed

lemma history_time:
  assumes "world_ok E W B wt" and "W n = Some x" and "k \<in> history W n"
  shows "\<exists>y. W k = Some y \<and> time_of y \<le> time_of x"
proof -
  have "(n, k) \<in> (reference_rel W)\<^sup>*" using assms(3) by (simp add: history_def)
  then show ?thesis
  proof (induction rule: rtrancl_induct)
    case base
    show ?case using assms(2) by blast
  next
    case (step j k)
    then obtain y where y: "W j = Some y" "time_of y \<le> time_of x" "k \<in> set (m_next (e_meta y))"
      by (auto simp: reference_rel_def)
    then have "entry_ok E W B j y" using assms(1) by (simp add: world_ok_def)
    then obtain z where "W k = Some z" "time_of z < time_of y" using y(3) by (auto simp: entry_ok_def)
    with y(2) show ?case by (intro exI [of _ z]) auto
  qed
qed

lemma joinRecursively_ok:
  assumes W: "world_ok E W B wt" and srv: "served E (jo_references opts) W"
    and opts: "\<not> jo_reset opts" "jo_trim opts = None"
    and "replica_pending W B P K l" and "W h = Some e" and "h \<notin> K" and "isHead \<longrightarrow> h \<notin> P" and "depth W e \<le> fuel"
  shows "\<exists>l'. joinRecursively fuel now wt E opts isHead e l = Some (Inr (True, l')) \<and>
    replica_pending W B (if isHead then P else insert h P) (K \<union> history W h) l'"
  using assms(5-)
proof (induction fuel arbitrary: P K l h e isHead)
  case 0
  have "depth W e > 0" unfolding depth_def using W 0(2)
    by (subst card_gt_0_iff) (auto simp: world_ok_def dom_def elim: rev_finite_subset)
  with 0 show ?case by simp
next
  case (Suc fuel)
  note l = Suc.prems(1) and e = Suc.prems(2)
  let ?ns = "m_next (e_meta e)" and ?H = "\<Union>a \<in> set (m_next (e_meta e)). history W a"
  have ok: "entry_ok E W B h e" using W e by (simp add: world_ok_def)
  have str: "e_hash_str e = h" using ok by (simp add: entry_ok_def e_hash_str_def)
  obtain n where n: "ei_get_length (lg_index l) = Inr n" "\<not> MAX_SAFE_INTEGER < n" by (rule replica_length [OF W l])
  obtain l1 where l1: "log_has now E l h = Inr (False, l1)" "replica_pending W B P K l1"
    using replica_has [OF W l] Suc.prems(3) by metis
  obtain hs where hs: "ei_getHeads (le_index E) (lg_index l1) (Some (m_gid (e_meta e))) = Inr hs"
    "already_deleted E e hs = Inr False" using replica_not_deleted [OF W l1(2)] by blast
  have older: "\<exists>x. W a = Some x \<and> time_of x < time_of e" if "a \<in> set ?ns" for a
    using ok that by (auto simp: entry_ok_def)
  have rec: "\<exists>l'. joinRecursively fuel now wt E opts False x m = Some (Inr (True, l')) \<and>
      replica_pending W B (insert a Q) (J \<union> history W a) l'"
    if "a \<in> set ?ns" "W a = Some x" "a \<notin> J" "replica_pending W B Q J m" for a x J Q m
  proof -
    have "depth W x < depth W e" using older [OF that(1)] that(2) by (auto intro: depth_less [OF W e])
    with Suc.IH [OF that(4,2,3), of False] Suc.prems(5) show ?thesis by simp
  qed
  have dom: "set ?ns \<subseteq> dom W" using older by blast
  obtain l2 Q where l2: "join_nexts (joinRecursively fuel now wt E opts False) now E opts ?ns l1 = Some (Inr l2)"
    "Q \<subseteq> set ?ns" "replica_pending W B (P \<union> Q) (K \<union> ?H) l2"
    using join_nexts_ok [OF W srv opts(1), of ?ns "joinRecursively fuel now wt E opts False", OF rec dom l1(2)] by blast
  have self: "h \<notin> ?H" using older history_time [OF W] e by fastforce
  have ns: "set ?ns \<subseteq> K \<union> ?H" by (auto simp: history_def)
  have hP: "isHead \<longrightarrow> h \<notin> P \<union> Q" using Suc.prems(4) self l2(2) by (auto simp: history_def)
  let ?P = "if isHead then P else insert h P" and ?c = "\<lparr>ch_added = [(isHead, e)], ch_removed = []\<rparr>"
  obtain t c s where put: "HLC_update (lg_hlc l2) wt (time_of e) = Inr (t, c)"
    "ei_put now (le_index E) (lg_index l2) e False isHead True = Inr (e, s)"
    "replica_pending W B (if isHead then P \<union> Q else insert h (P \<union> Q)) (insert h (K \<union> ?H)) (notify (l2\<lparr>lg_hlc := c, lg_index := s\<rparr>) ?c)"
    using replica_put [OF W l2(3) e _ ns hP] Suc.prems(3) self by blast
  let ?l = "notify (l2\<lparr>lg_hlc := c, lg_index := s\<rparr>) ?c"
  have "replica_pending W B (?P \<union> Q) (insert h (K \<union> ?H)) ?l" using put(3) by (simp split: if_splits)
  moreover have "Q \<subseteq> reference_rel W `` insert h (K \<union> ?H)" using l2(2) e by (auto simp: reference_rel_def)
  ultimately have "replica_pending W B ?P (insert h (K \<union> ?H)) ?l" by (rule replica_pending_referenced)
  moreover have "insert h (K \<union> ?H) = K \<union> history W h" using history_step [of W h e] e by auto
  moreover have "joinRecursively (Suc fuel) now wt E opts isHead e l = Some (Inr (True, ?l))"
  proof -
    have tr: "tr_options (lg_trim l2) = None" using l2(3) by (simp add: replica_pending_def)
    show ?thesis
      using n l1(1) hs l2(1) put(1,2) ok tr Suc.prems
      by (simp add: entry_ok_def str time_of_def finish_append opts)
  qed
  ultimately show ?case by auto
qed

section \<open>Lemmas: joining a list of entries\<close>

lemma join_known:
  assumes W: "world_ok E W B wt" and l: "replica_pending W B P K l" and e: "W h = Some e" "h \<in> K" and "\<not> jo_reset opts"
    and "0 < fuel"
  shows "\<exists>l'. joinRecursively fuel now wt E opts isHead e l = Some (Inr (False, l')) \<and> replica_pending W B P K l'"
proof -
  obtain n where n: "ei_get_length (lg_index l) = Inr n" "\<not> MAX_SAFE_INTEGER < n" by (rule replica_length [OF W l])
  obtain l1 where l1: "log_has now E l h = Inr (h \<in> K, l1)" "replica_pending W B P K l1" using replica_has [OF W l] by blast
  have ok: "entry_ok E W B h e" using W e by (simp add: world_ok_def)
  then have "e_hash_str e = h" "e_hash e \<noteq> None" "e_hash e \<noteq> Some []" by (auto simp: entry_ok_def e_hash_str_def)
  moreover obtain k where "fuel = Suc k" using assms(6) by (cases fuel) auto
  ultimately show ?thesis using n l1 e assms(5) by (intro exI [of _ l1]) simp
qed

lemma next_flags:
  "jm_get (fold (\<lambda>next m. jm_set m next False) ns m) h = (if h \<in> set ns then Some False else jm_get m h)"
  by (induction ns arbitrary: m) auto

lemma join_heads_False:
  "jm_get (join_heads es m) h = Some False \<Longrightarrow> jm_get m h = Some False \<or> (\<exists>e \<in> set es. h \<in> set (m_next (e_meta e)))"
proof (induction es m rule: join_heads.induct)
  case (2 e es heads)
  then show ?case by (auto simp: next_flags split: if_splits)
qed simp

lemma join_heads_has: "jm_has m h \<or> h \<in> e_hash_str ` set es \<Longrightarrow> jm_has (join_heads es m) h"
proof (induction es m rule: join_heads.induct)
  case (2 e es heads)
  have "jm_has (fold (\<lambda>next m. jm_set m next False) (m_next (e_meta e)) (jm_set heads (e_hash_str e) True)) h \<longleftrightarrow>
      h \<in> set (m_next (e_meta e)) \<or> h = e_hash_str e \<or> jm_has heads h"
    using jm_has_set [of heads "e_hash_str e" True h] by (simp only: jm_has_def next_flags split: if_split) auto
  with 2 show ?case by auto
qed simp

text \<open>The union of the histories of some entries.\<close>

definition histories :: "'p world \<Rightarrow> 'p entry list \<Rightarrow> string set" where
  "histories W es = (\<Union>e \<in> set es. history W (e_hash_str e))"

lemma join_all_ok:
  assumes W: "world_ok E W B wt" and srv: "served E (jo_references opts) W"
    and opts: "\<not> jo_reset opts" "jo_trim opts = None" and fuel: "card (dom W) \<le> fuel"
    and "\<forall>e \<in> set es. \<exists>h. W h = Some e" and "\<forall>e \<in> set es. jm_has heads (e_hash_str e)"
    and "replica_pending W B P K l" and "\<forall>h \<in> P. jm_get heads h = Some False"
  shows "\<exists>l' Q. join_all fuel now wt E opts heads es l = Some (Inr l') \<and> replica_pending W B Q (K \<union> histories W es) l' \<and>
    (\<forall>h \<in> Q. jm_get heads h = Some False)"
  using assms(6-)
proof (induction es arbitrary: P K l)
  case Nil
  then show ?case by (intro exI [of _ l] exI [of _ P]) (simp add: histories_def)
next
  case (Cons e es)
  obtain h where h: "W h = Some e" using Cons.prems(1) by auto
  have str: "e_hash_str e = h" using W h by (auto simp: world_ok_def entry_ok_def e_hash_str_def)
  let ?hd = "jm_get heads h = Some True"
  have fin: "finite (dom W)" using W by (simp add: world_ok_def)
  have d: "depth W e \<le> fuel"
    using fuel card_mono [OF fin, of "{k. \<exists>x. W k = Some x \<and> time_of x \<le> time_of e}"] by (force simp: depth_def)
  have pos: "0 < fuel" using fuel h fin by (metis card_gt_0_iff domI empty_iff not_gr_zero le_zero_eq)
  have "\<exists>l1 b Q. joinRecursively fuel now wt E opts ?hd e l = Some (Inr (b, l1)) \<and>
    replica_pending W B Q (K \<union> history W h) l1 \<and> (\<forall>k \<in> Q. jm_get heads k = Some False)"
  proof (cases "h \<in> K")
    case True
    then have "K \<union> history W h = K" using history_in_closed Cons.prems(3) by (auto simp: replica_pending_def)
    then show ?thesis using join_known [OF W Cons.prems(3) h True opts(1) pos, of now ?hd] Cons.prems(4) by metis
  next
    case False
    have hd: "?hd \<longrightarrow> h \<notin> P" using Cons.prems(4) by auto
    let ?Q = "if ?hd then P else insert h P"
    have "\<not> ?hd \<longrightarrow> jm_get heads h = Some False" using Cons.prems(2) str by (auto simp: jm_has_def)
    then have q: "\<forall>k \<in> ?Q. jm_get heads k = Some False" using Cons.prems(4) by (cases ?hd) simp_all
    obtain l' where "joinRecursively fuel now wt E opts ?hd e l = Some (Inr (True, l'))"
      "replica_pending W B ?Q (K \<union> history W h) l'"
      using joinRecursively_ok [OF W srv opts Cons.prems(3) h False hd d, of now] by blast
    with q show ?thesis by (intro exI [of _ l'] exI [of _ True] exI [of _ ?Q] conjI)
  qed
  then obtain l1 b Q where l1: "joinRecursively fuel now wt E opts ?hd e l = Some (Inr (b, l1))"
    "replica_pending W B Q (K \<union> history W h) l1" "\<forall>k \<in> Q. jm_get heads k = Some False" by blast
  obtain l' Q' where "join_all fuel now wt E opts heads es l1 = Some (Inr l')"
    "replica_pending W B Q' (K \<union> history W h \<union> histories W es) l'" "\<forall>k \<in> Q'. jm_get heads k = Some False"
    using Cons.IH [OF _ _ l1(2,3)] Cons.prems(1,2) by auto
  with l1(1) show ?case by (intro exI [of _ l'] exI [of _ Q']) (simp add: str histories_def Un_assoc)
qed

lemma collect_entries:
  "collect now E r (map JEntry es) l acc m = Inr (acc @ es, fold (\<lambda>e m. jm_set m (e_hash_str e) e) es m, l)"
  by (induction es arbitrary: acc m) auto

lemma collected_served:
  assumes "world_ok E W B wt" and "\<forall>e \<in> set es. \<exists>h. W h = Some e"
    and "\<forall>h e. W h = Some e \<longrightarrow> e \<in> set es \<or> le_remote E h = Some e"
  shows "served E (fold (\<lambda>e m. jm_set m (e_hash_str e) e) es []) W"
proof -
  have str: "e_hash_str e = h" if "W h = Some e" for h e
    using assms(1) that by (auto simp: world_ok_def entry_ok_def e_hash_str_def)
  have fold: "jm_get (fold (\<lambda>e m. jm_set m (e_hash_str e) e) xs m) h =
      (if h \<in> e_hash_str ` set xs then W h else jm_get m h)" if "\<forall>e \<in> set xs. \<exists>h. W h = Some e" for xs m h
    using that str by (induction xs arbitrary: m) force+
  have "h \<in> e_hash_str ` set es \<or> le_remote E h = Some e" if "W h = Some e" for h e
    using assms(3) that str [OF that] by blast
  then show ?thesis unfolding served_def fold [OF assms(2)] by (auto split: if_splits)
qed

lemma log_join_replica:
  assumes W: "world_ok E W B wt" and l: "replica W B K l" and es: "\<forall>e \<in> set es. \<exists>h. W h = Some e"
    and "\<forall>h e. W h = Some e \<longrightarrow> e \<in> set es \<or> le_remote E h = Some e"
    and opts: "\<not> jo_reset opts" "jo_trim opts = None" and fuel: "card (dom W) \<le> fuel"
  shows "\<exists>l'. log_join fuel now wt E opts (map JEntry es) l = Some (Inr l') \<and> replica W B (K \<union> histories W es) l'"
proof (cases "es = []")
  case True
  with l show ?thesis by (simp add: log_join_def histories_def)
next
  case False
  let ?m = "fold (\<lambda>e m. jm_set m (e_hash_str e) e) es []" and ?heads = "join_heads es []"
  let ?o = "opts\<lparr>jo_references := ?m\<rparr>" and ?K = "K \<union> histories W es"
  have srv: "served E (jo_references ?o) W" using collected_served [OF W es assms(4)] by simp
  obtain l' Q where l': "join_all fuel now wt E ?o ?heads es l = Some (Inr l')" "replica_pending W B Q ?K l'"
    "\<forall>h \<in> Q. jm_get ?heads h = Some False"
    using join_all_ok [OF W srv _ _ fuel es, of ?heads "{}" K l now] opts l join_heads_has [of "[]" _ es]
    by (auto simp: replica_def)
  have "Q \<subseteq> reference_rel W `` ?K"
  proof
    fix h assume "h \<in> Q"
    then obtain e where e: "e \<in> set es" "h \<in> set (m_next (e_meta e))"
      using l'(3) join_heads_False [of es "[]" h] by auto
    obtain k where k: "W k = Some e" using es e(1) by blast
    then have "e_hash_str e = k" using W by (auto simp: world_ok_def entry_ok_def e_hash_str_def)
    then have "k \<in> ?K" using e(1) by (auto simp: histories_def history_def)
    with k e(2) show "h \<in> reference_rel W `` ?K" by (auto simp: reference_rel_def)
  qed
  then have "replica W B ?K l'" using l'(2) replica_pending_referenced [of W B "{}" Q ?K l'] by (simp add: replica_def)
  with l'(1) False opts(1) show ?thesis by (simp add: log_join_def collect_entries)
qed

text \<open>Batches of entries that arrive one after the other, each with the wall clock at that moment.\<close>

fun join_batches ::
  "nat \<Rightarrow> int \<Rightarrow> 'p log_env \<Rightarrow> 'p join_options \<Rightarrow> (int \<times> 'p entry list) list \<Rightarrow> 'p log \<Rightarrow> 'p log res" where
  "join_batches fuel now E opts [] l = Some (Inr l)"
| "join_batches fuel now E opts ((wt, es) # bs) l =
     rbind (log_join fuel now wt E opts (map JEntry es) l) (join_batches fuel now E opts bs)"

definition batches_ok :: "'p log_env \<Rightarrow> 'p world \<Rightarrow> int \<Rightarrow> (int \<times> 'p entry list) list \<Rightarrow> bool" where
  "batches_ok E W B bs \<longleftrightarrow> (\<forall>(wt, es) \<in> set bs. world_ok E W B wt \<and> (\<forall>e \<in> set es. \<exists>h. W h = Some e)) \<and>
     (\<forall>h e. W h = Some e \<longrightarrow> le_remote E h = Some e)"

lemma join_batches_replica:
  assumes "batches_ok E W B bs" and "replica W B K l" and "\<not> jo_reset opts" "jo_trim opts = None" and "card (dom W) \<le> fuel"
  shows "\<exists>l'. join_batches fuel now E opts bs l = Some (Inr l') \<and> replica W B (K \<union> histories W (concat (map snd bs))) l'"
  using assms(1,2)
proof (induction bs arbitrary: K l)
  case Nil
  then show ?case by (simp add: histories_def)
next
  case (Cons b bs)
  obtain wt es where b: "b = (wt, es)" by (cases b)
  have w: "world_ok E W B wt" "\<forall>e \<in> set es. \<exists>h. W h = Some e" "batches_ok E W B bs"
    "\<forall>h e. W h = Some e \<longrightarrow> e \<in> set es \<or> le_remote E h = Some e"
    using Cons.prems(1) by (auto simp: batches_ok_def b)
  obtain l1 where l1: "log_join fuel now wt E opts (map JEntry es) l = Some (Inr l1)" "replica W B (K \<union> histories W es) l1"
    using log_join_replica [OF w(1) Cons.prems(2) w(2,4) assms(3-5)] by blast
  show ?case using Cons.IH [OF w(3) l1(2)] l1(1) by (simp add: b histories_def Un_assoc)
qed

text \<open>What a replica shows is a function of the set of its entries.\<close>

lemma replica_observed:
  assumes "ei_env_ok (le_index E)" and "replica W B K l"
  shows "metas (ei_index (lg_index l)) = part W K" "ei_length (lg_index l) = int (card K)"
    "\<exists>hs. log_getHeads E l = Inr hs \<and> set (map se_hash hs) = K - reference_rel W `` K"
proof -
  have r: "shallow_ok (ei_index (lg_index l))" "K \<subseteq> dom W" "metas (ei_index (lg_index l)) = part W K"
    "ei_length (lg_index l) = int (length (ei_index (lg_index l)))" "ei_initialized (lg_index l)" "heads_ok (ei_index (lg_index l))"
    using assms(2) by (simp_all add: replica_def replica_pending_def ei_inv_except_def heads_ok_except_empty)
  show "metas (ei_index (lg_index l)) = part W K" by (rule r(3))
  have "length (ei_index (lg_index l)) = card K" using card_metas [OF r(1)] r(3) dom_part [OF r(2)] by simp
  then show "ei_length (lg_index l) = int (card K)" using r(4) by simp
  obtain hs where hs: "ei_getHeads (le_index E) (lg_index l) None = Inr hs"
    "\<forall>e. e \<in> set hs \<longleftrightarrow> shallow_lookup (ei_index (lg_index l)) (se_hash e) = Some e \<and> se_head e"
    using getHeads_effect [OF assms(1) r(1), of None] by auto
  have "h \<in> set (map se_hash hs) \<longleftrightarrow> h \<in> K - reference_rel W `` K" for h
  proof -
    have "h \<in> set (map se_hash hs) \<longleftrightarrow> (\<exists>e. shallow_lookup (ei_index (lg_index l)) h = Some e \<and> se_head e)"
      using hs(2) shallow_store.lookup_key [OF r(1)] by (auto simp: image_iff)
    also have "\<dots> \<longleftrightarrow> metas (ei_index (lg_index l)) h \<noteq> None \<and> \<not> referenced (ei_index (lg_index l)) h"
      using r(6) by (auto simp: heads_ok_def metas_def)
    also have "\<dots> \<longleftrightarrow> h \<in> K - reference_rel W `` K"
      using r(2) by (auto simp: referenced_part [OF r(2,3)] r(3) part_def)
    finally show ?thesis .
  qed
  with hs(1) show "\<exists>hs. log_getHeads E l = Inr hs \<and> set (map se_hash hs) = K - reference_rel W `` K"
    by (auto simp: log_getHeads_def)
qed

section \<open>Properties\<close>


definition world_env :: "nat log_env" where
  "world_env = \<lparr>le_index = ei_env_ex\<lparr>ee_cid := (\<lambda>e. if m_next (e_meta e) = [] then ''a'' else ''b'')\<rparr>, le_publicKey = [1],
     le_canAppend = (\<lambda>_. True), le_verify = (\<lambda>_. True),
     le_remote = [''a'' \<mapsto> entry_ex\<lparr>e_hash := Some ''a'', e_meta := meta_ex 1 ''g'' []\<rparr>,
                  ''b'' \<mapsto> entry_ex\<lparr>e_hash := Some ''b'', e_meta := meta_ex 2 ''g'' [''a'']\<rparr>]\<rparr>"

definition world_ex :: "nat world" where
  "world_ex = le_remote world_env"

definition join_ex :: "nat join_options" where
  "join_ex = \<lparr>jo_verifySignatures = True, jo_trim = None, jo_reset = False, jo_references = []\<rparr>"

lemma world_ex_ok: "world_ok world_env world_ex 12884901888 3"
proof -
  have env: "ei_env_ok (le_index world_env)" using ei_env_ex_ok by (simp add: world_env_def ei_env_ok_def)
  have dom: "dom world_ex = {''a'', ''b''}" by (auto simp: world_ex_def world_env_def)
  have "entry_ok world_env world_ex 12884901888 h e" if "world_ex h = Some e" for h e
    using that
    by (auto simp: world_ex_def world_env_def entry_ok_def time_of_def tick_def timestamp_ok_def meta_ex_def clock_ex_def
        timestamp_less_iff UINT32_MAX_def split: if_splits)
  then show ?thesis
    unfolding world_ok_def dom
    using env by (simp add: UINT32_MAX_def tick_limit_def UINT64_MAX_def MAX_SAFE_INTEGER_def)
qed

lemma empty_replica: "wt * (UINT32_MAX + 1) \<le> B \<Longrightarrow> replica W B {} (log_open wt [] [] None)"
  using coherent_new [of "known_only []" "[]" "[]"]
  by (auto simp: replica_def replica_pending_def log_open_def ei_init_def new_EntryIndex_def ei_inv_except_def heads_ok_except_def
      shallow_ok_def shallow_lookup_def metas_def part_def hm_getSize_def new_Trim_def new_HLC_def hlc_below_def tick_def
      timestamp_ok_def UINT32_MAX_def jm_ok_def fun_eq_iff Let_def)

lemma history_ex: "history world_ex ''b'' = {''a'', ''b''}" "history world_ex ''a'' = {''a''}"
proof -
  have w: "world_ex ''b'' = Some (entry_ex\<lparr>e_hash := Some ''b'', e_meta := meta_ex 2 ''g'' [''a'']\<rparr>)"
    "world_ex ''a'' = Some (entry_ex\<lparr>e_hash := Some ''a'', e_meta := meta_ex 1 ''g'' []\<rparr>)"
    by (simp_all add: world_ex_def world_env_def)
  show a: "history world_ex ''a'' = {''a''}" using history_step [of world_ex "''a''"] w(2) by (simp add: meta_ex_def)
  show "history world_ex ''b'' = {''a'', ''b''}" using history_step [of world_ex "''b''"] w(1) by (auto simp: meta_ex_def a)
qed



lemma batches_ex:
  "\<exists>h. world_ex h = Some a \<Longrightarrow> \<exists>h. world_ex h = Some b \<Longrightarrow>
     batches_ok world_env world_ex 12884901888 [(3, [a]), (3, [b])] \<and> batches_ok world_env world_ex 12884901888 [(3, [b, a])]"
  using world_ex_ok by (simp add: batches_ok_def) (simp add: world_ex_def)


end
