(* ===== verification/LogUpdate.thy ===== *)
theory LogUpdate
  imports LogJoin
begin

text \<open>
  Appending to a log and removing from it: the invariant of a log between operations, what \<open>append\<close> does
  to content, heads and clock, that \<open>remove\<close> and recursive removal return and keep the invariant, and
  defects of recursive removal and of joining, each on a concrete log.
\<close>

section \<open>The invariant of a log\<close>

text \<open>The entry index is right, hashes are not empty, the trimmer has no options of its own, and the clock
  is not behind an entry.\<close>

definition log_inv :: "'p log \<Rightarrow> bool" where
  "log_inv l \<longleftrightarrow> ei_inv (lg_index l) \<and> metas (ei_index (lg_index l)) [] = None \<and> tr_options (lg_trim l) = None \<and>
     (\<forall>h m. metas (ei_index (lg_index l)) h = Some m \<longrightarrow> lc_timestamp (m_clock m) \<le> hlc_last (lg_hlc l))"

definition head_hashes :: "'p log \<Rightarrow> string set" where
  "head_hashes l = {h. metas (ei_index (lg_index l)) h \<noteq> None \<and> \<not> referenced (ei_index (lg_index l)) h}"

lemma getHeads_hashes:
  assumes "ei_env_ok (le_index E)" and "ei_inv (lg_index l)"
  shows "\<exists>hs. log_getHeads E l = Inr hs \<and> distinct (map se_hash hs) \<and> set (map se_hash hs) = head_hashes l \<and>
    (\<forall>x \<in> set hs. metas (ei_index (lg_index l)) (se_hash x) = Some (se_meta x))"
proof -
  have s: "shallow_ok (ei_index (lg_index l))" "heads_ok (ei_index (lg_index l))" using assms(2) by (simp_all add: ei_inv_def)
  obtain hs where hs: "log_getHeads E l = Inr hs" "distinct hs"
    "\<forall>e. e \<in> set hs \<longleftrightarrow> shallow_lookup (ei_index (lg_index l)) (se_hash e) = Some e \<and> se_head e"
    using getHeads_effect [OF assms(1) s(1), of None] by (auto simp: log_getHeads_def)
  have "inj_on se_hash (set hs)" using hs(3) by (force simp: inj_on_def)
  moreover have "h \<in> set (map se_hash hs) \<longleftrightarrow> h \<in> head_hashes l" for h
  proof -
    have "h \<in> set (map se_hash hs) \<longleftrightarrow> (\<exists>e. shallow_lookup (ei_index (lg_index l)) h = Some e \<and> se_head e)"
      using hs(3) shallow_store.lookup_key [OF s(1)] by (auto simp: image_iff)
    then show ?thesis using s(2) by (auto simp: head_hashes_def heads_ok_def metas_def)
  qed
  ultimately show ?thesis using hs by (auto simp: distinct_map metas_def)
qed

section \<open>Lemmas: appending\<close>

text \<open>References that are known are left alone.\<close>

lemma join_missing_known:
  assumes "ei_env_ok (le_index E)" and "entry_cache.coherent (known_only (ei_index (lg_index l))) (ei_cache (lg_index l))"
    and "\<forall>x \<in> set ns. metas (ei_index (lg_index l)) (se_hash x) \<noteq> None"
  shows "\<exists>c. join_missing fuel now wt E (map NextShallow ns) l = Some (Inr (l\<lparr>lg_index := (lg_index l)\<lparr>ei_cache := c\<rparr>\<rparr>)) \<and>
    entry_cache.coherent (known_only (ei_index (lg_index l))) c"
  using assms(2,3)
proof (induction ns arbitrary: l)
  case Nil
  then show ?case by (intro exI [of _ "ei_cache (lg_index l)"]) simp
next
  case (Cons x ns)
  obtain c where c: "log_has now E l (se_hash x) = Inr (True, l\<lparr>lg_index := (lg_index l)\<lparr>ei_cache := c\<rparr>\<rparr>)"
    "entry_cache.coherent (known_only (ei_index (lg_index l))) c"
    using log_has_ok [OF assms(1) Cons.prems(1), of now "se_hash x"] Cons.prems(2) by auto
  obtain c' where "join_missing fuel now wt E (map NextShallow ns) (l\<lparr>lg_index := (lg_index l)\<lparr>ei_cache := c\<rparr>\<rparr>) =
      Some (Inr (l\<lparr>lg_index := (lg_index l)\<lparr>ei_cache := c'\<rparr>\<rparr>))" "entry_cache.coherent (known_only (ei_index (lg_index l))) c'"
    using Cons.IH [of "l\<lparr>lg_index := (lg_index l)\<lparr>ei_cache := c\<rparr>\<rparr>"] c(2) Cons.prems(2) by auto
  with c(1) show ?case by (intro exI [of _ c']) (simp add: join_next_def Let_def)
qed

text \<open>The entry that is created refers to the heads and is later than all of them.\<close>

lemma create_entry_ok:
  assumes "\<forall>x \<in> set ns. se_hash x \<noteq> [] \<and> lc_timestamp (m_clock (se_meta x)) < lc_timestamp c"
    and "ao_type opts = None" and "\<forall>b. m_clock (e_meta b) = c \<longrightarrow> le_canAppend E b"
  shows "\<exists>m st. m_clock m = c \<and> m_next m = map se_hash ns \<and> m_type m = APPEND \<and> m_data m = ao_data opts \<and>
    create_entry E l payload c opts ns =
      Inr (\<lparr>e_hash = Some (ee_cid (le_index E) \<lparr>e_hash = None, e_meta = m, e_payload = payload\<rparr>), e_meta = m, e_payload = payload\<rparr>,
           l\<lparr>lg_index := (lg_index l)\<lparr>ei_store := st\<rparr>\<rparr>)"
proof -
  have "\<not> list_ex (\<lambda>n. Timestamp_compare (lc_timestamp (m_clock (se_meta n))) (lc_timestamp c) \<ge> 0) ns"
    using assms(1) by (fastforce simp: list_ex_iff not_le Timestamp_compare_sign)
  then have cl: "create_clock 0 (\<lambda>_. 0) 0 (le_publicKey E) False False (Some c) ns = Inr c" by (simp add: create_clock_def)
  have ng: "\<exists>g'. nexts_gid xs hs g = Inr (hs @ map se_hash xs, g')" if "\<forall>x \<in> set xs. se_hash x \<noteq> []" for xs hs g
    using that
  proof (induction xs arbitrary: hs g)
    case (Cons a xs)
    let ?g = "Some (case g of None \<Rightarrow> m_gid (se_meta a) | Some g \<Rightarrow> if string_less (m_gid (se_meta a)) g then m_gid (se_meta a) else g)"
    from Cons.IH [of "hs @ [se_hash a]" ?g] Cons.prems show ?case by simp
  qed simp
  have "\<exists>m. create_meta None (ao_newGid opts) (ao_type opts) (ao_data opts) c ns = Inr m \<and>
      m_clock m = c \<and> m_next m = map se_hash ns \<and> m_type m = APPEND \<and> m_data m = ao_data opts"
    using ng [of ns "[]" None] assms(1) by (cases ns) (auto simp: create_meta_def assms(2) simp del: nexts_gid.simps)
  then obtain m where m: "create_meta None (ao_newGid opts) (ao_type opts) (ao_data opts) c ns = Inr m"
    "m_clock m = c" "m_next m = map se_hash ns" "m_type m = APPEND" "m_data m = ao_data opts" by blast
  have "le_canAppend E \<lparr>e_hash = None, e_meta = m, e_payload = payload\<rparr>" using assms(3) m(2) by simp
  then show ?thesis
    using m cl by (intro exI [of _ m]) (auto simp: create_entry_def Let_def simp del: bind_sum_eq_Inr)
qed

lemma log_append_ok:
  assumes env: "ei_env_ok (le_index E)" and inv: "log_inv l"
    and opts: "ao_next opts = None" "ao_type opts = None" "ao_timestamp opts = None" "ao_trim opts = None"
    and now: "HLC_now (lg_hlc l) wt = Inr (t, h')"
    and fresh: "\<forall>b. m_clock (e_meta b) = \<lparr>lc_id = le_publicKey E, lc_timestamp = t\<rparr> \<longrightarrow>
      le_canAppend E b \<and> ee_cid (le_index E) b \<noteq> [] \<and> metas (ei_index (lg_index l)) (ee_cid (le_index E) b) = None \<and>
      \<not> referenced (ei_index (lg_index l)) (ee_cid (le_index E) b)"
  shows "\<exists>e l'. log_append fuel now wt E payload opts l = Some (Inr (e, [], l')) \<and> log_inv l' \<and>
    metas (ei_index (lg_index l)) (e_hash_str e) = None \<and>
    metas (ei_index (lg_index l')) = (metas (ei_index (lg_index l)))(e_hash_str e \<mapsto> e_meta e) \<and>
    set (m_next (e_meta e)) = head_hashes l \<and> head_hashes l' = {e_hash_str e} \<and> m_data (e_meta e) = ao_data opts \<and>
    (\<forall>k m. metas (ei_index (lg_index l)) k = Some m \<longrightarrow> lc_timestamp (m_clock m) < time_of e) \<and>
    lg_changes l' = lg_changes l @ [\<lparr>ch_added = [(True, e)], ch_removed = []\<rparr>]"
proof -
  let ?idx = "ei_index (lg_index l)" and ?c = "\<lparr>lc_id = le_publicKey E, lc_timestamp = t\<rparr>"
  have h': "hlc_last h' = t" "hlc_last (lg_hlc l) < t" using now HLC_update_greater by (auto simp: HLC_now_def)
  have ei: "ei_inv (lg_index l)" and past: "\<forall>k m. metas ?idx k = Some m \<longrightarrow> lc_timestamp (m_clock m) < t"
    using inv h'(2) by (auto simp: log_inv_def intro: le_less_trans)
  obtain hs where hs: "log_getHeads E l = Inr hs" "set (map se_hash hs) = head_hashes l"
    "\<forall>x \<in> set hs. metas ?idx (se_hash x) = Some (se_meta x)"
    using getHeads_hashes [OF env ei] by blast
  have "\<forall>x \<in> set hs. se_hash x \<noteq> [] \<and> lc_timestamp (m_clock (se_meta x)) < lc_timestamp ?c"
    using hs(3) past inv by (force simp: log_inv_def)
  then obtain m st where md: "m_data m = ao_data opts" and m: "m_clock m = ?c" "m_next m = map se_hash hs" "m_type m = APPEND"
    "create_entry E (l\<lparr>lg_hlc := h'\<rparr>) payload ?c opts hs =
      Inr (\<lparr>e_hash = Some (ee_cid (le_index E) \<lparr>e_hash = None, e_meta = m, e_payload = payload\<rparr>), e_meta = m, e_payload = payload\<rparr>,
           l\<lparr>lg_hlc := h', lg_index := (lg_index l)\<lparr>ei_store := st\<rparr>\<rparr>)"
    using create_entry_ok [of hs ?c opts E "l\<lparr>lg_hlc := h'\<rparr>" payload] opts(2) fresh by auto
  let ?h = "ee_cid (le_index E) \<lparr>e_hash = None, e_meta = m, e_payload = payload\<rparr>"
  let ?e = "\<lparr>e_hash = Some ?h, e_meta = m, e_payload = payload\<rparr>" and ?s = "(lg_index l)\<lparr>ei_store := st\<rparr>"
  have h: "?h \<noteq> []" "metas ?idx ?h = None" "\<not> referenced ?idx ?h" using fresh m(1) by simp_all
  have str: "e_hash_str ?e = ?h" by (simp add: e_hash_str_def)
  have self: "?h \<notin> set (m_next m)" using m(2) hs(3) h(2) by auto
  have coh: "entry_cache.coherent (known_only ?idx) (ei_cache (lg_index l))" using ei by (simp add: ei_inv_def)
  obtain c where c: "join_missing fuel now wt E (map NextShallow hs) (l\<lparr>lg_hlc := h', lg_index := ?s\<rparr>) =
      Some (Inr (l\<lparr>lg_hlc := h', lg_index := ?s\<lparr>ei_cache := c\<rparr>\<rparr>))" "entry_cache.coherent (known_only ?idx) c"
    using join_missing_known [OF env, of "l\<lparr>lg_hlc := h', lg_index := ?s\<rparr>" hs fuel now wt] coh hs(3) by auto
  let ?s2 = "?s\<lparr>ei_cache := c\<rparr>"
  have inv2: "ei_inv_except {} ?s2" using ei c(2) by (simp add: ei_inv_except_empty) (simp add: ei_inv_def)
  have p: "put_hash (le_index E) ?s2 ?e False = Inr (?e, ?s2)" using h(1) by (simp add: put_hash_def)
  obtain s where s: "ei_put now (le_index E) ?s2 ?e True True False = Inr (?e, s)" "ei_inv s"
    "metas (ei_index s) = (metas ?idx)(?h \<mapsto> m)"
    using ei_put_except [OF env inv2 p, of True True now] h self m(3) unfolding str by (auto simp: ei_inv_except_empty)
  let ?l = "notify (l\<lparr>lg_hlc := h', lg_index := s\<rparr>) \<lparr>ch_added = [(True, ?e)], ch_removed = []\<rparr>"
  have tr: "tr_options (lg_trim l) = None" using inv by (simp add: log_inv_def)
  have "log_append fuel now wt E payload opts l = Some (Inr (?e, [], ?l))"
    using hs(1) now m(3,4) c(1) s(1) h(1) tr
    by (simp add: log_append_def opts comp_def finish_append del: bind_sum_eq_Inr)
  moreover have "log_inv ?l"
    using s(2,3) inv past m(1) h(1) h' by (auto simp: log_inv_def notify_def less_imp_le split: if_splits)
  moreover have "head_hashes ?l = {?h}"
  proof -
    have r: "referenced (ei_index s) k \<longleftrightarrow> referenced ?idx k \<or> k \<in> head_hashes l" for k
      unfolding referenced_metas s(3) using ex_map_upd [of "metas ?idx" ?h m "\<lambda>x. k \<in> set (m_next x)"] h(2) hs(2) m(2) by simp
    show ?thesis using h r by (auto simp: head_hashes_def notify_def s(3) split: if_splits)
  qed
  ultimately show ?thesis
    using h(2) s(3) hs(2) m(1,2) md past str
    by (intro exI [of _ ?e] exI [of _ ?l]) (simp add: notify_def time_of_def)
qed

section \<open>Lemmas: walking down the references\<close>

text \<open>Entries that are cached or stored carry the hash they are found under, and reference entries of
  lower rank: entries reference older ones only.\<close>

definition ranked :: "(string \<Rightarrow> nat) \<Rightarrow> string \<Rightarrow> 'p entry \<Rightarrow> bool" where
  "ranked rk k e \<longleftrightarrow> e_hash_str e = k \<and> (\<forall>n \<in> set (m_next (e_meta e)). rk n < rk k)"

definition cached_ok :: "(string \<Rightarrow> nat) \<Rightarrow> 'p entryIndex \<Rightarrow> string \<Rightarrow> 'p entry option \<Rightarrow> bool" where
  "cached_ok rk s k v \<longleftrightarrow> known_only (ei_index s) k v \<and> (\<forall>e. v = Some e \<longrightarrow> ranked rk k e)"

definition graph_ok :: "(string \<Rightarrow> nat) \<Rightarrow> 'p entryIndex \<Rightarrow> bool" where
  "graph_ok rk s \<longleftrightarrow> entry_cache.coherent (cached_ok rk s) (ei_cache s) \<and>
     (\<forall>k e. jm_get (ei_store s) k = Some e \<longrightarrow> metas (ei_index s) k \<noteq> None \<and> ranked rk k (e\<lparr>e_hash := Some k\<rparr>))"

lemma resolve_coherent:
  assumes "entry_cache.coherent P (ei_cache s)" and "P k (map_option (\<lambda>e. e\<lparr>e_hash := Some k\<rparr>) (jm_get (ei_store s) k))"
  shows "\<exists>v c. ei_resolve now s k True = Inr (v, s\<lparr>ei_cache := c\<rparr>) \<and> entry_cache.coherent P c \<and> P k v"
proof -
  obtain r c where rc: "cache_get now (ei_cache s) k = Inr (r, c)" "entry_cache.coherent P c" "\<forall>v. r = Some v \<longrightarrow> P k v"
    using entry_cache.coherent_get [OF assms(1), of now k] by blast
  show ?thesis
  proof (cases r)
    case None
    let ?v = "map_option (\<lambda>e. e\<lparr>e_hash := Some k\<rparr>) (jm_get (ei_store s) k)"
    obtain c' where "cache_add now c k ?v 1 = Inr c'" "entry_cache.coherent P c'"
      using entry_cache.coherent_add [OF rc(2), of k ?v now] assms(2) by auto
    with None rc(1) assms(2) show ?thesis
      by (intro exI [of _ ?v] exI [of _ c']) (simp add: ei_resolve_def Let_def del: bind_sum_eq_Inr)
  next
    case (Some v)
    with rc show ?thesis by (intro exI [of _ v] exI [of _ c]) (simp add: ei_resolve_def del: bind_sum_eq_Inr)
  qed
qed

lemma log_get_ranked:
  assumes "graph_ok rk (lg_index l)"
  shows "\<exists>v c. log_get now l k = Inr (v, l\<lparr>lg_index := (lg_index l)\<lparr>ei_cache := c\<rparr>\<rparr>) \<and>
    graph_ok rk ((lg_index l)\<lparr>ei_cache := c\<rparr>) \<and> (\<forall>e. v = Some e \<longrightarrow> ranked rk k e)"
proof -
  let ?s = "lg_index l"
  have "cached_ok rk ?s k (map_option (\<lambda>e. e\<lparr>e_hash := Some k\<rparr>) (jm_get (ei_store ?s) k))"
    using assms by (cases "jm_get (ei_store ?s) k") (auto simp: graph_ok_def cached_ok_def known_only_def)
  then obtain v c where v: "ei_resolve now ?s k True = Inr (v, ?s\<lparr>ei_cache := c\<rparr>)"
    "entry_cache.coherent (cached_ok rk ?s) c" "cached_ok rk ?s k v"
    using resolve_coherent [of "cached_ok rk ?s" ?s k now] assms by (auto simp: graph_ok_def)
  have "cached_ok rk (?s\<lparr>ei_cache := c\<rparr>) = cached_ok rk ?s" by (simp add: fun_eq_iff cached_ok_def)
  then have "graph_ok rk (?s\<lparr>ei_cache := c\<rparr>)" using v(2) assms by (simp add: graph_ok_def)
  with v(1,3) show ?thesis by (auto simp: log_get_def cached_ok_def)
qed

text \<open>What is pushed: references of the entry that no other entry has, with their own references.\<close>

lemma push_nexts_ok:
  assumes "ei_env_ok (le_index E)" and "shallow_ok (ei_index (lg_index l))" and "graph_ok rk (lg_index l)"
    and "\<forall>k m. metas (ei_index (lg_index l)) k = Some m \<longrightarrow> m_type m = APPEND"
  shows "\<exists>new c. push_nexts now E hash ns l stk = Inr (new @ stk, l\<lparr>lg_index := (lg_index l)\<lparr>ei_cache := c\<rparr>\<rparr>) \<and>
    graph_ok rk ((lg_index l)\<lparr>ei_cache := c\<rparr>) \<and>
    (\<forall>(n, nn) \<in> set new. n \<in> set ns \<and> (\<forall>x \<in> set nn. rk x < rk n) \<and>
       (\<forall>k m. metas (ei_index (lg_index l)) k = Some m \<and> n \<in> set (m_next m) \<longrightarrow> k = hash))"
  using assms(2-)
proof (induction ns arbitrary: l stk)
  case Nil
  then show ?case by (intro exI [of _ "[]"] exI [of _ "ei_cache (lg_index l)"]) simp
next
  case (Cons n ns)
  let ?idx = "ei_index (lg_index l)"
  obtain es where es: "ei_getHasNext (le_index E) (lg_index l) n = Inr es"
    "\<forall>e. e \<in> set es \<longleftrightarrow> shallow_lookup ?idx (se_hash e) = Some e \<and> n \<in> set (m_next (se_meta e))"
    using getHasNext_effect [OF assms(1) Cons.prems(1)] by blast
  let ?alt = "list_ex (\<lambda>x. m_type (se_meta x) \<noteq> CUT \<and> se_hash x \<noteq> hash) es"
  show ?case
  proof (cases ?alt)
    case True
    then show ?thesis using Cons.IH [OF Cons.prems, of stk] es(1) by fastforce
  next
    case False
    have only: "k = hash" if m: "metas ?idx k = Some m" "n \<in> set (m_next m)" for k m
    proof -
      obtain x where x: "shallow_lookup ?idx k = Some x" "se_meta x = m" using m(1) by (auto simp: metas_def)
      then have "se_hash x = k" using shallow_store.lookup_key [OF Cons.prems(1)] by blast
      with x m have "x \<in> set es" "m_type (se_meta x) \<noteq> CUT" using es(2) Cons.prems(3) by auto
      with False \<open>se_hash x = k\<close> show "k = hash" by (auto simp: list_ex_iff)
    qed
    obtain v c where v: "log_get now l n = Inr (v, l\<lparr>lg_index := (lg_index l)\<lparr>ei_cache := c\<rparr>\<rparr>)"
      "graph_ok rk ((lg_index l)\<lparr>ei_cache := c\<rparr>)" "\<forall>e. v = Some e \<longrightarrow> ranked rk n e"
      using log_get_ranked [OF Cons.prems(2)] by blast
    let ?l1 = "l\<lparr>lg_index := (lg_index l)\<lparr>ei_cache := c\<rparr>\<rparr>"
    let ?top = "case v of None \<Rightarrow> [] | Some e \<Rightarrow> [(e_hash_str e, m_next (e_meta e))]"
    obtain new c' where new: "push_nexts now E hash ns ?l1 (?top @ stk) = Inr (new @ ?top @ stk, l\<lparr>lg_index := (lg_index l)\<lparr>ei_cache := c'\<rparr>\<rparr>)"
      "graph_ok rk ((lg_index l)\<lparr>ei_cache := c'\<rparr>)"
      "\<forall>(n, nn) \<in> set new. n \<in> set ns \<and> (\<forall>x \<in> set nn. rk x < rk n) \<and> (\<forall>k m. metas ?idx k = Some m \<and> n \<in> set (m_next m) \<longrightarrow> k = hash)"
      using Cons.IH [of ?l1 "?top @ stk"] Cons.prems(1,3) v(2) by auto
    have "push_nexts now E hash (n # ns) l stk = Inr ((new @ ?top) @ stk, l\<lparr>lg_index := (lg_index l)\<lparr>ei_cache := c'\<rparr>\<rparr>)"
      using es(1) False v(1) new(1) by (cases v) (simp_all del: bind_sum_eq_Inr)
    moreover have "\<forall>(m, nn) \<in> set (new @ ?top). m \<in> set (n # ns) \<and> (\<forall>x \<in> set nn. rk x < rk m) \<and>
        (\<forall>k x. metas ?idx k = Some x \<and> m \<in> set (m_next x) \<longrightarrow> k = hash)"
      using new(3) v(3) only by (cases v) (auto simp: ranked_def)
    ultimately show ?thesis using new(2) by blast
  qed
qed

lemma prepareDelete_lookup:
  "ei_env_ok (le_index E) \<Longrightarrow>
     prepareDelete E l h = map_option (\<lambda>e. (RShallow e, Some (h, e))) (shallow_lookup (ei_index (lg_index l)) h)"
  by (simp add: prepareDelete_def getShallow_lookup)

text \<open>The hashes a list of pending deletions removes, and that the list is one of this index.\<close>

definition doomed :: "'p pendingDelete list \<Rightarrow> string set" where
  "doomed ds = {h. \<exists>r e. (r, Some (h, e)) \<in> set ds}"

definition pending_ok :: "shallowEntry hashmap \<Rightarrow> 'p pendingDelete list \<Rightarrow> bool" where
  "pending_ok idx ds \<longleftrightarrow> (\<forall>(r, d) \<in> set ds. \<exists>h e. d = Some (h, e) \<and> r = RShallow e \<and> shallow_lookup idx h = Some e)"

text \<open>All entries that reference \<open>n\<close> are in the set.\<close>

definition only_from :: "shallowEntry hashmap \<Rightarrow> string set \<Rightarrow> string \<Rightarrow> bool" where
  "only_from idx D n \<longleftrightarrow> (\<forall>k m. metas idx k = Some m \<and> n \<in> set (m_next m) \<longrightarrow> k \<in> D)"

lemma only_from_mono: "only_from idx D n \<Longrightarrow> D \<subseteq> D' \<Longrightarrow> only_from idx D' n"
  by (auto simp: only_from_def)

lemma doomed_append: "doomed (xs @ ys) = doomed xs \<union> doomed ys"
  by (auto simp: doomed_def)

text \<open>The walk returns, because what it pushes has a lower rank than what it pops. It collects the
  given entries and then only entries whose referencing entries are all collected, or skipped.\<close>

lemma delete_walk_ok:
  assumes env: "ei_env_ok (le_index E)" and "shallow_ok (ei_index (lg_index l))" and "graph_ok rk (lg_index l)"
    and "\<forall>k m. metas (ei_index (lg_index l)) k = Some m \<longrightarrow> m_type m = APPEND"
    and "\<forall>(h, ns) \<in> set stk. \<forall>n \<in> set ns. rk n < rk h" and "skip \<longrightarrow> (\<exists>h ns s. stk = (h, ns) # s \<and> h \<in> X)"
  shows "\<exists>fuel ds c. delete_walk fuel now E skip l stk td = Some (Inr (td @ ds, l\<lparr>lg_index := (lg_index l)\<lparr>ei_cache := c\<rparr>\<rparr>)) \<and>
    graph_ok rk ((lg_index l)\<lparr>ei_cache := c\<rparr>) \<and> pending_ok (ei_index (lg_index l)) ds \<and>
    (\<forall>(h, ns) \<in> set (if skip then tl stk else stk). metas (ei_index (lg_index l)) h \<noteq> None \<longrightarrow> h \<in> doomed ds) \<and>
    (\<forall>h \<in> doomed ds. h \<in> fst ` set stk \<or> only_from (ei_index (lg_index l)) (X \<union> doomed ds) h)"
  using assms(2-)
proof (induction "mset (map (\<lambda>(h, ns). rk h) stk)" arbitrary: stk l td skip rule: wf_induct_rule [OF wf_mult [OF wf_less_than]])
  case 1
  let ?idx = "ei_index (lg_index l)"
  show ?case
  proof (cases stk)
    case Nil
    have "\<not> skip" using Nil "1.prems"(5) by auto
    then show ?thesis using Nil "1.prems"(2)
      by (intro exI [of _ 0] exI [of _ "[]"] exI [of _ "ei_cache (lg_index l)"]) (simp add: pending_ok_def doomed_def)
  next
    case (Cons p s)
    obtain h ns where p: "p = (h, ns)" by (cases p)
    obtain new c where new: "push_nexts now E h ns l s = Inr (new @ s, l\<lparr>lg_index := (lg_index l)\<lparr>ei_cache := c\<rparr>\<rparr>)"
      "graph_ok rk ((lg_index l)\<lparr>ei_cache := c\<rparr>)"
      "\<forall>(n, nn) \<in> set new. n \<in> set ns \<and> (\<forall>x \<in> set nn. rk x < rk n) \<and> (\<forall>k m. metas ?idx k = Some m \<and> n \<in> set (m_next m) \<longrightarrow> k = h)"
      using push_nexts_ok [OF env "1.prems"(1-3), of now h ns s] by blast
    let ?l1 = "l\<lparr>lg_index := (lg_index l)\<lparr>ei_cache := c\<rparr>\<rparr>"
    let ?d = "if skip then [] else case shallow_lookup ?idx h of None \<Rightarrow> [] | Some e \<Rightarrow> [(RShallow e, Some (h, e))]"
    have rk: "\<forall>n \<in> set ns. rk n < rk h" using "1.prems"(4) Cons p by auto
    have less: "(mset (map (\<lambda>(h, ns). rk h) (new @ s)), mset (map (\<lambda>(h, ns). rk h) stk)) \<in> mult less_than"
    proof -
      have "\<forall>k \<in># mset (map (\<lambda>(h, ns). rk h) new). \<exists>j \<in># {#rk h#}. (k, j) \<in> less_than" using new(3) rk by fastforce
      from one_step_implies_mult [OF _ this, of "mset (map (\<lambda>(h, ns). rk h) s)"] show ?thesis
        by (simp add: Cons p add.commute)
    qed
    have st: "\<forall>(h, ns) \<in> set (new @ s). \<forall>n \<in> set ns. rk n < rk h" using new(3) "1.prems"(4) Cons by fastforce
    obtain fuel ds c' where w: "delete_walk fuel now E False ?l1 (new @ s) (td @ ?d) = Some (Inr (td @ ?d @ ds, l\<lparr>lg_index := (lg_index l)\<lparr>ei_cache := c'\<rparr>\<rparr>))"
      "graph_ok rk ((lg_index l)\<lparr>ei_cache := c'\<rparr>)" "pending_ok ?idx ds"
      "\<forall>(h, ns) \<in> set (new @ s). metas ?idx h \<noteq> None \<longrightarrow> h \<in> doomed ds"
      "\<forall>h \<in> doomed ds. h \<in> fst ` set (new @ s) \<or> only_from ?idx (X \<union> doomed ds) h"
      using "1.hyps" [OF less, of ?l1 False "td @ ?d"] "1.prems"(1,3) new(2) st by auto
    have hd: "skip \<or> (metas ?idx h \<noteq> None \<longrightarrow> h \<in> doomed ?d)" and dh: "doomed ?d \<subseteq> {h}"
      by (auto simp: doomed_def metas_def split: option.splits if_splits)
    have pushed: "only_from ?idx (X \<union> doomed (?d @ ds)) n" if "n \<in> fst ` set new" for n
      using that new(3) hd "1.prems"(5) by (fastforce simp: only_from_def doomed_append Cons p)
    have "delete_walk (Suc fuel) now E skip l stk td = Some (Inr (td @ ?d @ ds, l\<lparr>lg_index := (lg_index l)\<lparr>ei_cache := c'\<rparr>\<rparr>))"
      using new(1) w(1) by (cases skip; cases "shallow_lookup ?idx h"; simp add: Cons p prepareDelete_lookup [OF env])
    moreover have "pending_ok ?idx (?d @ ds)" using w(3) by (auto simp: pending_ok_def split: option.splits)
    moreover have "\<forall>(k, ks) \<in> set (if skip then tl stk else stk). metas ?idx k \<noteq> None \<longrightarrow> k \<in> doomed (?d @ ds)"
    proof clarify
      fix k ks m assume k: "(k, ks) \<in> set (if skip then tl stk else stk)" "metas ?idx k = Some m"
      then have "(k, ks) \<in> set s \<or> k = h \<and> \<not> skip" by (auto simp: Cons p split: if_splits)
      then show "k \<in> doomed (?d @ ds)" using hd w(4) k(2) by (auto simp: doomed_append)
    qed
    moreover have "\<forall>k \<in> doomed (?d @ ds). k \<in> fst ` set stk \<or> only_from ?idx (X \<union> doomed (?d @ ds)) k"
    proof
      fix k assume "k \<in> doomed (?d @ ds)"
      then consider "k = h" | "k \<in> doomed ds" using dh by (auto simp: doomed_append)
      then show "k \<in> fst ` set stk \<or> only_from ?idx (X \<union> doomed (?d @ ds)) k"
      proof cases
        case 2
        then have "k \<in> fst ` set new \<or> k \<in> fst ` set s \<or> only_from ?idx (X \<union> doomed ds) k" using w(5) by auto
        moreover have "X \<union> doomed ds \<subseteq> X \<union> doomed (?d @ ds)" by (auto simp: doomed_append)
        moreover have "set s \<subseteq> set stk" by (auto simp: Cons)
        ultimately show ?thesis using pushed only_from_mono by blast
      qed (simp add: Cons p)
    qed
    ultimately show ?thesis using w(2) by blast
  qed
qed

section \<open>Lemmas: running deletions\<close>

text \<open>The trimmer can move the entry it remembers when that entry is deleted.\<close>

definition cursor_ok :: "'p log_env \<Rightarrow> 'p log \<Rightarrow> bool" where
  "cursor_ok E l \<longleftrightarrow> ee_sort (le_index E) = LastWriteWins \<and> (\<forall>h m. metas (ei_index (lg_index l)) h = Some m \<longrightarrow> u64 m) \<and>
     (\<forall>n. tr_canTrimCacheLastNode (lg_trim l) = Some n \<longrightarrow> u64 (se_meta n))"

lemma deleteFromCache_ok:
  assumes "ei_env_ok (le_index E)" and "ei_inv (lg_index l)" and "cursor_ok E l"
  shows "\<exists>t. deleteFromCache (le_index E) (lg_index l) (lg_trim l) h = Inr t \<and> tr_options t = tr_options (lg_trim l) \<and>
    (\<forall>n. tr_canTrimCacheLastNode t = Some n \<longrightarrow> u64 (se_meta n))"
proof (cases "\<exists>n. tr_canTrimCacheLastNode (lg_trim l) = Some n \<and> se_hash n = h")
  case True
  then obtain n where n: "tr_canTrimCacheLastNode (lg_trim l) = Some n" "se_hash n = h" by blast
  have s: "shallow_ok (ei_index (lg_index l))" "u64 (se_meta n)" "ee_sort (le_index E) = LastWriteWins"
    using assms(2,3) n by (simp_all add: ei_inv_def cursor_ok_def)
  obtain r where r: "ei_getAfter (le_index E) (lg_index l) (se_meta n) = Inr r"
    "\<forall>e. r = Some e \<longrightarrow> shallow_lookup (ei_index (lg_index l)) (se_hash e) = Some e"
    using getAfter_lww [OF assms(1) s(3,1,2)] by blast
  have "\<forall>e. r = Some e \<longrightarrow> u64 (se_meta e)"
    using r(2) assms(3) by (auto simp: cursor_ok_def metas_def)
  with n r(1) show ?thesis by (simp add: deleteFromCache_def)
next
  case False
  with assms(3) show ?thesis by (auto simp: deleteFromCache_def cursor_ok_def split: option.split)
qed

lemma run_delete_ok:
  assumes env: "ei_env_ok (le_index E)" and inv: "log_inv l" and cur: "cursor_ok E l"
    and "se_hash e = h" and "\<forall>m. metas (ei_index (lg_index l)) h = Some m \<longrightarrow> se_meta e = m"
  shows "\<exists>r l'. run_delete E l (x, Some (h, e)) = Inr (r, l') \<and> log_inv l' \<and> cursor_ok E l' \<and> lg_changes l' = lg_changes l \<and>
    metas (ei_index (lg_index l')) = (metas (ei_index (lg_index l)))(h := None)"
proof -
  have ei: "ei_inv (lg_index l)" using inv by (simp add: log_inv_def)
  obtain t where t: "deleteFromCache (le_index E) (lg_index l) (lg_trim l) h = Inr t" "tr_options t = tr_options (lg_trim l)"
    "\<forall>n. tr_canTrimCacheLastNode t = Some n \<longrightarrow> u64 (se_meta n)"
    using deleteFromCache_ok [OF env ei cur] by blast
  have coh: "entry_cache.coherent (\<lambda>j v. known_only (ei_index (lg_index l)) j v \<or> j = h) (ei_cache (lg_index l))"
    using ei by (auto simp: ei_inv_def intro: entry_cache.coherent_mono)
  obtain r s where s: "ei_delete (le_index E) (lg_index l) h (Some e) = Inr (r, s)" "ei_inv s"
    "metas (ei_index s) = (metas (ei_index (lg_index l)))(h := None)"
    using ei_delete_ok [OF env _ _ coh, of "ei_cache (lg_index l)" "Some e"] ei assms(4,5) by auto
  have "run_delete E l (x, Some (h, e)) = Inr (r, l\<lparr>lg_trim := t, lg_index := s\<rparr>)" using t(1) s(1) by simp
  moreover have "log_inv (l\<lparr>lg_trim := t, lg_index := s\<rparr>)" using inv s(2,3) t(2) by (auto simp: log_inv_def split: if_splits)
  moreover have "cursor_ok E (l\<lparr>lg_trim := t, lg_index := s\<rparr>)" using cur s(3) t(3) by (auto simp: cursor_ok_def split: if_splits)
  ultimately show ?thesis using s(3) by (intro exI [of _ r] exI [of _ "l\<lparr>lg_trim := t, lg_index := s\<rparr>"]) simp
qed

lemma run_deletes_ok:
  assumes env: "ei_env_ok (le_index E)" and idx: "shallow_ok idx" and "pending_ok idx ds"
    and "log_inv l" and "cursor_ok E l" and "metas (ei_index (lg_index l)) \<subseteq>\<^sub>m metas idx"
  shows "\<exists>rs l'. run_deletes E l ds = Inr (rs, l') \<and> log_inv l' \<and> cursor_ok E l' \<and> lg_changes l' = lg_changes l \<and>
    metas (ei_index (lg_index l')) = metas (ei_index (lg_index l)) |` (- doomed ds)"
  using assms(3-)
proof (induction ds arbitrary: l)
  case Nil
  then show ?case by (simp add: doomed_def)
next
  case (Cons d ds)
  obtain h e where d: "d = (RShallow e, Some (h, e))" "shallow_lookup idx h = Some e"
    using Cons.prems(1) by (auto simp: pending_ok_def)
  have e: "se_hash e = h" "metas idx h = Some (se_meta e)"
    using d(2) shallow_store.lookup_key [OF idx] by (auto simp: metas_def)
  have agree: "\<forall>m. metas (ei_index (lg_index l)) h = Some m \<longrightarrow> se_meta e = m"
    using Cons.prems(4) e(2) by (auto simp: map_le_def dom_def)
  obtain r l1 where l1: "run_delete E l d = Inr (r, l1)" "log_inv l1" "cursor_ok E l1" "lg_changes l1 = lg_changes l"
    "metas (ei_index (lg_index l1)) = (metas (ei_index (lg_index l)))(h := None)"
    using run_delete_ok [OF env Cons.prems(2,3) e(1) agree] unfolding d(1) by blast
  have "pending_ok idx ds" using Cons.prems(1) by (simp add: pending_ok_def)
  moreover have "metas (ei_index (lg_index l1)) \<subseteq>\<^sub>m metas idx" using Cons.prems(4) by (auto simp: l1(5) map_le_def)
  ultimately obtain rs l' where l': "run_deletes E l1 ds = Inr (rs, l')" "log_inv l'" "cursor_ok E l'" "lg_changes l' = lg_changes l1"
    "metas (ei_index (lg_index l')) = metas (ei_index (lg_index l1)) |` (- doomed ds)"
    using Cons.IH [OF _ l1(2,3)] by blast
  have "doomed (d # ds) = insert h (doomed ds)" by (auto simp: doomed_def d(1))
  then have "metas (ei_index (lg_index l')) = metas (ei_index (lg_index l)) |` (- doomed (d # ds))"
    by (auto simp: l'(5) l1(5) restrict_map_def fun_eq_iff)
  with l1 l' show ?case by (auto simp: run_deletes.simps)
qed

section \<open>Properties\<close>

text \<open>(C5) Appending to a log whose clock is not behind its entries: the new entry references exactly the
  heads and becomes the only head, is later than every entry, is added to the content and reported as a
  head, and the invariant of the log holds again, so that the next append does the same.\<close>

theorem log_append_effect:
  assumes "ei_env_ok (le_index E)" and "log_inv l"
    and "ao_next opts = None" "ao_type opts = None" "ao_timestamp opts = None" "ao_trim opts = None"
    and "HLC_now (lg_hlc l) wt = Inr (t, h')"
    and "\<forall>b. m_clock (e_meta b) = \<lparr>lc_id = le_publicKey E, lc_timestamp = t\<rparr> \<longrightarrow>
      le_canAppend E b \<and> ee_cid (le_index E) b \<noteq> [] \<and> metas (ei_index (lg_index l)) (ee_cid (le_index E) b) = None \<and>
      \<not> referenced (ei_index (lg_index l)) (ee_cid (le_index E) b)"
  shows "\<exists>e l'. log_append fuel now wt E payload opts l = Some (Inr (e, [], l')) \<and> log_inv l' \<and>
    metas (ei_index (lg_index l)) (e_hash_str e) = None \<and>
    metas (ei_index (lg_index l')) = (metas (ei_index (lg_index l)))(e_hash_str e \<mapsto> e_meta e) \<and>
    set (m_next (e_meta e)) = head_hashes l \<and> head_hashes l' = {e_hash_str e} \<and>
    (\<forall>k m. metas (ei_index (lg_index l)) k = Some m \<longrightarrow> lc_timestamp (m_clock m) < time_of e) \<and>
    lg_changes l' = lg_changes l @ [\<lparr>ch_added = [(True, e)], ch_removed = []\<rparr>]"
  using log_append_ok [OF assms, of fuel now payload] by blast

text \<open>Removing entries deletes exactly the given ones that the log has, reports them in the order given,
  and keeps the invariant.\<close>

theorem log_remove_effect:
  assumes "ei_env_ok (le_index E)" and "log_inv l" and "cursor_ok E l"
  shows "\<exists>c l'. log_remove fuel now E l entries False = Some (Inr (c, l')) \<and> log_inv l' \<and> cursor_ok E l' \<and>
    metas (ei_index (lg_index l')) = metas (ei_index (lg_index l)) |` (- fst ` set entries) \<and>
    ch_added c = [] \<and> (\<exists>es. ch_removed c = map RShallow es \<and>
      map se_hash es = filter (\<lambda>h. metas (ei_index (lg_index l)) h \<noteq> None) (map fst entries))"
proof -
  let ?idx = "ei_index (lg_index l)"
  let ?p = "\<lambda>(h, _). case prepareDelete E l h of None \<Rightarrow> [] | Some d \<Rightarrow> [d]"
  let ?ds = "concat (map ?p entries)"
  let ?c = "\<lparr>ch_added = [], ch_removed = map fst ?ds\<rparr>"
  have ok: "shallow_ok ?idx" using assms(2) by (simp add: log_inv_def ei_inv_def)
  have pd: "prepareDelete E l h = map_option (\<lambda>e. (RShallow e, Some (h, e))) (shallow_lookup ?idx h)" for h
    by (rule prepareDelete_lookup [OF assms(1)])
  have p: "pending_ok ?idx ?ds" unfolding pending_ok_def by (auto simp: pd split: option.splits)
  have doomed: "h \<in> doomed ?ds \<longleftrightarrow> h \<in> fst ` set entries \<and> metas ?idx h \<noteq> None" for h
  proof (induction entries)
    case (Cons x xs)
    have "h \<in> doomed (?p x) \<longleftrightarrow> h = fst x \<and> metas ?idx h \<noteq> None"
      by (cases x; cases "shallow_lookup ?idx (fst x)") (auto simp: doomed_def pd metas_def)
    with Cons show ?case by (auto simp: doomed_append)
  qed (simp add: doomed_def)
  have gone: "metas ?idx |` (- doomed ?ds) = metas ?idx |` (- fst ` set entries)"
    by (auto simp: restrict_map_def fun_eq_iff doomed)
  have es: "\<exists>es. map fst ?ds = map RShallow es \<and> map se_hash es = filter (\<lambda>h. metas ?idx h \<noteq> None) (map fst entries)"
  proof (induction entries)
    case (Cons x xs)
    then obtain es where es: "map fst (concat (map ?p xs)) = map RShallow es"
      "map se_hash es = filter (\<lambda>h. metas ?idx h \<noteq> None) (map fst xs)" by auto
    obtain h ns where x: "x = (h, ns)" by (cases x)
    show ?case
    proof (cases "shallow_lookup ?idx h")
      case None
      with es x show ?thesis by (intro exI [of _ es]) (simp add: pd metas_def)
    next
      case (Some e)
      then have "se_hash e = h" using shallow_store.lookup_key [OF ok] by blast
      with es x Some show ?thesis by (intro exI [of _ "e # es"]) (simp add: pd metas_def)
    qed
  qed simp
  obtain rs l' where l': "run_deletes E (notify l ?c) ?ds = Inr (rs, l')" "log_inv l'" "cursor_ok E l'"
    "metas (ei_index (lg_index l')) = metas ?idx |` (- doomed ?ds)"
    using run_deletes_ok [OF assms(1) ok p, of "notify l ?c"] assms(2,3)
    by (auto simp: notify_def log_inv_def cursor_ok_def)
  show ?thesis
  proof (cases "entries = []")
    case True
    with assms(2,3) show ?thesis by (simp add: log_remove_def restrict_map_def fun_eq_iff)
  next
    case False
    then have "log_remove fuel now E l entries False = Some (Inr (?c, l'))"
      using l'(1) by (simp add: log_remove_def Let_def del: bind_sum_eq_Inr)
    with l'(2-4) es gone show ?thesis by (intro exI [of _ ?c] exI [of _ l']) simp
  qed
qed


definition log_env_ex :: "nat log_env" where
  "log_env_ex = \<lparr>le_index = ei_env_ex, le_publicKey = [1], le_canAppend = (\<lambda>_. True), le_verify = (\<lambda>_. True), le_remote = (\<lambda>_. None)\<rparr>"

definition log_ex :: "nat log" where
  "log_ex = \<lparr>lg_index = ei_ex, lg_trim = new_Trim None, lg_hlc = new_HLC 5 0 0 0 None, lg_closed = False, lg_loadedOnce = True, lg_changes = []\<rparr>"

lemma log_ex_ok:
  "ei_env_ok (le_index log_env_ex)" "log_inv log_ex" "cursor_ok log_env_ex log_ex" "lg_index log_ex = ei_ex" "graph_ok rk (lg_index log_ex)"
proof -
  show "ei_env_ok (le_index log_env_ex)" using ei_env_ex_ok by (simp add: log_env_ex_def)
  show "lg_index log_ex = ei_ex" by (simp add: log_ex_def)
  show "log_inv log_ex"
    using ei_inv_ex by (auto simp: log_inv_def log_ex_def ei_ex_index metas_ex new_Trim_def new_HLC_def meta_ex_def clock_ex_def
        timestamp_less_iff less_eq_timestamp_def Timestamp_compare_def Let_def split: if_splits)
  show "cursor_ok log_env_ex log_ex"
    using ei_ex_run by (auto simp: cursor_ok_def log_ex_def log_env_ex_def new_Trim_def)
  show "graph_ok rk (lg_index log_ex)"
    using coherent_new by (simp add: graph_ok_def log_ex_def ei_ex_def ei_init_def new_EntryIndex_def)
qed

theorem log_append_effect_witness:
  "\<exists>e l'. log_append 0 9 5 log_env_ex 7 \<lparr>ao_type = None, ao_data = None, ao_timestamp = None, ao_next = None, ao_newGid = ''g'', ao_trim = None\<rparr> log_ex =
      Some (Inr (e, [], l')) \<and> log_inv l' \<and> head_hashes l' = {e_hash_str e} \<and> set (m_next (e_meta e)) = head_hashes log_ex"
proof -
  have "HLC_now (lg_hlc log_ex) 5 = Inr (Timestamp 5 1, (lg_hlc log_ex)\<lparr>hlc_last := Timestamp 5 1\<rparr>)"
    by (simp add: log_ex_def new_HLC_def HLC_now_def HLC_update_def Timestamp_bigger_def Timestamp_compare_def validateOffset_def
        maxWallTime_def next_timestamp_def UINT32_MAX_def UINT64_MAX_def Let_def)
  from log_append_effect [OF log_ex_ok(1,2) _ _ _ _ this, of "\<lparr>ao_type = None, ao_data = None, ao_timestamp = None, ao_next = None, ao_newGid = ''g'', ao_trim = None\<rparr>" 0 9 7]
  show ?thesis
    unfolding log_ex_ok(4) by (simp add: log_env_ex_def ei_env_ex_def ei_ex_index metas_ex referenced_ex) blast
qed

theorem log_remove_effect_witness:
  "\<exists>c l'. log_remove 0 9 log_env_ex log_ex [(''b'', [''a''])] False = Some (Inr (c, l')) \<and> log_inv l' \<and>
     metas (ei_index (lg_index l')) = metas index_ex |` (- {''b''})"
  using log_remove_effect [OF log_ex_ok(1-3), of 0 9 "[(''b'', [''a''])]"] by (auto simp: log_ex_ok(4) ei_ex_index)


section \<open>Defects\<close>

text \<open>Entries \<open>a\<close>, \<open>b\<close> and \<open>c\<close>, created at the times 1, 2 and 3.\<close>

definition entry_at :: "int \<Rightarrow> string list \<Rightarrow> nat entry" where
  "entry_at t ns = \<lparr>e_hash = Some (if t = 1 then ''a'' else if t = 2 then ''b'' else ''c''), e_meta = meta_ex t ''g'' ns, e_payload = 7\<rparr>"

definition env_at :: "(nat entry \<Rightarrow> bool) \<Rightarrow> (string \<Rightarrow> nat entry option) \<Rightarrow> nat log_env" where
  "env_at can remote = \<lparr>le_index = ei_env_ex\<lparr>ee_cid := (\<lambda>e. if m_clock (e_meta e) = clock_ex 1 then ''a''
       else if m_clock (e_meta e) = clock_ex 2 then ''b'' else ''c'')\<rparr>,
     le_publicKey = [1], le_canAppend = can, le_verify = (\<lambda>_. True), le_remote = remote\<rparr>"

definition flags :: "nat log \<Rightarrow> (string \<times> bool) list" where
  "flags l = map (\<lambda>(k, v). (se_hash (iv_value v), se_head (iv_value v))) (ei_index (lg_index l))"

definition log_of :: "nat log res \<Rightarrow> nat log" where
  "log_of r = (case r of Some (Inr l) \<Rightarrow> l | _ \<Rightarrow> log_open 0 [] [] None)"

definition join_opts :: "bool \<Rightarrow> nat join_options" where
  "join_opts reset = \<lparr>jo_verifySignatures = False, jo_trim = None, jo_reset = reset, jo_references = []\<rparr>"

text \<open>Removing all branches of a stem recursively leaves the stem: each of two removed heads counts as
  another entry that still references their common parent.\<close>

theorem recursive_removal_keeps_stem:
  "let E = env_at (\<lambda>_. True) (\<lambda>_. None);
       l = log_of (log_join 9 1 3 E (join_opts False) [JEntry (entry_at 1 []), JEntry (entry_at 2 [''a'']), JEntry (entry_at 3 [''a''])]
             (log_open 3 [] [] None))
   in flags l = [(''a'', False), (''b'', True), (''c'', True)] \<and>
      map_option (map_sum id (\<lambda>(c, l'). flags l')) (log_remove 9 1 E l [(''b'', [''a'']), (''c'', [''a''])] True) = Some (Inr [(''a'', True)])"
  by code_simp

text \<open>A join that is refused leaves its references behind as non-heads: \<open>b\<close> is not allowed, but \<open>a\<close>, which
  it references, was joined before the check, is no head, and nothing references it. The log has an
  entry and no heads.\<close>

theorem refused_join_hides_references:
  "let E = env_at (\<lambda>e. m_next (e_meta e) = []) [''a'' \<mapsto> entry_at 1 []];
       l = log_of (log_join 9 1 3 E (join_opts False) [JEntry (entry_at 2 [''a''])] (log_open 3 [] [] None))
   in flags l = [(''a'', False)] \<and> log_getHeads E l = Inr []"
  by code_simp

text \<open>An entry that was removed and is joined again becomes a head although an entry of the log references it.\<close>

theorem rejoined_entry_is_head:
  "let E = env_at (\<lambda>_. True) (\<lambda>_. None);
       l = log_of (log_join 9 1 3 E (join_opts False) [JEntry (entry_at 1 []), JEntry (entry_at 2 [''a''])] (log_open 3 [] [] None));
       l1 = snd (projr (the (log_remove 9 1 E l [(''a'', [])] False)));
       l2 = log_of (log_join 9 1 3 E (join_opts False) [JEntry (entry_at 1 [])] l1)
   in flags l1 = [(''b'', True)] \<and> flags l2 = [(''b'', True), (''a'', True)]"
  by code_simp

text \<open>Joining with \<open>reset\<close>, as \<open>recover\<close> does with all stored entries, flags an entry in the middle of a chain
  as head: the computation of the heads skips the references of an entry that another one references.\<close>

theorem reset_join_flags_referenced:
  "let E = env_at (\<lambda>_. True) (\<lambda>_. None);
       l = log_of (log_join 9 1 3 E (join_opts True)
             [JEntry (entry_at 3 [''b'']), JEntry (entry_at 2 [''a'']), JEntry (entry_at 1 [])] (log_open 3 [] [] None))
   in flags l = [(''a'', True), (''b'', False), (''c'', True)]"
  by code_simp

end
