(* ===== verification/ExchangeHeads.thy ===== *)
theory ExchangeHeads
  imports LogUpdate SimpleSync
begin

text \<open>
  Sending entries: \<open>packages/programs/data/shared-log/src/exchange-heads.ts\<close>, and the messages that the synchroniser of
  \<open>sync/simple.ts\<close> answers with them. The heads are put into messages of about a hundred kilobytes; every head goes
  with the graph ids of entries that it references through entries of other graphs. The size of an entry in
  bytes is a parameter.

  The walk over the references has fuel; the number of indexed entries plus three is enough.

  Shown here: the messages hold exactly the entries that were found, in order, and the references name other
  graphs, each once.
\<close>

section \<open>References of an entry\<close>

fun element_meta :: "'p removed_entry \<Rightarrow> meta" where
  "element_meta (RShallow e) = se_meta e"
| "element_meta (RFull e) = e_meta e"

definition indexed_nexts :: "'p log_env \<Rightarrow> 'p log \<Rightarrow> meta \<Rightarrow> 'p removed_entry list" where
  "indexed_nexts L l m =
     concat (map (\<lambda>n. case ei_getShallow (le_index L) (lg_index l) n of None \<Rightarrow> [] | Some e \<Rightarrow> [RShallow e]) (m_next m))"

fun gid_level ::
  "'p log_env \<Rightarrow> 'p log \<Rightarrow> 'p removed_entry list \<Rightarrow> (string, 'p removed_entry) jsmap \<Rightarrow> 'p removed_entry list \<Rightarrow>
     (string, 'p removed_entry) jsmap \<times> 'p removed_entry list" where
  "gid_level L l [] gids nexts = (gids, nexts)"
| "gid_level L l (x # level) gids nexts =
     (let m = element_meta x
      in if jm_has gids (m_gid m) then gid_level L l level gids nexts
         else gid_level L l level (jm_set gids (m_gid m) x) (nexts @ (if m_type m = APPEND then indexed_nexts L l m else [])))"

fun gid_loop ::
  "nat \<Rightarrow> 'p log_env \<Rightarrow> 'p log \<Rightarrow> 'p removed_entry list \<Rightarrow> (string, 'p removed_entry) jsmap \<Rightarrow> (string, 'p removed_entry) jsmap option" where
  "gid_loop 0 L l level gids = None"
| "gid_loop (Suc fuel) L l level gids =
     (if level = [] then Some gids else let (gids', nexts) = gid_level L l level gids [] in gid_loop fuel L l nexts gids')"

fun resolve_elements :: "int \<Rightarrow> 'p removed_entry list \<Rightarrow> 'p log \<Rightarrow> log_error + 'p entry list \<times> 'p log" where
  "resolve_elements now [] l = Inr ([], l)"
| "resolve_elements now (RFull e # xs) l = bind_sum (resolve_elements now xs l) (\<lambda>(es, l'). Inr (e # es, l'))"
| "resolve_elements now (RShallow s # xs) l =
     bind_sum (lift_index (ei_resolve now (lg_index l) (se_hash s) False)) (\<lambda>(e, i).
     bind_sum (resolve_elements now xs (l\<lparr>lg_index := i\<rparr>)) (\<lambda>(es, l').
       Inr (case e of None \<Rightarrow> es | Some e \<Rightarrow> e # es, l')))"

definition allEntriesWithUniqueGids ::
  "nat \<Rightarrow> int \<Rightarrow> 'p log_env \<Rightarrow> 'p log \<Rightarrow> 'p entry \<Rightarrow> (log_error + 'p entry list \<times> 'p log) option" where
  "allEntriesWithUniqueGids fuel now L l e =
     (case gid_loop fuel L l [RFull e] [] of
        None \<Rightarrow> None
      | Some gids \<Rightarrow> Some (resolve_elements now (jm_values gids) l))"

section \<open>Messages\<close>

definition MAX_EXCHANGE_MESSAGE_SIZE :: int where "MAX_EXCHANGE_MESSAGE_SIZE = 100000"

record 'p entryWithRefs =
  ew_entry :: "'p entry"
  ew_gidRefrences :: "string list"

datatype 'p head = HeadEntry "'p entry" | HeadHash string

record 'p exchange =
  ex_size :: int
  ex_current :: "'p entryWithRefs list"
  ex_visited :: "string jsset"
  ex_messages :: "'p entryWithRefs list list"

definition unvisited_refs :: "'p entry list \<Rightarrow> string jsset \<Rightarrow> 'p entry list \<times> string jsset" where
  "unvisited_refs es visited =
     foldl (\<lambda>(refs, v) x. if e_hash_str x \<in> set v then (refs, v) else (refs @ [x], js_add v (e_hash_str x))) ([], visited) es"

definition push_head :: "('p entry \<Rightarrow> int) \<Rightarrow> 'p entry \<Rightarrow> 'p entry list \<Rightarrow> 'p exchange \<Rightarrow> 'p exchange" where
  "push_head sizeOf e all x =
     (let (refs, visited) = unvisited_refs all (js_add (ex_visited x) (e_hash_str e));
          current = ex_current x @ [\<lparr>ew_entry = e, ew_gidRefrences = map (\<lambda>r. m_gid (e_meta r)) refs\<rparr>];
          size = ex_size x + sizeOf e
      in if size > MAX_EXCHANGE_MESSAGE_SIZE
         then \<lparr>ex_size = 0, ex_current = [], ex_visited = visited, ex_messages = ex_messages x @ [current]\<rparr>
         else \<lparr>ex_size = size, ex_current = current, ex_visited = visited, ex_messages = ex_messages x\<rparr>)"

fun find_head :: "int \<Rightarrow> 'p log \<Rightarrow> 'p head \<Rightarrow> log_error + 'p entry option \<times> 'p log" where
  "find_head now l (HeadEntry e) = Inr (Some e, l)"
| "find_head now l (HeadHash h) = log_get now l h"

fun exchange_loop ::
  "nat \<Rightarrow> int \<Rightarrow> 'p log_env \<Rightarrow> ('p entry \<Rightarrow> int) \<Rightarrow> 'p head list \<Rightarrow> 'p log \<Rightarrow> 'p exchange \<Rightarrow> (log_error + 'p exchange \<times> 'p log) option" where
  "exchange_loop fuel now L sizeOf [] l x = Some (Inr (x, l))"
| "exchange_loop fuel now L sizeOf (h # hs) l x =
     rbind (Some (find_head now l h)) (\<lambda>(found, l1).
       case found of
         None \<Rightarrow> exchange_loop fuel now L sizeOf hs l1 x
       | Some e \<Rightarrow>
           rbind (allEntriesWithUniqueGids fuel now L l1 e) (\<lambda>(all, l2).
             exchange_loop fuel now L sizeOf hs l2 (push_head sizeOf e all x)))"

definition createExchangeHeadsMessages ::
  "nat \<Rightarrow> int \<Rightarrow> 'p log_env \<Rightarrow> ('p entry \<Rightarrow> int) \<Rightarrow> 'p head list \<Rightarrow> 'p log \<Rightarrow> (log_error + 'p entryWithRefs list list \<times> 'p log) option" where
  "createExchangeHeadsMessages fuel now L sizeOf heads l =
     rbind (exchange_loop fuel now L sizeOf heads l \<lparr>ex_size = 0, ex_current = [], ex_visited = [], ex_messages = []\<rparr>) (\<lambda>(x, l').
       Some (Inr (ex_messages x @ (if length (ex_current x) > 0 then [ex_current x] else []), l')))"

text \<open>What the synchroniser does with a message: announcements are queued, requests are answered with entries.\<close>

datatype sync_request = AnnouncedHashes "string list" | RequestedHashes "string list"

definition sync_onMessage ::
  "nat \<Rightarrow> int \<Rightarrow> 'p log_env \<Rightarrow> ('p entry \<Rightarrow> int) \<Rightarrow> (syncable_key \<Rightarrow> bool) \<Rightarrow> sync_request \<Rightarrow> string \<Rightarrow> sync \<Rightarrow> 'p log \<Rightarrow>
     (log_error + sync \<times> ('p entryWithRefs list \<times> string) list \<times> 'p log) option" where
  "sync_onMessage fuel now L sizeOf has msg sender s l =
     (case msg of
        AnnouncedHashes hashes \<Rightarrow> Some (Inr (queueSync has False now (map HashKey hashes) sender s, [], l))
      | RequestedHashes hashes \<Rightarrow>
          rbind (createExchangeHeadsMessages fuel now L sizeOf (map HeadHash hashes) l) (\<lambda>(messages, l').
            Some (Inr (s, map (\<lambda>m. (m, sender)) messages, l'))))"

section \<open>The walk over the references\<close>

text \<open>The graph ids that can be met: those of the index and of what is on the way.\<close>

definition index_gids :: "'p log \<Rightarrow> string set" where
  "index_gids l = (\<lambda>v. m_gid (se_meta (iv_value v))) ` set (jm_values (ei_index (lg_index l)))"

abbreviation element_gid :: "'p removed_entry \<Rightarrow> string" where
  "element_gid x \<equiv> m_gid (element_meta x)"

definition gids_ok :: "(string, 'p removed_entry) jsmap \<Rightarrow> bool" where
  "gids_ok gids \<longleftrightarrow> jm_ok gids \<and> (\<forall>(g, x) \<in> set gids. element_gid x = g)"

lemma indexed_nexts_gids: "element_gid ` set (indexed_nexts L l m) \<subseteq> index_gids l"
proof
  fix g assume "g \<in> element_gid ` set (indexed_nexts L l m)"
  then obtain n e where "ei_getShallow (le_index L) (lg_index l) n = Some e" "g = m_gid (se_meta e)"
    by (auto simp: indexed_nexts_def split: option.splits) (metis option.inject)
  then obtain k v where "(k, v) \<in> set (ei_index (lg_index l))" "g = m_gid (se_meta (iv_value v))"
    by (auto simp: ei_getShallow_def hm_get_def dest: map_of_SomeD)
  then show "g \<in> index_gids l" by (force simp: index_gids_def jm_values_def)
qed

lemma gid_level_ok:
  assumes "gid_level L l level gids nexts = (gids', nexts')" and "gids_ok gids"
  shows "gids_ok gids' \<and> fst ` set gids' = fst ` set gids \<union> element_gid ` set level \<and>
    element_gid ` set nexts' \<subseteq> element_gid ` set nexts \<union> index_gids l \<and>
    (element_gid ` set level \<subseteq> fst ` set gids \<longrightarrow> nexts' = nexts) \<and> (\<exists>rest. gids' = gids @ rest)"
  using assms
proof (induction level arbitrary: gids nexts)
  case (Cons x level)
  let ?m = "element_meta x"
  let ?n = "if m_type ?m = APPEND then indexed_nexts L l ?m else []"
  show ?case
  proof (cases "jm_has gids (m_gid ?m)")
    case True
    with Cons show ?thesis by (auto simp: Let_def jm_has_iff insert_absorb)
  next
    case False
    have new: "jm_set gids (m_gid ?m) x = gids @ [(m_gid ?m, x)]" using False by (induction gids) (auto simp: jm_has_def split: if_splits)
    then have "gids_ok (jm_set gids (m_gid ?m) x)" using Cons.prems(2) False by (auto simp: gids_ok_def jm_ok_def jm_has_iff)
    then have ih: "gids_ok gids' \<and> fst ` set gids' = fst ` set (jm_set gids (m_gid ?m) x) \<union> element_gid ` set level \<and>
      element_gid ` set nexts' \<subseteq> element_gid ` set (nexts @ ?n) \<union> index_gids l \<and> (\<exists>rest. gids' = jm_set gids (m_gid ?m) x @ rest)"
      using Cons.IH [of "jm_set gids (m_gid ?m) x" "nexts @ ?n"] Cons.prems(1) False by (simp add: Let_def)
    have "\<not> element_gid ` set (x # level) \<subseteq> fst ` set gids" using False by (auto simp: jm_has_iff)
    moreover have "element_gid ` set (nexts @ ?n) \<subseteq> element_gid ` set nexts \<union> index_gids l" using indexed_nexts_gids [of L l ?m] by auto
    then have "element_gid ` set nexts' \<subseteq> element_gid ` set nexts \<union> index_gids l" using ih by blast
    moreover have "fst ` set gids' = fst ` set gids \<union> element_gid ` set (x # level)" using ih by auto
    ultimately show ?thesis using ih new by auto
  qed
qed auto

text \<open>Every round with a new graph id has one less to meet; a round without is the last one.\<close>

lemma gid_loop_returns:
  assumes "gids_ok gids" and "card (index_gids l \<union> element_gid ` set level - fst ` set gids) + 1 < fuel"
  shows "\<exists>gids'. gid_loop fuel L l level gids = Some gids' \<and> gids_ok gids'"
  using assms
proof (induction fuel arbitrary: level gids)
  case (Suc fuel)
  show ?case
  proof (cases "level = []")
    case False
    obtain gids1 nexts where g: "gid_level L l level gids [] = (gids1, nexts)" by force
    note ok = gid_level_ok [OF g Suc.prems(1)]
    have fin: "finite (index_gids l)" by (simp add: index_gids_def)
    have sub: "index_gids l \<union> element_gid ` set nexts - fst ` set gids1 \<subseteq> index_gids l \<union> element_gid ` set level - fst ` set gids" using ok by auto
    have "\<exists>gids'. gid_loop fuel L l nexts gids1 = Some gids' \<and> gids_ok gids'"
    proof (cases "element_gid ` set level \<subseteq> fst ` set gids")
      case True
      then have "nexts = []" using ok by simp
      then show ?thesis using Suc.prems(2) ok by (cases fuel) auto
    next
      case False
      then obtain g where "g \<in> element_gid ` set level" "g \<notin> fst ` set gids" by blast
      then have "g \<in> index_gids l \<union> element_gid ` set level - fst ` set gids" "g \<notin> index_gids l \<union> element_gid ` set nexts - fst ` set gids1" using ok by auto
      then have "index_gids l \<union> element_gid ` set nexts - fst ` set gids1 \<subset> index_gids l \<union> element_gid ` set level - fst ` set gids" using sub by blast
      then have "card (index_gids l \<union> element_gid ` set nexts - fst ` set gids1) < card (index_gids l \<union> element_gid ` set level - fst ` set gids)"
        by (intro psubset_card_mono) (simp add: fin)
      then have "card (index_gids l \<union> element_gid ` set nexts - fst ` set gids1) + 1 < fuel" using Suc.prems(2) by linarith
      then show ?thesis using Suc.IH [of gids1 nexts] ok by blast
    qed
    then show ?thesis using False g by simp
  qed (use Suc.prems in simp)
qed simp

lemma gid_loop_extends: "gid_loop fuel L l level gids = Some gids' \<Longrightarrow> gids_ok gids \<Longrightarrow> \<exists>rest. gids' = gids @ rest"
proof (induction fuel arbitrary: level gids)
  case (Suc fuel)
  obtain gids1 nexts where g: "gid_level L l level gids [] = (gids1, nexts)" by force
  from gid_level_ok [OF g Suc.prems(2)] obtain rest where ok: "gids_ok gids1" "gids1 = gids @ rest" by blast
  show ?case
  proof (cases "level = []")
    case False
    then have "gid_loop fuel L l nexts gids1 = Some gids'" using Suc.prems(1) g by simp
    from Suc.IH [OF this ok(1)] ok(2) show ?thesis by auto
  qed (use Suc.prems in auto)
qed simp

section \<open>Finding entries\<close>

text \<open>The block store answers, and the cache only repeats what it answered.\<close>

definition stored :: "'p entryIndex \<Rightarrow> string \<Rightarrow> 'p entry option" where
  "stored s k = map_option (\<lambda>e. e\<lparr>e_hash := Some k\<rparr>) (jm_get (ei_store s) k)"

definition store_ok :: "'p log \<Rightarrow> bool" where
  "store_ok l \<longleftrightarrow> entry_cache.coherent (\<lambda>k v. v = stored (lg_index l) k) (ei_cache (lg_index l)) \<and>
     (\<forall>v \<in> set (jm_values (ei_index (lg_index l))). \<exists>e. stored (lg_index l) (se_hash (iv_value v)) = Some e \<and> e_meta e = se_meta (iv_value v))"

text \<open>The same log with another cache.\<close>

definition recached :: "'p log \<Rightarrow> 'p log \<Rightarrow> bool" where
  "recached l l' \<longleftrightarrow> store_ok l' \<and> (\<exists>c. l' = l\<lparr>lg_index := (lg_index l)\<lparr>ei_cache := c\<rparr>\<rparr>)"

lemma recached_simps: "recached l l' \<Longrightarrow> ei_index (lg_index l') = ei_index (lg_index l) \<and> stored (lg_index l') = stored (lg_index l) \<and> store_ok l'"
  by (auto simp: recached_def stored_def fun_eq_iff)

lemma recached_trans: "recached l l1 \<Longrightarrow> recached l1 l2 \<Longrightarrow> recached l l2"
  by (auto simp: recached_def)

lemma recached_refl: "store_ok l \<Longrightarrow> recached l l"
  unfolding recached_def by (intro conjI exI [of _ "ei_cache (lg_index l)"]) auto

lemma resolve_stored:
  assumes "store_ok l" and "ignoreMissing \<or> stored (lg_index l) k \<noteq> None"
  shows "\<exists>s. ei_resolve now (lg_index l) k ignoreMissing = Inr (stored (lg_index l) k, s) \<and> recached l (l\<lparr>lg_index := s\<rparr>)"
proof -
  let ?s = "lg_index l" and ?P = "\<lambda>k v. v = stored (lg_index l) k"
  have c: "entry_cache.coherent ?P (ei_cache ?s)" using assms(1) by (simp add: store_ok_def)
  obtain v c where "ei_resolve now ?s k True = Inr (v, ?s\<lparr>ei_cache := c\<rparr>)" "entry_cache.coherent ?P c" "v = stored ?s k"
    using resolve_coherent [OF c, of k now] by (auto simp: stored_def)
  moreover have "ei_resolve now ?s k ignoreMissing = ei_resolve now ?s k True"
  proof (cases ignoreMissing)
    case False
    then obtain e where "jm_get (ei_store ?s) k = Some e" using assms(2) by (auto simp: stored_def)
    then show ?thesis unfolding ei_resolve_def
      by (intro arg_cong [where f = "bind_sum _"]) (auto simp: fun_eq_iff Let_def split: option.split)
  qed simp
  ultimately show ?thesis using assms(1) by (auto simp: recached_def store_ok_def stored_def)
qed

text \<open>Elements of the walk: the given entry, and shallow entries of the index.\<close>

definition indexed_element :: "'p log \<Rightarrow> 'p removed_entry \<Rightarrow> bool" where
  "indexed_element l x \<longleftrightarrow> (\<forall>s. x = RShallow s \<longrightarrow> (\<exists>v \<in> set (jm_values (ei_index (lg_index l))). iv_value v = s))"

lemma shallow_indexed: "ei_getShallow L s n = Some e \<Longrightarrow> \<exists>v \<in> set (jm_values (ei_index s)). iv_value v = e"
  by (force simp: ei_getShallow_def hm_get_def jm_values_def dest: map_of_SomeD)

lemma nexts_elements: "x \<in> set (indexed_nexts L l m) \<Longrightarrow> indexed_element l x"
  using shallow_indexed [of "le_index L" "lg_index l"] by (auto simp: indexed_nexts_def indexed_element_def split: option.splits)

lemma gid_level_elements:
  assumes "gid_level L l level gids nexts = (gids', nexts')" and "\<forall>x \<in> set (jm_values gids) \<union> set level \<union> set nexts. indexed_element l x"
  shows "\<forall>x \<in> set (jm_values gids') \<union> set nexts'. indexed_element l x"
  using assms
proof (induction level arbitrary: gids nexts)
  case (Cons x level)
  let ?n = "if m_type (element_meta x) = APPEND then indexed_nexts L l (element_meta x) else []"
  have n: "\<forall>y \<in> set ?n. indexed_element l y" using nexts_elements by auto
  have v: "set (jm_values (jm_set gids g x)) \<subseteq> insert x (set (jm_values gids))" for g
    using set_jm_set_subset [of gids g x] by (auto simp: jm_values_def)
  show ?case
  proof (cases "jm_has gids (m_gid (element_meta x))")
    case True
    then show ?thesis using Cons.IH [of gids nexts] Cons.prems by (simp add: Let_def)
  next
    case False
    then have g: "gid_level L l level (jm_set gids (m_gid (element_meta x)) x) (nexts @ ?n) = (gids', nexts')" using Cons.prems(1) by (simp add: Let_def)
    have "\<forall>y \<in> set (jm_values (jm_set gids (m_gid (element_meta x)) x)) \<union> set level \<union> set (nexts @ ?n). indexed_element l y"
    proof
      fix y assume "y \<in> set (jm_values (jm_set gids (m_gid (element_meta x)) x)) \<union> set level \<union> set (nexts @ ?n)"
      then consider "y \<in> set (jm_values gids) \<union> set (x # level) \<union> set nexts" | "y \<in> set ?n" using v [of "m_gid (element_meta x)"] by (auto split: if_splits)
      then show "indexed_element l y" using Cons.prems(2) n by cases blast+
    qed
    from Cons.IH [OF g this] show ?thesis .
  qed
qed simp

lemma gid_loop_elements:
  assumes "gid_loop fuel L l level gids = Some gids'" and "\<forall>x \<in> set (jm_values gids) \<union> set level. indexed_element l x"
  shows "\<forall>x \<in> set (jm_values gids'). indexed_element l x"
  using assms
proof (induction fuel arbitrary: level gids)
  case (Suc fuel)
  obtain g1 n1 where g: "gid_level L l level gids [] = (g1, n1)" by force
  show ?case
  proof (cases "level = []")
    case False
    then have "gid_loop fuel L l n1 g1 = Some gids'" using Suc.prems(1) g by simp
    then show ?thesis by (rule Suc.IH) (use gid_level_elements [OF g] Suc.prems(2) in simp)
  qed (use Suc.prems in simp)
qed simp

text \<open>Resolving them gives one entry for each, with the same graph id.\<close>

lemma resolve_elements_ok:
  assumes "store_ok l" and "\<forall>x \<in> set xs. indexed_element l x"
  shows "\<exists>es l'. resolve_elements now xs l = Inr (es, l') \<and> recached l l' \<and> map (\<lambda>e. m_gid (e_meta e)) es = map element_gid xs \<and>
    (\<forall>e ys. xs = RFull e # ys \<longrightarrow> (\<exists>fs. es = e # fs))"
  using assms
proof (induction xs arbitrary: l)
  case (Cons x xs)
  show ?case
  proof (cases x)
    case (RFull e)
    with Cons.IH [OF Cons.prems(1)] Cons.prems(2) show ?thesis by fastforce
  next
    case (RShallow s)
    then obtain v where "v \<in> set (jm_values (ei_index (lg_index l)))" "iv_value v = s" using Cons.prems(2) by (auto simp: indexed_element_def)
    then obtain e where e: "stored (lg_index l) (se_hash s) = Some e" "e_meta e = se_meta s" using Cons.prems(1) by (auto simp: store_ok_def)
    then obtain i where i: "ei_resolve now (lg_index l) (se_hash s) False = Inr (Some e, i)" "recached l (l\<lparr>lg_index := i\<rparr>)"
      using resolve_stored [OF Cons.prems(1), of False "se_hash s" now] by auto
    note sim = recached_simps [OF i(2)]
    have "\<forall>x \<in> set xs. indexed_element (l\<lparr>lg_index := i\<rparr>) x" using Cons.prems(2) sim by (simp add: indexed_element_def)
    from Cons.IH [OF _ this] sim obtain es l' where
      "resolve_elements now xs (l\<lparr>lg_index := i\<rparr>) = Inr (es, l')" "recached (l\<lparr>lg_index := i\<rparr>) l'" "map (\<lambda>e. m_gid (e_meta e)) es = map element_gid xs"
      by auto
    with i e RShallow show ?thesis by (auto intro: recached_trans)
  qed
qed (simp add: recached_refl)

lemma unique_gids_ok:
  assumes "store_ok l" and "length (ei_index (lg_index l)) + 2 < fuel"
  shows "\<exists>es l'. allEntriesWithUniqueGids fuel now L l e = Some (Inr (e # es, l')) \<and> recached l l' \<and>
    distinct (map (\<lambda>e. m_gid (e_meta e)) (e # es))"
proof -
  have "card (index_gids l) \<le> length (ei_index (lg_index l))"
    unfolding index_gids_def by (metis card_image_le card_length finite_set jm_values_def length_map order.trans)
  moreover have "index_gids l \<union> element_gid ` set [RFull e] - fst ` set [] = insert (m_gid (e_meta e)) (index_gids l)" by auto
  moreover have "card (insert (m_gid (e_meta e)) (index_gids l)) \<le> Suc (card (index_gids l))" by (rule card_insert_le_m1) simp_all
  ultimately have "card (index_gids l \<union> element_gid ` set [RFull e] - fst ` set []) + 1 < fuel" using assms(2) by simp
  then obtain gids where g: "gid_loop fuel L l [RFull e] [] = Some gids" "gids_ok gids"
    using gid_loop_returns [of "[]" l "[RFull e]" fuel L] by (auto simp: gids_ok_def)
  obtain f where f: "fuel = Suc (Suc f)" using assms(2) by (metis add_2_eq_Suc' less_nat_zero_code not0_implies_Suc Suc_less_eq)
  obtain g1 n1 where g1: "gid_level L l [RFull e] [] [] = (g1, n1)" by force
  then have "g1 = [(m_gid (e_meta e), RFull e)]" by (auto simp: Let_def jm_has_def)
  moreover have "gid_loop (Suc f) L l n1 g1 = Some gids" using g(1) f g1 by simp
  ultimately have first: "\<exists>rest. gids = (m_gid (e_meta e), RFull e) # rest"
    using gid_loop_extends [of "Suc f" L l n1 g1 gids] by (simp add: gids_ok_def jm_ok_def)
  have "\<forall>x \<in> set (jm_values gids). indexed_element l x"
    using gid_loop_elements [OF g(1)] by (simp add: indexed_element_def jm_values_def)
  from resolve_elements_ok [OF assms(1) this, of now] first obtain es l' where
    r: "resolve_elements now (jm_values gids) l = Inr (e # es, l')" "recached l l'" "map (\<lambda>e. m_gid (e_meta e)) (e # es) = map element_gid (jm_values gids)"
    by (auto simp: jm_values_def)
  have "map element_gid (jm_values gids) = map fst gids" using g(2) by (auto simp: gids_ok_def jm_values_def)
  then have "distinct (map (\<lambda>e. m_gid (e_meta e)) (e # es))" using r(3) g(2) by (simp add: gids_ok_def jm_ok_def)
  then show ?thesis using r g(1) by (auto simp: allEntriesWithUniqueGids_def)
qed

section \<open>Messages\<close>

definition found_heads :: "'p log \<Rightarrow> 'p head list \<Rightarrow> 'p entry list" where
  "found_heads l hs = List.map_filter (\<lambda>h. case h of HeadEntry e \<Rightarrow> Some e | HeadHash k \<Rightarrow> stored (lg_index l) k) hs"

lemma found_heads_cong: "stored (lg_index l1) = stored (lg_index l) \<Longrightarrow> found_heads l1 hs = found_heads l hs"
  by (simp only: found_heads_def cong: if_cong head.case_cong)

text \<open>A message that is full has a last head that made it exceed the limit; references name other graphs.\<close>

definition refs_ok :: "'p entryWithRefs \<Rightarrow> bool" where
  "refs_ok w \<longleftrightarrow> distinct (ew_gidRefrences w) \<and> m_gid (e_meta (ew_entry w)) \<notin> set (ew_gidRefrences w)"

definition bytes :: "('p entry \<Rightarrow> int) \<Rightarrow> 'p entryWithRefs list \<Rightarrow> int" where
  "bytes sizeOf ws = sum_list (map (\<lambda>w. sizeOf (ew_entry w)) ws)"

definition exchange_ok :: "('p entry \<Rightarrow> int) \<Rightarrow> 'p entry list \<Rightarrow> 'p exchange \<Rightarrow> bool" where
  "exchange_ok sizeOf es x \<longleftrightarrow> map ew_entry (concat (ex_messages x) @ ex_current x) = es \<and>
     (\<forall>w \<in> set (concat (ex_messages x) @ ex_current x). refs_ok w) \<and> ex_size x = bytes sizeOf (ex_current x) \<and>
     ex_size x \<le> MAX_EXCHANGE_MESSAGE_SIZE \<and>
     (\<forall>m \<in> set (ex_messages x). m \<noteq> [] \<and> bytes sizeOf (butlast m) \<le> MAX_EXCHANGE_MESSAGE_SIZE \<and> MAX_EXCHANGE_MESSAGE_SIZE < bytes sizeOf m)"


lemma unvisited_refs_subseq:
  assumes "e_hash_str e \<in> set v"
  shows "\<exists>N. fst (unvisited_refs (e # es) v) = nths es N"
proof -
  have "\<exists>ys. fst (foldl (\<lambda>(refs, v) x. if e_hash_str x \<in> set v then (refs, v) else (refs @ [x], js_add v (e_hash_str x))) (rs, v) es) = rs @ ys \<and> subseq ys es" for rs v
  proof (induction es arbitrary: rs v)
    case (Cons x es)
    show ?case
    proof (cases "e_hash_str x \<in> set v")
      case True
      then show ?thesis using Cons.IH [of rs v] list_emb_Cons [of "(=)" _ es x] by auto
    next
      case False
      then show ?thesis using Cons.IH [of "rs @ [x]" "js_add v (e_hash_str x)"] by auto
    qed
  qed simp
  from this [of "[]" v] assms show ?thesis by (auto simp: unvisited_refs_def subseq_conv_nths)
qed

lemma push_head_ok:
  assumes "exchange_ok sizeOf es x" and "distinct (map (\<lambda>e. m_gid (e_meta e)) (e # all))"
  shows "exchange_ok sizeOf (es @ [e]) (push_head sizeOf e (e # all) x)"
proof -
  obtain refs v where u: "unvisited_refs (e # all) (js_add (ex_visited x) (e_hash_str e)) = (refs, v)" by force
  have "e_hash_str e \<in> set (js_add (ex_visited x) (e_hash_str e))" by (simp add: js_add_def)
  then obtain N where "refs = nths all N" using unvisited_refs_subseq [of e "js_add (ex_visited x) (e_hash_str e)" all] u by auto
  then have "map (\<lambda>r. m_gid (e_meta r)) refs = nths (map (\<lambda>r. m_gid (e_meta r)) all) N" by (simp add: nths_map)
  then have "refs_ok \<lparr>ew_entry = e, ew_gidRefrences = map (\<lambda>r. m_gid (e_meta r)) refs\<rparr>"
    using assms(2) set_nths_subset [of "map (\<lambda>r. m_gid (e_meta r)) all" N] by (auto simp: refs_ok_def)
  then show ?thesis using assms(1) u by (auto simp: push_head_def exchange_ok_def Let_def bytes_def MAX_EXCHANGE_MESSAGE_SIZE_def)
qed

lemma exchange_loop_ok:
  assumes "store_ok l" and "length (ei_index (lg_index l)) + 2 < fuel" and "exchange_ok sizeOf es x"
  shows "\<exists>x' l'. exchange_loop fuel now L sizeOf hs l x = Some (Inr (x', l')) \<and> recached l l' \<and> exchange_ok sizeOf (es @ found_heads l hs) x'"
  using assms
proof (induction hs arbitrary: l x es)
  case Nil
  then show ?case by (auto simp: found_heads_def recached_refl map_filter_simps)
next
  case (Cons h hs)
  let ?f = "case h of HeadEntry e \<Rightarrow> Some e | HeadHash k \<Rightarrow> stored (lg_index l) k"
  obtain l1 where l1: "find_head now l h = Inr (?f, l1)" "recached l l1"
  proof (cases h)
    case (HeadEntry e)
    then show ?thesis using that recached_refl [OF Cons.prems(1)] by simp
  next
    case (HeadHash k)
    obtain s where "ei_resolve now (lg_index l) k True = Inr (stored (lg_index l) k, s)" "recached l (l\<lparr>lg_index := s\<rparr>)"
      using resolve_stored [OF Cons.prems(1), of True k now] by blast
    then show ?thesis using that HeadHash by (simp add: log_get_def)
  qed
  note s1 = recached_simps [OF l1(2)]
  have fh: "found_heads l1 hs = found_heads l hs" using s1 found_heads_cong by blast
  show ?case
  proof (cases ?f)
    case None
    from Cons.IH [of l1 es x] Cons.prems s1 obtain x' l' where
      "exchange_loop fuel now L sizeOf hs l1 x = Some (Inr (x', l'))" "recached l1 l'" "exchange_ok sizeOf (es @ found_heads l1 hs) x'" by auto
    then show ?thesis using None l1 fh recached_trans by (auto simp: found_heads_def map_filter_simps)
  next
    case (Some e)
    obtain all l2 where a: "allEntriesWithUniqueGids fuel now L l1 e = Some (Inr (e # all, l2))" "recached l1 l2" "distinct (map (\<lambda>e. m_gid (e_meta e)) (e # all))"
      using unique_gids_ok [of l1 fuel now L e] s1 Cons.prems(2) by auto
    note s2 = recached_simps [OF a(2)]
    from Cons.IH [of l2 "es @ [e]" "push_head sizeOf e (e # all) x"] Cons.prems s1 s2 push_head_ok [OF Cons.prems(3) a(3)] obtain x' l' where
      r: "exchange_loop fuel now L sizeOf hs l2 (push_head sizeOf e (e # all) x) = Some (Inr (x', l'))" "recached l2 l'"
        "exchange_ok sizeOf ((es @ [e]) @ found_heads l2 hs) x'" by auto
    have "found_heads l2 hs = found_heads l hs" using s1 s2 found_heads_cong by metis
    moreover have "found_heads l (h # hs) = e # found_heads l hs" using Some by (simp add: found_heads_def map_filter_simps)
    ultimately show ?thesis using Some r a l1 recached_trans [OF l1(2) recached_trans [OF a(2) r(2)]] by auto
  qed
qed

section \<open>Properties\<close>

text \<open>(C19) \<open>createExchangeHeadsMessages\<close> returns, and its messages hold exactly the heads that the block store has, in the
  order asked for. No message is empty, only the last head of a message may take it over the limit, and the
  references of a head are graph ids other than its own, each once.\<close>

theorem createExchangeHeadsMessages_sends:
  assumes "store_ok l" and "length (ei_index (lg_index l)) + 2 < fuel" and "\<forall>e. 0 \<le> sizeOf e"
  shows "\<exists>msgs l'. createExchangeHeadsMessages fuel now L sizeOf hs l = Some (Inr (msgs, l')) \<and>
    map ew_entry (concat msgs) = found_heads l hs \<and> [] \<notin> set msgs \<and>
    (\<forall>m \<in> set msgs. bytes sizeOf (butlast m) \<le> MAX_EXCHANGE_MESSAGE_SIZE) \<and> (\<forall>w \<in> set (concat msgs). refs_ok w)"
proof -
  let ?x = "\<lparr>ex_size = 0, ex_current = [], ex_visited = [], ex_messages = []\<rparr>"
  have "exchange_ok sizeOf [] ?x" by (simp add: exchange_ok_def bytes_def MAX_EXCHANGE_MESSAGE_SIZE_def)
  from exchange_loop_ok [OF assms(1,2) this, of now L hs] obtain x l' where
    x: "exchange_loop fuel now L sizeOf hs l ?x = Some (Inr (x, l'))" "exchange_ok sizeOf (found_heads l hs) x" by auto
  have "bytes sizeOf (butlast c) \<le> bytes sizeOf c" if "c \<noteq> []" for c
    using assms(3) arg_cong [OF append_butlast_last_id [OF that], of "bytes sizeOf"] by (simp add: bytes_def) (metis add_increasing2 order_refl)
  then have "ex_current x \<noteq> [] \<Longrightarrow> bytes sizeOf (butlast (ex_current x)) \<le> MAX_EXCHANGE_MESSAGE_SIZE"
    using x(2) by (metis exchange_ok_def order.trans)
  then show ?thesis using x by (auto simp: createExchangeHeadsMessages_def exchange_ok_def)
qed

definition exchange_ex :: "nat log" where
  "exchange_ex = log_open 3 [(PStr ''a'', \<lparr>iv_id = StringKey ''a'', iv_value = toShallow (\<lambda>_. 1) (entry_at 1 []) False\<rparr>)]
     [(''a'', entry_at 1 []), (''b'', (entry_at 2 [''a''])\<lparr>e_meta := meta_ex 2 ''h'' [''a'']\<rparr>)] None"

lemma exchange_ex_ok: "store_ok exchange_ex" "length (ei_index (lg_index exchange_ex)) = 1"
  using coherent_new
  by (simp_all add: store_ok_def exchange_ex_def log_open_def ei_init_def new_EntryIndex_def jm_values_def toShallow_def stored_def entry_at_def e_hash_str_def)

theorem createExchangeHeadsMessages_sends_witness:
  "\<exists>msgs l'. createExchangeHeadsMessages 4 5 (env_at (\<lambda>_. True) (\<lambda>_. None)) (\<lambda>_. 60000) [HeadHash ''b'', HeadHash ''z'', HeadHash ''a''] exchange_ex = Some (Inr (msgs, l')) \<and>
     map ew_entry (concat msgs) = [(entry_at 2 [''a''])\<lparr>e_meta := meta_ex 2 ''h'' [''a'']\<rparr>, entry_at 1 []]"
proof -
  have "found_heads exchange_ex [HeadHash ''b'', HeadHash ''z'', HeadHash ''a''] = [(entry_at 2 [''a''])\<lparr>e_meta := meta_ex 2 ''h'' [''a'']\<rparr>, entry_at 1 []]"
    by code_simp
  with createExchangeHeadsMessages_sends [OF exchange_ex_ok(1), of 4 "\<lambda>_. 60000" 5 "env_at (\<lambda>_. True) (\<lambda>_. None)" "[HeadHash ''b'', HeadHash ''z'', HeadHash ''a'']"] exchange_ex_ok(2)
  show ?thesis by auto
qed

end
