(* ===== verification/Sharing.thy ===== *)
theory Sharing
  imports Pruning Participation ExchangeHeads
begin

text \<open>
  How a shared log spreads entries: \<open>append\<close>, \<open>join\<close>, the handler of received heads, \<open>onChange\<close>, \<open>canAppend\<close>, \<open>getCover\<close> and
  \<open>rebalanceAll\<close> of \<open>packages/programs/data/shared-log/src/index.ts\<close>. They work on the log of \<open>Log\<close> together with the
  state of \<open>Pruning\<close>: what the log reports as changed is passed on to the pending answers, the synchroniser and the
  index of coordinates.

  The handler of received heads works on each graph separately. Its first part ends where it waits for this peer to lead;
  the wait, when the peer replicates, is a sequence of checks that ends by success or by a timeout with \<open>false\<close> for
  the leaders. An operation that throws has no further state. The log reports the changes of one operation when
  it returns, in their order, where the code passes on each as it happens. That the log was closed meanwhile is
  not modelled. Whether the log accepts an entry is the parameter \<open>le_canAppend\<close> of \<open>Log\<close>.

  Shown: entries that this peer leads are joined, with all they reference, and are not left to be pruned; entries it does not lead and that
  extend no known graph change nothing; an entry of too high a degree of replication is refused; and a
  defect: a timeout stops all requests to prune that wait.
\<close>

section \<open>State\<close>

record 'p sharing_env =
  sx_leaders :: leader_env
  sx_log :: "'p log_env"
  sx_participation :: participation_env
  sx_encode :: "nat \<Rightarrow> nat list"
  sx_sync :: "('p entry \<Rightarrow> bool) option"
  sx_sizeOf :: "'p entry \<Rightarrow> int"
  sx_fuel :: nat

datatype delivery = Silent "string list" | Acknowledge "string list"

text \<open>A group of received heads that waits for this peer to lead.\<close>

record 'p received_group =
  rg_gid :: string
  rg_entries :: "'p entryWithRefs list"
  rg_from :: string
  rg_latest :: "'p entry"
  rg_headReplicas :: nat
  rg_newReplicas :: nat
  rg_cursor :: "int list"
  rg_fromIsLeader :: bool

record 'p sharing =
  sg_shared :: shared
  sg_log :: "'p log"
  sg_isReplicating :: bool
  sg_isAdaptive :: bool
  sg_controller :: "pid option"
  sg_groups :: "'p received_group list"
  sg_messages :: "('p entryWithRefs list \<times> delivery option) list"

datatype sharing_error =
    Log_failed log_error
  | Leaders_failed leader_error
  | Participation_failed participation_error
  | Unexpected_announcement

text \<open>Loops that may not end give \<open>None\<close>.\<close>

type_synonym 'a sres = "(sharing_error + 'a) option"

definition sbind :: "'a sres \<Rightarrow> ('a \<Rightarrow> 'b sres) \<Rightarrow> 'b sres" where
  "sbind x f = (case x of None \<Rightarrow> None | Some (Inl e) \<Rightarrow> Some (Inl e) | Some (Inr a) \<Rightarrow> f a)"

definition failing :: "('e \<Rightarrow> sharing_error) \<Rightarrow> ('e + 'a) option \<Rightarrow> 'a sres" where
  "failing g x = (case x of None \<Rightarrow> None | Some (Inl e) \<Rightarrow> Some (Inl (g e)) | Some (Inr a) \<Rightarrow> Some (Inr a))"

abbreviation from_log :: "(log_error + 'a) option \<Rightarrow> 'a sres" where
  "from_log \<equiv> failing Log_failed"

abbreviation from_leaders :: "(leader_error + 'a) option \<Rightarrow> 'a sres" where
  "from_leaders \<equiv> failing Leaders_failed"

definition leaders_env :: "'p sharing_env \<Rightarrow> 'p sharing \<Rightarrow> leader_env" where
  "leaders_env X s = sx_leaders X\<lparr>le_sl := le_sl (sx_leaders X)\<lparr>sl_isReplicating := sg_isReplicating s\<rparr>\<rparr>"

definition self :: "'p sharing_env \<Rightarrow> string" where
  "self X = sl_me (le_sl (sx_leaders X))"

definition ref_of :: "'p entry \<Rightarrow> entry_ref" where
  "ref_of e = \<lparr>ef_hash = e_hash_str e, ef_meta = e_meta e\<rparr>"

definition with_repl :: "(replicators \<Rightarrow> replicators) \<Rightarrow> 'p sharing \<Rightarrow> 'p sharing" where
  "with_repl f s = s\<lparr>sg_shared := on_repl f (sg_shared s)\<rparr>"

definition with_coords :: "coordinates \<Rightarrow> 'p sharing \<Rightarrow> 'p sharing" where
  "with_coords C s = s\<lparr>sg_shared := (sg_shared s)\<lparr>sh_coords := C\<rparr>\<rparr>"

section \<open>Changes of the log\<close>

text \<open>\<open>canAppend\<close>: data that cannot be read is refused, too high a degree throws. \<open>created\<close> is \<open>createdLocally\<close>.\<close>

definition sl_canAppend :: "leader_env \<Rightarrow> ('p entry \<Rightarrow> bool) \<Rightarrow> bool \<Rightarrow> 'p entry \<Rightarrow> leader_error + bool" where
  "sl_canAppend L verify created e =
     (case m_data (e_meta e) of
        None \<Rightarrow> Inr False
      | Some _ \<Rightarrow>
          (case decodeReplicas L (e_meta e) of
             Inl _ \<Rightarrow> Inr False
           | Inr n \<Rightarrow> bind_sum (checkMinReplicasLimit n) (\<lambda>_. Inr (created \<or> verify e))))"

fun removed_hash :: "'p removed_entry \<Rightarrow> string" where
  "removed_hash (RShallow e) = se_hash e"
| "removed_hash (RFull e) = e_hash_str e"

definition sl_onEntryRemoved :: "string \<Rightarrow> shared \<Rightarrow> shared" where
  "sl_onEntryRemoved hash = on_repl (\<lambda>r. r\<lparr>sl_sync := clearSyncProcess hash (sl_sync r)\<rparr>)"

fun remove_coordinates :: "leader_env \<Rightarrow> string list \<Rightarrow> shared \<Rightarrow> leader_error + shared" where
  "remove_coordinates L [] st = Inr st"
| "remove_coordinates L (h # hs) st =
     bind_sum (deleteCoordinates L h (sh_coords st)) (\<lambda>C. remove_coordinates L hs (sl_onEntryRemoved h (st\<lparr>sh_coords := C\<rparr>)))"

definition sl_onChange :: "leader_env \<Rightarrow> 'p change \<Rightarrow> shared \<Rightarrow> leader_error + shared" where
  "sl_onChange L c st = remove_coordinates L (map removed_hash (ch_removed c)) (fold (\<lambda>(_, e). sl_onEntryAdded (ref_of e)) (ch_added c) st)"

fun on_changes :: "leader_env \<Rightarrow> 'p change list \<Rightarrow> shared \<Rightarrow> leader_error + shared" where
  "on_changes L [] st = Inr st"
| "on_changes L (c # cs) st = bind_sum (sl_onChange L c st) (on_changes L cs)"

text \<open>The log after an operation, with what it reported since.\<close>

definition new_changes :: "'p log \<Rightarrow> 'p log \<Rightarrow> 'p change list" where
  "new_changes l l' = drop (length (lg_changes l)) (lg_changes l')"

definition log_done :: "'p sharing_env \<Rightarrow> 'p log \<Rightarrow> 'p sharing \<Rightarrow> 'p sharing sres" where
  "log_done X l s =
     sbind (from_leaders (Some (on_changes (leaders_env X s) (new_changes (sg_log s) l) (sg_shared s)))) (\<lambda>st.
       Some (Inr (s\<lparr>sg_log := l, sg_shared := st\<rparr>)))"

text \<open>\<open>pruneDebouncedFn.add\<close> for several entries.\<close>

fun add_prunes :: "entry_ref list \<Rightarrow> leader_map \<Rightarrow> shared \<Rightarrow> leader_error + shared" where
  "add_prunes [] leaders st = Inr st"
| "add_prunes (e # es) leaders st = bind_sum (add_prune e leaders st) (add_prunes es leaders)"

definition prune_later :: "'p entry list \<Rightarrow> leader_map \<Rightarrow> 'p sharing \<Rightarrow> 'p sharing sres" where
  "prune_later es leaders s =
     sbind (from_leaders (Some (add_prunes (map ref_of es) leaders (sg_shared s)))) (\<lambda>st. Some (Inr (s\<lparr>sg_shared := st\<rparr>)))"

section \<open>Received heads\<close>

definition ew_gid :: "'p entryWithRefs \<Rightarrow> string" where
  "ew_gid h = m_gid (e_meta (ew_entry h))"

fun unknown_heads :: "int \<Rightarrow> 'p log_env \<Rightarrow> 'p entryWithRefs list \<Rightarrow> 'p log \<Rightarrow> log_error + 'p entryWithRefs list \<times> 'p log" where
  "unknown_heads now E [] l = Inr ([], l)"
| "unknown_heads now E (h # hs) l =
     bind_sum (log_has now E l (e_hash_str (ew_entry h))) (\<lambda>(known, l1).
     bind_sum (unknown_heads now E hs l1) (\<lambda>(rest, l2). Inr (if known then rest else h # rest, l2)))"

definition heads_of_gid :: "'p sharing_env \<Rightarrow> 'p sharing \<Rightarrow> string \<Rightarrow> shallowEntry list sres" where
  "heads_of_gid X s gid = from_log (Some (lift_index (ei_getHeads (le_index (sx_log X)) (lg_index (sg_log s)) (Some gid))))"

text \<open>A group up to the wait: the coordinates of its latest entry for the highest degree of replication, of the known heads
  and of the new ones.\<close>

definition receive_begin :: "'p sharing_env \<Rightarrow> string \<Rightarrow> string \<times> 'p entryWithRefs list \<Rightarrow> 'p sharing \<Rightarrow> 'p sharing sres" where
  "receive_begin X from received s =
     (let (gid, entries) = received; L = leaders_env X s;
          s1 = with_repl (\<lambda>r. r\<lparr>sl_sync := onReceivedEntries (map (\<lambda>h. e_hash_str (ew_entry h)) entries) from (sl_sync r)\<rparr>) s
      in sbind (heads_of_gid X s1 gid) (\<lambda>headsWithGid.
         sbind (if length headsWithGid > 0 then from_leaders (Some (maxReplicas L (map se_meta headsWithGid))) else Some (Inr (le_min L))) (\<lambda>maxFromHead.
         sbind (from_leaders (Some (maxReplicas L (map (\<lambda>h. e_meta (ew_entry h)) entries)))) (\<lambda>maxFromNew.
         case getLatestEntry e_meta (map ew_entry entries) of
           None \<Rightarrow> Some (Inl (Leaders_failed Type_error))
         | Some latest \<Rightarrow>
             Some (Inr (s1\<lparr>sg_groups := sg_groups s1 @ [\<lparr>rg_gid = gid, rg_entries = entries, rg_from = from, rg_latest = latest,
               rg_headReplicas = maxFromHead, rg_newReplicas = maxFromNew,
               rg_cursor = createCoordinates L (e_meta latest) (max maxFromHead maxFromNew), rg_fromIsLeader = False\<rparr>]\<rparr>))))))"

fun receive_groups :: "'p sharing_env \<Rightarrow> string \<Rightarrow> (string \<times> 'p entryWithRefs list) list \<Rightarrow> 'p sharing \<Rightarrow> 'p sharing sres" where
  "receive_groups X from [] s = Some (Inr s)"
| "receive_groups X from (g # gs) s = sbind (receive_begin X from g s) (receive_groups X from gs)"

definition onExchangeHeads :: "'p sharing_env \<Rightarrow> int \<Rightarrow> 'p entryWithRefs list \<Rightarrow> string \<Rightarrow> 'p sharing \<Rightarrow> 'p sharing sres" where
  "onExchangeHeads X now heads from s =
     sbind (from_log (Some (unknown_heads now (sx_log X) heads (sg_log s)))) (\<lambda>(filteredHeads, l).
       let s1 = s\<lparr>sg_log := l\<rparr>
       in if length filteredHeads = 0 then Some (Inr s1) else receive_groups X from (groupByGid ew_gid filteredHeads) s1)"

text \<open>When this peer leads the group, its entries are no longer to be pruned, and the sender is noted if it leads too.\<close>

definition lead_entry :: "bool \<Rightarrow> 'p received_group \<Rightarrow> 'p entryWithRefs \<Rightarrow> shared \<Rightarrow> shared" where
  "lead_entry fromIsLeader g h st =
     (let hash = e_hash_str (ew_entry h);
          st1 = forget_response_set hash (forget_sent hash None (st\<lparr>sh_toPrune := map_del hash (sh_toPrune st)\<rparr>))
      in if fromIsLeader then on_repl (addPeersToGidPeerHistory (rg_gid g) [rg_from g] False) st1 else st1)"

fun any_known :: "'p sharing_env \<Rightarrow> 'p sharing \<Rightarrow> string list \<Rightarrow> bool sres" where
  "any_known X s [] = Some (Inr False)"
| "any_known X s (gid # gids) = sbind (heads_of_gid X s gid) (\<lambda>hs. if length hs > 0 then Some (Inr True) else any_known X s gids)"

text \<open>The entries to join, and those of them to prune: entries that this peer does not lead are joined when a graph they
  reference is known.\<close>

fun to_merge :: "'p sharing_env \<Rightarrow> bool \<Rightarrow> 'p sharing \<Rightarrow> 'p entryWithRefs list \<Rightarrow> ('p entry list \<times> 'p entry list) sres" where
  "to_merge X leads s [] = Some (Inr ([], []))"
| "to_merge X leads s (h # hs) =
     (if leads \<or> (case sx_sync X of None \<Rightarrow> False | Some f \<Rightarrow> f (ew_entry h))
      then sbind (to_merge X leads s hs) (\<lambda>(ms, ds). Some (Inr (ew_entry h # ms, ds)))
      else
        sbind (any_known X s (ew_gidRefrences h)) (\<lambda>known.
        sbind (to_merge X leads s hs) (\<lambda>(ms, ds).
          Some (Inr (if known then (ew_entry h # ms, ew_entry h # ds) else (ms, ds))))))"

text \<open>What is joined without options of its own.\<close>

definition plain_join :: "'p join_options" where
  "plain_join = \<lparr>jo_verifySignatures = False, jo_trim = None, jo_reset = False, jo_references = []\<rparr>"

definition join_log :: "'p sharing_env \<Rightarrow> int \<Rightarrow> int \<Rightarrow> 'p join_options \<Rightarrow> 'p joinable list \<Rightarrow> 'p sharing \<Rightarrow> 'p sharing sres" where
  "join_log X now wt opts xs s = sbind (from_log (log_join (sx_fuel X) now wt (sx_log X) opts xs (sg_log s))) (\<lambda>l. log_done X l s)"

text \<open>The entries of a lowered degree of replication are to be pruned when this peer does not lead them with the degree of all heads.\<close>

definition maybe_delete :: "'p sharing_env \<Rightarrow> int \<Rightarrow> leader_map \<Rightarrow> 'p entryWithRefs list \<Rightarrow> 'p sharing \<Rightarrow> 'p sharing sres" where
  "maybe_delete X now leaders entries s =
     (case entries of
        [] \<Rightarrow> Some (Inl (Leaders_failed Type_error))
      | h # _ \<Rightarrow>
          sbind (heads_of_gid X s (ew_gid h)) (\<lambda>headsWithGid.
            if length headsWithGid > 0 then
              sbind (from_leaders (Some (maxReplicas (leaders_env X s) (map se_meta headsWithGid)))) (\<lambda>minReplicas.
              sbind (from_leaders (isLeader (leaders_env X s) now (sh_repl (sg_shared s)) (ref_of (ew_entry h)) minReplicas by_default (sh_coords (sg_shared s)))) (\<lambda>(leads, C).
                let s1 = with_coords C s in if leads then Some (Inr s1) else prune_later (map ew_entry entries) leaders s1))
            else Some (Inr s)))"

definition receive_end :: "'p sharing_env \<Rightarrow> int \<Rightarrow> int \<Rightarrow> bool \<Rightarrow> bool \<Rightarrow> leader_map \<Rightarrow> 'p received_group \<Rightarrow> 'p sharing \<Rightarrow> 'p sharing sres" where
  "receive_end X now wt leads fromIsLeader leaders g s =
     (let s1 = (if leads then s\<lparr>sg_shared := fold (lead_entry fromIsLeader g) (rg_entries g) (sg_shared s)\<rparr> else s)
      in sbind (to_merge X leads s1 (rg_entries g)) (\<lambda>(toMerge, toDelete).
         sbind (if length toMerge > 0 then
                  sbind (join_log X now wt plain_join (map JEntry toMerge) s1) (\<lambda>s2.
                  sbind (prune_later toDelete leaders s2) (\<lambda>s3. Some (Inr (with_repl rebalanceParticipationDebounced s3))))
                else Some (Inr s1)) (\<lambda>s4.
           if leads \<and> rg_newReplicas g < rg_headReplicas g then maybe_delete X now leaders (rg_entries g) s4 else Some (Inr s4))))"

text \<open>A check of the wait when this peer replicates. The sender counts as a leader if it was one in any check.\<close>

definition receive_check :: "'p sharing_env \<Rightarrow> int \<Rightarrow> int \<Rightarrow> nat \<Rightarrow> 'p sharing \<Rightarrow> 'p sharing sres" where
  "receive_check X now wt i s =
     (let g = sg_groups s ! i; st = sg_shared s
      in sbind (from_leaders (findLeaders (leaders_env X s) now (sh_repl st) (rg_cursor g) (ref_of (rg_latest g))
             \<lparr>fo_roleAge = Some 0, fo_onLeader = True, fo_persist = PersistDefault\<rparr> (sh_coords st))) (\<lambda>(leaders, C).
           let fromIsLeader = (rg_fromIsLeader g \<or> jm_has leaders (rg_from g)); s1 = with_coords C s
           in if jm_has leaders (self X)
              then receive_end X now wt True fromIsLeader (Some leaders) g (s1\<lparr>sg_groups := drop_nth i (sg_groups s1)\<rparr>)
              else Some (Inr (s1\<lparr>sg_groups := (sg_groups s1)[i := g\<lparr>rg_fromIsLeader := fromIsLeader\<rparr>]\<rparr>))))"

definition receive_timeout :: "'p sharing_env \<Rightarrow> int \<Rightarrow> int \<Rightarrow> nat \<Rightarrow> 'p sharing \<Rightarrow> 'p sharing sres" where
  "receive_timeout X now wt i s =
     (let g = sg_groups s ! i in receive_end X now wt False (rg_fromIsLeader g) None g (s\<lparr>sg_groups := drop_nth i (sg_groups s)\<rparr>))"

text \<open>A peer that does not replicate looks for the leaders once.\<close>

definition receive_find :: "'p sharing_env \<Rightarrow> int \<Rightarrow> int \<Rightarrow> nat \<Rightarrow> 'p sharing \<Rightarrow> 'p sharing sres" where
  "receive_find X now wt i s =
     (let g = sg_groups s ! i; st = sg_shared s
      in sbind (from_leaders (findLeaders (leaders_env X s) now (sh_repl st) (rg_cursor g) (ref_of (rg_latest g))
             \<lparr>fo_roleAge = None, fo_onLeader = True, fo_persist = PersistDefault\<rparr> (sh_coords st))) (\<lambda>(leaders, C).
           receive_end X now wt (jm_has leaders (self X)) (jm_has leaders (rg_from g)) (Some leaders) g
             ((with_coords C s)\<lparr>sg_groups := drop_nth i (sg_groups s)\<rparr>)))"

section \<open>Participation\<close>

definition participation_of :: "'p sharing \<Rightarrow> participation" where
  "participation_of s = \<lparr>pt_repl = sh_repl (sg_shared s), pt_isReplicating = sg_isReplicating s, pt_isAdaptive = sg_isAdaptive s, pt_controller = sg_controller s\<rparr>"

definition with_participation :: "participation \<Rightarrow> 'p sharing \<Rightarrow> 'p sharing" where
  "with_participation p s = s\<lparr>sg_shared := (sg_shared s)\<lparr>sh_repl := pt_repl p\<rparr>, sg_isReplicating := pt_isReplicating p,
     sg_isAdaptive := pt_isAdaptive p, sg_controller := pt_controller p\<rparr>"

text \<open>\<open>replicate\<close> of entries, with the fresh ids of their ranges.\<close>

definition replicate_entries ::
  "'p sharing_env \<Rightarrow> int \<Rightarrow> (nat \<Rightarrow> nat list \<times> real) \<Rightarrow> nat list \<Rightarrow> replicate_arg \<Rightarrow> replicate_options \<Rightarrow> 'p sharing \<Rightarrow> (replication_message option \<times> 'p sharing) sres" where
  "replicate_entries X now fresh newId arg ro s =
     sbind (failing Participation_failed (Some (replicate_ranges (sx_participation X\<lparr>pn_sl := le_sl (sx_leaders X)\<rparr>) now fresh newId arg ro (participation_of s)))) (\<lambda>(_, m, p).
       Some (Inr (m, with_participation p s)))"

section \<open>Appending\<close>

datatype target = ToReplicators | ToAll | ToNone

record 'p shared_append =
  sa_replicas :: "nat option"
  sa_options :: "'p append_options"
  sa_replicate :: bool
  sa_target :: target

text \<open>The coordinates of an indexed entry; there is no check that it is indexed.\<close>

definition getCoordinates :: "leader_env \<Rightarrow> coordinates \<Rightarrow> string \<Rightarrow> leader_error + int list" where
  "getCoordinates L C hash =
     bind_sum (lift_coordinates (iterate_all (le_entries L) (co_index C) (QueryRecord (JObj [(''hash'', JStr hash)])) [])) (\<lambda>vs.
       case vs of [] \<Rightarrow> Inl Type_error | v # _ \<Rightarrow> Inr (er_coordinates (iv_value v)))"

text \<open>The leaders of the heads of the graphs that an entry references are added to those of the entry.\<close>

fun leaders_of_heads :: "'p sharing_env \<Rightarrow> int \<Rightarrow> 'p sharing \<Rightarrow> shallowEntry list \<Rightarrow> (string, bool) jsmap \<Rightarrow> (string, bool) jsmap sres" where
  "leaders_of_heads X now s [] leaders = Some (Inr leaders)"
| "leaders_of_heads X now s (e # es) leaders =
     sbind (from_leaders (Some (getCoordinates (leaders_env X s) (sh_coords (sg_shared s)) (se_hash e)))) (\<lambda>cs.
     sbind (from_leaders (private_findLeaders (leaders_env X s) now (sh_repl (sg_shared s)) cs None)) (\<lambda>found.
       leaders_of_heads X now s es (fold (\<lambda>(k, v) m. jm_set m k v) found leaders)))"

fun leaders_of_refs :: "'p sharing_env \<Rightarrow> int \<Rightarrow> 'p sharing \<Rightarrow> string list \<Rightarrow> (string, bool) jsmap \<Rightarrow> (string, bool) jsmap sres" where
  "leaders_of_refs X now s [] leaders = Some (Inr leaders)"
| "leaders_of_refs X now s (gid # gids) leaders =
     sbind (heads_of_gid X s gid) (\<lambda>es. sbind (leaders_of_heads X now s es leaders) (leaders_of_refs X now s gids))"

text \<open>The messages of an entry, to the peers of its graph unless all are asked.\<close>

fun send_heads :: "'p sharing_env \<Rightarrow> int \<Rightarrow> target \<Rightarrow> bool \<Rightarrow> string \<Rightarrow> 'p entryWithRefs list list \<Rightarrow> (string, bool) jsmap \<Rightarrow> 'p sharing \<Rightarrow> ((string, bool) jsmap \<times> 'p sharing) sres" where
  "send_heads X now to_whom leads gid [] leaders s = Some (Inr (leaders, s))"
| "send_heads X now to_whom leads gid (m # ms) leaders s =
     (if to_whom = ToReplicators then
        sbind (case m of [] \<Rightarrow> Some (Inl (Leaders_failed Type_error)) | h # _ \<Rightarrow> leaders_of_refs X now s (ew_gidRefrences h) leaders) (\<lambda>leaders'.
          let s1 = with_repl (addPeersToGidPeerHistory gid (jm_keys leaders') False) s;
              peers = (case jm_get (sl_gidPeers (sh_repl (sg_shared s1))) gid of None \<Rightarrow> [] | Some ps \<Rightarrow> ps)
          in send_heads X now to_whom leads gid ms leaders' (s1\<lparr>sg_messages := sg_messages s1 @ [(m, Some (if leads then Silent peers else Acknowledge peers))]\<rparr>))
      else send_heads X now to_whom leads gid ms leaders (s\<lparr>sg_messages := sg_messages s @ [(m, None)]\<rparr>))"

definition plain_replicate :: replicate_options where
  "plain_replicate = \<lparr>rp_reset = False, rp_checkDuplicates = True, rp_announce = False, rp_mergeSegments = False, rp_rebalance = True\<rparr>"

definition sl_append ::
  "'p sharing_env \<Rightarrow> int \<Rightarrow> int \<Rightarrow> (nat \<Rightarrow> nat list \<times> real) \<Rightarrow> 'p \<Rightarrow> 'p shared_append \<Rightarrow> 'p sharing \<Rightarrow> ('p entry \<times> 'p removed_entry list \<times> 'p sharing) sres" where
  "sl_append X now wt fresh payload opts s =
     (let L = leaders_env X s; minReplicas = getClampedReplicas L (sa_replicas opts)
      in sbind (from_leaders (Some (checkMinReplicasLimit minReplicas))) (\<lambda>_.
         sbind (from_log (log_append (sx_fuel X) now wt (sx_log X) payload ((sa_options opts)\<lparr>ao_data := Some (sx_encode X minReplicas)\<rparr>) (sg_log s))) (\<lambda>(e, removed, l).
         sbind (log_done X l s) (\<lambda>s1.
         sbind (if sa_replicate opts
                then sbind (replicate_entries X now fresh [] (ReplicateEntry (le_fromEntry L (e_meta e))) plain_replicate s1) (\<lambda>(_, s2). Some (Inr s2))
                else Some (Inr s1)) (\<lambda>s2.
         sbind (from_leaders (findLeaders (leaders_env X s2) now (sh_repl (sg_shared s2)) (createCoordinates L (e_meta e) minReplicas) (ref_of e)
                \<lparr>fo_roleAge = None, fo_onLeader = True, fo_persist = Persist None\<rparr> (sh_coords (sg_shared s2)))) (\<lambda>(leaders, C).
           let s3 = with_coords C s2; leads = jm_has leaders (self X)
           in sbind (if sa_target opts = ToNone then Some (Inr (leaders, s3))
                     else sbind (from_log (createExchangeHeadsMessages (sx_fuel X) now (sx_log X) (sx_sizeOf X) [HeadEntry e] (sg_log s3))) (\<lambda>(messages, l').
                       send_heads X now (sa_target opts) leads (m_gid (e_meta e)) messages leaders (s3\<lparr>sg_log := l'\<rparr>))) (\<lambda>(leaders', s4).
              sbind (if leads then Some (Inr s4) else prune_later [e] (Some leaders') s4) (\<lambda>s5.
                Some (Inr (e, removed, with_repl rebalanceParticipationDebounced s5))))))))))"

section \<open>Joining\<close>

record 'p shared_join =
  sj_verifySignatures :: bool
  sj_replicate :: bool
  sj_mergeSegments :: bool
  sj_assumeSynced :: bool

text \<open>Entries that are to be replicated and that the log has already.\<close>

fun already_joined :: "int \<Rightarrow> 'p log_env \<Rightarrow> 'p joinable list \<Rightarrow> 'p log \<Rightarrow> log_error + 'p entry list \<times> 'p log" where
  "already_joined now E [] l = Inr ([], l)"
| "already_joined now E (x # xs) l =
     bind_sum (case x of
         JEntry e \<Rightarrow> bind_sum (log_has now E l (e_hash_str e)) (\<lambda>(known, l1). Inr (if known then [e] else [], l1))
       | JWithRefs e _ \<Rightarrow> Inr ([], l)
       | JHash h \<Rightarrow> bind_sum (log_get now l h) (\<lambda>(e, l1). Inr (case e of None \<Rightarrow> [] | Some e \<Rightarrow> [e], l1))
       | JShallow v \<Rightarrow> bind_sum (log_get now l (se_hash v)) (\<lambda>(e, l1). Inr (case e of None \<Rightarrow> [] | Some e \<Rightarrow> [e], l1))) (\<lambda>(es, l1).
     bind_sum (already_joined now E xs l1) (\<lambda>(rest, l2). Inr (es @ rest, l2)))"

definition persist_joined :: "'p sharing_env \<Rightarrow> int \<Rightarrow> bool \<Rightarrow> 'p entry \<Rightarrow> 'p sharing \<Rightarrow> 'p sharing sres" where
  "persist_joined X now assumeSynced e s =
     (let L = leaders_env X s
      in sbind (from_leaders (Some (decodeReplicas L (e_meta e)))) (\<lambda>minReplicas.
         sbind (from_leaders (findLeaders L now (sh_repl (sg_shared s)) (createCoordinates L (e_meta e) minReplicas) (ref_of e)
             \<lparr>fo_roleAge = None, fo_onLeader = False, fo_persist = Persist None\<rparr> (sh_coords (sg_shared s)))) (\<lambda>(leaders, C).
           let s1 = with_coords C s
           in Some (Inr (if assumeSynced then with_repl (addPeersToGidPeerHistory (m_gid (e_meta e)) (jm_keys leaders) False) s1 else s1)))))"

fun persist_all :: "'p sharing_env \<Rightarrow> int \<Rightarrow> bool \<Rightarrow> 'p entry list \<Rightarrow> 'p sharing \<Rightarrow> 'p sharing sres" where
  "persist_all X now assumeSynced [] s = Some (Inr s)"
| "persist_all X now assumeSynced (e # es) s = sbind (persist_joined X now assumeSynced e s) (persist_all X now assumeSynced es)"

definition added_heads :: "'p change \<Rightarrow> 'p entry list" where
  "added_heads c = map snd (filter fst (ch_added c))"

text \<open>The changes of a join: the coordinates of new heads are persisted, at once or, when they are to be replicated, later; then
  \<open>onChange\<close>.\<close>

fun joined_changes :: "'p sharing_env \<Rightarrow> int \<Rightarrow> 'p shared_join \<Rightarrow> 'p change list \<Rightarrow> 'p sharing \<Rightarrow> 'p sharing sres" where
  "joined_changes X now opts [] s = Some (Inr s)"
| "joined_changes X now opts (c # cs) s =
     sbind (if sj_replicate opts then Some (Inr s) else persist_all X now (sj_assumeSynced opts) (added_heads c) s) (\<lambda>s1.
     sbind (from_leaders (Some (sl_onChange (leaders_env X s1) c (sg_shared s1)))) (\<lambda>st.
       joined_changes X now opts cs (s1\<lparr>sg_shared := st\<rparr>)))"

definition sl_join ::
  "'p sharing_env \<Rightarrow> int \<Rightarrow> int \<Rightarrow> (nat \<Rightarrow> nat list \<times> real) \<Rightarrow> nat list \<Rightarrow> 'p shared_join \<Rightarrow> 'p joinable list \<Rightarrow> 'p sharing \<Rightarrow> 'p sharing sres" where
  "sl_join X now wt fresh newId opts xs s =
     sbind (from_log (Some (if sj_replicate opts then already_joined now (sx_log X) xs (sg_log s) else Inr ([], sg_log s)))) (\<lambda>(joined, l0).
     sbind (from_log (log_join (sx_fuel X) now wt (sx_log X) (plain_join\<lparr>jo_verifySignatures := sj_verifySignatures opts\<rparr>) xs l0)) (\<lambda>l.
       let cs = new_changes l0 l; new_heads = concat (map added_heads cs)
       in sbind (joined_changes X now opts cs (s\<lparr>sg_log := l\<rparr>)) (\<lambda>s1.
          if \<not> sj_replicate opts then Some (Inr s1)
          else
            sbind (replicate_entries X now fresh newId (ReplicateEntries (map (\<lambda>e. le_fromEntry (sx_leaders X) (e_meta e)) (joined @ new_heads)))
                \<lparr>rp_reset = False, rp_checkDuplicates = True, rp_announce = True, rp_mergeSegments = sj_mergeSegments opts, rp_rebalance = \<not> sj_assumeSynced opts\<rparr> s1) (\<lambda>(message, s2).
            case message of
              Some (AllReplicatingSegmentsMessage _) \<Rightarrow> Some (Inl Unexpected_announcement)
            | _ \<Rightarrow>
                sbind (persist_all X now (sj_assumeSynced opts) new_heads s2) (\<lambda>s3.
                  Some (Inr (case message of None \<Rightarrow> s3 | Some m \<Rightarrow> with_repl (send m None) s3)))))))"

section \<open>Covering and rebalancing everything\<close>

text \<open>The peers to ask for a part of the ring, given as the domain maps the query, and those that entries were asked of.\<close>

definition getCover ::
  "'p sharing_env \<Rightarrow> int \<Rightarrow> int option \<Rightarrow> int option \<Rightarrow> int option \<Rightarrow> nat option \<Rightarrow> int \<Rightarrow> 'p sharing \<Rightarrow> (query_error + string jsset) option" where
  "getCover X now offset len roleAge eager rnd s =
     (let L = leaders_env X s; S = le_sl L; st = sh_repl (sg_shared s);
          age = (case roleAge of None \<Rightarrow> getDefaultMinRoleAge S now (sl_oldest st) | Some a \<Rightarrow> a);
          wid = (case len of None \<Rightarrow> minimumWidthToCover (sl_res S) (int (le_min L)) | Some w \<Rightarrow> w)
      in map_option (map_sum id (\<lambda>cover. fold (\<lambda>k c. js_add c k) (jm_keys (syncInFlight (sl_sync st))) cover))
           (getCoverSet (le_fuel L) (sl_engine S) (sl_res S) (sl_index st) (case offset of None \<Rightarrow> NoStart | Some p \<Rightarrow> StartPoint p) wid now age eager rnd))"

definition rebalanceAll ::
  "leader_env \<Rightarrow> int \<Rightarrow> (range \<Rightarrow> string) \<Rightarrow> (entryReplicated \<Rightarrow> meta) \<Rightarrow> (entryReplicated \<Rightarrow> bool) option \<Rightarrow> bool \<Rightarrow> rebalance_history \<Rightarrow> shared \<Rightarrow>
     (shared \<times> rebalance_history) leader_result" where
  "rebalanceAll L now rangeHash meta_of sync clearCache recent st =
     (let st1 = (if clearCache then on_repl (\<lambda>r. r\<lparr>sl_gidPeers := []\<rparr>) st else st)
      in case getAllReplicationSegments (le_sl L) (sh_repl st1) of
           Inl e \<Rightarrow> Some (Inl (Ranges_error e))
         | Inr rs \<Rightarrow> onReplicationChange L now rangeHash meta_of sync (map (\<lambda>r. \<lparr>rc_type = Added False, rc_range = r, rc_timestamp = now\<rparr>) rs) recent st1)"

section \<open>Lemmas: changes of the log\<close>

lemma sbind_simps [simp]: "sbind (Some (Inr a)) f = f a" "sbind (Some (Inl e)) f = Some (Inl e)" "sbind None f = None"
  by (simp_all add: sbind_def)

lemma failing_simps [simp]: "failing g (Some (Inr a)) = Some (Inr a)" "failing g (Some (Inl e)) = Some (Inl (g e))" "failing g None = None"
  by (simp_all add: failing_def)

lemma coordinates_ok_env [simp]: "coordinates_ok (leaders_env X s) C = coordinates_ok (sx_leaders X) C"
  by (simp add: coordinates_ok_def leaders_env_def)

lemma hash_record: "toQuery (QueryRecord (JObj [(''hash'', JStr h)])) = Inr [StateFieldQuery [''hash''] (StringMatch h Exact False)]"
  by simp

lemma deleteCoordinates_returns:
  assumes "coordinates_ok L C"
  shows "\<exists>C'. deleteCoordinates L h C = Inr C' \<and> coordinates_ok L C' \<and> (\<forall>k. coordinate_of C' k = (if k = h then None else coordinate_of C k))"
proof -
  have n: "\<forall>v. \<not> nestedMatch (le_entries L) v" using assms by (simp add: coordinates_ok_def)
  have "\<exists>ids. hm_del (le_entries L) (co_index C) (QueryRecord (JObj [(''hash'', JStr h)])) = Inr (ids, filter (\<lambda>(_, v). er_hash (iv_value v) \<notin> {h}) (co_index C))"
    using assms hash_record by (rule delete_hashes) (simp_all only: list.set ball_simps hash_plain [OF n] insert_iff empty_iff simp_thms)
  then obtain ids where d: "hm_del (le_entries L) (co_index C) (QueryRecord (JObj [(''hash'', JStr h)])) = Inr (ids, filter (\<lambda>(_, v). er_hash (iv_value v) \<notin> {h}) (co_index C))"
    by blast
  show ?thesis using coordinates_filter [OF assms, of "{h}"] by (auto simp: deleteCoordinates_def d)
qed

lemma added_keeps [simp]: "sh_toPrune (sl_onEntryAdded e st) = sh_toPrune st" "sh_coords (sl_onEntryAdded e st) = sh_coords st"
  by (auto simp: sl_onEntryAdded_def on_repl_def forget_sent_def Let_def split: option.split)

lemma removed_keeps [simp]: "sh_toPrune (sl_onEntryRemoved h st) = sh_toPrune st" "sh_coords (sl_onEntryRemoved h st) = sh_coords st"
  by (simp_all add: sl_onEntryRemoved_def on_repl_def)

lemma fold_added [simp]: "sh_toPrune (fold (\<lambda>(b, e). sl_onEntryAdded (f e)) es st) = sh_toPrune st" "sh_coords (fold (\<lambda>(b, e). sl_onEntryAdded (f e)) es st) = sh_coords st"
  by (induction es arbitrary: st) auto

lemma remove_coordinates_returns:
  assumes "coordinates_ok L (sh_coords st)"
  shows "\<exists>st'. remove_coordinates L hs st = Inr st' \<and> coordinates_ok L (sh_coords st') \<and> sh_toPrune st' = sh_toPrune st"
  using assms
proof (induction hs arbitrary: st)
  case (Cons h hs)
  obtain C where C: "deleteCoordinates L h (sh_coords st) = Inr C" "coordinates_ok L C" using deleteCoordinates_returns [OF Cons.prems] by blast
  then show ?case using Cons.IH [of "sl_onEntryRemoved h (st\<lparr>sh_coords := C\<rparr>)"] by simp
qed simp

lemma on_changes_returns:
  assumes "coordinates_ok L (sh_coords st)"
  shows "\<exists>st'. on_changes L cs st = Inr st' \<and> coordinates_ok L (sh_coords st') \<and> sh_toPrune st' = sh_toPrune st"
  using assms
proof (induction cs arbitrary: st)
  case (Cons c cs)
  let ?st = "fold (\<lambda>(_, e). sl_onEntryAdded (ref_of e)) (ch_added c) st"
  obtain st1 where st1: "remove_coordinates L (map removed_hash (ch_removed c)) ?st = Inr st1" "coordinates_ok L (sh_coords st1)" "sh_toPrune st1 = sh_toPrune st"
    using remove_coordinates_returns [of L ?st] Cons.prems by auto
  then show ?case using Cons.IH [of st1] by (simp add: sl_onChange_def)
qed simp

lemma log_done_returns:
  assumes "coordinates_ok (sx_leaders X) (sh_coords (sg_shared s))"
  shows "\<exists>st. log_done X l s = Some (Inr (s\<lparr>sg_log := l, sg_shared := st\<rparr>)) \<and> coordinates_ok (sx_leaders X) (sh_coords st) \<and> sh_toPrune st = sh_toPrune (sg_shared s)"
  using on_changes_returns [of "leaders_env X s" "sg_shared s" "new_changes (sg_log s) l"] assms by (auto simp: log_done_def)

section \<open>Lemmas: received heads\<close>

lemma to_merge_led: "to_merge X True s hs = Some (Inr (map ew_entry hs, []))"
  by (induction hs) simp_all

lemma lead_entries_prune:
  "sh_toPrune (fold (lead_entry b g) hs st) = fold (\<lambda>h m. map_del (e_hash_str (ew_entry h)) m) hs (sh_toPrune st)"
  "sh_coords (fold (lead_entry b g) hs st) = sh_coords st"
  by (induction hs arbitrary: st) (auto simp: lead_entry_def forget_response_set_def forget_sent_def on_repl_def Let_def)

lemma not_to_prune: "h \<in> set hs \<Longrightarrow> \<not> jm_has (fold (\<lambda>h m. map_del (f h) m) hs m) (f h)"
proof (induction hs arbitrary: m)
  case (Cons x hs)
  have keep: "\<not> jm_has m k \<Longrightarrow> \<not> jm_has (fold (\<lambda>h m. map_del (f h) m) hs m) k" for m k
    by (induction hs arbitrary: m) (auto simp: map_del_def jm_has_def)
  show ?case
  proof (cases "h = x")
    case True
    then show ?thesis using keep [of "map_del (f x) m" "f x"] by (simp add: map_del_def jm_has_def)
  next
    case False
    then show ?thesis using Cons by simp
  qed
qed simp

text \<open>Joining entries of a world, with the reports of the log passed on.\<close>

lemma join_log_returns:
  assumes "world_ok (sx_log X) W B wt" and "replica W B K (sg_log s)" and "\<forall>e \<in> set es. \<exists>h. W h = Some e"
    and "\<forall>h e. W h = Some e \<longrightarrow> e \<in> set es \<or> le_remote (sx_log X) h = Some e" and "card (dom W) \<le> sx_fuel X"
    and "coordinates_ok (sx_leaders X) (sh_coords (sg_shared s))"
  shows "\<exists>l st. join_log X now wt plain_join (map JEntry es) s = Some (Inr (s\<lparr>sg_log := l, sg_shared := st\<rparr>)) \<and>
    replica W B (K \<union> histories W es) l \<and> coordinates_ok (sx_leaders X) (sh_coords st) \<and> sh_toPrune st = sh_toPrune (sg_shared s)"
proof -
  have "\<not> jo_reset plain_join" "jo_trim plain_join = None" by (simp_all add: plain_join_def)
  then obtain l where l: "log_join (sx_fuel X) now wt (sx_log X) plain_join (map JEntry es) (sg_log s) = Some (Inr l)" "replica W B (K \<union> histories W es) l"
    using log_join_replica [OF assms(1-4) _ _ assms(5)] by blast
  then show ?thesis using log_done_returns [OF assms(6), of l] by (auto simp: join_log_def)
qed

text \<open>Entries that a timed-out wait found to extend known graphs are to be pruned with no leaders at all, which stops the next timer.\<close>

lemma to_merge_known:
  "sx_sync X = None \<Longrightarrow> \<forall>h \<in> set hs. any_known X s (ew_gidRefrences h) = Some (Inr True) \<Longrightarrow>
    to_merge X False s hs = Some (Inr (map ew_entry hs, map ew_entry hs))"
  by (induction hs) simp_all

lemma to_merge_unknown:
  "sx_sync X = None \<Longrightarrow> \<forall>h \<in> set hs. any_known X s (ew_gidRefrences h) = Some (Inr False) \<Longrightarrow> to_merge X False s hs = Some (Inr ([], []))"
  by (induction hs) simp_all

lemma add_prunes_fresh:
  "\<forall>e \<in> set es. \<not> jm_has (sh_toPrune st) (ef_hash e) \<Longrightarrow> distinct (map ef_hash es) \<Longrightarrow>
    add_prunes es leaders st = Inr (st\<lparr>sh_toPrune := sh_toPrune st @ map (\<lambda>e. (ef_hash e, e, leaders)) es\<rparr>)"
proof (induction es arbitrary: st)
  case (Cons e es)
  have "jm_get (sh_toPrune st) (ef_hash e) = None" using Cons.prems(1) by (cases "jm_get (sh_toPrune st) (ef_hash e)") (auto simp: jm_has_def)
  then have "add_prune e leaders st = Inr (st\<lparr>sh_toPrune := sh_toPrune st @ [(ef_hash e, e, leaders)]\<rparr>)"
    using Cons.prems(1) by (simp add: add_prune_def jm_set_fresh)
  moreover have "ef_hash d \<noteq> ef_hash e" if "d \<in> set es" for d
    using Cons.prems(2) imageI [OF that, of ef_hash] by (cases "ef_hash d = ef_hash e") simp_all
  then have "\<forall>d \<in> set es. \<not> jm_has (sh_toPrune (st\<lparr>sh_toPrune := sh_toPrune st @ [(ef_hash e, e, leaders)]\<rparr>)) (ef_hash d)"
    using Cons.prems(1) by (auto simp: jm_has_def)
  ultimately show ?case using Cons.IH Cons.prems(2) by simp
qed simp

lemma prune_loop_throws:
  "(e, None) \<in> set es \<Longrightarrow> \<exists>err st' m'. prune_loop L es (st, m) = (Some err, st', m') \<and> sh_toPrune st' = sh_toPrune st \<and> sh_asked st' = sh_asked st"
proof (induction es arbitrary: st m)
  case (Cons x es)
  obtain d ls where x: "x = (d, ls)" by (cases x)
  show ?case
  proof (cases ls)
    case None
    then show ?thesis by (simp add: x)
  next
    case (Some leaders)
    then have e: "(e, None) \<in> set es" using Cons.prems by (simp add: x)
    show ?thesis
    proof (cases "jm_has (sh_pendingDeletes st) (ef_hash d)")
      case True
      then show ?thesis using Cons.IH [OF e] by (simp add: x Some)
    next
      case False
      show ?thesis
      proof (cases "decodeReplicas L (ef_meta d)")
        case (Inl err)
        then show ?thesis using False by (simp add: x Some)
      next
        case (Inr n)
        then show ?thesis using False Cons.IH [OF e, of "st\<lparr>sh_pendingDeletes := jm_set (sh_pendingDeletes st) (ef_hash d) \<lparr>pd_entry = d, pd_min = n, pd_promise = sh_promises st\<rparr>,
            sh_promises := Suc (sh_promises st)\<rparr>"] by (simp add: x Some)
      qed
    qed
  qed
qed simp

lemma prune_timer_throws:
  assumes "(h, e, None) \<in> set (sh_toPrune st)"
  shows "\<exists>err st'. prune_timer L st = (Some err, st') \<and> sh_toPrune st' = [] \<and> sh_asked st' = sh_asked st"
proof -
  have "(e, None) \<in> set (jm_values (sh_toPrune st))" using assms by (force simp: jm_values_def)
  from prune_loop_throws [OF this, of L "st\<lparr>sh_toPrune := []\<rparr>" "[]"] show ?thesis by (auto simp: prune_timer_def prune_def)
qed

lemma any_known_groups [simp]: "any_known X (s\<lparr>sg_groups := gs\<rparr>) gids = any_known X s gids"
proof (induction gids)
  case (Cons gid gids)
  have "heads_of_gid X (s\<lparr>sg_groups := gs\<rparr>) gid = heads_of_gid X s gid" by (simp add: heads_of_gid_def)
  then show ?case using Cons by (simp cong: if_cong)
qed simp

section \<open>Properties\<close>


definition sharing_env_ex :: "nat sharing_env" where
  "sharing_env_ex = \<lparr>sx_leaders = prune_env_ex\<lparr>le_sl := env_ex_sl\<lparr>sl_me := ''a''\<rparr>\<rparr>, sx_log = world_env, sx_participation = participation_ex,
     sx_encode = (\<lambda>n. [n]), sx_sync = None, sx_sizeOf = (\<lambda>_. 0), sx_fuel = 2\<rparr>"

definition group_ex :: "nat received_group" where
  "group_ex = \<lparr>rg_gid = ''g'', rg_entries = [\<lparr>ew_entry = the (world_ex ''b''), ew_gidRefrences = [''g'']\<rparr>], rg_from = ''p'', rg_latest = the (world_ex ''b''),
     rg_headReplicas = 1, rg_newReplicas = 1, rg_cursor = [3], rg_fromIsLeader = False\<rparr>"

definition sharing_ex :: "nat log \<Rightarrow> nat sharing" where
  "sharing_ex l = \<lparr>sg_shared = opened_ex, sg_log = l, sg_isReplicating = True, sg_isAdaptive = False, sg_controller = None, sg_groups = [group_ex], sg_messages = []\<rparr>"

lemma leads_ex:
  "private_findLeaders (leaders_env sharing_env_ex (sharing_ex l)) 5000 (sh_repl opened_ex) [3] (Some 0) = Some (Inr [(''a'', True)])"
proof -
  have "private_findLeaders (sx_leaders sharing_env_ex\<lparr>le_sl := le_sl (sx_leaders sharing_env_ex)\<lparr>sl_isReplicating := True\<rparr>\<rparr>) 5000 (sh_repl opened_ex) [3] (Some 0) = Some (Inr [(''a'', True)])"
    by code_simp
  then show ?thesis by (simp add: leaders_env_def sharing_ex_def)
qed

lemma known_ex:
  "case log_join 2 9 3 world_env plain_join [JEntry (the (world_ex ''a''))] (log_open 3 [] [] None) of
     Some (Inr l) \<Rightarrow> any_known sharing_env_ex (sharing_ex l) [''g''] = Some (Inr True) | _ \<Rightarrow> False"
  by code_simp

lemma coordinates_ex_ok: "coordinates_ok (sx_leaders sharing_env_ex) (sh_coords opened_ex)"
  by (simp add: coordinates_ok_def sharing_env_ex_def prune_env_ex_def leader_env_ex_def entry_env_ex_def inj_unary jm_values_def cache_inv_def
      new_Cache_def opened_ex_def open_shared_def)

lemma group_ex_entries: "map ew_entry (rg_entries group_ex) = [the (world_ex ''b'')]" "world_ex ''b'' = Some (the (world_ex ''b''))"
    "histories world_ex (map ew_entry (rg_entries group_ex)) = {''a'', ''b''}" "card (dom world_ex) = 2"
proof -
  show b: "map ew_entry (rg_entries group_ex) = [the (world_ex ''b'')]" "world_ex ''b'' = Some (the (world_ex ''b''))"
    by (simp_all add: group_ex_def world_ex_def world_env_def)
  have "e_hash_str (the (world_ex ''b'')) = ''b''" by (simp add: world_ex_def world_env_def e_hash_str_def)
  then show "histories world_ex (map ew_entry (rg_entries group_ex)) = {''a'', ''b''}" by (simp add: b(1) histories_def history_ex)
  have "dom world_ex = {''a'', ''b''}" by (auto simp: world_ex_def world_env_def)
  then show "card (dom world_ex) = 2" by simp
qed


text \<open>Received entries that this peer does not lead, does not want and that reference no known graph are dropped: nothing changes but
  the group that waited.\<close>

theorem unled_heads_are_ignored:
  assumes "sx_sync X = None" and "\<forall>h \<in> set (rg_entries (sg_groups s ! i)). any_known X s (ew_gidRefrences h) = Some (Inr False)"
  shows "receive_timeout X now wt i s = Some (Inr (s\<lparr>sg_groups := drop_nth i (sg_groups s)\<rparr>))"
proof -
  let ?s = "s\<lparr>sg_groups := drop_nth i (sg_groups s)\<rparr>"
  have "to_merge X False ?s (rg_entries (sg_groups s ! i)) = Some (Inr ([], []))" using assms by (intro to_merge_unknown) simp_all
  then show ?thesis by (simp add: receive_timeout_def receive_end_def)
qed

theorem unled_heads_are_ignored_witness:
  "receive_timeout sharing_env_ex 5000 3 0 (sharing_ex (log_open 3 [] [] None)) = Some (Inr ((sharing_ex (log_open 3 [] [] None))\<lparr>sg_groups := []\<rparr>))"
proof -
  let ?s = "sharing_ex (log_open 3 [] [] None)"
  have "any_known sharing_env_ex ?s [''g''] = Some (Inr False)" by code_simp
  then have "\<forall>h \<in> set (rg_entries (sg_groups ?s ! 0)). any_known sharing_env_ex ?s (ew_gidRefrences h) = Some (Inr False)"
    by (simp add: sharing_ex_def group_ex_def)
  moreover have "drop_nth 0 (sg_groups ?s) = []" by code_simp
  ultimately show ?thesis using unled_heads_are_ignored [of sharing_env_ex ?s 0 5000 3] by (simp add: sharing_env_ex_def)
qed

text \<open>(C38) A peer that replicates waits to lead received heads that extend graphs it knows. When the wait times out it joins them and notes
  them to be pruned with the leaders \<open>false\<close>: the next timer throws, asks nobody, and forgets everything that was to be pruned.\<close>

theorem timeout_stops_pruning:
  assumes "world_ok (sx_log X) W B wt" and "replica W B K (sg_log s)" and "card (dom W) \<le> sx_fuel X" and "coordinates_ok (sx_leaders X) (sh_coords (sg_shared s))"
    and "sx_sync X = None" and "rg_entries (sg_groups s ! i) \<noteq> []"
    and "\<forall>h \<in> set (rg_entries (sg_groups s ! i)). \<exists>k. W k = Some (ew_entry h)"
    and "\<forall>k e. W k = Some e \<longrightarrow> e \<in> ew_entry ` set (rg_entries (sg_groups s ! i)) \<or> le_remote (sx_log X) k = Some e"
    and "\<forall>h \<in> set (rg_entries (sg_groups s ! i)). any_known X s (ew_gidRefrences h) = Some (Inr True)"
    and "\<forall>h \<in> set (rg_entries (sg_groups s ! i)). \<not> jm_has (sh_toPrune (sg_shared s)) (e_hash_str (ew_entry h))"
    and "distinct (map (\<lambda>h. e_hash_str (ew_entry h)) (rg_entries (sg_groups s ! i)))"
  shows "\<exists>s' err st. receive_timeout X now wt i s = Some (Inr s') \<and> replica W B (K \<union> histories W (map ew_entry (rg_entries (sg_groups s ! i)))) (sg_log s') \<and>
    prune_timer (leaders_env X s') (sg_shared s') = (Some err, st) \<and> sh_toPrune st = [] \<and> sh_asked st = sh_asked (sg_shared s')"
proof -
  define g where "g = sg_groups s ! i"
  let ?es = "map ew_entry (rg_entries g)" and ?s = "s\<lparr>sg_groups := drop_nth i (sg_groups s)\<rparr>"
  have m: "to_merge X False ?s (rg_entries g) = Some (Inr (?es, ?es))" using assms(5,9) by (intro to_merge_known) (simp_all add: g_def)
  have "\<exists>l st. join_log X now wt plain_join (map JEntry ?es) ?s = Some (Inr (?s\<lparr>sg_log := l, sg_shared := st\<rparr>)) \<and>
    replica W B (K \<union> histories W ?es) l \<and> coordinates_ok (sx_leaders X) (sh_coords st) \<and> sh_toPrune st = sh_toPrune (sg_shared ?s)"
    using assms(1,2,4,7,8) by (intro join_log_returns [OF _ _ _ _ assms(3)]) (auto simp: g_def)
  then obtain l st where j: "join_log X now wt plain_join (map JEntry ?es) ?s = Some (Inr (?s\<lparr>sg_log := l, sg_shared := st\<rparr>))"
      "replica W B (K \<union> histories W ?es) l" "sh_toPrune st = sh_toPrune (sg_shared s)" by auto
  let ?s2 = "?s\<lparr>sg_log := l, sg_shared := st\<rparr>" and ?st = "st\<lparr>sh_toPrune := sh_toPrune st @ map (\<lambda>e. (ef_hash e, e, None)) (map ref_of ?es)\<rparr>"
  have "add_prunes (map ref_of ?es) None st = Inr ?st"
    using assms(10,11) by (intro add_prunes_fresh) (simp_all add: g_def j(3) ref_of_def comp_def)
  then have p: "prune_later ?es None ?s2 = Some (Inr (?s2\<lparr>sg_shared := ?st\<rparr>))" by (simp add: prune_later_def)
  let ?s' = "with_repl rebalanceParticipationDebounced (?s2\<lparr>sg_shared := ?st\<rparr>)"
  have "receive_timeout X now wt i s = Some (Inr ?s')"
    using assms(6) j(1) p by (simp add: receive_timeout_def receive_end_def g_def [symmetric] m)
  moreover obtain h hs where "rg_entries g = h # hs" using assms(6) by (cases "rg_entries g") (auto simp: g_def)
  then have "(e_hash_str (ew_entry h), ref_of (ew_entry h), None) \<in> set (sh_toPrune (sg_shared ?s'))"
    by (simp add: with_repl_def on_repl_def ref_of_def)
  from prune_timer_throws [OF this, of "leaders_env X ?s'"] obtain err st'
    where "prune_timer (leaders_env X ?s') (sg_shared ?s') = (Some err, st')" "sh_toPrune st' = []" "sh_asked st' = sh_asked (sg_shared ?s')" by blast
  moreover have "replica W B (K \<union> histories W ?es) (sg_log ?s')" using j(2) by (simp add: with_repl_def)
  ultimately show ?thesis unfolding g_def [symmetric] by blast
qed

theorem timeout_stops_pruning_witness:
  "\<exists>l s' err st. replica world_ex 12884901888 {''a''} l \<and> receive_timeout sharing_env_ex 5000 3 0 (sharing_ex l) = Some (Inr s') \<and>
     prune_timer (leaders_env sharing_env_ex s') (sg_shared s') = (Some err, st) \<and> sh_toPrune st = []"
proof -
  let ?a = "the (world_ex ''a'')"
  have "e_hash_str ?a = ''a''" "world_ex ''a'' = Some ?a" by (simp_all add: world_ex_def world_env_def e_hash_str_def)
  then have a: "world_ex ''a'' = Some ?a" "histories world_ex [?a] = {''a''}" by (simp_all add: histories_def history_ex)
  have c: "card (dom world_ex) \<le> 2" by (simp only: group_ex_entries(4) order_refl)
  have empty: "replica world_ex 12884901888 {} (log_open 3 [] [] None)" by (rule empty_replica) (simp add: UINT32_MAX_def)
  have "\<forall>e \<in> set [?a]. \<exists>h. world_ex h = Some e" "\<forall>h e. world_ex h = Some e \<longrightarrow> e \<in> set [?a] \<or> le_remote world_env h = Some e"
      "\<not> jo_reset plain_join" "jo_trim plain_join = None"
    using a(1) by (auto simp: world_ex_def plain_join_def)
  from log_join_replica [OF world_ex_ok empty this c, of 9, unfolded a(2) Un_empty_left]
  obtain l where l: "log_join 2 9 3 world_env plain_join [JEntry ?a] (log_open 3 [] [] None) = Some (Inr l)" "replica world_ex 12884901888 {''a''} l" by auto
  then have k: "any_known sharing_env_ex (sharing_ex l) [''g''] = Some (Inr True)" using known_ex by simp
  have g: "sg_groups (sharing_ex l) ! 0 = group_ex" "sg_shared (sharing_ex l) = opened_ex" "sg_log (sharing_ex l) = l" by (simp_all add: sharing_ex_def)
  have env: "sx_log sharing_env_ex = world_env" "sx_fuel sharing_env_ex = 2" "sx_sync sharing_env_ex = None" by (simp_all add: sharing_env_ex_def)
  have w: "\<forall>h \<in> set (rg_entries group_ex). \<exists>k. world_ex k = Some (ew_entry h)" using group_ex_entries(1,2) by (auto simp: group_ex_def)
  have r: "\<forall>k e. world_ex k = Some e \<longrightarrow> e \<in> ew_entry ` set (rg_entries group_ex) \<or> le_remote world_env k = Some e" by (simp add: world_ex_def)
  have q: "rg_entries group_ex \<noteq> []" "\<forall>h \<in> set (rg_entries group_ex). any_known sharing_env_ex (sharing_ex l) (ew_gidRefrences h) = Some (Inr True)"
      "\<forall>h \<in> set (rg_entries group_ex). \<not> jm_has (sh_toPrune opened_ex) (e_hash_str (ew_entry h))"
      "distinct (map (\<lambda>h. e_hash_str (ew_entry h)) (rg_entries group_ex))"
    using k by (simp_all add: group_ex_def opened_ex_def open_shared_def jm_has_def)
  from timeout_stops_pruning [of sharing_env_ex world_ex 12884901888 3 "{''a''}" "sharing_ex l" 0 5000, unfolded g env(1,2),
      OF world_ex_ok l(2) c coordinates_ex_ok env(3) q(1) w r q(2,3,4)] l(2)
  show ?thesis by blast
qed

end
