(* ===== verification/DirectStream.thy ===== *)
theory DirectStream
  imports Routes Cache Query
begin

text \<open>
  The stream transport: \<open>DirectStream\<close> of \<open>packages/transport/stream/src/index.ts\<close> with the messages and delivery modes of
  \<open>packages/transport/stream-interface/src/messages.ts\<close>. A node keeps its neighbours, the routing table of \<open>Routes\<close>, a cache
  of the messages it has seen, and for every message it awaits acknowledgements of a record of what it
  has got. Peers are named by the hashes of their keys. Operations are atomic; an error is returned with
  the state at the throw. Promises are numbers with their outcome, timers are steps.

  Not modelled: streams and their buffers (what is written is noted in \<open>nd_sent\<close>), dialling, the bandwidth limit, and
  that a signature is right: \<open>se_verifies\<close> says which messages verify, but that they expire is.

  Shown: a delivery that counts as acknowledged was acknowledged by all it waits for, and what a timeout makes of the others; the signatures of a seek
  are a path, and an acknowledgement goes back along it; how long a message lives.
\<close>

section \<open>Messages\<close>

datatype delivery_mode =
    SilentDelivery "string list" nat
  | AcknowledgeDelivery "string list" nat
  | SeekDelivery "string list option" nat
  | TracedDelivery "string list"
  | AnyWhere

text \<open>The header, with the keys of its signatures in their order.\<close>

record header =
  mh_id :: string
  mh_mode :: delivery_mode
  mh_session :: int
  mh_timestamp :: int
  mh_expires :: int
  mh_priority :: nat
  mh_origin :: "string list option"
  mh_signers :: "string list"

datatype 'd message =
    DataMessage header "'d option"
  | ACK header string nat
  | Hello header "string list"
  | Goodbye header "string list"

fun header_of :: "'d message \<Rightarrow> header" where
  "header_of (DataMessage h d) = h"
| "header_of (ACK h i n) = h"
| "header_of (Hello h js) = h"
| "header_of (Goodbye h ls) = h"

fun with_header :: "header \<Rightarrow> 'd message \<Rightarrow> 'd message" where
  "with_header h (DataMessage _ d) = DataMessage h d"
| "with_header h (ACK _ i n) = ACK h i n"
| "with_header h (Hello _ js) = Hello h js"
| "with_header h (Goodbye _ ls) = Goodbye h ls"

fun is_data :: "'d message \<Rightarrow> bool" where
  "is_data (DataMessage h d) = True"
| "is_data _ = False"

fun is_goodbye :: "'d message \<Rightarrow> bool" where
  "is_goodbye (Goodbye h ls) = True"
| "is_goodbye _ = False"

fun is_seek :: "delivery_mode \<Rightarrow> bool" where
  "is_seek (SeekDelivery t r) = True"
| "is_seek _ = False"

fun is_silent :: "delivery_mode \<Rightarrow> bool" where
  "is_silent (SilentDelivery t r) = True"
| "is_silent _ = False"

fun is_acknowledge :: "delivery_mode \<Rightarrow> bool" where
  "is_acknowledge (AcknowledgeDelivery t r) = True"
| "is_acknowledge _ = False"

text \<open>\<open>mode.to\<close> where the mode has it, and the mode with another one.\<close>

fun mode_to :: "delivery_mode \<Rightarrow> string list option" where
  "mode_to (SilentDelivery t r) = Some t"
| "mode_to (AcknowledgeDelivery t r) = Some t"
| "mode_to (SeekDelivery t r) = t"
| "mode_to _ = None"

fun set_to :: "string list \<Rightarrow> delivery_mode \<Rightarrow> delivery_mode" where
  "set_to t (SilentDelivery _ r) = SilentDelivery t r"
| "set_to t (AcknowledgeDelivery _ r) = AcknowledgeDelivery t r"
| "set_to t (SeekDelivery _ r) = SeekDelivery (Some t) r"
| "set_to t m = m"

fun redundancy :: "delivery_mode \<Rightarrow> nat option" where
  "redundancy (SilentDelivery t r) = Some r"
| "redundancy (AcknowledgeDelivery t r) = Some r"
| "redundancy (SeekDelivery t r) = Some r"
| "redundancy _ = None"

definition deliveryModeHasReceiver :: "delivery_mode \<Rightarrow> bool" where
  "deliveryModeHasReceiver m = (case mode_to m of None \<Rightarrow> False | Some t \<Rightarrow> length t > 0)"

fun default_priority :: "delivery_mode \<Rightarrow> nat" where
  "default_priority (SilentDelivery t r) = 0"
| "default_priority AnyWhere = 0"
| "default_priority (SeekDelivery t r) = 1"
| "default_priority (AcknowledgeDelivery t r) = 1"
| "default_priority (TracedDelivery t) = 1"

definition map_header :: "(header \<Rightarrow> header) \<Rightarrow> 'd message \<Rightarrow> 'd message" where
  "map_header f m = with_header (f (header_of m)) m"

definition with_mode :: "delivery_mode \<Rightarrow> 'd message \<Rightarrow> 'd message" where
  "with_mode mode = map_header (\<lambda>h. h\<lparr>mh_mode := mode\<rparr>)"

definition mode_of :: "'d message \<Rightarrow> delivery_mode" where
  "mode_of m = mh_mode (header_of m)"

definition signers :: "'d message \<Rightarrow> string list" where
  "signers m = mh_signers (header_of m)"

text \<open>Signing adds a signature to those of the message.\<close>

definition sign_message :: "string \<Rightarrow> 'd message \<Rightarrow> 'd message" where
  "sign_message key = map_header (\<lambda>h. h\<lparr>mh_signers := mh_signers h @ [key]\<rparr>)"

section \<open>State\<close>

text \<open>Why a delivery promise was settled.\<close>

datatype outcome = Nobody_expected | All_acknowledged | Timed_out_accepted | Stopped | Timed_out_rejected | Became_unreachable

datatype delivery_promise = Delivered | Undeliverable | Promised nat

record pending_ack =
  pa_promise :: nat
  pa_seek :: bool
  pa_to :: "string jsset"
  pa_haveReceivers :: bool
  pa_relayed :: bool
  pa_filter :: "nat option"
  pa_session :: int
  pa_reached :: "(string, nat list) jsmap"
  pa_unique :: "string jsset"

datatype 'd stream_event = Message_event "'d message" | Data_event "'d message" | Reachable string | Unreachable "string option" | Session_event string

datatype stream_error = NotStartedError | Missing_signature | No_valid_receivers | Unsupported_message_type | Missing_sender | Seen_cache_error cache_error | Type_error_in_message

text \<open>\<open>nd_health\<close> says of the timer of a health check whether it is still to fire, and \<open>nd_expected\<close> notes which message a promise is about
  and whom it waits for.\<close>

record 'd node =
  nd_started :: bool
  nd_stopping :: bool
  nd_session :: int
  nd_peers :: "string jsset"
  nd_routes :: routes
  nd_seen :: "(string, nat) cache"
  nd_acks :: "(string, pending_ack) jsmap"
  nd_health :: "(string, bool) jsmap"
  nd_known :: "string jsset"
  nd_pruned :: "(string, unit) cache option"
  nd_recentDials :: "(string, unit) cache option"
  nd_dialled :: "string list"
  nd_nonce :: nat
  nd_promises :: nat
  nd_settled :: "(nat \<times> outcome) list"
  nd_expected :: "(nat \<times> string \<times> string list \<times> nat option) list"
  nd_sent :: "(string \<times> 'd message) list"
  nd_events :: "'d stream_event list"

text \<open>The parameters of a node. \<open>se_id\<close> gives the random ids, \<open>se_msgId\<close> and \<open>se_ackId\<close> are the hashes of the first bytes of a message and
  of all bytes of an acknowledgement.\<close>

record 'd stream_env =
  se_me :: string
  se_canRelay :: bool
  se_routeSeekInterval :: int
  se_id :: "nat \<Rightarrow> string"
  se_msgId :: "'d message \<Rightarrow> string"
  se_ackId :: "'d message \<Rightarrow> string"
  se_verifies :: "'d message \<Rightarrow> bool"
  se_addresses :: "string list"

text \<open>An operation returns an error or a value, and the state.\<close>

type_synonym ('d, 'a) act = "(stream_error + 'a) \<times> 'd node"

definition act_bind :: "('d, 'a) act \<Rightarrow> ('a \<Rightarrow> 'd node \<Rightarrow> ('d, 'b) act) \<Rightarrow> ('d, 'b) act" where
  "act_bind x f = (case x of (Inl e, n) \<Rightarrow> (Inl e, n) | (Inr a, n) \<Rightarrow> f a n)"

text \<open>A call that is not awaited: its error does not reach the caller.\<close>

definition unawaited :: "('d, 'a) act \<Rightarrow> 'd node" where
  "unawaited x = snd x"

definition emit :: "'d stream_event \<Rightarrow> 'd node \<Rightarrow> 'd node" where
  "emit ev n = n\<lparr>nd_events := nd_events n @ [ev]\<rparr>"

definition send_to :: "string \<Rightarrow> 'd message \<Rightarrow> 'd node \<Rightarrow> 'd node" where
  "send_to p m n = n\<lparr>nd_sent := nd_sent n @ [(p, m)]\<rparr>"

text \<open>A promise keeps its first outcome.\<close>

definition settle :: "nat \<Rightarrow> outcome \<Rightarrow> 'd node \<Rightarrow> 'd node" where
  "settle p r n = (if p \<in> fst ` set (nd_settled n) then n else n\<lparr>nd_settled := nd_settled n @ [(p, r)]\<rparr>)"

section \<open>Routes and sessions\<close>

text \<open>\<open>onPeerUnreachable\<close>: the deliveries of this node that wait for the peer fail. The event carries the key, when it is known; a listener
  that gets no key throws.\<close>

definition fail_delivery :: "string \<Rightarrow> string \<times> pending_ack \<Rightarrow> 'd node \<Rightarrow> 'd node" where
  "fail_delivery hash x n =
     (case x of (i, pa) \<Rightarrow>
        if \<not> pa_relayed pa \<and> hash \<in> set (pa_to pa) then settle (pa_promise pa) Became_unreachable (n\<lparr>nd_acks := jm_delete (nd_acks n) i\<rparr>) else n)"

definition onPeerUnreachable :: "string \<Rightarrow> 'd node \<Rightarrow> 'd node" where
  "onPeerUnreachable hash n =
     (if hash \<in> set (nd_known n) then fold (fail_delivery hash) (nd_acks n) (emit (Unreachable (Some hash)) n) else emit (Unreachable None) n)"

definition lose_peer :: "string \<Rightarrow> 'd node \<Rightarrow> 'd node" where
  "lose_peer hash n = (let n1 = onPeerUnreachable hash n in n1\<lparr>nd_known := js_remove (nd_known n1) hash\<rparr>)"

definition removePeerFromRoutes :: "string \<Rightarrow> bool \<Rightarrow> 'd node \<Rightarrow> 'd node" where
  "removePeerFromRoutes hash deleteIfNeighbour n =
     (if hash \<in> set (nd_peers n) \<and> \<not> deleteIfNeighbour then n
      else let (unreachable, routes) = routes_remove (nd_routes n) hash in fold lose_peer unreachable (n\<lparr>nd_routes := routes\<rparr>))"

definition addRouteConnection :: "'d stream_env \<Rightarrow> int \<Rightarrow> string \<Rightarrow> string \<Rightarrow> string \<Rightarrow> int \<Rightarrow> int \<Rightarrow> int \<Rightarrow> 'd node \<Rightarrow> 'd node" where
  "addRouteConnection E now from neighbour target distance session remSession n =
     (let (update, routes) = routes_add now (nd_routes n) from neighbour target distance session remSession; n1 = n\<lparr>nd_routes := routes\<rparr>
      in if from = se_me E \<and> update = New then emit (Reachable target) (n1\<lparr>nd_known := js_add (nd_known n1) target\<rparr>) else n1)"

definition stream_updateSession :: "string \<Rightarrow> int \<Rightarrow> 'd node \<Rightarrow> 'd node" where
  "stream_updateSession key session n =
     (let (changed, routes) = updateSession (nd_routes n) key (Some session); n1 = n\<lparr>nd_routes := routes\<rparr>
      in if changed then emit (Session_event key) n1 else n1)"

definition invalidateSession :: "string \<Rightarrow> 'd node \<Rightarrow> 'd node" where
  "invalidateSession key n = n\<lparr>nd_routes := snd (updateSession (nd_routes n) key None)\<rparr>"

definition clearHealthcheckTimer :: "string \<Rightarrow> 'd node \<Rightarrow> 'd node" where
  "clearHealthcheckTimer hash n = n\<lparr>nd_health := jm_delete (nd_health n) hash\<rparr>"

definition addPeer :: "'d stream_env \<Rightarrow> int \<Rightarrow> string \<Rightarrow> 'd node \<Rightarrow> 'd node" where
  "addPeer E now hash n =
     (let n1 = clearHealthcheckTimer hash n
      in if hash \<in> set (nd_peers n1) then n1
         else addRouteConnection E now (se_me E) hash hash (- 1) now (- 1) (stream_updateSession hash (- 1) (n1\<lparr>nd_peers := nd_peers n1 @ [hash]\<rparr>)))"

definition removePeer :: "string \<Rightarrow> 'd node \<Rightarrow> 'd node" where
  "removePeer hash n = (let n1 = clearHealthcheckTimer hash n in n1\<lparr>nd_peers := js_remove (nd_peers n1) hash\<rparr>)"

section \<open>Sending\<close>

definition modifySeenCache :: "int \<Rightarrow> string \<Rightarrow> 'd node \<Rightarrow> ('d, nat) act" where
  "modifySeenCache now key n =
     (case cache_get now (nd_seen n) key of
        Inl e \<Rightarrow> (Inl (Seen_cache_error e), n)
      | Inr (v, c1) \<Rightarrow>
          let seen = (case v of Some (Some k) \<Rightarrow> k | _ \<Rightarrow> 0)
          in case cache_add now c1 key (Some (if seen \<noteq> 0 then seen + 1 else 1)) 1 of
               Inl e \<Rightarrow> (Inl (Seen_cache_error e), n\<lparr>nd_seen := c1\<rparr>)
             | Inr c2 \<Rightarrow> (Inr seen, n\<lparr>nd_seen := c2\<rparr>))"

text \<open>Acknowledgements are awaited of those the message is for, but the one it comes from. Only the origin knows how many to expect, and
  it checks after a time that they are alive.\<close>

definition createDeliveryPromise :: "string \<Rightarrow> 'd message \<Rightarrow> bool \<Rightarrow> int \<Rightarrow> 'd node \<Rightarrow> delivery_promise \<times> 'd node" where
  "createDeliveryPromise from m relayed now n =
     (let mode = mode_of m; i = mh_id (header_of m)
      in if mode = AnyWhere then (Delivered, n)
         else case jm_get (nd_acks n) i of
           Some pa \<Rightarrow> (Promised (pa_promise pa), n)
         | None \<Rightarrow>
             let tos = filter (\<lambda>t. t \<noteq> from) (case mode_to mode of None \<Rightarrow> [] | Some t \<Rightarrow> t);
                 messageToSet = fold (\<lambda>t s. js_add s t) tos [];
                 n1 = (if relayed then n else n\<lparr>nd_health := fold (\<lambda>t h. if jm_has h t then h else jm_set h t True) tos (nd_health n)\<rparr>);
                 haveReceivers = length messageToSet > 0
             in if haveReceivers \<and> length (nd_peers n1) = 0 then (Undeliverable, n1)
                else
                  let p = nd_promises n1; n2 = n1\<lparr>nd_promises := Suc p\<rparr>;
                      n3 = (if \<not> haveReceivers then settle p Nobody_expected n2 else n2);
                      wanted = (if relayed then None else Some (case mode of SeekDelivery _ r \<Rightarrow> min (length (nd_peers n1)) r | _ \<Rightarrow> 1))
                  in (Promised p, n3\<lparr>nd_acks := jm_set (nd_acks n3) i \<lparr>pa_promise = p, pa_seek = is_seek mode, pa_to = messageToSet,
                        pa_haveReceivers = haveReceivers, pa_relayed = relayed, pa_filter = wanted, pa_session = now, pa_reached = [], pa_unique = []\<rparr>,
                      nd_expected := nd_expected n3 @ [(p, i, messageToSet, wanted)]\<rparr>))"

text \<open>The loop that sends a message to peers, never back to where it comes from nor to a signer.\<close>

definition receivers :: "string \<Rightarrow> 'd message \<Rightarrow> string list \<Rightarrow> string list" where
  "receivers from m peers = filter (\<lambda>p. p \<noteq> from \<and> p \<notin> set (signers m)) peers"

definition send_all :: "string list \<Rightarrow> 'd message \<Rightarrow> 'd node \<Rightarrow> 'd node" where
  "send_all ps m n = fold (\<lambda>p. send_to p m) ps n"

definition publish_directly :: "string \<Rightarrow> 'd message \<Rightarrow> string list option \<Rightarrow> bool \<Rightarrow> delivery_promise \<Rightarrow> 'd node \<Rightarrow> ('d, delivery_promise) act" where
  "publish_directly from m to relayed delivery n =
     (let peers = (case to of None \<Rightarrow> nd_peers n | Some ps \<Rightarrow> ps); rs = receivers from m peers
      in if length peers = 0 then (Inr delivery, n)
         else if rs = [] \<and> \<not> relayed then (Inl No_valid_receivers, n)
         else (Inr delivery, send_all rs m n))"

definition routed :: "'d message \<Rightarrow> string list option \<Rightarrow> bool" where
  "routed m to \<longleftrightarrow> is_data m \<and> (is_acknowledge (mode_of m) \<or> is_silent (mode_of m)) \<and> to = None \<and> (case mode_to (mode_of m) of None \<Rightarrow> False | Some t \<Rightarrow> length t > 0)"

definition fanout_of :: "string \<Rightarrow> 'd message \<Rightarrow> 'd node \<Rightarrow> fanout option" where
  "fanout_of from m n =
     getFanout (nd_routes n) from (case mode_to (mode_of m) of None \<Rightarrow> [] | Some t \<Rightarrow> t) (case redundancy (mode_of m) of None \<Rightarrow> 0 | Some r \<Rightarrow> int r)"

definition publishMessage :: "'d stream_env \<Rightarrow> int \<Rightarrow> string \<Rightarrow> 'd message \<Rightarrow> string list option \<Rightarrow> bool \<Rightarrow> 'd node \<Rightarrow> ('d, delivery_promise) act" where
  "publishMessage E now from m to relayed n =
     (if nd_stopping n \<or> \<not> nd_started n then (Inl NotStartedError, n)
      else if signers m = [] \<and> is_data m \<and> \<not> is_silent (mode_of m) then (Inl Missing_signature, n)
      else
        let to1 = (if is_data m \<and> is_seek (mode_of m) \<and> \<not> relayed then Some (nd_peers n) else to);
            to2 = (if is_acknowledge (mode_of m) then None else to1);
            (delivery, n1) = (if (is_data m \<or> is_goodbye m) \<and> (is_seek (mode_of m) \<or> is_acknowledge (mode_of m))
                              then createDeliveryPromise from m relayed now n else (Delivered, n))
        in act_bind (if relayed then (Inr 0, n1) else modifySeenCache now (se_msgId E m) n1) (\<lambda>_ n2.
             if routed m to2 then
               (case fanout_of from m n2 of
                  Some F \<Rightarrow> if length F > 0 then (Inr delivery, send_all (filter (\<lambda>p. p \<in> set (nd_peers n2)) (jm_keys F)) m n2) else (Inr Delivered, n2)
                | None \<Rightarrow> if relayed then (Inr Delivered, n2) else publish_directly from m to2 relayed delivery n2)
             else publish_directly from m to2 relayed delivery n2))"

definition relayMessage :: "'d stream_env \<Rightarrow> int \<Rightarrow> string \<Rightarrow> 'd message \<Rightarrow> string list option \<Rightarrow> 'd node \<Rightarrow> ('d, delivery_promise) act" where
  "relayMessage E now from m to n =
     (if se_canRelay E then
        let m1 = (if is_data m \<and> (is_acknowledge (mode_of m) \<or> is_seek (mode_of m)) then sign_message (se_me E) m else m)
        in if deliveryModeHasReceiver (mode_of m1) then
             let others = filter (\<lambda>t. t \<noteq> se_me E) (case mode_to (mode_of m1) of None \<Rightarrow> [] | Some t \<Rightarrow> t)
             in if length others = 0 then (Inr Delivered, n)
                else publishMessage E now from (with_mode (set_to others (mode_of m1)) m1) to True n
           else publishMessage E now from m1 to True n
      else (Inr Delivered, n))"

text \<open>How long a message lives, by default: \<open>7 * 24 * 60 * 60 + 1000\<close> milliseconds, which is ten minutes and not a week.\<close>

definition WEEK_MS :: int where
  "WEEK_MS = 7 * 24 * 60 * 60 + 1000"

text \<open>A new header with a fresh id.\<close>

definition new_header :: "'d stream_env \<Rightarrow> int \<Rightarrow> delivery_mode \<Rightarrow> nat option \<Rightarrow> string list option \<Rightarrow> 'd node \<Rightarrow> header \<times> 'd node" where
  "new_header E now mode priority origin n =
     (\<lparr>mh_id = se_id E (nd_nonce n), mh_mode = mode, mh_session = nd_session n, mh_timestamp = now, mh_expires = now + WEEK_MS,
        mh_priority = (case priority of Some q \<Rightarrow> q | None \<Rightarrow> default_priority mode), mh_origin = origin, mh_signers = []\<rparr>,
      n\<lparr>nd_nonce := Suc (nd_nonce n)\<rparr>)"

text \<open>Without a fresh route to all receivers a message seeks them.\<close>

definition fresh_route :: "'d stream_env \<Rightarrow> int \<Rightarrow> 'd node \<Rightarrow> string \<Rightarrow> bool" where
  "fresh_route E now n hash =
     (case findNeighbor (nd_routes n) (se_me E) hash of
        None \<Rightarrow> False
      | Some r \<Rightarrow> now - rt_session r \<le> int (length (rt_list r)) * se_routeSeekInterval E \<and> isUpToDate (nd_routes n) hash r)"

definition createMessage :: "'d stream_env \<Rightarrow> int \<Rightarrow> 'd option \<Rightarrow> delivery_mode option \<Rightarrow> string list \<Rightarrow> string option \<Rightarrow> nat option \<Rightarrow> 'd node \<Rightarrow> 'd message \<times> 'd node" where
  "createMessage E now data mode to given priority n =
     (let m0 = (case mode of Some m \<Rightarrow> m | None \<Rightarrow> SilentDelivery to 1);
          m1 = (case mode_to m0 of None \<Rightarrow> m0 | Some t \<Rightarrow> set_to (filter (\<lambda>x. x \<noteq> se_me E) t) m0);
          tos = (case mode_to m1 of None \<Rightarrow> [] | Some t \<Rightarrow> t);
          m2 = (if (is_acknowledge m1 \<or> is_silent m1) \<and> (\<exists>t \<in> set tos. \<not> fresh_route E now n t) then SeekDelivery (Some tos) 2 else m1);
          (h, n1) = new_header E now m2 priority None n
      in (sign_message (se_me E) (DataMessage (case given of None \<Rightarrow> h | Some i \<Rightarrow> h\<lparr>mh_id := i\<rparr>) data), n1))"

text \<open>With a mode and receivers, the receivers are the neighbours to send to, when all are neighbours.\<close>

definition stream_publish :: "'d stream_env \<Rightarrow> int \<Rightarrow> 'd option \<Rightarrow> delivery_mode option \<Rightarrow> string list option \<Rightarrow> string option \<Rightarrow> nat option \<Rightarrow> 'd node \<Rightarrow> ('d, string \<times> delivery_promise) act" where
  "stream_publish E now data withMode withTo given priority n =
     (if \<not> nd_started n then (Inl NotStartedError, n)
      else if withMode = None \<and> withTo = None then (Inl Type_error_in_message, n)
      else
        let (m, n1) = createMessage E now data withMode (case withTo of None \<Rightarrow> [] | Some t \<Rightarrow> t) given priority n;
            to = (if withMode \<noteq> None then (case withTo of None \<Rightarrow> None | Some t \<Rightarrow> if set t \<subseteq> set (nd_peers n1) then Some t else None) else None)
        in act_bind (publishMessage E now (se_me E) m to False n1) (\<lambda>delivery n2. (Inr (mh_id (header_of m), delivery), n2)))"

section \<open>Receiving\<close>

definition shouldIgnore :: "'d stream_env \<Rightarrow> 'd message \<Rightarrow> nat \<Rightarrow> bool" where
  "shouldIgnore E m seenBefore \<longleftrightarrow>
     se_me E \<in> set (signers m) \<or> seenBefore > 0 \<and> \<not> is_seek (mode_of m) \<or>
     is_seek (mode_of m) \<and> (case redundancy (mode_of m) of None \<Rightarrow> False | Some r \<Rightarrow> seenBefore \<ge> r)"

text \<open>A message that verifies has a signer; the session of a signer that is no neighbour is updated.\<close>

definition verifyAndProcess :: "'d stream_env \<Rightarrow> int \<Rightarrow> 'd message \<Rightarrow> 'd node \<Rightarrow> bool \<times> 'd node" where
  "verifyAndProcess E now m n =
     (if mh_expires (header_of m) \<ge> now \<and> signers m \<noteq> [] \<and> se_verifies E m
      then (True, if hd (signers m) \<in> set (nd_peers n) then n else stream_updateSession (hd (signers m)) (mh_session (header_of m)) n)
      else (False, n))"

fun recently_pruned :: "int \<Rightarrow> string list \<Rightarrow> 'd node \<Rightarrow> ('d, bool) act" where
  "recently_pruned now [] n = (Inr False, n)"
| "recently_pruned now (k # ks) n =
     (case nd_pruned n of
        None \<Rightarrow> (Inr False, n)
      | Some c \<Rightarrow>
          (case cache_has now c k of
             Inl e \<Rightarrow> (Inl (Seen_cache_error e), n)
           | Inr (b, c') \<Rightarrow> let n1 = n\<lparr>nd_pruned := Some c'\<rparr> in if b then (Inr True, n1) else recently_pruned now ks n1))"

definition wants_ack :: "'d stream_env \<Rightarrow> 'd message \<Rightarrow> nat \<Rightarrow> bool" where
  "wants_ack E m seenBefore \<longleftrightarrow>
     (is_seek (mode_of m) \<or> is_acknowledge (mode_of m)) \<and> (case redundancy (mode_of m) of None \<Rightarrow> False | Some r \<Rightarrow> seenBefore < r) \<and>
     (case mode_to (mode_of m) of None \<Rightarrow> True | Some t \<Rightarrow> se_me E \<in> set t)"

text \<open>The acknowledgement traces back the signers of the message.\<close>

definition maybeAcknowledgeMessage :: "'d stream_env \<Rightarrow> int \<Rightarrow> string \<Rightarrow> 'd message \<Rightarrow> nat \<Rightarrow> 'd node \<Rightarrow> ('d, unit) act" where
  "maybeAcknowledgeMessage E now stream m seenBefore n =
     (if wants_ack E m seenBefore then
        act_bind (if is_seek (mode_of m) then recently_pruned now (signers m) n else (Inr True, n)) (\<lambda>pruned n1.
          let (h, n2) = new_header E now (TracedDelivery (signers m)) None (if pruned then None else Some (se_addresses E)) n1
          in act_bind (publishMessage E now (se_me E) (sign_message (se_me E) (ACK h (mh_id (header_of m)) (min 255 seenBefore))) (Some [stream]) False n2)
               (\<lambda>_ n3. (Inr (), n3)))
      else (Inr (), n))"

definition is_for_me :: "'d stream_env \<Rightarrow> string \<Rightarrow> 'd message \<Rightarrow> bool" where
  "is_for_me E from m \<longleftrightarrow> mode_of m = AnyWhere \<or> from \<noteq> se_me E \<and> (case mode_to (mode_of m) of None \<Rightarrow> True | Some t \<Rightarrow> se_me E \<in> set t)"

fun data_of :: "'d message \<Rightarrow> 'd option" where
  "data_of (DataMessage h d) = d"
| "data_of _ = None"

definition forward :: "'d stream_env \<Rightarrow> int \<Rightarrow> string \<Rightarrow> 'd message \<Rightarrow> nat \<Rightarrow> 'd node \<Rightarrow> bool option \<times> 'd node" where
  "forward E now from m seenBefore n =
     (if (is_silent (mode_of m) \<or> is_acknowledge (mode_of m)) \<and> mode_to (mode_of m) = Some [se_me E] then (Some True, n)
      else (None,
        if is_seek (mode_of m) then
          (let others = filter (\<lambda>p. p \<notin> set (signers m) \<and> p \<noteq> from) (nd_peers n)
           in if (case redundancy (mode_of m) of None \<Rightarrow> False | Some r \<Rightarrow> seenBefore < r) \<and> length others > 0
              then unawaited (relayMessage E now from m (Some others) n) else n)
        else if seenBefore = 0 then unawaited (relayMessage E now from m None n) else n))"

text \<open>\<open>onDataMessage\<close> returns \<open>undefined\<close> (\<open>None\<close>) when it comes to its end. A stream is named by its peer.\<close>

definition onDataMessage :: "'d stream_env \<Rightarrow> int \<Rightarrow> string \<Rightarrow> 'd message \<Rightarrow> nat \<Rightarrow> 'd node \<Rightarrow> ('d, bool option) act" where
  "onDataMessage E now from m seenBefore n =
     (if shouldIgnore E m seenBefore then (Inr (Some False), n)
      else if is_for_me E from m then
        let (verified, n1) = verifyAndProcess E now m n
        in if \<not> verified then (Inr (Some False), n1)
           else act_bind (maybeAcknowledgeMessage E now from m seenBefore n1) (\<lambda>_ n2.
             let (r, n3) = forward E now from m seenBefore (if seenBefore = 0 \<and> data_of m \<noteq> None then emit (Data_event m) n2 else n2) in (Inr r, n3))
      else let (r, n1) = forward E now from m seenBefore n in (Inr r, n1))"

definition receive_data :: "'d stream_env \<Rightarrow> int \<Rightarrow> string \<Rightarrow> 'd message \<Rightarrow> 'd node \<Rightarrow> ('d, bool option) act" where
  "receive_data E now from m n = act_bind (modifySeenCache now (se_msgId E m) n) (\<lambda>seenBefore n1. onDataMessage E now from m seenBefore n1)"

section \<open>Acknowledgements\<close>

definition clear_ack :: "string \<Rightarrow> 'd node \<Rightarrow> 'd node" where
  "clear_ack i n = n\<lparr>nd_acks := jm_delete (nd_acks n) i\<rparr>"

definition checkDone :: "string \<Rightarrow> pending_ack \<Rightarrow> 'd node \<Rightarrow> 'd node" where
  "checkDone i pa n =
     (case pa_filter pa of
        None \<Rightarrow> n
      | Some f \<Rightarrow>
          if length (pa_to pa) * f \<le> length (pa_unique pa)
          then settle (pa_promise pa) All_acknowledged (if pa_haveReceivers pa then clear_ack i n else n) else n)"

definition counts :: "pending_ack \<Rightarrow> string \<Rightarrow> nat \<Rightarrow> bool" where
  "counts pa target seen \<longleftrightarrow> target \<in> set (pa_to pa) \<and> (case pa_filter pa of None \<Rightarrow> True | Some f \<Rightarrow> seen < f) \<and> int seen < MAX_ROUTE_DISTANCE"

definition note_ack :: "string \<Rightarrow> nat \<Rightarrow> pending_ack \<Rightarrow> pending_ack" where
  "note_ack target seen pa =
     (if counts pa target seen
      then pa\<lparr>pa_reached := jm_set (pa_reached pa) target ((case jm_get (pa_reached pa) target of None \<Rightarrow> [] | Some a \<Rightarrow> a) @ [seen]),
              pa_unique := js_add (pa_unique pa) (target @ nat_str seen)\<rparr> else pa)"

text \<open>The callback of a pending delivery: a seek teaches a route to the one that acknowledged.\<close>

definition ack_callback :: "'d stream_env \<Rightarrow> int \<Rightarrow> string \<Rightarrow> nat \<Rightarrow> string \<Rightarrow> int \<Rightarrow> string \<Rightarrow> string option \<Rightarrow> 'd node \<Rightarrow> 'd node" where
  "ack_callback E now i seen target session through prior n =
     (case jm_get (nd_acks n) i of
        None \<Rightarrow> n
      | Some pa \<Rightarrow>
          let n1 = clearHealthcheckTimer target n;
              n2 = (if pa_seek pa then addRouteConnection E now (case prior of None \<Rightarrow> se_me E | Some b \<Rightarrow> b) through target (int seen) (pa_session pa) session n1 else n1);
              pa1 = note_ack target seen pa
          in checkDone i pa1 (n2\<lparr>nd_acks := jm_set (nd_acks n2) i pa1\<rparr>))"

fun find_index :: "string \<Rightarrow> string list \<Rightarrow> nat option" where
  "find_index x [] = None"
| "find_index x (y # ys) = (if y = x then Some 0 else map_option Suc (find_index x ys))"

definition previous :: "string \<Rightarrow> string list \<Rightarrow> string option" where
  "previous x trace = (case find_index x trace of None \<Rightarrow> None | Some 0 \<Rightarrow> None | Some (Suc k) \<Rightarrow> Some (trace ! k))"

fun undialled :: "int \<Rightarrow> string list \<Rightarrow> (string, unit) cache \<Rightarrow> cache_error + string list \<times> (string, unit) cache" where
  "undialled now [] c = Inr ([], c)"
| "undialled now (a # as) c =
     bind_sum (cache_has now c a) (\<lambda>(known, c1). bind_sum (cache_add now c1 a None 1) (\<lambda>c2. bind_sum (undialled now as c2) (\<lambda>(rest, c3).
       Inr (if known then rest else a # rest, c3))))"

definition maybeConnectDirectly :: "int \<Rightarrow> string \<Rightarrow> string list \<Rightarrow> 'd node \<Rightarrow> ('d, unit) act" where
  "maybeConnectDirectly now to origin n =
     (if to \<in> set (nd_peers n) then (Inr (), n)
      else act_bind (recently_pruned now [to] n) (\<lambda>pruned n1.
        if pruned then (Inr (), n1)
        else case nd_recentDials n1 of
          None \<Rightarrow> (Inl Type_error_in_message, n1)
        | Some c \<Rightarrow>
            (case undialled now origin c of
               Inl e \<Rightarrow> (Inl (Seen_cache_error e), n1)
             | Inr (as, c') \<Rightarrow>
                 let n2 = n1\<lparr>nd_recentDials := Some c'\<rparr>
                 in (Inr (), if length as > 0 then n2\<lparr>nd_dialled := nd_dialled n2 @ [last as]\<rparr> else n2))))"

text \<open>The acknowledgement goes back the way the message came; its origin may connect to the one it comes from.\<close>

definition relay_ack :: "'d stream_env \<Rightarrow> int \<Rightarrow> 'd message \<Rightarrow> string list \<Rightarrow> string option \<Rightarrow> 'd node \<Rightarrow> ('d, bool option) act" where
  "relay_ack E now m trace prior n =
     (case prior of
        Some p \<Rightarrow> act_bind (publishMessage E now (se_me E) m (Some [p]) True n) (\<lambda>_ n1. (Inr None, n1))
      | None \<Rightarrow>
          if find_index (se_me E) trace \<noteq> Some 0 then (Inr None, n)
          else (Inr None, case (mh_origin (header_of m), nd_recentDials n) of
              (Some origin, Some _) \<Rightarrow> unawaited (maybeConnectDirectly now (hd (signers m)) origin n)
            | _ \<Rightarrow> n))"

definition onAck :: "'d stream_env \<Rightarrow> int \<Rightarrow> string \<Rightarrow> 'd message \<Rightarrow> 'd node \<Rightarrow> ('d, bool option) act" where
  "onAck E now from m n =
     (case m of
        ACK h i seen \<Rightarrow>
          act_bind (modifySeenCache now (se_ackId E m) n) (\<lambda>seenBefore n1.
            if seenBefore > 0 then (Inr (Some False), n1)
            else let (verified, n2) = verifyAndProcess E now m n1
              in if \<not> verified then (Inr (Some False), n2)
                 else case mh_mode h of
                   TracedDelivery trace \<Rightarrow>
                     let prior = (case previous (se_me E) trace of None \<Rightarrow> None | Some p \<Rightarrow> if p \<in> set (nd_peers n2) then Some p else None)
                     in relay_ack E now m trace prior (ack_callback E now i seen (hd (signers m)) (mh_session h) from prior n2)
                 | _ \<Rightarrow> (Inl Type_error_in_message, n2))
      | _ \<Rightarrow> (Inl Unsupported_message_type, n))"

text \<open>The timeout of a delivery. The loop over the receivers stops at the first that was reached.\<close>

fun all_reached :: "(string, nat list) jsmap \<Rightarrow> bool \<Rightarrow> bool \<Rightarrow> string list \<Rightarrow> bool" where
  "all_reached reached relayed hasAll [] = hasAll"
| "all_reached reached relayed hasAll (t # ts) =
     (if jm_has reached t then hasAll else all_reached reached relayed (if relayed then hasAll else False) ts)"

definition ack_timeout :: "string \<Rightarrow> 'd node \<Rightarrow> 'd node" where
  "ack_timeout i n =
     (case jm_get (nd_acks n) i of
        None \<Rightarrow> n
      | Some pa \<Rightarrow>
          let n1 = clear_ack i n
          in if \<not> all_reached (pa_reached pa) (pa_relayed pa) True (pa_to pa) \<and> \<not> pa_relayed pa
             then settle (pa_promise pa) Timed_out_rejected n1 else settle (pa_promise pa) Timed_out_accepted n1)"

definition health_timeout :: "string \<Rightarrow> 'd node \<Rightarrow> 'd node" where
  "health_timeout hash n =
     (if jm_get (nd_health n) hash = Some True then removePeerFromRoutes hash False (n\<lparr>nd_health := jm_set (nd_health n) hash False\<rparr>) else n)"

section \<open>Peers that leave\<close>

definition checkIsAlive :: "'d stream_env \<Rightarrow> int \<Rightarrow> string list \<Rightarrow> 'd node \<Rightarrow> 'd node" where
  "checkIsAlive E now remotes n =
     (if length (nd_peers n) = 0 then n
      else if length remotes > 0 then unawaited (stream_publish E now None (Some (SeekDelivery (Some remotes) 2)) None None None n) else n)"

definition maybeDeleteRemoteRoutes :: "'d stream_env \<Rightarrow> int \<Rightarrow> string list \<Rightarrow> 'd node \<Rightarrow> 'd node" where
  "maybeDeleteRemoteRoutes E now remotes n = checkIsAlive E now remotes (fold invalidateSession remotes n)"

text \<open>A goodbye goes on to all that depend on one who leaves; the receivers are collected in the message.\<close>

fun forward_goodbye :: "'d stream_env \<Rightarrow> int \<Rightarrow> string \<Rightarrow> string list \<Rightarrow> 'd message \<Rightarrow> 'd node \<Rightarrow> ('d, 'd message) act" where
  "forward_goodbye E now from [] m n = (Inr m, n)"
| "forward_goodbye E now from (target # targets) m n =
     (case mode_to (mode_of m) of
        None \<Rightarrow> (Inl Type_error_in_message, n)
      | Some tos \<Rightarrow>
          let newTo = filter (\<lambda>x. x \<noteq> se_me E) (tos @ getDependent (nd_routes n) target); m1 = with_mode (SilentDelivery newTo 1) m
          in act_bind (if length newTo > 0 then publishMessage E now from m1 None True n else (Inr Delivered, n)) (\<lambda>_ n1.
               forward_goodbye E now from targets m1 n1))"

definition onGoodBye :: "'d stream_env \<Rightarrow> int \<Rightarrow> string \<Rightarrow> 'd message \<Rightarrow> 'd node \<Rightarrow> ('d, bool option) act" where
  "onGoodBye E now from m n =
     (case m of
        Goodbye h leaving \<Rightarrow>
          act_bind (modifySeenCache now (se_msgId E m) n) (\<lambda>seenBefore n1.
            if seenBefore > 0 then (Inr None, n1)
            else let (verified, n2) = verifyAndProcess E now m n1
              in if \<not> verified then (Inr (Some False), n2)
                 else act_bind (maybeAcknowledgeMessage E now from m seenBefore n2) (\<lambda>_ n3.
                   let filteredLeaving = filter (hasTarget (nd_routes n3)) leaving
                   in act_bind (forward_goodbye E now from leaving m n3) (\<lambda>_ n4. (Inr None, maybeDeleteRemoteRoutes E now filteredLeaving n4))))
      | _ \<Rightarrow> (Inl Unsupported_message_type, n))"

text \<open>A stream comes in, unless the connection to its peer was recently pruned, or one is opened. The value tells whether the connection stays.\<close>

definition onIncomingStream :: "'d stream_env \<Rightarrow> int \<Rightarrow> string \<Rightarrow> 'd node \<Rightarrow> ('d, bool) act" where
  "onIncomingStream E now hash n =
     (if \<not> nd_started n then (Inr True, n)
      else act_bind (recently_pruned now [hash] n) (\<lambda>pruned n1. if pruned then (Inr False, n1) else (Inr True, addPeer E now hash n1)))"

definition createOutboundStream :: "'d stream_env \<Rightarrow> int \<Rightarrow> string \<Rightarrow> 'd node \<Rightarrow> 'd node" where
  "createOutboundStream E now hash n = (if nd_started n then addPeer E now hash n else n)"

text \<open>A neighbour disconnects, unless another connection to it is left.\<close>

definition onPeerDisconnected :: "'d stream_env \<Rightarrow> int \<Rightarrow> string \<Rightarrow> bool \<Rightarrow> 'd node \<Rightarrow> ('d, unit) act" where
  "onPeerDisconnected E now hash stillConnected n =
     (if stillConnected \<or> hash \<notin> set (nd_peers n) \<or> hash = se_me E then (Inr (), n)
      else
        let n1 = removePeer hash n; dependent = getDependent (nd_routes n1) hash; n2 = removePeerFromRoutes hash True n1
        in act_bind (if length dependent > 0 then
             (let (h, n3) = new_header E now (SilentDelivery dependent 2) None None n2
              in publishMessage E now (se_me E) (sign_message (se_me E) (Goodbye h [hash])) None False n3)
             else (Inr Delivered, n2)) (\<lambda>_ n4. (Inr (), checkIsAlive E now [hash] n4)))"

text \<open>Pruning a connection, with the bandwidth of each neighbour.\<close>

definition pruneConnections :: "'d stream_env \<Rightarrow> int \<Rightarrow> (string \<Rightarrow> int) \<Rightarrow> nat \<Rightarrow> 'd node \<Rightarrow> ('d, unit) act" where
  "pruneConnections E now usedBandwidth minConnections n =
     (if length (nd_peers n) \<le> minConnections then (Inr (), n)
      else
        let ordered = js_sort (\<lambda>x y. usedBandwidth x - usedBandwidth y) (nd_peers n)
        in case getPrunable (nd_routes n) ordered of
             [] \<Rightarrow> (Inr (), n)
           | p # _ \<Rightarrow>
               (case nd_pruned n of
                  None \<Rightarrow> (Inl Type_error_in_message, n)
                | Some c \<Rightarrow>
                    (case cache_add now c p None 1 of
                       Inl e \<Rightarrow> (Inl (Seen_cache_error e), n)
                     | Inr c' \<Rightarrow> onPeerDisconnected E now p False (n\<lparr>nd_pruned := Some c'\<rparr>))))"

section \<open>Messages, start and stop\<close>

definition processMessage :: "'d stream_env \<Rightarrow> int \<Rightarrow> string \<Rightarrow> 'd message \<Rightarrow> 'd node \<Rightarrow> ('d, unit) act" where
  "processMessage E now from m n =
     (if \<not> nd_started n then (Inr (), n)
      else if \<not> is_data m \<and> signers m = [] then (Inl Missing_sender, n)
      else
        let n1 = emit (Message_event m) n
        in case m of
             DataMessage h d \<Rightarrow> (Inr (), unawaited (receive_data E now from m n1))
           | ACK h i s \<Rightarrow> (Inr (), unawaited (onAck E now from m n1))
           | Goodbye h ls \<Rightarrow> (Inr (), unawaited (onGoodBye E now from m n1))
           | Hello h js \<Rightarrow> (Inl Unsupported_message_type, n1))"

definition new_node :: "string \<Rightarrow> (string, nat) cache \<Rightarrow> (string, unit) cache option \<Rightarrow> (string, unit) cache option \<Rightarrow> 'd node" where
  "new_node me seen dials pruned =
     \<lparr>nd_started = False, nd_stopping = False, nd_session = 0, nd_peers = [], nd_routes = new_Routes me None, nd_seen = seen, nd_acks = [], nd_health = [],
      nd_known = [], nd_pruned = pruned, nd_recentDials = dials, nd_dialled = [], nd_nonce = 0, nd_promises = 0, nd_settled = [], nd_expected = [],
      nd_sent = [], nd_events = []\<rparr>"

definition stream_start :: "'d stream_env \<Rightarrow> int \<Rightarrow> int \<Rightarrow> 'd node \<Rightarrow> 'd node" where
  "stream_start E now retention n =
     (if nd_started n then n
      else n\<lparr>nd_session := now, nd_routes := new_Routes (se_me E) (Some retention), nd_started := True, nd_stopping := False\<rparr>)"

definition stream_stop :: "'d node \<Rightarrow> 'd node" where
  "stream_stop n =
     (if \<not> nd_started n then n
      else
        let n1 = n\<lparr>nd_started := False, nd_health := [], nd_pruned := map_option cache_clear (nd_pruned n), nd_peers := [], nd_seen := cache_clear (nd_seen n),
              nd_routes := (routes_clear (nd_routes n))\<lparr>rt_scheduled := []\<rparr>, nd_known := []\<rparr>
        in (fold (\<lambda>(i, pa) n. settle (pa_promise pa) Stopped (clear_ack i n)) (nd_acks n1) n1)\<lparr>nd_acks := [], nd_stopping := False\<rparr>)"

text \<open>The node as a state machine. What the node itself publishes, whom it relays to and when timers fire is up to the steps.\<close>

inductive stream_step :: "'d stream_env \<Rightarrow> 'd node \<Rightarrow> 'd node \<Rightarrow> bool" for E where
  start: "stream_step E n (stream_start E now retention n)"
| stop: "stream_step E n (stream_stop n)"
| incoming: "stream_step E n (unawaited (onIncomingStream E now hash n))"
| outbound: "stream_step E n (createOutboundStream E now hash n)"
| closes: "stream_step E n (removePeer hash n)"
| disconnects: "stream_step E n (unawaited (onPeerDisconnected E now hash stillConnected n))"
| receives: "stream_step E n (unawaited (processMessage E now from m n))"
| publishes: "stream_step E n (unawaited (stream_publish E now data mode to given priority n))"
| prunes: "stream_step E n (unawaited (pruneConnections E now bandwidth k n))"
| delivery_timeout: "stream_step E n (ack_timeout i n)"
| health_check: "stream_step E n (health_timeout hash n)"
| route_cleanup: "rt_scheduled (nd_routes n) = pre @ (from, to) # post \<Longrightarrow>
    stream_step E n (n\<lparr>nd_routes := cleanup now ((nd_routes n)\<lparr>rt_scheduled := pre @ post\<rparr>) from to\<rparr>)"

section \<open>Lemmas: pending deliveries\<close>

text \<open>The acknowledgements of a message that were received: who signed first and how often it had seen the message.\<close>

definition acked :: "'d stream_env \<Rightarrow> 'd stream_event set \<Rightarrow> string \<Rightarrow> string \<Rightarrow> nat \<Rightarrow> bool" where
  "acked E M i t k \<longleftrightarrow> (\<exists>h. Message_event (ACK h i k) \<in> M \<and> se_verifies E (ACK h i k) \<and> mh_signers h \<noteq> [] \<and> hd (mh_signers h) = t)"

definition pending_delivery_ok :: "'d stream_env \<Rightarrow> 'd stream_event set \<Rightarrow> (nat \<times> string \<times> string list \<times> nat option) set \<Rightarrow> string \<Rightarrow> pending_ack \<Rightarrow> bool" where
  "pending_delivery_ok E M X i pa \<longleftrightarrow> (pa_promise pa, i, pa_to pa, pa_filter pa) \<in> X \<and> distinct (pa_to pa) \<and>
     set (pa_unique pa) \<subseteq> {t @ nat_str k |t k. t \<in> set (pa_to pa) \<and> (\<forall>f. pa_filter pa = Some f \<longrightarrow> k < f) \<and> acked E M i t k} \<and> distinct (pa_unique pa)"

definition deliveries_ok :: "'d stream_env \<Rightarrow> 'd stream_event set \<Rightarrow> 'd node \<Rightarrow> bool" where
  "deliveries_ok E M n \<longleftrightarrow> M \<subseteq> set (nd_events n) \<and> map fst (nd_expected n) = [0..<nd_promises n] \<and>
     (\<forall>(i, pa) \<in> set (nd_acks n). pending_delivery_ok E (set (nd_events n)) (set (nd_expected n)) i pa) \<and>
     (\<forall>p. (p, All_acknowledged) \<in> set (nd_settled n) \<longrightarrow>
        (\<exists>i ts f. (p, i, ts, Some f) \<in> set (nd_expected n) \<and> (\<forall>t \<in> set ts. \<forall>k < f. acked E (set (nd_events n)) i t k)))"

lemma acked_mono: "acked E M i t k \<Longrightarrow> M \<subseteq> N \<Longrightarrow> acked E N i t k"
  by (auto simp: acked_def)

lemma pending_delivery_mono: "pending_delivery_ok E M X i pa \<Longrightarrow> M \<subseteq> N \<Longrightarrow> X \<subseteq> Y \<Longrightarrow> pending_delivery_ok E N Y i pa"
  unfolding pending_delivery_ok_def by (blast intro: acked_mono)

lemma deliveries_okI:
  assumes "M \<subseteq> set (nd_events n)" and "map fst (nd_expected n) = [0..<nd_promises n]"
    and "\<And>i pa. (i, pa) \<in> set (nd_acks n) \<Longrightarrow> pending_delivery_ok E (set (nd_events n)) (set (nd_expected n)) i pa"
    and "\<And>p. (p, All_acknowledged) \<in> set (nd_settled n) \<Longrightarrow>
      \<exists>i ts f. (p, i, ts, Some f) \<in> set (nd_expected n) \<and> (\<forall>t \<in> set ts. \<forall>k < f. acked E (set (nd_events n)) i t k)"
  shows "deliveries_ok E M n"
  unfolding deliveries_ok_def using assms by (intro conjI ballI allI impI) (auto simp only: split: prod.split)

lemma deliveries_okD:
  assumes "(i, pa) \<in> set (nd_acks n)" and "deliveries_ok E M n"
  shows "pending_delivery_ok E (set (nd_events n)) (set (nd_expected n)) i pa"
  using assms unfolding deliveries_ok_def by auto

lemma deliveries_settledD:
  assumes "(p, All_acknowledged) \<in> set (nd_settled n)" and "deliveries_ok E M n"
  shows "\<exists>i ts f. (p, i, ts, Some f) \<in> set (nd_expected n) \<and> (\<forall>t \<in> set ts. \<forall>k < f. acked E (set (nd_events n)) i t k)"
  using assms unfolding deliveries_ok_def by blast

text \<open>An operation that keeps the pending deliveries and their outcomes keeps the invariant, whatever it does to the rest.\<close>

lemma deliveries_frame:
  assumes "deliveries_ok E M n" and "set (nd_acks n') \<subseteq> set (nd_acks n)" and "set (nd_settled n') \<subseteq> set (nd_settled n)"
    and "nd_expected n' = nd_expected n" and "nd_promises n' = nd_promises n" and "set (nd_events n) \<subseteq> set (nd_events n')"
  shows "deliveries_ok E M n'"
proof -
  have "pending_delivery_ok E (set (nd_events n')) (set (nd_expected n')) i pa" if "(i, pa) \<in> set (nd_acks n')" for i pa
  proof -
    have "(i, pa) \<in> set (nd_acks n)" using assms(2) that by (rule subsetD)
    then have "pending_delivery_ok E (set (nd_events n)) (set (nd_expected n)) i pa" using assms(1) by (rule deliveries_okD)
    then show ?thesis using assms(4,6) by (auto elim: pending_delivery_mono)
  qed
  moreover have "\<exists>i ts f. (p, i, ts, Some f) \<in> set (nd_expected n') \<and> (\<forall>t \<in> set ts. \<forall>k < f. acked E (set (nd_events n')) i t k)"
    if "(p, All_acknowledged) \<in> set (nd_settled n')" for p
  proof -
    have "(p, All_acknowledged) \<in> set (nd_settled n)" using assms(3) that by blast
    then obtain i ts f where x: "(p, i, ts, Some f) \<in> set (nd_expected n)" "\<forall>t \<in> set ts. \<forall>k < f. acked E (set (nd_events n)) i t k"
      using deliveries_settledD [OF _ assms(1)] by blast
    moreover have "\<forall>t \<in> set ts. \<forall>k < f. acked E (set (nd_events n')) i t k" using x(2) acked_mono [OF _ assms(6)] by simp
    ultimately show ?thesis using assms(4) by auto
  qed
  moreover have "M \<subseteq> set (nd_events n')" "map fst (nd_expected n') = [0..<nd_promises n']"
    using assms(1,4-6) unfolding deliveries_ok_def by auto
  ultimately show ?thesis by (intro deliveries_okI) blast+
qed

lemma deliveries_other [simp]:
  "deliveries_ok E M (n\<lparr>nd_peers := x1\<rparr>) = deliveries_ok E M n"
  "deliveries_ok E M (n\<lparr>nd_routes := x2\<rparr>) = deliveries_ok E M n"
  "deliveries_ok E M (n\<lparr>nd_seen := x3\<rparr>) = deliveries_ok E M n"
  "deliveries_ok E M (n\<lparr>nd_health := x4\<rparr>) = deliveries_ok E M n"
  "deliveries_ok E M (n\<lparr>nd_known := x5\<rparr>) = deliveries_ok E M n"
  "deliveries_ok E M (n\<lparr>nd_pruned := x6\<rparr>) = deliveries_ok E M n"
  "deliveries_ok E M (n\<lparr>nd_recentDials := x7\<rparr>) = deliveries_ok E M n"
  "deliveries_ok E M (n\<lparr>nd_dialled := x8\<rparr>) = deliveries_ok E M n"
  "deliveries_ok E M (n\<lparr>nd_nonce := x9\<rparr>) = deliveries_ok E M n"
  "deliveries_ok E M (n\<lparr>nd_sent := x11\<rparr>) = deliveries_ok E M n"
  "deliveries_ok E M (n\<lparr>nd_started := x12\<rparr>) = deliveries_ok E M n"
  "deliveries_ok E M (n\<lparr>nd_stopping := x13\<rparr>) = deliveries_ok E M n"
  "deliveries_ok E M (n\<lparr>nd_session := x14\<rparr>) = deliveries_ok E M n"
  by (simp_all add: deliveries_ok_def)

lemma settle_deliveries: "deliveries_ok E M n \<Longrightarrow> r \<noteq> All_acknowledged \<Longrightarrow> deliveries_ok E M (settle p r n)"
  by (auto simp: deliveries_ok_def settle_def)

lemma act_bind_rule: "P (snd x) \<Longrightarrow> (\<And>a n. fst x = Inr a \<Longrightarrow> P n \<Longrightarrow> P (snd (f a n))) \<Longrightarrow> P (snd (act_bind x f))"
  by (auto simp: act_bind_def split: prod.splits sum.splits)

lemma snd_if: "P (snd a) \<Longrightarrow> P (snd b) \<Longrightarrow> P (snd (if c then a else b))"
  by simp

lemma emit_sel [simp]:
  "nd_acks (emit ev n) = nd_acks n" "nd_settled (emit ev n) = nd_settled n" "nd_expected (emit ev n) = nd_expected n" "nd_events (emit ev n) = nd_events n @ [ev]"
  "nd_seen (emit ev n) = nd_seen n" "nd_sent (emit ev n) = nd_sent n" "nd_peers (emit ev n) = nd_peers n" "nd_routes (emit ev n) = nd_routes n"
  "nd_promises (emit ev n) = nd_promises n" "nd_started (emit ev n) = nd_started n" "nd_stopping (emit ev n) = nd_stopping n" "nd_known (emit ev n) = nd_known n"
  by (simp_all add: emit_def)

lemma send_all_sel [simp]:
  "nd_acks (send_all ps m n) = nd_acks n" "nd_settled (send_all ps m n) = nd_settled n" "nd_expected (send_all ps m n) = nd_expected n"
  "nd_events (send_all ps m n) = nd_events n" "nd_sent (send_all ps m n) = nd_sent n @ map (\<lambda>p. (p, m)) ps" "nd_seen (send_all ps m n) = nd_seen n" "nd_promises (send_all ps m n) = nd_promises n"
  by (induction ps arbitrary: n) (simp_all add: send_all_def send_to_def)

named_theorems keeps_deliveries

lemma emit_deliveries [keeps_deliveries]: "deliveries_ok E M n \<Longrightarrow> deliveries_ok E M (emit ev n)"
  by (erule deliveries_frame) auto

lemma fail_delivery_deliveries: "deliveries_ok E M n \<Longrightarrow> deliveries_ok E M (fail_delivery hash x n)"
  by (cases x) (auto simp: fail_delivery_def set_jm_delete intro!: settle_deliveries elim: deliveries_frame)

lemma fold_keeps: "(\<And>x n. P n \<Longrightarrow> P (f x n)) \<Longrightarrow> P n \<Longrightarrow> P (fold f xs n)"
  by (induction xs arbitrary: n) auto

lemma unreachable_deliveries: "deliveries_ok E M n \<Longrightarrow> deliveries_ok E M (onPeerUnreachable hash n)"
  by (auto simp: onPeerUnreachable_def intro!: fold_keeps [where P = "deliveries_ok E M"] fail_delivery_deliveries emit_deliveries)

lemma lose_peer_deliveries: "deliveries_ok E M n \<Longrightarrow> deliveries_ok E M (lose_peer hash n)"
  unfolding lose_peer_def Let_def by (rule deliveries_frame [OF unreachable_deliveries]) auto

lemma removePeerFromRoutes_deliveries [keeps_deliveries]: "deliveries_ok E M n \<Longrightarrow> deliveries_ok E M (removePeerFromRoutes hash b n)"
  by (auto simp: removePeerFromRoutes_def split: prod.split
      intro!: fold_keeps [where P = "deliveries_ok E M"] lose_peer_deliveries elim: deliveries_frame)

lemma addRouteConnection_deliveries [keeps_deliveries]: "deliveries_ok E M n \<Longrightarrow> deliveries_ok E M (addRouteConnection E' now from nb t d s r n)"
  by (auto simp: addRouteConnection_def Let_def split: prod.split elim: deliveries_frame)

lemma updateSession_deliveries [keeps_deliveries]: "deliveries_ok E M n \<Longrightarrow> deliveries_ok E M (stream_updateSession key s n)"
  by (auto simp: stream_updateSession_def Let_def split: prod.split elim: deliveries_frame)

lemma invalidateSession_deliveries [keeps_deliveries]: "deliveries_ok E M n \<Longrightarrow> deliveries_ok E M (invalidateSession key n)"
  by (erule deliveries_frame) (auto simp: invalidateSession_def)

lemma clearHealth_deliveries [keeps_deliveries]: "deliveries_ok E M n \<Longrightarrow> deliveries_ok E M (clearHealthcheckTimer key n)"
  by (erule deliveries_frame) (auto simp: clearHealthcheckTimer_def)

lemma removePeer_deliveries [keeps_deliveries]: "deliveries_ok E M n \<Longrightarrow> deliveries_ok E M (removePeer key n)"
  by (erule deliveries_frame) (auto simp: removePeer_def clearHealthcheckTimer_def)

lemma addPeer_deliveries [keeps_deliveries]: "deliveries_ok E M n \<Longrightarrow> deliveries_ok E M (addPeer E' now key n)"
  by (auto simp: addPeer_def Let_def intro!: keeps_deliveries)

lemma clear_ack_deliveries: "deliveries_ok E M n \<Longrightarrow> deliveries_ok E M (clear_ack i n)"
  by (erule deliveries_frame) (auto simp: clear_ack_def set_jm_delete)

lemma modifySeenCache_sel [simp]:
  "nd_acks (snd (modifySeenCache now key n)) = nd_acks n" "nd_settled (snd (modifySeenCache now key n)) = nd_settled n"
  "nd_expected (snd (modifySeenCache now key n)) = nd_expected n" "nd_events (snd (modifySeenCache now key n)) = nd_events n"
  "nd_sent (snd (modifySeenCache now key n)) = nd_sent n" "nd_promises (snd (modifySeenCache now key n)) = nd_promises n"
  by (auto simp: modifySeenCache_def Let_def split: sum.split prod.split)

lemma modifySeenCache_deliveries [keeps_deliveries]: "deliveries_ok E M n \<Longrightarrow> deliveries_ok E M (snd (modifySeenCache now key n))"
  by (erule deliveries_frame) auto

lemma createDeliveryPromise_deliveries:
  assumes "deliveries_ok E M n"
  shows "deliveries_ok E M (snd (createDeliveryPromise from m relayed now n))"
proof -
  let ?tos = "filter (\<lambda>t. t \<noteq> from) (case mode_to (mode_of m) of None \<Rightarrow> [] | Some t \<Rightarrow> t)"
  define ts where "ts = fold (\<lambda>t s. js_add s t) ?tos []"
  have d: "distinct ts" unfolding ts_def by (rule fold_keeps [where P = distinct]) simp_all
  define n1 where "n1 = (if relayed then n else n\<lparr>nd_health := fold (\<lambda>t h. if jm_has h t then h else jm_set h t True) ?tos (nd_health n)\<rparr>)"
  have n1: "deliveries_ok E M n1" using assms by (simp add: n1_def)
  define w where "w = (if relayed then None else Some (case mode_of m of SeekDelivery _ r \<Rightarrow> min (length (nd_peers n1)) r | _ \<Rightarrow> 1))"
  let ?i = "mh_id (header_of m)" and ?p = "nd_promises n1"
  let ?pa = "\<lparr>pa_promise = ?p, pa_seek = is_seek (mode_of m), pa_to = ts, pa_haveReceivers = length ts > 0, pa_relayed = relayed, pa_filter = w, pa_session = now,
    pa_reached = [], pa_unique = []\<rparr>"
  have add: "deliveries_ok E M (n3\<lparr>nd_acks := jm_set (nd_acks n3) ?i ?pa, nd_expected := nd_expected n3 @ [(?p, ?i, ts, w)]\<rparr>)"
    if n3: "nd_acks n3 = nd_acks n1" "nd_expected n3 = nd_expected n1" "nd_events n3 = nd_events n1" "nd_promises n3 = Suc ?p"
      "\<forall>q. (q, All_acknowledged) \<in> set (nd_settled n3) \<longrightarrow> (q, All_acknowledged) \<in> set (nd_settled n1)" for n3
  proof -
    let ?n = "n3\<lparr>nd_acks := jm_set (nd_acks n3) ?i ?pa, nd_expected := nd_expected n3 @ [(?p, ?i, ts, w)]\<rparr>"
    have "pending_delivery_ok E (set (nd_events ?n)) (set (nd_expected ?n)) j pa" if j: "(j, pa) \<in> set (nd_acks ?n)" for j pa
    proof (cases "(j, pa) = (?i, ?pa)")
      case True
      then show ?thesis using d by (auto simp: pending_delivery_ok_def)
    next
      case False
      then have "(j, pa) \<in> set (nd_acks n1)" using j set_jm_set_subset [of "nd_acks n1" ?i ?pa] n3(1) by auto
      then have "pending_delivery_ok E (set (nd_events n1)) (set (nd_expected n1)) j pa" using n1 by (rule deliveries_okD)
      then show ?thesis using n3 by (auto elim: pending_delivery_mono)
    qed
    moreover have "\<exists>i ts f. (q, i, ts, Some f) \<in> set (nd_expected ?n) \<and> (\<forall>t \<in> set ts. \<forall>k < f. acked E (set (nd_events ?n)) i t k)"
      if "(q, All_acknowledged) \<in> set (nd_settled ?n)" for q
    proof -
      have "(q, All_acknowledged) \<in> set (nd_settled n1)" using n3(5) that by simp
      then show ?thesis using deliveries_settledD [OF _ n1, of q] n3(2,3) by auto
    qed
    moreover have "M \<subseteq> set (nd_events ?n)" "map fst (nd_expected ?n) = [0..<nd_promises ?n]" using n1 n3 by (simp_all add: deliveries_ok_def)
    ultimately show ?thesis by (intro deliveries_okI) blast+
  qed
  show ?thesis
  proof (cases "mode_of m = AnyWhere \<or> jm_get (nd_acks n) ?i \<noteq> None")
    case True
    then show ?thesis using assms by (auto simp: createDeliveryPromise_def Let_def)
  next
    case False
    then have none: "jm_get (nd_acks n) ?i = None" "mode_of m \<noteq> AnyWhere" by simp_all
    let ?n3 = "if \<not> length ts > 0 then settle ?p Nobody_expected (n1\<lparr>nd_promises := Suc ?p\<rparr>) else n1\<lparr>nd_promises := Suc ?p\<rparr>"
    have "createDeliveryPromise from m relayed now n = (if length ts > 0 \<and> length (nd_peers n1) = 0 then (Undeliverable, n1)
        else (Promised ?p, ?n3\<lparr>nd_acks := jm_set (nd_acks ?n3) ?i ?pa, nd_expected := nd_expected ?n3 @ [(?p, ?i, ts, w)]\<rparr>))"
      unfolding createDeliveryPromise_def Let_def by (simp only: none option.case if_False ts_def [symmetric] n1_def [symmetric] w_def [symmetric])
    moreover have "deliveries_ok E M (?n3\<lparr>nd_acks := jm_set (nd_acks ?n3) ?i ?pa, nd_expected := nd_expected ?n3 @ [(?p, ?i, ts, w)]\<rparr>)"
      by (rule add) (simp_all add: settle_def)
    ultimately show ?thesis using n1 by simp
  qed
qed

lemma publish_directly_deliveries [keeps_deliveries]: "deliveries_ok E M n \<Longrightarrow> deliveries_ok E M (snd (publish_directly from m to relayed d n))"
  by (auto simp: publish_directly_def Let_def elim: deliveries_frame)

text \<open>What publishing keeps: what its parts keep.\<close>

lemma publishMessage_rule:
  assumes "P n" and delivery: "\<And>k. P k \<Longrightarrow> P (snd (createDeliveryPromise from m relayed now k))" and seen: "\<And>k key. P k \<Longrightarrow> P (snd (modifySeenCache now key k))"
    and routes: "\<And>k ps t. routed m t \<Longrightarrow> P k \<Longrightarrow> P (send_all ps m k)" and direct: "\<And>k t d. P k \<Longrightarrow> P (snd (publish_directly from m t relayed d k))"
  shows "P (snd (publishMessage E now from m to relayed n))"
proof -
  have body: "P (snd (if routed m t then
        (case fanout_of from m k of
           Some F \<Rightarrow> if length F > 0 then (Inr d, send_all (filter (\<lambda>p. p \<in> set (nd_peers k)) (jm_keys F)) m k) else (Inr Delivered, k)
         | None \<Rightarrow> if relayed then (Inr Delivered, k) else publish_directly from m t relayed d k)
      else publish_directly from m t relayed d k))" if "P k" for k d t
    using that direct [of k t d] by (auto simp: routes split: option.split)
  obtain d n1 where d: "(if (is_data m \<or> is_goodbye m) \<and> (is_seek (mode_of m) \<or> is_acknowledge (mode_of m))
      then createDeliveryPromise from m relayed now n else (Delivered, n)) = (d, n1)" by (rule prod.exhaust)
  have n1: "P n1" using d delivery [OF assms(1)] assms(1) by (auto split: if_splits)
  have whole: "P (snd (act_bind (if relayed then (Inr 0, n1) else modifySeenCache now key n1) (\<lambda>_ k. if routed m t then
        (case fanout_of from m k of
           Some F \<Rightarrow> if length F > 0 then (Inr d, send_all (filter (\<lambda>p. p \<in> set (nd_peers k)) (jm_keys F)) m k) else (Inr Delivered, k)
         | None \<Rightarrow> if relayed then (Inr Delivered, k) else publish_directly from m t relayed d k)
      else publish_directly from m t relayed d k)))" for key t
    by (rule act_bind_rule [where P = P], rule snd_if [where P = P]) (simp_all only: snd_conv n1 seen body)
  show ?thesis unfolding publishMessage_def Let_def d prod.case
    by (intro snd_if [where P = P] whole) (simp_all add: assms(1))
qed

lemma publishMessage_deliveries [keeps_deliveries]:
  assumes "deliveries_ok E M n"
  shows "deliveries_ok E M (snd (publishMessage E' now from m to relayed n))"
  by (rule publishMessage_rule [where P = "deliveries_ok E M"])
    (auto simp: assms createDeliveryPromise_deliveries modifySeenCache_deliveries publish_directly_deliveries elim: deliveries_frame)

lemma relayMessage_deliveries [keeps_deliveries]: "deliveries_ok E M n \<Longrightarrow> deliveries_ok E M (snd (relayMessage E' now from m to n))"
  by (simp add: relayMessage_def Let_def publishMessage_deliveries)

lemma new_header_deliveries [keeps_deliveries]: "deliveries_ok E M n \<Longrightarrow> deliveries_ok E M (snd (new_header E' now mode priority origin n))"
  by (simp add: new_header_def)

lemma createMessage_deliveries [keeps_deliveries]: "deliveries_ok E M n \<Longrightarrow> deliveries_ok E M (snd (createMessage E' now data mode to given priority n))"
  by (simp add: createMessage_def new_header_def Let_def)

lemma stream_publish_deliveries [keeps_deliveries]:
  assumes "deliveries_ok E M n"
  shows "deliveries_ok E M (snd (stream_publish E' now data mode to given priority n))"
proof -
  obtain m n1 where m: "createMessage E' now data mode (case to of None \<Rightarrow> [] | Some t \<Rightarrow> t) given priority n = (m, n1)" by (rule prod.exhaust)
  then have "deliveries_ok E M n1" using createMessage_deliveries [OF assms] by (metis snd_conv)
  then show ?thesis using assms unfolding stream_publish_def m Let_def prod.case
    by (auto intro!: act_bind_rule [where P = "deliveries_ok E M"] publishMessage_deliveries)
qed

lemma verifyAndProcess_deliveries [keeps_deliveries]: "deliveries_ok E M n \<Longrightarrow> deliveries_ok E M (snd (verifyAndProcess E' now m n))"
  by (simp add: verifyAndProcess_def updateSession_deliveries)

lemma recently_pruned_deliveries [keeps_deliveries]: "deliveries_ok E M n \<Longrightarrow> deliveries_ok E M (snd (recently_pruned now ks n))"
  by (induction now ks n rule: recently_pruned.induct) (auto simp: Let_def split: option.split sum.split)

lemma maybeAcknowledge_deliveries [keeps_deliveries]:
  assumes "deliveries_ok E M n"
  shows "deliveries_ok E M (snd (maybeAcknowledgeMessage E' now from m k n))"
proof -
  have "deliveries_ok E M (snd (if is_seek (mode_of m) then recently_pruned now (signers m) n else (Inr True, n)))"
    using assms by (simp add: recently_pruned_deliveries)
  then show ?thesis using assms unfolding maybeAcknowledgeMessage_def
    by (auto intro!: act_bind_rule [where P = "deliveries_ok E M"] publishMessage_deliveries simp: new_header_def Let_def simp del: if_split)
qed

lemma forward_deliveries [keeps_deliveries]: "deliveries_ok E M n \<Longrightarrow> deliveries_ok E M (snd (forward E' now from m k n))"
  by (simp add: forward_def Let_def unawaited_def relayMessage_deliveries)

lemma onDataMessage_deliveries [keeps_deliveries]:
  assumes "deliveries_ok E M n"
  shows "deliveries_ok E M (snd (onDataMessage E' now from m k n))"
proof -
  obtain v n1 where v: "verifyAndProcess E' now m n = (v, n1)" by (rule prod.exhaust)
  then have n1: "deliveries_ok E M n1" using verifyAndProcess_deliveries [OF assms] by (metis snd_conv)
  have f: "deliveries_ok E M (snd (let (r, n3) = forward E' now from m k j in (Inr r, n3)))" if "deliveries_ok E M j" for j
    using forward_deliveries [OF that] by (simp add: case_prod_beta Let_def)
  show ?thesis using assms n1 unfolding onDataMessage_def v Let_def prod.case
    by (auto intro!: act_bind_rule [where P = "deliveries_ok E M"] maybeAcknowledge_deliveries f [unfolded Let_def] emit_deliveries)
qed

lemma receive_data_deliveries [keeps_deliveries]: "deliveries_ok E M n \<Longrightarrow> deliveries_ok E M (snd (receive_data E' now from m n))"
  unfolding receive_data_def by (auto intro!: act_bind_rule [where P = "deliveries_ok E M"] onDataMessage_deliveries modifySeenCache_deliveries)

text \<open>As many different acknowledgements as receivers and counts means all of them.\<close>

lemma all_acked:
  assumes "pending_delivery_ok E M X i pa" and "pa_filter pa = Some f" and "length (pa_to pa) * f \<le> length (pa_unique pa)"
  shows "\<forall>t \<in> set (pa_to pa). \<forall>k < f. acked E M i t k"
proof -
  let ?T = "set (pa_to pa) \<times> {..<f}" and ?S = "{(t, k) \<in> set (pa_to pa) \<times> {..<f}. acked E M i t k}"
  have d: "distinct (pa_to pa)" "distinct (pa_unique pa)"
      "set (pa_unique pa) \<subseteq> {t @ nat_str k |t k. t \<in> set (pa_to pa) \<and> (\<forall>f. pa_filter pa = Some f \<longrightarrow> k < f) \<and> acked E M i t k}"
    using assms(1) by (simp_all add: pending_delivery_ok_def)
  have fin: "finite ?S" by (rule finite_subset [of _ ?T]) auto
  have sub: "set (pa_unique pa) \<subseteq> (\<lambda>(t, k). t @ nat_str k) ` ?S" using d(3) assms(2) by force
  have "card (set (pa_unique pa)) \<le> card ((\<lambda>(t, k). t @ nat_str k) ` ?S)" using sub fin by (intro card_mono) auto
  also have "\<dots> \<le> card ?S" using fin by (rule card_image_le)
  finally have "length (pa_to pa) * f \<le> card ?S" using assms(3) distinct_card [OF d(2)] by simp
  moreover have "card ?T = length (pa_to pa) * f" using distinct_card [OF d(1)] by (simp add: card_cartesian_product)
  ultimately have le: "card ?T \<le> card ?S" by (simp only:)
  have "?S = ?T" by (rule card_seteq [OF _ _ le]) auto
  then show ?thesis by blast
qed

lemma note_ack_ok:
  assumes "pending_delivery_ok E M X i pa" and "acked E M i target seen"
  shows "pending_delivery_ok E M X i (note_ack target seen pa)"
  using assms by (auto simp: pending_delivery_ok_def note_ack_def counts_def set_js_add distinct_js_add split: option.splits)

lemma note_ack_sel [simp]: "pa_promise (note_ack t k pa) = pa_promise pa" "pa_to (note_ack t k pa) = pa_to pa" "pa_filter (note_ack t k pa) = pa_filter pa"
  "pa_haveReceivers (note_ack t k pa) = pa_haveReceivers pa" "pa_relayed (note_ack t k pa) = pa_relayed pa"
  by (simp_all add: note_ack_def)

lemma checkDone_deliveries:
  assumes "deliveries_ok E M n" and "(i, pa) \<in> set (nd_acks n)"
  shows "deliveries_ok E M (checkDone i pa n)"
proof (cases "pa_filter pa")
  case (Some f)
  have pa: "pending_delivery_ok E (set (nd_events n)) (set (nd_expected n)) i pa" using assms(2,1) by (rule deliveries_okD)
  show ?thesis
  proof (cases "length (pa_to pa) * f \<le> length (pa_unique pa)")
    case True
    let ?n1 = "if pa_haveReceivers pa then clear_ack i n else n"
    have n1: "deliveries_ok E M ?n1" using assms(1) by (simp add: clear_ack_deliveries)
    have e: "nd_events ?n1 = nd_events n" "nd_expected ?n1 = nd_expected n" by (simp_all add: clear_ack_def)
    have "(pa_promise pa, i, pa_to pa, Some f) \<in> set (nd_expected n) \<and> (\<forall>t \<in> set (pa_to pa). \<forall>k < f. acked E (set (nd_events n)) i t k)"
      using pa all_acked [OF pa Some True] Some by (simp add: pending_delivery_ok_def)
    then have "deliveries_ok E M (settle (pa_promise pa) All_acknowledged ?n1)"
      using n1 e by (intro deliveries_okI) (auto simp: settle_def deliveries_ok_def split: if_splits)
    then show ?thesis using Some True by (simp add: checkDone_def)
  next
    case False
    then show ?thesis using Some assms(1) by (simp add: checkDone_def)
  qed
qed (simp add: checkDone_def assms(1))

lemma set_ack_deliveries:
  assumes "deliveries_ok E M n" and "pending_delivery_ok E (set (nd_events n)) (set (nd_expected n)) i pa"
  shows "deliveries_ok E M (n\<lparr>nd_acks := jm_set (nd_acks n) i pa\<rparr>)"
proof (rule deliveries_okI)
  fix j p
  assume "(j, p) \<in> set (nd_acks (n\<lparr>nd_acks := jm_set (nd_acks n) i pa\<rparr>))"
  then have "(j, p) = (i, pa) \<or> (j, p) \<in> set (nd_acks n)" using set_jm_set_subset [of "nd_acks n" i pa] by auto
  then show "pending_delivery_ok E (set (nd_events (n\<lparr>nd_acks := jm_set (nd_acks n) i pa\<rparr>))) (set (nd_expected (n\<lparr>nd_acks := jm_set (nd_acks n) i pa\<rparr>))) j p"
    using assms deliveries_okD [of j p n E M] by auto
next
  fix p
  assume "(p, All_acknowledged) \<in> set (nd_settled (n\<lparr>nd_acks := jm_set (nd_acks n) i pa\<rparr>))"
  then show "\<exists>i' ts f. (p, i', ts, Some f) \<in> set (nd_expected (n\<lparr>nd_acks := jm_set (nd_acks n) i pa\<rparr>)) \<and>
      (\<forall>t \<in> set ts. \<forall>k < f. acked E (set (nd_events (n\<lparr>nd_acks := jm_set (nd_acks n) i pa\<rparr>))) i' t k)"
    using deliveries_settledD [OF _ assms(1), of p] by simp
qed (use assms(1) in \<open>simp_all add: deliveries_ok_def\<close>)

lemma route_events:
  "set (nd_events n) \<subseteq> set (nd_events (addRouteConnection E now nfrom nb t d s r n))"
  "nd_expected (addRouteConnection E now nfrom nb t d s r n) = nd_expected n"
  "nd_events (clearHealthcheckTimer key n) = nd_events n" "nd_expected (clearHealthcheckTimer key n) = nd_expected n"
  by (auto simp: addRouteConnection_def clearHealthcheckTimer_def Let_def split: prod.split)

lemma ack_callback_deliveries:
  assumes "deliveries_ok E M n" and "acked E M i target seen"
  shows "deliveries_ok E M (ack_callback E' now i seen target session through prior n)"
proof (cases "jm_get (nd_acks n) i")
  case (Some pa)
  define n1 where "n1 = clearHealthcheckTimer target n"
  define n2 where "n2 = (if pa_seek pa then addRouteConnection E' now (case prior of None \<Rightarrow> se_me E' | Some b \<Rightarrow> b) through target (int seen) (pa_session pa) session n1 else n1)"
  let ?n3 = "n2\<lparr>nd_acks := jm_set (nd_acks n2) i (note_ack target seen pa)\<rparr>"
  have n2: "deliveries_ok E M n2" using assms(1) by (simp add: n2_def n1_def addRouteConnection_deliveries clearHealth_deliveries)
  have e: "set (nd_events n) \<subseteq> set (nd_events n2)" "nd_expected n2 = nd_expected n"
    using route_events(1) [of n1] by (simp_all add: n2_def n1_def route_events(2-4))
  have "(i, pa) \<in> set (nd_acks n)" using Some by (rule map_of_SomeD)
  then have "pending_delivery_ok E (set (nd_events n)) (set (nd_expected n)) i pa" using assms(1) by (rule deliveries_okD)
  then have "pending_delivery_ok E (set (nd_events n2)) (set (nd_expected n2)) i pa" by (rule pending_delivery_mono) (simp_all add: e)
  moreover have "acked E (set (nd_events n2)) i target seen" using assms(2) n2 by (auto simp: deliveries_ok_def elim: acked_mono)
  ultimately have "deliveries_ok E M ?n3" using n2 by (intro set_ack_deliveries note_ack_ok)
  moreover have "(i, note_ack target seen pa) \<in> set (nd_acks ?n3)" by (simp add: map_of_SomeD)
  ultimately show ?thesis unfolding ack_callback_def Some Let_def option.case n1_def [symmetric] n2_def [symmetric] by (rule checkDone_deliveries)
qed (simp add: ack_callback_def assms(1))

lemma maybeConnect_deliveries [keeps_deliveries]:
  assumes "deliveries_ok E M n"
  shows "deliveries_ok E M (snd (maybeConnectDirectly now to origin n))"
  using assms unfolding maybeConnectDirectly_def
  by (auto intro!: act_bind_rule [where P = "deliveries_ok E M"] recently_pruned_deliveries simp: Let_def split: option.split sum.split)

lemma relay_ack_deliveries: "deliveries_ok E M n \<Longrightarrow> deliveries_ok E M (snd (relay_ack E' now m trace prior n))"
  unfolding relay_ack_def unawaited_def
  by (auto intro!: act_bind_rule [where P = "deliveries_ok E M"] publishMessage_deliveries maybeConnect_deliveries split: option.split)

lemma onAck_deliveries:
  assumes "deliveries_ok E M n" and "Message_event m \<in> M"
  shows "deliveries_ok E M (snd (onAck E now from m n))"
proof (cases m)
  case (ACK h i seen)
  have body: "deliveries_ok E M (snd (let (verified, n2) = verifyAndProcess E now m n1
              in if \<not> verified then (Inr (Some False), n2)
                 else case mh_mode h of
                   TracedDelivery trace \<Rightarrow>
                     let prior = (case previous (se_me E) trace of None \<Rightarrow> None | Some p \<Rightarrow> if p \<in> set (nd_peers n2) then Some p else None)
                     in relay_ack E now m trace prior (ack_callback E now i seen (hd (signers m)) (mh_session h) from prior n2)
                 | _ \<Rightarrow> (Inl Type_error_in_message, n2)))" if n1: "deliveries_ok E M n1" for n1
  proof -
    obtain v n2 where v: "verifyAndProcess E now m n1 = (v, n2)" by (rule prod.exhaust)
    then have n2: "deliveries_ok E M n2" using verifyAndProcess_deliveries [OF n1, of E now m] by simp
    have "acked E M i (hd (signers m)) seen" if v
    proof -
      have "signers m \<noteq> [] \<and> se_verifies E m" using v that by (auto simp: verifyAndProcess_def split: if_splits)
      then show ?thesis using assms(2) ACK by (auto simp: acked_def signers_def)
    qed
    then have "deliveries_ok E M (snd (relay_ack E now m trace prior (ack_callback E now i seen (hd (signers m)) (mh_session h) from prior n2)))" if v for trace prior
      using that n2 by (intro relay_ack_deliveries ack_callback_deliveries)
    then show ?thesis using n2 unfolding v Let_def prod.case by (cases "mh_mode h") simp_all
  qed
  show ?thesis unfolding onAck_def ACK message.case
    by (rule act_bind_rule [where P = "deliveries_ok E M"], rule modifySeenCache_deliveries [OF assms(1)], rule snd_if [where P = "deliveries_ok E M"])
      (simp, rule body [unfolded ACK])
qed (simp_all add: onAck_def assms(1))

lemma ack_timeout_deliveries: "deliveries_ok E M n \<Longrightarrow> deliveries_ok E M (ack_timeout i n)"
  by (auto simp: ack_timeout_def Let_def intro!: settle_deliveries clear_ack_deliveries split: option.split)

lemma health_timeout_deliveries: "deliveries_ok E M n \<Longrightarrow> deliveries_ok E M (health_timeout hash n)"
  by (auto simp: health_timeout_def intro!: removePeerFromRoutes_deliveries)

lemma checkIsAlive_deliveries [keeps_deliveries]: "deliveries_ok E M n \<Longrightarrow> deliveries_ok E M (checkIsAlive E' now remotes n)"
  by (simp add: checkIsAlive_def unawaited_def stream_publish_deliveries)

lemma maybeDelete_deliveries [keeps_deliveries]: "deliveries_ok E M n \<Longrightarrow> deliveries_ok E M (maybeDeleteRemoteRoutes E' now remotes n)"
  unfolding maybeDeleteRemoteRoutes_def by (intro checkIsAlive_deliveries fold_keeps [where P = "deliveries_ok E M"] invalidateSession_deliveries)

lemma forward_goodbye_deliveries: "deliveries_ok E M n \<Longrightarrow> deliveries_ok E M (snd (forward_goodbye E' now from targets m n))"
proof (induction targets arbitrary: m n)
  case (Cons t ts)
  then show ?case
    by (auto simp: Let_def split: option.split intro!: act_bind_rule [where P = "deliveries_ok E M"] publishMessage_deliveries)
qed simp

lemma onGoodBye_deliveries:
  assumes "deliveries_ok E M n"
  shows "deliveries_ok E M (snd (onGoodBye E' now from m n))"
proof (cases m)
  case (Goodbye h leaving)
  have "deliveries_ok E M (snd (let (verified, n2) = verifyAndProcess E' now m n1
              in if \<not> verified then (Inr (Some False), n2)
                 else act_bind (maybeAcknowledgeMessage E' now from m seenBefore n2) (\<lambda>_ n3.
                   let filteredLeaving = filter (hasTarget (nd_routes n3)) leaving
                   in act_bind (forward_goodbye E' now from leaving m n3) (\<lambda>_ n4. (Inr None, maybeDeleteRemoteRoutes E' now filteredLeaving n4)))))"
    if n1: "deliveries_ok E M n1" for seenBefore n1
  proof -
    obtain v n2 where v: "verifyAndProcess E' now m n1 = (v, n2)" by (rule prod.exhaust)
    then have "deliveries_ok E M n2" using verifyAndProcess_deliveries [OF n1, of E' now m] by simp
    then show ?thesis unfolding v Let_def prod.case
      by (auto intro!: act_bind_rule [where P = "deliveries_ok E M"] maybeAcknowledge_deliveries forward_goodbye_deliveries maybeDelete_deliveries)
  qed
  note body = this
  show ?thesis unfolding onGoodBye_def Goodbye message.case
    by (rule act_bind_rule [where P = "deliveries_ok E M"], rule modifySeenCache_deliveries [OF assms], rule snd_if [where P = "deliveries_ok E M"])
      (simp, rule body [unfolded Goodbye])
qed (simp_all add: onGoodBye_def assms)

lemma onPeerDisconnected_deliveries [keeps_deliveries]:
  assumes "deliveries_ok E M n"
  shows "deliveries_ok E M (snd (onPeerDisconnected E' now hash b n))"
proof -
  have "deliveries_ok E M (removePeerFromRoutes hash True (removePeer hash n))"
    using assms by (intro removePeerFromRoutes_deliveries removePeer_deliveries)
  then show ?thesis using assms unfolding onPeerDisconnected_def Let_def
    by (auto intro!: snd_if [where P = "deliveries_ok E M"] act_bind_rule [where P = "deliveries_ok E M"] checkIsAlive_deliveries publishMessage_deliveries
        simp: new_header_def simp del: if_split)
qed

lemma pruneConnections_deliveries: "deliveries_ok E M n \<Longrightarrow> deliveries_ok E M (snd (pruneConnections E' now w k n))"
  by (auto simp: pruneConnections_def Let_def onPeerDisconnected_deliveries split: list.split option.split sum.split)

lemma deliveries_weaken: "deliveries_ok E M n \<Longrightarrow> N \<subseteq> M \<Longrightarrow> deliveries_ok E N n"
  by (auto simp: deliveries_ok_def)

lemma processMessage_deliveries:
  assumes "deliveries_ok E {} n"
  shows "deliveries_ok E {} (snd (processMessage E now from m n))"
proof (cases "nd_started n")
  case True
  let ?n = "emit (Message_event m) n"
  have "deliveries_ok E {} ?n" using assms by (rule emit_deliveries)
  then have n: "deliveries_ok E {} ?n" "deliveries_ok E {Message_event m} ?n" by (auto simp: deliveries_ok_def)
  have "deliveries_ok E {} (snd (onAck E now from m ?n))" using onAck_deliveries [OF n(2)] by (rule deliveries_weaken) auto
  then show ?thesis using n(1) True assms
    by (cases m) (simp_all add: processMessage_def unawaited_def receive_data_deliveries onGoodBye_deliveries)
qed (simp add: processMessage_def assms)

lemma stop_fold: "deliveries_ok E M n \<Longrightarrow> deliveries_ok E M (fold (\<lambda>(i, pa) n. settle (pa_promise pa) Stopped (clear_ack i n)) acks n)"
  by (rule fold_keeps [where P = "deliveries_ok E M"]) (auto intro!: settle_deliveries clear_ack_deliveries)

lemma stream_stop_deliveries:
  assumes "deliveries_ok E M n"
  shows "deliveries_ok E M (stream_stop n)"
proof -
  have "deliveries_ok E M (k\<lparr>nd_acks := []\<rparr>)" if "deliveries_ok E M k" for k using that by (rule deliveries_frame) auto
  then show ?thesis using assms unfolding stream_stop_def Let_def by (simp add: stop_fold)
qed

lemma connection_deliveries:
  assumes "deliveries_ok E M n"
  shows "deliveries_ok E M (snd (onIncomingStream E' now hash n))" and "deliveries_ok E M (createOutboundStream E' now hash n)"
  using assms unfolding onIncomingStream_def createOutboundStream_def
  by (auto intro!: act_bind_rule [where P = "deliveries_ok E M"] recently_pruned_deliveries addPeer_deliveries simp del: recently_pruned.simps)

lemma stream_step_deliveries: "stream_step E n n' \<Longrightarrow> deliveries_ok E {} n \<Longrightarrow> deliveries_ok E {} n'"
proof (induction rule: stream_step.induct)
  case (start n now retention)
  then show ?case by (simp add: stream_start_def)
qed (simp_all add: unawaited_def stream_stop_deliveries connection_deliveries removePeer_deliveries onPeerDisconnected_deliveries processMessage_deliveries stream_publish_deliveries
    pruneConnections_deliveries ack_timeout_deliveries health_timeout_deliveries)

lemma stream_run_deliveries: "(stream_step E)\<^sup>*\<^sup>* (new_node me seen dials pruned) n \<Longrightarrow> deliveries_ok E {} n"
proof (induction rule: rtranclp_induct)
  case base
  then show ?case by (simp add: new_node_def deliveries_ok_def)
next
  case (step n n')
  then show ?case using stream_step_deliveries by blast
qed

section \<open>Lemmas: what a node sends\<close>

text \<open>Between two states only messages that satisfy \<open>Q\<close> were sent.\<close>

definition only_sends :: "(string \<times> 'd message \<Rightarrow> bool) \<Rightarrow> 'd node \<Rightarrow> 'd node \<Rightarrow> bool" where
  "only_sends Q n n' \<longleftrightarrow> (\<exists>l. nd_sent n' = nd_sent n @ l \<and> (\<forall>x \<in> set l. Q x))"

named_theorems sends_nothing

lemma only_sends_refl: "nd_sent n' = nd_sent n \<Longrightarrow> only_sends Q n n'"
  by (auto simp: only_sends_def)

lemma only_sends_trans: "only_sends Q n n1 \<Longrightarrow> only_sends Q n1 n2 \<Longrightarrow> only_sends Q n n2"
  unfolding only_sends_def by (metis append.assoc set_append Un_iff)

lemma only_sends_mono: "only_sends P n n' \<Longrightarrow> (\<And>x. P x \<Longrightarrow> Q x) \<Longrightarrow> only_sends Q n n'"
  unfolding only_sends_def by blast

lemma only_sends_frame: "nd_sent n = nd_sent m \<Longrightarrow> only_sends Q n k \<longleftrightarrow> only_sends Q m k"
  by (simp add: only_sends_def)

lemma only_sends_new: "only_sends Q n n' \<Longrightarrow> x \<in> set (drop (length (nd_sent n)) (nd_sent n')) \<Longrightarrow> Q x"
  by (auto simp: only_sends_def)

lemma act_bind_sends: "only_sends Q n (snd x) \<Longrightarrow> (\<And>a k. fst x = Inr a \<Longrightarrow> only_sends Q n k \<Longrightarrow> only_sends Q n (snd (f a k))) \<Longrightarrow> only_sends Q n (snd (act_bind x f))"
  by (rule act_bind_rule [where P = "only_sends Q n"])

lemma settle_sent [sends_nothing]: "nd_sent (settle p r n) = nd_sent n"
  by (simp add: settle_def)

lemma emit_sent [sends_nothing]: "nd_sent (emit e n) = nd_sent n"
  by (simp add: emit_def)

lemma modifySeenCache_sent [sends_nothing]: "nd_sent (snd (modifySeenCache now key n)) = nd_sent n"
  by (auto simp: modifySeenCache_def Let_def split: sum.split prod.split)

lemma createDelivery_sent [sends_nothing]: "nd_sent (snd (createDeliveryPromise from m relayed now n)) = nd_sent n"
  by (simp add: createDeliveryPromise_def Let_def settle_sent split: option.split)

lemma updateSession_sent [sends_nothing]: "nd_sent (stream_updateSession key s n) = nd_sent n"
  by (simp add: stream_updateSession_def Let_def emit_sent split: prod.split)

lemma verify_sent [sends_nothing]: "nd_sent (snd (verifyAndProcess E now m n)) = nd_sent n"
  by (simp add: verifyAndProcess_def updateSession_sent)

lemma recently_pruned_sent [sends_nothing]: "nd_sent (snd (recently_pruned now ks n)) = nd_sent n"
  by (induction now ks n rule: recently_pruned.induct) (auto simp: Let_def split: option.split sum.split)

lemma new_header_sent [sends_nothing]: "nd_sent (snd (new_header E now mode priority origin n)) = nd_sent n"
  by (simp add: new_header_def)

lemma send_all_sends: "(\<And>p. p \<in> set ps \<Longrightarrow> Q (p, m)) \<Longrightarrow> only_sends Q n k \<Longrightarrow> only_sends Q n (send_all ps m k)"
  by (rule only_sends_trans) (auto simp: only_sends_def)

lemma publish_directly_sends:
  "(\<And>p. p \<noteq> from \<Longrightarrow> p \<notin> set (signers m) \<Longrightarrow> Q (p, m)) \<Longrightarrow> only_sends Q n k \<Longrightarrow> only_sends Q n (snd (publish_directly from m to relayed d k))"
  by (auto simp: publish_directly_def Let_def receivers_def intro!: send_all_sends)

text \<open>A message is sent as it is; unless it is routed, not back to where it comes from nor to a signer.\<close>

lemma publishMessage_sends:
  assumes "\<And>p. p \<noteq> from \<Longrightarrow> p \<notin> set (signers m) \<Longrightarrow> Q (p, m)"
    and "\<And>p. is_data m \<Longrightarrow> is_acknowledge (mode_of m) \<or> is_silent (mode_of m) \<Longrightarrow> Q (p, m)"
  shows "only_sends Q n (snd (publishMessage E now from m to relayed n))"
proof -
  have quiet: "only_sends Q n k \<Longrightarrow> nd_sent k' = nd_sent k \<Longrightarrow> only_sends Q n k'" for k k' by (auto simp: only_sends_def)
  show ?thesis
  proof (rule publishMessage_rule [where P = "only_sends Q n"])
    fix k t d
    assume k: "only_sends Q n k"
    show "only_sends Q n (snd (createDeliveryPromise from m relayed now k))" using k createDelivery_sent by (rule quiet)
    show "only_sends Q n (snd (modifySeenCache now key k))" for key using k modifySeenCache_sent by (rule quiet)
    show "only_sends Q n (send_all ps m k)" if "routed m t" for ps using that by (intro send_all_sends k assms(2)) (auto simp: routed_def)
    show "only_sends Q n (snd (publish_directly from m t relayed d k))" by (rule publish_directly_sends [OF _ k]) (rule assms(1))
  qed (simp add: only_sends_refl)
qed

lemma with_header_sel [simp]: "header_of (with_header h m) = h" "is_data (with_header h m) = is_data m"
  by (cases m; simp)+

lemma map_header_sel [simp]: "header_of (map_header f m) = f (header_of m)" "is_data (map_header f m) = is_data m"
  by (simp_all add: map_header_def)

lemma with_mode_sel [simp]: "mode_of (with_mode md m) = md" "signers (with_mode md m) = signers m" "is_data (with_mode md m) = is_data m"
  by (simp_all add: with_mode_def mode_of_def signers_def)

lemma sign_message_sel [simp]: "mode_of (sign_message k m) = mode_of m" "signers (sign_message k m) = signers m @ [k]" "is_data (sign_message k m) = is_data m"
  by (simp_all add: sign_message_def mode_of_def signers_def)

lemma seek_modes: "is_seek md \<Longrightarrow> \<not> is_acknowledge md" "is_seek md \<Longrightarrow> \<not> is_silent md" "is_seek (set_to t md) = is_seek md"
  by (cases md; simp)+

text \<open>A seek is relayed with the signature of the relaying node.\<close>

lemma relaySeek_sends:
  assumes "is_data m" and "is_seek (mode_of m)"
    and "\<And>p m'. p \<noteq> from \<Longrightarrow> p \<notin> set (signers m') \<Longrightarrow> signers m' = signers m @ [se_me E] \<Longrightarrow> Q (p, m')"
  shows "only_sends Q n (snd (relayMessage E now from m to n))"
proof -
  have p: "only_sends Q n (snd (publishMessage E now from m' to True n))" if "signers m' = signers m @ [se_me E]" "is_seek (mode_of m')" for m'
    by (rule publishMessage_sends) (use assms(3) that seek_modes(1, 2) in blast)+
  show ?thesis unfolding relayMessage_def Let_def
    by (simp add: assms(1, 2) seek_modes p only_sends_refl [where n = n and n' = n])
qed

lemma maybeAcknowledge_sends:
  assumes "\<And>p m'. \<not> is_data m' \<Longrightarrow> Q (p, m')"
  shows "only_sends Q n (snd (maybeAcknowledgeMessage E now stream m seenBefore n))"
proof -
  have quiet: "only_sends Q n k \<Longrightarrow> nd_sent k' = nd_sent k \<Longrightarrow> only_sends Q n k'" for k k' by (auto simp: only_sends_def)
  have publish: "only_sends Q n (snd (publishMessage E now from' (sign_message key (ACK h i s)) to relayed k))" if "only_sends Q n k" for from' key h i s to relayed k
    by (rule only_sends_trans [OF that], rule publishMessage_sends) (auto intro: assms)
  have head: "only_sends Q n (snd (new_header E now md prio origin k))" if "only_sends Q n k" for md prio origin k
    by (rule quiet [OF that new_header_sent])
  have ack: "only_sends Q n (snd (let (h, n2) = new_header E now md prio origin k
          in act_bind (publishMessage E now (se_me E) (sign_message (se_me E) (ACK h i s)) to False n2) (\<lambda>_ n3. (Inr (), n3))))"
    if "only_sends Q n k" for md prio origin k i s to
  proof -
    obtain h n2 where hn: "new_header E now md prio origin k = (h, n2)" by (rule prod.exhaust)
    then have "only_sends Q n n2" using head [OF that, of md prio origin] by simp
    then show ?thesis unfolding hn Let_def prod.case by (intro act_bind_sends publish) simp_all
  qed
  have pruned: "only_sends Q n (snd (if c then recently_pruned now (signers m) n else (Inr True, n)))" for c
    by (cases c) (simp_all add: only_sends_refl recently_pruned_sent)
  show ?thesis unfolding maybeAcknowledgeMessage_def
    by (intro snd_if [where P = "only_sends Q n"] act_bind_sends ack pruned) (simp_all add: only_sends_refl)
qed

text \<open>On receiving a seek a node sends acknowledgements, and copies of the message to those that have not signed it.\<close>

lemma receiveSeek_sends:
  assumes "is_data m" and "is_seek (mode_of m)"
  shows "only_sends (\<lambda>(p, m'). is_data m' \<longrightarrow> signers m' = signers m @ [se_me E] \<and> se_me E \<notin> set (signers m) \<and> p \<noteq> from \<and> p \<notin> set (signers m'))
    n (snd (receive_data E now from m n))" (is "only_sends ?Q n _")
proof -
  have quiet: "only_sends ?Q n k \<Longrightarrow> nd_sent k' = nd_sent k \<Longrightarrow> only_sends ?Q n k'" for k k' by (auto simp: only_sends_def)
  have fwd: "only_sends ?Q n (snd (forward E now from m s k))" if "only_sends ?Q n k" "se_me E \<notin> set (signers m)" for s k
  proof -
    have "only_sends ?Q k (snd (relayMessage E now from m to k))" for to
      by (rule relaySeek_sends) (use assms that(2) in auto)
    then have "only_sends ?Q n (snd (relayMessage E now from m to k))" for to by (rule only_sends_trans [OF that(1)])
    then show ?thesis using that(1) assms(2) by (simp add: forward_def unawaited_def Let_def)
  qed
  have data: "only_sends ?Q n (snd (onDataMessage E now from m s k))" if k: "only_sends ?Q n k" for s k
  proof (cases "shouldIgnore E m s")
    case True
    then show ?thesis using k by (simp add: onDataMessage_def)
  next
    case False
    then have me: "se_me E \<notin> set (signers m)" by (simp add: shouldIgnore_def)
    obtain v n1 where v: "verifyAndProcess E now m k = (v, n1)" by (rule prod.exhaust)
    then have n1: "only_sends ?Q n n1" using quiet [OF k verify_sent, of E now m] by simp
    have ack: "only_sends ?Q n (snd (maybeAcknowledgeMessage E now from m s n1))"
      by (rule only_sends_trans [OF n1], rule maybeAcknowledge_sends) simp
    have plain: "only_sends ?Q n (snd (let (r, n1) = forward E now from m s k' in (Inr r, n1)))" if "only_sends ?Q n k'" for k'
      using fwd [OF that me, of s] by (simp add: split_beta Let_def)
    have out: "only_sends ?Q n (snd (let (r, n3) = forward E now from m s (if c then emit e n2 else n2) in (Inr r, n3)))" if "only_sends ?Q n n2" for n2 c e
      by (rule plain) (simp add: that quiet [OF that emit_sent])
    show ?thesis using False unfolding onDataMessage_def v Let_def prod.case
      by (auto simp del: if_split intro!: snd_if [where P = "only_sends ?Q n"] act_bind_sends ack out [unfolded Let_def] plain [unfolded Let_def] quiet [OF _ emit_sent] n1 k)
  qed
  have "only_sends ?Q n (snd (modifySeenCache now key n))" for key by (rule only_sends_refl) (rule modifySeenCache_sent)
  then show ?thesis unfolding receive_data_def by (intro act_bind_sends data)
qed

section \<open>Properties\<close>

text \<open>(C26) A delivery that counts as acknowledged by all is one: along every run, for the message of the promise every receiver it waits for has
  sent acknowledgements, verified and signed by the receiver first, one for each count of earlier sightings below the number the sender expects.\<close>

theorem acknowledged_deliveries_arrived:
  assumes "(stream_step E)\<^sup>*\<^sup>* (new_node me seen dials pruned) n" and "(p, All_acknowledged) \<in> set (nd_settled n)"
  shows "\<exists>i ts f. p < nd_promises n \<and> nd_expected n ! p = (p, i, ts, Some f) \<and>
    (\<forall>t \<in> set ts. \<forall>k < f. \<exists>h. Message_event (ACK h i k) \<in> set (nd_events n) \<and> se_verifies E (ACK h i k) \<and> mh_signers h \<noteq> [] \<and> hd (mh_signers h) = t)"
proof -
  have ok: "deliveries_ok E {} n" using assms(1) by (rule stream_run_deliveries)
  obtain i ts f where x: "(p, i, ts, Some f) \<in> set (nd_expected n)" "\<forall>t \<in> set ts. \<forall>k < f. acked E (set (nd_events n)) i t k"
    using deliveries_settledD [OF assms(2) ok] by blast
  have m: "map fst (nd_expected n) = [0..<nd_promises n]" using ok by (simp add: deliveries_ok_def)
  then have l: "length (nd_expected n) = nd_promises n" by (metis length_map length_upt minus_nat.diff_0)
  obtain j where j: "j < nd_promises n" "nd_expected n ! j = (p, i, ts, Some f)" using x(1) l by (auto simp: in_set_conv_nth)
  have "map fst (nd_expected n) ! j = j" using m j(1) by simp
  then have "p = j" using j l by simp
  then show ?thesis using j x(2) by (auto simp: acked_def)
qed

definition ack_ex :: "string \<Rightarrow> unit message" where
  "ack_ex p = ACK \<lparr>mh_id = ''a'' @ p, mh_mode = TracedDelivery [''o''], mh_session = 1, mh_timestamp = 8, mh_expires = 100, mh_priority = 1, mh_origin = None, mh_signers = [p]\<rparr> ''0'' 0"

definition stream_env_ex :: "unit stream_env" where
  "stream_env_ex = \<lparr>se_me = ''o'', se_canRelay = True, se_routeSeekInterval = 10, se_id = nat_str, se_msgId = (\<lambda>m. ''m'' @ mh_id (header_of m)),
     se_ackId = (\<lambda>m. ''a'' @ mh_id (header_of m)), se_verifies = (\<lambda>_. True), se_addresses = []\<rparr>"

text \<open>A node that publishes a message for its neighbours \<open>x\<close> and \<open>y\<close> and then gets the acknowledgements of some.\<close>

definition published_ex :: "unit node" where
  "published_ex = unawaited (stream_publish stream_env_ex 8 (Some ()) (Some (AcknowledgeDelivery [''x'', ''y''] 1)) None None None
     (createOutboundStream stream_env_ex 7 ''y'' (createOutboundStream stream_env_ex 6 ''x'' (stream_start stream_env_ex 5 1000 (new_node ''o'' (projr (new_Cache 9 None)) None None)))))"

definition acked_ex :: "string list \<Rightarrow> unit node" where
  "acked_ex ps = fold (\<lambda>p n. unawaited (processMessage stream_env_ex 9 p (ack_ex p) n)) ps published_ex"

lemma acked_ex_run: "(stream_step stream_env_ex)\<^sup>*\<^sup>* (new_node ''o'' (projr (new_Cache 9 None)) None None) (acked_ex ps)"
proof -
  let ?R = "(stream_step stream_env_ex)\<^sup>*\<^sup>* (new_node ''o'' (projr (new_Cache 9 None)) None None)"
  have step: "?R b \<Longrightarrow> stream_step stream_env_ex b c \<Longrightarrow> ?R c" for b c by (rule rtranclp.rtrancl_into_rtrancl)
  have "?R published_ex" unfolding published_ex_def
    by (intro step [OF _ stream_step.publishes] step [OF _ stream_step.outbound] step [OF _ stream_step.start] rtranclp.rtrancl_refl)
  then show ?thesis unfolding acked_ex_def
    by (rule fold_keeps [where P = "?R", rotated]) (rule step [OF _ stream_step.receives])
qed

theorem acknowledged_deliveries_arrived_witness:
  "\<exists>h. Message_event (ACK h ''0'' 0) \<in> set (nd_events (acked_ex [''x'', ''y''])) \<and> hd (mh_signers h) = ''y''"
proof -
  have "(0, All_acknowledged) \<in> set (nd_settled (acked_ex [''x'', ''y'']))" by code_simp
  from acknowledged_deliveries_arrived [OF acked_ex_run this] obtain i ts f where x: "nd_expected (acked_ex [''x'', ''y'']) ! 0 = (0, i, ts, Some f)"
      "\<forall>t \<in> set ts. \<forall>k < f. \<exists>h. Message_event (ACK h i k) \<in> set (nd_events (acked_ex [''x'', ''y''])) \<and> se_verifies stream_env_ex (ACK h i k) \<and>
        mh_signers h \<noteq> [] \<and> hd (mh_signers h) = t" by blast
  have "nd_expected (acked_ex [''x'', ''y'']) ! 0 = (0, ''0'', [''x'', ''y''], Some 1)" by code_simp
  then have "i = ''0''" "''y'' \<in> set ts" "0 < f" using x(1) by simp_all
  then show ?thesis using x(2) by blast
qed

lemma all_reached_first: "all_reached reached False h ts = (h \<and> (ts = [] \<or> jm_has reached (hd ts)))"
proof (induction reached False h ts rule: all_reached.induct)
  case (2 reached h t ts)
  then show ?case by (cases ts) auto
qed simp

text \<open>(C40) What a timeout makes of a delivery depends on the first receiver alone: when that one was reached, the delivery counts as done although
  others are missing, and otherwise it fails.\<close>

theorem timeout_asks_the_first_receiver:
  assumes "jm_get (nd_acks n) i = Some pa" and "\<not> pa_relayed pa" and "pa_promise pa \<notin> fst ` set (nd_settled n)"
  shows "nd_settled (ack_timeout i n) = nd_settled n @
    [(pa_promise pa, if pa_to pa = [] \<or> jm_has (pa_reached pa) (hd (pa_to pa)) then Timed_out_accepted else Timed_out_rejected)]"
  using assms by (simp add: ack_timeout_def Let_def settle_def clear_ack_def all_reached_first)

text \<open>Two receivers, of which one acknowledges.\<close>

theorem timeout_asks_the_first_receiver_witness:
  "nd_settled (ack_timeout ''0'' (acked_ex [''x''])) = [(0, Timed_out_accepted)] \<and> nd_settled (ack_timeout ''0'' (acked_ex [''y''])) = [(0, Timed_out_rejected)]"
proof -
  have x: "jm_get (nd_acks (acked_ex [p])) ''0'' = Some (the (jm_get (nd_acks (acked_ex [p])) ''0''))" "\<not> pa_relayed (the (jm_get (nd_acks (acked_ex [p])) ''0''))"
    "pa_promise (the (jm_get (nd_acks (acked_ex [p])) ''0'')) = 0" "nd_settled (acked_ex [p]) = []" "pa_to (the (jm_get (nd_acks (acked_ex [p])) ''0'')) = [''x'', ''y'']"
    if "p = ''x'' \<or> p = ''y''" for p
    using that by (rule disjE; hypsubst; code_simp)+
  have "jm_has (pa_reached (the (jm_get (nd_acks (acked_ex [''x''])) ''0''))) ''x''" "\<not> jm_has (pa_reached (the (jm_get (nd_acks (acked_ex [''y''])) ''0''))) ''x''" by code_simp+
  then show ?thesis using timeout_asks_the_first_receiver [OF x(1, 2) [of "''x''"]] timeout_asks_the_first_receiver [OF x(1, 2) [of "''y''"]]
    x(3-5) [of "''x''"] x(3-5) [of "''y''"] by simp
qed

lemma find_index_nth: "distinct xs \<Longrightarrow> j < length xs \<Longrightarrow> find_index (xs ! j) xs = Some j"
proof (induction xs arbitrary: j)
  case (Cons x xs)
  then show ?case by (cases j) (auto simp: in_set_conv_nth)
qed simp

lemma previous_nth: "distinct xs \<Longrightarrow> j < length xs \<Longrightarrow> previous (xs ! j) xs = (if j = 0 then None else Some (xs ! (j - 1)))"
  by (cases j) (simp_all add: previous_def find_index_nth)

text \<open>The parts of the state that receiving an acknowledgement leaves as they are.\<close>

definition same_links :: "'d node \<Rightarrow> 'd node \<Rightarrow> bool" where
  "same_links n n' \<longleftrightarrow> nd_sent n' = nd_sent n \<and> nd_peers n' = nd_peers n \<and> nd_started n' = nd_started n \<and> nd_stopping n' = nd_stopping n"

lemma same_links_trans: "same_links n n1 \<Longrightarrow> same_links n1 n2 \<Longrightarrow> same_links n n2"
  by (simp add: same_links_def)

lemma modifySeenCache_links: "same_links n (snd (modifySeenCache now key n))"
  by (auto simp: same_links_def modifySeenCache_def Let_def split: sum.split prod.split)

lemma updateSession_links: "same_links n (stream_updateSession key s n)"
  by (simp add: same_links_def stream_updateSession_def Let_def emit_def split: prod.split)

lemma verify_links: "same_links n (snd (verifyAndProcess E now m n))"
  using updateSession_links by (auto simp: verifyAndProcess_def same_links_def)

lemma addRoute_links: "same_links n (addRouteConnection E now from through target distance session remote n)"
  by (simp add: same_links_def addRouteConnection_def Let_def emit_def split: prod.split)

lemma checkDone_links: "same_links n (checkDone i pa n)"
  by (simp add: same_links_def checkDone_def settle_def clear_ack_def split: option.split)

lemma ack_callback_links: "same_links n (ack_callback E now i seen target session through prior n)"
proof -
  have frame: "same_links n k \<Longrightarrow> same_links n (k\<lparr>nd_acks := a\<rparr>)" for k a by (simp add: same_links_def)
  have clear: "same_links n (clearHealthcheckTimer target n)" by (simp add: same_links_def clearHealthcheckTimer_def)
  have route: "same_links n (if c then addRouteConnection E now f through target d ses remote (clearHealthcheckTimer target n) else clearHealthcheckTimer target n)" for c f d ses remote
    using same_links_trans [OF clear addRoute_links] clear by simp
  show ?thesis unfolding ack_callback_def Let_def
    by (cases "jm_get (nd_acks n) i") (simp add: same_links_def, simp only: option.case, rule same_links_trans [OF _ checkDone_links], rule frame, rule route)
qed

lemma maybeConnect_sent: "nd_sent (snd (maybeConnectDirectly now to origin n)) = nd_sent n"
  unfolding maybeConnectDirectly_def
  by (auto simp: act_bind_def Let_def split: prod.split sum.split option.split dest: arg_cong [where f = "\<lambda>x. nd_sent (snd x)"] simp: recently_pruned_sent)

lemma relay_to_one:
  assumes "nd_started n" and "\<not> nd_stopping n" and "mh_mode h = TracedDelivery trace" and "p \<noteq> se_me E"
  shows "nd_sent (snd (publishMessage E now (se_me E) (ACK h i s) (Some [p]) True n)) = nd_sent n @ (if p \<in> set (mh_signers h) then [] else [(p, ACK h i s)])"
  by (simp add: assms mode_of_def publishMessage_def Let_def act_bind_def routed_def publish_directly_def receivers_def signers_def)

lemma return_sent: "nd_sent (snd (act_bind x (\<lambda>_ n1. (Inr r, n1)))) = nd_sent (snd x)"
  by (simp add: act_bind_def split: prod.split sum.split)

lemma relay_ack_sends:
  assumes "nd_started n" and "\<not> nd_stopping n" and "mh_mode h = TracedDelivery trace" and "p \<noteq> se_me E"
  shows "nd_sent (snd (relay_ack E now (ACK h i s) tr (if c then Some p else None) n)) =
    nd_sent n @ (if c \<and> p \<notin> set (mh_signers h) then [(p, ACK h i s)] else [])"
proof (cases c)
  case True
  then show ?thesis using assms by (simp add: relay_ack_def return_sent relay_to_one)
next
  case False
  then show ?thesis by (simp add: relay_ack_def unawaited_def maybeConnect_sent split: option.split)
qed

text \<open>(C18) An acknowledgement goes back exactly the way its message came: a node on the trace that sees a verified acknowledgement for the first time sends it
  to the one before it on the trace and to nobody else, if that is a neighbour that has not signed it; the first of the trace sends it to nobody.\<close>

theorem ack_goes_back:
  assumes "distinct trace" and "j < length trace" and "trace ! j = se_me E" and "mh_mode h = TracedDelivery trace"
    and "fst (modifySeenCache now (se_ackId E (ACK h i s)) n) = Inr 0" and "now \<le> mh_expires h" and "mh_signers h \<noteq> []" and "se_verifies E (ACK h i s)"
    and "nd_started n" and "\<not> nd_stopping n"
  shows "nd_sent (snd (onAck E now from (ACK h i s) n)) =
    nd_sent n @ (if 0 < j \<and> trace ! (j - 1) \<in> set (nd_peers n) \<and> trace ! (j - 1) \<notin> set (mh_signers h) then [(trace ! (j - 1), ACK h i s)] else [])"
proof -
  obtain n1 where n1: "modifySeenCache now (se_ackId E (ACK h i s)) n = (Inr 0, n1)" using assms(5) by (metis prod.collapse)
  obtain n2 where n2: "verifyAndProcess E now (ACK h i s) n1 = (True, n2)" using assms(6-8) by (simp add: verifyAndProcess_def signers_def)
  define p where "p = trace ! (j - 1)"
  have "same_links n n1" using modifySeenCache_links [of n now "se_ackId E (ACK h i s)"] n1 by simp
  moreover have "same_links n1 n2" using verify_links [of n1 E now "ACK h i s"] n2 by simp
  ultimately have links: "same_links n n2" by (rule same_links_trans)
  define prior where "prior = (case previous (se_me E) trace of None \<Rightarrow> None | Some q \<Rightarrow> if q \<in> set (nd_peers n2) then Some q else None)"
  have prior: "prior = (if 0 < j \<and> p \<in> set (nd_peers n) then Some p else None)"
    using previous_nth [OF assms(1, 2)] links assms(3) by (simp add: prior_def p_def same_links_def)
  define n3 where "n3 = ack_callback E now i s (hd (mh_signers h)) (mh_session h) from prior n2"
  have n3: "same_links n n3" unfolding n3_def using links ack_callback_links by (rule same_links_trans)
  have out: "onAck E now from (ACK h i s) n = relay_ack E now (ACK h i s) trace prior n3"
    by (simp add: onAck_def n1 act_bind_def n2 assms(4) n3_def prior_def signers_def Let_def)
  show ?thesis
  proof (cases "j = 0")
    case True
    have "nd_sent (snd (relay_ack E now (ACK h i s) trace None n3)) = nd_sent n3" by (simp add: relay_ack_def unawaited_def maybeConnect_sent split: option.split)
    then show ?thesis using True n3 by (simp add: out prior same_links_def)
  next
    case False
    then have "p \<noteq> se_me E" using assms(1-3) nth_eq_iff_index_eq [OF assms(1), of "j - 1" j] by (auto simp: p_def)
    then show ?thesis using relay_ack_sends [where n = n3 and h = h and i = i and s = s and trace = trace and E = E and p = p and now = now and tr = trace
      and c = "0 < j \<and> p \<in> set (nd_peers n)"] n3 assms(4, 9, 10) False
      by (simp add: out prior same_links_def p_def)
  qed
qed

text \<open>A node in the middle of a trace.\<close>

definition middle_ex :: "unit node" where
  "middle_ex = createOutboundStream stream_env_ex 7 ''y'' (createOutboundStream stream_env_ex 6 ''x'' (stream_start stream_env_ex 5 1000 (new_node ''o'' (projr (new_Cache 9 None)) None None)))"

definition traced_ex :: header where
  "traced_ex = \<lparr>mh_id = ''a'', mh_mode = TracedDelivery [''x'', ''o'', ''y''], mh_session = 1, mh_timestamp = 8, mh_expires = 100, mh_priority = 1, mh_origin = None, mh_signers = [''y'']\<rparr>"

theorem ack_goes_back_witness: "nd_sent (snd (onAck stream_env_ex 9 ''y'' (ACK traced_ex ''0'' 0) middle_ex)) = [(''x'', ACK traced_ex ''0'' 0)]"
proof -
  have "fst (modifySeenCache 9 (se_ackId stream_env_ex (ACK traced_ex ''0'' 0)) middle_ex) = Inr 0" "nd_started middle_ex" "\<not> nd_stopping middle_ex"
    "nd_sent middle_ex = []" "''x'' \<in> set (nd_peers middle_ex)" by code_simp+
  then show ?thesis using ack_goes_back [of "[''x'', ''o'', ''y'']" 1 stream_env_ex traced_ex 9 "''0''" 0 middle_ex "''y''"] by (simp add: traced_ex_def stream_env_ex_def)
qed

text \<open>(C37) The signatures of a seek are a path: a node that receives one sends copies only to peers that are not on it, and adds itself. So the
  trace that an acknowledgement follows back visits no node twice.\<close>

theorem seek_traces_are_paths:
  assumes "is_seek (mh_mode h)" and "distinct (mh_signers h)"
    and "(p, m') \<in> set (drop (length (nd_sent n)) (nd_sent (snd (receive_data E now from (DataMessage h d) n))))" and "is_data m'"
  shows "signers m' = mh_signers h @ [se_me E] \<and> distinct (signers m' @ [p]) \<and> p \<noteq> from"
  using only_sends_new [OF receiveSeek_sends assms(3)] assms(1, 2, 4) by (auto simp: mode_of_def signers_def)

definition seek_ex :: header where
  "seek_ex = \<lparr>mh_id = ''s'', mh_mode = SeekDelivery None 2, mh_session = 1, mh_timestamp = 8, mh_expires = 100, mh_priority = 1, mh_origin = None, mh_signers = [''x'']\<rparr>"

theorem seek_traces_are_paths_witness:
  "\<exists>m'. (''y'', m') \<in> set (nd_sent (snd (receive_data stream_env_ex 9 ''x'' (DataMessage seek_ex None) middle_ex))) \<and> signers m' = [''x'', ''o'']"
proof -
  let ?m = "with_header (seek_ex\<lparr>mh_signers := [''x'', ''o'']\<rparr>) (DataMessage seek_ex None) :: unit message"
  have "(''y'', ?m) \<in> set (drop (length (nd_sent middle_ex)) (nd_sent (snd (receive_data stream_env_ex 9 ''x'' (DataMessage seek_ex None) middle_ex))))"
    "length (nd_sent middle_ex) = 0" by code_simp+
  then show ?thesis using seek_traces_are_paths [of seek_ex "''y''" ?m middle_ex stream_env_ex 9 "''x''" None] by (auto simp: seek_ex_def stream_env_ex_def)
qed


end
