(* ===== verification/TrustGraph.thy ===== *)
theory TrustGraph
  imports Prelude "HOL-Library.Countable"
begin

text \<open>
  Trusted networks: \<open>packages/programs/acl/trusted-network/src/identity-graph.ts\<close> and \<open>controller.ts\<close>. A graph is the list of its
  relations, a relation a pair of keys, a key its hash. The id of a relation is an array of bytes, and the set
  of visited ids compares arrays by identity: a document that comes from a cache has the array it had, one that
  is read anew has another. So the objects are a parameter \<open>obj\<close>: which one the n-th query hands out for a relation. The
  generator of paths is followed one generation of keys after the other, with fuel for the generations:
  \<open>None\<close> is a call that does not return.

  Not modelled: the document store, which is the list of relations, and the search at remote peers, whose results are not awaited.

  Shown: along every run, whom the graph mentions has a path from the root; that the search decides trust when every query reads its
  relations anew, and returns when they are cached; and that it runs for ever on cycles in the first case, and
  overlooks paths in the second.
\<close>

section \<open>Relations\<close>

record relation =
  rel_from :: string
  rel_to :: string

record relation_resolver =
  rr_resolve :: "relation list \<Rightarrow> string \<Rightarrow> relation list"
  rr_next :: "relation \<Rightarrow> string"

definition getFromByTo :: relation_resolver where
  "getFromByTo = \<lparr>rr_resolve = (\<lambda>db to. filter (\<lambda>r. rel_to r = to) db), rr_next = rel_from\<rparr>"

definition getToByFrom :: relation_resolver where
  "getToByFrom = \<lparr>rr_resolve = (\<lambda>db from. filter (\<lambda>r. rel_from r = from) db), rr_next = rel_to\<rparr>"

definition getRelation :: "string \<Rightarrow> string \<Rightarrow> relation list \<Rightarrow> relation option" where
  "getRelation from to db = find (\<lambda>r. r = \<lparr>rel_from = from, rel_to = to\<rparr>) db"

section \<open>Paths\<close>

text \<open>The results of one query: whether the generator goes on, what it yields, and the objects visited. One that was visited ends the generator.\<close>

fun take_results :: "(relation \<Rightarrow> nat) \<Rightarrow> relation list \<Rightarrow> nat list \<Rightarrow> bool \<times> relation list \<times> nat list" where
  "take_results ob [] visited = (True, [], visited)"
| "take_results ob (r # rs) visited =
     (if ob r \<in> set visited then (False, [], visited)
      else let (go, ys, v) = take_results ob rs (ob r # visited) in (go, r # ys, v))"

text \<open>One generation, with the number of queries made.\<close>

fun expand :: "(nat \<Rightarrow> relation \<Rightarrow> nat) \<Rightarrow> relation_resolver \<Rightarrow> relation list \<Rightarrow> nat \<Rightarrow> string list \<Rightarrow> nat list \<Rightarrow>
    bool \<times> relation list \<times> nat \<times> nat list" where
  "expand obj R db n [] visited = (True, [], n, visited)"
| "expand obj R db n (k # ks) visited =
     (let (go, ys, v) = take_results (obj n) (rr_resolve R db k) visited
      in if \<not> go then (False, ys, Suc n, v)
         else let (go', zs, n', v') = expand obj R db (Suc n) ks v in (go', ys @ zs, n', v'))"

text \<open>What the reader of the generator sees: it stops at the first relation whose \<open>from\<close> is a target.\<close>

fun path_loop :: "nat \<Rightarrow> (nat \<Rightarrow> relation \<Rightarrow> nat) \<Rightarrow> relation_resolver \<Rightarrow> relation list \<Rightarrow> (string \<Rightarrow> bool) \<Rightarrow> nat \<Rightarrow> string list \<Rightarrow> nat list \<Rightarrow> bool option" where
  "path_loop 0 obj R db target n iter visited = None"
| "path_loop (Suc fuel) obj R db target n iter visited =
     (if iter = [] then Some False
      else let (go, ys, n', v) = expand obj R db n iter visited
        in if \<exists>r \<in> set ys. target (rel_from r) then Some True
           else if \<not> go then Some False
           else path_loop fuel obj R db target n' (map (rr_next R) ys) v)"

definition hasPathToTarget :: "nat \<Rightarrow> (nat \<Rightarrow> relation \<Rightarrow> nat) \<Rightarrow> string \<Rightarrow> (string \<Rightarrow> bool) \<Rightarrow> relation list \<Rightarrow> relation_resolver \<Rightarrow> bool option" where
  "hasPathToTarget fuel obj start target db R = (if target start then Some True else path_loop fuel obj R db target 0 [start] [])"

definition hasPath :: "nat \<Rightarrow> (nat \<Rightarrow> relation \<Rightarrow> nat) \<Rightarrow> string \<Rightarrow> string \<Rightarrow> relation list \<Rightarrow> relation_resolver \<Rightarrow> bool option" where
  "hasPath fuel obj start finish db R = hasPathToTarget fuel obj start (\<lambda>k. finish = k) db R"

section \<open>Trusted networks\<close>

definition isTrusted :: "nat \<Rightarrow> (nat \<Rightarrow> relation \<Rightarrow> nat) \<Rightarrow> relation list \<Rightarrow> string \<Rightarrow> string \<Rightarrow> string \<Rightarrow> bool option" where
  "isTrusted fuel obj db rootTrust trustee truster = (if trustee = rootTrust then Some True else hasPath fuel obj trustee truster db getFromByTo)"

fun members :: "nat \<Rightarrow> (nat \<Rightarrow> relation \<Rightarrow> nat) \<Rightarrow> relation_resolver \<Rightarrow> relation list \<Rightarrow> nat \<Rightarrow> string list \<Rightarrow> nat list \<Rightarrow> string list option" where
  "members 0 obj R db n iter visited = None"
| "members (Suc fuel) obj R db n iter visited =
     (if iter = [] then Some []
      else let (go, ys, n', v) = expand obj R db n iter visited
        in if \<not> go then Some (map rel_to ys)
           else map_option (\<lambda>rest. map rel_to ys @ rest) (members fuel obj R db n' (map (rr_next R) ys) v))"

definition getTrusted :: "nat \<Rightarrow> (nat \<Rightarrow> relation \<Rightarrow> nat) \<Rightarrow> relation list \<Rightarrow> string \<Rightarrow> string list option" where
  "getTrusted fuel obj db rootTrust = map_option (\<lambda>rest. rootTrust # rest) (members fuel obj getToByFrom db 0 [rootTrust] [])"

text \<open>Who may change a graph: one of the signers of the entry, if it is trusted, and the relations it puts come from it.\<close>

datatype relation_operation = Put_relation relation | Put_other | Delete

fun canPerformByRelation :: "(string \<Rightarrow> bool option) option \<Rightarrow> relation_operation \<Rightarrow> string list \<Rightarrow> bool option" where
  "canPerformByRelation trusted op [] = Some False"
| "canPerformByRelation trusted op (key # keys) =
     (case (case op of
              Put_relation r \<Rightarrow> if rel_from r \<noteq> key then Some False else (case trusted of None \<Rightarrow> Some True | Some f \<Rightarrow> f key)
            | _ \<Rightarrow> (case trusted of None \<Rightarrow> Some True | Some f \<Rightarrow> f key)) of
        None \<Rightarrow> None
      | Some True \<Rightarrow> Some True
      | Some False \<Rightarrow> canPerformByRelation trusted op keys)"

definition network_canPerform :: "nat \<Rightarrow> (nat \<Rightarrow> relation \<Rightarrow> nat) \<Rightarrow> relation list \<Rightarrow> string \<Rightarrow> relation_operation \<Rightarrow> string list \<Rightarrow> bool option" where
  "network_canPerform fuel obj db rootTrust = canPerformByRelation (Some (\<lambda>key. isTrusted fuel obj db rootTrust key rootTrust))"

definition graph_canPerform :: "relation_operation \<Rightarrow> string list \<Rightarrow> bool option" where
  "graph_canPerform = canPerformByRelation None"

text \<open>A put of the graph is signed by \<open>keys\<close>: whether it is accepted, and the graph.\<close>

definition put_relation :: "nat \<Rightarrow> (nat \<Rightarrow> relation \<Rightarrow> nat) \<Rightarrow> string \<Rightarrow> relation \<Rightarrow> string list \<Rightarrow> relation list \<Rightarrow> bool option \<times> relation list" where
  "put_relation fuel obj rootTrust r keys db =
     (let ok = network_canPerform fuel obj db rootTrust (Put_relation r) keys
      in (ok, if ok = Some True \<and> r \<notin> set db then db @ [r] else db))"

text \<open>\<open>IdentityGraph.addRelation\<close>, signed by the one the relation comes from.\<close>

definition addRelation :: "string \<Rightarrow> string \<Rightarrow> relation list \<Rightarrow> bool \<times> relation list" where
  "addRelation me to db =
     (let r = \<lparr>rel_from = me, rel_to = to\<rparr>; ok = graph_canPerform (Put_relation r) [me] = Some True
      in (ok, if ok \<and> r \<notin> set db then db @ [r] else db))"

text \<open>\<open>TrustedNetwork.add\<close> by a peer: a put that is refused throws.\<close>

definition network_add :: "nat \<Rightarrow> (nat \<Rightarrow> relation \<Rightarrow> nat) \<Rightarrow> string \<Rightarrow> string \<Rightarrow> string \<Rightarrow> relation list \<Rightarrow> relation option option \<times> relation list" where
  "network_add fuel obj rootTrust me trustee db =
     (case getRelation me trustee db of
        Some r \<Rightarrow> (Some (Some r), db)
      | None \<Rightarrow>
          let r = \<lparr>rel_from = me, rel_to = trustee\<rparr>; (ok, db') = put_relation fuel obj rootTrust r [me] db
          in (case ok of None \<Rightarrow> None | Some b \<Rightarrow> Some (if b then Some r else None), db'))"

text \<open>A network at work: peers add others, and entries with any signers arrive from other peers.\<close>

inductive network_step :: "string \<Rightarrow> relation list \<Rightarrow> relation list \<Rightarrow> bool" for root where
  puts: "network_step root db (snd (put_relation fuel obj root r keys db))"
| adds: "network_step root db (snd (network_add fuel obj root me trustee db))"

section \<open>Lemmas\<close>

lemma rr_next_simps [simp]: "rr_next getFromByTo = rel_from" "rr_next getToByFrom = rel_to"
  by (simp_all add: getFromByTo_def getToByFrom_def)

text \<open>Who trusts whom.\<close>

definition trust :: "relation list \<Rightarrow> (string \<times> string) set" where
  "trust db = {(rel_from r, rel_to r) |r. r \<in> set db}"

lemma trust_iff: "(a, b) \<in> trust db \<longleftrightarrow> \<lparr>rel_from = a, rel_to = b\<rparr> \<in> set db"
  unfolding trust_def by (auto intro!: exI [of _ "\<lparr>rel_from = a, rel_to = b\<rparr>"]) (metis old.unit.exhaust relation.surjective)

lemma trust_mono: "set db \<subseteq> set db' \<Longrightarrow> trust db \<subseteq> trust db'"
  by (auto simp: trust_def)

lemma take_results_sub: "take_results ob rs v = (go, ys, v') \<Longrightarrow> set ys \<subseteq> set rs \<and> (go \<longrightarrow> ys = rs) \<and> v' = rev (map ob ys) @ v"
proof (induction rs arbitrary: v go ys v')
  case (Cons r rs)
  then show ?case by (fastforce split: if_splits prod.splits)
qed simp

text \<open>Objects of different queries differ, and so do those of different relations; those visited stem from earlier queries.\<close>

definition fresh_objects :: "(nat \<Rightarrow> relation \<Rightarrow> nat) \<Rightarrow> bool" where
  "fresh_objects obj \<longleftrightarrow> (\<forall>n m r s. obj n r = obj m s \<longrightarrow> n = m \<and> r = s)"

definition visited_before :: "(nat \<Rightarrow> relation \<Rightarrow> nat) \<Rightarrow> nat \<Rightarrow> nat list \<Rightarrow> bool" where
  "visited_before obj n v \<longleftrightarrow> (\<forall>x \<in> set v. \<exists>m < n. \<exists>r. x = obj m r)"

lemma visited_before_Suc: "visited_before obj n v \<Longrightarrow> visited_before obj (Suc n) (rev (map (obj n) ys) @ v)"
  unfolding visited_before_def by (auto intro: less_SucI) (metis less_SucI)

lemma take_results_new:
  "fresh_objects obj \<Longrightarrow> distinct rs \<Longrightarrow> \<forall>r \<in> set rs. obj n r \<notin> set v \<Longrightarrow> fst (take_results (obj n) rs v)"
proof (induction rs arbitrary: v)
  case (Cons r rs)
  then have "\<forall>s \<in> set rs. obj n s \<notin> set (obj n r # v)" unfolding fresh_objects_def by (metis distinct.simps(2) list.set_intros(2) set_ConsD)
  then have "fst (take_results (obj n) rs (obj n r # v))" using Cons by simp
  then show ?case using Cons.prems by (simp add: split_beta Let_def)
qed simp

lemma take_results_fresh: "fresh_objects obj \<Longrightarrow> distinct rs \<Longrightarrow> visited_before obj n v \<Longrightarrow> fst (take_results (obj n) rs v)"
  by (rule take_results_new) (auto simp: fresh_objects_def visited_before_def, blast)

text \<open>What the search relies on: a resolver finds the relations of the graph that have the asked key at one end.\<close>

locale resolver =
  fixes R :: relation_resolver and near :: "relation \<Rightarrow> string"
  assumes resolves: "r \<in> set (rr_resolve R db k) \<longleftrightarrow> r \<in> set db \<and> near r = k"
    and resolves_once: "distinct db \<Longrightarrow> distinct (rr_resolve R db k)"
begin

text \<open>A generation yields relations at its keys; when the generator goes on, all of them.\<close>

lemma expand_sub: "expand obj R db n ks v = (go, ys, n', v') \<Longrightarrow> set ys \<subseteq> {r \<in> set db. near r \<in> set ks} \<and> (go \<longrightarrow> set ys = {r \<in> set db. near r \<in> set ks})"
proof (induction ks arbitrary: n v go ys n' v')
  case (Cons k ks)
  obtain go1 ys1 v1 where t: "take_results (obj n) (rr_resolve R db k) v = (go1, ys1, v1)" by (metis prod_cases3)
  have s: "set ys1 \<subseteq> {r \<in> set db. near r = k}" "go1 \<Longrightarrow> set ys1 = {r \<in> set db. near r = k}"
    using take_results_sub [OF t] resolves by auto
  show ?case
  proof (cases go1)
    case True
    obtain go2 zs n2 v2 where e: "expand obj R db (Suc n) ks v1 = (go2, zs, n2, v2)" by (metis prod_cases4)
    then show ?thesis using Cons.prems Cons.IH [OF e] s True by (auto simp: t)
  next
    case False
    then show ?thesis using Cons.prems s by (auto simp: t)
  qed
qed simp

text \<open>When every query hands out new objects, nothing counts as visited.\<close>

lemma expand_fresh:
  assumes "fresh_objects obj" and "distinct db"
  shows "expand obj R db n ks v = (go, ys, n', v') \<Longrightarrow> visited_before obj n v \<Longrightarrow> go \<and> visited_before obj n' v'"
proof (induction ks arbitrary: n v go ys n' v')
  case (Cons k ks)
  obtain go1 ys1 v1 where t: "take_results (obj n) (rr_resolve R db k) v = (go1, ys1, v1)" by (metis prod_cases3)
  have t1: "go1" using take_results_fresh [OF assms(1) resolves_once [OF assms(2)] Cons.prems(2), of k] t by simp
  have v1: "visited_before obj (Suc n) v1" using visited_before_Suc [OF Cons.prems(2)] take_results_sub [OF t] by simp
  obtain go2 zs n2 v2 where e: "expand obj R db (Suc n) ks v1 = (go2, zs, n2, v2)" by (metis prod_cases4)
  show ?case using Cons.prems(1) Cons.IH [OF e v1] t1 by (simp add: t e)
qed simp

end

interpretation from_by_to: resolver getFromByTo rel_to
  by unfold_locales (auto simp: getFromByTo_def)

interpretation to_by_from: resolver getToByFrom rel_from
  by unfold_locales (auto simp: getToByFrom_def)

subsection \<open>What a search finds is there\<close>

lemma path_loop_sound: "path_loop fuel obj getFromByTo db target n iter v = Some True \<Longrightarrow> \<exists>t k. target t \<and> k \<in> set iter \<and> (t, k) \<in> (trust db)\<^sup>*"
proof (induction fuel arbitrary: n iter v)
  case (Suc fuel)
  obtain go ys n' v' where e: "expand obj getFromByTo db n iter v = (go, ys, n', v')" by (metis prod_cases4)
  have ys: "\<And>r. r \<in> set ys \<Longrightarrow> (rel_from r, rel_to r) \<in> trust db \<and> rel_to r \<in> set iter"
    using from_by_to.expand_sub [OF e] by (auto simp: trust_def)
  show ?case
  proof (cases "\<exists>r \<in> set ys. target (rel_from r)")
    case True
    then show ?thesis using ys by blast
  next
    case False
    then have "path_loop fuel obj getFromByTo db target n' (map rel_from ys) v' = Some True"
      using Suc.prems by (simp add: e split: if_splits)
    then obtain t r where "target t" "r \<in> set ys" "(t, rel_from r) \<in> (trust db)\<^sup>*" using Suc.IH by fastforce
    then show ?thesis using ys by (meson rtrancl.rtrancl_into_rtrancl)
  qed
qed simp

lemma members_sound: "members fuel obj getToByFrom db n iter v = Some ps \<Longrightarrow> p \<in> set ps \<Longrightarrow> \<exists>k \<in> set iter. (k, p) \<in> (trust db)\<^sup>*"
proof (induction fuel arbitrary: n iter v ps)
  case (Suc fuel)
  obtain go ys n' v' where e: "expand obj getToByFrom db n iter v = (go, ys, n', v')" by (metis prod_cases4)
  have ys: "\<And>r. r \<in> set ys \<Longrightarrow> (rel_from r, rel_to r) \<in> trust db \<and> rel_from r \<in> set iter"
    using to_by_from.expand_sub [OF e] by (auto simp: trust_def)
  show ?case
  proof (cases "p \<in> rel_to ` set ys")
    case True
    then show ?thesis using ys by blast
  next
    case False
    then obtain rest where "members fuel obj getToByFrom db n' (map rel_to ys) v' = Some rest" "p \<in> set rest"
      using Suc.prems by (auto simp: e split: if_splits)
    then obtain r where "r \<in> set ys" "(rel_to r, p) \<in> (trust db)\<^sup>*" using Suc.IH by fastforce
    then show ?thesis using ys by (meson converse_rtrancl_into_rtrancl)
  qed
qed simp

lemma isTrusted_sound: "isTrusted fuel obj db root trustee root = Some True \<Longrightarrow> (root, trustee) \<in> (trust db)\<^sup>*"
  using path_loop_sound by (fastforce simp: isTrusted_def hasPath_def hasPathToTarget_def split: if_splits)

subsection \<open>When a search returns\<close>

text \<open>When a relation always has the same object, every generation visits new ones.\<close>

definition objects_ok :: "(relation \<Rightarrow> nat) \<Rightarrow> relation list \<Rightarrow> nat list \<Rightarrow> bool" where
  "objects_ok g db v \<longleftrightarrow> distinct v \<and> set v \<subseteq> g ` set db"

lemma take_results_cached:
  "take_results g rs v = (go, ys, v') \<Longrightarrow> set rs \<subseteq> set db \<Longrightarrow> objects_ok g db v \<Longrightarrow> objects_ok g db v' \<and> length v' = length v + length ys"
proof (induction rs arbitrary: v go ys v')
  case (Cons r rs)
  show ?case
  proof (cases "g r \<in> set v")
    case False
    then have ok: "objects_ok g db (g r # v)" using Cons.prems by (auto simp: objects_ok_def)
    obtain go1 ys1 v1 where t: "take_results g rs (g r # v) = (go1, ys1, v1)" by (metis prod_cases3)
    show ?thesis using Cons.IH [OF t _ ok] Cons.prems False by (auto simp: t)
  qed (use Cons.prems in auto)
qed simp

lemma expand_cached:
  "expand (\<lambda>_. g) getFromByTo db n ks v = (go, ys, n', v') \<Longrightarrow> objects_ok g db v \<Longrightarrow> objects_ok g db v' \<and> length v' = length v + length ys"
proof (induction ks arbitrary: n v go ys n' v')
  case (Cons k ks)
  obtain go1 ys1 v1 where t: "take_results g (rr_resolve getFromByTo db k) v = (go1, ys1, v1)" by (metis prod_cases3)
  have ok: "objects_ok g db v1" "length v1 = length v + length ys1"
    using take_results_cached [OF t _ Cons.prems(2)] from_by_to.resolves by auto
  obtain go2 zs n2 v2 where e: "expand (\<lambda>_. g) getFromByTo db (Suc n) ks v1 = (go2, zs, n2, v2)" by (metis prod_cases4)
  show ?case using Cons.prems(1) Cons.IH [OF e ok(1)] ok by (auto simp: t e split: if_splits)
qed simp

lemma path_loop_cached:
  "objects_ok g db v \<Longrightarrow> length db + 2 \<le> fuel + length v \<Longrightarrow> 2 \<le> fuel \<Longrightarrow> path_loop fuel (\<lambda>_. g) getFromByTo db target n iter v \<noteq> None"
proof (induction fuel arbitrary: n iter v)
  case (Suc fuel)
  obtain go ys n' v' where e: "expand (\<lambda>_. g) getFromByTo db n iter v = (go, ys, n', v')" by (metis prod_cases4)
  have v': "objects_ok g db v'" "length v' = length v + length ys" using expand_cached [OF e Suc.prems(1)] by auto
  have "length v' \<le> length db"
    using v'(1) card_mono [of "g ` set db" "set v'"] card_image_le [of "set db" g] card_length [of db] distinct_card [of v']
    by (auto simp: objects_ok_def)
  show ?case
  proof (cases "ys = []")
    case True
    then show ?thesis using Suc.prems(3) by (cases fuel) (auto simp: e)
  next
    case False
    then have "2 \<le> fuel" "length db + 2 \<le> fuel + length v'" using Suc.prems v'(2) \<open>length v' \<le> length db\<close> by (cases ys; auto)+
    then show ?thesis using Suc.IH [OF v'(1)] by (auto simp: e)
  qed
qed simp

text \<open>New objects: a path is found in as many generations as it has relations.\<close>

lemma path_loop_complete:
  assumes "fresh_objects obj" and "distinct db"
  shows "visited_before obj n v \<Longrightarrow> k \<in> set iter \<Longrightarrow> (t, k) \<in> trust db ^^ Suc d \<Longrightarrow> target t \<Longrightarrow> Suc d \<le> fuel \<Longrightarrow>
    path_loop fuel obj getFromByTo db target n iter v = Some True"
proof (induction d arbitrary: fuel n iter v k)
  case 0
  obtain f where f: "fuel = Suc f" using 0 by (cases fuel) auto
  obtain go ys n' v' where e: "expand obj getFromByTo db n iter v = (go, ys, n', v')" by (metis prod_cases4)
  then have "go" using from_by_to.expand_fresh [OF assms e 0(1)] by simp
  then have "\<lparr>rel_from = t, rel_to = k\<rparr> \<in> set ys" using from_by_to.expand_sub [OF e] 0 by (auto simp: trust_iff)
  then have "\<exists>r \<in> set ys. target (rel_from r)" using 0(4) by (metis relation.select_convs(1))
  then show ?case using 0(2) by (auto simp: f e)
next
  case (Suc d)
  obtain z where z: "(t, z) \<in> trust db ^^ Suc d" "(z, k) \<in> trust db" using Suc.prems(3) by (metis relpow_Suc_E)
  obtain f where f: "fuel = Suc f" using Suc.prems by (cases fuel) auto
  obtain go ys n' v' where e: "expand obj getFromByTo db n iter v = (go, ys, n', v')" by (metis prod_cases4)
  then have go: "go" "visited_before obj n' v'" using from_by_to.expand_fresh [OF assms e Suc.prems(1)] by simp_all
  then have "\<lparr>rel_from = z, rel_to = k\<rparr> \<in> set ys" using from_by_to.expand_sub [OF e] Suc.prems(2) z(2) by (auto simp: trust_iff)
  then have "z \<in> set (map rel_from ys)" by force
  then have "path_loop f obj getFromByTo db target n' (map rel_from ys) v' = Some True"
    using Suc.IH [OF go(2) _ z(1)] Suc.prems(4, 5) f by simp
  then show ?case using Suc.prems(2) go by (auto simp: f e)
qed

text \<open>From a cycle that no target reaches the search does not come back.\<close>

lemma path_loop_cycles:
  assumes "fresh_objects obj" and "distinct db"
  shows "visited_before obj n v \<Longrightarrow> k \<in> set iter \<Longrightarrow> (k, k) \<in> (trust db)\<^sup>+ \<Longrightarrow> \<forall>t i. target t \<longrightarrow> i \<in> set iter \<longrightarrow> (t, i) \<notin> (trust db)\<^sup>* \<Longrightarrow>
    path_loop fuel obj getFromByTo db target n iter v = None"
proof (induction fuel arbitrary: n iter v k)
  case (Suc fuel)
  obtain z where z: "(k, z) \<in> (trust db)\<^sup>*" "(z, k) \<in> trust db" using tranclD2 [OF Suc.prems(3)] by blast
  obtain go ys n' v' where e: "expand obj getFromByTo db n iter v = (go, ys, n', v')" by (metis prod_cases4)
  then have go: "go" "visited_before obj n' v'" using from_by_to.expand_fresh [OF assms e Suc.prems(1)] by simp_all
  have ys: "set ys = {r \<in> set db. rel_to r \<in> set iter}" using from_by_to.expand_sub [OF e] go(1) by simp
  then have "\<lparr>rel_from = z, rel_to = k\<rparr> \<in> set ys" using Suc.prems(2) z(2) by (auto simp: trust_iff)
  then have "z \<in> set (map rel_from ys)" by force
  moreover have "(z, z) \<in> (trust db)\<^sup>+" using z by (rule rtrancl_into_trancl2 [rotated])
  moreover have none: "\<forall>t i. target t \<longrightarrow> i \<in> set (map rel_from ys) \<longrightarrow> (t, i) \<notin> (trust db)\<^sup>*"
  proof (intro allI impI notI)
    fix t i
    assume t: "target t" "i \<in> set (map rel_from ys)" "(t, i) \<in> (trust db)\<^sup>*"
    then obtain r where r: "r \<in> set db" "rel_to r \<in> set iter" "i = rel_from r" by (auto simp: ys)
    then have "(i, rel_to r) \<in> trust db" by (auto simp: trust_def)
    then show False using Suc.prems(4) t r by (meson rtrancl.rtrancl_into_rtrancl)
  qed
  ultimately have "path_loop fuel obj getFromByTo db target n' (map rel_from ys) v' = None" by (intro Suc.IH [OF go(2)]) auto
  moreover have "\<not> (\<exists>r \<in> set ys. target (rel_from r))" using none by auto
  ultimately show ?case using Suc.prems(2) go by (auto simp: e)
qed simp

lemma isTrusted_complete:
  assumes "fresh_objects obj" and "distinct db" and "(root, k) \<in> (trust db)\<^sup>*" and "length db \<le> fuel"
  shows "isTrusted fuel obj db root k root = Some True"
proof (cases "k = root")
  case False
  have f: "finite (trust db)" "card (trust db) \<le> length db"
  proof -
    have "trust db = (\<lambda>r. (rel_from r, rel_to r)) ` set db" by (auto simp: trust_def)
    then show "finite (trust db)" "card (trust db) \<le> length db" by (metis List.finite_set finite_imageI, metis card_image_le card_length le_trans List.finite_set)
  qed
  obtain d where d: "d \<le> card (trust db)" "(root, k) \<in> trust db ^^ d" using assms(3) rtrancl_finite_eq_relpow [OF f(1)] by auto
  obtain e where e: "d = Suc e" using d False by (cases d) auto
  have "path_loop fuel obj getFromByTo db (\<lambda>x. root = x) 0 [k] [] = Some True"
    by (rule path_loop_complete [OF assms(1, 2), where d = e and t = root and k = k]) (use d e f(2) assms(4) in \<open>auto simp: visited_before_def\<close>)
  then show ?thesis using False by (simp add: isTrusted_def hasPath_def hasPathToTarget_def)
qed (simp add: isTrusted_def)

subsection \<open>Who may change the graph\<close>

lemma canPerform_put: "canPerformByRelation (Some f) (Put_relation r) keys = Some True \<Longrightarrow> rel_from r \<in> set keys \<and> f (rel_from r) = Some True"
  by (induction keys) (auto split: option.splits bool.splits if_splits)

lemma put_relation_trusted:
  assumes "set (snd (put_relation fuel obj root r keys db)) \<noteq> set db"
  shows "rel_from r \<in> set keys \<and> (root, rel_from r) \<in> (trust db)\<^sup>* \<and> snd (put_relation fuel obj root r keys db) = db @ [r]"
proof -
  have "network_canPerform fuel obj db root (Put_relation r) keys = Some True" "snd (put_relation fuel obj root r keys db) = db @ [r]"
    using assms by (auto simp: put_relation_def Let_def split: if_splits)
  then show ?thesis using canPerform_put isTrusted_sound unfolding network_canPerform_def by fast
qed

definition rooted :: "string \<Rightarrow> relation list \<Rightarrow> bool" where
  "rooted root db \<longleftrightarrow> distinct db \<and> (\<forall>r \<in> set db. (root, rel_from r) \<in> (trust db)\<^sup>*)"

lemma put_relation_rooted: "rooted root db \<Longrightarrow> rooted root (snd (put_relation fuel obj root r keys db))"
proof (cases "snd (put_relation fuel obj root r keys db) = db")
  case False
  assume db: "rooted root db"
  have new: "snd (put_relation fuel obj root r keys db) = db @ [r]" "r \<notin> set db" using False by (auto simp: put_relation_def Let_def split: if_splits)
  then have "(root, rel_from r) \<in> (trust db)\<^sup>*" using put_relation_trusted [of fuel obj root r keys db] by auto
  moreover have "(trust db)\<^sup>* \<subseteq> (trust (db @ [r]))\<^sup>*" by (intro rtrancl_mono trust_mono) auto
  ultimately show ?thesis using db new by (auto simp: rooted_def)
qed simp

lemma network_add_rooted: "rooted root db \<Longrightarrow> rooted root (snd (network_add fuel obj root me trustee db))"
  using put_relation_rooted [of root db fuel obj _ "[me]"] by (auto simp: network_add_def Let_def split: option.split prod.split) (metis snd_conv)

lemma network_run_rooted: "(network_step root)\<^sup>*\<^sup>* [] db \<Longrightarrow> rooted root db"
proof (induction rule: rtranclp_induct)
  case base
  then show ?case by (simp add: rooted_def)
next
  case (step db db')
  from step(2, 3) show ?case by cases (simp_all add: put_relation_rooted network_add_rooted)
qed

section \<open>Properties\<close>


definition rel :: "string \<Rightarrow> string \<Rightarrow> relation" where
  "rel a b = \<lparr>rel_from = a, rel_to = b\<rparr>"

definition one_object :: "nat \<Rightarrow> relation \<Rightarrow> nat" where
  "one_object n r = length (rel_from r) * 10 + length (rel_to r)"

definition own_object :: "nat \<Rightarrow> relation \<Rightarrow> nat" where
  "own_object n r = to_nat (n, rel_from r, rel_to r)"

lemma own_object_fresh: "fresh_objects own_object"
  unfolding fresh_objects_def own_object_def by (auto intro: relation.equality)

text \<open>The root adds \<open>a\<close>, which adds \<open>bb\<close>; \<open>ccc\<close>, whom nobody trusts, adds \<open>d\<close> in vain.\<close>

definition network_ex :: "relation list" where
  "network_ex = snd (network_add 9 one_object ''root'' ''ccc'' ''d'' (snd (network_add 9 one_object ''root'' ''a'' ''bb'' (snd (network_add 9 one_object ''root'' ''root'' ''a'' [])))))"


text \<open>Whom the network takes for trusted has a path of trust from the root, whether relations are cached or not: a single peer that is asked for, and
  every member of the list of trusted peers.\<close>

theorem trusted_peers_have_paths:
  "(isTrusted fuel obj db root k root = Some True \<longrightarrow> (root, k) \<in> (trust db)\<^sup>*) \<and>
   (\<forall>ps. getTrusted fuel obj db root = Some ps \<longrightarrow> (\<forall>p \<in> set ps. (root, p) \<in> (trust db)\<^sup>*))"
proof -
  have "(root, p) \<in> (trust db)\<^sup>*" if "getTrusted fuel obj db root = Some ps" "p \<in> set ps" for ps p
    using that members_sound [of fuel obj db 0 "[root]" "[]" _ p] by (auto simp: getTrusted_def)
  then show ?thesis using isTrusted_sound by blast
qed

theorem trusted_peers_have_paths_witness:
  "getTrusted 9 one_object network_ex ''root'' = Some [''root'', ''a'', ''bb''] \<and> (''root'', ''bb'') \<in> (trust network_ex)\<^sup>*"
proof -
  have "getTrusted 9 one_object network_ex ''root'' = Some [''root'', ''a'', ''bb'']" by code_simp
  then show ?thesis using trusted_peers_have_paths [of 9 one_object network_ex "''root''"] by simp
qed

text \<open>(C30) When every query hands out new objects, a peer is found to be trusted exactly when it has a path of trust from the root, in at most one
  generation per relation.\<close>

theorem isTrusted_decides:
  assumes "fresh_objects obj" and "distinct db" and "length db \<le> fuel"
  shows "isTrusted fuel obj db root k root = Some True \<longleftrightarrow> (root, k) \<in> (trust db)\<^sup>*"
proof
  assume "(root, k) \<in> (trust db)\<^sup>*"
  then show "isTrusted fuel obj db root k root = Some True" using isTrusted_complete assms by blast
qed (rule isTrusted_sound)

theorem isTrusted_decides_witness: "isTrusted 2 own_object network_ex ''root'' ''bb'' ''root'' = Some True"
proof -
  have ex: "network_ex = [rel ''root'' ''a'', rel ''a'' ''bb'']" by code_simp
  have "(''root'', ''a'') \<in> trust network_ex" "(''a'', ''bb'') \<in> trust network_ex" by (simp_all add: ex trust_iff rel_def)
  then have "(''root'', ''bb'') \<in> (trust network_ex)\<^sup>*" by auto
  then show ?thesis using isTrusted_decides [OF own_object_fresh, of network_ex 2 "''root''" "''bb''"] by (simp add: ex rel_def)
qed

text \<open>When a relation always is the same object, as from a cache, the question whether a peer is trusted is answered, in at most two
  generations more than there are relations.\<close>

theorem isTrusted_returns_cached:
  assumes "\<forall>n r. obj n r = obj 0 r" and "length db + 2 \<le> fuel"
  shows "\<exists>b. isTrusted fuel obj db root k root = Some b"
proof -
  have obj: "obj = (\<lambda>_. obj 0)" using assms(1) by auto
  have "path_loop fuel (\<lambda>_. obj 0) getFromByTo db (\<lambda>x. root = x) 0 [k] [] \<noteq> None"
    by (rule path_loop_cached) (use assms(2) in \<open>auto simp: objects_ok_def\<close>)
  then have "path_loop fuel obj getFromByTo db (\<lambda>x. root = x) 0 [k] [] \<noteq> None" using obj by metis
  then show ?thesis by (auto simp: isTrusted_def hasPath_def hasPathToTarget_def)
qed

theorem isTrusted_returns_cached_witness: "\<exists>b. isTrusted 4 one_object [rel ''a'' ''bb'', rel ''bb'' ''a''] ''root'' ''a'' ''root'' = Some b"
  using isTrusted_returns_cached [of one_object "[rel ''a'' ''bb'', rel ''bb'' ''a'']" 4 "''root''" "''a''"] by (simp add: one_object_def)

text \<open>(C32) When every query hands out new objects, a peer that is on a cycle of trust and that the root does not trust makes the question run for ever.\<close>

theorem untrusted_cycles_run_for_ever:
  assumes "fresh_objects obj" and "distinct db" and "(k, k) \<in> (trust db)\<^sup>+" and "(root, k) \<notin> (trust db)\<^sup>*"
  shows "isTrusted fuel obj db root k root = None"
proof -
  have "path_loop fuel obj getFromByTo db (\<lambda>x. root = x) 0 [k] [] = None"
    by (rule path_loop_cycles [OF assms(1, 2), where k = k]) (use assms(3, 4) in \<open>auto simp: visited_before_def\<close>)
  then show ?thesis using assms(4) by (auto simp: isTrusted_def hasPath_def hasPathToTarget_def)
qed

theorem untrusted_cycles_run_for_ever_witness: "\<forall>fuel. isTrusted fuel own_object [rel ''a'' ''bb'', rel ''bb'' ''a''] ''root'' ''a'' ''root'' = None"
proof
  fix fuel
  let ?db = "[rel ''a'' ''bb'', rel ''bb'' ''a'']"
  have t: "trust ?db = {(''a'', ''bb''), (''bb'', ''a'')}" by (auto simp: trust_iff rel_def)
  have "(''a'', ''a'') \<in> (trust ?db)\<^sup>+" unfolding t by (meson insertI1 insertI2 r_into_trancl trancl_into_trancl)
  moreover have "(''root'', ''a'') \<notin> (trust ?db)\<^sup>*" unfolding t by (auto elim: converse_rtranclE)
  moreover have "distinct ?db" by (simp add: rel_def)
  ultimately show "isTrusted fuel own_object ?db ''root'' ''a'' ''root'' = None" using untrusted_cycles_run_for_ever [OF own_object_fresh] by blast
qed

text \<open>When relations are cached, the search ends at the first one it meets again, so two ways to the same peer hide the root behind it: the root
  trusts \<open>bb\<close>, which trusts \<open>ccc\<close>, which trusts two others that both trust \<open>k\<close>, and \<open>k\<close> is not trusted.\<close>

definition diamond_ex :: "relation list" where
  "diamond_ex = [rel ''root'' ''bb'', rel ''bb'' ''ccc'', rel ''ccc'' ''dddddd'', rel ''ccc'' ''eeeeeee'', rel ''dddddd'' ''k'', rel ''eeeeeee'' ''k'']"

theorem cached_relations_hide_paths:
  "isTrusted 9 one_object diamond_ex ''root'' ''k'' ''root'' = Some False \<and> (''root'', ''k'') \<in> (trust diamond_ex)\<^sup>* \<and> inj_on (one_object n) (set diamond_ex)"
proof -
  have "isTrusted 9 one_object diamond_ex ''root'' ''k'' ''root'' = Some False" by code_simp
  moreover have "(''root'', ''bb'') \<in> trust diamond_ex" "(''bb'', ''ccc'') \<in> trust diamond_ex" "(''ccc'', ''dddddd'') \<in> trust diamond_ex" "(''dddddd'', ''k'') \<in> trust diamond_ex"
    by (simp_all add: diamond_ex_def trust_iff rel_def)
  moreover have "inj_on (one_object n) (set diamond_ex)" by (simp add: diamond_ex_def rel_def one_object_def)
  ultimately show ?thesis by (meson r_into_rtrancl rtrancl.rtrancl_into_rtrancl)
qed

end
