(* ===== verification/Spec2Isabelle.thy ===== *)
theory Spec2Isabelle
  imports Cache Clock Segments Routes PushableLanes CoverSet Sharing DirectStream TrustGraph
begin

text \<open>
  Verification of Peerbit (\<open>dao-xyz/3db\<close>), a peer-to-peer database in TypeScript.

  \<^bold>\<open>The program.\<close> Peers keep append-only logs of signed entries (\<open>packages/log\<close>). An entry references
  the heads it was appended after, carries a hybrid logical clock and a graph id, and is indexed by its
  hash in an index engine (\<open>packages/utils/indexer\<close>), with recently used entries in a cache
  (\<open>packages/utils/cache\<close>). A shared log (\<open>packages/programs/data/shared-log\<close>) spreads entries over the
  peers: every peer replicates arcs of a ring of coordinates. Messages travel over direct streams
  between neighbours, routed by a table of known paths and sent through prioritised lanes
  (\<open>packages/transport/stream\<close>).

  \<^bold>\<open>Theories and sources.\<close> Data and operations keep the names of the code where they are free;
  otherwise they carry a prefix (\<open>hm_\<close> for \<open>HashmapIndex\<close>, \<open>ei_\<close> for \<open>EntryIndex\<close>, \<open>it_\<close> for the closures of
  \<open>iterate\<close>).

  \<^item> \<open>Prelude\<close>: what the code uses of JavaScript: \<open>Map\<close> and \<open>Set\<close> in insertion order, \<open>Array.sort\<close>, sums
    as results that may be a thrown error.
  \<^item> \<open>Cache\<close>: \<open>cache/src/index.ts\<close>. A record of map, tombstones, list and size; \<open>trim\<close> is a terminating
    function. Shown: the representation invariant, that no operation throws, the size bound, what \<open>get\<close>
    returns after \<open>add\<close>; and that a key added again after \<open>del\<close> is not counted.
  \<^item> \<open>Clock\<close>: \<open>log/src/clock.ts\<close>. Shown: timestamps are a linear order, what \<open>update\<close> returns and when it
    throws, and that the timestamps of a clock increase strictly along every sequence of events.
  \<^item> \<open>Segments\<close>: \<open>shared-log/src/integers.ts\<close> and the first part of \<open>ranges.ts\<close>, at both resolutions.
    Shown: a range is an arc of the ring, \<open>contains\<close> and \<open>overlaps\<close> decide membership and common points,
    the message form is lossless, and the symmetric difference of ranges has exactly the right points.
  \<^item> \<open>RangeMerge\<close>: distances on the ring, \<open>mergeRanges\<close> and \<open>mergeReplicationChanges\<close> of \<open>ranges.ts\<close>, with the history
    of rebalanced ranges in a \<open>Cache\<close>. Shown: a merged range covers its parts, a replacement leaves exactly
    the points that changed; and three defects of merging.
  \<^item> \<open>RangeQueries\<close>: the queries of \<open>ranges.ts\<close> over the in-memory index, and \<open>toRebalance\<close>. Shown: they select the
    ranges that contain a point or cover a range, and the entries that a change concerns.
  \<^item> \<open>RangeSamples\<close>: iterators (\<open>joinIterator\<close>, \<open>iteratorInSeries\<close>), \<open>getClosest\<close>, adjacent ranges and \<open>getSamples\<close>.
    Shown: the first range of \<open>getClosest\<close> is a closest one, and who the leaders of \<open>getSamples\<close> are.
  \<^item> \<open>CoverSet\<close>: \<open>getStartAndEnd\<close> and \<open>getCoverSet\<close>. Shown: the loop ends and its owners are owners of ranges; and
    two defects of adjacent ranges.
  \<^item> \<open>Routes\<close>: \<open>stream/src/routes.ts\<close>. The table is a record of maps; an inductive step relation has one
    rule per operation, the timer included. Shown: the order of the lists in every reachable state, what
    \<open>add\<close>, \<open>remove\<close>, \<open>updateSession\<close>, \<open>getFanout\<close> and \<open>getPrunable\<close> do; and two defects of \<open>cleanup\<close> and \<open>add\<close>.
  \<^item> \<open>PushableLanes\<close>: \<open>stream/src/pushable-lanes.ts\<close>. The queue library is the parameter \<open>fifo_ops\<close> with the
    laws of the locale \<open>fifo\<close>. Shown: every interleaving of pushes and reads delivers each lane in order
    and without loss, lower lanes go first, and the end overtakes the values of later lanes.
  \<^item> \<open>Query\<close>: \<open>indexer/interface/src\<close> (\<open>query.ts\<close>, \<open>id.ts\<close>, \<open>utils.ts\<close>) and the matcher of
    \<open>indexer/simple/src/index.ts\<close>. Documents are values of \<open>jsval\<close>. Shown: the matcher decides the meaning
    of a query, conditions on an array hold for one common element; and three defects.
  \<^item> \<open>HashmapIndex\<close>: the rest of \<open>indexer/simple/src/index.ts\<close>. Shown: queries select and deletions remove
    exactly the documents a query holds for, \<open>get\<close> after \<open>put\<close>, the batches of an iterator, sorting; and that
    \<open>pending\<close> swallows a result.
  \<^item> \<open>Entries\<close>: entries, sorting and the creation of entries of \<open>log/src\<close>. Shown: a new entry comes after
    its references, the order of last-write-wins, heads and tails of a collection.
  \<^item> \<open>EntryIndex\<close>: \<open>log/src/entry-index.ts\<close>, over \<open>HashmapIndex\<close> and \<open>Cache\<close> through the locales \<open>keyed_store\<close>
    and \<open>memo_store\<close>. Shown: insertion and deletion keep head flags, length and cache right, the reported
    graph ids are exact; and two defects of \<open>has\<close> and of the hash check.

  \<^item> \<open>Trim\<close>: \<open>log/src/trim.ts\<close>. The walk over the entries has fuel; the number of entries plus two is enough.
    Shown: a run returns without throwing, keeps the invariant of the entry index and respects the filter,
    and trimming to a length keeps the newest entries; and that entries of equal wall time are passed over.
  \<^item> \<open>Log\<close>: \<open>log/src/log.ts\<close>: \<open>append\<close>, \<open>join\<close>, \<open>remove\<close>, recursive deletion, \<open>trim\<close>, \<open>load\<close>, \<open>close\<close>, \<open>drop\<close>. A log is a record of
    entry index, trimmer, clock and reported changes.
  \<^item> \<open>LogJoin\<close>: joining. The entries that exist form a world; a replica holds a part that is closed under
    references. Shown: \<open>join\<close> refines the union of sets, with the fuel the number of entries of the world,
    and replicas that received the same entries in any order converge.
  \<^item> \<open>LogUpdate\<close>: appending and removing. Shown: an append makes the new entry the only head, later than all
    others; removal deletes exactly what was asked; recursive removal returns and leaves no dangling
    reference; and four defects of recursive removal and of joining.
  \<^item> \<open>SimpleSync\<close>: \<open>shared-log/src/sync/simple.ts\<close>: the queue of announced keys, its inverse by peer and the requests in
    flight. Shown: the queue and its inverse agree in every reachable state, an announcement is queued or
    asked for, the request loop empties the queue; and that a round asks all peers for all keys, and that a
    key which became known drops a later announcement.
  \<^item> \<open>ExchangeHeads\<close>: \<open>shared-log/src/exchange-heads.ts\<close> over \<open>Log\<close>. Shown: the messages carry exactly the heads that the log
    has, in order, each message within the size plus one entry, references with pairwise different graph
    ids; the walk over references ends within the number of indexed entries plus three rounds.
  \<^item> \<open>Replicators\<close>: the replicated ranges of \<open>shared-log/src/index.ts\<close>: who replicates what, which ranges wait for
    maturity, announcements, subscriptions. Shown: the invariant along every sequence of steps, and that a full
    announcement synchronises the receiver with the sender; and seven defects.
  \<^item> \<open>Debounce\<close>: \<open>shared-log/src/debounce.ts\<close> and the accumulators of a shared log. Calls, the timer and the end of the
    function are steps. Shown: every call is followed by a run that starts after it, with its arguments; an
    accumulator hands over exactly what was added.
  \<^item> \<open>Leaders\<close>: degrees of replication, coordinates of entries, \<open>findLeaders\<close> and what is prunable, of \<open>shared-log/src/index.ts\<close>,
    over \<open>RangeSamples\<close>. Shown: the leaders of an entry are what sampling finds from its coordinates, and what
    is persisted of them.
  \<^item> \<open>Pruning\<close>: \<open>prune\<close>, requests and confirmations. Shown: along every run, an entry is removed on request only after as many
    peers as it needs replicas confirmed that they have it; and that a confirmation which is retracted still counts.
  \<^item> \<open>Controller\<close>: \<open>shared-log/src/pid.ts\<close> and \<open>cpu.ts\<close>, over reals. Shown: the factor stays between 0 and 1 along every run.
  \<^item> \<open>Participation\<close>: \<open>replicate\<close>, \<open>unreplicate\<close> and the adaptive range that the controller resizes. Shown: what becomes of the
    own ranges, and that a rebalancing gives the adaptive range the width the controller asked for.
  \<^item> \<open>Sharing\<close>: the shared log as a whole: \<open>append\<close>, \<open>join\<close> and received heads over \<open>Log\<close>, \<open>Leaders\<close> and \<open>Pruning\<close>. Shown: received
    heads that the peer leads are joined and not pruned, others are left out unless kept; and that a timeout
    of the wait for replicators drops the prunes of its group.
  \<^item> \<open>DirectStream\<close>: \<open>stream/src/index.ts\<close> and \<open>stream-interface/src/messages.ts\<close> over \<open>Routes\<close> and \<open>Cache\<close>, as a step relation of
    one node. Shown: a delivery that counts as acknowledged was acknowledged by every receiver, the signatures
    of a seek are a path and its acknowledgement goes back along it, messages live ten minutes; and that a
    timeout asks only for the first receiver.

  \<^bold>\<open>Interfaces.\<close> \<open>fifo\<close>, \<open>byte_lanes\<close> (lanes over a queue), \<open>keyed_store\<close> (an index by key) and \<open>memo_store\<close> (a
  cache that forgets but never invents), \<open>iterator\<close> (a source of batches, of which joined iterators are a
  \<open>joined_iterator\<close>) and \<open>owned_ranges\<close> (an index of ranges by id and owner), \<open>accumulates\<close>
  (how calls gather before a debounced run) state what a client relies on; they are interpreted on the
  model's own definitions, and the client's lemmas are used through the interpretation.

  \<^bold>\<open>Conventions.\<close> A throw is the left summand of a sum. Numbers that the code keeps in the safe range are
  \<open>int\<close>; the coordinates of \<open>Segments\<close> are bounded by \<open>maxValue\<close> of the resolution. Wall clock readings are
  arguments. Some loops have fuel. The matcher of \<open>Query\<close> recurses over arrays inside
  arrays, which need not end in the code: \<open>stack\<close> is the depth of the call stack, running out is the
  \<open>RangeError\<close> the code gets, and the theorems ask for a depth of one call per level of arrays they look at.
  The walk of \<open>Trim\<close>, and \<open>joinRecursively\<close> and \<open>prepareDeleteRecursively\<close> of \<open>Log\<close>, follow entries without a
  bound in the code: \<open>None\<close> is the call that does not return, and the theorems show how much fuel is enough.
  The same holds for the loops over iterators: \<open>getSamples\<close> needs one round per range and four more calls per
  range of the index, \<open>getCoverSet\<close> three rounds per coordinate of the ring, an iterator in series two;
  \<open>findLeaders\<close> gives \<open>getSamples\<close> four calls per range and two more. Fractions of replication factors and the
  controller are over \<open>real\<close>. Timers, answers and ends of waits are steps of relations; promises are numbers
  with their outcome.

  \<^bold>\<open>Not modelled.\<close> Serialisation, encryption and signatures (libraries; whether a signature verifies is a parameter);
  rounding of floating point numbers; concurrency inside an asynchronous operation (operations are atomic, so
  \<open>insertionPromises\<close> and queues of promises are empty between them); inherited properties of JavaScript
  objects; waiting in \<open>onEmpty\<close>; the life cycle of a shared log (\<open>open\<close>, \<open>close\<close>), which wires the parts; the
  synchroniser by rateless sketches, whose coding is a foreign library; libp2p streams and dialling. Whole packages:
  subscriptions of \<open>transport/pubsub\<close>, blocks and rpc, which send and await over the network; programs, documents,
  trusted networks and clients, built on the log; the generation of SQL of the sqlite index; keychain, stores
  and loggers, which adapt libraries.
\<close>

end
